(* ===== verification/DB_Prelude.thy ===== *)
theory DB_Prelude imports Main "HOL-Library.Word" "HOL-Library.AList"
begin

text \<open>
  What every component of the development shares: the result type of a C++ operation, byte
  buffers with checked \<^verbatim>\<open>memcpy\<close>, little-endian integers, C strings, the association lists that
  stand for \<^verbatim>\<open>unordered_map\<close>, and the collections of rewrite rules the component proofs use.

  \<^item> An operation that can throw or that has undefined behaviour returns \<open>err + 'a\<close>:
    \<open>Inl (Throw m)\<close> for \<^verbatim>\<open>throw runtime_error(m)\<close>, \<open>Inl Undefined\<close> for an access outside an
    array, a null or dangling pointer, or a read of a union member that is not the active one,
    and \<open>Inl Diverges\<close> for a loop that never ends.
  \<^item> \<^verbatim>\<open>int\<close> is modelled by \<open>int\<close> (signed overflow is undefined in C++, so the arithmetic is exact
    wherever it is defined), \<^verbatim>\<open>size_t\<close> by \<open>nat\<close>, and the truncation to \<^verbatim>\<open>uint16_t\<close> or
    \<^verbatim>\<open>uint32_t\<close> is written out with \<open>mod\<close>.
  \<^item> A \<^verbatim>\<open>std::string\<close> and a \<^verbatim>\<open>char\<close> array are \<open>string\<close>s; a raw buffer holds \<open>8 word\<close>s.
\<close>

unbundle bit_operations_syntax

named_theorems res_simps "unfolding of the result monad"
named_theorems buf_simps "capacity and contents of buffers after writes"
named_theorems codec_simps "lengths and shapes of encodings"

section \<open>Results\<close>

datatype err = Throw string | Undefined | Diverges

type_synonym 'a res = "err + 'a"

definition rbind :: "'a res \<Rightarrow> ('a \<Rightarrow> 'b res) \<Rightarrow> 'b res" where
  "rbind r f = (case r of Inl e \<Rightarrow> Inl e | Inr x \<Rightarrow> f x)"

lemma rbind_Inr [simp]: "rbind (Inr x) f = f x"
  by (simp add: rbind_def)

lemma rbind_Inl [simp]: "rbind (Inl e) f = Inl e"
  by (simp add: rbind_def)

lemma rbind_eq_Inr: "rbind r f = Inr y \<longleftrightarrow> (\<exists>x. r = Inr x \<and> f x = Inr y)"
  by (cases r) auto

lemma rbind_cong [fundef_cong]:
  "r = r' \<Longrightarrow> (\<And>x. r' = Inr x \<Longrightarrow> f x = f' x) \<Longrightarrow> rbind r f = rbind r' f'"
  by (cases r') auto

lemma rbind_assoc: "rbind (rbind r f) g = rbind r (\<lambda>x. rbind (f x) g)"
  by (cases r) auto

lemma rbind_if: "rbind (if c then a else b) f = (if c then rbind a f else rbind b f)"
  by simp

definition is_ok :: "'a res \<Rightarrow> bool" where
  "is_ok r = (case r of Inl _ \<Rightarrow> False | Inr _ \<Rightarrow> True)"

lemma is_ok_simps [simp]: "is_ok (Inr x)" "\<not> is_ok (Inl e)"
  by (simp_all add: is_ok_def)

lemma is_ok_iff: "is_ok r \<longleftrightarrow> (\<exists>x. r = Inr x)"
  by (cases r) auto

text \<open>\<^verbatim>\<open>assert(c)\<close>, and a check that an access is legal.\<close>

definition rassert :: "bool \<Rightarrow> unit res" where
  "rassert c = (if c then Inr () else Inl (Throw ''assert''))"

definition guard_ub :: "bool \<Rightarrow> unit res" where
  "guard_ub c = (if c then Inr () else Inl Undefined)"

lemma rassert_True [simp]: "rassert True = Inr ()"
  by (simp add: rassert_def)

lemma guard_ub_True [simp]: "guard_ub True = Inr ()"
  by (simp add: guard_ub_def)

lemma guard_ub_eq_Inr [simp]: "guard_ub c = Inr u \<longleftrightarrow> c"
  by (auto simp: guard_ub_def)

lemma rbind_guard_ub_eq_Inr: "rbind (guard_ub c) f = Inr y \<longleftrightarrow> c \<and> f () = Inr y"
  by (auto simp: guard_ub_def)

definition get_or_ub :: "'a option \<Rightarrow> 'a res" where
  "get_or_ub x = (case x of None \<Rightarrow> Inl Undefined | Some y \<Rightarrow> Inr y)"

lemma get_or_ub_simps [simp]:
  "get_or_ub (Some y) = Inr y" "get_or_ub None = Inl Undefined"
  by (simp_all add: get_or_ub_def)

lemma get_or_ub_eq_Inr: "get_or_ub x = Inr y \<longleftrightarrow> x = Some y"
  by (cases x) auto

text \<open>\<^verbatim>\<open>v[i]\<close> of a vector or an array, undefined outside its bounds.\<close>

definition vec_at :: "'a list \<Rightarrow> nat \<Rightarrow> 'a res" where
  "vec_at xs i = (if i < length xs then Inr (xs ! i) else Inl Undefined)"

definition vec_at_int :: "'a list \<Rightarrow> int \<Rightarrow> 'a res" where
  "vec_at_int xs i = (if 0 \<le> i \<and> i < int (length xs) then Inr (xs ! nat i) else Inl Undefined)"

lemma vec_at_ok [simp]: "i < length xs \<Longrightarrow> vec_at xs i = Inr (xs ! i)"
  by (simp add: vec_at_def)

lemma vec_at_int_ok [simp]: "0 \<le> i \<Longrightarrow> i < int (length xs) \<Longrightarrow> vec_at_int xs i = Inr (xs ! nat i)"
  by (simp add: vec_at_int_def)

lemma vec_at_eq_Inr: "vec_at xs i = Inr x \<longleftrightarrow> i < length xs \<and> x = xs ! i"
  by (auto simp: vec_at_def)

text \<open>A loop over a list that threads a state and stops at the first error.\<close>

fun rfold :: "('a \<Rightarrow> 's \<Rightarrow> 's res) \<Rightarrow> 'a list \<Rightarrow> 's \<Rightarrow> 's res" where
  "rfold f [] s = Inr s"
| "rfold f (x # xs) s = rbind (f x s) (rfold f xs)"

fun rmap :: "('a \<Rightarrow> 'b res) \<Rightarrow> 'a list \<Rightarrow> 'b list res" where
  "rmap f [] = Inr []"
| "rmap f (x # xs) = rbind (f x) (\<lambda>y. rbind (rmap f xs) (\<lambda>ys. Inr (y # ys)))"

lemma rbind_Inr_right [simp]: "rbind r Inr = r"
  by (cases r) auto

lemma rfold_Nil: "rfold f [] = Inr"
  by (rule ext) simp

lemma rmap_all_ok: "(\<And>x. x \<in> set xs \<Longrightarrow> f x = Inr (g x)) \<Longrightarrow> rmap f xs = Inr (map g xs)"
  by (induction xs) auto

lemma rmap_cong [fundef_cong]:
  "xs = ys \<Longrightarrow> (\<And>x. x \<in> set ys \<Longrightarrow> f x = g x) \<Longrightarrow> rmap f xs = rmap g ys"
  by (induction ys arbitrary: xs) auto

lemma rfold_append: "rfold f (xs @ ys) s = rbind (rfold f xs s) (rfold f ys)"
  by (induction xs arbitrary: s) (auto simp: rbind_assoc intro!: rbind_cong)

lemma rfold_cong [fundef_cong]:
  "xs = ys \<Longrightarrow> s = t \<Longrightarrow> (\<And>x s. x \<in> set ys \<Longrightarrow> f x s = g x s) \<Longrightarrow> rfold f xs s = rfold g ys t"
proof (induction ys arbitrary: xs s t)
  case (Cons y ys)
  then have "\<And>s. rfold f ys s = rfold g ys s" by simp
  with Cons.prems show ?case by (auto intro!: rbind_cong)
qed simp

lemma rfold_invariant:
  assumes "rfold f xs s = Inr t" "P s"
    and "\<And>x s t. x \<in> set xs \<Longrightarrow> f x s = Inr t \<Longrightarrow> P s \<Longrightarrow> P t"
  shows "P t"
  using assms
proof (induction xs arbitrary: s)
  case (Cons x xs)
  then obtain s' where s': "f x s = Inr s'" "rfold f xs s' = Inr t" by (auto simp: rbind_eq_Inr)
  with Cons.prems have "P s'" by (meson list.set_intros(1))
  with s'(2) Cons.IH Cons.prems(3) show ?case by (meson list.set_intros(2))
qed simp

lemmas [res_simps] = rbind_eq_Inr rbind_assoc get_or_ub_eq_Inr vec_at_eq_Inr rbind_guard_ub_eq_Inr

section \<open>Byte buffers\<close>

type_synonym byte = "8 word"

record buf =
  cap :: nat
  mem :: "nat \<Rightarrow> byte"

definition put :: "(nat \<Rightarrow> byte) \<Rightarrow> nat \<Rightarrow> byte list \<Rightarrow> (nat \<Rightarrow> byte)" where
  "put m off bs = (\<lambda>i. if off \<le> i \<and> i < off + length bs then bs ! (i - off) else m i)"

definition peek :: "(nat \<Rightarrow> byte) \<Rightarrow> nat \<Rightarrow> nat \<Rightarrow> byte list" where
  "peek m off n = map m [off..<off + n]"

lemma length_peek [simp]: "length (peek m off n) = n"
  by (simp add: peek_def)

lemma nth_peek [simp]: "i < n \<Longrightarrow> peek m off n ! i = m (off + i)"
  by (simp add: peek_def)

lemma peek_0 [simp]: "peek m off 0 = []"
  by (simp add: peek_def)

lemma peek_Suc_0: "peek m off (Suc 0) = [m off]"
  by (simp add: peek_def)

lemma peek_eqI: "(\<And>i. off \<le> i \<Longrightarrow> i < off + n \<Longrightarrow> m i = m' i) \<Longrightarrow> peek m off n = peek m' off n"
  by (auto simp: peek_def)

lemma peek_eq_iff: "peek m off n = bs \<longleftrightarrow> length bs = n \<and> (\<forall>i<n. m (off + i) = bs ! i)"
  by (auto simp: list_eq_iff_nth_eq)

lemma peek_add: "peek m off (a + b) = peek m off a @ peek m (off + a) b"
  by (auto simp: peek_def map_append[symmetric] simp del: map_append)
     (metis add.assoc le_add1 upt_add_eq_append)

lemma append4_eq:
  "a @ b @ c @ d = a' @ b' @ c' @ d' \<Longrightarrow> length a = length a' \<Longrightarrow> length b = length b' \<Longrightarrow>
   length c = length c' \<Longrightarrow> a = a' \<and> b = b' \<and> c = c' \<and> d = d'"
  by simp

lemma peek_sub:
  assumes "peek m off n = bs" "i + k \<le> n"
  shows "peek m (off + i) k = take k (drop i bs)"
  using assms by (auto simp: peek_eq_iff add.assoc)

lemma peek_put_same [simp]: "peek (put m off bs) off (length bs) = bs"
  by (simp add: peek_eq_iff put_def)

lemma peek_put_within:
  "i + k \<le> length bs \<Longrightarrow> peek (put m off bs) (off + i) k = take k (drop i bs)"
  using peek_sub[OF peek_put_same] by blast

lemma peek_put_prefix: "k \<le> length bs \<Longrightarrow> peek (put m off bs) off k = take k bs"
  using peek_put_within[of 0 k bs m off] by simp

lemma peek_put_disjoint:
  "off + n \<le> p \<or> p + length bs \<le> off \<Longrightarrow> peek (put m p bs) off n = peek m off n"
  by (rule peek_eqI) (auto simp: put_def)

lemma put_outside [simp]: "i < off \<Longrightarrow> put m off bs i = m i" "off + length bs \<le> i \<Longrightarrow> put m off bs i = m i"
  by (simp_all add: put_def)

lemma put_Nil [simp]: "put m off [] = m"
  by (auto simp: put_def fun_eq_iff)

lemma put_put_append: "put (put m off as) (off + length as) bs = put m off (as @ bs)"
  by (auto simp: put_def fun_eq_iff nth_append)

lemma put_shadow: "length as \<le> length bs \<Longrightarrow> put (put m off as) off bs = put m off bs"
  by (auto simp: put_def fun_eq_iff)

text \<open>
  \<^verbatim>\<open>memcpy\<close> into and out of an array: outside the array's bounds the behaviour is undefined.
\<close>

definition memcpy_to :: "buf \<Rightarrow> nat \<Rightarrow> byte list \<Rightarrow> buf res" where
  "memcpy_to b off bs =
     (if off + length bs \<le> cap b then Inr (b\<lparr>mem := put (mem b) off bs\<rparr>) else Inl Undefined)"

definition memcpy_from :: "buf \<Rightarrow> nat \<Rightarrow> nat \<Rightarrow> byte list res" where
  "memcpy_from b off n = (if off + n \<le> cap b then Inr (peek (mem b) off n) else Inl Undefined)"

definition zero_buf :: "nat \<Rightarrow> buf" where
  "zero_buf n = \<lparr>cap = n, mem = (\<lambda>_. 0)\<rparr>"

lemma memcpy_to_ok [buf_simps]:
  "off + length bs \<le> cap b \<Longrightarrow> memcpy_to b off bs = Inr (b\<lparr>mem := put (mem b) off bs\<rparr>)"
  by (simp add: memcpy_to_def)

lemma memcpy_from_ok [buf_simps]:
  "off + n \<le> cap b \<Longrightarrow> memcpy_from b off n = Inr (peek (mem b) off n)"
  by (simp add: memcpy_from_def)

lemma memcpy_to_eq_Inr:
  "memcpy_to b off bs = Inr b' \<longleftrightarrow> off + length bs \<le> cap b \<and> b' = b\<lparr>mem := put (mem b) off bs\<rparr>"
  by (auto simp: memcpy_to_def)

lemma memcpy_from_eq_Inr:
  "memcpy_from b off n = Inr bs \<longleftrightarrow> off + n \<le> cap b \<and> bs = peek (mem b) off n"
  by (auto simp: memcpy_from_def)

lemma memcpy_to_append:
  "rbind (memcpy_to b off as) (\<lambda>b. memcpy_to b (off + length as) bs) = memcpy_to b off (as @ bs)"
  by (auto simp: memcpy_to_def put_put_append)

lemma memcpy_to_append3:
  "rbind (memcpy_to b off as) (\<lambda>b. rbind (memcpy_to b (off + length as) bs) (\<lambda>b.
     memcpy_to b (off + length as + length bs) cs))
   = memcpy_to b off (as @ bs @ cs)"
  by (auto simp: memcpy_to_def put_put_append[symmetric] add.assoc)

lemma memcpy_to_append4:
  "rbind (memcpy_to b off as) (\<lambda>b. rbind (memcpy_to b (off + length as) bs) (\<lambda>b.
     rbind (memcpy_to b (off + length as + length bs) cs) (\<lambda>b.
       memcpy_to b (off + length as + length bs + length cs) ds)))
   = memcpy_to b off (as @ bs @ cs @ ds)"
  by (auto simp: memcpy_to_def put_put_append[symmetric] add.assoc)

lemmas [res_simps] = memcpy_to_eq_Inr memcpy_from_eq_Inr

section \<open>Little-endian integers\<close>

fun le_bytes :: "nat \<Rightarrow> nat \<Rightarrow> byte list" where
  "le_bytes 0 v = []"
| "le_bytes (Suc n) v = word_of_nat v # le_bytes n (v div 256)"

fun le_val :: "byte list \<Rightarrow> nat" where
  "le_val [] = 0"
| "le_val (b # bs) = unat b + 256 * le_val bs"

lemma length_le_bytes [simp]: "length (le_bytes n v) = n"
  by (induction n arbitrary: v) auto

lemma le_val_le_bytes: "le_val (le_bytes n v) = v mod 256 ^ n"
proof (induction n arbitrary: v)
  case (Suc n)
  have "unat (word_of_nat v :: byte) = v mod 256"
    by (simp add: unat_of_nat)
  then show ?case
    using Suc by (simp add: mod_mult2_eq[symmetric] mult.commute add.commute)
                 (metis mod_mult2_eq add.commute mult.commute)
qed simp

lemma le_val_bound: "le_val bs < 256 ^ length bs"
proof (induction bs)
  case (Cons b bs)
  have "unat b < 256" using unsigned_less[of b] by simp
  moreover have "256 * le_val bs \<le> 256 * (256 ^ length bs - 1)"
    using Cons by (intro mult_le_mono2) auto
  moreover have "256 * ((256::nat) ^ length bs - 1) + 256 \<le> 256 * 256 ^ length bs"
    using one_le_power[of "256::nat" "length bs"] by (simp add: diff_mult_distrib2)
  ultimately show ?case by simp
qed simp

lemma le_bytes_le_val [simp]: "le_bytes (length bs) (le_val bs) = bs"
proof (induction bs)
  case (Cons b bs)
  have b: "unat b < 256" using unsigned_less[of b] by simp
  have "(unat b + 256 * le_val bs) div 256 = le_val bs" using b by simp
  moreover have "(word_of_nat (unat b + 256 * le_val bs) :: byte) = b"
  proof (rule word_unat_eq_iff[THEN iffD2])
    have "unat (word_of_nat (unat b + 256 * le_val bs) :: byte) = (unat b + 256 * le_val bs) mod 256"
      by (simp only: unat_of_nat) simp
    then show "unat (word_of_nat (unat b + 256 * le_val bs) :: byte) = unat b" using b by simp
  qed
  ultimately show ?case using Cons by simp
qed simp

lemma nth_le_bytes: "i < n \<Longrightarrow> le_bytes n v ! i = word_of_nat (v div 256 ^ i)"
proof (induction n arbitrary: v i)
  case (Suc n)
  then show ?case by (cases i) (simp_all add: div_mult2_eq)
qed simp

text \<open>The encodings of \<^verbatim>\<open>uint16_t\<close>, \<^verbatim>\<open>uint32_t\<close>, \<^verbatim>\<open>size_t\<close> and \<^verbatim>\<open>int\<close>.\<close>

definition u16_bytes :: "nat \<Rightarrow> byte list" where "u16_bytes v = le_bytes 2 v"
definition u32_bytes :: "nat \<Rightarrow> byte list" where "u32_bytes v = le_bytes 4 v"
definition u64_bytes :: "nat \<Rightarrow> byte list" where "u64_bytes v = le_bytes 8 v"

definition i32_bytes :: "int \<Rightarrow> byte list" where
  "i32_bytes v = le_bytes 4 (nat (v mod 2 ^ 32))"

definition i32_val :: "byte list \<Rightarrow> int" where
  "i32_val bs = (let v = int (le_val bs) in if v < 2 ^ 31 then v else v - 2 ^ 32)"

definition in_i32 :: "int \<Rightarrow> bool" where
  "in_i32 v \<longleftrightarrow> - (2 ^ 31) \<le> v \<and> v < 2 ^ 31"

lemma length_int_bytes [simp]:
  "length (u16_bytes v) = 2" "length (u32_bytes v) = 4" "length (u64_bytes v) = 8"
  "length (i32_bytes i) = 4"
  by (simp_all add: u16_bytes_def u32_bytes_def u64_bytes_def i32_bytes_def)

lemma le_val_u16 [simp]: "le_val (u16_bytes v) = v mod 65536"
  by (simp add: u16_bytes_def le_val_le_bytes)

lemma le_val_u32 [simp]: "le_val (u32_bytes v) = v mod 2 ^ 32"
  by (simp add: u32_bytes_def le_val_le_bytes)

lemma le_val_u64 [simp]: "le_val (u64_bytes v) = v mod 2 ^ 64"
  by (simp add: u64_bytes_def le_val_le_bytes)

lemma i32_val_bytes [simp]: "in_i32 v \<Longrightarrow> i32_val (i32_bytes v) = v"
proof -
  assume v: "in_i32 v"
  have e: "int (le_val (i32_bytes v)) = v mod 2 ^ 32"
    by (simp add: i32_bytes_def le_val_le_bytes nat_mod_distrib flip: zmod_int)
  show ?thesis
  proof (cases "0 \<le> v")
    case True
    with v have "v mod 2 ^ 32 = v" by (simp add: in_i32_def)
    with e v show ?thesis by (simp add: i32_val_def in_i32_def)
  next
    case False
    have "v mod 2 ^ 32 = (v + 2 ^ 32) mod 2 ^ 32" by simp
    also have "\<dots> = v + 2 ^ 32"
      using v False by (intro mod_pos_pos_trivial) (auto simp: in_i32_def)
    finally have "v mod 2 ^ 32 = v + 2 ^ 32" .
    with e v False show ?thesis by (simp add: i32_val_def in_i32_def)
  qed
qed

lemma in_i32_val: "length bs = 4 \<Longrightarrow> in_i32 (i32_val bs)"
  using le_val_bound[of bs] by (auto simp: i32_val_def in_i32_def Let_def)

lemma i32_bytes_val [simp]: "length bs = 4 \<Longrightarrow> i32_bytes (i32_val bs) = bs"
proof -
  assume l: "length bs = 4"
  then have "int (le_val bs) < 2 ^ 32" using le_val_bound[of bs] by simp
  then have "nat (i32_val bs mod 2 ^ 32) = le_val bs"
    by (auto simp: i32_val_def Let_def minus_mod_self2 simp del: of_nat_less_numeral_iff)
  then show ?thesis using le_bytes_le_val[of bs] l by (simp add: i32_bytes_def)
qed

lemmas [codec_simps] = length_int_bytes

section \<open>Strings\<close>

definition str_bytes :: "string \<Rightarrow> byte list" where
  "str_bytes s = map (\<lambda>c. word_of_nat (of_char c)) s"

definition bytes_str :: "byte list \<Rightarrow> string" where
  "bytes_str bs = map (\<lambda>b. char_of (unat b)) bs"

lemma length_str_bytes [simp]: "length (str_bytes s) = length s"
  by (simp add: str_bytes_def)

lemma length_bytes_str [simp]: "length (bytes_str bs) = length bs"
  by (simp add: bytes_str_def)

lemma char_of_of_char_byte [simp]: "char_of (unat (word_of_nat (of_char c) :: byte)) = c"
proof -
  have "of_char c mod 256 = (of_char c :: nat)" by simp
  then have "unat (word_of_nat (of_char c) :: byte) = of_char c" by (simp only: unat_of_nat) simp
  then show ?thesis by simp
qed

lemma bytes_str_str_bytes [simp]: "bytes_str (str_bytes s) = s"
  by (simp add: str_bytes_def bytes_str_def comp_def)

lemma str_Nil [simp]: "bytes_str [] = []" "str_bytes [] = []"
  by (simp_all add: bytes_str_def str_bytes_def)

lemma take_str_bytes [simp]: "take n (str_bytes s) = str_bytes (take n s)"
  by (simp add: str_bytes_def take_map)

lemma str_bytes_append [simp]: "str_bytes (s @ t) = str_bytes s @ str_bytes t"
  by (simp add: str_bytes_def)

text \<open>
  \<^verbatim>\<open>string(p)\<close> for a \<^verbatim>\<open>const char*\<close>: the characters before the first NUL of the array. Without a
  NUL in the array the read runs past its end.
\<close>

definition NUL :: char where "NUL = CHR 0x00"

definition c_str :: "string \<Rightarrow> string res" where
  "c_str arr = (if NUL \<in> set arr then Inr (takeWhile (\<lambda>c. c \<noteq> NUL) arr) else Inl Undefined)"

lemma takeWhile_NUL [simp]: "NUL \<notin> set s \<Longrightarrow> takeWhile (\<lambda>c. c \<noteq> NUL) (s @ [NUL]) = s"
  by (induction s) auto

lemma c_str_terminated [simp]: "NUL \<notin> set s \<Longrightarrow> c_str (s @ [NUL]) = Inr s"
  by (simp add: c_str_def)

text \<open>\<^verbatim>\<open>operator<\<close> of \<^verbatim>\<open>std::string\<close>: lexicographic on unsigned bytes.\<close>

fun str_less :: "string \<Rightarrow> string \<Rightarrow> bool" where
  "str_less _ [] = False"
| "str_less [] (_ # _) = True"
| "str_less (a # as) (b # bs) =
     ((of_char a :: nat) < of_char b \<or> (a = b \<and> str_less as bs))"

lemma str_less_irrefl [simp]: "\<not> str_less s s"
  by (induction s) auto

lemma str_less_trans: "str_less r s \<Longrightarrow> str_less s t \<Longrightarrow> str_less r t"
proof (induction r s arbitrary: t rule: str_less.induct)
  case (2 b bs)
  then show ?case by (cases t) auto
next
  case (3 a as b bs)
  then show ?case by (cases t) auto
qed simp

lemma str_less_linear: "str_less s t \<or> s = t \<or> str_less t s"
proof (induction s t rule: str_less.induct)
  case (1 s)
  then show ?case by (cases s) auto
next
  case (3 a as b bs)
  then show ?case
    by (metis linorder_less_linear of_char_eq_iff str_less.simps(3))
qed simp

section \<open>Association lists\<close>

text \<open>
  An \<^verbatim>\<open>unordered_map\<close> is an association list with distinct keys; its order stands for the
  container's unspecified iteration order. \<^const>\<open>AList.update\<close> is \<^verbatim>\<open>m[k] = v\<close>,
  \<^const>\<open>AList.delete\<close> is \<^verbatim>\<open>m.erase(k)\<close>.
\<close>

lemma map_of_delete [simp]: "map_of (AList.delete k al) = (map_of al)(k := None)"
  by (simp add: AList.delete_conv')

lemma map_of_update [simp]: "map_of (AList.update k v al) = (map_of al)(k \<mapsto> v)"
  by (simp add: AList.update_conv')

lemma update_fresh: "k \<notin> fst ` set al \<Longrightarrow> AList.update k v al = al @ [(k, v)]"
  by (induction al) auto

lemma length_update: "length (AList.update k v al) = (if k \<in> fst ` set al then length al else Suc (length al))"
  by (induction al) auto

lemma length_delete_distinct:
  "distinct (map fst al) \<Longrightarrow> k \<in> fst ` set al \<Longrightarrow> Suc (length (AList.delete k al)) = length al"
proof (induction al)
  case (Cons a al)
  show ?case
  proof (cases "fst a = k")
    case True
    with Cons.prems have "k \<notin> fst ` set al" by auto
    then have "AList.delete k al = al" by (force simp: AList.delete_eq filter_id_conv)
    with True show ?thesis by (auto simp: AList.delete_eq)
  next
    case False
    with Cons show ?thesis by (auto simp: AList.delete_eq)
  qed
qed simp

lemma foldl_update_distinct:
  "distinct (map fst (al @ bl)) \<Longrightarrow> foldl (\<lambda>m (k, v). AList.update k v m) al bl = al @ bl"
proof (induction bl arbitrary: al)
  case (Cons p bl)
  obtain k v where p: "p = (k, v)" by (cases p)
  with Cons.prems have "k \<notin> fst ` set al" by auto
  then have "AList.update k v al = al @ [(k, v)]" by (rule update_fresh)
  with Cons.IH[of "al @ [(k, v)]"] Cons.prems p show ?case by simp
qed simp

end
