(* ===== verification/Codec.thy ===== *)
theory Codec imports DB_Prelude
begin

text \<open>
  The interface between an object that serializes itself and the objects made of several of
  them. \<^verbatim>\<open>Field\<close>, \<^verbatim>\<open>RID\<close>, \<^verbatim>\<open>Column\<close> and \<^verbatim>\<open>Tuple\<close> each write themselves to a raw pointer and
  report a size; the caller advances by that size. Two things can go wrong in such a scheme and
  both occur in the code: an object may write more bytes than it reports (\<open>over\<close> below), and an
  object may look at more bytes than it owns when it reads itself back. The locale states what a
  well-behaved object promises, overrun included, and derives what happens to a sequence.
\<close>

section \<open>Sequences of serialized objects\<close>

text \<open>The loops \<^verbatim>\<open>for(x : xs){ x.serialize(buffer+offset); offset += x.size(); }\<close> and its inverse.\<close>

fun write_seq :: "('a \<Rightarrow> buf \<Rightarrow> nat \<Rightarrow> buf res) \<Rightarrow> ('a \<Rightarrow> nat) \<Rightarrow> 'a list \<Rightarrow> buf \<Rightarrow> nat \<Rightarrow> buf res" where
  "write_seq wr sz [] b off = Inr b"
| "write_seq wr sz (x # xs) b off = rbind (wr x b off) (\<lambda>b. write_seq wr sz xs b (off + sz x))"

fun read_seq :: "(buf \<Rightarrow> nat \<Rightarrow> 'a res) \<Rightarrow> ('a \<Rightarrow> nat) \<Rightarrow> nat \<Rightarrow> buf \<Rightarrow> nat \<Rightarrow> 'a list res" where
  "read_seq rd sz 0 b off = Inr []"
| "read_seq rd sz (Suc n) b off =
     rbind (rd b off) (\<lambda>x. rbind (read_seq rd sz n b (off + sz x)) (\<lambda>xs. Inr (x # xs)))"

text \<open>
  The bytes a sequence leaves in memory: each object's encoding, and behind the last ones whatever
  part of an overrun no later object overwrote.
\<close>

fun seq_bytes :: "('a \<Rightarrow> byte list) \<Rightarrow> ('a \<Rightarrow> byte list) \<Rightarrow> 'a list \<Rightarrow> byte list" where
  "seq_bytes enc over [] = []"
| "seq_bytes enc over (x # xs) =
     (let r = seq_bytes enc over xs in enc x @ r @ drop (length r) (over x))"

definition seq_enc :: "('a \<Rightarrow> byte list) \<Rightarrow> 'a list \<Rightarrow> byte list" where
  "seq_enc enc xs = concat (map enc xs)"

lemma seq_enc_simps [simp]: "seq_enc enc [] = []" "seq_enc enc (x # xs) = enc x @ seq_enc enc xs"
  by (simp_all add: seq_enc_def)

definition seq_over :: "('a \<Rightarrow> byte list) \<Rightarrow> ('a \<Rightarrow> byte list) \<Rightarrow> 'a list \<Rightarrow> byte list" where
  "seq_over enc over xs = drop (length (seq_enc enc xs)) (seq_bytes enc over xs)"

lemma seq_bytes_prefix: "\<exists>ys. seq_bytes enc over xs = seq_enc enc xs @ ys"
proof (induction xs)
  case (Cons x xs)
  then obtain ys where "seq_bytes enc over xs = seq_enc enc xs @ ys" by blast
  then show ?case by (simp add: Let_def)
qed simp

lemma seq_bytes_split: "seq_bytes enc over xs = seq_enc enc xs @ seq_over enc over xs"
  using seq_bytes_prefix[of enc over xs] by (auto simp: seq_over_def)

lemma length_seq_bytes: "length (seq_enc enc xs) \<le> length (seq_bytes enc over xs)"
  by (simp add: seq_bytes_split)

lemma seq_bytes_no_over [simp]: "seq_bytes enc (\<lambda>_. []) xs = seq_enc enc xs"
  by (induction xs) (simp_all add: Let_def)

text \<open>Two \<^verbatim>\<open>memcpy\<close>s, the second starting inside or right behind the first.\<close>

lemma memcpy_to_overlay:
  "rbind (memcpy_to b off (as @ os)) (\<lambda>b. memcpy_to b (off + length as) bs) =
   memcpy_to b off (as @ bs @ drop (length bs) os)"
proof -
  have "put (put m off (as @ os)) (off + length as) bs = put m off (as @ bs @ drop (length bs) os)" for m
    by (auto simp: put_def fun_eq_iff nth_append)
  then show ?thesis by (auto simp: memcpy_to_def max_def)
qed

text \<open>Consecutive writes, and the parts of a range that holds a concatenation.\<close>

lemma memcpy_then:
  assumes "\<And>b. cap b = cap b0 \<Longrightarrow> off' \<le> cap b \<Longrightarrow> g b = memcpy_to b off' bs"
    and "off' = off + length as"
  shows "rbind (memcpy_to b0 off as) g = memcpy_to b0 off (as @ bs)"
proof (cases "off + length as \<le> cap b0")
  case True
  then have "rbind (memcpy_to b0 off as) g = rbind (memcpy_to b0 off (as @ [])) (\<lambda>b. memcpy_to b (off + length as) bs)"
    using assms by (simp add: memcpy_to_ok)
  then show ?thesis unfolding memcpy_to_overlay by simp
qed (simp add: memcpy_to_def)

lemma peek_conc:
  assumes "peek m off (length (as @ bs)) = as @ bs"
  shows "peek m off (length as) = as" "peek m (off + length as) (length bs) = bs"
proof -
  have "peek m off (length as) @ peek m (off + length as) (length bs) = as @ bs"
    using assms by (simp add: peek_add)
  then show "peek m off (length as) = as" "peek m (off + length as) (length bs) = bs" by simp_all
qed

locale codec =
  fixes wr :: "'a \<Rightarrow> buf \<Rightarrow> nat \<Rightarrow> buf res"
    and rd :: "buf \<Rightarrow> nat \<Rightarrow> 'a res"
    and sz :: "'a \<Rightarrow> nat"
    and enc :: "'a \<Rightarrow> byte list"
    and over :: "'a \<Rightarrow> byte list"
    and ok :: "'a \<Rightarrow> bool"
    and eqv :: "'a \<Rightarrow> 'a \<Rightarrow> bool"
  assumes wr_bytes: "ok x \<Longrightarrow> wr x b off = memcpy_to b off (enc x @ over x)"
    and rd_back: "ok x \<Longrightarrow> peek (mem b) off (length (enc x)) = enc x \<Longrightarrow>
      off + length (enc x @ over x) \<le> cap b \<Longrightarrow> \<exists>y. rd b off = Inr y \<and> eqv x y"
    and sz_enc: "ok x \<Longrightarrow> sz x = length (enc x)"
    and eqv_ok: "ok x \<Longrightarrow> eqv x y \<Longrightarrow> ok y \<and> enc y = enc x \<and> over y = over x"
begin

lemma write_seq_bytes:
  "\<forall>x \<in> set xs. ok x \<Longrightarrow> off \<le> cap b \<Longrightarrow>
   write_seq wr sz xs b off = memcpy_to b off (seq_bytes enc over xs)"
proof (induction xs arbitrary: b off)
  case Nil
  then show ?case by (simp add: memcpy_to_def)
next
  case (Cons x xs)
  let ?r = "seq_bytes enc over xs"
  have sz: "sz x = length (enc x)" using Cons.prems by (simp add: sz_enc)
  have "write_seq wr sz (x # xs) b off
      = rbind (memcpy_to b off (enc x @ over x)) (\<lambda>b. memcpy_to b (off + length (enc x)) ?r)"
    using Cons.prems(1) Cons.IH
    by (auto simp: wr_bytes sz memcpy_to_eq_Inr intro!: rbind_cong)
  then show ?case by (simp add: memcpy_to_overlay Let_def)
qed

lemma read_seq_back:
  "\<forall>x \<in> set xs. ok x \<Longrightarrow> peek (mem b) off (length (seq_enc enc xs)) = seq_enc enc xs \<Longrightarrow>
   off + length (seq_bytes enc over xs) \<le> cap b \<Longrightarrow>
   \<exists>ys. read_seq rd sz (length xs) b off = Inr ys \<and> list_all2 eqv xs ys"
proof (induction xs arbitrary: off)
  case (Cons x xs)
  let ?e = "enc x" and ?es = "seq_enc enc xs"
  have "peek (mem b) off (length ?e) @ peek (mem b) (off + length ?e) (length ?es) = ?e @ ?es"
    using Cons.prems(2) by (simp add: peek_add)
  then have e: "peek (mem b) off (length ?e) = ?e" "peek (mem b) (off + length ?e) (length ?es) = ?es"
    by simp_all
  have room: "off + length (?e @ over x) \<le> cap b" "off + length ?e + length (seq_bytes enc over xs) \<le> cap b"
    using Cons.prems(3) by (auto simp: Let_def)
  obtain y where y: "rd b off = Inr y" "eqv x y"
    using Cons.prems(1) e(1) room(1) rd_back by (metis list.set_intros(1))
  then have "sz y = length ?e" using Cons.prems(1) eqv_ok sz_enc by (metis list.set_intros(1))
  moreover obtain ys where "read_seq rd sz (length xs) b (off + length ?e) = Inr ys" "list_all2 eqv xs ys"
    using Cons.IH[OF _ e(2) room(2)] Cons.prems(1) by auto
  ultimately show ?case using y by auto
qed simp

lemma list_eqv_ok:
  "\<forall>x \<in> set xs. ok x \<Longrightarrow> list_all2 eqv xs ys \<Longrightarrow>
   (\<forall>y \<in> set ys. ok y) \<and> seq_enc enc ys = seq_enc enc xs \<and> seq_bytes enc over ys = seq_bytes enc over xs"
  by (induction xs arbitrary: ys) (auto simp: list_all2_Cons1 Let_def dest: eqv_ok)

text \<open>Writing one object and reading it back at the same place.\<close>

lemma roundtrip:
  assumes "ok x" "wr x b off = Inr b'"
  shows "\<exists>y. rd b' off = Inr y \<and> eqv x y"
  using assms by (intro rd_back) (auto simp: wr_bytes memcpy_to_eq_Inr peek_put_prefix)

lemma wr_frame:
  assumes "ok x" "wr x b off = Inr b'"
  shows "cap b' = cap b"
    and "i < off \<or> off + length (enc x @ over x) \<le> i \<Longrightarrow> mem b' i = mem b i"
  using assms by (auto simp: wr_bytes memcpy_to_eq_Inr)

end

end
