(* ===== verification/Rid_Model.thy ===== *)
theory Rid_Model imports Codec
begin

text \<open>
  \<^verbatim>\<open>RID\<close> (src/Storage/Table/RID.c++, Include/Storage/Table/RID.h): the address of a tuple, with the
  address it had before an update moved it (\<^verbatim>\<open>actual_pair\<close>), and its 16-byte format.
\<close>

record rid =
  page_id :: int
  slot_num :: int
  actual_pair :: "int \<times> int"

definition RID :: "int \<Rightarrow> int \<Rightarrow> rid" where
  "RID p s = \<lparr>page_id = p, slot_num = s, actual_pair = (p, s)\<rparr>"

text \<open>\<^verbatim>\<open>setRID\<close> leaves the actual pair alone.\<close>

definition setRID :: "rid \<Rightarrow> int \<Rightarrow> int \<Rightarrow> rid" where
  "setRID r p s = r\<lparr>page_id := p, slot_num := s\<rparr>"

definition updateActualPair :: "rid \<Rightarrow> rid \<Rightarrow> rid" where
  "updateActualPair this r = this\<lparr>actual_pair := (page_id r, slot_num r)\<rparr>"

definition getActualPair :: "rid \<Rightarrow> rid" where
  "getActualPair r = RID (fst (actual_pair r)) (snd (actual_pair r))"

definition RID_size :: nat where "RID_size = 16"

definition RID_serialize :: "rid \<Rightarrow> buf \<Rightarrow> nat \<Rightarrow> buf res" where
  "RID_serialize r b off =
     rbind (memcpy_to b off (i32_bytes (page_id r))) (\<lambda>b.
     rbind (memcpy_to b (off + 4) (i32_bytes (slot_num r))) (\<lambda>b.
     rbind (memcpy_to b (off + 8) (i32_bytes (fst (actual_pair r)))) (\<lambda>b.
     memcpy_to b (off + 12) (i32_bytes (snd (actual_pair r))))))"

definition RID_deserialize :: "buf \<Rightarrow> nat \<Rightarrow> rid res" where
  "RID_deserialize b off =
     rbind (memcpy_from b off 4) (\<lambda>p.
     rbind (memcpy_from b (off + 4) 4) (\<lambda>s.
     rbind (memcpy_from b (off + 8) 4) (\<lambda>ap.
     rbind (memcpy_from b (off + 12) 4) (\<lambda>as.
       Inr \<lparr>page_id = i32_val p, slot_num = i32_val s, actual_pair = (i32_val ap, i32_val as)\<rparr>))))"

section \<open>The codec\<close>

definition rid_ok :: "rid \<Rightarrow> bool" where
  "rid_ok r \<longleftrightarrow> in_i32 (page_id r) \<and> in_i32 (slot_num r) \<and>
     in_i32 (fst (actual_pair r)) \<and> in_i32 (snd (actual_pair r))"

definition rid_enc :: "rid \<Rightarrow> byte list" where
  "rid_enc r = i32_bytes (page_id r) @ i32_bytes (slot_num r) @
     i32_bytes (fst (actual_pair r)) @ i32_bytes (snd (actual_pair r))"

lemma length_rid_enc [simp, codec_simps]: "length (rid_enc r) = 16"
  by (simp add: rid_enc_def)

lemma RID_serialize_bytes: "RID_serialize r b off = memcpy_to b off (rid_enc r)"
  using memcpy_to_append4[of b off "i32_bytes (page_id r)" "i32_bytes (slot_num r)"
      "i32_bytes (fst (actual_pair r))" "i32_bytes (snd (actual_pair r))"]
  by (simp add: RID_serialize_def rid_enc_def ac_simps)

lemma RID_deserialize_back:
  assumes "rid_ok r" "peek (mem b) off 16 = rid_enc r" "off + 16 \<le> cap b"
  shows "RID_deserialize b off = Inr r"
proof -
  have "peek (mem b) off 4 @ peek (mem b) (off + 4) 4 @ peek (mem b) (off + 8) 4 @ peek (mem b) (off + 12) 4
      = peek (mem b) off (4 + (4 + (4 + 4)))"
    by (simp only: peek_add) (simp add: ac_simps)
  also have "\<dots> = i32_bytes (page_id r) @ i32_bytes (slot_num r) @
      i32_bytes (fst (actual_pair r)) @ i32_bytes (snd (actual_pair r))"
    using assms(2) by (simp add: rid_enc_def)
  finally have "peek (mem b) off 4 = i32_bytes (page_id r) \<and> peek (mem b) (off + 4) 4 = i32_bytes (slot_num r)
      \<and> peek (mem b) (off + 8) 4 = i32_bytes (fst (actual_pair r))
      \<and> peek (mem b) (off + 12) 4 = i32_bytes (snd (actual_pair r))"
    by (rule append4_eq) simp_all
  then show ?thesis using assms(1,3)
    by (simp add: RID_deserialize_def memcpy_from_def rid_ok_def)
qed

interpretation rid: codec RID_serialize RID_deserialize "\<lambda>_. RID_size" rid_enc "\<lambda>_. []" rid_ok "(=)"
  by unfold_locales (auto simp: RID_serialize_bytes RID_size_def RID_deserialize_back)

lemma RID_selectors [simp]:
  "page_id (RID p s) = p" "slot_num (RID p s) = s" "actual_pair (RID p s) = (p, s)"
  by (simp_all add: RID_def)

lemma RID_inject [simp]: "RID p s = RID q r \<longleftrightarrow> p = q \<and> s = r"
  by (auto simp: RID_def)

lemma getActualPair_RID [simp]: "getActualPair (RID p s) = RID p s"
  by (simp add: getActualPair_def)

end
