(* ===== verification/Float_Bits.thy ===== *)
theory Float_Bits imports DB_Prelude
begin

text \<open>
  The IEEE-754 values behind \<^verbatim>\<open>Field::VALUE_FLOAT\<close>. The field stores a \<^verbatim>\<open>double\<close>, kept here as its
  64 bits; the getter \<^verbatim>\<open>float Field::getFieldValueFloat()\<close> narrows it to a \<^verbatim>\<open>float\<close>, rounding to
  nearest with ties to even, and the comparison operators compare the narrowed values. Both the
  narrowing and the comparisons are computed on the bit patterns.
\<close>

section \<open>Rounding and narrowing\<close>

definition rne :: "nat \<Rightarrow> nat \<Rightarrow> nat" where
  "rne m s = (let d = m div 2 ^ s; r = m mod 2 ^ s in
     if 2 * r > 2 ^ s \<or> (2 * r = 2 ^ s \<and> odd d) then d + 1 else d)"

text \<open>
  Sign, biased exponent and fraction of a \<^verbatim>\<open>double\<close>; the result exponent of the narrowing is the
  position the significand is rounded at: 29 bits are dropped for a normal \<^verbatim>\<open>float\<close>, more when the
  result is subnormal, and a carry out of the rounding moves into the exponent field by itself.
\<close>

definition f64_sign :: "64 word \<Rightarrow> nat" where "f64_sign w = unat w div 2 ^ 63"
definition f64_exp :: "64 word \<Rightarrow> nat" where "f64_exp w = (unat w div 2 ^ 52) mod 2 ^ 11"
definition f64_frac :: "64 word \<Rightarrow> nat" where "f64_frac w = unat w mod 2 ^ 52"

definition narrow_mag :: "nat \<Rightarrow> nat \<Rightarrow> nat" where
  "narrow_mag e m =
     (let x = max e 1;
          sig = (if e = 0 then m else m + 2 ^ 52);
          s = (if e = 0 then 925 else max 29 (926 - x));
          z = (x + s - 926) * 2 ^ 23 + rne sig s
      in if z \<ge> 255 * 2 ^ 23 then 255 * 2 ^ 23 else z)"

definition f64_to_f32 :: "64 word \<Rightarrow> 32 word" where
  "f64_to_f32 w =
     (let e = f64_exp w; m = f64_frac w;
          mag = (if e = 2047 then
                   (if m = 0 then 255 * 2 ^ 23 else 255 * 2 ^ 23 + 2 ^ 22 + (m div 2 ^ 29) mod 2 ^ 22)
                 else narrow_mag e m)
      in word_of_nat (f64_sign w * 2 ^ 31 + mag))"

section \<open>Comparisons of floats\<close>

definition f32_nan :: "32 word \<Rightarrow> bool" where
  "f32_nan w \<longleftrightarrow> unat w mod 2 ^ 31 > 255 * 2 ^ 23"

definition f32_key :: "32 word \<Rightarrow> int" where
  "f32_key w = (if unat w < 2 ^ 31 then int (unat w) else - int (unat w mod 2 ^ 31))"

definition f32_less :: "32 word \<Rightarrow> 32 word \<Rightarrow> bool" where
  "f32_less a b \<longleftrightarrow> \<not> f32_nan a \<and> \<not> f32_nan b \<and> f32_key a < f32_key b"

definition f32_eq :: "32 word \<Rightarrow> 32 word \<Rightarrow> bool" where
  "f32_eq a b \<longleftrightarrow> \<not> f32_nan a \<and> \<not> f32_nan b \<and> f32_key a = f32_key b"

definition f32_le :: "32 word \<Rightarrow> 32 word \<Rightarrow> bool" where
  "f32_le a b \<longleftrightarrow> \<not> f32_nan a \<and> \<not> f32_nan b \<and> f32_key a \<le> f32_key b"

lemma f32_less_irrefl [simp]: "\<not> f32_less a a"
  by (simp add: f32_less_def)

lemma f32_less_trans: "f32_less a b \<Longrightarrow> f32_less b c \<Longrightarrow> f32_less a c"
  by (auto simp: f32_less_def)

lemma f32_le_iff: "f32_le a b \<longleftrightarrow> f32_less a b \<or> f32_eq a b"
  by (auto simp: f32_le_def f32_less_def f32_eq_def)

lemma f32_trichotomy: "\<not> f32_nan a \<Longrightarrow> \<not> f32_nan b \<Longrightarrow> f32_less a b \<or> f32_eq a b \<or> f32_less b a"
  by (auto simp: f32_less_def f32_eq_def)

text \<open>A concrete loss of precision: 16777217 and 16777216 narrow to the same float.\<close>

lemma narrow_16777217:
  "f64_to_f32 0x4170000010000000 = 0x4B800000" "f64_to_f32 0x4170000000000000 = 0x4B800000"
  by (simp_all add: f64_to_f32_def f64_exp_def f64_frac_def f64_sign_def narrow_mag_def rne_def)

lemma narrow_examples:
  "f64_to_f32 0x3FF0000000000000 = 0x3F800000"
  "f64_to_f32 0xC058E00000000000 = 0xC2C70000"
  "f64_to_f32 0x7FF0000000000000 = 0x7F800000"
  "f64_to_f32 0x47F0000000000000 = 0x7F800000"
  "f64_to_f32 0x36A0000000000000 = 1"
  by (simp_all add: f64_to_f32_def f64_exp_def f64_frac_def f64_sign_def narrow_mag_def rne_def)

section \<open>Narrowing is monotone\<close>

lemma rne_le_Suc_div: "rne m s \<le> m div 2 ^ s + 1"
  by (simp add: rne_def Let_def)

lemma rne_ge_div: "m div 2 ^ s \<le> rne m s"
  by (simp add: rne_def Let_def)

lemma rne_mono: "m \<le> n \<Longrightarrow> rne m s \<le> rne n s"
proof -
  assume mn: "m \<le> n"
  show ?thesis
  proof (cases "m div 2 ^ s = n div 2 ^ s")
    case True
    have "m = 2 ^ s * (m div 2 ^ s) + m mod 2 ^ s" "n = 2 ^ s * (n div 2 ^ s) + n mod 2 ^ s"
      by simp_all
    with mn True have "m mod 2 ^ s \<le> n mod 2 ^ s" by (metis add_le_cancel_left)
    with True show ?thesis by (auto simp: rne_def Let_def)
  next
    case False
    with mn have "m div 2 ^ s + 1 \<le> n div 2 ^ s" by (simp add: div_le_mono le_neq_implies_less Suc_leI)
    with rne_le_Suc_div[of m s] rne_ge_div[of n s] show ?thesis by linarith
  qed
qed


lemma rne_double: "rne (2 * m) (Suc s) = rne m s"
proof -
  have d: "(2 * m) div 2 ^ Suc s = m div 2 ^ s" by simp
  have r: "(2 * m) mod 2 ^ Suc s = 2 * (m mod 2 ^ s)"
    unfolding power_Suc by (rule mult_mod_right[symmetric])
  show ?thesis unfolding rne_def Let_def d r by simp
qed

lemma rne_pow: "rne (2 ^ (s + k)) s = 2 ^ k"
  by (simp add: rne_def power_add)

lemma narrow_mag_mono_frac: "m \<le> m' \<Longrightarrow> narrow_mag e m \<le> narrow_mag e m'"
proof -
  assume le: "m \<le> m'"
  have alt: "narrow_mag e k = (let s = if e = 0 then 925 else max 29 (926 - max e 1)
      in min (255 * 2 ^ 23) ((max e 1 + s - 926) * 2 ^ 23 + rne (if e = 0 then k else k + 2 ^ 52) s))" for k
    by (simp add: narrow_mag_def Let_def min_def)
  have "rne (if e = 0 then m else m + 2 ^ 52) s \<le> rne (if e = 0 then m' else m' + 2 ^ 52) s" for s
    using le by (intro rne_mono) simp
  then show ?thesis unfolding alt Let_def by (intro min.mono add_mono order_refl)
qed

lemma narrow_mag_step:
  assumes "m < 2 ^ 52"
  shows "narrow_mag e m \<le> narrow_mag (Suc e) m'"
proof -
  consider "e = 0" | "1 \<le> e" "e \<le> 896" | "897 \<le> e" by linarith
  then show ?thesis
  proof cases
    case 1
    have "m div 2 ^ 925 = 0" "m mod 2 ^ 925 = m"
      using assms by (simp_all add: div_less mod_less order.strict_trans2[OF assms])
    moreover have "2 * m < 2 ^ 925" using assms by simp
    ultimately have "rne m 925 = 0" by (simp add: rne_def)
    with 1 show ?thesis by (simp add: narrow_mag_def Let_def)
  next
    case 2
    define s where "s = 925 - e"
    have s: "926 - e = Suc s" "29 \<le> s" "926 - Suc e = s" using 2 by (auto simp: s_def)
    have "rne (m + 2 ^ 52) (Suc s) \<le> rne (2 * 2 ^ 52) (Suc s)"
      using assms by (intro rne_mono) simp
    also have "\<dots> = rne (2 ^ 52) s" by (rule rne_double)
    also have "\<dots> \<le> rne (m' + 2 ^ 52) s" by (intro rne_mono) simp
    finally have "rne (m + 2 ^ 52) (Suc s) \<le> rne (m' + 2 ^ 52) s" .
    moreover have "max e 1 + Suc s - 926 = 0" "max (Suc e) 1 + s - 926 = 0"
      "max 29 (926 - max e 1) = Suc s" "max 29 (926 - max (Suc e) 1) = s" "e \<noteq> 0"
      using 2 s by (auto simp: max_def)
    ultimately show ?thesis by (auto simp: narrow_mag_def Let_def)
  next
    case 3
    have "rne (m + 2 ^ 52) 29 \<le> rne (2 ^ (29 + 24)) 29"
      using assms by (intro rne_mono) simp
    then have a: "rne (m + 2 ^ 52) 29 \<le> 2 ^ 24" unfolding rne_pow .
    have "rne (2 ^ (29 + 23)) 29 \<le> rne (m' + 2 ^ 52) 29"
      by (intro rne_mono) simp
    then have b: "2 ^ 23 \<le> rne (m' + 2 ^ 52) 29" unfolding rne_pow .
    have "max e 1 + 29 - 926 = e - 897" "max (Suc e) 1 + 29 - 926 = Suc (e - 897)"
      "max 29 (926 - max e 1) = 29" "max 29 (926 - max (Suc e) 1) = 29" "e \<noteq> 0"
      using 3 by (auto simp: max_def)
    with a b show ?thesis by (auto simp: narrow_mag_def Let_def)
  qed
qed

lemma narrow_mag_mono:
  assumes "m < 2 ^ 52" "e * 2 ^ 52 + m \<le> e' * 2 ^ 52 + m'" "m' < 2 ^ 52"
  shows "narrow_mag e m \<le> narrow_mag e' m'"
proof -
  have "e < e' \<or> e = e' \<and> m \<le> m'" using assms by (cases e e' rule: linorder_cases) auto
  moreover have "narrow_mag e m \<le> narrow_mag e'' m''" if "e < e''" for e'' m''
    using that
  proof (induction e'' arbitrary: m'')
    case (Suc d)
    show ?case
    proof (cases "e = d")
      case True
      then show ?thesis using narrow_mag_step[OF assms(1)] by simp
    next
      case False
      with Suc.prems have "narrow_mag e m \<le> narrow_mag d 0" by (intro Suc.IH) simp
      also have "\<dots> \<le> narrow_mag (Suc d) m''" by (rule narrow_mag_step) simp
      finally show ?thesis .
    qed
  qed simp
  ultimately show ?thesis using narrow_mag_mono_frac by auto
qed

text \<open>The order of \<^verbatim>\<open>double\<close>s that are numbers, and how the narrowing acts on it.\<close>

definition f64_nan :: "64 word \<Rightarrow> bool" where
  "f64_nan w \<longleftrightarrow> unat w mod 2 ^ 63 > 2047 * 2 ^ 52"

definition f64_key :: "64 word \<Rightarrow> int" where
  "f64_key w = (if unat w < 2 ^ 63 then int (unat w) else - int (unat w mod 2 ^ 63))"

definition f64_less :: "64 word \<Rightarrow> 64 word \<Rightarrow> bool" where
  "f64_less a b \<longleftrightarrow> \<not> f64_nan a \<and> \<not> f64_nan b \<and> f64_key a < f64_key b"

definition f64_mag :: "64 word \<Rightarrow> nat" where "f64_mag w = unat w mod 2 ^ 63"

definition f32_mag_of :: "64 word \<Rightarrow> nat" where
  "f32_mag_of w = (if f64_exp w = 2047 then 255 * 2 ^ 23 else narrow_mag (f64_exp w) (f64_frac w))"

lemma f64_parts: "f64_mag w = f64_exp w * 2 ^ 52 + f64_frac w" "f64_frac w < 2 ^ 52" "f64_exp w < 2 ^ 11"
proof -
  have "unat w mod (2 ^ 52 * 2 ^ 11) = 2 ^ 52 * (unat w div 2 ^ 52 mod 2 ^ 11) + unat w mod 2 ^ 52"
    by (rule mod_mult2_eq)
  then show "f64_mag w = f64_exp w * 2 ^ 52 + f64_frac w"
    by (simp add: f64_mag_def f64_exp_def f64_frac_def)
qed (simp_all add: f64_frac_def f64_exp_def)

lemma f32_mag_of_le: "f32_mag_of w \<le> 255 * 2 ^ 23"
  by (simp add: f32_mag_of_def narrow_mag_def Let_def)

lemma f64_not_nan: "\<not> f64_nan w \<Longrightarrow> f64_exp w = 2047 \<Longrightarrow> f64_frac w = 0"
  using f64_parts(1)[of w] by (simp add: f64_nan_def f64_mag_def)

lemma f64_sign_le: "f64_sign w \<le> 1"
proof -
  have "unat w < 2 ^ LENGTH(64)" by (rule unsigned_less)
  then have "unat w div 2 ^ 63 < 2" by (intro less_mult_imp_div_less) simp
  then show ?thesis by (simp add: f64_sign_def)
qed

lemma unat_narrow:
  assumes "\<not> f64_nan w"
  shows "unat (f64_to_f32 w) = f64_sign w * 2 ^ 31 + f32_mag_of w"
proof -
  have "f64_to_f32 w = word_of_nat (f64_sign w * 2 ^ 31 + f32_mag_of w)"
    using f64_not_nan[OF assms] by (auto simp: f64_to_f32_def f32_mag_of_def Let_def)
  moreover have "f64_sign w * 2 ^ 31 + f32_mag_of w < 2 ^ 32"
    using f64_sign_le[of w] f32_mag_of_le[of w] by (cases "f64_sign w") auto
  ultimately show ?thesis by (simp only: unat_of_nat) simp
qed

lemma f32_mag_of_mono: "\<not> f64_nan a \<Longrightarrow> \<not> f64_nan b \<Longrightarrow> f64_mag a \<le> f64_mag b \<Longrightarrow> f32_mag_of a \<le> f32_mag_of b"
proof -
  assume n: "\<not> f64_nan a" "\<not> f64_nan b" and le: "f64_mag a \<le> f64_mag b"
  show ?thesis
  proof (cases "f64_exp b = 2047")
    case True
    then show ?thesis using f32_mag_of_le[of a] by (simp add: f32_mag_of_def)
  next
    case False
    then have "f64_exp b < 2047" using f64_parts(3)[of b] by simp
    then have "f64_exp a \<noteq> 2047"
      using le f64_parts(1,2)[of a] f64_parts(1,2)[of b] by auto
    with False show ?thesis
      using narrow_mag_mono[of "f64_frac a" "f64_exp a" "f64_exp b" "f64_frac b"] le
        f64_parts[of a] f64_parts[of b] by (simp add: f32_mag_of_def)
  qed
qed

lemma narrow_not_nan: "\<not> f64_nan w \<Longrightarrow> \<not> f32_nan (f64_to_f32 w)"
proof -
  assume n: "\<not> f64_nan w"
  have "f32_mag_of w < 2 ^ 31" using f32_mag_of_le[of w] by simp
  then have "unat (f64_to_f32 w) mod 2 ^ 31 = f32_mag_of w"
    using unat_narrow[OF n] by simp
  then show ?thesis using f32_mag_of_le[of w] by (simp add: f32_nan_def)
qed

lemma f32_key_narrow:
  assumes "\<not> f64_nan w"
  shows "f32_key (f64_to_f32 w) = (if unat w < 2 ^ 63 then int (f32_mag_of w) else - int (f32_mag_of w))"
proof -
  have m: "f32_mag_of w < 2 ^ 31" using f32_mag_of_le[of w] by simp
  have "f64_sign w = (if unat w < 2 ^ 63 then 0 else 1)"
    using f64_sign_le[of w] by (auto simp: f64_sign_def intro: le_antisym)
  with m unat_narrow[OF assms] show ?thesis by (auto simp: f32_key_def)
qed

lemma f64_key_mag: "f64_key w = (if unat w < 2 ^ 63 then int (f64_mag w) else - int (f64_mag w))"
  by (simp add: f64_key_def f64_mag_def)

lemma f32_mag_of_zero: "f64_mag w = 0 \<Longrightarrow> f32_mag_of w = 0"
  using f64_parts(1)[of w] by (simp add: f32_mag_of_def narrow_mag_def rne_def)

lemma narrow_mono:
  assumes "\<not> f64_nan a" "\<not> f64_nan b" "f64_key a \<le> f64_key b"
  shows "f32_key (f64_to_f32 a) \<le> f32_key (f64_to_f32 b)"
  using assms f32_mag_of_mono[OF assms(1,2)] f32_mag_of_mono[OF assms(2,1)] f32_mag_of_zero[of a] f32_mag_of_zero[of b]
  by (auto simp: f32_key_narrow f64_key_mag split: if_splits)

end
