(* ===== verification/Field_Model.thy ===== *)
theory Field_Model imports Codec Float_Bits
begin

text \<open>
  \<^verbatim>\<open>Field\<close> (src/Storage/Page/Field.c++, Include/Storage/Page/Field.h): a typed, nullable value with
  its byte format and its comparison operators.

  The anonymous union is a datatype that remembers the member written last, since reading another
  member is undefined; \<open>VALUE_NONE\<close> is the union before any write. A \<^verbatim>\<open>VALUE_STRING\<close> holds the
  whole \<^verbatim>\<open>char\<close> array the pointer points to, terminator included, or \<open>None\<close> for \<^verbatim>\<open>nullptr\<close>.
\<close>

section \<open>Data\<close>

datatype FieldType = TYPE_INT | TYPE_STRING | TYPE_FLOAT | TYPE_BOOL | TYPE_NULL

datatype field_val =
    VALUE_INT int
  | VALUE_STRING "string option"
  | VALUE_FLOAT "64 word"
  | VALUE_BOOL bool
  | VALUE_NONE

record field =
  fieldType :: FieldType
  fsize :: int
  is_null :: bool
  fval :: field_val

section \<open>Constructors and setters\<close>

definition Field_int :: "FieldType \<Rightarrow> int \<Rightarrow> field" where
  "Field_int t v = \<lparr>fieldType = t, fsize = 4, is_null = False, fval = VALUE_INT v\<rparr>"

definition Field_double :: "FieldType \<Rightarrow> 64 word \<Rightarrow> field" where
  "Field_double t v = \<lparr>fieldType = t, fsize = 8, is_null = False, fval = VALUE_FLOAT v\<rparr>"

definition Field_bool :: "FieldType \<Rightarrow> bool \<Rightarrow> field" where
  "Field_bool t v = \<lparr>fieldType = t, fsize = 1, is_null = False, fval = VALUE_BOOL v\<rparr>"

text \<open>The argument of the string constructor is the array \<^verbatim>\<open>value\<close> points to.\<close>

definition Field_str :: "FieldType \<Rightarrow> string \<Rightarrow> field res" where
  "Field_str t arr = rbind (c_str arr) (\<lambda>s.
     Inr \<lparr>fieldType = t, fsize = int (length s), is_null = False, fval = VALUE_STRING (Some (s @ [NUL]))\<rparr>)"

definition Field_null :: "FieldType \<Rightarrow> field" where
  "Field_null t = \<lparr>fieldType = t, fsize = 0, is_null = True,
     fval = (case t of TYPE_INT \<Rightarrow> VALUE_INT 0 | TYPE_FLOAT \<Rightarrow> VALUE_FLOAT 0
             | TYPE_STRING \<Rightarrow> VALUE_STRING None | TYPE_BOOL \<Rightarrow> VALUE_BOOL False
             | TYPE_NULL \<Rightarrow> VALUE_NONE)\<rparr>"

text \<open>
  The copy constructor. A non-null string pointer is copied deeply, \<^verbatim>\<open>size + 1\<close> bytes from an array
  that may be shorter; everything else is a bytewise copy of the union.
\<close>

definition copy_array :: "string \<Rightarrow> int \<Rightarrow> string res" where
  "copy_array arr n =
     (if 0 \<le> n \<and> nat n + 1 \<le> length arr then Inr (take (nat n + 1) arr) else Inl Undefined)"

definition Field_copy :: "field \<Rightarrow> field res" where
  "Field_copy other =
     (if fieldType other = TYPE_STRING then
        (case fval other of
           VALUE_STRING (Some arr) \<Rightarrow>
             rbind (copy_array arr (fsize other)) (\<lambda>a. Inr (other\<lparr>fval := VALUE_STRING (Some a)\<rparr>))
         | VALUE_STRING None \<Rightarrow> Inr other
         | _ \<Rightarrow> Inl Undefined)
      else Inr other)"

definition set_null :: "field \<Rightarrow> bool \<Rightarrow> field" where
  "set_null f v = f\<lparr>is_null := v\<rparr>"

definition setValue_int :: "field \<Rightarrow> int \<Rightarrow> field" where
  "setValue_int f v = f\<lparr>fval := VALUE_INT v, fieldType := TYPE_INT, is_null := False\<rparr>"

definition setValue_double :: "field \<Rightarrow> 64 word \<Rightarrow> field" where
  "setValue_double f v = f\<lparr>fval := VALUE_FLOAT v, fieldType := TYPE_FLOAT, is_null := False\<rparr>"

definition setValue_bool :: "field \<Rightarrow> bool \<Rightarrow> field" where
  "setValue_bool f v = f\<lparr>fval := VALUE_BOOL v, fieldType := TYPE_BOOL, is_null := False\<rparr>"

definition setValue_str :: "field \<Rightarrow> string option \<Rightarrow> field res" where
  "setValue_str f value =
     (case value of
        None \<Rightarrow> Inr (f\<lparr>is_null := True\<rparr>)
      | Some arr \<Rightarrow> rbind (c_str arr) (\<lambda>s.
          Inr (f\<lparr>fval := VALUE_STRING (Some (s @ [NUL])), fieldType := TYPE_STRING, is_null := False\<rparr>)))"

text \<open>
  The destructor frees the string of a \<^verbatim>\<open>TYPE_STRING\<close> field whose pointer is not null; the result is
  the union afterwards. With another member active it would free a pointer that is none.
\<close>

definition Field_free :: "field \<Rightarrow> field_val res" where
  "Field_free f =
     (if fieldType f = TYPE_STRING
      then (case fval f of VALUE_STRING _ \<Rightarrow> Inr (VALUE_STRING None) | _ \<Rightarrow> Inl Undefined)
      else Inr (fval f))"

text \<open>
  Assignment \<^verbatim>\<open>*this = other\<close> of two different objects: the old string is freed, the metadata copied,
  and the union written only when the source is not null.
\<close>

definition Field_assign :: "field \<Rightarrow> field \<Rightarrow> field res" where
  "Field_assign this other =
     rbind (Field_free this) (\<lambda>freed.
     let this1 = this\<lparr>fval := freed, fieldType := fieldType other, fsize := fsize other,
                      is_null := is_null other\<rparr>
     in if is_null other then Inr this1
        else (case (fieldType other, fval other) of
             (TYPE_STRING, VALUE_STRING (Some arr)) \<Rightarrow>
               rbind (copy_array arr (fsize other)) (\<lambda>a. Inr (this1\<lparr>fval := VALUE_STRING (Some a)\<rparr>))
           | (TYPE_STRING, VALUE_STRING None) \<Rightarrow> Inr (this1\<lparr>fval := VALUE_STRING None\<rparr>)
           | (TYPE_INT, VALUE_INT i) \<Rightarrow> Inr (this1\<lparr>fval := VALUE_INT i\<rparr>)
           | (TYPE_FLOAT, VALUE_FLOAT d) \<Rightarrow> Inr (this1\<lparr>fval := VALUE_FLOAT d\<rparr>)
           | (TYPE_BOOL, VALUE_BOOL v) \<Rightarrow> Inr (this1\<lparr>fval := VALUE_BOOL v\<rparr>)
           | (TYPE_NULL, _) \<Rightarrow> Inr this1
           | _ \<Rightarrow> Inl Undefined))"

section \<open>Getters\<close>

definition getFieldValueInt :: "field \<Rightarrow> int res" where
  "getFieldValueInt f = (case fval f of VALUE_INT i \<Rightarrow> Inr i | _ \<Rightarrow> Inl Undefined)"

definition getFieldValueFloat :: "field \<Rightarrow> 32 word res" where
  "getFieldValueFloat f = (case fval f of VALUE_FLOAT d \<Rightarrow> Inr (f64_to_f32 d) | _ \<Rightarrow> Inl Undefined)"

definition getFieldValueBool :: "field \<Rightarrow> bool res" where
  "getFieldValueBool f = (case fval f of VALUE_BOOL v \<Rightarrow> Inr v | _ \<Rightarrow> Inl Undefined)"

definition getFieldValueStr :: "field \<Rightarrow> string option res" where
  "getFieldValueStr f = (case fval f of VALUE_STRING p \<Rightarrow> Inr p | _ \<Rightarrow> Inl Undefined)"

text \<open>\<^verbatim>\<open>string(f.getFieldValueStr())\<close>; constructing a string from \<^verbatim>\<open>nullptr\<close> is undefined.\<close>

definition field_string :: "field \<Rightarrow> string res" where
  "field_string f = rbind (getFieldValueStr f) (\<lambda>p. rbind (get_or_ub p) c_str)"

definition getSerializedSize :: "field \<Rightarrow> int" where
  "getSerializedSize f = 1 + 1 + 4 + fsize f"

text \<open>\<^verbatim>\<open>using FieldValue = variant<int, string, double, bool>\<close> and \<^verbatim>\<open>getFieldValue\<close>.\<close>

datatype FieldValue = FV_int int | FV_string string | FV_double "64 word" | FV_bool bool

definition getFieldValue :: "field \<Rightarrow> FieldValue res" where
  "getFieldValue f =
     (case fieldType f of
        TYPE_INT \<Rightarrow> rbind (getFieldValueInt f) (\<lambda>i. Inr (FV_int i))
      | TYPE_FLOAT \<Rightarrow> (case fval f of VALUE_FLOAT d \<Rightarrow> Inr (FV_double d) | _ \<Rightarrow> Inl Undefined)
      | TYPE_BOOL \<Rightarrow> rbind (getFieldValueBool f) (\<lambda>v. Inr (FV_bool v))
      | TYPE_STRING \<Rightarrow> rbind (field_string f) (\<lambda>s. Inr (FV_string s))
      | TYPE_NULL \<Rightarrow> Inl Undefined)"

section \<open>Serialization\<close>

definition bool_byte :: "bool \<Rightarrow> byte" where
  "bool_byte v = (if v then 1 else 0)"

definition char_byte :: "char \<Rightarrow> byte" where
  "char_byte c = word_of_nat (of_char c)"

text \<open>\<^verbatim>\<open>memcpy(dst, VALUE_STRING, size)\<close>: reads \<^verbatim>\<open>size\<close> bytes of the array.\<close>

definition string_bytes :: "field \<Rightarrow> byte list res" where
  "string_bytes f = rbind (getFieldValueStr f) (\<lambda>p.
     if fsize f = 0 then Inr []
     else rbind (get_or_ub p) (\<lambda>arr.
       if 0 < fsize f \<and> nat (fsize f) \<le> length arr
       then Inr (str_bytes (take (nat (fsize f)) arr)) else Inl Undefined))"

definition Field_serialize :: "field \<Rightarrow> buf \<Rightarrow> nat \<Rightarrow> buf res" where
  "Field_serialize f b off =
     rbind (memcpy_to b (off + 1) (i32_bytes (fsize f))) (\<lambda>b.
     rbind (memcpy_to b (off + 5) [bool_byte (is_null f)]) (\<lambda>b.
     case fieldType f of
       TYPE_INT \<Rightarrow>
         rbind (memcpy_to b off [char_byte CHR ''I'']) (\<lambda>b.
         if \<not> is_null f then rbind (getFieldValueInt f) (\<lambda>i. memcpy_to b (off + 6) (i32_bytes i))
         else memcpy_to b (off + 6) (replicate 4 0))
     | TYPE_FLOAT \<Rightarrow>
         rbind (memcpy_to b off [char_byte CHR ''F'']) (\<lambda>b.
         if \<not> is_null f
         then (case fval f of VALUE_FLOAT d \<Rightarrow> memcpy_to b (off + 6) (u64_bytes (unat d)) | _ \<Rightarrow> Inl Undefined)
         else memcpy_to b (off + 6) (replicate 8 0))
     | TYPE_BOOL \<Rightarrow>
         rbind (memcpy_to b off [char_byte CHR ''B'']) (\<lambda>b.
         if \<not> is_null f then rbind (getFieldValueBool f) (\<lambda>v. memcpy_to b (off + 6) [bool_byte v])
         else memcpy_to b (off + 6) [0])
     | TYPE_STRING \<Rightarrow>
         rbind (memcpy_to b off [char_byte CHR ''S'']) (\<lambda>b.
         rbind (if \<not> is_null f then rbind (string_bytes f) (\<lambda>bs. memcpy_to b (off + 6) bs)
                else if 0 \<le> fsize f then memcpy_to b (off + 6) (replicate (nat (fsize f)) 0)
                else Inl Undefined) (\<lambda>b.
         if 0 \<le> fsize f then memcpy_to b (off + 6 + nat (fsize f)) [0] else Inl Undefined))
     | TYPE_NULL \<Rightarrow> memcpy_to b off [char_byte CHR ''N'']))"

text \<open>\<open>f0\<close> is the object that is overwritten: the case \<^verbatim>\<open>'N'\<close> leaves its union alone.\<close>

definition Field_deserialize :: "field \<Rightarrow> buf \<Rightarrow> nat \<Rightarrow> field res" where
  "Field_deserialize f0 b off =
     rbind (memcpy_from b off 1) (\<lambda>ty.
     rbind (memcpy_from b (off + 1) 4) (\<lambda>s.
     rbind (memcpy_from b (off + 5) 1) (\<lambda>nl.
     let f = f0\<lparr>fsize := i32_val s, is_null := nl \<noteq> [0]\<rparr> in
     if ty = [char_byte CHR ''N''] then
       Inr (f\<lparr>fieldType := TYPE_NULL, is_null := True, fsize := 0\<rparr>)
     else if ty = [char_byte CHR ''I''] then
       rbind (memcpy_from b (off + 6) 4) (\<lambda>v.
         Inr (f\<lparr>fieldType := TYPE_INT, fval := VALUE_INT (i32_val v)\<rparr>))
     else if ty = [char_byte CHR ''F''] then
       rbind (memcpy_from b (off + 6) 8) (\<lambda>v.
         Inr (f\<lparr>fieldType := TYPE_FLOAT, fval := VALUE_FLOAT (word_of_nat (le_val v))\<rparr>))
     else if ty = [char_byte CHR ''B''] then
       rbind (memcpy_from b (off + 6) 1) (\<lambda>v.
         Inr (f\<lparr>fieldType := TYPE_BOOL, fval := VALUE_BOOL (v \<noteq> [0])\<rparr>))
     else if ty = [char_byte CHR ''S''] then
       (if fsize f < 0 then Inl Undefined
        else rbind (memcpy_from b (off + 6) (nat (fsize f))) (\<lambda>v.
          Inr (f\<lparr>fieldType := TYPE_STRING, fval := VALUE_STRING (Some (bytes_str v @ [NUL]))\<rparr>)))
     else Inl (Throw ''field type is not found''))))"

section \<open>Comparison operators\<close>

text \<open>
  The operators compare \<^verbatim>\<open>this\<close> and \<^verbatim>\<open>&other\<close> first; \<open>same\<close> says whether the two operands are one
  object.
\<close>

definition null_check :: "field \<Rightarrow> field \<Rightarrow> unit res" where
  "null_check a b = (if is_null a \<or> is_null b then Inl (Throw ''null fields can't be compared'') else Inr ())"

definition field_eq :: "field \<Rightarrow> field \<Rightarrow> bool res" where
  "field_eq a b =
     (if fieldType a \<noteq> fieldType b then Inr False
      else if is_null a then Inr (is_null b)
      else if is_null b then Inr (is_null a)
      else (case fieldType b of
         TYPE_INT \<Rightarrow> rbind (getFieldValueInt a) (\<lambda>x. rbind (getFieldValueInt b) (\<lambda>y. Inr (x = y)))
       | TYPE_BOOL \<Rightarrow> rbind (getFieldValueBool a) (\<lambda>x. rbind (getFieldValueBool b) (\<lambda>y. Inr (x = y)))
       | TYPE_FLOAT \<Rightarrow> rbind (getFieldValueFloat a) (\<lambda>x. rbind (getFieldValueFloat b) (\<lambda>y. Inr (f32_eq x y)))
       | TYPE_STRING \<Rightarrow> rbind (field_string a) (\<lambda>x. rbind (field_string b) (\<lambda>y. Inr (x = y)))
       | TYPE_NULL \<Rightarrow> Inr False))"

text \<open>
  The four order operators have one shape: the value for one object, the type test, the null test,
  then the comparison of the values of the type.
\<close>

definition field_cmp ::
  "bool \<Rightarrow> (int \<Rightarrow> int \<Rightarrow> bool) \<Rightarrow> (32 word \<Rightarrow> 32 word \<Rightarrow> bool) \<Rightarrow> (bool \<Rightarrow> bool \<Rightarrow> bool) \<Rightarrow>
   (string \<Rightarrow> string \<Rightarrow> bool) \<Rightarrow> bool \<Rightarrow> field \<Rightarrow> field \<Rightarrow> bool res" where
  "field_cmp self ci cf cb cs same a b =
     (if same then Inr self
      else if fieldType a \<noteq> fieldType b then Inr False
      else rbind (null_check a b) (\<lambda>_.
        case fieldType b of
         TYPE_INT \<Rightarrow> rbind (getFieldValueInt a) (\<lambda>x. rbind (getFieldValueInt b) (\<lambda>y. Inr (ci x y)))
       | TYPE_FLOAT \<Rightarrow> rbind (getFieldValueFloat a) (\<lambda>x. rbind (getFieldValueFloat b) (\<lambda>y. Inr (cf x y)))
       | TYPE_BOOL \<Rightarrow> rbind (getFieldValueBool a) (\<lambda>x. rbind (getFieldValueBool b) (\<lambda>y. Inr (cb x y)))
       | TYPE_STRING \<Rightarrow> rbind (field_string a) (\<lambda>x. rbind (field_string b) (\<lambda>y. Inr (cs x y)))
       | TYPE_NULL \<Rightarrow> Inr False))"

definition field_gt :: "bool \<Rightarrow> field \<Rightarrow> field \<Rightarrow> bool res" where
  "field_gt = field_cmp False (\<lambda>x y. x > y) (\<lambda>x y. f32_less y x) (\<lambda>x y. x > y) (\<lambda>x y. str_less y x)"

definition field_lt :: "bool \<Rightarrow> field \<Rightarrow> field \<Rightarrow> bool res" where
  "field_lt = field_cmp False (\<lambda>x y. x < y) f32_less (\<lambda>x y. x < y) str_less"

definition field_ge :: "bool \<Rightarrow> field \<Rightarrow> field \<Rightarrow> bool res" where
  "field_ge = field_cmp True (\<lambda>x y. x \<ge> y) (\<lambda>x y. f32_le y x) (\<lambda>x y. x \<ge> y) (\<lambda>x y. \<not> str_less x y)"

definition field_le :: "bool \<Rightarrow> field \<Rightarrow> field \<Rightarrow> bool res" where
  "field_le = field_cmp True (\<lambda>x y. x \<le> y) f32_le (\<lambda>x y. x \<le> y) (\<lambda>x y. \<not> str_less y x)"

end
