(* ===== verification/Field_Laws.thy ===== *)
theory Field_Laws imports Field_Model
begin

text \<open>
  What a \<^verbatim>\<open>Field\<close> promises. \<open>field_ok\<close> is the consistency of the object the constructors establish;
  on such fields serialization writes a known sequence of bytes (\<open>field_enc\<close>, the bytes
  \<^verbatim>\<open>getSerializedSize\<close> counts, then \<open>field_over\<close>, the bytes it does not count), reading back gives
  the same field, copies are faithful, and the comparison operators form a strict weak order.
\<close>

section \<open>Consistent fields\<close>

fun type_width :: "FieldType \<Rightarrow> int" where
  "type_width TYPE_INT = 4"
| "type_width TYPE_FLOAT = 8"
| "type_width TYPE_BOOL = 1"
| "type_width TYPE_STRING = 0"
| "type_width TYPE_NULL = 0"

text \<open>The active member of the union is the one of the type tag.\<close>

fun active_ok :: "FieldType \<Rightarrow> int \<Rightarrow> bool \<Rightarrow> field_val \<Rightarrow> bool" where
  "active_ok TYPE_INT n nl (VALUE_INT i) = in_i32 i"
| "active_ok TYPE_FLOAT n nl (VALUE_FLOAT d) = True"
| "active_ok TYPE_BOOL n nl (VALUE_BOOL v) = True"
| "active_ok TYPE_STRING n nl (VALUE_STRING None) = (nl \<and> n = 0)"
| "active_ok TYPE_STRING n nl (VALUE_STRING (Some arr)) = (\<exists>s. arr = s @ [NUL] \<and> int (length s) = n)"
| "active_ok TYPE_NULL n nl v = nl"
| "active_ok _ _ _ _ = False"

lemma active_ok_iff:
  "active_ok TYPE_INT n nl v \<longleftrightarrow> (\<exists>i. v = VALUE_INT i \<and> in_i32 i)"
  "active_ok TYPE_FLOAT n nl v \<longleftrightarrow> (\<exists>d. v = VALUE_FLOAT d)"
  "active_ok TYPE_BOOL n nl v \<longleftrightarrow> (\<exists>c. v = VALUE_BOOL c)"
  "active_ok TYPE_STRING n nl v \<longleftrightarrow>
     nl \<and> n = 0 \<and> v = VALUE_STRING None \<or>
     (\<exists>s. v = VALUE_STRING (Some (s @ [NUL])) \<and> int (length s) = n)"
  "active_ok TYPE_NULL n nl v \<longleftrightarrow> nl"
  by (cases v; auto split: option.splits; fail | (cases v; simp add: ex_simps split: option.splits),
      (metis active_ok.simps(4) active_ok.simps(5) option.exhaust)?)+

definition field_ok :: "field \<Rightarrow> bool" where
  "field_ok f \<longleftrightarrow> 0 \<le> fsize f \<and> fsize f < 2 ^ 31 \<and>
     active_ok (fieldType f) (fsize f) (is_null f) (fval f) \<and>
     (fieldType f \<noteq> TYPE_STRING \<longrightarrow> fsize f = type_width (fieldType f) \<or> is_null f \<and> fsize f = 0)"

lemma field_ok_constructors [simp]:
  "in_i32 i \<Longrightarrow> field_ok (Field_int TYPE_INT i)"
  "field_ok (Field_double TYPE_FLOAT d)"
  "field_ok (Field_bool TYPE_BOOL v)"
  "field_ok (Field_null t)"
  by (auto simp: field_ok_def Field_int_def Field_double_def Field_bool_def Field_null_def
        active_ok_iff in_i32_def split: FieldType.splits)

lemma Field_str_ok:
  assumes "NUL \<notin> set s" "int (length s) < 2 ^ 31"
  shows "Field_str TYPE_STRING (s @ [NUL]) =
    Inr \<lparr>fieldType = TYPE_STRING, fsize = int (length s), is_null = False, fval = VALUE_STRING (Some (s @ [NUL]))\<rparr>"
    and "field_ok \<lparr>fieldType = TYPE_STRING, fsize = int (length s), is_null = False, fval = VALUE_STRING (Some (s @ [NUL]))\<rparr>"
  using assms by (auto simp: Field_str_def field_ok_def)

section \<open>The bytes of a field\<close>

fun type_char :: "FieldType \<Rightarrow> char" where
  "type_char TYPE_INT = CHR ''I''"
| "type_char TYPE_FLOAT = CHR ''F''"
| "type_char TYPE_BOOL = CHR ''B''"
| "type_char TYPE_STRING = CHR ''S''"
| "type_char TYPE_NULL = CHR ''N''"

definition field_header :: "field \<Rightarrow> byte list" where
  "field_header f = char_byte (type_char (fieldType f)) # i32_bytes (fsize f) @ [bool_byte (is_null f)]"

fun val_bytes :: "field_val \<Rightarrow> byte list" where
  "val_bytes (VALUE_INT i) = i32_bytes i"
| "val_bytes (VALUE_FLOAT d) = u64_bytes (unat d)"
| "val_bytes (VALUE_BOOL v) = [bool_byte v]"
| "val_bytes (VALUE_STRING (Some arr)) = str_bytes (butlast arr) @ [0]"
| "val_bytes (VALUE_STRING None) = [0]"
| "val_bytes VALUE_NONE = []"

definition field_payload :: "field \<Rightarrow> byte list" where
  "field_payload f =
     (if fieldType f = TYPE_STRING
      then (if is_null f then replicate (nat (fsize f) + 1) 0 else val_bytes (fval f))
      else if is_null f then replicate (nat (type_width (fieldType f))) 0 else val_bytes (fval f))"

definition field_enc :: "field \<Rightarrow> byte list" where
  "field_enc f = field_header f @ take (nat (fsize f)) (field_payload f)"

definition field_over :: "field \<Rightarrow> byte list" where
  "field_over f = drop (nat (fsize f)) (field_payload f)"

definition field_eqv :: "field \<Rightarrow> field \<Rightarrow> bool" where
  "field_eqv f g \<longleftrightarrow> fieldType g = fieldType f \<and> fsize g = fsize f \<and> is_null g = is_null f \<and>
     (if is_null f then active_ok (fieldType g) (fsize g) (is_null g) (fval g) else fval g = fval f)"

lemma length_field_header [simp, codec_simps]: "length (field_header f) = 6"
  by (simp add: field_header_def)

lemma field_enc_over: "field_enc f @ field_over f = field_header f @ field_payload f"
  by (simp add: field_enc_def field_over_def)

lemma length_field_payload:
  assumes "field_ok f"
  shows "length (field_payload f) =
     (if fieldType f = TYPE_STRING then nat (fsize f) + 1 else nat (type_width (fieldType f)))"
  using assms
  by (cases "fieldType f") (auto simp: field_payload_def field_ok_def active_ok_iff)

lemma length_field_enc: "field_ok f \<Longrightarrow> int (length (field_enc f)) = getSerializedSize f"
  using length_field_payload[of f]
  by (cases "fieldType f") (auto simp: field_enc_def getSerializedSize_def field_ok_def min_def)

lemma serialized_size_nat: "field_ok f \<Longrightarrow> nat (getSerializedSize f) = length (field_enc f)"
  using length_field_enc[of f] by simp

lemma serialized_size_ge: "field_ok f \<Longrightarrow> 6 \<le> getSerializedSize f"
  by (simp add: getSerializedSize_def field_ok_def)

text \<open>How many bytes a field writes behind the ones it reports.\<close>

lemma field_over_length:
  assumes "field_ok f"
  shows "length (field_over f) =
    (if fieldType f = TYPE_STRING then 1
     else if fsize f = 0 then nat (type_width (fieldType f)) else 0)"
  using assms length_field_payload[OF assms]
  by (cases "fieldType f") (auto simp: field_over_def field_ok_def)

text \<open>The header's three writes and the payload's one are one block of bytes.\<close>

lemma put_commute:
  "p + length as \<le> q \<or> q + length bs \<le> p \<Longrightarrow> put (put m p as) q bs = put (put m q bs) p as"
  by (auto simp: put_def fun_eq_iff)

lemma header_writes:
  assumes "length s = 4"
  shows "rbind (memcpy_to b (off + 1) s) (\<lambda>b. rbind (memcpy_to b (off + 5) [n]) (\<lambda>b.
      rbind (memcpy_to b off [t]) (\<lambda>b. memcpy_to b (off + 6) pl)))
    = memcpy_to b off ((t # s @ [n]) @ pl)"
proof -
  have "put (put (put (put m (off + 1) s) (off + 5) [n]) off [t]) (off + 6) pl
      = put m off ((t # s @ [n]) @ pl)" for m
  proof -
    have "put (put (put m (off + 1) s) (off + 5) [n]) off [t]
        = put (put (put m off [t]) (off + 1) s) (off + 5) [n]"
      using assms by (simp add: put_commute[where q = off])
    also have "\<dots> = put m off (t # s @ [n])"
      using assms put_put_append[of m off "[t]" s] put_put_append[of m off "t # s" "[n]"]
      by (simp add: add.assoc)
    finally show ?thesis
      using assms put_put_append[of m off "t # s @ [n]" pl] by (simp add: add.assoc)
  qed
  with assms show ?thesis by (auto simp: memcpy_to_def)
qed

lemma string_bytes_ok:
  "field_ok f \<Longrightarrow> fieldType f = TYPE_STRING \<Longrightarrow> \<not> is_null f \<Longrightarrow>
   \<exists>s. fval f = VALUE_STRING (Some (s @ [NUL])) \<and> int (length s) = fsize f \<and> string_bytes f = Inr (str_bytes s)"
  by (auto simp: field_ok_def active_ok_iff string_bytes_def getFieldValueStr_def str_bytes_def)

lemma memcpy_to_snoc:
  "rbind (memcpy_to b off as) (\<lambda>b. memcpy_to b (off + length as) [z]) = memcpy_to b off (as @ [z])"
  by (rule memcpy_to_append)

theorem Field_serialize_bytes:
  assumes "field_ok f"
  shows "Field_serialize f b off = memcpy_to b off (field_enc f @ field_over f)"
proof (cases "fieldType f = TYPE_STRING")
  case False
  note hw = header_writes[OF length_int_bytes(4), of b off "fsize f" "bool_byte (is_null f)"
      "char_byte (type_char (fieldType f))" "field_payload f"]
  have "Field_serialize f b off = memcpy_to b off (field_header f @ field_payload f)"
    using assms False hw
    by (cases "fieldType f"; cases "fval f" rule: val_bytes.cases; cases "is_null f")
       (auto simp: Field_serialize_def field_payload_def field_header_def field_ok_def
          getFieldValueInt_def getFieldValueBool_def memcpy_to_def)
  then show ?thesis by (simp add: field_enc_over)
next
  case True
  have pl: "\<exists>bs. field_payload f = bs @ [0] \<and> length bs = nat (fsize f) \<and>
      (if \<not> is_null f then string_bytes f = Inr bs else bs = replicate (nat (fsize f)) 0)"
    using string_bytes_ok[OF assms True] assms True
    by (cases "is_null f") (auto simp: field_payload_def replicate_append_same[symmetric])
  then obtain bs where bs: "field_payload f = bs @ [0]" "length bs = nat (fsize f)"
    "if \<not> is_null f then string_bytes f = Inr bs else bs = replicate (nat (fsize f)) 0" by blast
  note hw = header_writes[OF length_int_bytes(4), of b off "fsize f" "bool_byte (is_null f)"
      "char_byte (type_char (fieldType f))" "bs @ [0]"]
  have "Field_serialize f b off = memcpy_to b off (field_header f @ field_payload f)"
    using assms True bs hw memcpy_to_snoc[of _ "off + 6" bs 0]
    by (cases "is_null f")
       (simp_all add: Field_serialize_def field_header_def field_ok_def cong: rbind_cong)
  then show ?thesis by (simp add: field_enc_over)
qed

section \<open>Reading back\<close>

lemma header_read:
  assumes "peek m off (length (field_enc f)) = field_enc f"
  shows "peek m off 1 = [char_byte (type_char (fieldType f))]"
    and "peek m (off + 1) 4 = i32_bytes (fsize f)"
    and "peek m (off + 5) 1 = [bool_byte (is_null f)]"
    and "peek m (off + 6) (length (take (nat (fsize f)) (field_payload f))) = take (nat (fsize f)) (field_payload f)"
proof -
  let ?p = "take (nat (fsize f)) (field_payload f)"
  have p: "peek m off (6 + length ?p) = field_header f @ ?p"
    using assms by (simp add: field_enc_def)
  have "peek m off 1 @ peek m (off + 1) 4 @ peek m (off + 5) 1 @ peek m (off + 6) (length ?p)
      = peek m off (1 + (4 + (1 + length ?p)))"
    by (simp only: peek_add) (simp add: ac_simps)
  also have "\<dots> = [char_byte (type_char (fieldType f))] @ i32_bytes (fsize f) @ [bool_byte (is_null f)] @ ?p"
    using p by (simp add: add.assoc field_header_def)
  finally have "peek m off 1 = [char_byte (type_char (fieldType f))] \<and> peek m (off + 1) 4 = i32_bytes (fsize f)
      \<and> peek m (off + 5) 1 = [bool_byte (is_null f)] \<and> peek m (off + 6) (length ?p) = ?p"
    by (rule append4_eq) simp_all
  then show "peek m off 1 = [char_byte (type_char (fieldType f))]"
    "peek m (off + 1) 4 = i32_bytes (fsize f)"
    "peek m (off + 5) 1 = [bool_byte (is_null f)]"
    "peek m (off + 6) (length ?p) = ?p" by blast+
qed

lemma unat_64_mod [simp]: "unat (d :: 64 word) mod 18446744073709551616 = unat d"
proof -
  have "unat d < 2 ^ LENGTH(64)" by (rule unsigned_less)
  then show ?thesis by simp
qed

lemma char_byte_eq [simp]: "char_byte c = char_byte d \<longleftrightarrow> c = d"
  by (metis char_byte_def char_of_of_char_byte)

lemma bool_byte_neq_0 [simp]: "bool_byte v \<noteq> 0 \<longleftrightarrow> v" "bool_byte v = 0 \<longleftrightarrow> \<not> v"
  by (simp_all add: bool_byte_def)

theorem Field_deserialize_back:
  assumes ok: "field_ok f"
    and enc: "peek (mem b) off (length (field_enc f)) = field_enc f"
    and room: "off + length (field_enc f @ field_over f) \<le> cap b"
  shows "\<exists>g. Field_deserialize f0 b off = Inr g \<and> field_eqv f g"
proof -
  note h = header_read[OF enc]
  have room': "off + 6 + length (field_payload f) \<le> cap b"
    using room by (simp add: field_enc_over)
  have sz: "i32_val (i32_bytes (fsize f)) = fsize f"
    using ok by (simp add: field_ok_def in_i32_def)
  have reads: "memcpy_from b off 1 = Inr [char_byte (type_char (fieldType f))]"
    "memcpy_from b (off + 1) 4 = Inr (i32_bytes (fsize f))"
    "memcpy_from b (off + 5) 1 = Inr [bool_byte (is_null f)]"
    using room' h by (simp_all add: memcpy_from_def)
  have val: "memcpy_from b (off + 6) k = Inr (peek (mem b) (off + 6) k)"
    if "k \<le> length (field_payload f)" for k using that room' by (simp add: memcpy_from_def)
  have pl: "peek (mem b) (off + 6) (length (field_payload f)) = field_payload f"
    if "length (field_payload f) \<le> nat (fsize f)" using h(4) that by simp
  show ?thesis
  proof (cases "fieldType f")
    case TYPE_INT
    then show ?thesis using ok reads sz val[of 4] pl length_field_payload[OF ok]
      by (auto simp: Field_deserialize_def field_eqv_def field_ok_def active_ok_iff Let_def
           field_payload_def in_i32_val split: if_splits)
  next
    case TYPE_FLOAT
    then show ?thesis using ok reads sz val[of 8] pl length_field_payload[OF ok]
      by (auto simp: Field_deserialize_def field_eqv_def field_ok_def active_ok_iff Let_def
           field_payload_def split: if_splits)
  next
    case TYPE_BOOL
    then show ?thesis using ok reads sz val[of 1] pl length_field_payload[OF ok]
      by (auto simp: Field_deserialize_def field_eqv_def field_ok_def active_ok_iff Let_def
           field_payload_def split: if_splits)
  next
    case TYPE_NULL
    then show ?thesis using ok reads sz
      by (auto simp: Field_deserialize_def field_eqv_def field_ok_def active_ok_iff Let_def)
  next
    case TYPE_STRING
    have l: "length (field_payload f) = nat (fsize f) + 1"
      using TYPE_STRING length_field_payload[OF ok] by simp
    then have v: "memcpy_from b (off + 6) (nat (fsize f)) = Inr (take (nat (fsize f)) (field_payload f))"
      using h(4) val[of "nat (fsize f)"] by simp
    have "0 \<le> fsize f" using ok by (simp add: field_ok_def)
    then have "\<exists>g. Field_deserialize f0 b off = Inr g \<and> fieldType g = TYPE_STRING \<and> fsize g = fsize f \<and>
        is_null g = is_null f \<and> fval g = VALUE_STRING (Some (bytes_str (take (nat (fsize f)) (field_payload f)) @ [NUL]))"
      using TYPE_STRING reads sz v by (simp add: Field_deserialize_def Let_def)
    then show ?thesis using TYPE_STRING ok l
      by (auto simp: field_eqv_def active_ok_iff field_ok_def field_payload_def split: if_splits)
  qed
qed

lemma field_eqv_ok:
  assumes "field_ok f" "field_eqv f g"
  shows "field_ok g \<and> field_enc g = field_enc f \<and> field_over g = field_over f"
proof -
  from assms have "field_ok g"
    by (auto simp: field_ok_def field_eqv_def split: if_splits)
  moreover from assms have "field_payload g = field_payload f"
    by (auto simp: field_payload_def field_eqv_def split: if_splits)
  ultimately show ?thesis
    using assms by (simp add: field_enc_def field_over_def field_header_def field_eqv_def)
qed

interpretation field: codec Field_serialize "Field_deserialize f0" "\<lambda>f. nat (getSerializedSize f)"
  field_enc field_over field_ok field_eqv for f0
  by unfold_locales
     (simp_all add: Field_serialize_bytes Field_deserialize_back serialized_size_nat field_eqv_ok)

section \<open>Properties\<close>

text \<open>
  A consistent field that is written to a buffer and read back at the same place, into whatever
  object, has the same type, size and null flag, and the same value when it is not null; the bytes
  outside the field's size and its overrun (one byte for a string, the width of the type for a
  number of size zero) are unchanged.
\<close>

lemma field_roundtrip:
  assumes "field_ok f" "Field_serialize f b off = Inr b'"
  shows "(\<exists>g. Field_deserialize f0 b' off = Inr g \<and> field_eqv f g) \<and>
    (\<forall>i. i < off \<or> off + nat (getSerializedSize f) + length (field_over f) \<le> i \<longrightarrow> mem b' i = mem b i)"
  using field.roundtrip[OF assms] field.wr_frame(2)[OF assms] assms(1)
  by (auto simp: serialized_size_nat add.assoc)

lemma field_roundtrip_witness:
  "\<exists>b'. Field_serialize (Field_int TYPE_INT (- 5)) (zero_buf 16) 2 = Inr b' \<and>
     Field_deserialize (Field_null TYPE_BOOL) b' 2 = Inr (Field_int TYPE_INT (- 5))"
proof -
  let ?f = "Field_int TYPE_INT (- 5)"
  have ok: "field_ok ?f" by (simp add: in_i32_def)
  have len: "length (field_enc ?f @ field_over ?f) = 10"
    by (simp add: field_enc_over field_payload_def Field_int_def)
  obtain b' where b': "Field_serialize ?f (zero_buf 16) 2 = Inr b'"
    using len by (simp add: field.wr_bytes[OF ok] memcpy_to_def zero_buf_def)
  obtain g where g: "Field_deserialize (Field_null TYPE_BOOL) b' 2 = Inr g" "field_eqv ?f g"
    using field_roundtrip[OF ok b'] by blast
  have "g = ?f" using g(2) by (simp add: field_eqv_def Field_int_def)
  with b' g show ?thesis by blast
qed

text \<open>
  Copying a consistent field, by construction or by assignment over another consistent field,
  gives an equal field; only the assignment of a null field keeps the target's old value behind
  its null flag.
\<close>

lemma field_copy_faithful:
  assumes "field_ok f" "field_ok g"
  shows "Field_copy f = Inr f \<and>
    (\<exists>h. Field_assign g f = Inr h \<and> fieldType h = fieldType f \<and> fsize h = fsize f \<and> is_null h = is_null f \<and>
      (\<not> is_null f \<longrightarrow> h = f))"
proof
  show "Field_copy f = Inr f"
    using assms(1) by (cases "fieldType f") (auto simp: Field_copy_def field_ok_def active_ok_iff copy_array_def)
  obtain v where v: "Field_free g = Inr v"
    using assms(2) by (cases "fieldType g") (auto simp: Field_free_def field_ok_def active_ok_iff)
  show "\<exists>h. Field_assign g f = Inr h \<and> fieldType h = fieldType f \<and> fsize h = fsize f \<and> is_null h = is_null f \<and>
      (\<not> is_null f \<longrightarrow> h = f)"
    using assms(1)
    by (cases "fieldType f")
       (auto simp: Field_assign_def v Let_def field_ok_def active_ok_iff copy_array_def)
qed

lemma field_copy_faithful_witness:
  "Field_copy (Field_bool TYPE_BOOL True) = Inr (Field_bool TYPE_BOOL True) \<and>
   Field_assign (Field_null TYPE_STRING) (Field_int TYPE_INT 9) = Inr (Field_int TYPE_INT 9)"
proof -
  have ok: "field_ok (Field_bool TYPE_BOOL True)" "field_ok (Field_int TYPE_INT 9)" "field_ok (Field_null TYPE_STRING)"
    by (simp_all add: in_i32_def)
  show ?thesis
    using field_copy_faithful[OF ok(1,3)] field_copy_faithful[OF ok(2,3)] by (simp add: Field_int_def)
qed

text \<open>
  Assigning a null string field to a field of another type leaves the type tag \<^verbatim>\<open>TYPE_STRING\<close> over
  the old value of the union, and the destructor then frees that value as a pointer.
\<close>

theorem null_string_assignment_dangles:
  assumes "field_ok g" "fieldType g = TYPE_INT"
  shows "\<exists>h. Field_assign g (Field_null TYPE_STRING) = Inr h \<and> Field_free h = Inl Undefined"
  using assms by (auto simp: Field_assign_def Field_free_def Field_null_def Let_def field_ok_def active_ok_iff)

lemma null_string_assignment_dangles_witness:
  "rbind (Field_assign (Field_int TYPE_INT 3) (Field_null TYPE_STRING)) Field_free = Inl Undefined"
  using null_string_assignment_dangles[of "Field_int TYPE_INT 3"] by (auto simp: in_i32_def Field_int_def field_ok_def)

end
