(* ===== verification/Field_Order.thy ===== *)
theory Field_Order imports Field_Laws
begin

text \<open>
  The comparison operators of \<^verbatim>\<open>Field\<close>. Every operator that orders rows (sorting, merging, B+ tree
  keys, predicates) calls them, and relies on a strict weak order. The locale states that contract;
  the interpretation shows that the code's operators meet it on non-null fields of one type that
  hold no NaN, with the double's narrowing to \<^verbatim>\<open>float\<close> in the getter included.
\<close>

locale value_order =
  fixes less :: "'a \<Rightarrow> 'a \<Rightarrow> bool" and equal :: "'a \<Rightarrow> 'a \<Rightarrow> bool" and dom :: "'a \<Rightarrow> bool"
  assumes irrefl: "dom a \<Longrightarrow> \<not> less a a"
    and trans: "dom a \<Longrightarrow> dom b \<Longrightarrow> dom c \<Longrightarrow> less a b \<Longrightarrow> less b c \<Longrightarrow> less a c"
    and equal_iff: "dom a \<Longrightarrow> dom b \<Longrightarrow> equal a b \<longleftrightarrow> \<not> less a b \<and> \<not> less b a"
    and equal_trans: "dom a \<Longrightarrow> dom b \<Longrightarrow> dom c \<Longrightarrow> equal a b \<Longrightarrow> equal b c \<Longrightarrow> equal a c"
begin

lemma asym: "dom a \<Longrightarrow> dom b \<Longrightarrow> less a b \<Longrightarrow> \<not> less b a"
  using irrefl trans by blast

lemma equal_refl: "dom a \<Longrightarrow> equal a a"
  by (simp add: equal_iff irrefl)

lemma equal_sym: "dom a \<Longrightarrow> dom b \<Longrightarrow> equal a b \<Longrightarrow> equal b a"
  by (simp add: equal_iff)

lemma not_less_trans: "dom a \<Longrightarrow> dom b \<Longrightarrow> dom c \<Longrightarrow> \<not> less b a \<Longrightarrow> \<not> less c b \<Longrightarrow> \<not> less c a"
  by (metis equal_iff equal_trans trans)

lemma equal_less: "dom a \<Longrightarrow> dom b \<Longrightarrow> dom c \<Longrightarrow> equal a b \<Longrightarrow> less a c \<longleftrightarrow> less b c"
  by (metis equal_iff not_less_trans trans)

lemma less_equal: "dom a \<Longrightarrow> dom b \<Longrightarrow> dom c \<Longrightarrow> equal a b \<Longrightarrow> less c a \<longleftrightarrow> less c b"
  by (metis equal_iff not_less_trans trans)

end

section \<open>Values of one type\<close>

definition no_nan :: "field_val \<Rightarrow> bool" where
  "no_nan v = (case v of VALUE_FLOAT d \<Rightarrow> \<not> f32_nan (f64_to_f32 d) | _ \<Rightarrow> True)"

definition comparable :: "FieldType \<Rightarrow> field \<Rightarrow> bool" where
  "comparable t f \<longleftrightarrow> field_ok f \<and> \<not> is_null f \<and> fieldType f = t \<and> no_nan (fval f)"

definition val_string :: "string \<Rightarrow> string" where
  "val_string arr = takeWhile (\<lambda>c. c \<noteq> NUL) arr"

fun val_less :: "field_val \<Rightarrow> field_val \<Rightarrow> bool" where
  "val_less (VALUE_INT x) (VALUE_INT y) = (x < y)"
| "val_less (VALUE_FLOAT x) (VALUE_FLOAT y) = f32_less (f64_to_f32 x) (f64_to_f32 y)"
| "val_less (VALUE_BOOL x) (VALUE_BOOL y) = (x < y)"
| "val_less (VALUE_STRING (Some x)) (VALUE_STRING (Some y)) = str_less (val_string x) (val_string y)"
| "val_less _ _ = False"

definition fless :: "field \<Rightarrow> field \<Rightarrow> bool" where
  "fless a b = val_less (fval a) (fval b)"

definition fequal :: "field \<Rightarrow> field \<Rightarrow> bool" where
  "fequal a b \<longleftrightarrow> \<not> fless a b \<and> \<not> fless b a"

lemma comparable_cases:
  assumes "comparable t a"
  obtains i where "t = TYPE_INT" "fval a = VALUE_INT i"
  | d where "t = TYPE_FLOAT" "fval a = VALUE_FLOAT d" "\<not> f32_nan (f64_to_f32 d)"
  | v where "t = TYPE_BOOL" "fval a = VALUE_BOOL v"
  | s where "t = TYPE_STRING" "fval a = VALUE_STRING (Some (s @ [NUL]))"
  using assms
  by (cases t) (auto simp: comparable_def field_ok_def active_ok_iff no_nan_def)

lemma field_string_some [simp]:
  "fval f = VALUE_STRING (Some (s @ [NUL])) \<Longrightarrow> field_string f = Inr (val_string (s @ [NUL]))"
  by (simp add: field_string_def getFieldValueStr_def c_str_def val_string_def)

lemma f32_not_less_eq: "\<not> f32_nan x \<Longrightarrow> \<not> f32_nan y \<Longrightarrow> f32_eq x y \<longleftrightarrow> \<not> f32_less x y \<and> \<not> f32_less y x"
  by (auto simp: f32_less_def f32_eq_def)

lemma f32_le_not_less: "\<not> f32_nan x \<Longrightarrow> \<not> f32_nan y \<Longrightarrow> f32_le x y \<longleftrightarrow> \<not> f32_less y x"
  by (auto simp: f32_less_def f32_le_def)

lemma str_eq_not_less: "x = y \<longleftrightarrow> \<not> str_less x y \<and> \<not> str_less y x"
  using str_less_linear by auto

lemma field_cmp_not_same:
  assumes "comparable t a" "comparable t b"
  shows "field_lt False a b = Inr (fless a b)"
    and "field_gt False a b = Inr (fless b a)"
    and "field_le False a b = Inr (\<not> fless b a)"
    and "field_ge False a b = Inr (\<not> fless a b)"
    and "field_eq a b = Inr (fequal a b)"
proof -
  have n: "fieldType a = t" "fieldType b = t" "\<not> is_null a" "\<not> is_null b"
    using assms by (auto simp: comparable_def)
  note d = field_lt_def field_gt_def field_le_def field_ge_def field_eq_def field_cmp_def null_check_def
    fless_def fequal_def getFieldValueInt_def getFieldValueFloat_def getFieldValueBool_def
  show "field_lt False a b = Inr (fless a b)" "field_gt False a b = Inr (fless b a)"
    "field_le False a b = Inr (\<not> fless b a)" "field_ge False a b = Inr (\<not> fless a b)"
    "field_eq a b = Inr (fequal a b)"
    using n assms(1,2)
    by (cases rule: comparable_cases[OF assms(1)]; cases rule: comparable_cases[OF assms(2)];
        force simp: d f32_le_not_less f32_not_less_eq str_eq_not_less[symmetric] not_less)+
qed

lemma val_string_less_trans:
  "comparable t a \<Longrightarrow> comparable t b \<Longrightarrow> comparable t c \<Longrightarrow> fless a b \<Longrightarrow> fless b c \<Longrightarrow> fless a c"
  by (cases rule: comparable_cases[of t a]; cases rule: comparable_cases[of t b];
      cases rule: comparable_cases[of t c];
      auto simp: fless_def dest: f32_less_trans intro: str_less_trans)

interpretation field_order: value_order fless fequal "comparable t" for t
proof unfold_locales
  fix a b c
  show "comparable t a \<Longrightarrow> \<not> fless a a"
    by (cases rule: comparable_cases[of t a]) (auto simp: fless_def)
  show "comparable t a \<Longrightarrow> comparable t b \<Longrightarrow> comparable t c \<Longrightarrow> fless a b \<Longrightarrow> fless b c \<Longrightarrow> fless a c"
    by (rule val_string_less_trans)
  show "comparable t a \<Longrightarrow> comparable t b \<Longrightarrow> fequal a b \<longleftrightarrow> \<not> fless a b \<and> \<not> fless b a"
    by (simp add: fequal_def)
  show "comparable t a \<Longrightarrow> comparable t b \<Longrightarrow> comparable t c \<Longrightarrow> fequal a b \<Longrightarrow> fequal b c \<Longrightarrow> fequal a c"
    by (cases rule: comparable_cases[of t a]; cases rule: comparable_cases[of t b];
        cases rule: comparable_cases[of t c];
        auto simp: fless_def fequal_def f32_less_def str_eq_not_less[symmetric])
qed

section \<open>Properties\<close>

text \<open>
  C35. On non-null fields of one type without NaN the six operators never fail and agree on one strict
  weak order: \<^verbatim>\<open>>\<close> is \<^verbatim>\<open><\<close> reversed, \<^verbatim>\<open><=\<close> and \<^verbatim>\<open>>=\<close> are the negations of \<^verbatim>\<open>>\<close> and \<^verbatim>\<open><\<close>, \<^verbatim>\<open>==\<close> is neither
  smaller nor larger, and the order and its negation are transitive.
\<close>

theorem field_operators_consistent:
  assumes "comparable t a" "comparable t b" "comparable t c"
  shows "\<exists>lt. field_lt False a b = Inr (lt a b) \<and> field_gt False a b = Inr (lt b a) \<and>
    field_le False a b = Inr (\<not> lt b a) \<and> field_ge False a b = Inr (\<not> lt a b) \<and>
    field_eq a b = Inr (\<not> lt a b \<and> \<not> lt b a) \<and>
    (field_lt False b c = Inr True \<longrightarrow> lt a b \<longrightarrow> field_lt False a c = Inr True) \<and>
    (field_le False b c = Inr True \<longrightarrow> \<not> lt b a \<longrightarrow> field_le False a c = Inr True)"
  using field_cmp_not_same[OF assms(1,2)] field_cmp_not_same[OF assms(2,3)] field_cmp_not_same[OF assms(1,3)]
    field_order.trans[OF assms] field_order.not_less_trans[OF assms]
  by (intro exI[of _ fless]) (auto simp: fequal_def)

lemma field_operators_consistent_witness:
  "field_lt False (Field_int TYPE_INT 2) (Field_int TYPE_INT 5) = Inr True \<and>
   field_ge False (Field_int TYPE_INT 2) (Field_int TYPE_INT 5) = Inr False"
proof -
  have c: "comparable TYPE_INT (Field_int TYPE_INT 2)" "comparable TYPE_INT (Field_int TYPE_INT 5)"
    by (simp_all add: comparable_def in_i32_def) (simp_all add: Field_int_def no_nan_def)
  obtain lt where "field_lt False (Field_int TYPE_INT 2) (Field_int TYPE_INT 5) = Inr (lt (Field_int TYPE_INT 2) (Field_int TYPE_INT 5))"
    "field_ge False (Field_int TYPE_INT 2) (Field_int TYPE_INT 5) = Inr (\<not> lt (Field_int TYPE_INT 2) (Field_int TYPE_INT 5))"
    using field_operators_consistent[OF c(1,2,2)] by blast
  moreover have "field_lt False (Field_int TYPE_INT 2) (Field_int TYPE_INT 5) = Inr True"
    by (simp add: field_lt_def field_cmp_def null_check_def Field_int_def getFieldValueInt_def)
  ultimately show ?thesis by simp
qed

text \<open>
  The getter of a \<^verbatim>\<open>FLOAT\<close> field narrows the stored \<^verbatim>\<open>double\<close>: comparison by \<^verbatim>\<open><=\<close> never inverts the
  order of the doubles, but it does not separate all of them (16777217 and 16777216 are equal).
\<close>

theorem float_comparison_narrows:
  "(\<forall>x y. f64_nan x \<or> f64_nan y \<or> f64_key y < f64_key x \<or>
      field_le False (Field_double TYPE_FLOAT x) (Field_double TYPE_FLOAT y) = Inr True) \<and>
   field_eq (Field_double TYPE_FLOAT 0x4170000010000000) (Field_double TYPE_FLOAT 0x4170000000000000) = Inr True"
proof (intro conjI allI)
  fix x y
  have "field_le False (Field_double TYPE_FLOAT x) (Field_double TYPE_FLOAT y) = Inr True"
    if "\<not> f64_nan x" "\<not> f64_nan y" "f64_key x \<le> f64_key y"
    using narrow_mono[OF that] narrow_not_nan[OF that(1)] narrow_not_nan[OF that(2)]
    by (simp add: field_le_def field_cmp_def null_check_def Field_double_def getFieldValueFloat_def f32_le_def)
  then show "f64_nan x \<or> f64_nan y \<or> f64_key y < f64_key x \<or>
      field_le False (Field_double TYPE_FLOAT x) (Field_double TYPE_FLOAT y) = Inr True"
    by (meson not_less)
next
  show "field_eq (Field_double TYPE_FLOAT 0x4170000010000000) (Field_double TYPE_FLOAT 0x4170000000000000) = Inr True"
    by (simp add: field_eq_def Field_double_def getFieldValueFloat_def narrow_16777217 f32_eq_def f32_nan_def)
qed

end
