(* ===== verification/Tuple_Model.thy ===== *)
theory Tuple_Model imports Field_Laws
begin

text \<open>
  \<^verbatim>\<open>Tuple\<close> (src/Storage/Page/Tuple.c++, Include/Storage/Page/Tuple.h): a row of fields and its byte
  format, a deletion byte, the sum of the fields' sizes and the fields.

  The stored sum leaves out the five header bytes, while \<^verbatim>\<open>deserialize\<close> compares it with an offset
  that counts them. The round trip holds nevertheless, because no field is shorter than six bytes.
\<close>

record tuple =
  t_deleted :: bool
  tulpe_size :: int
  tfields :: "field list"

definition fields_size :: "field list \<Rightarrow> int" where
  "fields_size fs = sum_list (map getSerializedSize fs)"

definition Tuple :: "field list \<Rightarrow> tuple" where
  "Tuple fs = \<lparr>t_deleted = False, tulpe_size = fields_size fs, tfields = fs\<rparr>"

definition getTupleSize :: "tuple \<Rightarrow> int" where
  "getTupleSize t = 5 + fields_size (tfields t)"

text \<open>A pointer \<^verbatim>\<open>buffer + offset\<close> with a signed offset.\<close>

definition at_off :: "nat \<Rightarrow> int \<Rightarrow> nat res" where
  "at_off base off = (if 0 \<le> int base + off then Inr (nat (int base + off)) else Inl Undefined)"

fun ser_fields :: "field list \<Rightarrow> buf \<Rightarrow> nat \<Rightarrow> int \<Rightarrow> buf res" where
  "ser_fields [] b base off = Inr b"
| "ser_fields (f # fs) b base off =
     rbind (at_off base off) (\<lambda>p. rbind (Field_serialize f b p) (\<lambda>b.
       ser_fields fs b base (off + getSerializedSize f)))"

definition Tuple_serialize :: "tuple \<Rightarrow> buf \<Rightarrow> nat \<Rightarrow> buf res" where
  "Tuple_serialize t b base =
     rbind (memcpy_to b base [bool_byte (t_deleted t)]) (\<lambda>b.
     rbind (memcpy_to b (base + 1) (i32_bytes (tulpe_size t))) (\<lambda>b.
     ser_fields (tfields t) b base 5))"

text \<open>
  The loop of \<^verbatim>\<open>deserialize\<close>. The buffer does not change, so an iteration is determined by the
  offset: after more iterations than the buffer has positions an offset has come twice and the loop
  never ends. The fuel is therefore one more than the capacity, and running out is \<open>Diverges\<close>.
\<close>

fun des_fields :: "nat \<Rightarrow> buf \<Rightarrow> nat \<Rightarrow> int \<Rightarrow> int \<Rightarrow> field list res" where
  "des_fields 0 b base off lim = Inl Diverges"
| "des_fields (Suc n) b base off lim =
     (if off < lim then
        rbind (at_off base off) (\<lambda>p. rbind (Field_deserialize (Field_null TYPE_INT) b p) (\<lambda>f.
        rbind (des_fields n b base (off + getSerializedSize f) lim) (\<lambda>fs. Inr (f # fs))))
      else Inr [])"

definition Tuple_deserialize :: "buf \<Rightarrow> nat \<Rightarrow> tuple res" where
  "Tuple_deserialize b base =
     rbind (memcpy_from b base 1) (\<lambda>d.
     rbind (memcpy_from b (base + 1) 4) (\<lambda>s.
     rbind (des_fields (Suc (cap b)) b base 5 (i32_val s)) (\<lambda>fs.
       Inr \<lparr>t_deleted = (d \<noteq> [0]), tulpe_size = i32_val s, tfields = fs\<rparr>)))"

definition set_is_deleted :: "tuple \<Rightarrow> bool \<Rightarrow> tuple" where
  "set_is_deleted t v = t\<lparr>t_deleted := v\<rparr>"

section \<open>Consistent tuples\<close>

definition tuple_ok :: "tuple \<Rightarrow> bool" where
  "tuple_ok t \<longleftrightarrow> (\<forall>f \<in> set (tfields t). field_ok f) \<and> tulpe_size t = fields_size (tfields t) \<and>
     tulpe_size t < 2 ^ 31"

definition tuple_enc :: "tuple \<Rightarrow> byte list" where
  "tuple_enc t = [bool_byte (t_deleted t)] @ i32_bytes (tulpe_size t) @ seq_enc field_enc (tfields t)"

definition tuple_over :: "tuple \<Rightarrow> byte list" where
  "tuple_over t = seq_over field_enc field_over (tfields t)"

definition tuple_eqv :: "tuple \<Rightarrow> tuple \<Rightarrow> bool" where
  "tuple_eqv t u \<longleftrightarrow> t_deleted u = t_deleted t \<and> tulpe_size u = tulpe_size t \<and>
     list_all2 field_eqv (tfields t) (tfields u)"

lemma fields_size_simps [simp]:
  "fields_size [] = 0" "fields_size (f # fs) = getSerializedSize f + fields_size fs"
  by (simp_all add: fields_size_def)

lemma fields_size_enc:
  "\<forall>f \<in> set fs. field_ok f \<Longrightarrow> fields_size fs = int (length (seq_enc field_enc fs))"
  by (induction fs) (auto simp: length_field_enc[symmetric])

lemma tuple_size_enc: "tuple_ok t \<Longrightarrow> getTupleSize t = int (length (tuple_enc t))"
  by (simp add: getTupleSize_def tuple_ok_def tuple_enc_def fields_size_enc)

lemma length_tuple_enc_ge: "5 \<le> length (tuple_enc t)"
  by (simp add: tuple_enc_def)

lemma at_off_nat [simp]: "at_off base (int k) = Inr (base + k)"
  by (simp add: at_off_def nat_add_distrib)

lemma ser_fields_write_seq:
  "\<forall>f \<in> set fs. field_ok f \<Longrightarrow>
   ser_fields fs b base (int k) = write_seq Field_serialize (\<lambda>f. nat (getSerializedSize f)) fs b (base + k)"
proof (induction fs arbitrary: b k)
  case (Cons f fs)
  obtain n where n: "getSerializedSize f = int n"
    using Cons.prems serialized_size_ge[of f] by (metis list.set_intros(1) nonneg_int_cases order.trans zero_le_numeral)
  have "ser_fields fs b' base (int k + int n) =
      write_seq Field_serialize (\<lambda>f. nat (getSerializedSize f)) fs b' (base + k + n)" for b'
    using Cons.IH[of b' "k + n"] Cons.prems by (simp add: add.assoc)
  then show ?case by (auto simp: n intro!: rbind_cong)
qed simp

lemma tuple_bytes:
  "tuple_enc t @ tuple_over t =
     [bool_byte (t_deleted t)] @ i32_bytes (tulpe_size t) @ seq_bytes field_enc field_over (tfields t)"
  by (simp add: tuple_enc_def tuple_over_def seq_bytes_split)

lemma Tuple_serialize_bytes:
  assumes "tuple_ok t"
  shows "Tuple_serialize t b off = memcpy_to b off (tuple_enc t @ tuple_over t)"
proof -
  have "ser_fields (tfields t) b' off 5 = memcpy_to b' (off + 5) (seq_bytes field_enc field_over (tfields t))"
    if "off + 5 \<le> cap b'" for b'
    using that assms ser_fields_write_seq[of "tfields t" b' off 5]
    by (simp add: field.write_seq_bytes tuple_ok_def)
  then have "Tuple_serialize t b off =
    rbind (memcpy_to b off [bool_byte (t_deleted t)]) (\<lambda>b. rbind (memcpy_to b (off + 1) (i32_bytes (tulpe_size t)))
      (\<lambda>b. memcpy_to b (off + 5) (seq_bytes field_enc field_over (tfields t))))"
    unfolding Tuple_serialize_def by (auto simp: memcpy_to_eq_Inr intro!: rbind_cong)
  also have "\<dots> = memcpy_to b off (tuple_enc t @ tuple_over t)"
    using memcpy_to_append3[of b off "[bool_byte (t_deleted t)]" "i32_bytes (tulpe_size t)"]
    by (simp add: tuple_bytes ac_simps)
  finally show ?thesis .
qed

lemma des_fields_back:
  "\<forall>f \<in> set fs. field_ok f \<Longrightarrow>
   peek (mem b) (base + k) (length (seq_enc field_enc fs)) = seq_enc field_enc fs \<Longrightarrow>
   base + k + length (seq_bytes field_enc field_over fs) \<le> cap b \<Longrightarrow>
   5 \<le> k \<Longrightarrow> int k + fields_size fs = lim + 5 \<Longrightarrow> length fs < n \<Longrightarrow>
   \<exists>gs. des_fields n b base (int k) lim = Inr gs \<and> list_all2 field_eqv fs gs"
proof (induction fs arbitrary: k n)
  case Nil
  then show ?case by (cases n) auto
next
  case (Cons f fs)
  let ?e = "field_enc f" and ?es = "seq_enc field_enc fs"
  obtain n' where n: "n = Suc n'" using Cons.prems(6) by (cases n) auto
  have ok: "field_ok f" "\<forall>f \<in> set fs. field_ok f" using Cons.prems(1) by auto
  have sz: "getSerializedSize f = int (length ?e)" using ok(1) by (simp add: length_field_enc)
  have "0 \<le> fields_size fs" by (simp add: fields_size_enc ok(2))
  then have lt: "int k < lim" using Cons.prems(5) serialized_size_ge[OF ok(1)] by simp
  have "peek (mem b) (base + k) (length ?e) @ peek (mem b) (base + k + length ?e) (length ?es) = ?e @ ?es"
    using Cons.prems(2) by (simp add: peek_add)
  then have e: "peek (mem b) (base + k) (length ?e) = ?e"
    "peek (mem b) (base + (k + length ?e)) (length ?es) = ?es"
    by (simp_all add: add.assoc)
  have room: "base + k + length (?e @ field_over f) \<le> cap b"
    "base + (k + length ?e) + length (seq_bytes field_enc field_over fs) \<le> cap b"
    using Cons.prems(3) by (auto simp: Let_def)
  obtain g where g: "Field_deserialize (Field_null TYPE_INT) b (base + k) = Inr g" "field_eqv f g"
    using field.rd_back[OF ok(1) e(1) room(1)] by blast
  then have sg: "getSerializedSize g = int (length ?e)"
    using field_eqv_ok[OF ok(1) g(2)] by (metis length_field_enc)
  obtain gs where "des_fields n' b base (int (k + length ?e)) lim = Inr gs" "list_all2 field_eqv fs gs"
    using Cons.IH[OF ok(2) e(2) room(2), of n'] Cons.prems(4-6) sz n by auto
  then show ?case using n lt g sg by simp
qed

lemma length_fields_le: "\<forall>f \<in> set fs. field_ok f \<Longrightarrow> length fs \<le> length (seq_enc field_enc fs)"
proof (induction fs)
  case (Cons f fs)
  then show ?case by (auto simp: field_enc_def)
qed simp

lemma Tuple_deserialize_back:
  assumes ok: "tuple_ok t" and enc: "peek (mem b) off (length (tuple_enc t)) = tuple_enc t"
    and room: "off + length (tuple_enc t @ tuple_over t) \<le> cap b"
  shows "\<exists>u. Tuple_deserialize b off = Inr u \<and> tuple_eqv t u"
proof -
  let ?es = "seq_enc field_enc (tfields t)"
  have "peek (mem b) off 1 @ peek (mem b) (off + 1) 4 @ peek (mem b) (off + 5) (length ?es) @ []
      = peek (mem b) off (1 + (4 + length ?es))"
    by (simp only: peek_add) (simp add: ac_simps)
  also have "\<dots> = [bool_byte (t_deleted t)] @ i32_bytes (tulpe_size t) @ ?es @ []"
    using enc by (simp add: tuple_enc_def add.assoc)
  finally have h: "peek (mem b) off 1 = [bool_byte (t_deleted t)] \<and>
      peek (mem b) (off + 1) 4 = i32_bytes (tulpe_size t) \<and>
      peek (mem b) (off + 5) (length ?es) = ?es \<and> ([] :: byte list) = []"
    by (rule append4_eq) simp_all
  have fok: "\<forall>f \<in> set (tfields t). field_ok f" using ok by (simp add: tuple_ok_def)
  have room': "off + 5 + length (seq_bytes field_enc field_over (tfields t)) \<le> cap b"
    using room by (simp add: tuple_bytes)
  then have "length (tfields t) < Suc (cap b)"
    using length_fields_le[OF fok] length_seq_bytes[of field_enc "tfields t" field_over] by simp
  then obtain gs where gs: "des_fields (Suc (cap b)) b off (int 5) (tulpe_size t) = Inr gs"
    "list_all2 field_eqv (tfields t) gs"
    using des_fields_back[OF fok, of b off 5 "tulpe_size t" "Suc (cap b)"] h room' ok
    by (auto simp: tuple_ok_def)
  have "in_i32 (tulpe_size t)"
    using ok fields_size_enc[OF fok] by (auto simp: tuple_ok_def in_i32_def)
  with h gs room' show ?thesis
    by (simp add: Tuple_deserialize_def memcpy_from_def tuple_eqv_def del: des_fields.simps)
qed

lemma list_all2_field_eqv:
  "\<forall>f \<in> set fs. field_ok f \<Longrightarrow> list_all2 field_eqv fs gs \<Longrightarrow>
   (\<forall>g \<in> set gs. field_ok g) \<and> seq_enc field_enc gs = seq_enc field_enc fs \<and>
   seq_bytes field_enc field_over gs = seq_bytes field_enc field_over fs"
  by (rule field.list_eqv_ok)

lemma tuple_eqv_ok:
  assumes "tuple_ok t" "tuple_eqv t u"
  shows "tuple_ok u \<and> tuple_enc u = tuple_enc t \<and> tuple_over u = tuple_over t"
  using assms list_all2_field_eqv[of "tfields t" "tfields u"]
  by (auto simp: tuple_ok_def tuple_eqv_def tuple_enc_def tuple_over_def seq_over_def fields_size_enc)

interpretation tuple: codec Tuple_serialize Tuple_deserialize "\<lambda>t. nat (getTupleSize t)"
  tuple_enc tuple_over tuple_ok tuple_eqv
  by unfold_locales
     (simp_all add: Tuple_serialize_bytes Tuple_deserialize_back tuple_size_enc tuple_eqv_ok)

text \<open>
  The bytes a tuple writes behind the size it reports: one for a last string, up to eight when the
  last fields are null numbers.
\<close>

lemma length_seq_over:
  "(\<And>x. x \<in> set xs \<Longrightarrow> length (over x) \<le> m) \<Longrightarrow>
   length (seq_bytes enc over xs) \<le> length (seq_enc enc xs) + m"
proof (induction xs)
  case (Cons x xs)
  then have "length (seq_bytes enc over xs) \<le> length (seq_enc enc xs) + m" "length (over x) \<le> m" by auto
  then show ?case by (simp add: Let_def)
qed simp

lemma tuple_over_length:
  "(\<And>f. f \<in> set (tfields t) \<Longrightarrow> length (field_over f) \<le> m) \<Longrightarrow> length (tuple_over t) \<le> m"
  using length_seq_over[of "tfields t" field_over m field_enc] by (simp add: tuple_over_def seq_over_def)

lemma tuple_ok_Tuple:
  "\<forall>f \<in> set fs. field_ok f \<Longrightarrow> fields_size fs < 2 ^ 31 \<Longrightarrow> tuple_ok (Tuple fs)"
  by (simp add: tuple_ok_def Tuple_def)

lemma tuple_over_le_8: "tuple_ok t \<Longrightarrow> length (tuple_over t) \<le> 8"
proof (rule tuple_over_length)
  fix f assume "tuple_ok t" "f \<in> set (tfields t)"
  then have "field_ok f" by (simp add: tuple_ok_def)
  then show "length (field_over f) \<le> 8"
    by (cases "fieldType f") (simp_all add: field_over_length)
qed

lemma tuple_over_non_null:
  "tuple_ok t \<Longrightarrow> \<forall>f \<in> set (tfields t). \<not> is_null f \<Longrightarrow> length (tuple_over t) \<le> 1"
proof (rule tuple_over_length)
  fix f assume t: "tuple_ok t" "\<forall>f \<in> set (tfields t). \<not> is_null f" "f \<in> set (tfields t)"
  then have "field_ok f" "\<not> is_null f" by (auto simp: tuple_ok_def)
  then show "length (field_over f) \<le> 1"
    by (cases "fieldType f") (auto simp: field_over_length field_ok_def)
qed

lemma set_is_deleted_ok:
  "tuple_ok t \<Longrightarrow> tuple_ok (set_is_deleted t v)"
  "tuple_enc (set_is_deleted t v) = bool_byte v # tl (tuple_enc t)"
  "tuple_over (set_is_deleted t v) = tuple_over t"
  by (simp_all add: tuple_ok_def set_is_deleted_def tuple_enc_def tuple_over_def)

text \<open>Fields that survive a round trip unchanged are the non-null ones.\<close>

lemma tuple_eqv_non_null:
  "tuple_eqv t u \<Longrightarrow> \<forall>f \<in> set (tfields t). \<not> is_null f \<Longrightarrow> u = t"
proof -
  assume e: "tuple_eqv t u" and n: "\<forall>f \<in> set (tfields t). \<not> is_null f"
  have "fs = gs" if "list_all2 field_eqv fs gs" "\<forall>f \<in> set fs. \<not> is_null f" for fs gs
    using that by (induction rule: list_all2_induct) (auto simp: field_eqv_def intro!: field.equality)
  with e n have "tfields u = tfields t" unfolding tuple_eqv_def by metis
  with e show ?thesis by (auto simp: tuple_eqv_def intro!: tuple.equality)
qed

section \<open>Properties\<close>

text \<open>
  C34. A consistent tuple that is written to a buffer is read back from it with the same deletion flag,
  size and fields, although the loop of \<^verbatim>\<open>deserialize\<close> compares an offset that counts the header with
  a size that does not; tuples without null fields come back unchanged.
\<close>

theorem tuple_roundtrip:
  assumes "tuple_ok t" "Tuple_serialize t b off = Inr b'"
  shows "\<exists>u. Tuple_deserialize b' off = Inr u \<and> tuple_eqv t u \<and>
    ((\<forall>f \<in> set (tfields t). \<not> is_null f) \<longrightarrow> u = t)"
  using tuple.roundtrip[OF assms] tuple_eqv_non_null by blast

lemma tuple_roundtrip_witness:
  "\<exists>b'. Tuple_serialize (Tuple [Field_int TYPE_INT 4, Field_bool TYPE_BOOL False]) (zero_buf 64) 8 = Inr b' \<and>
     Tuple_deserialize b' 8 = Inr (Tuple [Field_int TYPE_INT 4, Field_bool TYPE_BOOL False])"
proof -
  let ?t = "Tuple [Field_int TYPE_INT 4, Field_bool TYPE_BOOL False]"
  have ok: "tuple_ok ?t"
    by (rule tuple_ok_Tuple) (simp_all add: in_i32_def, simp add: getSerializedSize_def Field_int_def Field_bool_def)
  have "length (tuple_enc ?t) = 22"
    using tuple_size_enc[OF ok] by (simp add: getTupleSize_def Tuple_def getSerializedSize_def Field_int_def Field_bool_def)
  moreover have "length (tuple_over ?t) \<le> 8" using tuple_over_le_8[OF ok] .
  ultimately obtain b' where b': "Tuple_serialize ?t (zero_buf 64) 8 = Inr b'"
    by (simp add: tuple.wr_bytes[OF ok] memcpy_to_def zero_buf_def)
  obtain u where "Tuple_deserialize b' 8 = Inr u"
    "(\<forall>f \<in> set (tfields ?t). \<not> is_null f) \<longrightarrow> u = ?t"
    using tuple_roundtrip[OF ok b'] by blast
  with b' show ?thesis by (simp add: Tuple_def Field_int_def Field_bool_def)
qed

end
