(* ===== verification/Page_Model.thy ===== *)
theory Page_Model imports Tuple_Model
begin

text \<open>
  \<^verbatim>\<open>Page\<close> (src/Storage/Page/page.c++, Include/Storage/Page/page.h): a slotted page of 4096 bytes.
  The packed header takes bytes 0 to 13, slot \<open>i\<close> the six bytes at \<open>14 + 6 * i\<close> (an offset, a size, a
  deletion byte and one byte of padding), and the tuples grow down from the end. A page is a \<open>buf\<close>
  of capacity 4096; the header reads are inside every page, the slot and tuple accesses are checked.
\<close>

definition PAGE_SIZE :: nat where "PAGE_SIZE = 4096"

section \<open>Header and slots\<close>

definition hdr_page_id :: "buf \<Rightarrow> nat" where "hdr_page_id p = le_val (peek (mem p) 0 4)"
definition hdr_next_page_id :: "buf \<Rightarrow> int" where "hdr_next_page_id p = i32_val (peek (mem p) 4 4)"
definition hdr_num_tuples :: "buf \<Rightarrow> nat" where "hdr_num_tuples p = le_val (peek (mem p) 8 2)"
definition hdr_num_deleted :: "buf \<Rightarrow> nat" where "hdr_num_deleted p = le_val (peek (mem p) 10 2)"
definition hdr_free :: "buf \<Rightarrow> nat" where "hdr_free p = le_val (peek (mem p) 12 2)"

definition set_bytes :: "buf \<Rightarrow> nat \<Rightarrow> byte list \<Rightarrow> buf" where
  "set_bytes p off bs = p\<lparr>mem := put (mem p) off bs\<rparr>"

definition set_page_id :: "buf \<Rightarrow> nat \<Rightarrow> buf" where "set_page_id p v = set_bytes p 0 (u32_bytes v)"
definition set_next_page_id :: "buf \<Rightarrow> int \<Rightarrow> buf" where "set_next_page_id p v = set_bytes p 4 (i32_bytes v)"
definition set_num_tuples :: "buf \<Rightarrow> nat \<Rightarrow> buf" where "set_num_tuples p v = set_bytes p 8 (u16_bytes v)"
definition set_num_deleted :: "buf \<Rightarrow> nat \<Rightarrow> buf" where "set_num_deleted p v = set_bytes p 10 (u16_bytes v)"
definition set_free :: "buf \<Rightarrow> nat \<Rightarrow> buf" where "set_free p v = set_bytes p 12 (u16_bytes v)"

definition slot_pos :: "nat \<Rightarrow> nat" where "slot_pos i = 14 + 6 * i"

definition slot_offset :: "buf \<Rightarrow> nat \<Rightarrow> nat res" where
  "slot_offset p i = rbind (memcpy_from p (slot_pos i) 2) (\<lambda>bs. Inr (le_val bs))"

definition slot_size :: "buf \<Rightarrow> nat \<Rightarrow> nat res" where
  "slot_size p i = rbind (memcpy_from p (slot_pos i + 2) 2) (\<lambda>bs. Inr (le_val bs))"

definition slot_deleted :: "buf \<Rightarrow> nat \<Rightarrow> bool res" where
  "slot_deleted p i = rbind (memcpy_from p (slot_pos i + 4) 1) (\<lambda>bs. Inr (bs \<noteq> [0]))"

definition set_slot :: "buf \<Rightarrow> nat \<Rightarrow> nat \<Rightarrow> nat \<Rightarrow> buf res" where
  "set_slot p i off n = rbind (memcpy_to p (slot_pos i) (u16_bytes off)) (\<lambda>p.
     memcpy_to p (slot_pos i + 2) (u16_bytes n))"

section \<open>Operations\<close>

text \<open>The constructor: a zeroed array with the header set; the id is cast to 16 bits.\<close>

definition Page :: "int \<Rightarrow> buf" where
  "Page pid =
     (let p = zero_buf PAGE_SIZE;
          p = set_page_id p (nat (pid mod 65536));
          p = set_num_tuples p 0;
          p = set_next_page_id p (- 1);
          p = set_num_deleted p 0
      in set_free p PAGE_SIZE)"

text \<open>\<^verbatim>\<open>(n + 7) & ~7\<close>.\<close>

definition pad8 :: "nat \<Rightarrow> nat" where "pad8 n = (n + 7) div 8 * 8"

definition Page_insertTuple :: "buf \<Rightarrow> tuple \<Rightarrow> (int \<times> buf) res" where
  "Page_insertTuple p t =
     (let tuple_size = nat (getTupleSize t mod 65536);
          tuple_size = pad8 tuple_size mod 65536;
          free_size = nat ((int (hdr_free p) - int (14 + hdr_num_tuples p * 6)) mod 65536)
      in if free_size < tuple_size + 6 then Inr (- 1, p)
         else
           let fsp = nat ((int (hdr_free p) - int tuple_size) mod 65536);
               p = set_free p fsp
           in rbind (Tuple_serialize t p fsp) (\<lambda>p.
              rbind (set_slot p (hdr_num_tuples p) (hdr_free p) tuple_size) (\<lambda>p.
              let p = set_num_tuples p ((hdr_num_tuples p + 1) mod 65536)
              in Inr (int (hdr_num_tuples p) - 1, p))))"

text \<open>\<open>bs\<close> is the array \<^verbatim>\<open>buffer\<close> points to, \<open>raw_size\<close> the 16-bit argument.\<close>

definition Page_insertData :: "buf \<Rightarrow> byte list \<Rightarrow> nat \<Rightarrow> (int \<times> buf) res" where
  "Page_insertData p bs raw_size =
     (let aligned = pad8 raw_size mod 65536;
          slot_end = (14 + (hdr_num_tuples p + 1) * 6) mod 65536
      in if hdr_free p < slot_end \<or> hdr_free p - slot_end < aligned then Inr (- 1, p)
         else
           let p = set_free p (hdr_free p - aligned); off = hdr_free p
           in rbind (guard_ub (raw_size \<le> length bs)) (\<lambda>_.
              rbind (memcpy_to p off (take raw_size bs)) (\<lambda>p.
              rbind (if aligned > raw_size then memcpy_to p (off + raw_size) (replicate (aligned - raw_size) 0)
                     else Inr p) (\<lambda>p.
              rbind (set_slot p (hdr_num_tuples p) (hdr_free p) aligned) (\<lambda>p.
              let p = set_num_tuples p ((hdr_num_tuples p + 1) mod 65536)
              in Inr (int (hdr_num_tuples p) - 1, p))))))"

text \<open>\<open>t0\<close> is the tuple passed by reference; the result carries it as the call leaves it.\<close>

definition slot_valid :: "buf \<Rightarrow> int \<Rightarrow> bool" where
  "slot_valid p i \<longleftrightarrow> \<not> (i < 0 \<or> i \<ge> int (hdr_num_tuples p))"

definition Page_getTuple :: "buf \<Rightarrow> int \<Rightarrow> tuple \<Rightarrow> (bool \<times> tuple) res" where
  "Page_getTuple p i t0 =
     (if \<not> slot_valid p i then Inr (False, t0)
      else rbind (slot_offset p (nat i)) (\<lambda>off.
        rbind (Tuple_deserialize p off) (\<lambda>t.
        if t_deleted t then Inr (False, t)
        else rbind (slot_deleted p (nat i)) (\<lambda>d. Inr (\<not> d, t)))))"

text \<open>The pointer \<^verbatim>\<open>buffer\<close> is set to an offset into the page, also when the slot is deleted.\<close>

definition Page_getIndexData :: "buf \<Rightarrow> int \<Rightarrow> (bool \<times> nat option) res" where
  "Page_getIndexData p i =
     (if \<not> slot_valid p i then Inr (False, None)
      else rbind (slot_offset p (nat i)) (\<lambda>off.
        rbind (slot_deleted p (nat i)) (\<lambda>d. Inr (\<not> d, Some off))))"

definition Page_deleteTuple :: "buf \<Rightarrow> int \<Rightarrow> (bool \<times> buf) res" where
  "Page_deleteTuple p i =
     (if \<not> slot_valid p i then Inr (False, p)
      else rbind (slot_deleted p (nat i)) (\<lambda>d.
        if d then Inr (False, p)
        else rbind (slot_offset p (nat i)) (\<lambda>off.
          rbind (Tuple_deserialize p off) (\<lambda>t.
          rbind (Tuple_serialize (set_is_deleted t True) p off) (\<lambda>p.
          rbind (memcpy_to p (slot_pos (nat i) + 4) [1]) (\<lambda>p.
          Inr (True, set_num_deleted p ((hdr_num_deleted p + 1) mod 65536))))))))"

definition Page_updateTuple :: "buf \<Rightarrow> int \<Rightarrow> tuple \<Rightarrow> (int \<times> buf) res" where
  "Page_updateTuple p i t =
     (if \<not> slot_valid p i then Inr (- 1, p)
      else rbind (slot_size p (nat i)) (\<lambda>n.
        if getTupleSize t > int n then
          rbind (Page_deleteTuple p i) (\<lambda>(ok, p).
            if ok then Page_insertTuple p t else Inr (- 1, p))
        else rbind (slot_offset p (nat i)) (\<lambda>off.
          rbind (Tuple_serialize t p off) (\<lambda>p. Inr (i, p)))))"

text \<open>Projections of all slots, the deleted ones included.\<close>

definition Page_get_field_from_all_tuples :: "buf \<Rightarrow> int \<Rightarrow> field list res" where
  "Page_get_field_from_all_tuples p col =
     rmap (\<lambda>i. rbind (Page_getTuple p (int i) (Tuple [])) (\<lambda>(_, t). vec_at_int (tfields t) col))
       [0..<hdr_num_tuples p]"

definition Page_get_custom_fields_from_all_tuples :: "buf \<Rightarrow> int list \<Rightarrow> field list list res" where
  "Page_get_custom_fields_from_all_tuples p cols =
     rmap (\<lambda>i. rbind (Page_getTuple p (int i) (Tuple [])) (\<lambda>(_, t). rmap (vec_at_int (tfields t)) cols))
       [0..<hdr_num_tuples p]"

definition Page_is_deleted :: "buf \<Rightarrow> int \<Rightarrow> bool res" where
  "Page_is_deleted p i =
     rbind (Page_getTuple p i (Tuple [])) (\<lambda>(found, t).
       if \<not> found then Inl (Throw ''this tuple is not  found'') else Inr (t_deleted t))"

end
