(* ===== verification/Page_Laws.thy ===== *)
theory Page_Laws imports Page_Model
begin

text \<open>
  The invariant of a page and the effect of its operations on the list of its entries.

  \<open>page_wf p es\<close> relates the bytes of the page to the entries, in slot order: every entry's slot holds
  its offset, size and flag, its extent holds the bytes of its tuple with the overrun included, the
  extents are disjoint, they lie between the free pointer and the end of the page, the slot array
  ends below the free pointer, and the gap is zero. Every operation is then a list operation on the
  entries: \<open>insertTuple\<close> appends, \<open>deleteTuple\<close> flags, \<open>updateTuple\<close> replaces in place or deletes and
  appends, and no operation touches another entry.
\<close>

section \<open>Bytes of the header\<close>

lemma set_bytes_simps [simp]:
  "cap (set_bytes p off bs) = cap p" "mem (set_bytes p off bs) = put (mem p) off bs"
  by (simp_all add: set_bytes_def)

lemma cap_setters [simp]:
  "cap (set_page_id p v) = cap p" "cap (set_next_page_id p i) = cap p" "cap (set_num_tuples p v) = cap p"
  "cap (set_num_deleted p v) = cap p" "cap (set_free p v) = cap p"
  by (simp_all add: set_page_id_def set_next_page_id_def set_num_tuples_def set_num_deleted_def set_free_def)

lemma peek_put_u16 [simp]: "peek (put m off (u16_bytes v)) off 2 = u16_bytes v"
  by (metis length_int_bytes(1) peek_put_same)

lemma peek_put_u32 [simp]: "peek (put m off (u32_bytes v)) off 4 = u32_bytes v"
  by (metis length_int_bytes(2) peek_put_same)

lemma peek_put_i32 [simp]: "peek (put m off (i32_bytes i)) off 4 = i32_bytes i"
  by (metis length_int_bytes(4) peek_put_same)

lemmas hdr_defs = hdr_page_id_def hdr_next_page_id_def hdr_num_tuples_def hdr_num_deleted_def hdr_free_def
lemmas set_defs = set_page_id_def set_next_page_id_def set_num_tuples_def set_num_deleted_def set_free_def

lemma hdr_setters [simp]:
  "hdr_free (set_free p v) = v mod 65536" "hdr_free (set_num_tuples p v) = hdr_free p"
  "hdr_free (set_num_deleted p v) = hdr_free p" "hdr_free (set_next_page_id p i) = hdr_free p"
  "hdr_free (set_page_id p v) = hdr_free p"
  "hdr_num_tuples (set_free p v) = hdr_num_tuples p" "hdr_num_tuples (set_num_tuples p v) = v mod 65536"
  "hdr_num_tuples (set_num_deleted p v) = hdr_num_tuples p" "hdr_num_tuples (set_next_page_id p i) = hdr_num_tuples p"
  "hdr_num_tuples (set_page_id p v) = hdr_num_tuples p"
  "hdr_num_deleted (set_free p v) = hdr_num_deleted p" "hdr_num_deleted (set_num_tuples p v) = hdr_num_deleted p"
  "hdr_num_deleted (set_num_deleted p v) = v mod 65536" "hdr_num_deleted (set_next_page_id p i) = hdr_num_deleted p"
  "hdr_num_deleted (set_page_id p v) = hdr_num_deleted p"
  "hdr_page_id (set_free p v) = hdr_page_id p" "hdr_page_id (set_num_tuples p v) = hdr_page_id p"
  "hdr_page_id (set_num_deleted p v) = hdr_page_id p" "hdr_page_id (set_next_page_id p i) = hdr_page_id p"
  "hdr_page_id (set_page_id p v) = v mod 2 ^ 32"
  "hdr_next_page_id (set_free p v) = hdr_next_page_id p" "hdr_next_page_id (set_num_tuples p v) = hdr_next_page_id p"
  "hdr_next_page_id (set_num_deleted p v) = hdr_next_page_id p"
  "in_i32 i \<Longrightarrow> hdr_next_page_id (set_next_page_id p i) = i"
  "hdr_next_page_id (set_page_id p v) = hdr_next_page_id p"
  by (simp_all add: hdr_defs set_defs peek_put_disjoint)

text \<open>A write at byte 14 or later leaves the header alone.\<close>

lemma hdr_put [simp]:
  assumes "14 \<le> off"
  shows "hdr_free (p\<lparr>mem := put m off bs\<rparr>) = hdr_free (p\<lparr>mem := m\<rparr>)"
    "hdr_num_tuples (p\<lparr>mem := put m off bs\<rparr>) = hdr_num_tuples (p\<lparr>mem := m\<rparr>)"
    "hdr_num_deleted (p\<lparr>mem := put m off bs\<rparr>) = hdr_num_deleted (p\<lparr>mem := m\<rparr>)"
    "hdr_page_id (p\<lparr>mem := put m off bs\<rparr>) = hdr_page_id (p\<lparr>mem := m\<rparr>)"
    "hdr_next_page_id (p\<lparr>mem := put m off bs\<rparr>) = hdr_next_page_id (p\<lparr>mem := m\<rparr>)"
  using assms by (simp_all add: hdr_defs peek_put_disjoint)

lemma buf_mem_id [simp]: "p\<lparr>mem := mem p\<rparr> = (p :: buf)"
  by simp

section \<open>The invariant\<close>

record entry =
  e_off :: nat
  e_size :: nat
  e_del :: bool
  e_tuple :: tuple

definition slot_bytes :: "entry \<Rightarrow> byte list" where
  "slot_bytes e = u16_bytes (e_off e) @ u16_bytes (e_size e) @ [bool_byte (e_del e)]"

definition entry_wf :: "(nat \<Rightarrow> byte) \<Rightarrow> nat \<Rightarrow> entry \<Rightarrow> bool" where
  "entry_wf m i e \<longleftrightarrow> peek m (slot_pos i) 5 = slot_bytes e \<and>
     tuple_ok (e_tuple e) \<and>
     peek m (e_off e) (length (tuple_enc (e_tuple e))) = tuple_enc (e_tuple e) \<and>
     length (tuple_enc (e_tuple e) @ tuple_over (e_tuple e)) \<le> e_size e \<and> 8 dvd e_size e"

definition entries_apart :: "entry list \<Rightarrow> nat \<Rightarrow> bool" where
  "entries_apart es free \<longleftrightarrow>
     sorted_wrt (\<lambda>e e'. e_off e' + e_size e' \<le> e_off e) es \<and>
     (\<forall>e \<in> set es. free \<le> e_off e \<and> e_off e + e_size e \<le> PAGE_SIZE)"

definition page_wf :: "buf \<Rightarrow> entry list \<Rightarrow> bool" where
  "page_wf p es \<longleftrightarrow> cap p = PAGE_SIZE \<and> hdr_num_tuples p = length es \<and>
     hdr_num_deleted p = length (filter e_del es) \<and>
     14 + 6 * length es \<le> hdr_free p \<and> hdr_free p \<le> PAGE_SIZE \<and>
     (\<forall>k. 14 + 6 * length es \<le> k \<and> k < hdr_free p \<longrightarrow> mem p k = 0) \<and>
     entries_apart es (hdr_free p) \<and>
     (\<forall>i < length es. entry_wf (mem p) i (es ! i))"

definition visible :: "entry \<Rightarrow> bool" where
  "visible e \<longleftrightarrow> \<not> e_del e \<and> \<not> t_deleted (e_tuple e)"

lemma entries_apart_snoc:
  assumes "entries_apart es free" "e_off e + e_size e = free" "free \<le> PAGE_SIZE"
  shows "entries_apart (es @ [e]) (e_off e)"
  using assms by (fastforce simp: entries_apart_def sorted_wrt_append)

lemma entries_apart_update:
  assumes "entries_apart es free" "i < length es" "e_off e = e_off (es ! i)" "e_size e = e_size (es ! i)"
  shows "entries_apart (es[i := e]) free"
  unfolding entries_apart_def
proof
  show "sorted_wrt (\<lambda>e e'. e_off e' + e_size e' \<le> e_off e) (es[i := e])"
    using assms by (auto simp: entries_apart_def sorted_wrt_iff_nth_less nth_list_update)
  show "\<forall>x \<in> set (es[i := e]). free \<le> e_off x \<and> e_off x + e_size x \<le> PAGE_SIZE"
    using assms set_update_subset_insert[of es i e] by (fastforce simp: entries_apart_def)
qed

lemma entries_apart_disjoint:
  assumes "entries_apart es free" "i < length es" "j < length es" "i \<noteq> j"
  shows "e_off (es ! i) + e_size (es ! i) \<le> e_off (es ! j) \<or> e_off (es ! j) + e_size (es ! j) \<le> e_off (es ! i)"
  using assms by (cases i j rule: linorder_cases) (auto simp: entries_apart_def sorted_wrt_iff_nth_less)

lemma entries_apart_nth:
  "entries_apart es free \<Longrightarrow> i < length es \<Longrightarrow>
   free \<le> e_off (es ! i) \<and> e_off (es ! i) + e_size (es ! i) \<le> PAGE_SIZE"
  by (simp add: entries_apart_def)

text \<open>An entry survives a write that misses its slot and its extent.\<close>

lemma entry_wf_frame:
  assumes "entry_wf m i e"
    and "\<And>k. slot_pos i \<le> k \<Longrightarrow> k < slot_pos i + 5 \<Longrightarrow> m' k = m k"
    and "\<And>k. e_off e \<le> k \<Longrightarrow> k < e_off e + e_size e \<Longrightarrow> m' k = m k"
  shows "entry_wf m' i e"
proof -
  have "peek m' (slot_pos i) 5 = peek m (slot_pos i) 5"
    using assms(2) by (intro peek_eqI) auto
  moreover have "peek m' (e_off e) (length (tuple_enc (e_tuple e))) = peek m (e_off e) (length (tuple_enc (e_tuple e)))"
    using assms(1,3) by (intro peek_eqI) (auto simp: entry_wf_def)
  ultimately show ?thesis using assms(1) by (simp add: entry_wf_def)
qed

text \<open>What the slot accessors read.\<close>

lemma slot_reads:
  assumes "peek (mem p) (slot_pos i) 5 = slot_bytes e" "slot_pos i + 6 \<le> cap p" "e_off e < 65536" "e_size e < 65536"
  shows "slot_offset p i = Inr (e_off e)" "slot_size p i = Inr (e_size e)" "slot_deleted p i = Inr (e_del e)"
proof -
  let ?s = "slot_pos i"
  have "peek (mem p) ?s 2 @ peek (mem p) (?s + 2) 2 @ peek (mem p) (?s + 4) 1 @ [] = peek (mem p) ?s (2 + 2 + 1)"
    by (simp only: peek_add append_assoc) simp
  also have "\<dots> = u16_bytes (e_off e) @ u16_bytes (e_size e) @ [bool_byte (e_del e)] @ []"
    using assms(1) by (simp add: slot_bytes_def)
  finally have h: "peek (mem p) ?s 2 = u16_bytes (e_off e) \<and> peek (mem p) (?s + 2) 2 = u16_bytes (e_size e)
      \<and> peek (mem p) (?s + 4) 1 = [bool_byte (e_del e)] \<and> ([] :: byte list) = []"
    by (rule append4_eq) simp_all
  with assms show "slot_offset p i = Inr (e_off e)" "slot_size p i = Inr (e_size e)" "slot_deleted p i = Inr (e_del e)"
    by (simp_all add: slot_offset_def slot_size_def slot_deleted_def memcpy_from_def)
qed

lemma page_slot_reads:
  assumes "page_wf p es" "i < length es"
  shows "slot_offset p i = Inr (e_off (es ! i))" "slot_size p i = Inr (e_size (es ! i))"
    "slot_deleted p i = Inr (e_del (es ! i))"
proof -
  have "peek (mem p) (slot_pos i) 5 = slot_bytes (es ! i)" "slot_pos i + 6 \<le> cap p"
    using assms by (auto simp: page_wf_def entry_wf_def slot_pos_def)
  moreover have "e_off (es ! i) < 65536" "e_size (es ! i) < 65536"
    using assms entries_apart_nth[of es "hdr_free p" i] by (auto simp: page_wf_def PAGE_SIZE_def)
  ultimately show "slot_offset p i = Inr (e_off (es ! i))" "slot_size p i = Inr (e_size (es ! i))"
    "slot_deleted p i = Inr (e_del (es ! i))" using slot_reads by blast+
qed

lemma page_slot_valid: "page_wf p es \<Longrightarrow> slot_valid p i \<longleftrightarrow> 0 \<le> i \<and> nat i < length es"
  by (auto simp: slot_valid_def page_wf_def)

section \<open>The operations on entries\<close>

lemma Page_wf: "page_wf (Page pid) []"
  by (simp add: page_wf_def Page_def Let_def zero_buf_def PAGE_SIZE_def entries_apart_def)
     (simp add: set_defs set_bytes_def put_def)

lemma page_read_tuple:
  assumes "page_wf p es" "i < length es"
  shows "\<exists>u. Tuple_deserialize p (e_off (es ! i)) = Inr u \<and> tuple_eqv (e_tuple (es ! i)) u"
proof (rule tuple.rd_back)
  have "entry_wf (mem p) i (es ! i)" "e_off (es ! i) + e_size (es ! i) \<le> cap p"
    using assms entries_apart_nth[of es "hdr_free p" i] by (auto simp: page_wf_def)
  then show "tuple_ok (e_tuple (es ! i))"
    "peek (mem p) (e_off (es ! i)) (length (tuple_enc (e_tuple (es ! i)))) = tuple_enc (e_tuple (es ! i))"
    "e_off (es ! i) + length (tuple_enc (e_tuple (es ! i)) @ tuple_over (e_tuple (es ! i))) \<le> cap p"
    by (auto simp: entry_wf_def)
qed

text \<open>The tuple an entry of a page reads back as.\<close>

definition stored_row :: "buf \<Rightarrow> entry \<Rightarrow> tuple" where
  "stored_row p e = (case Tuple_deserialize p (e_off e) of Inr u \<Rightarrow> u | Inl _ \<Rightarrow> Tuple [])"

lemma stored_row_eqv: "page_wf p es \<Longrightarrow> e \<in> set es \<Longrightarrow> tuple_eqv (e_tuple e) (stored_row p e)"
  using page_read_tuple[of p es] by (fastforce simp: stored_row_def in_set_conv_nth)

lemma getTuple_stored:
  assumes "page_wf p es" "i < length es"
  shows "Page_getTuple p (int i) t0 = Inr (visible (es ! i), stored_row p (es ! i))"
proof -
  obtain u where u: "Tuple_deserialize p (e_off (es ! i)) = Inr u" "tuple_eqv (e_tuple (es ! i)) u"
    using page_read_tuple[OF assms] by blast
  have "slot_valid p (int i)" using assms by (simp add: page_slot_valid)
  with u page_slot_reads[OF assms] show ?thesis
    by (auto simp: Page_getTuple_def visible_def tuple_eqv_def stored_row_def)
qed

lemma getTuple_entry:
  assumes "page_wf p es" "i < length es"
  shows "\<exists>u. Page_getTuple p (int i) t0 = Inr (visible (es ! i), u) \<and> tuple_eqv (e_tuple (es ! i)) u"
  using getTuple_stored[OF assms] stored_row_eqv[OF assms(1)] assms(2) by auto

lemma getTuple_invalid: "page_wf p es \<Longrightarrow> i < 0 \<or> int (length es) \<le> i \<Longrightarrow> Page_getTuple p i t0 = Inr (False, t0)"
  by (simp add: Page_getTuple_def slot_valid_def page_wf_def)

text \<open>Overwriting an entry's tuple inside its extent.\<close>

lemma page_write_tuple:
  assumes wf: "page_wf p es" and i: "i < length es" and ok: "tuple_ok u"
    and fit: "length (tuple_enc u @ tuple_over u) \<le> e_size (es ! i)"
  shows "\<exists>p'. Tuple_serialize u p (e_off (es ! i)) = Inr p' \<and> page_wf p' (es[i := (es ! i)\<lparr>e_tuple := u\<rparr>]) \<and>
    hdr_free p' = hdr_free p \<and> hdr_page_id p' = hdr_page_id p \<and> hdr_next_page_id p' = hdr_next_page_id p"
proof -
  let ?e = "es ! i" and ?bs = "tuple_enc u @ tuple_over u"
  let ?p = "p\<lparr>mem := put (mem p) (e_off ?e) ?bs\<rparr>" and ?es = "es[i := ?e\<lparr>e_tuple := u\<rparr>]"
  note apart = entries_apart_nth[of es "hdr_free p"]
  have ext: "hdr_free p \<le> e_off ?e" "e_off ?e + e_size ?e \<le> PAGE_SIZE"
    using wf i apart[of i] by (auto simp: page_wf_def)
  have low: "14 + 6 * length es \<le> hdr_free p" "cap p = PAGE_SIZE" using wf by (auto simp: page_wf_def)
  have ser: "Tuple_serialize u p (e_off ?e) = Inr ?p"
    using ok ext fit low by (simp add: tuple.wr_bytes memcpy_to_ok)
  have hdr: "hdr_free ?p = hdr_free p" "hdr_num_tuples ?p = hdr_num_tuples p"
    "hdr_num_deleted ?p = hdr_num_deleted p" "hdr_page_id ?p = hdr_page_id p" "hdr_next_page_id ?p = hdr_next_page_id p"
    using ext low by simp_all
  have entry: "entry_wf (mem ?p) j (?es ! j)" if j: "j < length es" for j
  proof (cases "j = i")
    case True
    have "peek (mem ?p) (slot_pos i) 5 = peek (mem p) (slot_pos i) 5"
      using ext low i by (simp add: peek_put_disjoint slot_pos_def)
    then have "peek (mem ?p) (slot_pos i) 5 = slot_bytes (?e\<lparr>e_tuple := u\<rparr>)"
      using wf i by (simp add: page_wf_def entry_wf_def slot_bytes_def)
    with True i ok fit show ?thesis using wf by (simp add: entry_wf_def page_wf_def peek_put_prefix)
  next
    case False
    have wfj: "entry_wf (mem p) j (es ! j)" using wf j by (simp add: page_wf_def)
    have "entry_wf (mem ?p) j (es ! j)"
    proof (rule entry_wf_frame[OF wfj])
      fix k assume "slot_pos j \<le> k" "k < slot_pos j + 5"
      with ext low j show "mem ?p k = mem p k" by (simp add: slot_pos_def)
    next
      fix k assume k: "e_off (es ! j) \<le> k" "k < e_off (es ! j) + e_size (es ! j)"
      have "e_off ?e + e_size ?e \<le> e_off (es ! j) \<or> e_off (es ! j) + e_size (es ! j) \<le> e_off ?e"
        using wf i j False entries_apart_disjoint[of es "hdr_free p" i j] by (simp add: page_wf_def)
      with k fit show "mem ?p k = mem p k" by auto
    qed
    with False show ?thesis by simp
  qed
  have del: "length (filter e_del ?es) = length (filter e_del es)"
  proof -
    have "map e_del ?es = map e_del es" using i by (simp add: map_update) (metis list_update_id nth_map)
    then have "length (filter id (map e_del ?es)) = length (filter id (map e_del es))" by simp
    then show ?thesis by (simp add: filter_map comp_def)
  qed
  have "page_wf ?p ?es"
    unfolding page_wf_def
    using wf hdr entry entries_apart_update[of es "hdr_free p" i "?e\<lparr>e_tuple := u\<rparr>"] i del ext
    by (auto simp: page_wf_def)
  with ser hdr show ?thesis by blast
qed

text \<open>Appending a tuple.\<close>

lemma pad8_ge: "n \<le> pad8 n" "pad8 n \<le> n + 7"
  by (simp_all add: pad8_def)

lemma pad8_le_dvd: "n \<le> m \<Longrightarrow> 8 dvd m \<Longrightarrow> pad8 n \<le> m"
  by (auto simp: pad8_def)

definition tuple_fits :: "tuple \<Rightarrow> bool" where
  "tuple_fits t \<longleftrightarrow> tuple_ok t \<and> length (tuple_enc t) \<le> 65528 \<and>
     length (tuple_enc t @ tuple_over t) \<le> pad8 (length (tuple_enc t))"

definition page_room :: "nat \<Rightarrow> nat \<Rightarrow> nat \<Rightarrow> bool" where
  "page_room free num n \<longleftrightarrow> 14 + 6 * num + 6 + n \<le> free"

lemma pad8_bound: "n \<le> 65528 \<Longrightarrow> pad8 n < 65536"
  by (simp add: pad8_def)

lemma sorted_wrt_geometry:
  "page_wf p es \<Longrightarrow> i < length es \<Longrightarrow> 14 + 6 * length es \<le> e_off (es ! i) \<and> hdr_free p \<le> e_off (es ! i)
     \<and> e_off (es ! i) + e_size (es ! i) \<le> cap p"
  using entries_apart_nth[of es "hdr_free p" i] by (auto simp: page_wf_def)

text \<open>What an insertion looks at: the number of slots and the free space pointer.\<close>

definition slotted :: "buf \<Rightarrow> nat \<Rightarrow> bool" where
  "slotted p k \<longleftrightarrow> cap p = PAGE_SIZE \<and> hdr_num_tuples p = k \<and> 14 + 6 * k \<le> hdr_free p \<and> hdr_free p \<le> PAGE_SIZE"

lemma page_wf_slotted: "page_wf p es \<Longrightarrow> slotted p (length es)"
  by (simp add: page_wf_def slotted_def)

lemma slotted_no_room:
  assumes wf: "slotted p k" and t: "tuple_ok t" "length (tuple_enc t) \<le> 65528"
    and room: "\<not> page_room (hdr_free p) k (pad8 (length (tuple_enc t)))"
  shows "Page_insertTuple p t = Inr (- 1, p)"
proof -
  have "nat (getTupleSize t mod 65536) = length (tuple_enc t)"
    using t by (simp add: tuple_size_enc)
  moreover have "nat ((int (hdr_free p) - int (14 + k * 6)) mod 65536) = hdr_free p - (14 + 6 * k)"
    using wf by (auto simp: slotted_def PAGE_SIZE_def of_nat_diff nat_eq_iff)
  moreover have "hdr_free p - (14 + 6 * k) < pad8 (length (tuple_enc t)) + 6"
    using room wf by (auto simp: page_room_def slotted_def)
  ultimately show ?thesis
    using wf pad8_bound[OF t(2)]
    unfolding Page_insertTuple_def Let_def slotted_def by (simp only: mod_less if_True)
qed

lemmas insertTuple_no_room = slotted_no_room[OF page_wf_slotted]

text \<open>
  The page after an insertion, as bytes. The tuple need not fit its padded size here: its bytes may
  run into the extent above, up to the end of the page.
\<close>

definition inserted :: "buf \<Rightarrow> nat \<Rightarrow> nat \<Rightarrow> nat \<Rightarrow> byte list \<Rightarrow> buf" where
  "inserted p k f n bs = set_num_tuples (p\<lparr>mem := put (put (put (mem p) 12 (u16_bytes f)) f bs) (slot_pos k)
     (u16_bytes f @ u16_bytes n)\<rparr>) (k + 1)"

lemma slotted_insert:
  assumes wf: "slotted p k" and t: "tuple_ok t" "length (tuple_enc t) \<le> 65528"
    and room: "page_room (hdr_free p) k (pad8 (length (tuple_enc t)))"
  shows "Page_insertTuple p t =
    (let n = pad8 (length (tuple_enc t)); f = hdr_free p - n; bs = tuple_enc t @ tuple_over t
     in if f + length bs \<le> 4096 then Inr (int k, inserted p k f n bs) else Inl Undefined)"
proof -
  define n where "n = pad8 (length (tuple_enc t))"
  define f where "f = hdr_free p - n"
  let ?k = k and ?bs = "tuple_enc t @ tuple_over t"
  have g: "cap p = 4096" "hdr_num_tuples p = ?k" "hdr_free p \<le> 4096" "14 + 6 * ?k + 6 \<le> f"
    "f + n = hdr_free p" "n < 65536" "f \<le> 4096"
    using wf room pad8_bound[OF t(2)] by (auto simp: slotted_def PAGE_SIZE_def page_room_def f_def n_def)
  have sz: "pad8 (nat (getTupleSize t mod 65536)) mod 65536 = n"
    using t g by (simp add: tuple_size_enc n_def)
  have fs: "nat ((int (hdr_free p) - int (14 + ?k * 6)) mod 65536) = hdr_free p - (14 + 6 * ?k)"
    using g by (auto simp: of_nat_diff nat_eq_iff)
  have fsp: "nat ((int (hdr_free p) - int n) mod 65536) = f"
    using g by (auto simp: of_nat_diff nat_eq_iff f_def)
  define p1 where "p1 = set_free p f"
  define p2 where "p2 = p1\<lparr>mem := put (mem p1) f ?bs\<rparr>"
  define p3 where "p3 = p2\<lparr>mem := put (mem p2) (slot_pos ?k) (u16_bytes f @ u16_bytes n)\<rparr>"
  have p1: "cap p1 = 4096" "hdr_free p1 = f" "hdr_num_tuples p1 = ?k" using g by (simp_all add: p1_def)
  have p2: "cap p2 = 4096" "hdr_free p2 = f" "hdr_num_tuples p2 = ?k" using g p1 by (simp_all add: p2_def)
  have p3: "hdr_num_tuples p3 = ?k" using p2 by (simp add: p3_def slot_pos_def)
  have ser: "Tuple_serialize t p1 f = (if f + length ?bs \<le> 4096 then Inr p2 else Inl Undefined)"
    using t(1) p1 by (simp add: tuple.wr_bytes memcpy_to_def p2_def)
  have slot: "set_slot p2 ?k f n = Inr p3"
    using g p2(1) memcpy_to_append[of p2 "slot_pos ?k" "u16_bytes f" "u16_bytes n"]
    by (simp add: set_slot_def p3_def memcpy_to_ok slot_pos_def)
  have ins: "inserted p ?k f n ?bs = set_num_tuples p3 (?k + 1)"
    by (simp add: inserted_def p3_def p2_def p1_def set_free_def set_bytes_def)
  show ?thesis
    using g sz fs fsp ser slot p2(2,3) p3
    by (simp add: Page_insertTuple_def Let_def p1_def[symmetric] ins n_def[symmetric] f_def[symmetric])
qed

lemmas insertTuple_bytes = slotted_insert[OF page_wf_slotted]

lemma inserted_same:
  assumes "14 \<le> k" "k < slot_pos i \<or> slot_pos i + 4 \<le> k" "k < f \<or> f + length bs \<le> k"
  shows "mem (inserted p i f n bs) k = mem p k"
  using assms by (auto simp: inserted_def set_num_tuples_def put_def)

lemma inserted_hdr:
  assumes "14 \<le> f" "f < 65536" "k < 65535"
  shows "cap (inserted p k f n bs) = cap p" "hdr_free (inserted p k f n bs) = f"
    "hdr_num_tuples (inserted p k f n bs) = k + 1" "hdr_num_deleted (inserted p k f n bs) = hdr_num_deleted p"
    "hdr_page_id (inserted p k f n bs) = hdr_page_id p"
    "hdr_next_page_id (inserted p k f n bs) = hdr_next_page_id p"
proof -
  have "p\<lparr>mem := put (mem p) 12 (u16_bytes f)\<rparr> = set_free p f" by (simp add: set_free_def set_bytes_def)
  with assms show "cap (inserted p k f n bs) = cap p" "hdr_free (inserted p k f n bs) = f"
    "hdr_num_tuples (inserted p k f n bs) = k + 1" "hdr_num_deleted (inserted p k f n bs) = hdr_num_deleted p"
    "hdr_page_id (inserted p k f n bs) = hdr_page_id p"
    "hdr_next_page_id (inserted p k f n bs) = hdr_next_page_id p"
    by (simp_all add: inserted_def slot_pos_def)
qed

lemma inserted_entry:
  assumes "tuple_ok t" "length (tuple_enc t @ tuple_over t) \<le> n" "8 dvd n" "slot_pos k + 6 \<le> f"
    and z: "mem p (slot_pos k + 4) = 0"
  shows "entry_wf (mem (inserted p k f n (tuple_enc t @ tuple_over t))) k
    \<lparr>e_off = f, e_size = n, e_del = False, e_tuple = t\<rparr>"
proof -
  let ?m = "mem (inserted p k f n (tuple_enc t @ tuple_over t))"
  have "?m (slot_pos k + 4) = 0"
    using assms inserted_same[of "slot_pos k + 4" k f "tuple_enc t @ tuple_over t" p n] by (simp add: slot_pos_def)
  moreover have "peek ?m (slot_pos k) 4 = u16_bytes f @ u16_bytes n"
    by (simp add: inserted_def set_num_tuples_def peek_put_disjoint slot_pos_def peek_put_prefix)
  ultimately have s: "peek ?m (slot_pos k) 5 = u16_bytes f @ u16_bytes n @ [bool_byte False]"
    using peek_add[of ?m "slot_pos k" 4 1] by (simp add: peek_Suc_0 bool_byte_def)
  have "peek ?m f (length (tuple_enc t)) = tuple_enc t"
    using assms(4) by (simp add: inserted_def set_num_tuples_def peek_put_disjoint slot_pos_def peek_put_prefix)
  with s assms show ?thesis by (simp add: entry_wf_def slot_bytes_def)
qed

lemma insertTuple_entry:
  assumes wf: "page_wf p es" and t: "tuple_fits t"
    and room: "page_room (hdr_free p) (length es) (pad8 (length (tuple_enc t)))"
  shows "\<exists>p'. Page_insertTuple p t = Inr (int (length es), p') \<and>
    page_wf p' (es @ [\<lparr>e_off = hdr_free p - pad8 (length (tuple_enc t)), e_size = pad8 (length (tuple_enc t)),
                       e_del = False, e_tuple = t\<rparr>]) \<and>
    hdr_free p' = hdr_free p - pad8 (length (tuple_enc t)) \<and>
    hdr_page_id p' = hdr_page_id p \<and> hdr_next_page_id p' = hdr_next_page_id p"
proof -
  define n where "n = pad8 (length (tuple_enc t))"
  define f where "f = hdr_free p - n"
  define e where "e = \<lparr>e_off = f, e_size = n, e_del = False, e_tuple = t\<rparr>"
  let ?k = "length es" and ?bs = "tuple_enc t @ tuple_over t"
  define p' where "p' = inserted p ?k f n ?bs"
  have ok: "tuple_ok t" "length (tuple_enc t) \<le> 65528" "length ?bs \<le> n"
    using t by (auto simp: tuple_fits_def n_def)
  have g: "cap p = 4096" "hdr_free p \<le> 4096" "14 + 6 * ?k + 6 \<le> f" "f + n = hdr_free p" "f \<le> 4096"
    using wf room by (auto simp: page_wf_def PAGE_SIZE_def page_room_def f_def n_def)
  have ins: "Page_insertTuple p t = Inr (int ?k, p')"
    using insertTuple_bytes[OF wf ok(1,2) room] ok(3) g
    by (simp add: Let_def n_def[symmetric] f_def[symmetric] p'_def)
  have hdr: "cap p' = 4096" "hdr_free p' = f" "hdr_num_tuples p' = ?k + 1" "hdr_num_deleted p' = hdr_num_deleted p"
    "hdr_page_id p' = hdr_page_id p" "hdr_next_page_id p' = hdr_next_page_id p"
    using g by (simp_all add: p'_def inserted_hdr)
  have same: "mem p' k = mem p k" if "14 \<le> k" "k < slot_pos ?k \<or> slot_pos ?k + 4 \<le> k" "k < f \<or> f + n \<le> k" for k
    using that ok(3) unfolding p'_def by (intro inserted_same) auto
  have gap: "mem p k = 0" if "14 + 6 * ?k \<le> k" "k < hdr_free p" for k
    using wf that by (auto simp: page_wf_def)
  have new: "entry_wf (mem p') ?k e"
    unfolding p'_def e_def using ok g gap[of "slot_pos ?k + 4"]
    by (intro inserted_entry) (auto simp: n_def pad8_def slot_pos_def)
  have old: "entry_wf (mem p') i (es ! i)" if i: "i < ?k" for i
  proof (rule entry_wf_frame)
    show "entry_wf (mem p) i (es ! i)" using wf i by (simp add: page_wf_def)
    show "mem p' k = mem p k" if "slot_pos i \<le> k" "k < slot_pos i + 5" for k
      using that i g by (intro same) (auto simp: slot_pos_def)
    show "mem p' k = mem p k" if "e_off (es ! i) \<le> k" "k < e_off (es ! i) + e_size (es ! i)" for k
      using that sorted_wrt_geometry[OF wf i] g by (intro same) (auto simp: slot_pos_def)
  qed
  have zero: "mem p' k = 0" if "14 + 6 * (?k + 1) \<le> k" "k < f" for k
    using same[of k] gap[of k] that g by (simp add: slot_pos_def)
  have "entries_apart (es @ [e]) f"
    using entries_apart_snoc[of es "hdr_free p" e] wf g by (auto simp: page_wf_def e_def PAGE_SIZE_def)
  then have "page_wf p' (es @ [e])"
    using hdr g zero new old wf
    by (auto simp: page_wf_def PAGE_SIZE_def nth_append less_Suc_eq e_def)
  with ins hdr show ?thesis unfolding e_def f_def n_def by blast
qed

text \<open>Setting the deletion byte of a slot, with the count of deleted tuples.\<close>

lemma count_flag:
  "i < length es \<Longrightarrow> \<not> e_del (es ! i) \<Longrightarrow>
   length (filter e_del (es[i := (es ! i)\<lparr>e_del := True, e_tuple := u\<rparr>])) = Suc (length (filter e_del es))"
proof (induction es arbitrary: i)
  case (Cons e es)
  then show ?case by (cases i) auto
qed simp

lemma entry_upd_commute:
  "(e :: entry)\<lparr>e_tuple := u, e_del := d\<rparr> = e\<lparr>e_del := d, e_tuple := u\<rparr>"
  by simp

lemma page_set_flag:
  assumes wf: "page_wf p es" and i: "i < length es" and live: "\<not> e_del (es ! i)"
  shows "\<exists>p'. memcpy_to p (slot_pos i + 4) [1] = Inr p' \<and>
    page_wf (set_num_deleted p' ((hdr_num_deleted p' + 1) mod 65536)) (es[i := (es ! i)\<lparr>e_del := True\<rparr>]) \<and>
    hdr_free p' = hdr_free p \<and> hdr_page_id p' = hdr_page_id p \<and> hdr_next_page_id p' = hdr_next_page_id p"
proof -
  let ?p = "p\<lparr>mem := put (mem p) (slot_pos i + 4) [1]\<rparr>"
  let ?q = "set_num_deleted ?p ((hdr_num_deleted ?p + 1) mod 65536)"
  let ?es = "es[i := (es ! i)\<lparr>e_del := True\<rparr>]"
  have g: "cap p = 4096" "14 + 6 * length es \<le> hdr_free p" "hdr_free p \<le> 4096"
    using wf by (auto simp: page_wf_def PAGE_SIZE_def)
  have m: "memcpy_to p (slot_pos i + 4) [1] = Inr ?p"
    using g i by (simp add: memcpy_to_ok slot_pos_def)
  have hdr: "hdr_free ?p = hdr_free p" "hdr_num_tuples ?p = hdr_num_tuples p"
    "hdr_num_deleted ?p = hdr_num_deleted p" "hdr_page_id ?p = hdr_page_id p" "hdr_next_page_id ?p = hdr_next_page_id p"
    by (simp_all add: slot_pos_def)
  have cnt: "length (filter e_del ?es) = Suc (length (filter e_del es))"
    using count_flag[OF i live, of "e_tuple (es ! i)"] by simp
  have le: "length (filter e_del es) < 680"
    using i live g length_filter_less[of "es ! i" es e_del] by auto
  have same: "mem ?q k = mem p k" if "14 \<le> k" "k \<noteq> slot_pos i + 4" for k
    using that by (auto simp: set_num_deleted_def put_def)
  have flag: "mem ?q (slot_pos i + 4) = 1" by (simp add: set_num_deleted_def put_def slot_pos_def)
  have entry: "entry_wf (mem ?q) j (?es ! j)" if j: "j < length es" for j
  proof (cases "j = i")
    case False
    have "entry_wf (mem ?q) j (es ! j)"
    proof (rule entry_wf_frame)
      show "entry_wf (mem p) j (es ! j)" using wf j by (simp add: page_wf_def)
      show "mem ?q k = mem p k" if "slot_pos j \<le> k" "k < slot_pos j + 5" for k
        using that False by (intro same) (auto simp: slot_pos_def)
      show "mem ?q k = mem p k" if "e_off (es ! j) \<le> k" "k < e_off (es ! j) + e_size (es ! j)" for k
        using that sorted_wrt_geometry[OF wf j] i by (intro same) (auto simp: slot_pos_def)
    qed
    with False show ?thesis by simp
  next
    case True
    have e: "entry_wf (mem p) i (es ! i)" using wf i by (simp add: page_wf_def)
    have "peek (mem ?q) (slot_pos i) 4 = peek (mem p) (slot_pos i) 4"
      by (intro peek_eqI same) (auto simp: slot_pos_def)
    moreover have "peek (mem p) (slot_pos i) 4 = u16_bytes (e_off (es ! i)) @ u16_bytes (e_size (es ! i))"
      using e peek_sub[of "mem p" "slot_pos i" 5 "slot_bytes (es ! i)" 0 4]
      by (simp add: entry_wf_def slot_bytes_def)
    ultimately have s: "peek (mem ?q) (slot_pos i) 5 = slot_bytes ((es ! i)\<lparr>e_del := True\<rparr>)"
      using peek_add[of "mem ?q" "slot_pos i" 4 1] flag by (simp add: peek_Suc_0 slot_bytes_def bool_byte_def)
    have "peek (mem ?q) (e_off (es ! i)) (length (tuple_enc (e_tuple (es ! i))))
        = peek (mem p) (e_off (es ! i)) (length (tuple_enc (e_tuple (es ! i))))"
      using sorted_wrt_geometry[OF wf i] i by (intro peek_eqI same) (auto simp: slot_pos_def)
    with s e True i show ?thesis by (simp add: entry_wf_def)
  qed
  have zero: "mem ?q k = 0" if "14 + 6 * length es \<le> k" "k < hdr_free p" for k
  proof -
    have "mem p k = 0" using wf that by (auto simp: page_wf_def)
    with that i show ?thesis using same[of k] by (simp add: slot_pos_def)
  qed
  have "page_wf ?q ?es"
    using wf hdr cnt le entry zero g i entries_apart_update[of es "hdr_free p" i "(es ! i)\<lparr>e_del := True\<rparr>"]
    by (simp add: page_wf_def)
  with m hdr show ?thesis by blast
qed

lemma deleteTuple_entry:
  assumes wf: "page_wf p es" and i: "i < length es" and live: "\<not> e_del (es ! i)"
  shows "\<exists>p' u. Page_deleteTuple p (int i) = Inr (True, p') \<and> tuple_eqv (e_tuple (es ! i)) u \<and>
    page_wf p' (es[i := (es ! i)\<lparr>e_del := True, e_tuple := set_is_deleted u True\<rparr>]) \<and>
    hdr_free p' = hdr_free p \<and> hdr_page_id p' = hdr_page_id p \<and> hdr_next_page_id p' = hdr_next_page_id p"
proof -
  let ?e = "es ! i"
  obtain u where u: "Tuple_deserialize p (e_off ?e) = Inr u" "tuple_eqv (e_tuple ?e) u"
    using page_read_tuple[OF wf i] by blast
  have "tuple_ok (e_tuple ?e)" "length (tuple_enc (e_tuple ?e) @ tuple_over (e_tuple ?e)) \<le> e_size ?e"
    using wf i by (auto simp: page_wf_def entry_wf_def)
  with u(2) have d: "tuple_ok (set_is_deleted u True)"
    "length (tuple_enc (set_is_deleted u True) @ tuple_over (set_is_deleted u True)) \<le> e_size ?e"
    using tuple_eqv_ok[of "e_tuple ?e" u] length_tuple_enc_ge[of u]
    by (auto simp: set_is_deleted_ok)
  obtain p1 where p1: "Tuple_serialize (set_is_deleted u True) p (e_off ?e) = Inr p1"
    "page_wf p1 (es[i := ?e\<lparr>e_tuple := set_is_deleted u True\<rparr>])"
    "hdr_free p1 = hdr_free p" "hdr_page_id p1 = hdr_page_id p" "hdr_next_page_id p1 = hdr_next_page_id p"
    using page_write_tuple[OF wf i d] by blast
  obtain p2 where p2: "memcpy_to p1 (slot_pos i + 4) [1] = Inr p2"
    "page_wf (set_num_deleted p2 ((hdr_num_deleted p2 + 1) mod 65536))
       (es[i := ?e\<lparr>e_tuple := set_is_deleted u True, e_del := True\<rparr>])"
    "hdr_free p2 = hdr_free p1" "hdr_page_id p2 = hdr_page_id p1" "hdr_next_page_id p2 = hdr_next_page_id p1"
    using page_set_flag[OF p1(2), of i] i live by auto
  have "Page_deleteTuple p (int i) = Inr (True, set_num_deleted p2 ((hdr_num_deleted p2 + 1) mod 65536))"
    using page_slot_reads[OF wf i] u(1) p1(1) p2(1) live page_slot_valid[OF wf, of "int i"] i
    by (simp add: Page_deleteTuple_def)
  moreover note p2(2)[unfolded entry_upd_commute]
  ultimately show ?thesis using u(2) p1(3-5) p2(3-5)
    by (intro exI[of _ "set_num_deleted p2 ((hdr_num_deleted p2 + 1) mod 65536)"] exI[of _ u]) simp
qed

lemma deleteTuple_again:
  assumes "page_wf p es" "i < length es" "e_del (es ! i)"
  shows "Page_deleteTuple p (int i) = Inr (False, p)"
  using assms page_slot_reads[OF assms(1,2)] by (simp add: Page_deleteTuple_def page_slot_valid)

lemma updateTuple_in_place:
  assumes wf: "page_wf p es" and i: "i < length es" and t: "tuple_ok t"
    and small: "length (tuple_enc t) \<le> e_size (es ! i)"
    and fit: "length (tuple_enc t @ tuple_over t) \<le> e_size (es ! i)"
  shows "\<exists>p'. Page_updateTuple p (int i) t = Inr (int i, p') \<and> page_wf p' (es[i := (es ! i)\<lparr>e_tuple := t\<rparr>]) \<and>
    hdr_page_id p' = hdr_page_id p \<and> hdr_next_page_id p' = hdr_next_page_id p"
proof -
  obtain p' where p': "Tuple_serialize t p (e_off (es ! i)) = Inr p'" "page_wf p' (es[i := (es ! i)\<lparr>e_tuple := t\<rparr>])"
    "hdr_page_id p' = hdr_page_id p" "hdr_next_page_id p' = hdr_next_page_id p"
    using page_write_tuple[OF wf i t fit] by blast
  have "Page_updateTuple p (int i) t = Inr (int i, p')"
    using page_slot_reads[OF wf i] p'(1) small page_slot_valid[OF wf, of "int i"] i t
    by (simp add: Page_updateTuple_def tuple_size_enc)
  with p' show ?thesis by blast
qed

lemma updateTuple_moved:
  assumes wf: "page_wf p es" and i: "i < length es" and t: "tuple_ok t"
    and big: "e_size (es ! i) < length (tuple_enc t)"
  shows "Page_updateTuple p (int i) t =
    rbind (Page_deleteTuple p (int i)) (\<lambda>(ok, p). if ok then Page_insertTuple p t else Inr (- 1, p))"
  using assms page_slot_reads[OF wf i] by (simp add: Page_updateTuple_def page_slot_valid tuple_size_enc)

section \<open>Properties\<close>

definition visible_view :: "entry list \<Rightarrow> field list option list" where
  "visible_view es = map (\<lambda>e. if visible e then Some (tfields (e_tuple e)) else None) es"

lemma visible_view_simps [simp]:
  "visible_view [] = []"
  "visible_view (e # es) = (if visible e then Some (tfields (e_tuple e)) else None) # visible_view es"
  "visible_view (es @ fs) = visible_view es @ visible_view fs"
  by (simp_all add: visible_view_def)

lemma visible_view_nth: "i < length es \<Longrightarrow>
   visible_view es ! i = (if visible (es ! i) then Some (tfields (e_tuple (es ! i))) else None)"
  by (simp add: visible_view_def)

lemma visible_view_update:
  "visible_view (es[i := e]) = (visible_view es)[i := if visible e then Some (tfields (e_tuple e)) else None]"
  by (simp add: visible_view_def map_update)

text \<open>
  C31. On a well-formed page \<^verbatim>\<open>insertTuple\<close> succeeds exactly when the padded tuple and one more slot
  fit below the free pointer. Then the returned slot number is the old number of slots, the page
  stays well formed, its visible contents are the old ones with the tuple appended, and the page id
  and the link to the next page are untouched; otherwise it returns -1 and changes nothing.
\<close>

theorem page_insert_appends:
  assumes "page_wf p es" "tuple_fits t" "\<not> t_deleted t"
  shows "if page_room (hdr_free p) (length es) (pad8 (length (tuple_enc t)))
    then \<exists>p' es'. Page_insertTuple p t = Inr (int (length es), p') \<and> page_wf p' es' \<and>
      visible_view es' = visible_view es @ [Some (tfields t)] \<and>
      hdr_page_id p' = hdr_page_id p \<and> hdr_next_page_id p' = hdr_next_page_id p
    else Page_insertTuple p t = Inr (- 1, p)"
proof (cases "page_room (hdr_free p) (length es) (pad8 (length (tuple_enc t)))")
  case True
  let ?n = "pad8 (length (tuple_enc t))"
  let ?e = "\<lparr>e_off = hdr_free p - ?n, e_size = ?n, e_del = False, e_tuple = t\<rparr>"
  have "visible_view (es @ [?e]) = visible_view es @ [Some (tfields t)]"
    using assms(3) by (simp add: visible_view_def visible_def)
  with insertTuple_entry[OF assms(1,2) True] True show ?thesis by (simp only: if_True) metis
next
  case False
  with assms show ?thesis by (simp add: insertTuple_no_room tuple_fits_def)
qed

definition demo_tuple :: tuple where "demo_tuple = Tuple [Field_int TYPE_INT 7, Field_bool TYPE_BOOL True]"

lemma demo_tuple_fits: "tuple_fits demo_tuple" "\<not> t_deleted demo_tuple" "length (tuple_enc demo_tuple) = 22"
  by (simp_all add: tuple_fits_def demo_tuple_def tuple_ok_def Tuple_def field_ok_def Field_int_def Field_bool_def
      in_i32_def getSerializedSize_def tuple_enc_def tuple_over_def seq_over_def field_enc_def field_header_def
      field_payload_def field_over_def pad8_def)

lemma Page_0_room: "hdr_free (Page 0) = 4096"
  by (simp add: Page_def Let_def PAGE_SIZE_def)

theorem page_insert_appends_witness:
  "\<exists>p' es'. Page_insertTuple (Page 0) demo_tuple = Inr (0, p') \<and> page_wf p' es' \<and>
     visible_view es' = [Some (tfields demo_tuple)]"
  using page_insert_appends[OF Page_wf[of 0] demo_tuple_fits(1,2)]
  by (simp add: demo_tuple_fits(3) Page_0_room page_room_def pad8_def) blast

text \<open>
  C32. \<^verbatim>\<open>deleteTuple\<close> of a live slot returns true and hides exactly that slot, every other slot keeps
  its visible contents, and a second deletion of the slot returns false and changes nothing.
\<close>

theorem page_delete_hides:
  assumes "page_wf p es" "i < length es" "\<not> e_del (es ! i)"
  shows "\<exists>p' es'. Page_deleteTuple p (int i) = Inr (True, p') \<and> page_wf p' es' \<and>
    visible_view es' = (visible_view es)[i := None] \<and>
    Page_deleteTuple p' (int i) = Inr (False, p')"
proof -
  obtain p' u where d: "Page_deleteTuple p (int i) = Inr (True, p')"
    "page_wf p' (es[i := (es ! i)\<lparr>e_del := True, e_tuple := set_is_deleted u True\<rparr>])"
    using deleteTuple_entry[OF assms] by blast
  moreover have "Page_deleteTuple p' (int i) = Inr (False, p')"
    using deleteTuple_again[OF d(2), of i] assms(2) by simp
  ultimately show ?thesis
    by (intro exI[of _ p'] exI[of _ "es[i := (es ! i)\<lparr>e_del := True, e_tuple := set_is_deleted u True\<rparr>]"])
       (simp add: visible_view_update visible_def)
qed

lemma demo_page:
  "\<exists>p e. Page_insertTuple (Page 0) demo_tuple = Inr (0, p) \<and> page_wf p [e] \<and> \<not> e_del e \<and> e_tuple e = demo_tuple \<and>
     e_size e = 24 \<and> e_off e = hdr_free p \<and> hdr_free p = 4072"
  using insertTuple_entry[OF Page_wf[of 0] demo_tuple_fits(1)]
  by (force simp: demo_tuple_fits(3) Page_0_room page_room_def pad8_def)

theorem page_delete_hides_witness:
  "\<exists>p p' es'. Page_insertTuple (Page 0) demo_tuple = Inr (0, p) \<and> Page_deleteTuple p 0 = Inr (True, p') \<and>
     page_wf p' es' \<and> visible_view es' = [None]"
proof -
  obtain p e where p: "Page_insertTuple (Page 0) demo_tuple = Inr (0, p)" "page_wf p [e]" "\<not> e_del e"
    using demo_page by blast
  show ?thesis using page_delete_hides[OF p(2), of 0] p(1,3) by (simp split: if_splits) blast
qed

text \<open>
  \<^verbatim>\<open>getTuple\<close> of a valid slot returns whether the slot is visible together with the stored tuple,
  value for value for the fields that are not null, and an invalid slot number returns false and
  leaves the caller's tuple as it was.
\<close>

lemma page_get_reads:
  assumes "page_wf p es"
  shows "if 0 \<le> i \<and> i < int (length es)
    then \<exists>u. Page_getTuple p i t0 = Inr (visible_view es ! nat i \<noteq> None, u) \<and> tuple_eqv (e_tuple (es ! nat i)) u
    else Page_getTuple p i t0 = Inr (False, t0)"
  using getTuple_entry[OF assms, of "nat i" t0] getTuple_invalid[OF assms, of i t0]
  by (auto simp: visible_view_nth)

theorem page_get_reads_witness:
  "\<exists>p. Page_insertTuple (Page 0) demo_tuple = Inr (0, p) \<and> Page_getTuple p 0 (Tuple []) = Inr (True, demo_tuple)"
proof -
  obtain p e where p: "Page_insertTuple (Page 0) demo_tuple = Inr (0, p)" "page_wf p [e]" "\<not> e_del e" "e_tuple e = demo_tuple"
    using demo_page by blast
  obtain u where u: "Page_getTuple p 0 (Tuple []) = Inr (True, u)" "tuple_eqv demo_tuple u"
    using page_get_reads[OF p(2), of 0 "Tuple []"] p(3,4) demo_tuple_fits(2)
    by (auto simp: visible_def)
  have "u = demo_tuple"
    using u(2) by (rule tuple_eqv_non_null) (simp add: demo_tuple_def Tuple_def Field_int_def Field_bool_def)
  with p u show ?thesis by blast
qed

text \<open>
  C33. \<^verbatim>\<open>updateTuple\<close> of a live slot with a tuple no larger than the slot's extent replaces the tuple
  in place and returns the same slot. With a larger tuple it deletes the slot and appends the new
  tuple when the page has room; without room it returns -1 and the old tuple is gone.
\<close>

theorem page_update_replaces:
  assumes wf: "page_wf p es" and i: "i < length es" and live: "visible (es ! i)"
    and t: "tuple_fits t" "\<not> t_deleted t"
  shows "\<exists>r p' es'. Page_updateTuple p (int i) t = Inr (r, p') \<and> page_wf p' es' \<and>
    (if length (tuple_enc t) \<le> e_size (es ! i)
     then r = int i \<and> visible_view es' = (visible_view es)[i := Some (tfields t)]
     else if page_room (hdr_free p) (length es) (pad8 (length (tuple_enc t)))
     then r = int (length es) \<and> visible_view es' = (visible_view es)[i := None] @ [Some (tfields t)]
     else r = - 1 \<and> visible_view es' = (visible_view es)[i := None])"
proof (cases "length (tuple_enc t) \<le> e_size (es ! i)")
  case True
  have "8 dvd e_size (es ! i)" using wf i by (simp add: page_wf_def entry_wf_def)
  with True t have fit: "length (tuple_enc t @ tuple_over t) \<le> e_size (es ! i)" "tuple_ok t"
    using pad8_le_dvd[of "length (tuple_enc t)" "e_size (es ! i)"] by (auto simp: tuple_fits_def)
  obtain p' where "Page_updateTuple p (int i) t = Inr (int i, p')" "page_wf p' (es[i := (es ! i)\<lparr>e_tuple := t\<rparr>])"
    using updateTuple_in_place[OF wf i fit(2) True fit(1)] by blast
  moreover have "visible_view (es[i := (es ! i)\<lparr>e_tuple := t\<rparr>]) = (visible_view es)[i := Some (tfields t)]"
    using live t by (simp add: visible_view_update visible_def)
  ultimately show ?thesis using True by auto
next
  case False
  let ?n = "pad8 (length (tuple_enc t))"
  have live': "\<not> e_del (es ! i)" using live by (simp add: visible_def)
  obtain p1 u where d: "Page_deleteTuple p (int i) = Inr (True, p1)"
    "page_wf p1 (es[i := (es ! i)\<lparr>e_del := True, e_tuple := set_is_deleted u True\<rparr>])" "hdr_free p1 = hdr_free p"
    using deleteTuple_entry[OF wf i live'] by blast
  define es1 where "es1 = es[i := (es ! i)\<lparr>e_del := True, e_tuple := set_is_deleted u True\<rparr>]"
  have v: "visible_view es1 = (visible_view es)[i := None]" "length es1 = length es"
    by (simp_all add: es1_def visible_view_update visible_def)
  have up: "Page_updateTuple p (int i) t = Page_insertTuple p1 t"
    using updateTuple_moved[OF wf i, of t] t False d(1) by (simp add: tuple_fits_def)
  show ?thesis
  proof (cases "page_room (hdr_free p) (length es) ?n")
    case True
    obtain p2 where "Page_insertTuple p1 t = Inr (int (length es1), p2)"
      "page_wf p2 (es1 @ [\<lparr>e_off = hdr_free p1 - ?n, e_size = ?n, e_del = False, e_tuple = t\<rparr>])"
      using insertTuple_entry[OF d(2) t(1)] True d(3) v(2) by (auto simp: es1_def)
    with up v True False t show ?thesis
      by (intro exI[of _ "int (length es)"] exI[of _ p2] exI[of _ "es1 @ [_]"]) (auto simp: visible_def)
  next
    case no: False
    have "Page_insertTuple p1 t = Inr (- 1, p1)"
      using insertTuple_no_room[OF d(2), of t] t no d(3) by (simp add: tuple_fits_def)
    with up v d(2) no False show ?thesis
      by (intro exI[of _ "- 1"] exI[of _ p1] exI[of _ es1]) (auto simp: es1_def)
  qed
qed

theorem page_update_replaces_witness:
  "\<exists>p p' es'. Page_insertTuple (Page 0) demo_tuple = Inr (0, p) \<and> Page_updateTuple p 0 demo_tuple = Inr (0, p') \<and>
     page_wf p' es' \<and> visible_view es' = [Some (tfields demo_tuple)]"
proof -
  obtain p e where p: "Page_insertTuple (Page 0) demo_tuple = Inr (0, p)" "page_wf p [e]" "\<not> e_del e"
    "e_tuple e = demo_tuple" "e_size e = 24" using demo_page by blast
  have "visible e" using p(3,4) demo_tuple_fits(2) by (simp add: visible_def)
  then show ?thesis
    using page_update_replaces[OF p(2), of 0 demo_tuple] p demo_tuple_fits by (simp split: if_splits) blast
qed

end
