(* ===== verification/Page_Overrun.thy ===== *)
theory Page_Overrun imports Page_Laws
begin

text \<open>
  What happens on a page when a tuple's overrun does not fit in the padding of its slot. A string
  writes its terminator one byte behind the size it reports, a null number writes its whole width
  although its size is zero, and \<^verbatim>\<open>insertTuple\<close> reserves only the reported size rounded up to eight.
\<close>

section \<open>The overrun is zeros\<close>

lemma field_over_zeros: "field_ok f \<Longrightarrow> field_over f = replicate (length (field_over f)) 0"
proof (cases "fieldType f = TYPE_STRING")
  case True
  assume "field_ok f"
  with True show ?thesis
    by (auto simp: field_over_def field_payload_def field_ok_def active_ok_iff Suc_diff_le nat_eq_iff
        simp flip: replicate_append_same)
next
  case False
  assume "field_ok f"
  with False show ?thesis
    by (cases "fieldType f") (auto simp: field_over_def field_payload_def field_ok_def active_ok_iff)
qed

lemma seq_over_zeros:
  "\<forall>f \<in> set fs. field_ok f \<Longrightarrow> \<exists>n. seq_bytes field_enc field_over fs = seq_enc field_enc fs @ replicate n 0"
proof (induction fs)
  case (Cons f fs)
  then obtain n where n: "seq_bytes field_enc field_over fs = seq_enc field_enc fs @ replicate n 0" by auto
  have "\<exists>k. field_over f = replicate k 0" using Cons.prems field_over_zeros by (metis list.set_intros(1))
  then obtain k where "field_over f = replicate k 0" by blast
  with n show ?case by (auto simp: Let_def simp flip: replicate_add)
qed simp

lemma tuple_over_zeros: "tuple_ok t \<Longrightarrow> tuple_over t = replicate (length (tuple_over t)) 0"
  using seq_over_zeros[of "tfields t"] by (auto simp: tuple_ok_def tuple_over_def seq_over_def)

section \<open>Properties\<close>

text \<open>
  On a page without tuples, a tuple whose overrun does not fit in its padding is written past the
  end of the 4096-byte array. An integer followed by a three-character string is such a row.
\<close>

lemma overrun_leaves_the_page:
  assumes "page_wf p []" "hdr_free p = 4096" "tuple_ok t" "length (tuple_enc t) \<le> 4000"
    and "pad8 (length (tuple_enc t)) < length (tuple_enc t @ tuple_over t)"
  shows "Page_insertTuple p t = Inl Undefined"
proof -
  have "page_room (hdr_free p) 0 (pad8 (length (tuple_enc t)))"
    using assms(2,4) pad8_ge(2)[of "length (tuple_enc t)"] by (simp add: page_room_def)
  with insertTuple_bytes[OF assms(1,3)] assms pad8_ge(2)[of "length (tuple_enc t)"] show ?thesis
    by (simp add: Let_def)
qed

definition str_field :: "string \<Rightarrow> field" where
  "str_field s = \<lparr>fieldType = TYPE_STRING, fsize = int (length s), is_null = False, fval = VALUE_STRING (Some (s @ [NUL]))\<rparr>"

lemma str_field_ok: "int (length s) < 2 ^ 31 \<Longrightarrow> field_ok (str_field s)"
  by (simp add: str_field_def field_ok_def active_ok_iff)

lemmas tuple_eval = tuple_ok_def Tuple_def field_ok_def active_ok_iff Field_int_def Field_bool_def Field_null_def
  str_field_def in_i32_def getSerializedSize_def tuple_enc_def tuple_over_def seq_over_def field_enc_def
  field_header_def field_payload_def field_over_def pad8_def

theorem overrun_leaves_the_page_witness:
  "Page_insertTuple (Page 0) (Tuple [Field_int TYPE_INT 1, str_field ''abc'']) = Inl Undefined"
  by (rule overrun_leaves_the_page[OF Page_wf Page_0_room]) (simp_all add: tuple_eval)

lemma row_head_byte:
  assumes e: "entry_wf m i e" and sz: "tulpe_size (e_tuple e) < 2 ^ 24"
  shows "m (e_off e + 4) = 0"
proof -
  have "peek m (e_off e) 5 = take 5 (tuple_enc (e_tuple e))"
    using e peek_sub[of m "e_off e" "length (tuple_enc (e_tuple e))" "tuple_enc (e_tuple e)" 0 5] length_tuple_enc_ge[of "e_tuple e"]
    by (simp add: entry_wf_def)
  then have "m (e_off e + 4) = take 5 (tuple_enc (e_tuple e)) ! 4" by (metis lessI nth_peek eval_nat_numeral(3))
  also have "\<dots> = i32_bytes (tulpe_size (e_tuple e)) ! 3" by (simp add: tuple_enc_def nth_append)
  also have "\<dots> = 0"
  proof -
    have "0 \<le> tulpe_size (e_tuple e)" using e fields_size_enc[of "tfields (e_tuple e)"] by (simp add: entry_wf_def tuple_ok_def)
    with sz have "nat (tulpe_size (e_tuple e) mod 2 ^ 32) < 256 ^ 3" by (simp add: nat_less_iff)
    then show ?thesis by (simp add: i32_bytes_def nth_le_bytes del: power_numeral)
  qed
  finally show ?thesis .
qed

lemma zeros_read_empty:
  assumes "\<And>j. j < 5 \<Longrightarrow> mem p (off + j) = 0" "off + 5 \<le> cap p"
  shows "Tuple_deserialize p off = Inr \<lparr>t_deleted = False, tulpe_size = 0, tfields = []\<rparr>"
proof -
  have "peek (mem p) off 1 = [0]" using assms(1)[of 0] by (simp add: peek_Suc_0)
  moreover have "peek (mem p) (off + 1) 4 = replicate 4 0" unfolding peek_eq_iff using assms(1)[of "Suc _"] by auto
  moreover have "i32_val (replicate 4 0) = 0" by (simp add: i32_val_def numeral_eq_Suc)
  ultimately show ?thesis using assms(2) by (simp add: Tuple_deserialize_def memcpy_from_def)
qed

text \<open>
  C36. On a page that holds tuples, an overrun of four or more bytes (a null number in the last
  column) is written over the deletion byte and the stored size of the tuple inserted just before,
  which then reads back as a row without fields.
\<close>

theorem overrun_erases_neighbour:
  assumes wf: "page_wf p (es @ [e])" and e: "visible e" "e_off e = hdr_free p" "tulpe_size (e_tuple e) < 2 ^ 24"
    and t: "tuple_ok t" "length (tuple_enc t) \<le> 65528"
    and over: "pad8 (length (tuple_enc t)) + 4 \<le> length (tuple_enc t @ tuple_over t)"
    and room: "page_room (hdr_free p) (length (es @ [e])) (pad8 (length (tuple_enc t)))"
  shows "\<exists>p'. Page_insertTuple p t = Inr (int (length es) + 1, p') \<and>
    Page_getTuple p' (int (length es)) t0 = Inr (True, \<lparr>t_deleted = False, tulpe_size = 0, tfields = []\<rparr>)"
proof -
  define n where "n = pad8 (length (tuple_enc t))"
  define f where "f = hdr_free p - n"
  define bs where "bs = tuple_enc t @ tuple_over t"
  let ?k = "length (es @ [e])" and ?i = "length es" and ?o = "e_off e"
  define p' where "p' = inserted p ?k f n bs"
  have ewf: "entry_wf (mem p) ?i e" using wf by (auto simp: page_wf_def nth_append dest: spec[of _ ?i])
  have g: "cap p = 4096" "hdr_free p \<le> 4096" "14 + 6 * ?k + 6 \<le> f" "f + n = hdr_free p" "?o + e_size e \<le> 4096"
    using wf room by (auto simp: page_wf_def PAGE_SIZE_def page_room_def f_def n_def entries_apart_def)
  have "5 \<le> e_size e" "8 dvd e_size e"
    using ewf length_tuple_enc_ge[of "e_tuple e"] by (auto simp: entry_wf_def)
  then have big: "8 \<le> e_size e" by (auto elim!: dvdE)
  have len: "n + 4 \<le> length bs" "length bs \<le> n + 8"
    using over tuple_over_le_8[OF t(1)] pad8_ge(1)[of "length (tuple_enc t)"] by (auto simp: n_def bs_def)
  have ins: "Page_insertTuple p t = Inr (int ?k, p')"
    using insertTuple_bytes[OF wf t room] g e(2) big len
    by (simp add: Let_def n_def[symmetric] f_def[symmetric] bs_def[symmetric] p'_def)
  have same: "mem p' k = mem p k" if "14 \<le> k" "k < slot_pos ?k \<or> slot_pos ?k + 4 \<le> k" "k < f \<or> f + length bs \<le> k" for k
    using that unfolding p'_def by (rule inserted_same)
  have zero: "mem p' (?o + j) = 0" if "j < 5" for j
  proof (cases "?o + j < f + length bs")
    case True
    have "?o + j - f = n + j" using g e(2) by simp
    then have "mem p' (?o + j) = bs ! (n + j)"
      using True g e(2) by (auto simp: p'_def inserted_def set_num_tuples_def put_def slot_pos_def)
    also have "\<dots> = tuple_over t ! (n + j - length (tuple_enc t))"
      using pad8_ge(1)[of "length (tuple_enc t)"] by (simp add: bs_def nth_append n_def)
    also have "\<dots> = 0"
      using True g e(2) pad8_ge(1)[of "length (tuple_enc t)"]
      by (subst tuple_over_zeros[OF t(1)]) (auto simp: bs_def n_def)
    finally show ?thesis .
  next
    case False
    with that len g e(2) have j: "j = 4" "?o + 4 = f + length bs" by auto
    have "0 = mem p (?o + 4)" using row_head_byte[OF ewf e(3)] by simp
    also have "mem p (?o + 4) = mem p' (?o + 4)"
      using j g e(2) by (intro same[symmetric]) (auto simp: slot_pos_def)
    finally show ?thesis using j by simp
  qed
  have slots: "slot_offset p' ?i = Inr ?o" "slot_deleted p' ?i = Inr False"
  proof -
    have "peek (mem p') (slot_pos ?i) 5 = peek (mem p) (slot_pos ?i) 5"
      using g by (intro peek_eqI same) (auto simp: slot_pos_def)
    then have "peek (mem p') (slot_pos ?i) 5 = slot_bytes e" using ewf by (simp add: entry_wf_def)
    moreover have "cap p' = 4096" using g by (simp add: p'_def inserted_hdr)
    ultimately show "slot_offset p' ?i = Inr ?o" "slot_deleted p' ?i = Inr False"
      using slot_reads[of p' ?i e] g e(1) by (auto simp: slot_pos_def visible_def)
  qed
  have "?o + 5 \<le> cap p'" using g big by (simp add: p'_def inserted_hdr)
  then have "Tuple_deserialize p' ?o = Inr \<lparr>t_deleted = False, tulpe_size = 0, tfields = []\<rparr>"
    using zeros_read_empty[of p' ?o] zero by blast
  then have "Page_getTuple p' (int ?i) t0 = Inr (True, \<lparr>t_deleted = False, tulpe_size = 0, tfields = []\<rparr>)"
    using slots g by (simp add: Page_getTuple_def slot_valid_def p'_def inserted_hdr)
  with ins show ?thesis by auto
qed

theorem overrun_erases_neighbour_witness:
  "\<exists>p p'. Page_insertTuple (Page 0) demo_tuple = Inr (0, p) \<and>
     Page_insertTuple p (Tuple [str_field ''1234567'', Field_null TYPE_INT]) = Inr (1, p') \<and>
     Page_getTuple p' 0 (Tuple []) = Inr (True, \<lparr>t_deleted = False, tulpe_size = 0, tfields = []\<rparr>)"
proof -
  obtain p e where p: "Page_insertTuple (Page 0) demo_tuple = Inr (0, p)" "page_wf p [e]" "\<not> e_del e"
    "e_tuple e = demo_tuple" "e_off e = hdr_free p" "hdr_free p = 4072"
    using demo_page by blast
  let ?t = "Tuple [str_field ''1234567'', Field_null TYPE_INT]"
  have t: "tuple_ok ?t" "length (tuple_enc ?t) = 24" "length (tuple_over ?t) = 4"
    by (simp_all add: tuple_eval)
  have "visible e" "tulpe_size (e_tuple e) = 17"
    using p demo_tuple_fits(2) by (simp_all add: visible_def demo_tuple_def tuple_eval)
  then show ?thesis
    using overrun_erases_neighbour[of p "[]" e ?t "Tuple []"] p t
    by (auto simp: pad8_def page_room_def)
qed

end
