(* ===== verification/Disk_Manager.thy ===== *)
theory Disk_Manager imports Page_Laws
begin

text \<open>
  \<^verbatim>\<open>DiskManager\<close> (src/Storage/Disk/DiskManager.c++, Include/Storage/Disk/DiskManager.h): the database
  file, the directory from page ids to file offsets, the free list, the names of the tables, and the
  metadata page that keeps all of it.

  The \<^verbatim>\<open>fstream\<close> is a length, a content and the fail bit: a write on a failed stream does nothing, a
  read past the end of the file delivers the bytes there are and sets the fail bit, \<^verbatim>\<open>clear\<close> resets
  it. Opening the file itself (permissions, a full disk) is not modelled.
\<close>

record dbfile =
  flen :: nat
  fdata :: "nat \<Rightarrow> byte"
  ffail :: bool

definition f_clear :: "dbfile \<Rightarrow> dbfile" where "f_clear f = f\<lparr>ffail := False\<rparr>"

definition f_write :: "dbfile \<Rightarrow> nat \<Rightarrow> byte list \<Rightarrow> dbfile" where
  "f_write f off bs =
     (if ffail f then f
      else f\<lparr>flen := max (flen f) (off + length bs), fdata := put (fdata f) off bs\<rparr>)"

definition f_read :: "dbfile \<Rightarrow> nat \<Rightarrow> nat \<Rightarrow> byte list \<times> dbfile" where
  "f_read f off n =
     (if ffail f then ([], f)
      else let got = min n (flen f - off) in (peek (fdata f) off got, f\<lparr>ffail := got < n\<rparr>))"

definition f_resize :: "dbfile \<Rightarrow> nat \<Rightarrow> dbfile" where
  "f_resize f n = f\<lparr>flen := n, fdata := (\<lambda>i. if i < flen f \<and> i < n then fdata f i else 0)\<rparr>"

record dm =
  dm_capacity :: int
  dm_map_size :: int
  dm_deleted_size :: int
  dm_tables_number :: int
  pages_table :: "(int \<times> nat) list"
  deleted_slots :: "nat list"
  tables_names :: "(string \<times> int) list"
  db_file :: dbfile
  is_file_new :: bool

definition FILE_CAPACITY :: int where "FILE_CAPACITY = 100"

section \<open>The metadata page\<close>

text \<open>One entry of each of the three tables, written and read field by field.\<close>

definition write_entry :: "int \<times> nat \<Rightarrow> buf \<Rightarrow> nat \<Rightarrow> buf res" where
  "write_entry e b off = memcpy_to b off (i32_bytes (fst e) @ u64_bytes (snd e))"

definition read_entry :: "buf \<Rightarrow> nat \<Rightarrow> (int \<times> nat) res" where
  "read_entry b off = rbind (memcpy_from b off 12) (\<lambda>bs. Inr (i32_val (take 4 bs), le_val (drop 4 bs)))"

definition write_table :: "string \<times> int \<Rightarrow> buf \<Rightarrow> nat \<Rightarrow> buf res" where
  "write_table t b off =
     rbind (memcpy_to b off (i32_bytes (int (length (fst t))))) (\<lambda>b.
     rbind (memcpy_to b (off + 4) (str_bytes (fst t))) (\<lambda>b.
     memcpy_to b (off + 4 + length (fst t)) (i32_bytes (snd t))))"

definition table_size :: "string \<times> int \<Rightarrow> nat" where "table_size t = 8 + length (fst t)"

definition read_table :: "buf \<Rightarrow> nat \<Rightarrow> (string \<times> int) res" where
  "read_table b off =
     rbind (memcpy_from b off 4) (\<lambda>n.
     let name_size = i32_val n in
     if name_size < 0 then Inl (Throw ''basic_string::_M_create'')
     else rbind (memcpy_from b (off + 4) (nat name_size)) (\<lambda>nm.
          rbind (memcpy_from b (off + 4 + nat name_size) 4) (\<lambda>p. Inr (bytes_str nm, i32_val p))))"

definition write_slot :: "nat \<Rightarrow> buf \<Rightarrow> nat \<Rightarrow> buf res" where
  "write_slot s b off = memcpy_to b off (u64_bytes s)"

definition read_slot :: "buf \<Rightarrow> nat \<Rightarrow> nat res" where
  "read_slot b off = rbind (memcpy_from b off 8) (\<lambda>bs. Inr (le_val bs))"

definition seq_size :: "('a \<Rightarrow> nat) \<Rightarrow> 'a list \<Rightarrow> nat" where "seq_size sz xs = sum_list (map sz xs)"

definition header_bytes :: "dm \<Rightarrow> byte list" where
  "header_bytes d = i32_bytes (dm_capacity d) @ i32_bytes (dm_map_size d) @ i32_bytes (dm_deleted_size d)
     @ i32_bytes (dm_tables_number d)"

definition saveMetaData :: "dm \<Rightarrow> dm res" where
  "saveMetaData d =
     (let d = d\<lparr>dm_map_size := int (length (pages_table d)),
                dm_deleted_size := int (length (deleted_slots d)),
                dm_tables_number := int (length (tables_names d))\<rparr>;
          off1 = 16 + seq_size (\<lambda>_. 12) (pages_table d);
          off2 = off1 + seq_size table_size (tables_names d)
      in rbind (memcpy_to (zero_buf PAGE_SIZE) 0 (header_bytes d)) (\<lambda>b.
         rbind (write_seq write_entry (\<lambda>_. 12) (pages_table d) b 16) (\<lambda>b.
         rbind (write_seq write_table table_size (tables_names d) b off1) (\<lambda>b.
         rbind (write_seq write_slot (\<lambda>_. 8) (deleted_slots d) b off2) (\<lambda>b.
         Inr (d\<lparr>db_file := f_write (f_clear (db_file d)) 0 (peek (mem b) 0 PAGE_SIZE)\<rparr>))))))"

text \<open>
  A file shorter than a page leaves a part of the local buffer unset, which is then read. The three
  loops run as often as the stored counts say, not at all for a negative one.
\<close>

definition loadMetaData :: "dm \<Rightarrow> dm res" where
  "loadMetaData d =
     (let (bs, f) = f_read (f_clear (db_file d)) 0 PAGE_SIZE;
          b = \<lparr>cap = PAGE_SIZE, mem = put (\<lambda>_. 0) 0 bs\<rparr>
      in rbind (guard_ub (length bs = PAGE_SIZE)) (\<lambda>_.
         rbind (memcpy_from b 0 16) (\<lambda>h.
         let cp = i32_val (take 4 h); ms = i32_val (take 4 (drop 4 h));
             ds = i32_val (take 4 (drop 8 h)); tn = i32_val (drop 12 h)
         in rbind (read_seq read_entry (\<lambda>_. 12) (nat ms) b 16) (\<lambda>es.
            let off1 = 16 + seq_size (\<lambda>_. 12) es in
            rbind (read_seq read_table table_size (nat tn) b off1) (\<lambda>ts.
            let off2 = off1 + seq_size table_size ts in
            rbind (read_seq read_slot (\<lambda>_. 8) (nat ds) b off2) (\<lambda>ss.
            Inr (d\<lparr>dm_capacity := cp, dm_map_size := ms, dm_deleted_size := ds, dm_tables_number := tn,
                   pages_table := foldl (\<lambda>m (k, v). AList.update k v m) [] es,
                   tables_names := foldl (\<lambda>m (k, v). AList.update k v m) [] ts,
                   deleted_slots := ss, db_file := f\<rparr>)))))))"

section \<open>Pages\<close>

text \<open>The new size is an \<^verbatim>\<open>int\<close> product.\<close>

definition resizeFile :: "dm \<Rightarrow> dm res" where
  "resizeFile d =
     (let c = 2 * dm_capacity d
      in rbind (guard_ub (0 \<le> c \<and> in_i32 (c * int PAGE_SIZE))) (\<lambda>_.
         Inr (d\<lparr>dm_capacity := c, db_file := f_resize (db_file d) (nat c * PAGE_SIZE)\<rparr>)))"

definition allocatePage :: "dm \<Rightarrow> (nat \<times> dm) res" where
  "allocatePage d =
     (if deleted_slots d \<noteq> [] then
        Inr (last (deleted_slots d), d\<lparr>deleted_slots := butlast (deleted_slots d)\<rparr>)
      else
        rbind (if int (length (pages_table d)) + 1 \<ge> dm_capacity d mod 2 ^ 64 then resizeFile d else Inr d) (\<lambda>d.
        let page_id = int (length (pages_table d)) + 1;
            offset = nat page_id * PAGE_SIZE
        in rbind (guard_ub (in_i32 (page_id * int PAGE_SIZE))) (\<lambda>_.
           Inr (offset, d\<lparr>db_file := f_write (db_file d) offset (peek (mem (Page page_id)) 0 PAGE_SIZE),
                          pages_table := AList.update page_id offset (pages_table d)\<rparr>))))"

definition writePage :: "dm \<Rightarrow> int \<Rightarrow> buf \<Rightarrow> dm res" where
  "writePage d page_id data =
     rbind (case map_of (pages_table d) page_id of
              Some offset \<Rightarrow> Inr (offset, d)
            | None \<Rightarrow> allocatePage d) (\<lambda>(offset, d).
     rbind (memcpy_from data 0 PAGE_SIZE) (\<lambda>bs.
     Inr (d\<lparr>db_file := f_write (db_file d) offset bs,
            pages_table := AList.update page_id offset (pages_table d)\<rparr>)))"

text \<open>An unknown page leaves the caller's buffer as it was.\<close>

definition readPage :: "dm \<Rightarrow> int \<Rightarrow> buf \<Rightarrow> (buf \<times> dm) res" where
  "readPage d page_id data =
     (case map_of (pages_table d) page_id of
        None \<Rightarrow> Inr (data, d)
      | Some offset \<Rightarrow>
          let (bs, f) = f_read (f_clear (db_file d)) offset PAGE_SIZE
          in rbind (memcpy_to data 0 bs) (\<lambda>data. Inr (data, d\<lparr>db_file := f\<rparr>)))"

definition dm_deletePage :: "dm \<Rightarrow> int \<Rightarrow> dm" where
  "dm_deletePage d page_id =
     (case map_of (pages_table d) page_id of
        None \<Rightarrow> d
      | Some offset \<Rightarrow> d\<lparr>deleted_slots := deleted_slots d @ [offset],
                          pages_table := AList.delete page_id (pages_table d)\<rparr>)"

definition dm_getSize :: "dm \<Rightarrow> nat" where
  "dm_getSize d = (length (pages_table d) + length (deleted_slots d)) * PAGE_SIZE"

definition addTable :: "dm \<Rightarrow> string \<Rightarrow> int \<Rightarrow> dm" where
  "addTable d name pid = d\<lparr>dm_tables_number := dm_tables_number d + 1,
     tables_names := AList.update name pid (tables_names d)\<rparr>"

definition removeTable :: "dm \<Rightarrow> string \<Rightarrow> dm" where
  "removeTable d name = d\<lparr>dm_tables_number := dm_tables_number d - 1,
     tables_names := AList.delete name (tables_names d)\<rparr>"

text \<open>
  The constructor, given the file if there is one: a new file is created, grown to its capacity and
  gets a metadata page, an old one is loaded. The destructor saves the metadata.
\<close>

definition fresh_dm :: "dbfile \<Rightarrow> dm" where
  "fresh_dm f = \<lparr>dm_capacity = FILE_CAPACITY, dm_map_size = 0, dm_deleted_size = 0, dm_tables_number = 0,
     pages_table = [], deleted_slots = [], tables_names = [], db_file = f, is_file_new = False\<rparr>"

definition DiskManager :: "dbfile option \<Rightarrow> dm res" where
  "DiskManager f =
     (case f of
        None \<Rightarrow>
          saveMetaData ((fresh_dm (f_resize \<lparr>flen = 0, fdata = (\<lambda>_. 0), ffail = False\<rparr>
             (nat FILE_CAPACITY * PAGE_SIZE)))\<lparr>is_file_new := True\<rparr>)
      | Some f \<Rightarrow> loadMetaData (fresh_dm f))"

definition dm_close :: "dm \<Rightarrow> dm res" where
  "dm_close d = saveMetaData (d\<lparr>db_file := f_clear (db_file d)\<rparr>)"

section \<open>The codecs of the metadata\<close>

definition entry_ok :: "int \<times> nat \<Rightarrow> bool" where "entry_ok e \<longleftrightarrow> in_i32 (fst e) \<and> snd e < 2 ^ 64"
definition entry_enc :: "int \<times> nat \<Rightarrow> byte list" where "entry_enc e = i32_bytes (fst e) @ u64_bytes (snd e)"
definition table_ok :: "string \<times> int \<Rightarrow> bool" where "table_ok t \<longleftrightarrow> length (fst t) < 2 ^ 31 \<and> in_i32 (snd t)"
definition table_enc :: "string \<times> int \<Rightarrow> byte list" where
  "table_enc t = i32_bytes (int (length (fst t))) @ str_bytes (fst t) @ i32_bytes (snd t)"

lemma length_meta_enc [simp]: "length (entry_enc e) = 12" "length (table_enc t) = table_size t"
  by (simp_all add: entry_enc_def table_enc_def table_size_def)

interpretation dir: codec write_entry read_entry "\<lambda>_. 12" entry_enc "\<lambda>_. []" entry_ok "(=)"
proof unfold_locales
  fix x :: "int \<times> nat" and b off
  show "write_entry x b off = memcpy_to b off (entry_enc x @ [])" by (simp add: write_entry_def entry_enc_def)
  show "\<exists>y. read_entry b off = Inr y \<and> x = y"
    if "entry_ok x" "peek (mem b) off (length (entry_enc x)) = entry_enc x" "off + length (entry_enc x @ []) \<le> cap b"
    using that by (cases x) (simp add: read_entry_def memcpy_from_def entry_ok_def, simp add: entry_enc_def)
qed (simp_all add: entry_enc_def)

interpretation names: codec write_table read_table table_size table_enc "\<lambda>_. []" table_ok "(=)"
proof unfold_locales
  fix x :: "string \<times> int" and b off
  show "write_table x b off = memcpy_to b off (table_enc x @ [])"
    using memcpy_to_append3[of b off "i32_bytes (int (length (fst x)))" "str_bytes (fst x)" "i32_bytes (snd x)"]
    by (simp add: write_table_def table_enc_def add.assoc)
  show "\<exists>y. read_table b off = Inr y \<and> x = y"
    if ok: "table_ok x" and pk: "peek (mem b) off (length (table_enc x)) = table_enc x"
      and room: "off + length (table_enc x @ []) \<le> cap b"
  proof -
    let ?n = "length (fst x)"
    have "peek (mem b) off 4 @ peek (mem b) (off + 4) ?n @ peek (mem b) (off + 4 + ?n) 4 @ [] =
        peek (mem b) off (4 + ?n + 4)" by (simp only: peek_add append_assoc add.assoc append_Nil2)
    also have "\<dots> = i32_bytes (int ?n) @ str_bytes (fst x) @ i32_bytes (snd x) @ []"
      using pk by (simp add: table_enc_def table_size_def add.commute)
    finally have "peek (mem b) off 4 = i32_bytes (int ?n) \<and> peek (mem b) (off + 4) ?n = str_bytes (fst x) \<and>
        peek (mem b) (off + 4 + ?n) 4 = i32_bytes (snd x) \<and> ([] :: byte list) = []"
      by (rule append4_eq) simp_all
    with ok room show ?thesis
      by (cases x) (simp add: read_table_def memcpy_from_def table_ok_def in_i32_def table_size_def Let_def)
  qed
qed simp_all

interpretation slots: codec write_slot read_slot "\<lambda>_. 8" u64_bytes "\<lambda>_. []" "\<lambda>s. s < 2 ^ 64" "(=)"
  by unfold_locales (simp_all add: write_slot_def read_slot_def memcpy_from_def)

section \<open>Saving and loading\<close>

definition counted :: "dm \<Rightarrow> dm" where
  "counted d = d\<lparr>dm_map_size := int (length (pages_table d)), dm_deleted_size := int (length (deleted_slots d)),
     dm_tables_number := int (length (tables_names d))\<rparr>"

definition meta_bytes :: "dm \<Rightarrow> byte list" where
  "meta_bytes d = header_bytes (counted d) @ seq_enc entry_enc (pages_table d) @ seq_enc table_enc (tables_names d)
     @ seq_enc u64_bytes (deleted_slots d)"

definition meta_ok :: "dm \<Rightarrow> bool" where
  "meta_ok d \<longleftrightarrow> in_i32 (dm_capacity d) \<and> (\<forall>e \<in> set (pages_table d). entry_ok e) \<and>
     (\<forall>t \<in> set (tables_names d). table_ok t) \<and> (\<forall>s \<in> set (deleted_slots d). s < 2 ^ 64) \<and>
     distinct (map fst (pages_table d)) \<and> distinct (map fst (tables_names d))"

lemma length_seq_enc_const: "(\<And>x. length (enc x) = k) \<Longrightarrow> length (seq_enc enc xs) = k * length xs"
  by (induction xs) auto

lemma length_seq_enc_size: "length (seq_enc table_enc ts) = seq_size table_size ts"
  by (induction ts) (auto simp: seq_size_def)

lemma seq_size_Nil [simp]: "seq_size sz [] = 0"
  by (simp add: seq_size_def)

lemma seq_size_const [simp]: "seq_size (\<lambda>_. k) xs = k * length xs"
  by (induction xs) (auto simp: seq_size_def)

lemma length_header_bytes [simp]: "length (header_bytes d) = 16"
  by (simp add: header_bytes_def)

lemma length_meta_bytes:
  "length (meta_bytes d) = 16 + 12 * length (pages_table d) + seq_size table_size (tables_names d) + 8 * length (deleted_slots d)"
  by (simp add: meta_bytes_def length_seq_enc_const length_seq_enc_size)

lemma counted_simps [simp]:
  "pages_table (counted d) = pages_table d" "tables_names (counted d) = tables_names d"
  "deleted_slots (counted d) = deleted_slots d" "db_file (counted d) = db_file d"
  "dm_capacity (counted d) = dm_capacity d"
  by (simp_all add: counted_def)

lemma peek_put_zero:
  "length bs \<le> n \<Longrightarrow> peek (put (\<lambda>_. 0) 0 bs) 0 n = bs @ replicate (n - length bs) 0"
  by (auto simp: peek_eq_iff put_def nth_append)

lemma saveMetaData_bytes:
  assumes "meta_ok d"
  shows "saveMetaData d =
    (if length (meta_bytes d) \<le> PAGE_SIZE then
       Inr ((counted d)\<lparr>db_file := f_write (f_clear (db_file d)) 0
         (meta_bytes d @ replicate (PAGE_SIZE - length (meta_bytes d)) 0)\<rparr>)
     else Inl Undefined)"
proof -
  let ?h = "header_bytes (counted d)" and ?p = "seq_enc entry_enc (pages_table d)"
    and ?t = "seq_enc table_enc (tables_names d)" and ?s = "seq_enc u64_bytes (deleted_slots d)"
  have l: "length ?h = 16" "length ?p = 12 * length (pages_table d)" "length ?t = seq_size table_size (tables_names d)"
    by (simp_all add: length_seq_enc_const length_seq_enc_size)
  have "saveMetaData d =
     rbind (memcpy_to (zero_buf PAGE_SIZE) 0 ?h) (\<lambda>b. rbind (memcpy_to b (0 + length ?h) ?p) (\<lambda>b.
       rbind (memcpy_to b (0 + length ?h + length ?p) ?t) (\<lambda>b.
       rbind (memcpy_to b (0 + length ?h + length ?p + length ?t) ?s) (\<lambda>b.
         Inr ((counted d)\<lparr>db_file := f_write (f_clear (db_file d)) 0 (peek (mem b) 0 PAGE_SIZE)\<rparr>)))))"
    using assms unfolding saveMetaData_def counted_def[symmetric] Let_def
    by (auto simp: l meta_ok_def dir.write_seq_bytes names.write_seq_bytes slots.write_seq_bytes
        memcpy_to_eq_Inr intro!: rbind_cong simp del: append_Nil)
  also have "\<dots> = rbind (memcpy_to (zero_buf PAGE_SIZE) 0 (meta_bytes d)) (\<lambda>b.
      Inr ((counted d)\<lparr>db_file := f_write (f_clear (db_file d)) 0 (peek (mem b) 0 PAGE_SIZE)\<rparr>))"
    unfolding meta_bytes_def memcpy_to_append4[symmetric] by (simp add: rbind_assoc)
  finally show ?thesis by (simp add: memcpy_to_def zero_buf_def peek_put_zero)
qed

text \<open>The metadata of a file.\<close>

definition meta_of_file :: "dbfile \<Rightarrow> dm \<Rightarrow> bool" where
  "meta_of_file f d \<longleftrightarrow> PAGE_SIZE \<le> flen f \<and> length (meta_bytes d) \<le> PAGE_SIZE \<and>
     peek (fdata f) 0 (length (meta_bytes d)) = meta_bytes d"

lemma list_all2_eq [simp]: "list_all2 (=) xs ys \<longleftrightarrow> xs = ys"
  by (simp add: list.rel_eq)

lemma seq_enc_le: "length (deleted_slots d) \<le> length (meta_bytes d)" "length (pages_table d) \<le> length (meta_bytes d)"
  "length (tables_names d) \<le> length (meta_bytes d)"
proof -
  have "length ts \<le> seq_size table_size ts" for ts by (induction ts) (auto simp: seq_size_def table_size_def)
  then show "length (deleted_slots d) \<le> length (meta_bytes d)" "length (pages_table d) \<le> length (meta_bytes d)"
    "length (tables_names d) \<le> length (meta_bytes d)"
    unfolding length_meta_bytes using le_add1 le_add2 by (auto intro: trans_le_add1 trans_le_add2)
qed

lemma loadMetaData_back:
  assumes ok: "meta_ok d" and f: "meta_of_file (db_file d0) d"
  shows "loadMetaData d0 = Inr ((counted d)\<lparr>db_file := f_clear (db_file d0), is_file_new := is_file_new d0\<rparr>)"
proof -
  let ?f = "f_clear (db_file d0)"
  define b where "b = \<lparr>cap = PAGE_SIZE, mem = put (\<lambda>_. 0) 0 (peek (fdata ?f) 0 PAGE_SIZE)\<rparr>"
  let ?h = "header_bytes (counted d)" and ?p = "seq_enc entry_enc (pages_table d)"
    and ?t = "seq_enc table_enc (tables_names d)" and ?s = "seq_enc u64_bytes (deleted_slots d)"
  have l: "length ?h = 16" "length ?p = 12 * length (pages_table d)" "length ?t = seq_size table_size (tables_names d)"
    "length ?s = 8 * length (deleted_slots d)"
    by (simp_all add: length_seq_enc_const length_seq_enc_size)
  have rd: "f_read ?f 0 PAGE_SIZE = (peek (fdata ?f) 0 PAGE_SIZE, ?f)"
    using f by (simp add: f_read_def f_clear_def meta_of_file_def)
  have "peek (mem b) 0 (length (meta_bytes d)) = meta_bytes d"
    using f by (simp add: b_def peek_put_prefix meta_of_file_def f_clear_def)
      (simp add: peek_def take_map)
  then have "peek (mem b) 0 (length ?h + length ?p + length ?t + length ?s) = ?h @ ?p @ ?t @ ?s"
    by (simp add: meta_bytes_def l add.assoc)
  then have "peek (mem b) 0 (length ?h) @ peek (mem b) (0 + length ?h) (length ?p) @
      peek (mem b) (0 + length ?h + length ?p) (length ?t) @
      peek (mem b) (0 + length ?h + length ?p + length ?t) (length ?s) = ?h @ ?p @ ?t @ ?s"
    by (simp only: peek_add append_assoc add.assoc)
  then have pk: "peek (mem b) 0 16 = ?h \<and> peek (mem b) 16 (length ?p) = ?p \<and>
      peek (mem b) (16 + length ?p) (length ?t) = ?t \<and> peek (mem b) (16 + length ?p + length ?t) (length ?s) = ?s"
    by (auto simp: l dest!: append4_eq)
  have room: "16 + length ?p + length ?t + length ?s \<le> cap b"
    using f by (simp add: meta_of_file_def b_def meta_bytes_def)
  have h: "memcpy_from b 0 16 = Inr ?h" using pk room by (simp add: memcpy_from_def)
  have es: "read_seq read_entry (\<lambda>_. 12) (length (pages_table d)) b 16 = Inr (pages_table d)"
    using dir.read_seq_back[of "pages_table d" b 16] ok pk room by (auto simp: meta_ok_def)
  have ts: "read_seq read_table table_size (length (tables_names d)) b (16 + 12 * length (pages_table d)) = Inr (tables_names d)"
    using names.read_seq_back[of "tables_names d" b "16 + length ?p"] ok pk room l(2) by (auto simp: meta_ok_def)
  have ss: "read_seq read_slot (\<lambda>_. 8) (length (deleted_slots d)) b
      (16 + 12 * length (pages_table d) + seq_size table_size (tables_names d)) = Inr (deleted_slots d)"
    using slots.read_seq_back[of "deleted_slots d" b "16 + length ?p + length ?t"] ok pk room l(2,3) by (auto simp: meta_ok_def)
  have cnt: "in_i32 (int (length (pages_table d)))" "in_i32 (int (length (deleted_slots d)))" "in_i32 (int (length (tables_names d)))"
    using f seq_enc_le[of d] by (auto simp: in_i32_def meta_of_file_def PAGE_SIZE_def)
  have hd: "i32_val (take 4 ?h) = dm_capacity d" "i32_val (take 4 (drop 4 ?h)) = int (length (pages_table d))"
    "i32_val (take 4 (drop 8 ?h)) = int (length (deleted_slots d))" "i32_val (drop 12 ?h) = int (length (tables_names d))"
    using ok cnt by (simp_all add: header_bytes_def counted_def meta_ok_def)
  show ?thesis
    using rd h es ts ss hd ok
      foldl_update_distinct[of "[]" "pages_table d"] foldl_update_distinct[of "[]" "tables_names d"]
    by (simp add: loadMetaData_def b_def[symmetric] Let_def meta_ok_def counted_def)
qed

section \<open>The pages on disk\<close>

text \<open>
  \<open>dm_inv d n\<close>: the directory maps the ids 1 to n to the offsets 4096 times the id, the file covers its
  capacity, and the capacity exceeds the number of pages. \<open>dm_page d i\<close> is the content of page i.
\<close>

definition dm_inv :: "dm \<Rightarrow> nat \<Rightarrow> bool" where
  "dm_inv d n \<longleftrightarrow> distinct (map fst (pages_table d)) \<and> length (pages_table d) = n \<and>
     map_of (pages_table d) = (\<lambda>k. if 1 \<le> k \<and> k \<le> int n then Some (nat k * PAGE_SIZE) else None) \<and>
     deleted_slots d = [] \<and> \<not> ffail (db_file d) \<and> int n < dm_capacity d \<and> in_i32 (dm_capacity d * int PAGE_SIZE) \<and>
     flen (db_file d) = nat (dm_capacity d) * PAGE_SIZE"

definition dm_page :: "dm \<Rightarrow> nat \<Rightarrow> buf" where
  "dm_page d i = \<lparr>cap = PAGE_SIZE, mem = (\<lambda>k. if k < PAGE_SIZE then fdata (db_file d) (i * PAGE_SIZE + k) else 0)\<rparr>"

text \<open>A frame or page array: 4096 bytes and nothing outside.\<close>

definition canon :: "buf \<Rightarrow> bool" where
  "canon b \<longleftrightarrow> cap b = PAGE_SIZE \<and> (\<forall>k \<ge> PAGE_SIZE. mem b k = 0)"

lemma canon_dm_page [simp]: "canon (dm_page d i)"
  by (simp add: canon_def dm_page_def)

lemma dm_page_cong: "db_file d = db_file e \<Longrightarrow> dm_page d i = dm_page e i"
  by (simp only: dm_page_def)

lemma canon_eqI: "canon b \<Longrightarrow> canon c \<Longrightarrow> (\<And>k. k < PAGE_SIZE \<Longrightarrow> mem b k = mem c k) \<Longrightarrow> b = c"
proof -
  assume a: "canon b" "canon c" "\<And>k. k < PAGE_SIZE \<Longrightarrow> mem b k = mem c k"
  then have "mem b k = mem c k" for k by (cases "k < PAGE_SIZE") (auto simp: canon_def)
  with a show ?thesis by (intro buf.equality) (auto simp: canon_def fun_eq_iff)
qed

lemma mem_dm_page [simp]: "k < PAGE_SIZE \<Longrightarrow> mem (dm_page d i) k = fdata (db_file d) (i * PAGE_SIZE + k)"
  by (simp add: dm_page_def)

lemma pages_apart: "k < PAGE_SIZE \<Longrightarrow> i \<noteq> j \<Longrightarrow>
   i * PAGE_SIZE + k < j * PAGE_SIZE \<or> j * PAGE_SIZE + PAGE_SIZE \<le> i * PAGE_SIZE + k"
proof (cases i j rule: linorder_cases)
  case less
  assume "k < PAGE_SIZE"
  moreover have "Suc i * PAGE_SIZE \<le> j * PAGE_SIZE" using less by (intro mult_le_mono1) simp
  ultimately show ?thesis by simp
next
  case greater
  have "Suc j * PAGE_SIZE \<le> i * PAGE_SIZE" using greater by (intro mult_le_mono1) simp
  then show ?thesis by simp
qed simp

text \<open>Writing one page's bytes changes that page only.\<close>

lemma dm_page_write:
  assumes "canon b" "\<not> ffail (db_file d)" "fdata (db_file d') = fdata (f_write (db_file d) (j * PAGE_SIZE) (peek (mem b) 0 PAGE_SIZE))"
  shows "dm_page d' i = (if i = j then b else dm_page d i)"
proof -
  have "mem (dm_page d' i) k = mem (if i = j then b else dm_page d i) k" if "k < PAGE_SIZE" for k
    using assms(2,3) that pages_apart[OF that, of i j]
    by (auto simp: f_write_def put_def)
  then show ?thesis using assms(1) by (intro canon_eqI) auto
qed

lemma file_bound:
  assumes "dm_inv d n" "i \<le> n"
  shows "i * PAGE_SIZE + PAGE_SIZE \<le> flen (db_file d)"
proof -
  have "Suc i * PAGE_SIZE \<le> nat (dm_capacity d) * PAGE_SIZE"
    using assms by (intro mult_le_mono1) (auto simp: dm_inv_def)
  then show ?thesis using assms by (simp add: dm_inv_def add.commute)
qed

lemma writePage_inv:
  assumes d: "dm_inv d n" and i: "1 \<le> i" "i \<le> n" and b: "canon b"
  shows "\<exists>d'. writePage d (int i) b = Inr d' \<and> dm_inv d' n \<and>
    (\<forall>j. dm_page d' j = (if j = i then b else dm_page d j)) \<and> dm_capacity d' = dm_capacity d \<and> tables_names d' = tables_names d"
proof -
  let ?bs = "peek (mem b) 0 PAGE_SIZE"
  let ?d = "d\<lparr>db_file := f_write (db_file d) (i * PAGE_SIZE) ?bs, pages_table := AList.update (int i) (i * PAGE_SIZE) (pages_table d)\<rparr>"
  have m: "map_of (pages_table d) (int i) = Some (i * PAGE_SIZE)" using d i by (simp add: dm_inv_def)
  then have k: "int i \<in> fst ` set (pages_table d)" by (metis map_of_eq_None_iff option.distinct(1))
  have "writePage d (int i) b = Inr ?d"
    using m b by (simp add: writePage_def memcpy_from_def canon_def)
  moreover have "dm_inv ?d n"
    using d k m file_bound[OF d i(2)]
    by (auto simp: dm_inv_def distinct_update length_update f_write_def max_def fun_upd_idem_iff)
  moreover have "dm_page ?d j = (if j = i then b else dm_page d j)" for j
    using d b by (intro dm_page_write) (auto simp: dm_inv_def)
  ultimately show ?thesis by auto
qed

lemma readPage_inv:
  assumes d: "dm_inv d n" and i: "1 \<le> i" "i \<le> n" and b: "canon b"
  shows "\<exists>d'. readPage d (int i) b = Inr (dm_page d i, d') \<and> dm_inv d' n \<and> db_file d' = db_file d \<and>
    dm_capacity d' = dm_capacity d \<and> tables_names d' = tables_names d"
proof -
  let ?bs = "peek (fdata (db_file d)) (i * PAGE_SIZE) PAGE_SIZE"
  have m: "map_of (pages_table d) (int i) = Some (i * PAGE_SIZE)" using d i by (simp add: dm_inv_def)
  have c: "f_clear (db_file d) = db_file d" using d by (simp add: dm_inv_def f_clear_def)
  have r: "f_read (db_file d) (i * PAGE_SIZE) PAGE_SIZE = (?bs, db_file d)"
    using file_bound[OF d i(2)] d by (auto simp: f_read_def dm_inv_def)
  have "b\<lparr>mem := put (mem b) 0 ?bs\<rparr> = dm_page d i"
    using b by (intro canon_eqI) (auto simp: canon_def put_def dm_page_def)
  then have "readPage d (int i) b = Inr (dm_page d i, d)"
    using m c r b by (simp add: readPage_def memcpy_to_def canon_def)
  with d show ?thesis by auto
qed

lemma readPage_unknown: "map_of (pages_table d) i = None \<Longrightarrow> readPage d i b = Inr (b, d)"
  by (simp add: readPage_def)

lemma Page_canon [simp]: "canon (Page i)"
  by (auto simp: canon_def Page_def Let_def zero_buf_def PAGE_SIZE_def set_defs set_bytes_def put_def)

lemma f_resize_grow:
  "flen f \<le> n \<Longrightarrow> flen (f_resize f n) = n" "flen f \<le> n \<Longrightarrow> i < flen f \<Longrightarrow> fdata (f_resize f n) i = fdata f i"
  "ffail (f_resize f n) = ffail f"
  by (simp_all add: f_resize_def)

lemma resizeFile_inv:
  assumes d: "dm_inv d n" and c: "in_i32 (2 * dm_capacity d * int PAGE_SIZE)"
  shows "\<exists>d'. resizeFile d = Inr d' \<and> dm_inv d' n \<and> (\<forall>i \<le> n. dm_page d' i = dm_page d i) \<and>
    dm_capacity d' = 2 * dm_capacity d \<and> tables_names d' = tables_names d"
proof -
  let ?d = "d\<lparr>dm_capacity := 2 * dm_capacity d, db_file := f_resize (db_file d) (nat (2 * dm_capacity d) * PAGE_SIZE)\<rparr>"
  have r: "resizeFile d = Inr ?d" using d c by (simp add: resizeFile_def dm_inv_def Let_def)
  have g: "flen (db_file d) \<le> nat (2 * dm_capacity d) * PAGE_SIZE"
  proof -
    have "nat (dm_capacity d) \<le> nat (2 * dm_capacity d)" using d by (simp add: dm_inv_def nat_mono)
    then show ?thesis using d by (simp add: dm_inv_def)
  qed
  have "dm_inv ?d n" using d c by (simp add: dm_inv_def f_resize_grow f_resize_def)
  moreover have "dm_page ?d i = dm_page d i" if "i \<le> n" for i
  proof (rule canon_eqI)
    fix k assume k: "k < PAGE_SIZE"
    have "i * PAGE_SIZE + k < flen (db_file d)" using file_bound[OF d that] k by simp
    then show "mem (dm_page ?d i) k = mem (dm_page d i) k" using g k by (simp add: f_resize_grow)
  qed simp_all
  ultimately show ?thesis using r by auto
qed

lemma allocatePage_inv:
  assumes d: "dm_inv d n" and c: "in_i32 (2 * dm_capacity d * int PAGE_SIZE)"
  shows "\<exists>d'. allocatePage d = Inr (Suc n * PAGE_SIZE, d') \<and> dm_inv d' (Suc n) \<and>
    (\<forall>i \<le> Suc n. dm_page d' i = (if i = Suc n then Page (int (Suc n)) else dm_page d i)) \<and>
    dm_capacity d' = (if int n + 1 \<ge> dm_capacity d then 2 * dm_capacity d else dm_capacity d) \<and>
    tables_names d' = tables_names d"
proof -
  define d1 where "d1 = (if int n + 1 \<ge> dm_capacity d then 2 * dm_capacity d else dm_capacity d)"
  have "dm_capacity d mod 2 ^ 64 = dm_capacity d" using d by (auto simp: dm_inv_def in_i32_def PAGE_SIZE_def)
  moreover obtain e where e: "(if int n + 1 \<ge> dm_capacity d then resizeFile d else Inr d) = Inr e"
    "dm_inv e n" "\<forall>i \<le> n. dm_page e i = dm_page d i" "dm_capacity e = d1" "tables_names e = tables_names d"
    using resizeFile_inv[OF d c] d by (cases "int n + 1 \<ge> dm_capacity d") (auto simp: d1_def)
  moreover have cap: "int n + 1 < dm_capacity e" "deleted_slots d = []" "length (pages_table d) = n"
    using d e(4) by (auto simp: dm_inv_def d1_def)
  let ?p = "int n + 1" and ?o = "Suc n * PAGE_SIZE"
  let ?d = "e\<lparr>db_file := f_write (db_file e) ?o (peek (mem (Page ?p)) 0 PAGE_SIZE), pages_table := AList.update ?p ?o (pages_table e)\<rparr>"
  have i32: "in_i32 (?p * int PAGE_SIZE)"
  proof -
    have "?p * int PAGE_SIZE \<le> dm_capacity e * int PAGE_SIZE" using cap by (intro mult_right_mono) auto
    moreover have "0 \<le> ?p * int PAGE_SIZE" by simp
    ultimately show ?thesis using e(2) unfolding dm_inv_def in_i32_def by linarith
  qed
  have no: "nat ?p * PAGE_SIZE = ?o" by (simp add: nat_add_distrib)
  have le: "length (pages_table e) = n" using e(2) by (simp add: dm_inv_def)
  ultimately have al: "allocatePage d = Inr (?o, ?d)"
    using cap i32 no le unfolding allocatePage_def by (simp add: Let_def)
  have fresh: "?p \<notin> fst ` set (pages_table e)"
  proof -
    have "map_of (pages_table e) ?p = None" using e(2) by (simp add: dm_inv_def)
    then show ?thesis by (simp add: map_of_eq_None_iff)
  qed
  have bound: "?o + PAGE_SIZE \<le> flen (db_file e)"
  proof -
    have "Suc (Suc n) * PAGE_SIZE \<le> nat (dm_capacity e) * PAGE_SIZE" using cap by (intro mult_le_mono1) linarith
    then show ?thesis using e(2) by (simp add: dm_inv_def)
  qed
  have "dm_inv ?d (Suc n)"
    using e(2) fresh cap bound
    by (auto simp: dm_inv_def distinct_update length_update f_write_def max_def fun_eq_iff nat_add_distrib)
  moreover have "dm_page ?d i = (if i = Suc n then Page ?p else dm_page e i)" for i
    using e(2) by (intro dm_page_write) (auto simp: dm_inv_def)
  ultimately show ?thesis using al e by (intro exI[of _ ?d]) (auto simp: d1_def add.commute)
qed

lemma dm_inv_entries:
  assumes "dm_inv d n"
  shows "\<forall>e \<in> set (pages_table d). entry_ok e"
proof
  fix e assume "e \<in> set (pages_table d)"
  then have "map_of (pages_table d) (fst e) = Some (snd e)"
    using assms by (intro map_of_is_SomeI) (simp_all add: dm_inv_def)
  moreover have m: "map_of (pages_table d) (fst e) =
      (if 1 \<le> fst e \<and> fst e \<le> int n then Some (nat (fst e) * PAGE_SIZE) else None)"
    using assms by (simp add: dm_inv_def)
  ultimately have "(if 1 \<le> fst e \<and> fst e \<le> int n then Some (nat (fst e) * PAGE_SIZE) else None) = Some (snd e)"
    by simp
  then have e: "1 \<le> fst e" "fst e \<le> int n" "snd e = nat (fst e) * PAGE_SIZE"
    by (auto split: if_splits)
  have "nat (fst e) * PAGE_SIZE \<le> nat (dm_capacity d) * PAGE_SIZE"
    using e assms by (intro mult_le_mono1) (auto simp: dm_inv_def)
  moreover have "dm_capacity d * 4096 < 2 ^ 31" using assms by (simp add: dm_inv_def in_i32_def PAGE_SIZE_def)
  moreover have "dm_capacity d < 2 ^ 31" using assms by (simp add: dm_inv_def in_i32_def PAGE_SIZE_def)
  ultimately show "entry_ok e" using e assms by (auto simp: entry_ok_def in_i32_def PAGE_SIZE_def dm_inv_def)
qed

definition tables_ok :: "dm \<Rightarrow> bool" where
  "tables_ok d \<longleftrightarrow> (\<forall>t \<in> set (tables_names d). table_ok t) \<and> distinct (map fst (tables_names d))"

lemma dm_inv_meta_ok: "dm_inv d n \<Longrightarrow> tables_ok d \<Longrightarrow> meta_ok d"
  using dm_inv_entries[of d n]
  by (auto simp: meta_ok_def tables_ok_def dm_inv_def in_i32_def PAGE_SIZE_def)

section \<open>Properties\<close>

definition meta_size :: "dm \<Rightarrow> nat" where
  "meta_size d = 16 + 12 * length (pages_table d) + seq_size table_size (tables_names d) + 8 * length (deleted_slots d)"

lemma disk_pages_reopen:
  assumes "dm_inv d n" "tables_ok d" "meta_size d \<le> PAGE_SIZE"
  shows "\<exists>d1 d2. dm_close d = Inr d1 \<and> DiskManager (Some (db_file d1)) = Inr d2 \<and> dm_inv d2 n \<and>
    pages_table d2 = pages_table d \<and> tables_names d2 = tables_names d \<and> deleted_slots d2 = deleted_slots d \<and>
    dm_capacity d2 = dm_capacity d \<and> (\<forall>i \<ge> 1. dm_page d2 i = dm_page d i)"
proof -
  let ?z = "meta_bytes d @ replicate (PAGE_SIZE - length (meta_bytes d)) 0"
  have c: "d\<lparr>db_file := f_clear (db_file d)\<rparr> = d" using assms(1) by (simp add: dm_inv_def f_clear_def)
  have ok: "meta_ok d" using assms dm_inv_meta_ok by blast
  have len: "length (meta_bytes d) \<le> PAGE_SIZE" using assms(3) by (simp add: length_meta_bytes meta_size_def)
  let ?f = "f_write (f_clear (db_file d)) 0 ?z"
  let ?d1 = "(counted d)\<lparr>db_file := ?f\<rparr>"
  have close: "dm_close d = Inr ?d1" using saveMetaData_bytes[OF ok] len by (simp add: dm_close_def c)
  have zl: "length ?z = PAGE_SIZE" using len by simp
  have fl: "PAGE_SIZE \<le> flen (db_file d)" using file_bound[OF assms(1), of 0] by simp
  have ff: "\<not> ffail (db_file d)" using assms(1) by (simp add: dm_inv_def)
  have f: "flen ?f = flen (db_file d)" "\<not> ffail ?f" "fdata ?f = put (fdata (db_file d)) 0 ?z"
    using ff fl zl by (simp_all add: f_write_def f_clear_def max_def)
  have mo: "meta_of_file (db_file (fresh_dm ?f)) d"
    using len f fl by (simp add: meta_of_file_def fresh_dm_def peek_put_prefix)
  let ?d2 = "(counted d)\<lparr>db_file := f_clear ?f, is_file_new := False\<rparr>"
  have load: "DiskManager (Some (db_file ?d1)) = Inr ?d2"
    using loadMetaData_back[OF ok mo] by (simp add: DiskManager_def) (simp add: fresh_dm_def)
  have fd: "fdata (db_file ?d2) = put (fdata (db_file d)) 0 ?z" "flen (db_file ?d2) = flen (db_file d)" "\<not> ffail (db_file ?d2)"
    using f by (simp_all add: f_clear_def)
  have "dm_page ?d2 i = dm_page d i" if "1 \<le> i" for i
  proof (rule canon_eqI)
    fix k assume "k < PAGE_SIZE"
    moreover have "PAGE_SIZE \<le> i * PAGE_SIZE" using that by (cases i) auto
    ultimately show "mem (dm_page ?d2 i) k = mem (dm_page d i) k" using fd(1) zl
      by (simp only: mem_dm_page put_outside trans_le_add1 add_0)
  qed simp_all
  moreover have "dm_inv ?d2 n" using assms(1) fd(2,3) by (simp add: dm_inv_def)
  ultimately show ?thesis using close load by auto
qed

text \<open>
  C39. Closing a database and opening it again restores the page directory, the table names, the free
  list and the capacity, keeps the content of every page, and establishes the disk invariant,
  whenever the metadata fits in the metadata page.
\<close>

theorem disk_reopen_restores:
  assumes "dm_inv d n" "tables_ok d" "meta_size d \<le> PAGE_SIZE"
  shows "\<exists>d1 d2. dm_close d = Inr d1 \<and> DiskManager (Some (db_file d1)) = Inr d2 \<and> dm_inv d2 n \<and>
    pages_table d2 = pages_table d \<and> tables_names d2 = tables_names d \<and> deleted_slots d2 = deleted_slots d \<and>
    dm_capacity d2 = dm_capacity d \<and> (\<forall>i \<ge> 1. dm_page d2 i = dm_page d i)"
  by (rule disk_pages_reopen[OF assms])

lemma new_disk:
  "\<exists>d. DiskManager None = Inr d \<and> dm_inv d 0 \<and> tables_names d = [] \<and> dm_capacity d = 100"
proof -
  let ?d = "(fresh_dm (f_resize \<lparr>flen = 0, fdata = (\<lambda>_. 0), ffail = False\<rparr> (nat FILE_CAPACITY * PAGE_SIZE)))\<lparr>is_file_new := True\<rparr>"
  have "meta_ok ?d" by (simp add: meta_ok_def fresh_dm_def in_i32_def FILE_CAPACITY_def)
  moreover have "length (meta_bytes ?d) = 16" by (simp add: length_meta_bytes fresh_dm_def)
  ultimately have "DiskManager None = Inr ((counted ?d)\<lparr>db_file := f_write (f_clear (db_file ?d)) 0
      (meta_bytes ?d @ replicate (PAGE_SIZE - length (meta_bytes ?d)) 0)\<rparr>)"
    using saveMetaData_bytes[of ?d] by (simp add: DiskManager_def PAGE_SIZE_def)
  then show ?thesis
    by (auto simp: dm_inv_def counted_def fresh_dm_def f_write_def f_clear_def f_resize_def FILE_CAPACITY_def
        PAGE_SIZE_def in_i32_def length_meta_bytes)
qed

lemma disk_reopen_restores_witness:
  "\<exists>d d1 d2. rbind (DiskManager None) (\<lambda>d. rbind (allocatePage d) (\<lambda>(_, d). Inr (addTable d ''users'' 1))) = Inr d \<and>
     dm_close d = Inr d1 \<and> DiskManager (Some (db_file d1)) = Inr d2 \<and> tables_names d2 = [(''users'', 1)] \<and>
     dm_page d2 1 = Page 1"
proof -
  obtain d where d: "DiskManager None = Inr d" "dm_inv d 0" "tables_names d = []" "dm_capacity d = 100"
    using new_disk by blast
  obtain e where e: "allocatePage d = Inr (Suc 0 * PAGE_SIZE, e)" "dm_inv e 1"
    "\<forall>i \<le> Suc 0. dm_page e i = (if i = Suc 0 then Page (int (Suc 0)) else dm_page d i)" "tables_names e = tables_names d"
    using allocatePage_inv[OF d(2)] d(4) by (auto simp: in_i32_def PAGE_SIZE_def)
  let ?e = "addTable e ''users'' 1"
  have t: "tables_names ?e = [(''users'', 1)]" "pages_table ?e = pages_table e" "deleted_slots ?e = deleted_slots e"
    using e(4) d(3) by (simp_all add: addTable_def)
  have i: "dm_inv ?e 1" "dm_page ?e 1 = Page 1"
  proof -
    have p: "db_file ?e = db_file e" "dm_capacity ?e = dm_capacity e" by (simp_all add: addTable_def)
    show "dm_inv ?e 1" using e(2) by (simp add: dm_inv_def t p)
    have "dm_page e 1 = Page 1" using e(3) by simp
    then show "dm_page ?e 1 = Page 1" using dm_page_cong[OF p(1)] by simp
  qed
  have ok: "tables_ok ?e" by (simp add: tables_ok_def t table_ok_def in_i32_def)
  have "meta_size ?e \<le> PAGE_SIZE"
    using e(2) by (simp add: meta_size_def t seq_size_def table_size_def dm_inv_def PAGE_SIZE_def)
  from disk_reopen_restores[OF i(1) ok this] show ?thesis
    using d(1) e(1) t i(2) by auto
qed

text \<open>
  C40. The metadata is collected in one local page: with 341 or more pages the destructor writes past
  that array, and nothing is saved.
\<close>

theorem disk_metadata_overflows:
  assumes "dm_inv d n" "tables_ok d" "341 \<le> n"
  shows "dm_close d = Inl Undefined"
proof -
  have c: "d\<lparr>db_file := f_clear (db_file d)\<rparr> = d" using assms(1) by (simp add: dm_inv_def f_clear_def)
  have "4096 < length (meta_bytes d)" using assms(1,3) by (simp add: length_meta_bytes dm_inv_def)
  then show ?thesis
    using saveMetaData_bytes[OF dm_inv_meta_ok[OF assms(1,2)]] by (simp add: dm_close_def c PAGE_SIZE_def)
qed

definition big_dm :: dm where
  "big_dm = \<lparr>dm_capacity = 400, dm_map_size = 0, dm_deleted_size = 0, dm_tables_number = 0,
     pages_table = map (\<lambda>i. (int i, i * PAGE_SIZE)) [1..<342], deleted_slots = [], tables_names = [],
     db_file = \<lparr>flen = 400 * PAGE_SIZE, fdata = (\<lambda>_. 0), ffail = False\<rparr>, is_file_new = False\<rparr>"

lemma disk_metadata_overflows_witness: "dm_close big_dm = Inl Undefined"
proof (rule disk_metadata_overflows)
  have m: "map_of (map (\<lambda>i. (int i, i * PAGE_SIZE)) xs) = (\<lambda>k. if 0 \<le> k \<and> nat k \<in> set xs then Some (nat k * PAGE_SIZE) else None)" for xs
    by (induction xs) (auto simp: fun_eq_iff)
  show "dm_inv big_dm 341"
    unfolding dm_inv_def big_dm_def dm.simps m
    by (auto simp: fun_eq_iff distinct_map inj_on_def comp_def in_i32_def PAGE_SIZE_def simp del: upt_rec_numeral)
  show "tables_ok big_dm" by (simp add: tables_ok_def big_dm_def del: upt_rec_numeral)
qed simp

text \<open>
  \<^verbatim>\<open>writePage\<close> of a page id the directory does not know, other than the next free one, registers
  the same file page under two ids: what is then written to the one is read from the other.
\<close>

theorem disk_unknown_page_aliases:
  assumes d: "dm_inv d n" and k: "int n + 1 < k" and c: "in_i32 (2 * dm_capacity d * int PAGE_SIZE)"
    and b: "canon b" "canon b'" "canon x"
  shows "\<exists>d1 d2 d3. writePage d k b = Inr d1 \<and> writePage d1 (int n + 1) b' = Inr d2 \<and> readPage d2 k x = Inr (b', d3)"
proof -
  have un: "map_of (pages_table d) k = None" using d k by (simp add: dm_inv_def)
  obtain e where e: "allocatePage d = Inr (Suc n * PAGE_SIZE, e)" "dm_inv e (Suc n)"
    using allocatePage_inv[OF d c] by blast
  let ?o = "Suc n * PAGE_SIZE" and ?bs = "peek (mem b) 0 PAGE_SIZE" and ?bs' = "peek (mem b') 0 PAGE_SIZE"
  let ?d1 = "e\<lparr>db_file := f_write (db_file e) ?o ?bs, pages_table := AList.update k ?o (pages_table e)\<rparr>"
  have w1: "writePage d k b = Inr ?d1"
    using un e(1) b by (simp add: writePage_def memcpy_from_def canon_def)
  let ?d2 = "?d1\<lparr>db_file := f_write (db_file ?d1) ?o ?bs', pages_table := AList.update (int n + 1) ?o (pages_table ?d1)\<rparr>"
  have m: "map_of (pages_table e) (int n + 1) = Some ?o" using e(2) by (simp add: dm_inv_def nat_add_distrib)
  have w2: "writePage ?d1 (int n + 1) b' = Inr ?d2"
    using m k b by (simp add: writePage_def memcpy_from_def canon_def)
  have fl: "?o + PAGE_SIZE \<le> flen (db_file e)" "\<not> ffail (db_file e)"
    using file_bound[OF e(2), of "Suc n"] e(2) by (auto simp: dm_inv_def)
  have "f_read (f_clear (db_file ?d2)) ?o PAGE_SIZE = (?bs', f_clear (db_file ?d2))"
    using fl by (auto simp: f_read_def f_clear_def f_write_def peek_put_prefix max_def)
  moreover have "x\<lparr>mem := put (mem x) 0 ?bs'\<rparr> = b'"
    using b(2,3) by (intro canon_eqI) (auto simp: canon_def put_def)
  moreover have "map_of (pages_table ?d2) k = Some ?o" using k by simp
  ultimately have "readPage ?d2 k x = Inr (b', ?d2\<lparr>db_file := f_clear (db_file ?d2)\<rparr>)"
    using b by (simp add: readPage_def memcpy_to_def canon_def del: mult_Suc)
  with w1 w2 show ?thesis by blast
qed

lemma disk_unknown_page_aliases_witness:
  "\<exists>d1 d2 d3. rbind (DiskManager None) (\<lambda>d. writePage d 100 (Page 100)) = Inr d1 \<and>
     writePage d1 1 (Page 1) = Inr d2 \<and> readPage d2 100 (Page 0) = Inr (Page 1, d3)"
proof -
  obtain d where d: "DiskManager None = Inr d" "dm_inv d 0" "dm_capacity d = 100" using new_disk by blast
  have "in_i32 (2 * dm_capacity d * int PAGE_SIZE)" by (simp add: d(3) in_i32_def PAGE_SIZE_def)
  from disk_unknown_page_aliases[OF d(2) _ this Page_canon[of 100] Page_canon[of 1] Page_canon[of 0], of 100] d(1)
  show ?thesis by simp
qed

end
