(* ===== verification/Lru_Cache.thy ===== *)
theory Lru_Cache imports DB_Prelude
begin

text \<open>
  \<^verbatim>\<open>LRU\<close> (src/Buffer/LRU_replacement.c++, Include/Buffer/LRU_replacement.h): the replacement policy of
  the buffer pool, a doubly linked list of \<^verbatim>\<open>Frame\<close> objects between two sentinels and a map from
  frame numbers to list nodes.

  The nodes live in a heap with one function per member, an address is a \<open>nat\<close>, a pointer a
  \<open>nat option\<close>, and following a null or freed pointer is \<open>Undefined\<close>. The refinement relates this to
  the list of the keys, most recently used first; the \<open>replacer\<close> locale is the contract the buffer
  pool relies on, interpreted on the pointer program.
\<close>

record lru =
  f_key :: "nat \<Rightarrow> int"
  f_value :: "nat \<Rightarrow> nat option"
  f_next :: "nat \<Rightarrow> nat option"
  f_prev :: "nat \<Rightarrow> nat option"
  f_live :: "nat \<Rightarrow> bool"
  f_brk :: nat
  D_head :: nat
  D_tail :: nat
  frames_map :: "(int \<times> nat) list"
  lru_capacity :: int

definition obj :: "lru \<Rightarrow> nat option \<Rightarrow> nat res" where
  "obj l p = (case p of None \<Rightarrow> Inl Undefined | Some a \<Rightarrow> if f_live l a then Inr a else Inl Undefined)"

definition get_next :: "lru \<Rightarrow> nat option \<Rightarrow> nat option res" where
  "get_next l p = rbind (obj l p) (\<lambda>a. Inr (f_next l a))"

definition get_prev :: "lru \<Rightarrow> nat option \<Rightarrow> nat option res" where
  "get_prev l p = rbind (obj l p) (\<lambda>a. Inr (f_prev l a))"

definition set_next :: "lru \<Rightarrow> nat option \<Rightarrow> nat option \<Rightarrow> lru res" where
  "set_next l p q = rbind (obj l p) (\<lambda>a. Inr (l\<lparr>f_next := (f_next l)(a := q)\<rparr>))"

definition set_prev :: "lru \<Rightarrow> nat option \<Rightarrow> nat option \<Rightarrow> lru res" where
  "set_prev l p q = rbind (obj l p) (\<lambda>a. Inr (l\<lparr>f_prev := (f_prev l)(a := q)\<rparr>))"

definition set_value :: "lru \<Rightarrow> nat option \<Rightarrow> nat option \<Rightarrow> lru res" where
  "set_value l p v = rbind (obj l p) (\<lambda>a. Inr (l\<lparr>f_value := (f_value l)(a := v)\<rparr>))"

text \<open>\<^verbatim>\<open>new Frame(key, value)\<close> and \<^verbatim>\<open>delete\<close>.\<close>

definition new_Frame :: "lru \<Rightarrow> int \<Rightarrow> nat option \<Rightarrow> lru \<times> nat" where
  "new_Frame l k v =
     (let a = f_brk l in
      (l\<lparr>f_key := (f_key l)(a := k), f_value := (f_value l)(a := v), f_next := (f_next l)(a := None),
         f_prev := (f_prev l)(a := None), f_live := (f_live l)(a := True), f_brk := a + 1\<rparr>, a))"

definition del_Frame :: "lru \<Rightarrow> nat option \<Rightarrow> lru res" where
  "del_Frame l p = rbind (obj l p) (\<lambda>a. Inr (l\<lparr>f_live := (f_live l)(a := False)\<rparr>))"

section \<open>Operations\<close>

definition LRU :: "int \<Rightarrow> lru" where
  "LRU n = \<lparr>f_key = (\<lambda>_. - 1), f_value = (\<lambda>_. None), f_next = (\<lambda>_. None)(0 := Some 1),
     f_prev = (\<lambda>_. None)(1 := Some 0), f_live = (\<lambda>a. a = 0 \<or> a = 1), f_brk = 2,
     D_head = 0, D_tail = 1, frames_map = [], lru_capacity = n\<rparr>"

text \<open>The two statements that take a node out of the list.\<close>

definition unlink :: "lru \<Rightarrow> nat option \<Rightarrow> lru res" where
  "unlink l c =
     rbind (get_prev l c) (\<lambda>p. rbind (get_next l c) (\<lambda>n.
     rbind (set_next l p n) (\<lambda>l.
     rbind (get_next l c) (\<lambda>n. rbind (get_prev l c) (\<lambda>p.
     set_prev l n p)))))"

definition put_frame :: "lru \<Rightarrow> int \<Rightarrow> nat option \<Rightarrow> lru res" where
  "put_frame l key v =
     (case map_of (frames_map l) key of
        Some c \<Rightarrow>
          rbind (set_value l (Some c) v) (\<lambda>l.
          rbind (unlink l (Some c)) (\<lambda>l.
          rbind (get_next l (Some (D_head l))) (\<lambda>head_next.
          rbind (set_prev l head_next (Some c)) (\<lambda>l.
          rbind (set_next l (Some c) head_next) (\<lambda>l.
          rbind (set_next l (Some (D_head l)) (Some c)) (\<lambda>l.
          set_prev l (Some c) (Some (D_head l))))))))
      | None \<Rightarrow>
          rbind (if int (length (frames_map l)) = lru_capacity l then
                   rbind (get_prev l (Some (D_tail l))) (\<lambda>d.
                   rbind (obj l d) (\<lambda>da.
                   let l = l\<lparr>frames_map := AList.delete (f_key l da) (frames_map l)\<rparr> in
                   rbind (get_prev l d) (\<lambda>p.
                   rbind (set_next l p (Some (D_tail l))) (\<lambda>l.
                   rbind (get_prev l d) (\<lambda>p.
                   rbind (set_prev l (Some (D_tail l)) p) (\<lambda>l.
                   del_Frame l d))))))
                 else Inr l) (\<lambda>l.
          let (l, c) = new_Frame l key v;
              l = l\<lparr>frames_map := AList.update key c (frames_map l)\<rparr> in
          rbind (get_next l (Some (D_head l))) (\<lambda>head_next.
          rbind (set_prev l head_next (Some c)) (\<lambda>l.
          rbind (set_next l (Some c) head_next) (\<lambda>l.
          rbind (set_next l (Some (D_head l)) (Some c)) (\<lambda>l.
          set_prev l (Some c) (Some (D_head l))))))))"

definition get_frame :: "lru \<Rightarrow> int \<Rightarrow> (nat option \<times> lru) res" where
  "get_frame l key =
     (case map_of (frames_map l) key of
        Some c \<Rightarrow>
          rbind (unlink l (Some c)) (\<lambda>l.
          rbind (get_next l (Some (D_head l))) (\<lambda>next_node.
          rbind (set_prev l next_node (Some c)) (\<lambda>l.
          rbind (set_prev l (Some c) (Some (D_head l))) (\<lambda>l.
          rbind (set_next l (Some (D_head l)) (Some c)) (\<lambda>l.
          rbind (set_next l (Some c) next_node) (\<lambda>l.
          Inr (f_value l c, l)))))))
      | None \<Rightarrow> Inr (None, l))"

definition evict_frame :: "lru \<Rightarrow> (int \<times> lru) res" where
  "evict_frame l =
     rbind (get_prev l (Some (D_tail l))) (\<lambda>e.
     if e = Some (D_head l) then Inr (- 1, l)
     else
       rbind (obj l e) (\<lambda>ea.
       let frame_id = f_key l ea;
           l = l\<lparr>frames_map := AList.delete frame_id (frames_map l)\<rparr> in
       rbind (get_prev l e) (\<lambda>p.
       rbind (set_next l p (Some (D_tail l))) (\<lambda>l.
       rbind (get_prev l e) (\<lambda>p.
       rbind (set_prev l (Some (D_tail l)) p) (\<lambda>l.
       rbind (del_Frame l e) (\<lambda>l. Inr (frame_id, l))))))))"

text \<open>\<^verbatim>\<open>frames_map[key]\<close> of an absent key is a null pointer, which is then followed.\<close>

definition remove_frame :: "lru \<Rightarrow> int \<Rightarrow> lru res" where
  "remove_frame l key =
     rbind (obj l (map_of (frames_map l) key)) (\<lambda>c.
     let l = l\<lparr>frames_map := AList.delete (f_key l c) (frames_map l)\<rparr> in
     rbind (unlink l (Some c)) (\<lambda>l. del_Frame l (Some c)))"

section \<open>The list behind the pointers\<close>

text \<open>\<open>linked\<close>: every two neighbours of the list of addresses point to each other.\<close>

fun linked :: "(nat \<Rightarrow> nat option) \<Rightarrow> (nat \<Rightarrow> nat option) \<Rightarrow> nat list \<Rightarrow> bool" where
  "linked nx pv (a # b # xs) \<longleftrightarrow> nx a = Some b \<and> pv b = Some a \<and> linked nx pv (b # xs)"
| "linked nx pv _ \<longleftrightarrow> True"

lemma linked_append: "linked nx pv (xs @ a # ys) \<longleftrightarrow> linked nx pv (xs @ [a]) \<and> linked nx pv (a # ys)"
proof (induction xs)
  case (Cons x xs)
  then show ?case by (cases xs) auto
qed simp

lemma linked_frame:
  "(\<And>a. a \<in> set (butlast xs) \<Longrightarrow> nx' a = nx a) \<Longrightarrow> (\<And>a. a \<in> set (tl xs) \<Longrightarrow> pv' a = pv a) \<Longrightarrow>
   linked nx pv xs \<Longrightarrow> linked nx' pv' xs"
proof (induction xs rule: induct_list012)
  case (3 a b xs)
  then show ?case by (auto split: if_splits)
qed auto

lemma linked_frame_set:
  "linked nx pv xs \<Longrightarrow> (\<And>a. a \<in> set xs \<Longrightarrow> nx' a = nx a) \<Longrightarrow> (\<And>a. a \<in> set (tl xs) \<Longrightarrow> pv' a = pv a) \<Longrightarrow>
   linked nx' pv' xs"
  by (rule linked_frame[of xs nx' nx pv' pv]) (auto dest: in_set_butlastD)

lemma linked_unlink:
  assumes "linked nx pv (xs @ p # c # n # ys)" "distinct (xs @ p # c # n # ys)"
  shows "linked (nx(p := Some n)) (pv(n := Some p)) (xs @ p # n # ys)"
proof -
  from assms(1) have parts: "linked nx pv (xs @ [p])" "linked nx pv (n # ys)"
    using linked_append[of nx pv xs p "c # n # ys"] by auto
  have "linked (nx(p := Some n)) (pv(n := Some p)) (xs @ [p])"
    using assms(2) by (intro linked_frame[OF _ _ parts(1)]) (auto simp: tl_append split: list.splits)
  moreover have "linked (nx(p := Some n)) (pv(n := Some p)) (n # ys)"
    using assms(2) by (intro linked_frame_set[OF parts(2)]) auto
  ultimately show ?thesis
    using linked_append[of "nx(p := Some n)" "pv(n := Some p)" xs p "n # ys"] by simp
qed

lemma linked_push:
  assumes "linked nx pv (h # n # ys)" "c \<notin> set (h # n # ys)" "distinct (h # n # ys)"
  shows "linked (nx(c := Some n, h := Some c)) (pv(n := Some c, c := Some h)) (h # c # n # ys)"
proof -
  have "linked (nx(c := Some n, h := Some c)) (pv(n := Some c, c := Some h)) (n # ys)"
  proof (rule linked_frame_set)
    show "linked nx pv (n # ys)" using assms(1) by simp
  qed (use assms in auto)
  with assms show ?thesis by auto
qed

text \<open>\<open>dll l as\<close>: the addresses between the sentinels, in list order, all of them live.\<close>

definition dlist :: "lru \<Rightarrow> nat list \<Rightarrow> bool" where
  "dlist l xs \<longleftrightarrow> linked (f_next l) (f_prev l) xs \<and> distinct xs \<and> (\<forall>a \<in> set xs. f_live l a \<and> a < f_brk l)"

definition dll :: "lru \<Rightarrow> nat list \<Rightarrow> bool" where
  "dll l as \<longleftrightarrow> dlist l (D_head l # as @ [D_tail l])"

lemma dll_upd:
  "dll (l\<lparr>f_next := nx, f_prev := pv\<rparr>) as = dlist (l\<lparr>f_next := nx, f_prev := pv\<rparr>) (D_head l # as @ [D_tail l])"
  by (simp add: dll_def)

lemma dlist_unlink:
  "dlist l (us @ p # c # n # vs) \<Longrightarrow>
   dlist (l\<lparr>f_next := (f_next l)(p := Some n), f_prev := (f_prev l)(n := Some p)\<rparr>) (us @ p # n # vs)"
  using linked_unlink[of "f_next l" "f_prev l" us p c n vs] by (simp add: dlist_def)

lemma dlist_push:
  "dlist l (h # n # ys) \<Longrightarrow> c \<notin> set (h # n # ys) \<Longrightarrow> f_live l c \<Longrightarrow> c < f_brk l \<Longrightarrow>
   dlist (l\<lparr>f_next := (f_next l)(c := Some n, h := Some c), f_prev := (f_prev l)(n := Some c, c := Some h)\<rparr>)
     (h # c # n # ys)"
  using linked_push[of "f_next l" "f_prev l" h n ys c] by (simp add: dlist_def)

lemma linked_at:
  assumes "linked nx pv (us @ p # c # vs)"
  shows "nx p = Some c" "pv c = Some p"
  using assms linked_append[of nx pv us p "c # vs"] by auto

lemma dll_around:
  assumes "dll l (xs @ c # ys)"
  obtains us p n vs where "D_head l # xs = us @ [p]" "ys @ [D_tail l] = n # vs"
    "dlist l (us @ p # c # n # vs)" "distinct (us @ p # c # n # vs)" "f_live l p" "f_live l c" "f_live l n"
    "f_next l p = Some c" "f_next l c = Some n" "f_prev l c = Some p" "f_prev l n = Some c"
proof -
  obtain us p where u: "D_head l # xs = us @ [p]" by (metis list.distinct(1) rev_exhaust)
  obtain n vs where v: "ys @ [D_tail l] = n # vs" by (cases "ys @ [D_tail l]") auto
  have e: "D_head l # (xs @ c # ys) @ [D_tail l] = us @ p # c # n # vs" using u v by simp
  have k: "dlist l (us @ p # c # n # vs)" using assms unfolding dll_def e .
  then have m: "linked (f_next l) (f_prev l) (us @ p # c # n # vs)"
    "linked (f_next l) (f_prev l) ((us @ [p]) @ c # n # vs)" by (simp_all add: dlist_def)
  show ?thesis
    using that[OF u v k] k linked_at[OF m(1)] linked_at[OF m(2)] by (auto simp: dlist_def)
qed

lemma unlink_dll:
  assumes "dll l (xs @ c # ys)"
  shows "\<exists>nx pv. unlink l (Some c) = Inr (l\<lparr>f_next := nx, f_prev := pv\<rparr>) \<and>
    dll (l\<lparr>f_next := nx, f_prev := pv\<rparr>) (xs @ ys)"
proof -
  obtain us p n vs where a: "D_head l # xs = us @ [p]" "ys @ [D_tail l] = n # vs"
    "dlist l (us @ p # c # n # vs)" "distinct (us @ p # c # n # vs)" "f_live l p" "f_live l c" "f_live l n"
    "f_next l p = Some c" "f_next l c = Some n" "f_prev l c = Some p" "f_prev l n = Some c"
    using dll_around[OF assms] by blast
  let ?l = "l\<lparr>f_next := (f_next l)(p := Some n), f_prev := (f_prev l)(n := Some p)\<rparr>"
  have e: "D_head l # (xs @ ys) @ [D_tail l] = us @ p # n # vs" using a(1,2) by simp
  have "unlink l (Some c) = Inr ?l"
    using a by (simp add: unlink_def get_prev_def get_next_def set_next_def set_prev_def obj_def)
  moreover have "dll ?l (xs @ ys)"
    using dlist_unlink[OF a(3)] e by (simp add: dll_def)
  ultimately show ?thesis by blast
qed

lemma unlink_last_dll:
  assumes "dll l (xs @ [c])"
  shows "\<exists>p nx pv. get_prev l (Some (D_tail l)) = Inr (Some c) \<and> c \<noteq> D_head l \<and>
    (\<forall>fm. get_prev (l\<lparr>frames_map := fm\<rparr>) (Some c) = Inr p \<and>
     rbind (set_next (l\<lparr>frames_map := fm\<rparr>) p (Some (D_tail l))) (\<lambda>l.
       rbind (get_prev l (Some c)) (\<lambda>p. set_prev l (Some (D_tail l)) p))
     = Inr (l\<lparr>frames_map := fm, f_next := nx, f_prev := pv\<rparr>)) \<and>
    dll (l\<lparr>f_next := nx, f_prev := pv\<rparr>) xs"
proof -
  obtain us p where a: "D_head l # xs = us @ [p]"
    "dlist l (us @ p # c # D_tail l # [])" "distinct (us @ p # c # D_tail l # [])"
    "f_live l p" "f_live l c" "f_live l (D_tail l)"
    "f_next l p = Some c" "f_next l c = Some (D_tail l)" "f_prev l c = Some p" "f_prev l (D_tail l) = Some c"
    using dll_around[of l xs c "[]"] assms by (metis append_Nil append_self_conv2 list.inject)
  let ?nx = "(f_next l)(p := Some (D_tail l))" and ?pv = "(f_prev l)(D_tail l := Some p)"
  have e: "D_head l # xs @ [D_tail l] = us @ p # [D_tail l]" using a(1) by simp
  have "dll (l\<lparr>f_next := ?nx, f_prev := ?pv\<rparr>) xs"
    unfolding dll_upd e by (rule dlist_unlink[OF a(2)])
  moreover have "c \<noteq> D_head l" using assms by (auto simp: dll_def dlist_def)
  ultimately show ?thesis
    using a by (intro exI[of _ "Some p"] exI[of _ ?nx] exI[of _ ?pv])
      (simp add: get_prev_def set_next_def set_prev_def obj_def)
qed

text \<open>The four statements that put a node behind the head, in the two orders the code uses.\<close>

lemma push_dll:
  assumes "dll l as" "c \<notin> set (D_head l # as @ [D_tail l])" "f_live l c" "c < f_brk l"
  shows "\<exists>n nx pv. get_next l (Some (D_head l)) = Inr n \<and>
    rbind (set_prev l n (Some c)) (\<lambda>l. rbind (set_next l (Some c) n) (\<lambda>l.
      rbind (set_next l (Some (D_head l)) (Some c)) (\<lambda>l. set_prev l (Some c) (Some (D_head l)))))
    = Inr (l\<lparr>f_next := nx, f_prev := pv\<rparr>) \<and>
    rbind (set_prev l n (Some c)) (\<lambda>l. rbind (set_prev l (Some c) (Some (D_head l))) (\<lambda>l.
      rbind (set_next l (Some (D_head l)) (Some c)) (\<lambda>l. set_next l (Some c) n)))
    = Inr (l\<lparr>f_next := nx, f_prev := pv\<rparr>) \<and>
    dll (l\<lparr>f_next := nx, f_prev := pv\<rparr>) (c # as)"
proof -
  obtain n ys where n: "as @ [D_tail l] = n # ys" by (cases "as @ [D_tail l]") auto
  let ?nx = "(f_next l)(c := Some n, D_head l := Some c)"
  let ?pv = "(f_prev l)(n := Some c, c := Some (D_head l))"
  have k: "dlist l (D_head l # n # ys)" "c \<notin> set (D_head l # n # ys)"
    using assms(1,2) unfolding dll_def n by blast+
  have "dll (l\<lparr>f_next := ?nx, f_prev := ?pv\<rparr>) (c # as)"
    using dlist_push[OF k assms(3,4)] n by (simp add: dll_def)
  moreover have "f_next l (D_head l) = Some n" "f_live l (D_head l)" "f_live l n" "D_head l \<noteq> n"
    using k(1) by (simp_all add: dlist_def)
  ultimately show ?thesis
    using k(2) assms(3) by (intro exI[of _ "Some n"] exI[of _ ?nx] exI[of _ ?pv])
      (auto simp: get_next_def set_next_def set_prev_def obj_def fun_upd_twist)
qed

text \<open>
  \<open>lru_rep l ks\<close>: the list from \<^verbatim>\<open>D_head\<close> to \<^verbatim>\<open>D_tail\<close> holds the keys \<open>ks\<close>, and the map sends each
  key to its node.
\<close>

definition lru_nodes :: "lru \<Rightarrow> nat list \<Rightarrow> bool" where
  "lru_nodes l as \<longleftrightarrow> dll l as \<and> distinct (map (f_key l) as) \<and> distinct (map fst (frames_map l)) \<and>
     (\<forall>k a. map_of (frames_map l) k = Some a \<longleftrightarrow> a \<in> set as \<and> f_key l a = k)"

definition lru_rep :: "lru \<Rightarrow> int list \<Rightarrow> bool" where
  "lru_rep l ks \<longleftrightarrow> (\<exists>as. lru_nodes l as \<and> map (f_key l) as = ks)"

lemma LRU_rep: "lru_rep (LRU n) []"
  by (auto simp: lru_rep_def lru_nodes_def dll_def dlist_def LRU_def)

lemma rep_distinct: "lru_rep l ks \<Longrightarrow> distinct ks"
  by (auto simp: lru_rep_def lru_nodes_def)

lemma rep_mem: "lru_rep l ks \<Longrightarrow> k \<in> set ks \<longleftrightarrow> map_of (frames_map l) k \<noteq> None"
  by (auto simp: lru_rep_def lru_nodes_def)

lemma lru_nodesD:
  assumes "lru_nodes l as"
  shows "dll l as" "distinct (map (f_key l) as)" "distinct (map fst (frames_map l))"
    "\<And>k a. map_of (frames_map l) k = Some a \<longleftrightarrow> a \<in> set as \<and> f_key l a = k"
  using assms by (auto simp: lru_nodes_def)

lemma dll_simps [simp]:
  "dll (l\<lparr>f_next := nx, f_prev := pv, frames_map := fm\<rparr>) as = dll (l\<lparr>f_next := nx, f_prev := pv\<rparr>) as"
  "dll (l\<lparr>frames_map := fm, f_next := nx, f_prev := pv\<rparr>) as = dll (l\<lparr>f_next := nx, f_prev := pv\<rparr>) as"
  "dll (l\<lparr>frames_map := fm\<rparr>) as = dll l as" "dll (l\<lparr>f_value := vs\<rparr>) as = dll l as"
  by (simp_all add: dll_def dlist_def)

lemma dll_members:
  "dll l as \<Longrightarrow> a \<in> set as \<Longrightarrow> f_live l a \<and> a < f_brk l \<and> a \<noteq> D_head l \<and> a \<noteq> D_tail l"
  "dll l as \<Longrightarrow> distinct as" "dll l as \<Longrightarrow> f_live l (D_head l) \<and> f_live l (D_tail l)"
  by (auto simp: dll_def dlist_def)

lemma dll_kill:
  "dll l as \<Longrightarrow> c \<notin> set (D_head l # as @ [D_tail l]) \<Longrightarrow> dll (l\<lparr>f_live := (f_live l)(c := False)\<rparr>) as"
  by (auto simp: dll_def dlist_def)

lemma get_frame_nodes:
  assumes n: "lru_nodes l (xs @ c # ys)"
  shows "\<exists>l'. get_frame l (f_key l c) = Inr (f_value l c, l') \<and> lru_nodes l' (c # xs @ ys) \<and>
    f_key l' = f_key l \<and> f_value l' = f_value l \<and> lru_capacity l' = lru_capacity l"
proof -
  have m: "map_of (frames_map l) (f_key l c) = Some c" using lru_nodesD(4)[OF n] by simp
  obtain nx pv where u: "unlink l (Some c) = Inr (l\<lparr>f_next := nx, f_prev := pv\<rparr>)"
    "dll (l\<lparr>f_next := nx, f_prev := pv\<rparr>) (xs @ ys)" using unlink_dll lru_nodesD(1)[OF n] by blast
  let ?l = "l\<lparr>f_next := nx, f_prev := pv\<rparr>"
  have c: "c \<notin> set (D_head ?l # (xs @ ys) @ [D_tail ?l])" "f_live ?l c" "c < f_brk ?l"
    using lru_nodesD(1)[OF n] by (auto simp: dll_def dlist_def)
  obtain nn nx' pv' where p: "get_next ?l (Some (D_head ?l)) = Inr nn"
    "rbind (set_prev ?l nn (Some c)) (\<lambda>l. rbind (set_prev l (Some c) (Some (D_head l))) (\<lambda>l.
      rbind (set_next l (Some (D_head l)) (Some c)) (\<lambda>l. set_next l (Some c) nn)))
    = Inr (?l\<lparr>f_next := nx', f_prev := pv'\<rparr>)"
    "dll (?l\<lparr>f_next := nx', f_prev := pv'\<rparr>) (c # xs @ ys)" using push_dll[OF u(2) c] by blast
  have "get_frame l (f_key l c) = Inr (f_value l c, l\<lparr>f_next := nx', f_prev := pv'\<rparr>)"
    using m u(1) p(1) p(2)
    by (simp add: get_frame_def) (simp add: rbind_assoc[symmetric])
  moreover have "lru_nodes (l\<lparr>f_next := nx', f_prev := pv'\<rparr>) (c # xs @ ys)"
    using p(3) lru_nodesD[OF n] by (auto simp: lru_nodes_def)
  ultimately show ?thesis by auto
qed

text \<open>A node's fields other than the links do not matter for the list.\<close>

lemma dll_key_value [simp]:
  "dll (l\<lparr>f_key := ks\<rparr>) as = dll l as" "dll (l\<lparr>f_value := vs, f_next := nx, f_prev := pv\<rparr>) as = dll (l\<lparr>f_next := nx, f_prev := pv\<rparr>) as"
  by (simp_all add: dll_def dlist_def)

lemma get_prev_frames_map [simp]:
  "get_prev (l\<lparr>frames_map := fm\<rparr>) p = get_prev l p" "obj (l\<lparr>frames_map := fm\<rparr>) p = obj l p"
  by (simp_all add: get_prev_def obj_def split: option.split)

text \<open>Taking out the last node, with the map entry and the object.\<close>

definition drop_last :: "lru \<Rightarrow> nat option \<Rightarrow> lru res" where
  "drop_last l d =
     rbind (get_prev l d) (\<lambda>p. rbind (set_next l p (Some (D_tail l))) (\<lambda>l.
     rbind (get_prev l d) (\<lambda>p. rbind (set_prev l (Some (D_tail l)) p) (\<lambda>l. del_Frame l d))))"

lemma drop_last_nodes:
  assumes n: "lru_nodes l (xs @ [c])"
  shows "\<exists>l'. get_prev l (Some (D_tail l)) = Inr (Some c) \<and> c \<noteq> D_head l \<and> f_live l c \<and>
    drop_last (l\<lparr>frames_map := AList.delete (f_key l c) (frames_map l)\<rparr>) (Some c) = Inr l' \<and>
    lru_nodes l' xs \<and> f_key l' = f_key l \<and> f_value l' = f_value l \<and> lru_capacity l' = lru_capacity l \<and>
    frames_map l' = AList.delete (f_key l c) (frames_map l)"
proof -
  let ?fm = "AList.delete (f_key l c) (frames_map l)"
  obtain p nx pv where u: "get_prev l (Some (D_tail l)) = Inr (Some c)" "c \<noteq> D_head l"
    "\<And>fm. get_prev (l\<lparr>frames_map := fm\<rparr>) (Some c) = Inr p"
    "\<And>fm. rbind (set_next (l\<lparr>frames_map := fm\<rparr>) p (Some (D_tail l))) (\<lambda>l.
       rbind (get_prev l (Some c)) (\<lambda>p. set_prev l (Some (D_tail l)) p))
     = Inr (l\<lparr>frames_map := fm, f_next := nx, f_prev := pv\<rparr>)"
    "dll (l\<lparr>f_next := nx, f_prev := pv\<rparr>) xs"
    using unlink_last_dll lru_nodesD(1)[OF n] by meson
  have c: "f_live l c" "c \<notin> set (D_head l # xs @ [D_tail l])"
    using lru_nodesD(1)[OF n] by (auto simp: dll_def dlist_def)
  let ?l1 = "l\<lparr>frames_map := ?fm, f_next := nx, f_prev := pv\<rparr>"
  let ?l' = "?l1\<lparr>f_live := (f_live l)(c := False)\<rparr>"
  have r: "rbind (rbind (set_next (l\<lparr>frames_map := ?fm\<rparr>) p (Some (D_tail l))) (\<lambda>l.
       rbind (get_prev l (Some c)) (\<lambda>p. set_prev l (Some (D_tail l)) p))) (\<lambda>l. del_Frame l (Some c)) = Inr ?l'"
    unfolding u(4) using c(1) by (simp add: del_Frame_def obj_def)
  have tail: "D_tail l' = D_tail l" if "set_next (l\<lparr>frames_map := ?fm\<rparr>) p q = Inr l'" for l' q
    using that by (auto simp: set_next_def obj_def split: option.splits if_splits)
  have "drop_last (l\<lparr>frames_map := ?fm\<rparr>) (Some c) = Inr ?l'"
    using r u(3)[of ?fm]
    by (auto simp: drop_last_def rbind_assoc rbind_eq_Inr dest!: tail)
  moreover have "dll ?l' xs"
    using dll_kill[of ?l1 xs c] u(5) c(2) by simp
  moreover have "\<And>k a. map_of ?fm k = Some a \<longleftrightarrow> a \<in> set xs \<and> f_key l a = k"
    using lru_nodesD(2,4)[OF n] by (auto simp: image_iff)
  ultimately show ?thesis
    using u(1,2) c(1) lru_nodesD(2,3)[OF n]
    by (intro exI[of _ ?l']) (auto simp: lru_nodes_def distinct_delete)
qed

lemma push_nodes:
  assumes d: "dll l as" and c: "c \<notin> set (D_head l # as @ [D_tail l])" "f_live l c" "c < f_brk l"
  shows "\<exists>nx pv. rbind (get_next l (Some (D_head l))) (\<lambda>head_next.
      rbind (set_prev l head_next (Some c)) (\<lambda>l. rbind (set_next l (Some c) head_next) (\<lambda>l.
      rbind (set_next l (Some (D_head l)) (Some c)) (\<lambda>l. set_prev l (Some c) (Some (D_head l))))))
    = Inr (l\<lparr>f_next := nx, f_prev := pv\<rparr>) \<and> dll (l\<lparr>f_next := nx, f_prev := pv\<rparr>) (c # as)"
proof -
  obtain n nx pv where "get_next l (Some (D_head l)) = Inr n"
    "rbind (set_prev l n (Some c)) (\<lambda>l. rbind (set_next l (Some c) n) (\<lambda>l.
      rbind (set_next l (Some (D_head l)) (Some c)) (\<lambda>l. set_prev l (Some c) (Some (D_head l)))))
    = Inr (l\<lparr>f_next := nx, f_prev := pv\<rparr>)" "dll (l\<lparr>f_next := nx, f_prev := pv\<rparr>) (c # as)"
    using push_dll[OF assms] by blast
  then show ?thesis by (intro exI[of _ nx] exI[of _ pv]) simp
qed

lemma put_frame_hit:
  assumes n: "lru_nodes l (xs @ c # ys)"
  shows "\<exists>l'. put_frame l (f_key l c) v = Inr l' \<and> lru_nodes l' (c # xs @ ys) \<and>
    f_key l' = f_key l \<and> lru_capacity l' = lru_capacity l"
proof -
  have m: "map_of (frames_map l) (f_key l c) = Some c" using lru_nodesD(4)[OF n] by simp
  have live: "f_live l c" using lru_nodesD(1)[OF n] by (simp add: dll_def dlist_def)
  let ?l0 = "l\<lparr>f_value := (f_value l)(c := v)\<rparr>"
  have sv: "set_value l (Some c) v = Inr ?l0" using live by (simp add: set_value_def obj_def)
  have "dll ?l0 (xs @ c # ys)" using lru_nodesD(1)[OF n] by simp
  then obtain nx pv where u: "unlink ?l0 (Some c) = Inr (?l0\<lparr>f_next := nx, f_prev := pv\<rparr>)"
    "dll (?l0\<lparr>f_next := nx, f_prev := pv\<rparr>) (xs @ ys)" using unlink_dll by blast
  let ?l = "?l0\<lparr>f_next := nx, f_prev := pv\<rparr>"
  have c: "c \<notin> set (D_head ?l # (xs @ ys) @ [D_tail ?l])" "f_live ?l c" "c < f_brk ?l"
    using lru_nodesD(1)[OF n] by (auto simp: dll_def dlist_def)
  obtain nx' pv' where p: "rbind (get_next ?l (Some (D_head ?l))) (\<lambda>head_next.
      rbind (set_prev ?l head_next (Some c)) (\<lambda>l. rbind (set_next l (Some c) head_next) (\<lambda>l.
      rbind (set_next l (Some (D_head l)) (Some c)) (\<lambda>l. set_prev l (Some c) (Some (D_head l))))))
    = Inr (?l\<lparr>f_next := nx', f_prev := pv'\<rparr>)" "dll (?l\<lparr>f_next := nx', f_prev := pv'\<rparr>) (c # xs @ ys)"
    using push_nodes[OF u(2) c] by blast
  have "put_frame l (f_key l c) v = Inr (?l\<lparr>f_next := nx', f_prev := pv'\<rparr>)"
    using m sv u(1) p(1) by (simp add: put_frame_def)
  moreover have "lru_nodes (?l\<lparr>f_next := nx', f_prev := pv'\<rparr>) (c # xs @ ys)"
    using p(2) lru_nodesD(2-4)[OF n] by (auto simp: lru_nodes_def)
  ultimately show ?thesis by auto
qed

lemma put_frame_new:
  assumes n: "lru_nodes l as" and k: "k \<notin> f_key l ` set as" and room: "int (length as) \<noteq> lru_capacity l"
  shows "\<exists>l' c. put_frame l k v = Inr l' \<and> lru_nodes l' (c # as) \<and> f_key l' = (f_key l)(c := k) \<and>
    c \<notin> set as \<and> lru_capacity l' = lru_capacity l"
proof -
  have fresh: "k \<notin> fst ` set (frames_map l)"
    using k lru_nodesD(4)[OF n] by (metis image_iff map_of_eq_None_iff not_None_eq)
  then have m: "map_of (frames_map l) k = None" by (simp add: map_of_eq_None_iff)
  have len: "length (frames_map l) = length as"
  proof -
    have "dom (map_of (frames_map l)) = f_key l ` set as"
      using lru_nodesD(4)[OF n] by (force simp: dom_def)
    then have "fst ` set (frames_map l) = f_key l ` set as" by (simp add: dom_map_of_conv_image_fst)
    then show ?thesis
      using distinct_card[OF lru_nodesD(3)[OF n]] distinct_card[OF lru_nodesD(2)[OF n]] by simp
  qed
  let ?c = "f_brk l"
  let ?l = "(fst (new_Frame l k v))\<lparr>frames_map := AList.update k ?c (frames_map l)\<rparr>"
  have c: "?c \<notin> set (D_head l # as @ [D_tail l])"
    using lru_nodesD(1)[OF n] by (auto simp: dll_def dlist_def)
  have d: "dll ?l as"
    using lru_nodesD(1)[OF n] c
    by (auto simp: new_Frame_def Let_def dll_def dlist_def less_Suc_eq
        intro!: linked_frame_set[of "f_next l" "f_prev l" "D_head l # as @ [D_tail l]"])
  have c': "?c \<notin> set (D_head ?l # as @ [D_tail ?l])" "f_live ?l ?c" "?c < f_brk ?l"
    using c by (auto simp: new_Frame_def Let_def)
  obtain nx pv where p: "rbind (get_next ?l (Some (D_head ?l))) (\<lambda>head_next.
      rbind (set_prev ?l head_next (Some ?c)) (\<lambda>l. rbind (set_next l (Some ?c) head_next) (\<lambda>l.
      rbind (set_next l (Some (D_head l)) (Some ?c)) (\<lambda>l. set_prev l (Some ?c) (Some (D_head l))))))
    = Inr (?l\<lparr>f_next := nx, f_prev := pv\<rparr>)" "dll (?l\<lparr>f_next := nx, f_prev := pv\<rparr>) (?c # as)"
    using push_nodes[OF d c'] by blast
  have snd_new: "snd (new_Frame l k v) = ?c" "frames_map (fst (new_Frame l k v)) = frames_map l"
    by (simp_all add: new_Frame_def Let_def)
  have "put_frame l k v = Inr (?l\<lparr>f_next := nx, f_prev := pv\<rparr>)"
    using m room len p(1) snd_new by (simp add: put_frame_def Let_def split_beta)
  moreover have mk: "map (\<lambda>x. if x = ?c then k else f_key l x) as = map (f_key l) as"
    using c by (intro map_cong) auto
  moreover have "lru_nodes (?l\<lparr>f_next := nx, f_prev := pv\<rparr>) (?c # as)"
    using p(2) lru_nodesD(2-4)[OF n] k c mk
    by (auto simp: lru_nodes_def new_Frame_def Let_def distinct_update image_iff cong: map_cong)
  ultimately show ?thesis using c
    by (intro exI[of _ "?l\<lparr>f_next := nx, f_prev := pv\<rparr>"] exI[of _ ?c]) (auto simp: new_Frame_def Let_def)
qed

lemma evict_frame_nodes:
  assumes "lru_nodes l (xs @ [c])"
  shows "\<exists>l'. evict_frame l = Inr (f_key l c, l') \<and> lru_nodes l' xs \<and> f_key l' = f_key l \<and>
    lru_capacity l' = lru_capacity l"
proof -
  obtain l' where d: "get_prev l (Some (D_tail l)) = Inr (Some c)" "c \<noteq> D_head l" "f_live l c"
    "drop_last (l\<lparr>frames_map := AList.delete (f_key l c) (frames_map l)\<rparr>) (Some c) = Inr l'"
    "lru_nodes l' xs" "f_key l' = f_key l" "lru_capacity l' = lru_capacity l"
    using drop_last_nodes[OF assms] by blast
  have "evict_frame l = Inr (f_key l c, l')"
    using d by (auto simp: evict_frame_def obj_def drop_last_def Let_def rbind_eq_Inr)
  with d show ?thesis by blast
qed

lemma evict_frame_empty: "lru_nodes l [] \<Longrightarrow> evict_frame l = Inr (- 1, l)"
  by (auto simp: lru_nodes_def dll_def dlist_def evict_frame_def get_prev_def obj_def)

lemma remove_frame_nodes:
  assumes n: "lru_nodes l (xs @ c # ys)"
  shows "\<exists>l'. remove_frame l (f_key l c) = Inr l' \<and> lru_nodes l' (xs @ ys) \<and> f_key l' = f_key l \<and>
    lru_capacity l' = lru_capacity l"
proof -
  let ?fm = "AList.delete (f_key l c) (frames_map l)"
  have m: "map_of (frames_map l) (f_key l c) = Some c" using lru_nodesD(4)[OF n] by simp
  have d: "dll (l\<lparr>frames_map := ?fm\<rparr>) (xs @ c # ys)" using lru_nodesD(1)[OF n] by simp
  obtain nx pv where u: "unlink (l\<lparr>frames_map := ?fm\<rparr>) (Some c) = Inr (l\<lparr>frames_map := ?fm, f_next := nx, f_prev := pv\<rparr>)"
    "dll (l\<lparr>frames_map := ?fm, f_next := nx, f_prev := pv\<rparr>) (xs @ ys)"
    using unlink_dll[OF d] by blast
  have c: "f_live l c" "c \<notin> set (D_head l # (xs @ ys) @ [D_tail l])"
    using lru_nodesD(1)[OF n] by (auto simp: dll_def dlist_def)
  let ?l1 = "l\<lparr>frames_map := ?fm, f_next := nx, f_prev := pv\<rparr>"
  let ?l' = "?l1\<lparr>f_live := (f_live l)(c := False)\<rparr>"
  have "remove_frame l (f_key l c) = Inr ?l'"
    using m u(1) c(1) by (simp add: remove_frame_def del_Frame_def obj_def)
  moreover have "dll ?l' (xs @ ys)" using dll_kill[of ?l1 "xs @ ys" c] u(2) c(2) by simp
  moreover have "\<And>k a. map_of ?fm k = Some a \<longleftrightarrow> a \<in> set (xs @ ys) \<and> f_key l a = k"
    using lru_nodesD(2,4)[OF n] by (auto simp: image_iff)
  ultimately show ?thesis
    using lru_nodesD(2,3)[OF n] by (intro exI[of _ ?l']) (auto simp: lru_nodes_def distinct_delete)
qed

section \<open>The contract\<close>

text \<open>
  What the buffer pool needs of a replacement policy, over the list of keys in the order of their
  last use. \<open>rep l n ks\<close>: the policy of capacity \<open>n\<close> in state \<open>l\<close> holds the keys \<open>ks\<close>.
\<close>

locale replacer =
  fixes rep :: "'l \<Rightarrow> nat \<Rightarrow> int list \<Rightarrow> bool"
    and insert_key :: "'l \<Rightarrow> int \<Rightarrow> nat option \<Rightarrow> 'l res"
    and touch :: "'l \<Rightarrow> int \<Rightarrow> (nat option \<times> 'l) res"
    and evict :: "'l \<Rightarrow> (int \<times> 'l) res"
    and remove :: "'l \<Rightarrow> int \<Rightarrow> 'l res"
  assumes rep_distinct: "rep l n ks \<Longrightarrow> distinct ks"
    and insert_new: "rep l n ks \<Longrightarrow> k \<notin> set ks \<Longrightarrow> length ks < n \<Longrightarrow>
      \<exists>l'. insert_key l k v = Inr l' \<and> rep l' n (k # ks)"
    and insert_old: "rep l n ks \<Longrightarrow> k \<in> set ks \<Longrightarrow>
      \<exists>l'. insert_key l k v = Inr l' \<and> rep l' n (k # remove1 k ks)"
    and touch_hit: "rep l n ks \<Longrightarrow> k \<in> set ks \<Longrightarrow>
      \<exists>l' v. touch l k = Inr (v, l') \<and> rep l' n (k # remove1 k ks)"
    and touch_miss: "rep l n ks \<Longrightarrow> k \<notin> set ks \<Longrightarrow> touch l k = Inr (None, l)"
    and evict_last: "rep l n (ks @ [k]) \<Longrightarrow> \<exists>l'. evict l = Inr (k, l') \<and> rep l' n ks"
    and evict_none: "rep l n [] \<Longrightarrow> evict l = Inr (- 1, l)"
    and remove_hit: "rep l n ks \<Longrightarrow> k \<in> set ks \<Longrightarrow> \<exists>l'. remove l k = Inr l' \<and> rep l' n (remove1 k ks)"
begin

definition touch_all :: "'l \<Rightarrow> int list \<Rightarrow> 'l res" where
  "touch_all l xs = rfold (\<lambda>k l. rbind (touch l k) (\<lambda>(_, l). Inr l)) xs l"

lemma touch_all_rep:
  "rep l n ks \<Longrightarrow> set xs \<subseteq> set ks \<Longrightarrow>
   \<exists>l'. touch_all l xs = Inr l' \<and> rep l' n (foldl (\<lambda>ks k. k # remove1 k ks) ks xs)"
proof (induction xs arbitrary: l ks)
  case Nil
  then show ?case by (simp add: touch_all_def)
next
  case (Cons x xs)
  then obtain l' v where l': "touch l x = Inr (v, l')" "rep l' n (x # remove1 x ks)"
    using touch_hit[of l n ks x] by auto
  have "set xs \<subseteq> set (x # remove1 x ks)"
    using Cons.prems rep_distinct[OF Cons.prems(1)] by auto
  then obtain l'' where "touch_all l' xs = Inr l''" "rep l'' n (foldl (\<lambda>ks k. k # remove1 k ks) (x # remove1 x ks) xs)"
    using Cons.IH[OF l'(2)] by blast
  with l' show ?case by (simp add: touch_all_def)
qed

lemma touched_front:
  assumes "distinct ks" "set xs \<subseteq> set ks"
  shows "\<exists>as. foldl (\<lambda>ks k. k # remove1 k ks) ks xs = as @ filter (\<lambda>k. k \<notin> set xs) ks \<and> set as = set xs \<and> distinct as"
  using assms(2)
proof (induction xs rule: rev_induct)
  case (snoc x xs)
  then obtain as where as: "foldl (\<lambda>ks k. k # remove1 k ks) ks xs = as @ filter (\<lambda>k. k \<notin> set xs) ks"
    "set as = set xs" "distinct as" by auto
  show ?case
  proof (cases "x \<in> set xs")
    case True
    with as have "foldl (\<lambda>ks k. k # remove1 k ks) ks (xs @ [x]) = (x # remove1 x as) @ filter (\<lambda>k. k \<notin> set (xs @ [x])) ks"
      by (simp add: remove1_append insert_absorb)
    with as True show ?thesis by (intro exI[of _ "x # remove1 x as"]) auto
  next
    case False
    have "remove1 x (filter (\<lambda>k. k \<notin> set xs) ks) = filter (\<lambda>k. k \<notin> set (xs @ [x])) ks"
      using assms(1) by (auto simp: distinct_remove1_removeAll removeAll_filter_not_eq conj_commute intro!: filter_cong)
    with as False have "foldl (\<lambda>ks k. k # remove1 k ks) ks (xs @ [x]) = (x # as) @ filter (\<lambda>k. k \<notin> set (xs @ [x])) ks"
      by (simp add: remove1_append)
    with as False show ?thesis by (intro exI[of _ "x # as"]) auto
  qed
qed simp

text \<open>A key that was used is never the victim while an unused one is held.\<close>

lemma victim_untouched:
  assumes "rep l n ks" "set xs \<subset> set ks"
  shows "\<exists>k l' l''. touch_all l xs = Inr l' \<and> evict l' = Inr (k, l'') \<and> k \<in> set ks \<and> k \<notin> set xs"
proof -
  obtain l' where l': "touch_all l xs = Inr l'" "rep l' n (foldl (\<lambda>ks k. k # remove1 k ks) ks xs)"
    using touch_all_rep[OF assms(1), of xs] assms(2) by blast
  obtain as where as: "foldl (\<lambda>ks k. k # remove1 k ks) ks xs = as @ filter (\<lambda>k. k \<notin> set xs) ks"
    using touched_front[OF rep_distinct[OF assms(1)], of xs] assms(2) by blast
  have "filter (\<lambda>k. k \<notin> set xs) ks \<noteq> []" using assms(2) by (auto simp: filter_empty_conv)
  then obtain fs k where f: "filter (\<lambda>k. k \<notin> set xs) ks = fs @ [k]" by (metis rev_exhaust)
  then have "k \<in> set (filter (\<lambda>k. k \<notin> set xs) ks)" by simp
  then have "k \<in> set ks" "k \<notin> set xs" by simp_all
  moreover have "rep l' n ((as @ fs) @ [k])" using l'(2) as f by simp
  ultimately show ?thesis using l'(1) evict_last by blast
qed

end

lemma lru_rep_split:
  assumes "lru_rep l ks" "k \<in> set ks"
  obtains xs c ys where "lru_nodes l (xs @ c # ys)" "f_key l c = k" "ks = map (f_key l) (xs @ c # ys)"
    "map (f_key l) (xs @ ys) = remove1 k ks"
proof -
  obtain as where as: "lru_nodes l as" "map (f_key l) as = ks" using assms(1) by (auto simp: lru_rep_def)
  then obtain c where c: "c \<in> set as" "f_key l c = k" using assms(2) by auto
  then obtain xs ys where s: "as = xs @ c # ys" by (auto dest: split_list)
  have "k \<notin> set (map (f_key l) xs)" using as s c by (auto simp: lru_nodes_def)
  then have "map (f_key l) (xs @ ys) = remove1 k ks"
    using as(2) s c(2) by (auto simp: remove1_append)
  with that as s c(2) show thesis by auto
qed

definition lru_state :: "lru \<Rightarrow> nat \<Rightarrow> int list \<Rightarrow> bool" where
  "lru_state l n ks \<longleftrightarrow> lru_rep l ks \<and> lru_capacity l = int n"

interpretation lru: replacer lru_state put_frame get_frame evict_frame remove_frame
proof unfold_locales
  fix l n ks k v
  show "lru_state l n ks \<Longrightarrow> distinct ks" by (auto simp: lru_state_def rep_distinct)
  show "\<exists>l'. put_frame l k v = Inr l' \<and> lru_state l' n (k # ks)"
    if r: "lru_state l n ks" "k \<notin> set ks" "length ks < n"
  proof -
    obtain as where as: "lru_nodes l as" "map (f_key l) as = ks" "lru_capacity l = int n"
      using r(1) unfolding lru_state_def lru_rep_def by blast
    have "k \<notin> f_key l ` set as" "int (length as) \<noteq> lru_capacity l" using r as by auto
    then obtain l' c where l': "put_frame l k v = Inr l'" "lru_nodes l' (c # as)" "f_key l' = (f_key l)(c := k)"
      "c \<notin> set as" "lru_capacity l' = lru_capacity l" using put_frame_new[OF as(1)] by blast
    then have "map (f_key l') (c # as) = k # ks" using as(2) by auto
    with l' as(3) show ?thesis unfolding lru_state_def lru_rep_def by metis
  qed
  show "\<exists>l'. put_frame l k v = Inr l' \<and> lru_state l' n (k # remove1 k ks)" if r: "lru_state l n ks" "k \<in> set ks"
  proof -
    obtain xs c ys where s: "lru_nodes l (xs @ c # ys)" "f_key l c = k" "map (f_key l) (xs @ ys) = remove1 k ks"
      using lru_rep_split[of l ks k] r unfolding lru_state_def by metis
    obtain l' where l': "put_frame l k v = Inr l'" "lru_nodes l' (c # xs @ ys)" "f_key l' = f_key l"
      "lru_capacity l' = lru_capacity l" using put_frame_hit[OF s(1), of v] s(2) by blast
    have "map (f_key l') (c # xs @ ys) = k # remove1 k ks" using l'(3) s(2,3) by simp
    with l' r show ?thesis unfolding lru_state_def lru_rep_def by auto
  qed
  show "\<exists>l' v. get_frame l k = Inr (v, l') \<and> lru_state l' n (k # remove1 k ks)" if r: "lru_state l n ks" "k \<in> set ks"
  proof -
    obtain xs c ys where s: "lru_nodes l (xs @ c # ys)" "f_key l c = k" "map (f_key l) (xs @ ys) = remove1 k ks"
      using lru_rep_split[of l ks k] r unfolding lru_state_def by metis
    obtain l' where l': "get_frame l k = Inr (f_value l c, l')" "lru_nodes l' (c # xs @ ys)" "f_key l' = f_key l"
      "lru_capacity l' = lru_capacity l" using get_frame_nodes[OF s(1)] s(2) by blast
    have "map (f_key l') (c # xs @ ys) = k # remove1 k ks" using l'(3) s(2,3) by simp
    with l' r show ?thesis unfolding lru_state_def lru_rep_def by auto
  qed
  show "get_frame l k = Inr (None, l)" if "lru_state l n ks" "k \<notin> set ks"
    using that rep_mem[of l ks k] by (simp add: lru_state_def get_frame_def)
  show "\<exists>l'. evict_frame l = Inr (k, l') \<and> lru_state l' n ks" if r: "lru_state l n (ks @ [k])"
  proof -
    obtain as where as: "lru_nodes l as" "map (f_key l) as = ks @ [k]" using r by (auto simp: lru_state_def lru_rep_def)
    then obtain xs c where x: "as = xs @ [c]" "map (f_key l) xs = ks" "f_key l c = k"
      by (auto simp: map_eq_append_conv)
    with as evict_frame_nodes[of l xs c] r show ?thesis unfolding lru_state_def lru_rep_def by metis
  qed
  show "evict_frame l = Inr (- 1, l)" if "lru_state l n []"
    using that by (auto simp: lru_state_def lru_rep_def evict_frame_empty)
  show "\<exists>l'. remove_frame l k = Inr l' \<and> lru_state l' n (remove1 k ks)" if r: "lru_state l n ks" "k \<in> set ks"
  proof -
    obtain xs c ys where s: "lru_nodes l (xs @ c # ys)" "f_key l c = k" "map (f_key l) (xs @ ys) = remove1 k ks"
      using lru_rep_split[of l ks k] r unfolding lru_state_def by metis
    obtain l' where l': "remove_frame l k = Inr l'" "lru_nodes l' (xs @ ys)" "f_key l' = f_key l"
      "lru_capacity l' = lru_capacity l" using remove_frame_nodes[OF s(1)] s(2) by blast
    have "map (f_key l') (xs @ ys) = remove1 k ks" using l'(3) s(2,3) by simp
    with l' r show ?thesis unfolding lru_state_def lru_rep_def by auto
  qed
qed

section \<open>Properties\<close>

lemma LRU_state: "lru_state (LRU (int n)) n []"
  by (simp add: lru_state_def LRU_rep) (simp add: LRU_def)

text \<open>
  C38. The pointer program implements the list of keys by last use: a lookup moves a held key to the
  front and ignores others, an insertion puts a new key in front and moves an old one there, removal
  takes out the key, eviction returns the last key and, on an empty list, -1.
\<close>

theorem lru_operations_refine:
  assumes "lru_state l n ks"
  shows "(if k \<in> set ks then \<exists>v l'. get_frame l k = Inr (v, l') \<and> lru_state l' n (k # remove1 k ks)
      else get_frame l k = Inr (None, l)) \<and>
    (k \<in> set ks \<or> length ks < n \<longrightarrow> (\<exists>l'. put_frame l k v = Inr l' \<and> lru_state l' n (k # remove1 k ks))) \<and>
    (k \<in> set ks \<longrightarrow> (\<exists>l'. remove_frame l k = Inr l' \<and> lru_state l' n (remove1 k ks))) \<and>
    (if ks = [] then evict_frame l = Inr (- 1, l)
     else \<exists>l'. evict_frame l = Inr (last ks, l') \<and> lru_state l' n (butlast ks))"
proof -
  have "lru_state l n (butlast ks @ [last ks])" if "ks \<noteq> []" using assms that by simp
  then show ?thesis
    using lru.touch_hit[OF assms, of k] lru.touch_miss[OF assms, of k] lru.insert_new[OF assms, of k v]
      lru.insert_old[OF assms, of k v] lru.remove_hit[OF assms, of k] lru.evict_last[of l n "butlast ks" "last ks"]
      lru.evict_none[of l n] assms
    by (cases "k \<in> set ks"; cases "ks = []") (auto simp: remove1_idem)
qed

lemma lru_operations_refine_witness:
  "\<exists>l l'. put_frame (LRU 100) 7 None = Inr l \<and> lru_state l 100 [7] \<and> evict_frame l = Inr (7, l')"
proof -
  obtain l where l: "put_frame (LRU 100) 7 None = Inr l" "lru_state l 100 [7]"
    using lru_operations_refine[OF LRU_state[of 100], of 7 None] by auto
  show ?thesis using lru_operations_refine[OF l(2), of 7 None] l by auto
qed

text \<open>
  After any sequence of uses of held keys, the victim of the next eviction is a key that the
  sequence did not use, as long as there is one.
\<close>

theorem lru_victim_untouched:
  assumes "lru_state l n ks" "set xs \<subset> set ks"
  shows "\<exists>k l' l''. rfold (\<lambda>k l. rbind (get_frame l k) (\<lambda>(_, l). Inr l)) xs l = Inr l' \<and>
    evict_frame l' = Inr (k, l'') \<and> k \<in> set ks \<and> k \<notin> set xs"
  using lru.victim_untouched[OF assms] unfolding lru.touch_all_def .

lemma lru_victim_untouched_witness:
  "\<exists>l1 l2 l3 l4. put_frame (LRU 100) 7 None = Inr l1 \<and> put_frame l1 8 None = Inr l2 \<and>
     rfold (\<lambda>k l. rbind (get_frame l k) (\<lambda>(_, l). Inr l)) [7, 7] l2 = Inr l3 \<and> evict_frame l3 = Inr (8, l4)"
proof -
  obtain l1 where l1: "put_frame (LRU 100) 7 None = Inr l1" "lru_state l1 100 [7]"
    using lru.insert_new[OF LRU_state[of 100], of 7 None] by auto
  have n8: "(8 :: int) \<notin> set [7]" "length [7 :: int] < 100" by simp_all
  obtain l2 where l2: "put_frame l1 8 None = Inr l2" "lru_state l2 100 [8, 7]"
    using lru.insert_new[OF l1(2) n8(1,2), of None] by blast
  have "8 \<in> set [8, 7 :: int]" "8 \<notin> set [7, 7 :: int]" "set [7, 7] \<subseteq> set [8, 7 :: int]" by simp_all
  then have "set [7, 7] \<subset> set [8, 7 :: int]" by blast
  from lru_victim_untouched[OF l2(2) this] obtain k l3 l4
    where v: "rfold (\<lambda>k l. rbind (get_frame l k) (\<lambda>(_, l). Inr l)) [7, 7] l2 = Inr l3"
      "evict_frame l3 = Inr (k, l4)" "k \<in> set [8, 7]" "k \<notin> set [7, 7]" by blast
  from v(3,4) have "k = 8" by simp
  with v(1,2) l1(1) l2(1) show ?thesis by blast
qed

end
