(* ===== verification/Buffer_Pool.thy ===== *)
theory Buffer_Pool imports Disk_Manager Lru_Cache
begin

text \<open>
  \<^verbatim>\<open>BufferPoolManager\<close> (src/Buffer/BufferPoolManager.c++, Include/Buffer/BufferPoolManager.h): 100
  frames in memory over the pages of the disk manager, with the LRU policy for the victim.

  A frame pointer is the number of the frame. The invariant \<open>bpm_inv\<close> ties the page table, the frame
  arrays, the free list and the LRU list together; the content a client sees of a page is its frame
  when it is cached and its place on disk otherwise (\<open>view\<close>). Fetching, evicting and deleting do not
  change the view, a new page is the empty page, a marked write changes one page, and the destructor
  brings the disk to the view.
\<close>

definition BUFFER_SIZE :: nat where "BUFFER_SIZE = 100"

record bpm =
  bp_lru :: lru
  frames :: "buf list"
  page_table :: "(int \<times> int) list"
  pages_ids :: "int list"
  pin_count :: "int list"
  is_dirty :: "bool list"
  free_frames_ids :: "int list"
  disk :: dm

definition BufferPoolManager :: "dm \<Rightarrow> bpm" where
  "BufferPoolManager d =
     \<lparr>bp_lru = LRU (int BUFFER_SIZE), frames = replicate BUFFER_SIZE (zero_buf PAGE_SIZE), page_table = [],
      pages_ids = replicate BUFFER_SIZE (- 1), pin_count = replicate BUFFER_SIZE 0,
      is_dirty = replicate BUFFER_SIZE False, free_frames_ids = map int [0..<BUFFER_SIZE], disk = d\<rparr>"

text \<open>
  The choice of a frame, the same code in \<^verbatim>\<open>fetchPage\<close> and \<^verbatim>\<open>newPage\<close>: the last free one, or the LRU
  victim, which is written back when it is dirty.
\<close>

definition take_frame :: "bpm \<Rightarrow> (int \<times> bpm) res" where
  "take_frame s =
     (if free_frames_ids s = [] then
        rbind (evict_frame (bp_lru s)) (\<lambda>(f, l).
        let s = s\<lparr>bp_lru := l\<rparr> in
        rbind (vec_at_int (pages_ids s) f) (\<lambda>old_page_id.
        rbind (vec_at_int (is_dirty s) f) (\<lambda>dirty.
        rbind (vec_at_int (frames s) f) (\<lambda>fr.
        rbind (if dirty then writePage (disk s) old_page_id fr else Inr (disk s)) (\<lambda>d.
        Inr (f, s\<lparr>disk := d, page_table := AList.delete old_page_id (page_table s)\<rparr>))))))
      else Inr (last (free_frames_ids s), s\<lparr>free_frames_ids := butlast (free_frames_ids s)\<rparr>))"

text \<open>The registration of a page in a frame, again the same in both.\<close>

definition install :: "bpm \<Rightarrow> int \<Rightarrow> int \<Rightarrow> bpm res" where
  "install s page_id f =
     rbind (vec_at_int (frames s) f) (\<lambda>fr.
     rbind (readPage (disk s) page_id fr) (\<lambda>(fr, d).
     rbind (put_frame (bp_lru s) f (Some (nat f))) (\<lambda>l.
     Inr (s\<lparr>disk := d, frames := (frames s)[nat f := fr], pages_ids := (pages_ids s)[nat f := page_id],
            is_dirty := (is_dirty s)[nat f := False], page_table := AList.update page_id f (page_table s),
            bp_lru := l\<rparr>))))"

definition fetchPage :: "bpm \<Rightarrow> int \<Rightarrow> (int option \<times> bpm) res" where
  "fetchPage s page_id =
     (if page_id = - 1 then Inr (None, s)
      else case map_of (page_table s) page_id of
        Some f \<Rightarrow> rbind (get_frame (bp_lru s) f) (\<lambda>(_, l).
          rbind (vec_at_int (frames s) f) (\<lambda>_. Inr (Some f, s\<lparr>bp_lru := l\<rparr>)))
      | None \<Rightarrow> rbind (take_frame s) (\<lambda>(f, s). rbind (install s page_id f) (\<lambda>s. Inr (Some f, s))))"

definition newPage :: "bpm \<Rightarrow> (int \<times> bpm) res" where
  "newPage s =
     rbind (take_frame s) (\<lambda>(f, s).
     rbind (allocatePage (disk s)) (\<lambda>(off, d).
     let new_page_id = int (off div PAGE_SIZE) in
     rbind (install (s\<lparr>disk := d\<rparr>) new_page_id f) (\<lambda>s. Inr (new_page_id, s))))"

definition bpm_deletePage :: "bpm \<Rightarrow> int \<Rightarrow> bpm res" where
  "bpm_deletePage s page_id =
     (case map_of (page_table s) page_id of
        None \<Rightarrow> Inr s
      | Some f \<Rightarrow>
          rbind (vec_at_int (is_dirty s) f) (\<lambda>dirty.
          rbind (vec_at_int (frames s) f) (\<lambda>fr.
          rbind (if dirty then writePage (disk s) page_id fr else Inr (disk s)) (\<lambda>d.
          rbind (remove_frame (bp_lru s) f) (\<lambda>l.
          Inr (s\<lparr>disk := d, page_table := AList.delete page_id (page_table s),
                 pages_ids := (pages_ids s)[nat f := - 1], is_dirty := (is_dirty s)[nat f := False],
                 free_frames_ids := free_frames_ids s @ [f], bp_lru := l\<rparr>))))))"

text \<open>\<^verbatim>\<open>page_table[page_id]\<close> of a page that is not cached inserts frame 0 for it.\<close>

definition markAsDirty :: "bpm \<Rightarrow> int \<Rightarrow> bpm res" where
  "markAsDirty s page_id =
     (let (f, pt) = (case map_of (page_table s) page_id of
                       Some f \<Rightarrow> (f, page_table s)
                     | None \<Rightarrow> (0, AList.update page_id 0 (page_table s)))
      in rbind (vec_at_int (is_dirty s) f) (\<lambda>_.
         Inr (s\<lparr>page_table := pt, is_dirty := (is_dirty s)[nat f := True]\<rparr>)))"

definition unpinPage :: "bpm \<Rightarrow> int \<Rightarrow> bool \<Rightarrow> bpm res" where
  "unpinPage s page_id flag =
     (case map_of (page_table s) page_id of
        None \<Rightarrow> Inr s
      | Some f \<Rightarrow>
          rbind (vec_at_int (pin_count s) f) (\<lambda>pc.
          let s = (if pc > 0 then s\<lparr>pin_count := (pin_count s)[nat f := pc - 1]\<rparr> else s)
          in Inr (if flag then s\<lparr>is_dirty := (is_dirty s)[nat f := True]\<rparr> else s)))"

text \<open>The destructor: every dirty frame of a page is written, then the disk manager is closed.\<close>

definition bpm_flush :: "bpm \<Rightarrow> dm res" where
  "bpm_flush s =
     rfold (\<lambda>i d. rbind (vec_at (pages_ids s) i) (\<lambda>p. rbind (vec_at (is_dirty s) i) (\<lambda>dirty.
        rbind (vec_at (frames s) i) (\<lambda>fr.
        if dirty \<and> p \<noteq> - 1 then writePage d p fr else Inr d))))
       [0..<BUFFER_SIZE] (disk s)"

definition bpm_close :: "bpm \<Rightarrow> dm res" where
  "bpm_close s = rbind (bpm_flush s) dm_close"

text \<open>The two ways the rest of the program uses a frame pointer: reading and overwriting the array.\<close>

definition frame_at :: "bpm \<Rightarrow> int \<Rightarrow> buf res" where
  "frame_at s f = vec_at_int (frames s) f"

definition store_frame :: "bpm \<Rightarrow> int \<Rightarrow> buf \<Rightarrow> bpm" where
  "store_frame s f b = s\<lparr>frames := (frames s)[nat f := b]\<rparr>"

section \<open>The invariant\<close>

definition frame_ids :: "int set" where "frame_ids = {0..<int BUFFER_SIZE}"

text \<open>\<open>H\<close> is the set of frames that are in transit: taken from the free list or the LRU list, not yet installed.\<close>

definition used :: "bpm \<Rightarrow> int set \<Rightarrow> int set" where
  "used s H = frame_ids - set (free_frames_ids s) - H"

definition bpm_inv :: "bpm \<Rightarrow> nat \<Rightarrow> int set \<Rightarrow> bool" where
  "bpm_inv s n H \<longleftrightarrow> dm_inv (disk s) n \<and>
     length (frames s) = BUFFER_SIZE \<and> length (pages_ids s) = BUFFER_SIZE \<and> length (is_dirty s) = BUFFER_SIZE \<and>
     length (pin_count s) = BUFFER_SIZE \<and> (\<forall>b \<in> set (frames s). canon b) \<and>
     distinct (map fst (page_table s)) \<and>
     distinct (free_frames_ids s) \<and> set (free_frames_ids s) \<subseteq> frame_ids \<and> H \<subseteq> frame_ids - set (free_frames_ids s) \<and>
     (\<forall>p f. map_of (page_table s) p = Some f \<longleftrightarrow> f \<in> used s H \<and> pages_ids s ! nat f = p) \<and>
     (\<forall>f \<in> used s H. 1 \<le> pages_ids s ! nat f \<and> pages_ids s ! nat f \<le> int n) \<and>
     (\<forall>f \<in> used s H. is_dirty s ! nat f \<or> frames s ! nat f = dm_page (disk s) (nat (pages_ids s ! nat f))) \<and>
     (\<forall>f \<in> frame_ids. f \<in> set (free_frames_ids s) \<longrightarrow> \<not> is_dirty s ! nat f) \<and>
     (\<exists>ks. lru_state (bp_lru s) BUFFER_SIZE ks \<and> set ks = used s H)"

definition view :: "bpm \<Rightarrow> nat \<Rightarrow> buf" where
  "view s i = (case map_of (page_table s) (int i) of
     Some f \<Rightarrow> frames s ! nat f | None \<Rightarrow> dm_page (disk s) i)"

lemma frame_ids_iff: "f \<in> frame_ids \<longleftrightarrow> 0 \<le> f \<and> nat f < BUFFER_SIZE"
  by (auto simp: frame_ids_def)

lemma bpm_invD:
  assumes "bpm_inv s n H"
  shows "dm_inv (disk s) n" "length (frames s) = BUFFER_SIZE" "length (pages_ids s) = BUFFER_SIZE"
    "length (is_dirty s) = BUFFER_SIZE" "\<And>b. b \<in> set (frames s) \<Longrightarrow> canon b"
    "distinct (map fst (page_table s))" "distinct (free_frames_ids s)" "set (free_frames_ids s) \<subseteq> frame_ids"
    "\<And>p f. map_of (page_table s) p = Some f \<longleftrightarrow> f \<in> used s H \<and> pages_ids s ! nat f = p"
    "\<And>f. f \<in> used s H \<Longrightarrow> 1 \<le> pages_ids s ! nat f \<and> pages_ids s ! nat f \<le> int n"
    "\<And>f. f \<in> used s H \<Longrightarrow> is_dirty s ! nat f \<or> frames s ! nat f = dm_page (disk s) (nat (pages_ids s ! nat f))"
    "\<And>f. f \<in> frame_ids \<Longrightarrow> f \<in> set (free_frames_ids s) \<Longrightarrow> \<not> is_dirty s ! nat f"
    "\<exists>ks. lru_state (bp_lru s) BUFFER_SIZE ks \<and> set ks = used s H" "length (pin_count s) = BUFFER_SIZE"
    "H \<subseteq> frame_ids - set (free_frames_ids s)"
  using assms unfolding bpm_inv_def by blast+

lemma used_frame: "f \<in> used s H \<Longrightarrow> f \<in> frame_ids"
  by (simp add: used_def)

lemma vec_frame: "f \<in> frame_ids \<Longrightarrow> length xs = BUFFER_SIZE \<Longrightarrow> vec_at_int xs f = Inr (xs ! nat f)"
  by (simp add: frame_ids_def)

lemma BufferPoolManager_inv:
  assumes "dm_inv d n"
  shows "bpm_inv (BufferPoolManager d) n {}" "view (BufferPoolManager d) = dm_page d"
proof -
  have f: "set (map int [0..<BUFFER_SIZE]) = frame_ids" by (simp add: frame_ids_def image_int_atLeastLessThan)
  have "used (BufferPoolManager d) {} = {}" using f by (simp add: used_def BufferPoolManager_def)
  moreover have "lru_state (LRU (int BUFFER_SIZE)) BUFFER_SIZE []" by (rule LRU_state)
  ultimately show "bpm_inv (BufferPoolManager d) n {}"
    using assms f by (auto simp: bpm_inv_def BufferPoolManager_def distinct_map canon_def zero_buf_def frame_ids_iff
        simp del: set_map upt_rec_numeral)
  show "view (BufferPoolManager d) = dm_page d" by (simp add: view_def BufferPoolManager_def fun_eq_iff)
qed

lemma view_cached: "map_of (page_table s) (int i) = Some f \<Longrightarrow> view s i = frames s ! nat f"
  by (simp add: view_def)

lemma view_cong: "page_table t = page_table s \<Longrightarrow> frames t = frames s \<Longrightarrow> disk t = disk s \<Longrightarrow> view t i = view s i"
  by (simp only: view_def)

lemma view_uncached: "map_of (page_table s) (int i) = None \<Longrightarrow> view s i = dm_page (disk s) i"
  by (simp add: view_def)

text \<open>A frame holds one page.\<close>

lemma page_of_frame:
  assumes "bpm_inv s n H" "f \<in> used s H"
  shows "map_of (page_table s) (pages_ids s ! nat f) = Some f"
  using assms(2) by (intro bpm_invD(9)[OF assms(1), THEN iffD2]) simp

lemma frame_unique:
  assumes "bpm_inv s n H" "f \<in> used s H" "g \<in> used s H" "pages_ids s ! nat f = pages_ids s ! nat g"
  shows "f = g"
  using page_of_frame[OF assms(1,2)] page_of_frame[OF assms(1,3)] assms(4) by (metis option.inject)

lemma nth_update_frame: "f \<in> frame_ids \<Longrightarrow> g \<in> frame_ids \<Longrightarrow> f \<noteq> g \<Longrightarrow> xs[nat f := x] ! nat g = xs ! nat g"
  by (auto simp: frame_ids_def)

lemma canon_frame: "bpm_inv s n H \<Longrightarrow> f \<in> frame_ids \<Longrightarrow> canon (frames s ! nat f)"
  using bpm_invD(2,5)[of s n H] nth_mem[of "nat f" "frames s"] by (simp add: frame_ids_iff)

text \<open>Writing a victim back does not change what its page contains.\<close>

definition same_views :: "nat \<Rightarrow> bpm \<Rightarrow> bpm \<Rightarrow> bool" where
  "same_views n s t \<longleftrightarrow> (\<forall>i. 1 \<le> i \<and> i \<le> n \<longrightarrow> view t i = view s i)"

lemma same_views_trans: "same_views n s t \<Longrightarrow> same_views n t u \<Longrightarrow> same_views n s u"
  by (simp add: same_views_def)

lemma write_back:
  assumes s: "bpm_inv s n H" and f: "f \<in> used s H"
  shows "\<exists>d. (if is_dirty s ! nat f then writePage (disk s) (pages_ids s ! nat f) (frames s ! nat f) else Inr (disk s)) = Inr d \<and>
    dm_inv d n \<and> dm_page d (nat (pages_ids s ! nat f)) = frames s ! nat f \<and>
    (\<forall>j. j \<noteq> nat (pages_ids s ! nat f) \<longrightarrow> dm_page d j = dm_page (disk s) j) \<and>
    dm_capacity d = dm_capacity (disk s) \<and> tables_names d = tables_names (disk s)"
proof (cases "is_dirty s ! nat f")
  case True
  let ?i = "nat (pages_ids s ! nat f)"
  have i: "1 \<le> ?i" "?i \<le> n" "int ?i = pages_ids s ! nat f" using bpm_invD(10)[OF s f] by auto
  obtain d where "writePage (disk s) (int ?i) (frames s ! nat f) = Inr d" "dm_inv d n"
    "\<forall>j. dm_page d j = (if j = ?i then frames s ! nat f else dm_page (disk s) j)"
    "dm_capacity d = dm_capacity (disk s)" "tables_names d = tables_names (disk s)"
    using writePage_inv[OF bpm_invD(1)[OF s] i(1,2) canon_frame[OF s used_frame[OF f]]] by blast
  with True i(3) show ?thesis by auto
next
  case False
  then show ?thesis using bpm_invD(1)[OF s] bpm_invD(11)[OF s f] by auto
qed

text \<open>What is left after a used frame has been taken out of the page table.\<close>

lemma drop_page:
  assumes s: "bpm_inv s n {}" and f: "f \<in> used s {}"
    and d: "dm_inv d n" "dm_page d (nat (pages_ids s ! nat f)) = frames s ! nat f"
      "\<And>j. j \<noteq> nat (pages_ids s ! nat f) \<Longrightarrow> dm_page d j = dm_page (disk s) j"
    and l: "lru_state l BUFFER_SIZE ks" "set ks = used s {} - {f}"
    and t: "t = s\<lparr>bp_lru := l, disk := d, page_table := AList.delete (pages_ids s ! nat f) (page_table s)\<rparr>"
  shows "bpm_inv t n {f}" "same_views n s t"
proof -
  let ?old = "pages_ids s ! nat f"
  have u: "used t {f} = used s {} - {f}" by (auto simp: used_def t)
  have sel: "pages_ids t = pages_ids s" "is_dirty t = is_dirty s" "frames t = frames s" "disk t = d" "bp_lru t = l"
    "free_frames_ids t = free_frames_ids s" "pin_count t = pin_count s"
    "\<And>p. map_of (page_table t) p = (if p = ?old then None else map_of (page_table s) p)"
    by (simp_all add: t)
  have ff: "f \<in> frame_ids - set (free_frames_ids s)" using f by (simp add: used_def)
  have other: "g \<in> used s {}" "pages_ids s ! nat g \<noteq> ?old" "nat (pages_ids s ! nat g) \<noteq> nat ?old"
    if g: "g \<in> used t {f}" for g
  proof -
    show gu: "g \<in> used s {}" using g u by auto
    show ne: "pages_ids s ! nat g \<noteq> ?old" using frame_unique[OF s gu f] g u by auto
    then show "nat (pages_ids s ! nat g) \<noteq> nat ?old" using bpm_invD(10)[OF s f] bpm_invD(10)[OF s gu] by auto
  qed
  have pt: "map_of (page_table t) p = Some g \<longleftrightarrow> g \<in> used t {f} \<and> pages_ids t ! nat g = p" for p g
  proof (cases "p = ?old")
    case True
    then show ?thesis using other(2)[of g] by (auto simp: sel)
  next
    case False
    then show ?thesis using bpm_invD(9)[OF s, of p g] by (auto simp: sel u)
  qed
  have clean: "is_dirty t ! nat g \<or> frames t ! nat g = dm_page (disk t) (nat (pages_ids t ! nat g))"
    if "g \<in> used t {f}" for g
    using bpm_invD(11)[OF s other(1)[OF that]] d(3)[OF other(3)[OF that]] by (simp add: sel)
  have "distinct (map fst (page_table t))" using bpm_invD(6)[OF s] by (simp add: t distinct_delete)
  moreover have "\<exists>ks. lru_state (bp_lru t) BUFFER_SIZE ks \<and> set ks = used t {f}" using l u sel by auto
  moreover have "\<forall>g \<in> used t {f}. 1 \<le> pages_ids t ! nat g \<and> pages_ids t ! nat g \<le> int n"
    using bpm_invD(10)[OF s other(1)] by (simp add: sel)
  ultimately show "bpm_inv t n {f}"
    unfolding bpm_inv_def
    using pt clean d(1) ff bpm_invD(2-5,7,8,12,14)[OF s] by (simp add: sel)
  show "same_views n s t"
    unfolding same_views_def
  proof (intro allI impI)
    fix i assume i: "1 \<le> i \<and> i \<le> n"
    show "view t i = view s i"
    proof (cases "int i = ?old")
      case True
      then have "map_of (page_table s) (int i) = Some f" using page_of_frame[OF s f] by simp
      moreover have "map_of (page_table t) (int i) = None" using True by (simp add: t)
      moreover have "nat ?old = i" using True by simp
      ultimately show ?thesis using d(2) by (simp add: view_def t)
    next
      case False
      then have "map_of (page_table t) (int i) = map_of (page_table s) (int i)" by (simp add: t)
      moreover have "dm_page d i = dm_page (disk s) i" using False d(3)[of i] bpm_invD(10)[OF s f] by auto
      ultimately show ?thesis by (simp add: view_def t split: option.split)
    qed
  qed
qed

lemma take_frame_inv:
  assumes s: "bpm_inv s n {}"
  shows "\<exists>f t. take_frame s = Inr (f, t) \<and> bpm_inv t n {f} \<and> same_views n s t \<and> f \<in> frame_ids \<and>
    dm_capacity (disk t) = dm_capacity (disk s) \<and> tables_names (disk t) = tables_names (disk s) \<and>
    (\<forall>p. map_of (page_table s) p = None \<longrightarrow> map_of (page_table t) p = None)"
proof (cases "free_frames_ids s = []")
  case False
  let ?f = "last (free_frames_ids s)" and ?t = "s\<lparr>free_frames_ids := butlast (free_frames_ids s)\<rparr>"
  have fr: "free_frames_ids s = butlast (free_frames_ids s) @ [?f]" using False by simp
  have sp: "set (free_frames_ids s) = insert ?f (set (butlast (free_frames_ids s)))"
    "?f \<notin> set (butlast (free_frames_ids s))" "distinct (butlast (free_frames_ids s))"
    using bpm_invD(7)[OF s] fr by (metis distinct_append distinct.simps(2) set_append Un_commute insert_is_Un list.set(2) list.simps(15) empty_set disjoint_insert(1) sup_bot.right_neutral, metis distinct_append disjoint_insert(1) list.simps(15) inf_commute, metis distinct_append)
  have u: "used ?t {?f} = used s {}" using sp by (auto simp: used_def)
  have "bpm_inv ?t n {?f}"
    unfolding bpm_inv_def u
    using bpm_invD[OF s] sp by auto
  moreover have "same_views n s ?t" by (simp add: same_views_def view_cong[of ?t s])
  ultimately show ?thesis using False bpm_invD(8)[OF s] sp
    by (intro exI[of _ ?f] exI[of _ ?t]) (simp add: take_frame_def)
next
  case True
  obtain ks where ks: "lru_state (bp_lru s) BUFFER_SIZE ks" "set ks = used s {}" using bpm_invD(13)[OF s] by blast
  have all: "used s {} = frame_ids" using True by (simp add: used_def)
  have "ks \<noteq> []" using ks(2) all by (auto simp: frame_ids_def BUFFER_SIZE_def)
  then obtain js f where js: "ks = js @ [f]" by (metis rev_exhaust)
  then have f: "f \<in> used s {}" using ks(2) by auto
  have dist: "distinct ks" using lru.rep_distinct[OF ks(1)] .
  obtain l where l: "evict_frame (bp_lru s) = Inr (f, l)" "lru_state l BUFFER_SIZE js"
    using lru.evict_last[of "bp_lru s" BUFFER_SIZE js f] ks(1) js by blast
  obtain d where d: "(if is_dirty s ! nat f then writePage (disk s) (pages_ids s ! nat f) (frames s ! nat f) else Inr (disk s)) = Inr d"
    "dm_inv d n" "dm_page d (nat (pages_ids s ! nat f)) = frames s ! nat f"
    "\<forall>j. j \<noteq> nat (pages_ids s ! nat f) \<longrightarrow> dm_page d j = dm_page (disk s) j"
    "dm_capacity d = dm_capacity (disk s)" "tables_names d = tables_names (disk s)"
    using write_back[OF s f] by blast
  let ?t = "s\<lparr>bp_lru := l, disk := d, page_table := AList.delete (pages_ids s ! nat f) (page_table s)\<rparr>"
  have "set js = used s {} - {f}" using ks(2) js dist by auto
  from drop_page[OF s f d(2,3) _ l(2) this refl] d(4)
  have t: "bpm_inv ?t n {f}" "same_views n s ?t" by blast+
  have ff: "f \<in> frame_ids" using f used_frame by blast
  have "take_frame s = Inr (f, ?t)"
    using True l(1) d(1) vec_frame[OF ff bpm_invD(2)[OF s]] vec_frame[OF ff bpm_invD(3)[OF s]] vec_frame[OF ff bpm_invD(4)[OF s]]
    by (cases "is_dirty s ! nat f") (simp_all add: take_frame_def Let_def)
  with t ff d(5,6) show ?thesis by (intro exI[of _ f] exI[of _ ?t]) simp
qed

lemma readPage_db_file: "db_file d' = db_file d \<Longrightarrow> dm_page d' = dm_page d"
  by (rule ext) (rule dm_page_cong)

text \<open>\<open>f\<close> is the frame that was used last.\<close>

definition fresh_frame :: "bpm \<Rightarrow> int \<Rightarrow> bool" where
  "fresh_frame s f \<longleftrightarrow> (\<exists>ks. lru_state (bp_lru s) BUFFER_SIZE (f # ks) \<and> set (f # ks) = used s {})"

lemma install_inv:
  assumes s: "bpm_inv s n {f}" and i: "1 \<le> i" "i \<le> n" and new: "map_of (page_table s) (int i) = None"
  shows "\<exists>t. install s (int i) f = Inr t \<and> bpm_inv t n {} \<and> same_views n s t \<and>
    map_of (page_table t) (int i) = Some f \<and> frames t ! nat f = view s i \<and> fresh_frame t f \<and>
    dm_capacity (disk t) = dm_capacity (disk s) \<and> tables_names (disk t) = tables_names (disk s)"
proof -
  have ff: "f \<in> frame_ids" "f \<notin> set (free_frames_ids s)" using bpm_invD(15)[OF s] by auto
  obtain d where d: "readPage (disk s) (int i) (frames s ! nat f) = Inr (dm_page (disk s) i, d)" "dm_inv d n"
    "db_file d = db_file (disk s)" "dm_capacity d = dm_capacity (disk s)" "tables_names d = tables_names (disk s)"
    using readPage_inv[OF bpm_invD(1)[OF s] i canon_frame[OF s ff(1)]] by blast
  obtain ks where ks: "lru_state (bp_lru s) BUFFER_SIZE ks" "set ks = used s {f}" using bpm_invD(13)[OF s] by blast
  have "finite frame_ids" "card frame_ids = BUFFER_SIZE" by (simp_all add: frame_ids_def)
  moreover have "used s {f} \<subset> frame_ids" using ff(1) by (auto simp: used_def)
  ultimately have "card (set ks) < BUFFER_SIZE" using psubset_card_mono[of frame_ids "used s {f}"] ks(2) by simp
  then have "length ks < BUFFER_SIZE" "f \<notin> set ks"
    using distinct_card[OF lru.rep_distinct[OF ks(1)]] ks(2) by (auto simp: used_def)
  then obtain l where l: "put_frame (bp_lru s) f (Some (nat f)) = Inr l" "lru_state l BUFFER_SIZE (f # ks)"
    using lru.insert_new[OF ks(1)] by blast
  let ?t = "s\<lparr>disk := d, frames := (frames s)[nat f := dm_page (disk s) i], pages_ids := (pages_ids s)[nat f := int i],
      is_dirty := (is_dirty s)[nat f := False], page_table := AList.update (int i) f (page_table s), bp_lru := l\<rparr>"
  have u: "used ?t {} = insert f (used s {f})" using ff by (auto simp: used_def)
  have len: "nat f < length (frames s)" "nat f < length (pages_ids s)" "nat f < length (is_dirty s)"
    using ff(1) bpm_invD(2-4)[OF s] by (simp_all add: frame_ids_iff)
  have dp: "dm_page d = dm_page (disk s)" using d(3) by (rule readPage_db_file)
  have other: "(pages_ids s)[nat f := pi] ! nat g = pages_ids s ! nat g" "(is_dirty s)[nat f := di] ! nat g = is_dirty s ! nat g"
      "(frames s)[nat f := fi] ! nat g = frames s ! nat g" "g \<noteq> f" if "g \<in> used s {f}" for g pi di fi
  proof -
    have "g \<in> frame_ids" "f \<noteq> g" using that by (auto simp: used_def)
    note eq = nth_update_frame[OF ff(1) this]
    show "(pages_ids s)[nat f := pi] ! nat g = pages_ids s ! nat g" "(is_dirty s)[nat f := di] ! nat g = is_dirty s ! nat g"
      "(frames s)[nat f := fi] ! nat g = frames s ! nat g" by (rule eq)+
    show "g \<noteq> f" using \<open>f \<noteq> g\<close> by simp
  qed
  have mo: "map_of (page_table ?t) p = (if p = int i then Some f else map_of (page_table s) p)" for p by simp
  have pt: "map_of (page_table ?t) p = Some g \<longleftrightarrow> g \<in> used ?t {} \<and> pages_ids ?t ! nat g = p" for p g
  proof (cases "g = f")
    case True
    have "map_of (page_table s) p \<noteq> Some f" using bpm_invD(9)[OF s, of p f] by (simp add: used_def)
    with True show ?thesis using u len by (auto simp: mo)
  next
    case False
    have "map_of (page_table s) (int i) \<noteq> Some g" using new by simp
    with False show ?thesis using bpm_invD(9)[OF s, of p g] bpm_invD(9)[OF s, of "int i" g] u other[of g]
      unfolding mo by auto
  qed
  have "install s (int i) f = Inr ?t"
    using vec_frame[OF ff(1) bpm_invD(2)[OF s]] d(1) l(1) by (simp add: install_def)
  moreover have "bpm_inv ?t n {}"
    unfolding bpm_inv_def
  proof (intro conjI)
    show "\<forall>p g. map_of (page_table ?t) p = Some g \<longleftrightarrow> g \<in> used ?t {} \<and> pages_ids ?t ! nat g = p" using pt by blast
    show "\<forall>g \<in> used ?t {}. 1 \<le> pages_ids ?t ! nat g \<and> pages_ids ?t ! nat g \<le> int n"
      unfolding u using i len bpm_invD(10)[OF s] other by auto
    show "\<forall>g \<in> used ?t {}. is_dirty ?t ! nat g \<or> frames ?t ! nat g = dm_page (disk ?t) (nat (pages_ids ?t ! nat g))"
      unfolding u using len bpm_invD(11)[OF s] other dp by auto
    show "\<exists>ks. lru_state (bp_lru ?t) BUFFER_SIZE ks \<and> set ks = used ?t {}"
      using l(2) ks(2) u by (intro exI[of _ "f # ks"]) simp
    show "\<forall>b \<in> set (frames ?t). canon b"
      using bpm_invD(5)[OF s] set_update_subset_insert[of "frames s" "nat f" "dm_page (disk s) i"] by auto
    show "\<forall>g \<in> frame_ids. g \<in> set (free_frames_ids ?t) \<longrightarrow> \<not> is_dirty ?t ! nat g"
    proof (intro ballI impI)
      fix g assume g: "g \<in> frame_ids" "g \<in> set (free_frames_ids ?t)"
      then have "f \<noteq> g" using ff by auto
      from bpm_invD(12)[OF s g(1)] g(2)
      show "\<not> is_dirty ?t ! nat g" by (simp add: nth_update_frame[OF ff(1) g(1) \<open>f \<noteq> g\<close>])
    qed
  qed (use bpm_invD[OF s] d(2) in \<open>auto simp: distinct_update\<close>)
  moreover have "view ?t j = view s j" for j
  proof (cases "int j = int i")
    case True
    then have "j = i" by simp
    then show ?thesis using new len by (simp add: view_def)
  next
    case False
    have "g \<noteq> f \<and> (frames s)[nat f := x] ! nat g = frames s ! nat g" if "map_of (page_table s) (int j) = Some g" for g x
    proof -
      have "g \<in> used s {f}" using bpm_invD(9)[OF s] that by blast
      then show ?thesis using other(3,4)[of g] by simp
    qed
    with False show ?thesis by (auto simp: view_def mo dp split: option.split)
  qed
  moreover have "fresh_frame ?t f"
    unfolding fresh_frame_def using l(2) ks(2) u by (intro exI[of _ ks]) simp
  ultimately show ?thesis
    using d(4,5) len new by (intro exI[of _ ?t]) (simp add: same_views_def view_def)
qed

theorem fetchPage_inv:
  assumes s: "bpm_inv s n {}" and i: "1 \<le> i" "i \<le> n"
  shows "\<exists>f t. fetchPage s (int i) = Inr (Some f, t) \<and> bpm_inv t n {} \<and> same_views n s t \<and>
    map_of (page_table t) (int i) = Some f \<and> frame_at t f = Inr (view s i) \<and> fresh_frame t f \<and>
    dm_capacity (disk t) = dm_capacity (disk s) \<and> tables_names (disk t) = tables_names (disk s)"
proof (cases "map_of (page_table s) (int i)")
  case None
  obtain f t where t: "take_frame s = Inr (f, t)" "bpm_inv t n {f}" "same_views n s t" "f \<in> frame_ids"
    "dm_capacity (disk t) = dm_capacity (disk s)" "tables_names (disk t) = tables_names (disk s)"
    "map_of (page_table t) (int i) = None"
    using take_frame_inv[OF s] None by blast
  obtain r where r: "install t (int i) f = Inr r" "bpm_inv r n {}" "same_views n t r"
    "map_of (page_table r) (int i) = Some f" "frames r ! nat f = view t i" "fresh_frame r f"
    "dm_capacity (disk r) = dm_capacity (disk t)" "tables_names (disk r) = tables_names (disk t)"
    using install_inv[OF t(2) i t(7)] by blast
  have "frame_at r f = Inr (view s i)"
    using vec_frame[OF t(4) bpm_invD(2)[OF r(2)]] r(5) t(3) i by (simp add: frame_at_def same_views_def)
  moreover have "fetchPage s (int i) = Inr (Some f, r)" using None t(1) r(1) by (simp add: fetchPage_def)
  ultimately show ?thesis using r t same_views_trans[OF t(3) r(3)] by auto
next
  case (Some f)
  have fu: "f \<in> used s {}" using bpm_invD(9)[OF s] Some by blast
  then have ff: "f \<in> frame_ids" by (rule used_frame)
  obtain ks where ks: "lru_state (bp_lru s) BUFFER_SIZE ks" "set ks = used s {}" using bpm_invD(13)[OF s] by blast
  obtain l v where l: "get_frame (bp_lru s) f = Inr (v, l)" "lru_state l BUFFER_SIZE (f # remove1 f ks)"
    using lru.touch_hit[OF ks(1), of f] fu ks(2) by auto
  let ?t = "s\<lparr>bp_lru := l\<rparr>"
  have "set (f # remove1 f ks) = used ?t {}"
    using ks fu lru.rep_distinct[OF ks(1)] by (auto simp: used_def)
  moreover from this have "fresh_frame ?t f"
    using l(2) unfolding fresh_frame_def by (intro exI[of _ "remove1 f ks"]) simp
  ultimately have "bpm_inv ?t n {}" "fresh_frame ?t f"
    using l(2) bpm_invD[OF s] unfolding bpm_inv_def by (auto simp: used_def)
  moreover have "fetchPage s (int i) = Inr (Some f, ?t)"
    using Some l(1) vec_frame[OF ff bpm_invD(2)[OF s]] by (simp add: fetchPage_def)
  moreover have "frame_at ?t f = Inr (view s i)"
    using vec_frame[OF ff bpm_invD(2)[OF s]] Some by (simp add: frame_at_def view_def)
  moreover have "same_views n s ?t" by (simp add: same_views_def view_cong[of ?t s])
  ultimately show ?thesis using Some by (intro exI[of _ f] exI[of _ ?t]) simp
qed

text \<open>A new page while a frame is in transit.\<close>

lemma allocate_under:
  assumes s: "bpm_inv s n {f}" and c: "in_i32 (2 * dm_capacity (disk s) * int PAGE_SIZE)"
  shows "\<exists>d. allocatePage (disk s) = Inr (Suc n * PAGE_SIZE, d) \<and> bpm_inv (s\<lparr>disk := d\<rparr>) (Suc n) {f} \<and>
    same_views n s (s\<lparr>disk := d\<rparr>) \<and> view (s\<lparr>disk := d\<rparr>) (Suc n) = Page (int (Suc n)) \<and>
    map_of (page_table s) (int (Suc n)) = None \<and>
    dm_capacity d \<le> 2 * dm_capacity (disk s) \<and> tables_names d = tables_names (disk s)"
proof -
  obtain d where d: "allocatePage (disk s) = Inr (Suc n * PAGE_SIZE, d)" "dm_inv d (Suc n)"
    "\<forall>i \<le> Suc n. dm_page d i = (if i = Suc n then Page (int (Suc n)) else dm_page (disk s) i)"
    "dm_capacity d = (if int n + 1 \<ge> dm_capacity (disk s) then 2 * dm_capacity (disk s) else dm_capacity (disk s))"
    "tables_names d = tables_names (disk s)"
    using allocatePage_inv[OF bpm_invD(1)[OF s] c] by blast
  let ?t = "s\<lparr>disk := d\<rparr>"
  have u: "used ?t {f} = used s {f}" by (simp add: used_def)
  have none: "map_of (page_table s) (int (Suc n)) = None"
  proof (rule ccontr)
    assume "map_of (page_table s) (int (Suc n)) \<noteq> None"
    then obtain g where g: "g \<in> used s {f}" "pages_ids s ! nat g = int (Suc n)" using bpm_invD(9)[OF s] by blast
    then show False using bpm_invD(10)[OF s g(1)] by simp
  qed
  have same: "dm_page d j = dm_page (disk s) j" if "j \<le> n" for j using d(3) that by simp
  have clean: "is_dirty s ! nat g \<or> frames s ! nat g = dm_page d (nat (pages_ids s ! nat g))" if g: "g \<in> used s {f}" for g
  proof -
    have "nat (pages_ids s ! nat g) \<le> n" using bpm_invD(10)[OF s g] by linarith
    then show ?thesis using bpm_invD(11)[OF s g] same by simp
  qed
  have range: "1 \<le> pages_ids s ! nat g \<and> pages_ids s ! nat g \<le> int (Suc n)" if "g \<in> used s {f}" for g
    using bpm_invD(10)[OF s that] by simp
  have "bpm_inv ?t (Suc n) {f}"
    unfolding bpm_inv_def u using d(2) clean range bpm_invD(2-9,12-15)[OF s] by simp
  moreover have "same_views n s ?t" using same by (auto simp: same_views_def view_def split: option.split)
  moreover have "view ?t (Suc n) = Page (int (Suc n))" using none d(3) by (simp add: view_def)
  moreover have "0 \<le> dm_capacity (disk s)" using bpm_invD(1)[OF s] by (simp add: dm_inv_def)
  ultimately show ?thesis using d(1,4,5) none by (intro exI[of _ d]) auto
qed

theorem newPage_inv:
  assumes s: "bpm_inv s n {}" and c: "in_i32 (2 * dm_capacity (disk s) * int PAGE_SIZE)"
  shows "\<exists>t. newPage s = Inr (int (Suc n), t) \<and> bpm_inv t (Suc n) {} \<and> same_views n s t \<and>
    view t (Suc n) = Page (int (Suc n)) \<and> map_of (page_table t) (int (Suc n)) \<noteq> None \<and>
    dm_capacity (disk t) \<le> 2 * dm_capacity (disk s) \<and> tables_names (disk t) = tables_names (disk s)"
proof -
  obtain f t where t: "take_frame s = Inr (f, t)" "bpm_inv t n {f}" "same_views n s t" "f \<in> frame_ids"
    "dm_capacity (disk t) = dm_capacity (disk s)" "tables_names (disk t) = tables_names (disk s)"
    using take_frame_inv[OF s] by blast
  obtain d where d: "allocatePage (disk t) = Inr (Suc n * PAGE_SIZE, d)" "bpm_inv (t\<lparr>disk := d\<rparr>) (Suc n) {f}"
    "same_views n t (t\<lparr>disk := d\<rparr>)" "view (t\<lparr>disk := d\<rparr>) (Suc n) = Page (int (Suc n))"
    "map_of (page_table t) (int (Suc n)) = None" "dm_capacity d \<le> 2 * dm_capacity (disk t)"
    "tables_names d = tables_names (disk t)"
    using allocate_under[OF t(2)] c t(5) by auto
  obtain r where r: "install (t\<lparr>disk := d\<rparr>) (int (Suc n)) f = Inr r" "bpm_inv r (Suc n) {}"
    "same_views (Suc n) (t\<lparr>disk := d\<rparr>) r" "map_of (page_table r) (int (Suc n)) = Some f"
    "dm_capacity (disk r) = dm_capacity d" "tables_names (disk r) = tables_names d"
    using install_inv[OF d(2), of "Suc n"] d(5) by auto
  have "int (Suc n * PAGE_SIZE div PAGE_SIZE) = int (Suc n)"
    by (simp add: PAGE_SIZE_def del: mult_Suc)
  then have "newPage s = Inr (int (Suc n), r)"
    using t(1) d(1) r(1) by (simp add: newPage_def del: mult_Suc)
  moreover have "same_views n s r"
    using t(3) d(3) r(3) by (simp add: same_views_def)
  moreover have "view r (Suc n) = Page (int (Suc n))" using r(3) d(4) by (simp add: same_views_def)
  ultimately show ?thesis using r d(6,7) t(5,6) by auto
qed

text \<open>Writing through a frame pointer and marking the page.\<close>

theorem write_page_inv:
  assumes s: "bpm_inv s n {}" and f: "map_of (page_table s) (int i) = Some f" and b: "canon b"
  shows "\<exists>t. markAsDirty (store_frame s f b) (int i) = Inr t \<and> bpm_inv t n {} \<and> view t i = b \<and>
    (\<forall>j. j \<noteq> i \<longrightarrow> view t j = view s j) \<and> page_table t = page_table s \<and> disk t = disk s"
proof -
  have fu: "f \<in> used s {}" "pages_ids s ! nat f = int i" using bpm_invD(9)[OF s] f by blast+
  have ff: "f \<in> frame_ids" using fu(1) by (rule used_frame)
  have len: "nat f < length (frames s)" "nat f < length (is_dirty s)"
    using ff bpm_invD(2,4)[OF s] by (simp_all add: frame_ids_iff)
  let ?t = "s\<lparr>frames := (frames s)[nat f := b], is_dirty := (is_dirty s)[nat f := True]\<rparr>"
  have u: "used ?t {} = used s {}" by (simp add: used_def)
  have "markAsDirty (store_frame s f b) (int i) = Inr ?t"
    using f vec_frame[OF ff bpm_invD(4)[OF s]] by (simp add: markAsDirty_def store_frame_def)
  moreover have clean: "is_dirty ?t ! nat g \<or> frames ?t ! nat g = dm_page (disk ?t) (nat (pages_ids ?t ! nat g))"
    if "g \<in> used s {}" for g
  proof (cases "g = f")
    case False
    have "g \<in> frame_ids" using that by (rule used_frame)
    then show ?thesis using False bpm_invD(11)[OF s that]
      by (simp add: nth_update_frame[OF ff _ False[symmetric]])
  qed (use len in simp)
  moreover have "\<not> is_dirty ?t ! nat g" if g: "g \<in> frame_ids" "g \<in> set (free_frames_ids s)" for g
  proof -
    have "f \<noteq> g" using fu(1) g(2) by (auto simp: used_def)
    then show ?thesis using bpm_invD(12)[OF s g] by (simp add: nth_update_frame[OF ff g(1)])
  qed
  moreover have "\<forall>c \<in> set ((frames s)[nat f := b]). canon c"
    using b bpm_invD(5)[OF s] set_update_subset_insert[of "frames s" "nat f" b] by auto
  ultimately have "markAsDirty (store_frame s f b) (int i) = Inr ?t" "bpm_inv ?t n {}"
    unfolding bpm_inv_def u using bpm_invD(1-4,6-10,13-15)[OF s] by auto
  moreover have "view ?t j = (if j = i then b else view s j)" for j
  proof (cases "map_of (page_table s) (int j)")
    case (Some g)
    then have g: "g \<in> frame_ids" "pages_ids s ! nat g = int j" using bpm_invD(9)[OF s] used_frame by blast+
    show ?thesis
    proof (cases "g = f")
      case True
      then have "j = i" using g fu(2) by simp
      then show ?thesis using f len by (simp add: view_def)
    next
      case False
      then have "j \<noteq> i" using Some f by auto
      then show ?thesis using Some nth_update_frame[OF ff g(1) False[symmetric], of "frames s"] by (simp add: view_def)
    qed
  qed (use f in \<open>auto simp: view_def\<close>)
  ultimately show ?thesis by (intro exI[of _ ?t]) simp
qed

section \<open>Deleting, unpinning, shutting down\<close>

theorem bpm_deletePage_inv:
  assumes s: "bpm_inv s n {}"
  shows "\<exists>t. bpm_deletePage s p = Inr t \<and> bpm_inv t n {} \<and> same_views n s t \<and> map_of (page_table t) p = None"
proof (cases "map_of (page_table s) p")
  case None
  then show ?thesis using s by (auto simp: bpm_deletePage_def same_views_def)
next
  case (Some f)
  have f: "f \<in> used s {}" "pages_ids s ! nat f = p" using bpm_invD(9)[OF s] Some by blast+
  have ff: "f \<in> frame_ids" "f \<notin> set (free_frames_ids s)" using f(1) by (auto simp: used_def)
  obtain ks where ks: "lru_state (bp_lru s) BUFFER_SIZE ks" "set ks = used s {}" using bpm_invD(13)[OF s] by blast
  obtain l where l: "remove_frame (bp_lru s) f = Inr l" "lru_state l BUFFER_SIZE (remove1 f ks)"
    using lru.remove_hit[OF ks(1), of f] f(1) ks(2) by blast
  have lk: "set (remove1 f ks) = used s {} - {f}" using ks(2) lru.rep_distinct[OF ks(1)] by auto
  obtain d where d: "(if is_dirty s ! nat f then writePage (disk s) (pages_ids s ! nat f) (frames s ! nat f) else Inr (disk s)) = Inr d"
    "dm_inv d n" "dm_page d (nat (pages_ids s ! nat f)) = frames s ! nat f"
    "\<forall>j. j \<noteq> nat (pages_ids s ! nat f) \<longrightarrow> dm_page d j = dm_page (disk s) j"
    using write_back[OF s f(1)] by blast
  define t where "t = s\<lparr>bp_lru := l, disk := d, page_table := AList.delete (pages_ids s ! nat f) (page_table s)\<rparr>"
  have t: "bpm_inv t n {f}" "same_views n s t"
    using drop_page[OF s f(1) d(2,3) _ l(2) lk t_def] d(4) by blast+
  let ?r = "t\<lparr>pages_ids := (pages_ids t)[nat f := - 1], is_dirty := (is_dirty t)[nat f := False],
      free_frames_ids := free_frames_ids t @ [f]\<rparr>"
  have "bpm_deletePage s p = Inr ?r"
    using Some f(2) d(1) l(1) vec_frame[OF ff(1) bpm_invD(2)[OF s]] vec_frame[OF ff(1) bpm_invD(4)[OF s]]
    by (cases "is_dirty s ! nat f") (simp_all add: bpm_deletePage_def t_def)
  moreover have u: "used ?r {} = used t {f}" by (auto simp: used_def)
  have ne: "f \<noteq> g" "g \<in> frame_ids" if "g \<in> used t {f}" for g using that by (auto simp: used_def)
  have ids: "pages_ids ?r ! nat g = pages_ids t ! nat g" "is_dirty ?r ! nat g = is_dirty t ! nat g" if "g \<in> used t {f}" for g
    by (simp_all add: nth_update_frame[OF ff(1) ne(2)[OF that] ne(1)[OF that]])
  have "bpm_inv ?r n {}"
    unfolding bpm_inv_def u
  proof (intro conjI)
    show "\<forall>p g. map_of (page_table ?r) p = Some g \<longleftrightarrow> g \<in> used t {f} \<and> pages_ids ?r ! nat g = p"
      using bpm_invD(9)[OF t(1)] ids(1) by auto
    show "\<forall>g \<in> used t {f}. 1 \<le> pages_ids ?r ! nat g \<and> pages_ids ?r ! nat g \<le> int n"
      using bpm_invD(10)[OF t(1)] ids(1) by auto
    show "\<forall>g \<in> used t {f}. is_dirty ?r ! nat g \<or> frames ?r ! nat g = dm_page (disk ?r) (nat (pages_ids ?r ! nat g))"
      using bpm_invD(11)[OF t(1)] ids by auto
    show "\<forall>g \<in> frame_ids. g \<in> set (free_frames_ids ?r) \<longrightarrow> \<not> is_dirty ?r ! nat g"
    proof (intro ballI impI)
      fix g assume g: "g \<in> frame_ids" "g \<in> set (free_frames_ids ?r)"
      show "\<not> is_dirty ?r ! nat g"
      proof (cases "f = g")
        case True
        then show ?thesis using ff(1) bpm_invD(4)[OF t(1)] by (simp add: frame_ids_iff)
      next
        case False
        then show ?thesis using g bpm_invD(12)[OF t(1) g(1)] by (simp add: nth_update_frame[OF ff(1) g(1) False])
      qed
    qed
    show "\<exists>ks. lru_state (bp_lru ?r) BUFFER_SIZE ks \<and> set ks = used t {f}" using bpm_invD(13)[OF t(1)] by simp
    show "distinct (free_frames_ids ?r)" using bpm_invD(7)[OF t(1)] ff(2) by (simp add: t_def)
    show "set (free_frames_ids ?r) \<subseteq> frame_ids" using bpm_invD(8)[OF t(1)] ff(1) by simp
  qed (use bpm_invD(1-6,14)[OF t(1)] in simp_all)
  moreover have "same_views n s ?r" using t(2) view_cong[of ?r t] by (simp add: same_views_def)
  moreover have "map_of (page_table ?r) p = None" using f(2) by (simp add: t_def)
  ultimately show ?thesis by (intro exI[of _ ?r]) simp
qed

lemma flush_prefix:
  assumes s: "bpm_inv s n {}" and k: "k \<le> BUFFER_SIZE"
  shows "\<exists>d. rfold (\<lambda>i d. rbind (vec_at (pages_ids s) i) (\<lambda>p. rbind (vec_at (is_dirty s) i) (\<lambda>dirty.
        rbind (vec_at (frames s) i) (\<lambda>fr. if dirty \<and> p \<noteq> - 1 then writePage d p fr else Inr d)))) [0..<k] (disk s) = Inr d \<and>
    dm_inv d n \<and> tables_names d = tables_names (disk s) \<and> dm_capacity d = dm_capacity (disk s) \<and>
    (\<forall>j. dm_page d j = (case map_of (page_table s) (int j) of
        Some f \<Rightarrow> if nat f < k then frames s ! nat f else dm_page (disk s) j | None \<Rightarrow> dm_page (disk s) j))"
  using k
proof (induction k)
  case 0
  then show ?case using bpm_invD(1)[OF s] by (simp split: option.split)
next
  case (Suc k)
  let ?step = "\<lambda>i d. rbind (vec_at (pages_ids s) i) (\<lambda>p. rbind (vec_at (is_dirty s) i) (\<lambda>dirty.
        rbind (vec_at (frames s) i) (\<lambda>fr. if dirty \<and> p \<noteq> - 1 then writePage d p fr else Inr d)))"
  obtain d where d: "rfold ?step [0..<k] (disk s) = Inr d" "dm_inv d n" "tables_names d = tables_names (disk s)"
    "dm_capacity d = dm_capacity (disk s)"
    "\<forall>j. dm_page d j = (case map_of (page_table s) (int j) of
        Some f \<Rightarrow> if nat f < k then frames s ! nat f else dm_page (disk s) j | None \<Rightarrow> dm_page (disk s) j)"
    using Suc by auto
  let ?f = "int k" and ?p = "pages_ids s ! k"
  have kf: "?f \<in> frame_ids" "k < BUFFER_SIZE" using Suc.prems by (simp_all add: frame_ids_def)
  have fold: "rfold ?step [0..<Suc k] (disk s) = (if is_dirty s ! k \<and> ?p \<noteq> - 1 then writePage d ?p (frames s ! k) else Inr d)"
    using d(1) kf(2) bpm_invD(2-4)[OF s] by (simp add: rfold_append rfold_Nil)
  have last: "map_of (page_table s) (int j) = Some g \<Longrightarrow> nat g < Suc k \<longleftrightarrow> nat g < k \<or> g = ?f" for j g
  proof -
    assume "map_of (page_table s) (int j) = Some g"
    then have "g \<in> frame_ids" using bpm_invD(9)[OF s] used_frame by blast
    then show ?thesis by (auto simp: frame_ids_iff)
  qed
  show ?case
  proof (cases "?f \<in> used s {}")
    case False
    then have free: "\<not> is_dirty s ! k" using bpm_invD(12)[OF s kf(1)] kf(1) by (auto simp: used_def)
    have "map_of (page_table s) (int j) \<noteq> Some ?f" for j using bpm_invD(9)[OF s] False by blast
    then have "dm_page d j = (case map_of (page_table s) (int j) of
        Some f \<Rightarrow> if nat f < Suc k then frames s ! nat f else dm_page (disk s) j | None \<Rightarrow> dm_page (disk s) j)" for j
      using d(5) last[of j] by (auto split: option.split)
    then show ?thesis using fold free d by auto
  next
    case True
    have p: "1 \<le> ?p" "?p \<le> int n" using bpm_invD(10)[OF s True] by simp_all
    have pk: "map_of (page_table s) ?p = Some ?f" using page_of_frame[OF s True] by simp
    have only: "map_of (page_table s) (int j) = Some ?f \<longleftrightarrow> int j = ?p" for j
      using bpm_invD(9)[OF s, of "int j" ?f] True by auto
    have cf: "canon (frames s ! k)" using canon_frame[OF s kf(1)] by simp
    have "\<exists>e. rfold ?step [0..<Suc k] (disk s) = Inr e \<and> dm_inv e n \<and> tables_names e = tables_names d \<and>
        dm_capacity e = dm_capacity d \<and> (\<forall>j. dm_page e j = (if int j = ?p then frames s ! k else dm_page d j))"
    proof (cases "is_dirty s ! k")
      case True
      obtain e where "writePage d (int (nat ?p)) (frames s ! k) = Inr e" "dm_inv e n"
        "\<forall>j. dm_page e j = (if j = nat ?p then frames s ! k else dm_page d j)"
        "dm_capacity e = dm_capacity d" "tables_names e = tables_names d"
      proof -
        have "1 \<le> nat ?p" "nat ?p \<le> n" using p by linarith+
        from writePage_inv[OF d(2) this cf] that show thesis by blast
      qed
      moreover have "j = nat ?p \<longleftrightarrow> int j = ?p" for j using p by auto
      ultimately show ?thesis using True p fold by (intro exI[of _ e]) auto
    next
      case False
      have cl: "frames s ! k = dm_page (disk s) (nat ?p)" using bpm_invD(11)[OF s True] False by simp
      have "dm_page d j = frames s ! k" if "int j = ?p" for j
        using d(5) that pk cl by (auto simp: that[symmetric])
      then show ?thesis using False fold d(2) by (intro exI[of _ d]) auto
    qed
    then obtain e where e: "rfold ?step [0..<Suc k] (disk s) = Inr e" "dm_inv e n" "tables_names e = tables_names d"
      "dm_capacity e = dm_capacity d" "\<forall>j. dm_page e j = (if int j = ?p then frames s ! k else dm_page d j)" by blast
    have "dm_page e j = (case map_of (page_table s) (int j) of
        Some f \<Rightarrow> if nat f < Suc k then frames s ! nat f else dm_page (disk s) j | None \<Rightarrow> dm_page (disk s) j)" for j
    proof (cases "int j = ?p")
      case True
      then show ?thesis using e(5) pk by simp
    next
      case False
      then have "map_of (page_table s) (int j) \<noteq> Some ?f" using only by simp
      then show ?thesis using e(5) d(5) False last[of j] by (auto split: option.split)
    qed
    with e d(3,4) show ?thesis by auto
  qed
qed

theorem bpm_flush_inv:
  assumes s: "bpm_inv s n {}"
  shows "\<exists>d. bpm_flush s = Inr d \<and> dm_inv d n \<and> tables_names d = tables_names (disk s) \<and>
    dm_capacity d = dm_capacity (disk s) \<and> (\<forall>j. dm_page d j = view s j)"
proof -
  obtain d where d: "bpm_flush s = Inr d" "dm_inv d n" "tables_names d = tables_names (disk s)"
    "dm_capacity d = dm_capacity (disk s)"
    "\<forall>j. dm_page d j = (case map_of (page_table s) (int j) of
        Some f \<Rightarrow> if nat f < BUFFER_SIZE then frames s ! nat f else dm_page (disk s) j | None \<Rightarrow> dm_page (disk s) j)"
    using flush_prefix[OF s order_refl] unfolding bpm_flush_def by blast
  have "dm_page d j = view s j" for j
  proof (cases "map_of (page_table s) (int j)")
    case (Some f)
    then have "f \<in> frame_ids" using bpm_invD(9)[OF s] used_frame by blast
    then show ?thesis using d(5) Some by (simp add: view_def frame_ids_iff)
  qed (use d(5) in \<open>simp add: view_def\<close>)
  with d show ?thesis by blast
qed

text \<open>Closing the pool and the disk manager, and opening the file again.\<close>

lemma pool_restart:
  assumes s: "bpm_inv s n {}" and t: "tables_ok (disk s)"
    and fit: "16 + 12 * n + seq_size table_size (tables_names (disk s)) \<le> PAGE_SIZE"
  shows "\<exists>d d'. bpm_close s = Inr d \<and> DiskManager (Some (db_file d)) = Inr d' \<and>
    bpm_inv (BufferPoolManager d') n {} \<and> same_views n s (BufferPoolManager d') \<and>
    tables_names d' = tables_names (disk s)"
proof -
  obtain d where d: "bpm_flush s = Inr d" "dm_inv d n" "tables_names d = tables_names (disk s)" "\<forall>j. dm_page d j = view s j"
    using bpm_flush_inv[OF s] by blast
  have "tables_ok d" using t d(3) by (simp add: tables_ok_def)
  moreover have "meta_size d \<le> PAGE_SIZE" using fit d(2,3) by (simp add: meta_size_def dm_inv_def)
  ultimately obtain d1 d2 where r: "dm_close d = Inr d1" "DiskManager (Some (db_file d1)) = Inr d2" "dm_inv d2 n"
    "tables_names d2 = tables_names d" "\<forall>i \<ge> 1. dm_page d2 i = dm_page d i"
    using disk_pages_reopen[OF d(2)] by blast
  have "same_views n s (BufferPoolManager d2)"
    using r(5) d(4) BufferPoolManager_inv(2)[OF r(3)] by (simp add: same_views_def)
  with d r BufferPoolManager_inv(1)[OF r(3)] show ?thesis by (auto simp: bpm_close_def)
qed

section \<open>Properties\<close>

text \<open>
  Fetching a page of the database succeeds whatever is cached, returns a frame that holds the
  page's content, evicting and writing back a victim if it must, and changes the content of no page.
\<close>

lemma fetch_is_transparent:
  assumes "bpm_inv s n {}" "1 \<le> i" "i \<le> n"
  shows "\<exists>f t. fetchPage s (int i) = Inr (Some f, t) \<and> bpm_inv t n {} \<and> frame_at t f = Inr (view s i) \<and>
    same_views n s t"
  using fetchPage_inv[OF assms] by blast

lemma demo_pool:
  "\<exists>d t. DiskManager None = Inr d \<and> newPage (BufferPoolManager d) = Inr (1, t) \<and> bpm_inv t 1 {} \<and>
     view t 1 = Page 1 \<and> map_of (page_table t) 1 \<noteq> None \<and> tables_names (disk t) = []"
proof -
  obtain d where d: "DiskManager None = Inr d" "dm_inv d 0" "dm_capacity d = 100" "tables_names d = []"
    using new_disk by blast
  have "in_i32 (2 * dm_capacity (disk (BufferPoolManager d)) * int PAGE_SIZE)"
    by (simp add: d(3) BufferPoolManager_def in_i32_def PAGE_SIZE_def)
  from newPage_inv[OF BufferPoolManager_inv(1)[OF d(2)] this] d(1,4) show ?thesis
    by (auto simp: BufferPoolManager_def)
qed

lemma fetch_is_transparent_witness:
  "\<exists>d s f t. DiskManager None = Inr d \<and> newPage (BufferPoolManager d) = Inr (1, s) \<and>
     fetchPage s 1 = Inr (Some f, t) \<and> frame_at t f = Inr (Page 1)"
proof -
  obtain d s where s: "DiskManager None = Inr d" "newPage (BufferPoolManager d) = Inr (1, s)" "bpm_inv s 1 {}" "view s 1 = Page 1"
    using demo_pool by blast
  from fetch_is_transparent[OF s(3), of 1] s(1,2,4) show ?thesis by auto
qed

text \<open>
  A new page gets the next page id and is empty, and the other pages keep their content.
\<close>

lemma new_page_is_fresh:
  assumes "bpm_inv s n {}" "in_i32 (2 * dm_capacity (disk s) * int PAGE_SIZE)"
  shows "\<exists>t. newPage s = Inr (int (Suc n), t) \<and> bpm_inv t (Suc n) {} \<and> same_views n s t \<and>
    view t (Suc n) = Page (int (Suc n))"
  using newPage_inv[OF assms] by blast

lemma new_page_is_fresh_witness:
  "\<exists>d s t. DiskManager None = Inr d \<and> newPage (BufferPoolManager d) = Inr (1, s) \<and> view s 1 = Page 1"
proof -
  obtain d where d: "DiskManager None = Inr d" "dm_inv d 0" "dm_capacity d = 100" using new_disk by blast
  have "in_i32 (2 * dm_capacity (disk (BufferPoolManager d)) * int PAGE_SIZE)"
    by (simp add: d(3) BufferPoolManager_def in_i32_def PAGE_SIZE_def)
  from new_page_is_fresh[OF BufferPoolManager_inv(1)[OF d(2)] this] d(1) show ?thesis by auto
qed

text \<open>
  C37. What a client writes into a cached page and marks as dirty survives: after the destructor of
  the pool and of the disk manager and a restart, every page has the content it had in the pool.
\<close>

theorem pool_contents_survive_restart:
  assumes s: "bpm_inv s n {}" and t: "tables_ok (disk s)"
    and fit: "16 + 12 * n + seq_size table_size (tables_names (disk s)) \<le> PAGE_SIZE"
  shows "\<exists>d d'. bpm_close s = Inr d \<and> DiskManager (Some (db_file d)) = Inr d' \<and>
    bpm_inv (BufferPoolManager d') n {} \<and> same_views n s (BufferPoolManager d') \<and>
    tables_names d' = tables_names (disk s)"
  using pool_restart[OF assms] .

lemma pool_contents_survive_restart_witness:
  "\<exists>d s d1 d2. DiskManager None = Inr d \<and> newPage (BufferPoolManager d) = Inr (1, s) \<and> bpm_close s = Inr d1 \<and>
     DiskManager (Some (db_file d1)) = Inr d2 \<and> view (BufferPoolManager d2) 1 = Page 1"
proof -
  obtain d s where s: "DiskManager None = Inr d" "newPage (BufferPoolManager d) = Inr (1, s)" "bpm_inv s 1 {}"
    "view s 1 = Page 1" "tables_names (disk s) = []" using demo_pool by blast
  have "tables_ok (disk s)" "16 + 12 * 1 + seq_size table_size (tables_names (disk s)) \<le> PAGE_SIZE"
    using s(5) by (simp_all add: tables_ok_def PAGE_SIZE_def)
  from pool_contents_survive_restart[OF s(3) this] s(1,2,4) show ?thesis by (auto simp: same_views_def)
qed

text \<open>
  Overwriting the frame of a cached page and marking the page changes the content of this page
  and of no other one.
\<close>

lemma marked_write_changes_one_page:
  assumes "bpm_inv s n {}" "map_of (page_table s) (int i) = Some f" "canon b"
  shows "\<exists>t. markAsDirty (store_frame s f b) (int i) = Inr t \<and> bpm_inv t n {} \<and> view t = (view s)(i := b)"
proof -
  obtain t where t: "markAsDirty (store_frame s f b) (int i) = Inr t" "bpm_inv t n {}" "view t i = b"
    "\<forall>j. j \<noteq> i \<longrightarrow> view t j = view s j" using write_page_inv[OF assms] by blast
  then have "view t = (view s)(i := b)" by auto
  with t show ?thesis by blast
qed

lemma marked_write_changes_one_page_witness:
  "\<exists>d s f t. DiskManager None = Inr d \<and> newPage (BufferPoolManager d) = Inr (1, s) \<and>
     markAsDirty (store_frame s f (Page 77)) 1 = Inr t \<and> view t 1 = Page 77"
proof -
  obtain d s where s: "DiskManager None = Inr d" "newPage (BufferPoolManager d) = Inr (1, s)" "bpm_inv s 1 {}"
    "map_of (page_table s) 1 \<noteq> None" using demo_pool by blast
  then obtain f where f: "map_of (page_table s) (int 1) = Some f" by auto
  from marked_write_changes_one_page[OF s(3) f Page_canon[of 77]]
  obtain t where t: "markAsDirty (store_frame s f (Page 77)) 1 = Inr t" "view t = (view s)(1 := Page 77)" by auto
  then have "view t 1 = Page 77" by simp
  with t(1) s(1,2) show ?thesis by blast
qed

text \<open>
  Marking a page that is not cached registers it in frame 0 without reading it: the next fetch of
  the page returns whatever frame 0 holds.
\<close>

theorem mark_uncached_page_aliases_frame_0:
  assumes s: "bpm_inv s n {}" and p: "map_of (page_table s) p = None" "p \<noteq> - 1"
  shows "\<exists>t u. markAsDirty s p = Inr t \<and> fetchPage t p = Inr (Some 0, u) \<and> frame_at u 0 = Inr (frames s ! 0)"
proof -
  have ff: "0 \<in> frame_ids" by (simp add: frame_ids_def BUFFER_SIZE_def)
  let ?t = "s\<lparr>page_table := AList.update p 0 (page_table s), is_dirty := (is_dirty s)[0 := True]\<rparr>"
  have t: "markAsDirty s p = Inr ?t"
    using p(1) vec_frame[OF ff bpm_invD(4)[OF s]] by (simp add: markAsDirty_def)
  obtain ks where ks: "lru_state (bp_lru s) BUFFER_SIZE ks" using bpm_invD(13)[OF s] by blast
  obtain l v where l: "get_frame (bp_lru s) 0 = Inr (v, l)"
    using lru.touch_hit[OF ks(1), of 0] lru.touch_miss[OF ks(1), of 0] by (cases "0 \<in> set ks") auto
  have fr: "vec_at_int (frames s) 0 = Inr (frames s ! 0)" using vec_frame[OF ff bpm_invD(2)[OF s]] by simp
  show ?thesis using t p(2) l fr by (simp add: fetchPage_def frame_at_def)
qed

lemma mark_uncached_page_aliases_frame_0_witness:
  "\<exists>d e t u. DiskManager None = Inr d \<and> allocatePage d = Inr (PAGE_SIZE, e) \<and>
     markAsDirty (BufferPoolManager e) 1 = Inr t \<and> fetchPage t 1 = Inr (Some 0, u) \<and>
     frame_at u 0 = Inr (zero_buf PAGE_SIZE) \<and> view (BufferPoolManager e) 1 = Page 1"
proof -
  obtain d where d: "DiskManager None = Inr d" "dm_inv d 0" "dm_capacity d = 100" using new_disk by blast
  have "in_i32 (2 * dm_capacity d * int PAGE_SIZE)" by (simp add: d(3) in_i32_def PAGE_SIZE_def)
  from allocatePage_inv[OF d(2) this] obtain e where e: "allocatePage d = Inr (PAGE_SIZE, e)" "dm_inv e 1"
    "dm_page e 1 = Page 1" by auto
  have "map_of (page_table (BufferPoolManager e)) 1 = None" "frames (BufferPoolManager e) ! 0 = zero_buf PAGE_SIZE"
    by (simp_all add: BufferPoolManager_def BUFFER_SIZE_def)
  with mark_uncached_page_aliases_frame_0[OF BufferPoolManager_inv(1)[OF e(2)], of 1] d(1) e BufferPoolManager_inv(2)[OF e(2)]
  show ?thesis by auto
qed

end
