(* ===== verification/Pool_Client.thy ===== *)
theory Pool_Client imports Buffer_Pool
begin

text \<open>
  How the rest of the program uses the buffer pool: it fetches a page, works on the frame behind the
  pointer and marks the page as dirty. The lemmas here restate the theorems on the buffer pool for this
  pattern. The frame that was used last is not the victim of the next eviction, so a pointer that is
  kept across one \<^verbatim>\<open>newPage\<close> still points to its page.
\<close>

text \<open>\<^verbatim>\<open>char* buffer = BPM->fetchPage(id)\<close> followed by an access through \<^verbatim>\<open>buffer\<close>.\<close>

definition fetch_frame :: "bpm \<Rightarrow> int \<Rightarrow> (int \<times> buf \<times> bpm) res" where
  "fetch_frame s page_id =
     rbind (fetchPage s page_id) (\<lambda>(p, s).
     rbind (get_or_ub p) (\<lambda>f.
     rbind (frame_at s f) (\<lambda>b. Inr (f, b, s))))"

section \<open>Operations on a page keep its size\<close>

text \<open>\<open>gives P m\<close>: when \<open>m\<close> returns a value, it satisfies \<open>P\<close>.\<close>

definition gives :: "('a \<Rightarrow> bool) \<Rightarrow> 'a res \<Rightarrow> bool" where
  "gives P m \<longleftrightarrow> (\<forall>x. m = Inr x \<longrightarrow> P x)"

lemma gives_Inr [intro!]: "P x \<Longrightarrow> gives P (Inr x)" and gives_Inl [intro!]: "gives P (Inl e)"
  by (simp_all add: gives_def)

lemma gives_rbind: "gives Q m \<Longrightarrow> (\<And>x. Q x \<Longrightarrow> gives P (f x)) \<Longrightarrow> gives P (rbind m f)"
  by (cases m) (simp_all add: gives_def)

lemma gives_rbind_any: "(\<And>x. m = Inr x \<Longrightarrow> gives P (f x)) \<Longrightarrow> gives P (rbind m f)"
  by (cases m) (simp_all add: gives_def)

lemma givesD: "gives P m \<Longrightarrow> m = Inr x \<Longrightarrow> P x"
  by (simp add: gives_def)

lemma memcpy_to_canon: "canon b \<Longrightarrow> gives canon (memcpy_to b off bs)"
  by (auto simp: gives_def memcpy_to_eq_Inr canon_def put_def)

lemma set_bytes_canon: "canon b \<Longrightarrow> off + length bs \<le> PAGE_SIZE \<Longrightarrow> canon (set_bytes b off bs)"
  by (auto simp: canon_def set_bytes_def put_def)

lemma setters_canon [simp]:
  "canon b \<Longrightarrow> canon (set_page_id b v)" "canon b \<Longrightarrow> canon (set_next_page_id b i)"
  "canon b \<Longrightarrow> canon (set_num_tuples b v)" "canon b \<Longrightarrow> canon (set_num_deleted b v)" "canon b \<Longrightarrow> canon (set_free b v)"
  by (simp_all add: set_defs set_bytes_canon PAGE_SIZE_def)

lemmas gives_copy = gives_rbind[OF memcpy_to_canon]
lemmas gives_get = gives_rbind_any[where m = "getFieldValueInt _"] gives_rbind_any[where m = "getFieldValueBool _"]
  gives_rbind_any[where m = "string_bytes _"] gives_rbind_any[where m = "slot_size _ _"]
  gives_rbind_any[where m = "slot_offset _ _"] gives_rbind_any[where m = "slot_deleted _ _"]
  gives_rbind_any[where m = "Tuple_deserialize _ _"] gives_rbind_any[where m = "at_off _ _"]

lemma gives_if: "(c \<Longrightarrow> gives P a) \<Longrightarrow> (\<not> c \<Longrightarrow> gives P b) \<Longrightarrow> gives P (if c then a else b)"
  by simp

lemma gives_rbind_if: "gives Q (if c then a else b) \<Longrightarrow> (\<And>x. Q x \<Longrightarrow> gives P (f x)) \<Longrightarrow>
  gives P (rbind (if c then a else b) f)"
  by (rule gives_rbind)

lemma Field_serialize_canon: "canon b \<Longrightarrow> gives canon (Field_serialize f b off)"
  unfolding Field_serialize_def
  by (cases "fieldType f"; cases "fval f"; simp only: FieldType.case field_val.case)
     (intro gives_copy gives_get gives_if gives_rbind_if[where Q = canon] memcpy_to_canon gives_Inl; assumption)+

lemma ser_fields_canon: "canon b \<Longrightarrow> gives canon (ser_fields fs b base off)"
  by (induction fs arbitrary: b off) (auto intro!: gives_get gives_rbind[OF Field_serialize_canon])

lemma Tuple_serialize_canon: "canon b \<Longrightarrow> gives canon (Tuple_serialize t b base)"
  unfolding Tuple_serialize_def by (intro gives_rbind[OF memcpy_to_canon] ser_fields_canon)

lemma set_slot_canon: "canon p \<Longrightarrow> gives canon (set_slot p i off n)"
  unfolding set_slot_def by (intro gives_copy memcpy_to_canon)

lemmas canon_binds = gives_rbind[OF Tuple_serialize_canon] gives_rbind[OF set_slot_canon] gives_copy gives_get

lemma Page_insertTuple_canon: "canon p \<Longrightarrow> gives (\<lambda>(i, p). canon p) (Page_insertTuple p t)"
  unfolding Page_insertTuple_def Let_def
  by (auto intro!: canon_binds setters_canon)

lemma Page_deleteTuple_canon: "canon p \<Longrightarrow> gives (\<lambda>(ok, p). canon p) (Page_deleteTuple p i)"
  unfolding Page_deleteTuple_def by (auto intro!: canon_binds setters_canon)

lemma Page_updateTuple_canon: "canon p \<Longrightarrow> gives (\<lambda>(j, p). canon p) (Page_updateTuple p i t)"
  unfolding Page_updateTuple_def
  by (auto intro!: canon_binds gives_rbind[OF Page_deleteTuple_canon] Page_insertTuple_canon)

section \<open>Pointers that survive\<close>

definition cached :: "bpm \<Rightarrow> nat \<Rightarrow> int \<Rightarrow> bool" where
  "cached s i f \<longleftrightarrow> map_of (page_table s) (int i) = Some f"

lemma take_frame_spares:
  assumes s: "bpm_inv s n {}" and f: "fresh_frame s f" "cached s i f"
  shows "\<exists>g t. take_frame s = Inr (g, t) \<and> cached t i f"
proof (cases "free_frames_ids s = []")
  case False
  then show ?thesis using f(2) by (simp add: take_frame_def cached_def)
next
  case True
  obtain ks where ks: "lru_state (bp_lru s) BUFFER_SIZE (f # ks)" "set (f # ks) = used s {}"
    using f(1) by (auto simp: fresh_frame_def)
  have dist: "distinct (f # ks)" using lru.rep_distinct[OF ks(1)] .
  have "card (set (f # ks)) = BUFFER_SIZE" using ks(2) True by (simp add: used_def frame_ids_def)
  then have "ks \<noteq> []" by (auto simp: BUFFER_SIZE_def)
  then obtain js g where js: "ks = js @ [g]" by (metis rev_exhaust)
  then have g: "g \<in> used s {}" "g \<noteq> f" using ks(2) dist by auto
  obtain l where l: "evict_frame (bp_lru s) = Inr (g, l)"
    using lru.evict_last[of "bp_lru s" BUFFER_SIZE "f # js" g] ks(1) js by auto
  have "pages_ids s ! nat g \<noteq> int i"
    using bpm_invD(9)[OF s] g f(2) by (metis cached_def option.inject)
  moreover obtain d where "(if is_dirty s ! nat g then writePage (disk s) (pages_ids s ! nat g) (frames s ! nat g) else Inr (disk s)) = Inr d"
    using write_back[OF s g(1)] by blast
  moreover have "g \<in> frame_ids" using g(1) by (rule used_frame)
  note vec_frame[OF this bpm_invD(2)[OF s]] vec_frame[OF this bpm_invD(3)[OF s]] vec_frame[OF this bpm_invD(4)[OF s]]
  ultimately show ?thesis using True l f(2)
    by (cases "is_dirty s ! nat g") (simp_all add: take_frame_def cached_def)
qed

text \<open>Fetching a page, and a new page while a pointer is kept.\<close>

lemma fetch_frame_inv:
  assumes s: "bpm_inv s n {}" and i: "1 \<le> i" "i \<le> n"
  shows "\<exists>f t. fetch_frame s (int i) = Inr (f, view s i, t) \<and> bpm_inv t n {} \<and> same_views n s t \<and>
    cached t i f \<and> fresh_frame t f \<and> dm_capacity (disk t) = dm_capacity (disk s) \<and>
    tables_names (disk t) = tables_names (disk s)"
  using fetchPage_inv[OF assms] by (fastforce simp: fetch_frame_def cached_def)

lemma newPage_spares:
  assumes s: "bpm_inv s n {}" and f: "fresh_frame s f" "cached s i f" and i: "1 \<le> i" "i \<le> n"
    and c: "in_i32 (2 * dm_capacity (disk s) * int PAGE_SIZE)"
  shows "\<exists>t. newPage s = Inr (int (Suc n), t) \<and> bpm_inv t (Suc n) {} \<and> same_views n s t \<and>
    view t (Suc n) = Page (int (Suc n)) \<and> cached t i f \<and> frame_at t f = Inr (view s i) \<and>
    dm_capacity (disk t) \<le> 2 * dm_capacity (disk s) \<and> tables_names (disk t) = tables_names (disk s)"
proof -
  obtain t where t: "newPage s = Inr (int (Suc n), t)" "bpm_inv t (Suc n) {}" "same_views n s t"
    "view t (Suc n) = Page (int (Suc n))" "dm_capacity (disk t) \<le> 2 * dm_capacity (disk s)"
    "tables_names (disk t) = tables_names (disk s)"
    using newPage_inv[OF s c] by blast
  obtain g u where g: "take_frame s = Inr (g, u)" "cached u i f" using take_frame_spares[OF s f] by blast
  have "cached t i f"
    using t(1) g i unfolding newPage_def install_def cached_def
    by (auto simp: rbind_eq_Inr Let_def)
  moreover from this have "f \<in> used t {}" "view t i = frames t ! nat f"
    using bpm_invD(9)[OF t(2), of "int i" f] by (simp_all add: cached_def view_def)
  then have "frame_at t f = Inr (view t i)"
    using vec_frame[OF used_frame bpm_invD(2)[OF t(2)]] by (simp add: frame_at_def)
  ultimately show ?thesis using t i by (auto simp: same_views_def)
qed

text \<open>Overwriting a cached page and marking it.\<close>

lemma mark_written:
  assumes s: "bpm_inv s n {}" and f: "cached s i f" and b: "canon b"
  shows "\<exists>t. markAsDirty (store_frame s f b) (int i) = Inr t \<and> bpm_inv t n {} \<and> view t = (view s)(i := b) \<and>
    disk t = disk s \<and> page_table t = page_table s"
proof -
  obtain t where "markAsDirty (store_frame s f b) (int i) = Inr t" "bpm_inv t n {}" "view t i = b"
    "\<forall>j. j \<noteq> i \<longrightarrow> view t j = view s j" "page_table t = page_table s" "disk t = disk s"
    using write_page_inv[OF s _ b, of i f] f by (auto simp: cached_def)
  moreover from this have "view t = (view s)(i := b)" by auto
  ultimately show ?thesis by blast
qed

lemma view_canon: "bpm_inv s n {} \<Longrightarrow> canon (view s i)"
  using canon_frame bpm_invD(9) used_frame by (fastforce simp: view_def split: option.split)

end
