(* ===== verification/Column_Model.thy ===== *)
theory Column_Model imports Field_Laws Codec
begin

text \<open>
  \<^verbatim>\<open>Column\<close> (src/Storage/Table/Column.c++, Include/Storage/Table/Column.h): a column of a schema, with
  a value of its own only when it stands for a constant of a query. The byte format holds the type, the
  maximal size, the name and the value, but not whether the column is nullable.
\<close>

record column =
  cfield :: "field option"
  col_type :: FieldType
  col_name :: string
  col_max_size :: int
  is_nullable :: bool

definition Column :: "FieldType \<Rightarrow> string \<Rightarrow> int \<Rightarrow> column" where
  "Column t name n = \<lparr>cfield = None, col_type = t, col_name = name, col_max_size = n, is_nullable = True\<rparr>"

definition Column_field :: "field \<Rightarrow> string \<Rightarrow> int \<Rightarrow> column res" where
  "Column_field f name n = rbind (Field_copy f) (\<lambda>g.
     Inr \<lparr>cfield = Some g, col_type = fieldType f, col_name = name, col_max_size = n, is_nullable = True\<rparr>)"

definition setColName :: "column \<Rightarrow> string \<Rightarrow> column" where
  "setColName c name = c\<lparr>col_name := name\<rparr>"

definition set_is_nullable :: "column \<Rightarrow> bool \<Rightarrow> column" where
  "set_is_nullable c v = c\<lparr>is_nullable := v\<rparr>"

text \<open>\<^verbatim>\<open>operator=\<close> leaves \<^verbatim>\<open>is_nullable\<close> of the target alone.\<close>

definition Column_assign :: "column \<Rightarrow> column \<Rightarrow> column res" where
  "Column_assign this other =
     (let c = this\<lparr>col_type := col_type other, col_name := col_name other, col_max_size := col_max_size other\<rparr>
      in case cfield other of
           None \<Rightarrow> Inr (c\<lparr>cfield := None\<rparr>)
         | Some g \<Rightarrow> rbind (case cfield this of None \<Rightarrow> Field_copy g | Some f \<Rightarrow> Field_assign f g)
                      (\<lambda>f. Inr (c\<lparr>cfield := Some f\<rparr>)))"

section \<open>The byte format\<close>

definition type_letter :: "FieldType \<Rightarrow> byte option" where
  "type_letter t = (case t of TYPE_INT \<Rightarrow> Some (char_byte CHR ''I'') | TYPE_STRING \<Rightarrow> Some (char_byte CHR ''S'')
     | TYPE_FLOAT \<Rightarrow> Some (char_byte CHR ''F'') | TYPE_BOOL \<Rightarrow> Some (char_byte CHR ''B'') | TYPE_NULL \<Rightarrow> None)"

definition letter_type :: "byte \<Rightarrow> FieldType option" where
  "letter_type b = (if b = char_byte CHR ''I'' then Some TYPE_INT else if b = char_byte CHR ''S'' then Some TYPE_STRING
     else if b = char_byte CHR ''F'' then Some TYPE_FLOAT else if b = char_byte CHR ''B'' then Some TYPE_BOOL else None)"

definition write_letter :: "FieldType \<Rightarrow> buf \<Rightarrow> nat \<Rightarrow> buf res" where
  "write_letter t b off = (case type_letter t of Some x \<Rightarrow> memcpy_to b off [x] | None \<Rightarrow> Inr b)"

definition serializeCol :: "column \<Rightarrow> buf \<Rightarrow> nat \<Rightarrow> buf res" where
  "serializeCol c b off =
     rbind (write_letter (col_type c) b off) (\<lambda>b.
     rbind (memcpy_to b (off + 1) (i32_bytes (col_max_size c))) (\<lambda>b.
     rbind (memcpy_to b (off + 5) (i32_bytes (int (length (col_name c))))) (\<lambda>b.
     rbind (memcpy_to b (off + 9) (str_bytes (col_name c))) (\<lambda>b.
     case cfield c of None \<Rightarrow> Inr b | Some f \<Rightarrow> Field_serialize f b (off + 9 + length (col_name c))))))"

text \<open>\<open>c\<close> is the object that is overwritten; an unknown letter leaves its type alone.\<close>

definition deSerializeCol :: "column \<Rightarrow> buf \<Rightarrow> nat \<Rightarrow> column res" where
  "deSerializeCol c b off =
     rbind (memcpy_from b off 1) (\<lambda>ty.
     let t = (case letter_type (hd ty) of Some t \<Rightarrow> t | None \<Rightarrow> col_type c) in
     rbind (memcpy_from b (off + 1) 4) (\<lambda>m.
     rbind (memcpy_from b (off + 5) 4) (\<lambda>n.
     if i32_val n < 0 then Inl (Throw ''basic_string::_M_replace'')
     else rbind (memcpy_from b (off + 9) (nat (i32_val n))) (\<lambda>nm.
     let c = c\<lparr>col_type := t, col_max_size := i32_val m, col_name := bytes_str nm\<rparr>
     in case cfield c of
          None \<Rightarrow> Inr c
        | Some f \<Rightarrow> rbind (Field_deserialize f b (off + 9 + nat (i32_val n))) (\<lambda>f. Inr (c\<lparr>cfield := Some f\<rparr>))))))"

definition getColSize :: "column \<Rightarrow> int" where
  "getColSize c = 1 + 4 + 4 + int (length (col_name c)) +
     (case cfield c of None \<Rightarrow> 0 | Some f \<Rightarrow> getSerializedSize f)"

section \<open>The codec of schema columns\<close>

definition col_ok :: "column \<Rightarrow> bool" where
  "col_ok c \<longleftrightarrow> cfield c = None \<and> col_type c \<noteq> TYPE_NULL \<and> in_i32 (col_max_size c) \<and> length (col_name c) < 2 ^ 31"

definition col_enc :: "column \<Rightarrow> byte list" where
  "col_enc c = [the (type_letter (col_type c))] @ i32_bytes (col_max_size c) @
     i32_bytes (int (length (col_name c))) @ str_bytes (col_name c)"

definition col_eqv :: "column \<Rightarrow> column \<Rightarrow> bool" where
  "col_eqv c d \<longleftrightarrow> d = c\<lparr>is_nullable := True\<rparr>"

lemma letter_type_letter: "type_letter t = Some x \<Longrightarrow> letter_type x = Some t"
  by (cases t) (auto simp: type_letter_def letter_type_def char_byte_def)

lemma letter_ok: "col_ok c \<Longrightarrow> type_letter (col_type c) = Some (the (type_letter (col_type c)))"
  by (cases "col_type c") (simp_all add: col_ok_def type_letter_def)

lemma length_col_enc: "length (col_enc c) = 9 + length (col_name c)"
  by (simp add: col_enc_def)

lemma serializeCol_bytes:
  assumes "col_ok c"
  shows "serializeCol c b off = memcpy_to b off (col_enc c)"
proof -
  have "serializeCol c b off = rbind (memcpy_to b off [the (type_letter (col_type c))]) (\<lambda>b.
     rbind (memcpy_to b (off + 1) (i32_bytes (col_max_size c))) (\<lambda>b.
     rbind (memcpy_to b (off + 5) (i32_bytes (int (length (col_name c)))))
       (\<lambda>b. memcpy_to b (off + 9) (str_bytes (col_name c)))))"
    using assms by (cases "col_type c") (simp_all add: serializeCol_def write_letter_def col_ok_def type_letter_def)
  also have "\<dots> = memcpy_to b off (col_enc c)"
    using memcpy_to_append4[of b off "[the (type_letter (col_type c))]" "i32_bytes (col_max_size c)"
        "i32_bytes (int (length (col_name c)))" "str_bytes (col_name c)"]
    by (simp add: col_enc_def ac_simps)
  finally show ?thesis .
qed

lemma col_read_back:
  assumes ok: "col_ok c" and c0: "cfield c0 = None"
    and pk: "peek (mem b) off (length (col_enc c)) = col_enc c" and room: "off + length (col_enc c) \<le> cap b"
  shows "deSerializeCol c0 b off = Inr (c\<lparr>is_nullable := is_nullable c0\<rparr>)"
proof -
  let ?n = "length (col_name c)" and ?l = "the (type_letter (col_type c))"
  have "peek (mem b) off 1 @ peek (mem b) (off + 1) 4 @ peek (mem b) (off + 5) 4 @ peek (mem b) (off + 9) ?n
      = peek (mem b) off (1 + (4 + (4 + ?n)))"
    by (simp only: peek_add) (simp add: ac_simps)
  also have "\<dots> = [?l] @ i32_bytes (col_max_size c) @ i32_bytes (int ?n) @ str_bytes (col_name c)"
    using pk by (simp add: length_col_enc col_enc_def)
  finally have "peek (mem b) off 1 = [?l] \<and> peek (mem b) (off + 1) 4 = i32_bytes (col_max_size c)
      \<and> peek (mem b) (off + 5) 4 = i32_bytes (int ?n) \<and> peek (mem b) (off + 9) ?n = str_bytes (col_name c)"
    by (rule append4_eq) simp_all
  moreover have "letter_type ?l = Some (col_type c)" using letter_type_letter[OF letter_ok[OF ok]] .
  moreover have "in_i32 (int ?n)" using ok by (simp add: col_ok_def in_i32_def)
  ultimately show ?thesis
    using ok c0 room by (simp add: deSerializeCol_def memcpy_from_def length_col_enc col_ok_def Let_def)
qed

interpretation col: codec serializeCol "deSerializeCol (Column TYPE_INT '''' 1)" "\<lambda>c. nat (getColSize c)"
  col_enc "\<lambda>_. []" col_ok col_eqv
proof unfold_locales
  fix x y b off
  show "col_ok x \<Longrightarrow> serializeCol x b off = memcpy_to b off (col_enc x @ [])"
    by (simp add: serializeCol_bytes)
  show "\<exists>y. deSerializeCol (Column TYPE_INT '''' 1) b off = Inr y \<and> col_eqv x y"
    if "col_ok x" "peek (mem b) off (length (col_enc x)) = col_enc x" "off + length (col_enc x @ []) \<le> cap b"
    using col_read_back[OF that(1) _ that(2), of "Column TYPE_INT '''' 1"] that(3)
    by (simp add: Column_def col_eqv_def)
  show "col_ok x \<Longrightarrow> nat (getColSize x) = length (col_enc x)"
    by (simp add: getColSize_def col_ok_def length_col_enc nat_add_distrib)
  assume "col_ok x" "col_eqv x y"
  then obtain v where "y = x\<lparr>is_nullable := v\<rparr>" by (auto simp: col_eqv_def)
  with \<open>col_ok x\<close> show "col_ok y \<and> col_enc y = col_enc x \<and> ([] :: byte list) = []"
    by (simp add: col_ok_def col_enc_def)
qed

end
