(* ===== verification/Table_Model.thy ===== *)
theory Table_Model imports Pool_Client Column_Model Rid_Model
begin

text \<open>
  \<^verbatim>\<open>TableHeap\<close> (src/Storage/Table/TableHeap.c++, Include/Storage/Table/TableHeap.h): the rows of a table
  in a chain of pages of the buffer pool. The first page of the chain holds the metadata of the table,
  the rows are on the following ones, linked by the page headers. The object keeps the ends of the
  chain, the schema, a row count and the addresses of the rows.

  Every operation takes the buffer pool and the table and returns both. The secondary indexes of a
  table are not part of this record.
\<close>

record table_heap =
  table_name :: string
  table_id :: int
  first_page_id :: int
  last_page_id :: int
  cols :: "column list"
  num_of_tuples :: int
  starting_rid :: rid
  stopping_rid :: rid
  table_rids :: "rid list"

text \<open>The members before a constructor's body; \<open>tid\<close> stands for the uninitialised \<^verbatim>\<open>table_id\<close>.\<close>

definition blank_table :: "int \<Rightarrow> table_heap" where
  "blank_table tid = \<lparr>table_name = '''', table_id = tid, first_page_id = - 1, last_page_id = - 1, cols = [],
     num_of_tuples = 0, starting_rid = RID (- 1) (- 1), stopping_rid = RID (- 1) (- 1), table_rids = []\<rparr>"

text \<open>The constructor with both page ids \<^verbatim>\<open>-1\<close>: a new table.\<close>

definition new_table :: "bpm \<Rightarrow> int \<Rightarrow> (table_heap \<times> bpm) res" where
  "new_table s tid =
     rbind (newPage s) (\<lambda>(p, s).
     rbind (newPage s) (\<lambda>(q, s).
     rbind (fetch_frame s p) (\<lambda>(f, b, s).
     rbind (markAsDirty (store_frame s f (set_next_page_id b q)) p) (\<lambda>s.
     Inr ((blank_table tid)\<lparr>first_page_id := p, last_page_id := q\<rparr>, s)))))"

section \<open>Rows\<close>

text \<open>
  When the last page has no room, a new one is linked behind it through the pointer that was fetched
  before \<^verbatim>\<open>newPage\<close>, and the tuple goes there; the slot number of the result is still the \<^verbatim>\<open>-1\<close> of the
  first attempt.
\<close>

definition grow_and_insert :: "bpm \<Rightarrow> table_heap \<Rightarrow> int \<Rightarrow> tuple \<Rightarrow> (table_heap \<times> bpm) res" where
  "grow_and_insert s t f tup =
     rbind (newPage s) (\<lambda>(np, s).
     rbind (frame_at s f) (\<lambda>b.
     rbind (markAsDirty (store_frame s f (set_next_page_id b np)) (last_page_id t)) (\<lambda>s.
     rbind (fetch_frame s np) (\<lambda>(g, b, s).
     let t = t\<lparr>last_page_id := np\<rparr> in
     rbind (Page_insertTuple b tup) (\<lambda>(_, b).
     rbind (markAsDirty (store_frame s g b) np) (\<lambda>s.
     Inr (t, s)))))))"

definition heap_insertTuple :: "bpm \<Rightarrow> table_heap \<Rightarrow> tuple \<Rightarrow> (rid \<times> table_heap \<times> bpm) res" where
  "heap_insertTuple s t tup =
     rbind (fetch_frame s (last_page_id t)) (\<lambda>(f, b, s).
     rbind (Page_insertTuple b tup) (\<lambda>(slot, b).
     let s = store_frame s f b in
     rbind (if slot = - 1 then grow_and_insert s t f tup else Inr (t, s)) (\<lambda>(t, s).
     rbind (markAsDirty s (last_page_id t)) (\<lambda>s.
     let t = t\<lparr>num_of_tuples := num_of_tuples t + 1\<rparr>;
         r = RID (last_page_id t) slot;
         t = (if page_id (getActualPair (starting_rid t)) = - 1 then t\<lparr>starting_rid := r\<rparr> else t);
         t = t\<lparr>stopping_rid := r, table_rids := table_rids t @ [r]\<rparr>
     in Inr (r, t, s)))))"

text \<open>\<^verbatim>\<open>nullptr\<close> is \<open>None\<close>.\<close>

definition heap_getTuple :: "bpm \<Rightarrow> rid \<Rightarrow> (tuple option \<times> bpm) res" where
  "heap_getTuple s r =
     rbind (fetch_frame s (page_id (getActualPair r))) (\<lambda>(f, b, s).
     rbind (Page_getTuple b (slot_num (getActualPair r)) (Tuple [])) (\<lambda>(ok, tup).
     Inr (if ok then Some tup else None, s)))"

definition getTupleFromRID :: "bpm \<Rightarrow> rid \<Rightarrow> (tuple \<times> bpm) res" where
  "getTupleFromRID s r =
     rbind (fetch_frame s (page_id (getActualPair r))) (\<lambda>(f, b, s).
     rbind (Page_getTuple b (slot_num (getActualPair r)) (Tuple [])) (\<lambda>(ok, tup).
     Inr (if ok then tup else Tuple [], s)))"

text \<open>
  The page is the one of \<^verbatim>\<open>rid.getPageId()\<close>, the old tuple the one of the actual pair; the pointer to
  the page is used after \<^verbatim>\<open>getTuple\<close> has fetched. Neither branch marks the page as dirty.
\<close>

definition heap_updateTuple :: "bpm \<Rightarrow> table_heap \<Rightarrow> rid \<Rightarrow> tuple \<Rightarrow> (rid \<times> table_heap \<times> bpm) res" where
  "heap_updateTuple s t r tup =
     rbind (fetch_frame s (page_id r)) (\<lambda>(f, _, s).
     rbind (heap_getTuple s r) (\<lambda>(old, s).
     rbind (get_or_ub old) (\<lambda>old.
     rbind (frame_at s f) (\<lambda>b.
     if getTupleSize old < getTupleSize tup then
       rbind (Page_deleteTuple b (slot_num r)) (\<lambda>(_, b).
       rbind (heap_insertTuple (store_frame s f b) t tup) (\<lambda>(nr, t, s).
       Inr (updateActualPair r nr, t, s)))
     else rbind (Page_updateTuple b (slot_num r) tup) (\<lambda>(_, b). Inr (r, t, store_frame s f b))))))"

fun heap_updateTuples :: "bpm \<Rightarrow> table_heap \<Rightarrow> rid list \<Rightarrow> tuple \<Rightarrow> (rid list \<times> table_heap \<times> bpm) res" where
  "heap_updateTuples s t [] tup = Inr ([], t, s)"
| "heap_updateTuples s t (r # rs) tup =
     rbind (heap_updateTuple s t r tup) (\<lambda>(r, t, s).
     rbind (heap_updateTuples s t rs tup) (\<lambda>(rs, t, s). Inr (r # rs, t, s)))"

text \<open>\<^verbatim>\<open>deleteTuple\<close> returns early when there is no page, \<^verbatim>\<open>deleteTupleBool\<close> does not look.\<close>

definition deleteTupleBool :: "bpm \<Rightarrow> table_heap \<Rightarrow> rid \<Rightarrow> (bool \<times> table_heap \<times> bpm) res" where
  "deleteTupleBool s t r =
     rbind (fetch_frame s (page_id r)) (\<lambda>(f, b, s).
     rbind (Page_deleteTuple b (slot_num (getActualPair r))) (\<lambda>(ok, b).
     Inr (ok, t\<lparr>num_of_tuples := num_of_tuples t - 1\<rparr>, store_frame s f b)))"

definition heap_deleteTuple :: "bpm \<Rightarrow> table_heap \<Rightarrow> rid \<Rightarrow> (table_heap \<times> bpm) res" where
  "heap_deleteTuple s t r =
     rbind (fetchPage s (page_id r)) (\<lambda>(p, s).
     case p of
       None \<Rightarrow> Inr (t, s)
     | Some f \<Rightarrow> rbind (frame_at s f) (\<lambda>b.
         rbind (Page_deleteTuple b (slot_num (getActualPair r))) (\<lambda>(_, b).
         Inr (t\<lparr>num_of_tuples := num_of_tuples t - 1\<rparr>, store_frame s f b))))"

section \<open>Walks along the chain\<close>

text \<open>
  \<^verbatim>\<open>setAllRIDs\<close>, and the loops of \<^verbatim>\<open>deleteTableHeap\<close> and \<^verbatim>\<open>displayTablePages\<close>. A chain of headers may be
  a cycle, so the walks take fuel: the number of pages to visit.
\<close>

definition page_rids :: "buf \<Rightarrow> int \<Rightarrow> rid list res" where
  "page_rids b pid =
     rfold (\<lambda>i rs. rbind (Page_is_deleted b (int i)) (\<lambda>d. Inr (if d then rs else rs @ [RID pid (int i)])))
       [0..<hdr_num_tuples b] []"

fun setAllRIDs :: "nat \<Rightarrow> bpm \<Rightarrow> int \<Rightarrow> (rid list \<times> bpm) res" where
  "setAllRIDs 0 s pid = Inl Diverges"
| "setAllRIDs (Suc n) s pid =
     (if pid = - 1 then Inr ([], s)
      else rbind (fetch_frame s pid) (\<lambda>(f, b, s).
        rbind (page_rids b pid) (\<lambda>rs.
        rbind (setAllRIDs n s (hdr_next_page_id b)) (\<lambda>(rs', s). Inr (rs @ rs', s)))))"

fun chain_pages :: "nat \<Rightarrow> bpm \<Rightarrow> int \<Rightarrow> (int list \<times> bpm) res" where
  "chain_pages 0 s pid = Inl Diverges"
| "chain_pages (Suc n) s pid =
     (if pid = - 1 then Inr ([], s)
      else rbind (fetch_frame s pid) (\<lambda>(f, b, s).
        rbind (chain_pages n s (hdr_next_page_id b)) (\<lambda>(ps, s). Inr (pid # ps, s))))"

text \<open>\<^verbatim>\<open>deleteTableHeap\<close> frees the frame of every page of the chain; the page stays in the file.\<close>

fun drop_chain :: "nat \<Rightarrow> bpm \<Rightarrow> int \<Rightarrow> bpm res" where
  "drop_chain 0 s pid = Inl Diverges"
| "drop_chain (Suc n) s pid =
     (if pid = - 1 then Inr s
      else rbind (fetchPage s pid) (\<lambda>(p, s).
        case p of None \<Rightarrow> Inr s
        | Some f \<Rightarrow> rbind (frame_at s f) (\<lambda>b.
            rbind (bpm_deletePage s pid) (\<lambda>s. drop_chain n s (hdr_next_page_id b)))))"

definition deleteTableHeap :: "nat \<Rightarrow> bpm \<Rightarrow> table_heap \<Rightarrow> (table_heap \<times> bpm) res" where
  "deleteTableHeap n s t =
     rbind (drop_chain n s (first_page_id t)) (\<lambda>s. Inr (t\<lparr>first_page_id := - 1, last_page_id := - 1\<rparr>, s))"

fun getColIndex :: "column list \<Rightarrow> string \<Rightarrow> nat" where
  "getColIndex [] name = 0"
| "getColIndex (c # cs) name = (if col_name c = name then 0 else Suc (getColIndex cs name))"

section \<open>Metadata\<close>

text \<open>The part of \<^verbatim>\<open>saveMetaData\<close> before the indexes: the bytes that are written and the next offset.\<close>

definition write_col :: "column \<Rightarrow> buf \<Rightarrow> nat \<Rightarrow> buf res" where
  "write_col c b off = rbind (write_letter (col_type c) b off) (\<lambda>b. serializeCol c b (off + 1))"

definition write_table_meta :: "table_heap \<Rightarrow> buf \<Rightarrow> nat \<Rightarrow> buf res" where
  "write_table_meta t b off =
     (let k = length (table_name t) in
     rbind (memcpy_to b off (i32_bytes (int k))) (\<lambda>b.
     rbind (memcpy_to b (off + 4) (str_bytes (table_name t))) (\<lambda>b.
     rbind (memcpy_to b (off + 4 + k) (i32_bytes (num_of_tuples t))) (\<lambda>b.
     rbind (memcpy_to b (off + 8 + k) (i32_bytes (first_page_id t))) (\<lambda>b.
     rbind (memcpy_to b (off + 12 + k) (i32_bytes (last_page_id t))) (\<lambda>b.
     rbind (RID_serialize (starting_rid t) b (off + 16 + k)) (\<lambda>b.
     rbind (RID_serialize (stopping_rid t) b (off + 32 + k)) (\<lambda>b.
     rbind (memcpy_to b (off + 48 + k) (i32_bytes (int (length (cols t))))) (\<lambda>b.
     write_seq write_col (\<lambda>c. 1 + nat (getColSize c)) (cols t) b (off + 52 + k))))))))))"

definition table_meta_size :: "table_heap \<Rightarrow> nat" where
  "table_meta_size t = 52 + length (table_name t) + sum_list (map (\<lambda>c. 1 + nat (getColSize c)) (cols t))"

text \<open>
  The same part of \<^verbatim>\<open>loadMetaData\<close>. \<open>t\<close> is the object that is overwritten: the columns are appended to
  the ones it has. The type of a column is read twice, and an unknown letter is undefined.
\<close>

definition read_col :: "buf \<Rightarrow> nat \<Rightarrow> column res" where
  "read_col b off =
     rbind (memcpy_from b off 1) (\<lambda>ty.
     rbind (get_or_ub (letter_type (hd ty))) (\<lambda>ft. deSerializeCol (Column ft '''' 1) b (off + 1)))"

definition read_table_meta :: "table_heap \<Rightarrow> buf \<Rightarrow> nat \<Rightarrow> table_heap res" where
  "read_table_meta t b off =
     rbind (memcpy_from b off 4) (\<lambda>n.
     if i32_val n < 0 then Inl (Throw ''basic_string::_M_replace'')
     else let k = nat (i32_val n) in
     rbind (memcpy_from b (off + 4) k) (\<lambda>nm.
     rbind (memcpy_from b (off + 4 + k) 4) (\<lambda>cnt.
     rbind (memcpy_from b (off + 8 + k) 4) (\<lambda>fp.
     rbind (memcpy_from b (off + 12 + k) 4) (\<lambda>lp.
     rbind (RID_deserialize b (off + 16 + k)) (\<lambda>r1.
     rbind (RID_deserialize b (off + 32 + k)) (\<lambda>r2.
     rbind (memcpy_from b (off + 48 + k) 4) (\<lambda>nc.
     rbind (read_seq read_col (\<lambda>c. 1 + nat (getColSize c)) (nat (i32_val nc)) b (off + 52 + k)) (\<lambda>cs.
     Inr (t\<lparr>table_name := bytes_str nm, num_of_tuples := i32_val cnt, first_page_id := i32_val fp,
            last_page_id := i32_val lp, starting_rid := r1, stopping_rid := r2, cols := cols t @ cs\<rparr>))))))))))"

end
