(* ===== verification/Table_Laws.thy ===== *)
theory Table_Laws imports Table_Model
begin

text \<open>
  The invariant of a table and the effect of its operations on its rows.

  \<open>table_wf s n t p0 ps es\<close>: the table's chain is the metadata page \<open>p0\<close> followed by the pages \<open>ps\<close>, every
  page of \<open>ps\<close> is a well-formed page with the entries \<open>es p\<close>, and the object knows both ends. The rows
  are the entries of the pages in chain order, a deleted entry being \<open>None\<close>. Insertion appends a row,
  reading returns one, and a walk over the chain visits all.
\<close>

fun links :: "(nat \<Rightarrow> buf) \<Rightarrow> nat list \<Rightarrow> bool" where
  "links v [] = True"
| "links v [p] = (hdr_next_page_id (v p) = - 1)"
| "links v (p # q # ps) = (hdr_next_page_id (v p) = int q \<and> links v (q # ps))"

lemma links_cong: "(\<And>p. p \<in> set ps \<Longrightarrow> hdr_next_page_id (v p) = hdr_next_page_id (w p)) \<Longrightarrow> links v ps = links w ps"
  by (induction v ps rule: links.induct) auto

lemma links_snoc:
  assumes "links v (ps @ [p])" "hdr_next_page_id (w p) = int q" "hdr_next_page_id (w q) = - 1"
    and "\<And>x. x \<in> set ps \<Longrightarrow> hdr_next_page_id (w x) = hdr_next_page_id (v x)"
  shows "links w (ps @ [p, q])"
  using assms
proof (induction ps)
  case (Cons x ps)
  then show ?case by (cases ps) auto
qed simp

definition table_wf :: "bpm \<Rightarrow> nat \<Rightarrow> table_heap \<Rightarrow> nat \<Rightarrow> nat list \<Rightarrow> (nat \<Rightarrow> entry list) \<Rightarrow> bool" where
  "table_wf s n t p0 ps es \<longleftrightarrow> bpm_inv s n {} \<and> ps \<noteq> [] \<and> first_page_id t = int p0 \<and> last_page_id t = int (last ps) \<and>
     distinct (p0 # ps) \<and> (\<forall>p \<in> set (p0 # ps). 1 \<le> p \<and> p \<le> n) \<and> links (view s) (p0 # ps) \<and>
     hdr_num_tuples (view s p0) = 0 \<and> (\<forall>p \<in> set ps. page_wf (view s p) (es p))"

definition rows :: "nat list \<Rightarrow> (nat \<Rightarrow> entry list) \<Rightarrow> field list option list" where
  "rows ps es = concat (map (\<lambda>p. visible_view (es p)) ps)"

lemma rows_simps [simp]:
  "rows [] es = []" "rows (p # ps) es = visible_view (es p) @ rows ps es"
  "rows (ps @ qs) es = rows ps es @ rows qs es"
  by (simp_all add: rows_def)

lemma rows_other: "q \<notin> set ps \<Longrightarrow> rows ps (es(q := x)) = rows ps es"
  by (induction ps) auto

lemma table_wfD:
  assumes "table_wf s n t p0 ps es"
  shows "bpm_inv s n {}" "ps \<noteq> []" "first_page_id t = int p0" "last_page_id t = int (last ps)" "distinct (p0 # ps)"
    "\<And>p. p \<in> set (p0 # ps) \<Longrightarrow> 1 \<le> p \<and> p \<le> n" "links (view s) (p0 # ps)" "hdr_num_tuples (view s p0) = 0"
    "\<And>p. p \<in> set ps \<Longrightarrow> page_wf (view s p) (es p)"
  using assms unfolding table_wf_def by blast+

text \<open>Only what the pool holds and the ends of the chain matter.\<close>

lemma table_wf_same:
  assumes "table_wf s n t p0 ps es" "bpm_inv s' n' {}" "n \<le> n'" "same_views n s s'"
    "first_page_id t' = first_page_id t" "last_page_id t' = last_page_id t"
  shows "table_wf s' n' t' p0 ps es"
proof -
  have v: "view s' p = view s p" if "p \<in> set (p0 # ps)" for p
    using table_wfD(6)[OF assms(1) that] assms(4) by (simp add: same_views_def)
  have "links (view s') (p0 # ps)"
    using table_wfD(7)[OF assms(1)] links_cong[of "p0 # ps" "view s'" "view s"] v by simp
  moreover have "\<forall>p \<in> set ps. page_wf (view s' p) (es p)" using table_wfD(9)[OF assms(1)] v by simp
  moreover have "\<forall>p \<in> set (p0 # ps). 1 \<le> p \<and> p \<le> n'" using table_wfD(6)[OF assms(1)] assms(3) by fastforce
  ultimately show ?thesis
    unfolding table_wf_def using assms(2,5,6) table_wfD(2-5,8)[OF assms(1)] v[of p0] by simp
qed

text \<open>One page of the chain is replaced by a page with other entries.\<close>

lemma table_wf_edit:
  assumes wf: "table_wf s n t p0 ps es" and s': "bpm_inv s' n {}"
    and p: "p \<in> set ps" "view s' p = b" "page_wf b xs" "hdr_next_page_id b = hdr_next_page_id (view s p)"
    and other: "\<And>q. 1 \<le> q \<Longrightarrow> q \<le> n \<Longrightarrow> q \<noteq> p \<Longrightarrow> view s' q = view s q"
    and t': "first_page_id t' = first_page_id t" "last_page_id t' = last_page_id t"
  shows "table_wf s' n t' p0 ps (es(p := xs))"
proof -
  have v: "view s' q = view s q" if "q \<in> set (p0 # ps)" "q \<noteq> p" for q
    using table_wfD(6)[OF wf that(1)] that(2) other by blast
  have "links (view s') (p0 # ps)"
    using table_wfD(7)[OF wf] links_cong[of "p0 # ps" "view s'" "view s"] v p(2,4) by metis
  moreover have "\<forall>q \<in> set ps. page_wf (view s' q) ((es(p := xs)) q)" using table_wfD(9)[OF wf] v p(2,3) by auto
  moreover have "p0 \<noteq> p" using table_wfD(5)[OF wf] p(1) by auto
  ultimately show ?thesis
    unfolding table_wf_def using s' t' table_wfD(2-6,8)[OF wf] v[of p0] by simp
qed

text \<open>The chain grows by one page.\<close>

lemma table_wf_grow:
  assumes wf: "table_wf s n t p0 ps es" and s': "bpm_inv s' (Suc n) {}"
    and new: "page_wf (view s' (Suc n)) xs" "hdr_next_page_id (view s' (Suc n)) = - 1"
    and lst: "view s' (last ps) = set_next_page_id (view s (last ps)) (int (Suc n))"
    and fits: "in_i32 (int (Suc n))"
    and other: "\<And>q. 1 \<le> q \<Longrightarrow> q \<le> n \<Longrightarrow> q \<noteq> last ps \<Longrightarrow> view s' q = view s q"
    and page: "page_wf (set_next_page_id (view s (last ps)) (int (Suc n))) (es (last ps))"
    and t': "first_page_id t' = first_page_id t" "last_page_id t' = int (Suc n)"
  shows "table_wf s' (Suc n) t' p0 (ps @ [Suc n]) (es(Suc n := xs))"
proof -
  have ne: "ps \<noteq> []" using table_wfD(2)[OF wf] .
  then have sp: "ps = butlast ps @ [last ps]" by simp
  have le: "1 \<le> q \<and> q \<le> n" if "q \<in> set (p0 # ps)" for q using table_wfD(6)[OF wf that] .
  have v: "view s' q = view s q" if "q \<in> set (p0 # ps)" "q \<noteq> last ps" for q using le[OF that(1)] other that(2) by blast
  have dist: "distinct (butlast ps @ [last ps])" "p0 \<notin> set (butlast ps @ [last ps])" using table_wfD(5)[OF wf] sp by auto
  have "links (view s) ((p0 # butlast ps) @ [last ps])" using table_wfD(7)[OF wf] sp by simp
  then have "links (view s') ((p0 # butlast ps) @ [last ps, Suc n])"
  proof (rule links_snoc)
    show "hdr_next_page_id (view s' (last ps)) = int (Suc n)" using lst fits by simp
    show "hdr_next_page_id (view s' x) = hdr_next_page_id (view s x)" if "x \<in> set (p0 # butlast ps)" for x
      using v[of x] that dist by (metis append_is_Nil_conv in_set_butlastD list.set_intros(2) set_ConsD snoc_eq_iff_butlast distinct_append disjoint_insert(1) list.set_intros(1) list.simps(15) last_in_set ne)
  qed (rule new(2))
  then have "links (view s') (p0 # ps @ [Suc n])" using sp by (metis append.assoc append_Cons append_Nil)
  moreover have "page_wf (view s' q) ((es(Suc n := xs)) q)" if "q \<in> set (ps @ [Suc n])" for q
  proof (cases "q = Suc n")
    case False
    then show ?thesis using that v[of q] lst page table_wfD(9)[OF wf, of q] by (cases "q = last ps") auto
  qed (simp add: new(1))
  moreover have "Suc n \<notin> set (p0 # ps)" using le by fastforce
  moreover have "hdr_num_tuples (view s' p0) = 0"
    using v[of p0] table_wfD(8)[OF wf] dist(2) by auto
  moreover have "1 \<le> q \<and> q \<le> Suc n" if "q \<in> set (p0 # ps @ [Suc n])" for q using le[of q] that by auto
  ultimately show ?thesis
    unfolding table_wf_def using s' t' table_wfD(3,5)[OF wf] by auto
qed

lemma page_wf_header:
  assumes wf: "page_wf b es" and m: "\<And>k. 14 \<le> k \<Longrightarrow> mem c k = mem b k"
    and h: "cap c = cap b" "hdr_num_tuples c = hdr_num_tuples b" "hdr_num_deleted c = hdr_num_deleted b" "hdr_free c = hdr_free b"
  shows "page_wf c es"
proof -
  have e: "entry_wf (mem c) i (es ! i)" if i: "i < length es" for i
  proof (rule entry_wf_frame)
    show "entry_wf (mem b) i (es ! i)" using wf i by (simp add: page_wf_def)
    show "mem c k = mem b k" if "slot_pos i \<le> k" "k < slot_pos i + 5" for k
      using that by (intro m) (simp add: slot_pos_def)
    show "mem c k = mem b k" if "e_off (es ! i) \<le> k" "k < e_off (es ! i) + e_size (es ! i)" for k
      using that sorted_wrt_geometry[OF wf i] by (intro m) simp
  qed
  have "mem c k = 0" if "14 + 6 * length es \<le> k" "k < hdr_free b" for k
    using wf that m[of k] by (simp add: page_wf_def)
  with wf h e show ?thesis by (simp add: page_wf_def)
qed

lemma page_wf_next: "page_wf b es \<Longrightarrow> page_wf (set_next_page_id b i) es"
  by (erule page_wf_header) (simp_all, simp add: set_next_page_id_def put_def)

section \<open>Insertion\<close>

lemma store_frame_id: "frame_at s f = Inr b \<Longrightarrow> store_frame s f b = s"
  by (auto simp: frame_at_def store_frame_def vec_at_int_def split: if_splits)

lemma frame_of_cached:
  assumes "bpm_inv s n {}" "cached s i f"
  shows "frame_at s f = Inr (view s i)"
proof -
  have "f \<in> used s {}" "view s i = frames s ! nat f"
    using bpm_invD(9)[OF assms(1), of "int i" f] assms(2) by (simp_all add: cached_def view_def)
  then show ?thesis using vec_frame[OF used_frame bpm_invD(2)[OF assms(1)]] by (simp add: frame_at_def)
qed

lemma mark_again:
  assumes "bpm_inv s n {}" "cached s i f"
  shows "\<exists>t. markAsDirty s (int i) = Inr t \<and> bpm_inv t n {} \<and> view t = view s \<and> disk t = disk s \<and> page_table t = page_table s"
  using mark_written[OF assms view_canon[OF assms(1), of i]] store_frame_id[OF frame_of_cached[OF assms]] by auto

lemma capacity_bound: "bpm_inv s n {} \<Longrightarrow> in_i32 (int (Suc n))"
  using bpm_invD(1)[of s n "{}"] by (auto simp: dm_inv_def in_i32_def PAGE_SIZE_def)

definition new_entry :: "nat \<Rightarrow> tuple \<Rightarrow> entry" where
  "new_entry free tup = \<lparr>e_off = free - pad8 (length (tuple_enc tup)), e_size = pad8 (length (tuple_enc tup)),
     e_del = False, e_tuple = tup\<rparr>"

definition fits_in :: "buf \<Rightarrow> entry list \<Rightarrow> tuple \<Rightarrow> bool" where
  "fits_in b es tup \<longleftrightarrow> page_room (hdr_free b) (length es) (pad8 (length (tuple_enc tup)))"

lemma visible_new: "\<not> t_deleted tup \<Longrightarrow> visible_view [new_entry free tup] = [Some (tfields tup)]"
  by (simp add: visible_def new_entry_def)

lemma page_insert_cases:
  assumes "page_wf b es" "tuple_fits tup"
  shows "if fits_in b es tup
    then \<exists>b'. Page_insertTuple b tup = Inr (int (length es), b') \<and> page_wf b' (es @ [new_entry (hdr_free b) tup]) \<and>
           hdr_next_page_id b' = hdr_next_page_id b
    else Page_insertTuple b tup = Inr (- 1, b)"
  using insertTuple_entry[OF assms] insertTuple_no_room[OF assms(1), of tup] assms(2)
  by (auto simp: fits_in_def new_entry_def tuple_fits_def)

lemma insert_and_mark:
  assumes s: "bpm_inv s n {}" and f: "cached s i f" and b: "view s i = b" "page_wf b xs" and t: "tuple_fits tup"
  shows "\<exists>j b' u. Page_insertTuple b tup = Inr (j, b') \<and> markAsDirty (store_frame s f b') (int i) = Inr u \<and>
    bpm_inv u n {} \<and> view u = (view s)(i := b') \<and> disk u = disk s \<and> cached u i f \<and>
    hdr_next_page_id b' = hdr_next_page_id b \<and>
    (if fits_in b xs tup then j = int (length xs) \<and> page_wf b' (xs @ [new_entry (hdr_free b) tup]) else j = - 1 \<and> b' = b)"
proof -
  obtain j b' where j: "Page_insertTuple b tup = Inr (j, b')" "hdr_next_page_id b' = hdr_next_page_id b"
    "if fits_in b xs tup then j = int (length xs) \<and> page_wf b' (xs @ [new_entry (hdr_free b) tup]) else j = - 1 \<and> b' = b"
    using page_insert_cases[OF b(2) t] by (cases "fits_in b xs tup") auto
  have "canon b'" using givesD[OF Page_insertTuple_canon j(1)] view_canon[OF s, of i] b(1) by simp
  from mark_written[OF s f this] j f show ?thesis by (auto simp: cached_def)
qed

text \<open>What a failed insertion does: a new page is linked, and the tuple goes there if it fits an empty page.\<close>

lemma grow_and_insert_wf:
  assumes wf: "table_wf s n t p0 ps es" and f: "fresh_frame s f" "cached s (last ps) f"
    and tup: "tuple_fits tup" and c: "in_i32 (2 * dm_capacity (disk s) * int PAGE_SIZE)"
  shows "\<exists>u xs g. grow_and_insert s t f tup = Inr (t\<lparr>last_page_id := int (Suc n)\<rparr>, u) \<and> cached u (Suc n) g \<and>
    table_wf u (Suc n) (t\<lparr>last_page_id := int (Suc n)\<rparr>) p0 (ps @ [Suc n]) (es(Suc n := xs)) \<and>
    xs = (if fits_in (Page (int (Suc n))) [] tup then [new_entry PAGE_SIZE tup] else [])"
proof -
  let ?lp = "last ps" and ?np = "Suc n"
  note s = table_wfD(1)[OF wf]
  have lp: "?lp \<in> set ps" "1 \<le> ?lp" "?lp \<le> n" using table_wfD(2)[OF wf] table_wfD(6)[OF wf, of ?lp] by auto
  obtain s1 where s1: "newPage s = Inr (int ?np, s1)" "bpm_inv s1 ?np {}" "same_views n s s1"
    "view s1 ?np = Page (int ?np)" "cached s1 ?lp f" "frame_at s1 f = Inr (view s ?lp)"
    using newPage_spares[OF s f lp(2,3) c] by blast
  let ?b = "set_next_page_id (view s ?lp) (int ?np)"
  have "canon ?b" using view_canon[OF s] by simp
  then obtain s2 where s2: "markAsDirty (store_frame s1 f ?b) (int ?lp) = Inr s2" "bpm_inv s2 ?np {}"
    "view s2 = (view s1)(?lp := ?b)"
    using mark_written[OF s1(2,5)] by blast
  obtain g s3 where s3: "fetch_frame s2 (int ?np) = Inr (g, view s2 ?np, s3)" "bpm_inv s3 ?np {}" "same_views ?np s2 s3" "cached s3 ?np g"
    using fetch_frame_inv[OF s2(2), of ?np] by auto
  have v3: "view s3 ?np = Page (int ?np)" "view s2 ?np = Page (int ?np)"
    using s3(3) s2(3) s1(4) lp(3) by (auto simp: same_views_def)
  obtain j b' u where u: "Page_insertTuple (Page (int ?np)) tup = Inr (j, b')" "markAsDirty (store_frame s3 g b') (int ?np) = Inr u"
    "bpm_inv u ?np {}" "view u = (view s3)(?np := b')" "cached u ?np g" "hdr_next_page_id b' = hdr_next_page_id (Page (int ?np))"
    "if fits_in (Page (int ?np)) [] tup then page_wf b' ([] @ [new_entry (hdr_free (Page (int ?np))) tup]) else b' = Page (int ?np)"
    using insert_and_mark[OF s3(2,4) v3(1) Page_wf tup] by (metis (no_types, lifting))
  define xs where "xs = (if fits_in (Page (int ?np)) [] tup then [new_entry PAGE_SIZE tup] else [])"
  have P: "hdr_free (Page i) = PAGE_SIZE" "hdr_next_page_id (Page i) = - 1" for i
    by (simp_all add: Page_def Let_def PAGE_SIZE_def in_i32_def)
  have b': "page_wf b' xs" "hdr_next_page_id b' = - 1"
    using u(6,7) Page_wf[of "int ?np"] by (auto simp: xs_def P split: if_splits)
  have "table_wf u ?np (t\<lparr>last_page_id := int ?np\<rparr>) p0 (ps @ [?np]) (es(?np := xs))"
  proof (rule table_wf_grow[OF wf u(3)])
    show "view u ?lp = ?b" using u(4) s3(3) s2(3) lp by (simp add: same_views_def)
    show "view u q = view s q" if "1 \<le> q" "q \<le> n" "q \<noteq> ?lp" for q
      using u(4) s3(3) s2(3) s1(3) that by (simp add: same_views_def)
  qed (use u(4) b' capacity_bound[OF s] page_wf_next[OF table_wfD(9)[OF wf lp(1)]] in simp_all)
  moreover have "grow_and_insert s t f tup = Inr (t\<lparr>last_page_id := int ?np\<rparr>, u)"
    using s1(1,6) s2(1) s3(1) u(1,2) v3(2) table_wfD(4)[OF wf] by (simp add: grow_and_insert_def)
  ultimately show ?thesis using u(5) xs_def by blast
qed

lemma insertTuple_with_room:
  assumes wf: "table_wf s n t p0 ps es" and tup: "tuple_fits tup" and room: "fits_in (view s (last ps)) (es (last ps)) tup"
  shows "\<exists>t' u. heap_insertTuple s t tup = Inr (RID (int (last ps)) (int (length (es (last ps)))), t', u) \<and>
    table_wf u n t' p0 ps (es(last ps := es (last ps) @ [new_entry (hdr_free (view s (last ps))) tup])) \<and>
    num_of_tuples t' = num_of_tuples t + 1 \<and> dm_capacity (disk u) = dm_capacity (disk s) \<and>
    tables_names (disk u) = tables_names (disk s) \<and>
    table_rids t' = table_rids t @ [RID (int (last ps)) (int (length (es (last ps))))] \<and>
    starting_rid t' = (if page_id (getActualPair (starting_rid t)) = - 1 then RID (int (last ps)) (int (length (es (last ps)))) else starting_rid t) \<and> stopping_rid t' = RID (int (last ps)) (int (length (es (last ps))))"
proof -
  let ?lp = "last ps"
  note s = table_wfD(1)[OF wf]
  have lp: "?lp \<in> set ps" "1 \<le> ?lp" "?lp \<le> n" using table_wfD(2)[OF wf] table_wfD(6)[OF wf, of ?lp] by auto
  obtain f s1 where s1: "fetch_frame s (int ?lp) = Inr (f, view s ?lp, s1)" "bpm_inv s1 n {}" "same_views n s s1"
    "cached s1 ?lp f" "dm_capacity (disk s1) = dm_capacity (disk s)" "tables_names (disk s1) = tables_names (disk s)"
    using fetch_frame_inv[OF s lp(2,3)] by blast
  have v1: "view s1 ?lp = view s ?lp" using s1(3) lp by (simp add: same_views_def)
  obtain j b' u where u: "Page_insertTuple (view s ?lp) tup = Inr (j, b')" "markAsDirty (store_frame s1 f b') (int ?lp) = Inr u"
    "bpm_inv u n {}" "view u = (view s1)(?lp := b')" "disk u = disk s1" "hdr_next_page_id b' = hdr_next_page_id (view s ?lp)"
    "j = int (length (es ?lp))" "page_wf b' (es ?lp @ [new_entry (hdr_free (view s ?lp)) tup])"
    using insert_and_mark[OF s1(2,4) v1 table_wfD(9)[OF wf lp(1)] tup] room by auto
  let ?r = "RID (int ?lp) (int (length (es ?lp)))"
  let ?t = "t\<lparr>num_of_tuples := num_of_tuples t + 1\<rparr>"
  let ?t' = "(if page_id (getActualPair (starting_rid t)) = - 1 then ?t\<lparr>starting_rid := ?r\<rparr> else ?t)
      \<lparr>stopping_rid := ?r, table_rids := table_rids t @ [?r]\<rparr>"
  have "heap_insertTuple s t tup = Inr (?r, ?t', u)"
    using s1(1) u(1,2,7) table_wfD(4)[OF wf] by (simp add: heap_insertTuple_def Let_def)
  moreover have "table_wf u n ?t' p0 ps (es(?lp := es ?lp @ [new_entry (hdr_free (view s ?lp)) tup]))"
  proof (rule table_wf_edit[OF wf u(3) lp(1) _ u(8,6)])
    show "view u q = view s q" if "1 \<le> q" "q \<le> n" "q \<noteq> ?lp" for q
      using u(4) s1(3) that by (simp add: same_views_def)
  qed (use u(4) in simp_all)
  ultimately show ?thesis using u(5) s1(5,6) by (intro exI[of _ ?t'] exI[of _ u]) simp
qed

lemma insertTuple_new_page:
  assumes wf: "table_wf s n t p0 ps es" and tup: "tuple_fits tup" and room: "\<not> fits_in (view s (last ps)) (es (last ps)) tup"
    and c: "in_i32 (2 * dm_capacity (disk s) * int PAGE_SIZE)"
  shows "\<exists>t' u. heap_insertTuple s t tup = Inr (RID (int (Suc n)) (- 1), t', u) \<and>
    table_wf u (Suc n) t' p0 (ps @ [Suc n])
      (es(Suc n := if fits_in (Page (int (Suc n))) [] tup then [new_entry PAGE_SIZE tup] else [])) \<and>
    num_of_tuples t' = num_of_tuples t + 1 \<and> table_rids t' = table_rids t @ [RID (int (Suc n)) (- 1)] \<and>
    starting_rid t' = (if page_id (getActualPair (starting_rid t)) = - 1 then RID (int (Suc n)) (- 1) else starting_rid t) \<and> stopping_rid t' = RID (int (Suc n)) (- 1)"
proof -
  let ?lp = "last ps" and ?t1 = "t\<lparr>last_page_id := int (Suc n)\<rparr>"
  note s = table_wfD(1)[OF wf]
  have lp: "?lp \<in> set ps" "1 \<le> ?lp" "?lp \<le> n" using table_wfD(2)[OF wf] table_wfD(6)[OF wf, of ?lp] by auto
  obtain f s1 where s1: "fetch_frame s (int ?lp) = Inr (f, view s ?lp, s1)" "bpm_inv s1 n {}" "same_views n s s1"
    "cached s1 ?lp f" "fresh_frame s1 f" "dm_capacity (disk s1) = dm_capacity (disk s)"
    using fetch_frame_inv[OF s lp(2,3)] by blast
  have v1: "view s1 ?lp = view s ?lp" using s1(3) lp by (simp add: same_views_def)
  have ins: "Page_insertTuple (view s ?lp) tup = Inr (- 1, view s ?lp)"
    using page_insert_cases[OF table_wfD(9)[OF wf lp(1)] tup] room by simp
  have id: "store_frame s1 f (view s ?lp) = s1"
    using frame_of_cached[OF s1(2,4)] v1 by (simp add: store_frame_id)
  have wf1: "table_wf s1 n t p0 ps es" using table_wf_same[OF wf s1(2) _ s1(3)] by simp
  obtain u xs g where u: "grow_and_insert s1 t f tup = Inr (?t1, u)" "cached u (Suc n) g"
    "table_wf u (Suc n) ?t1 p0 (ps @ [Suc n]) (es(Suc n := xs))"
    "xs = (if fits_in (Page (int (Suc n))) [] tup then [new_entry PAGE_SIZE tup] else [])"
    using grow_and_insert_wf[OF wf1 s1(5,4) tup] c s1(6) by auto
  obtain w where w: "markAsDirty u (int (Suc n)) = Inr w" "bpm_inv w (Suc n) {}" "view w = view u"
    using mark_again[OF table_wfD(1)[OF u(3)] u(2)] by blast
  let ?r = "RID (int (Suc n)) (- 1)"
  let ?t = "?t1\<lparr>num_of_tuples := num_of_tuples t + 1\<rparr>"
  let ?t' = "(if page_id (getActualPair (starting_rid t)) = - 1 then ?t\<lparr>starting_rid := ?r\<rparr> else ?t)
      \<lparr>stopping_rid := ?r, table_rids := table_rids t @ [?r]\<rparr>"
  have "heap_insertTuple s t tup = Inr (?r, ?t', w)"
    using s1(1) ins id u(1) w(1) table_wfD(4)[OF wf] by (simp add: heap_insertTuple_def Let_def)
  moreover have "table_wf w (Suc n) ?t' p0 (ps @ [Suc n]) (es(Suc n := xs))"
    by (rule table_wf_same[OF u(3) w(2)]) (simp_all add: same_views_def w(3))
  ultimately show ?thesis using u(4) by (intro exI[of _ ?t'] exI[of _ w]) simp
qed

section \<open>Reading and deleting\<close>

lemma getTuple_reads:
  assumes wf: "table_wf s n t p0 ps es" and r: "getActualPair r = RID (int p) i" and p: "p \<in> set ps"
  shows "\<exists>u. heap_getTuple s r = Inr (if 0 \<le> i \<and> nat i < length (es p) \<and> visible (es p ! nat i)
      then Some (stored_row (view s p) (es p ! nat i)) else None, u) \<and> table_wf u n t p0 ps es \<and> same_views n s u"
proof -
  have pn: "1 \<le> p" "p \<le> n" using table_wfD(6)[OF wf] p by auto
  obtain f u where u: "fetch_frame s (int p) = Inr (f, view s p, u)" "bpm_inv u n {}" "same_views n s u"
    using fetch_frame_inv[OF table_wfD(1)[OF wf] pn] by blast
  have wfu: "table_wf u n t p0 ps es" by (rule table_wf_same[OF wf u(2) _ u(3)]) simp_all
  note pw = table_wfD(9)[OF wf p]
  show ?thesis
  proof (cases "0 \<le> i \<and> nat i < length (es p)")
    case True
    then have "Page_getTuple (view s p) i (Tuple []) = Inr (visible (es p ! nat i), stored_row (view s p) (es p ! nat i))"
      using getTuple_stored[OF pw, of "nat i" "Tuple []"] by simp
    with u(1,3) wfu True r show ?thesis by (auto simp: heap_getTuple_def)
  next
    case False
    then have "Page_getTuple (view s p) i (Tuple []) = Inr (False, Tuple [])"
      by (intro getTuple_invalid[OF pw]) auto
    with u(1,3) wfu False r show ?thesis by (auto simp: heap_getTuple_def)
  qed
qed

lemma getTuple_at:
  assumes wf: "table_wf s n t p0 ps es" and r: "getActualPair r = RID (int p) i" and p: "p \<in> set ps"
  shows "\<exists>u x. heap_getTuple s r = Inr (x, u) \<and> table_wf u n t p0 ps es \<and>
    (if 0 \<le> i \<and> nat i < length (es p) \<and> visible (es p ! nat i)
     then \<exists>v. x = Some v \<and> tuple_eqv (e_tuple (es p ! nat i)) v else x = None)"
proof -
  have "tuple_eqv (e_tuple (es p ! nat i)) (stored_row (view s p) (es p ! nat i))" if "nat i < length (es p)"
    using stored_row_eqv[OF table_wfD(9)[OF wf p]] that by simp
  with getTuple_reads[OF assms] show ?thesis by fastforce
qed

lemma fetch_clean:
  assumes s: "bpm_inv s n {}" and i: "1 \<le> i" "i \<le> n" and clean: "\<And>f. cached s i f \<Longrightarrow> \<not> is_dirty s ! nat f"
    and fe: "fetch_frame s (int i) = Inr (f, b, t)"
  shows "\<not> is_dirty t ! nat f"
proof (cases "map_of (page_table s) (int i)")
  case (Some g)
  then have "g = f" "is_dirty t = is_dirty s"
    using fe by (auto simp: fetch_frame_def fetchPage_def rbind_eq_Inr)
  with clean Some show ?thesis by (simp add: cached_def)
next
  case None
  obtain f' t' where t': "fetch_frame s (int i) = Inr (f', view s i, t')" "bpm_inv t' n {}" "cached t' i f'"
    using fetch_frame_inv[OF s i] by blast
  then have eq: "f' = f" "t' = t" using fe by simp_all
  then have "f \<in> used t {}" using t'(2,3) bpm_invD(9)[OF t'(2), of "int i" f] by (simp add: cached_def)
  then have fi: "nat f < BUFFER_SIZE" using used_frame frame_ids_iff by blast
  obtain u where "install u (int i) f = Inr t"
    using None fe by (auto simp: fetch_frame_def fetchPage_def rbind_eq_Inr split: if_splits)
  then have "is_dirty t = (is_dirty u)[nat f := False]"
    by (auto simp: install_def rbind_eq_Inr)
  then show ?thesis using fi bpm_invD(4)[OF t'(2)] eq by auto
qed

text \<open>The destructor does not look at the frame of a clean page.\<close>

lemma flush_ignores_clean:
  assumes "\<not> is_dirty s ! nat f"
  shows "bpm_flush (store_frame s f b) = bpm_flush s"
  unfolding bpm_flush_def
proof (rule rfold_cong)
  fix i d
  show "rbind (vec_at (pages_ids (store_frame s f b)) i) (\<lambda>p. rbind (vec_at (is_dirty (store_frame s f b)) i) (\<lambda>dirty.
      rbind (vec_at (frames (store_frame s f b)) i) (\<lambda>fr. if dirty \<and> p \<noteq> - 1 then writePage d p fr else Inr d))) =
    rbind (vec_at (pages_ids s) i) (\<lambda>p. rbind (vec_at (is_dirty s) i) (\<lambda>dirty.
      rbind (vec_at (frames s) i) (\<lambda>fr. if dirty \<and> p \<noteq> - 1 then writePage d p fr else Inr d)))"
    using assms by (cases "i = nat f"; cases "i < length (frames s)"; cases "i < length (is_dirty s)")
      (simp_all add: store_frame_def vec_at_def)
qed (simp_all add: store_frame_def)

lemma deleteTupleBool_at:
  assumes wf: "table_wf s n t p0 ps es" and r: "page_id r = int p" "slot_num (getActualPair r) = int i"
    and p: "p \<in> set ps" and i: "i < length (es p)" "\<not> e_del (es p ! i)"
  shows "\<exists>u f b x. fetch_frame s (int p) = Inr (f, view s p, u) \<and> bpm_inv u n {} \<and> same_views n s u \<and>
    deleteTupleBool s t r = Inr (True, t\<lparr>num_of_tuples := num_of_tuples t - 1\<rparr>, store_frame u f b) \<and>
    view (store_frame u f b) p = b \<and> tables_names (disk u) = tables_names (disk s) \<and>
    page_wf b ((es p)[i := (es p ! i)\<lparr>e_del := True, e_tuple := set_is_deleted x True\<rparr>])"
proof -
  have pn: "1 \<le> p" "p \<le> n" using table_wfD(6)[OF wf] p by auto
  obtain f u where u: "fetch_frame s (int p) = Inr (f, view s p, u)" "bpm_inv u n {}" "same_views n s u" "cached u p f"
    "tables_names (disk u) = tables_names (disk s)"
    using fetch_frame_inv[OF table_wfD(1)[OF wf] pn] by blast
  obtain b x where b: "Page_deleteTuple (view s p) (int i) = Inr (True, b)"
    "page_wf b ((es p)[i := (es p ! i)\<lparr>e_del := True, e_tuple := set_is_deleted x True\<rparr>])"
    using deleteTuple_entry[OF table_wfD(9)[OF wf p] i] by blast
  have "f \<in> used u {}" using bpm_invD(9)[OF u(2), of "int p" f] u(4) by (simp add: cached_def)
  then have "nat f < length (frames u)" using used_frame frame_ids_iff bpm_invD(2)[OF u(2)] by metis
  then have "view (store_frame u f b) p = b" using u(4) by (simp add: view_def store_frame_def cached_def)
  with u b r show ?thesis by (intro exI[of _ u] exI[of _ f] exI[of _ b] exI[of _ x]) (simp add: deleteTupleBool_def)
qed

section \<open>Walks\<close>

lemma page_rids_wf:
  assumes wf: "page_wf b es"
  shows "page_rids b pid = (if \<forall>e \<in> set es. visible e then Inr (map (\<lambda>i. RID pid (int i)) [0..<length es])
    else Inl (Throw ''this tuple is not  found''))"
proof -
  have del: "Page_is_deleted b (int i) = (if visible (es ! i) then Inr False else Inl (Throw ''this tuple is not  found''))"
    if i: "i < length es" for i
  proof -
    obtain u where "Page_getTuple b (int i) (Tuple []) = Inr (visible (es ! i), u)" "tuple_eqv (e_tuple (es ! i)) u"
      using getTuple_entry[OF wf i] by blast
    then show ?thesis by (auto simp: Page_is_deleted_def visible_def tuple_eqv_def)
  qed
  have "rfold (\<lambda>i rs. rbind (Page_is_deleted b (int i)) (\<lambda>d. Inr (if d then rs else rs @ [RID pid (int i)]))) [0..<k] [] =
      (if \<forall>i < k. visible (es ! i) then Inr (map (\<lambda>i. RID pid (int i)) [0..<k]) else Inl (Throw ''this tuple is not  found''))"
    if "k \<le> length es" for k
    using that
  proof (induction k)
    case (Suc k)
    then show ?case using del[of k] by (auto simp: rfold_append rfold_Nil less_Suc_eq)
  qed simp
  moreover have "(\<forall>i < length es. visible (es ! i)) \<longleftrightarrow> (\<forall>e \<in> set es. visible e)"
    by (metis in_set_conv_nth)
  moreover have "hdr_num_tuples b = length es" using wf by (simp add: page_wf_def)
  ultimately show ?thesis by (simp add: page_rids_def)
qed

definition all_rids :: "nat list \<Rightarrow> (nat \<Rightarrow> entry list) \<Rightarrow> rid list" where
  "all_rids ps es = concat (map (\<lambda>p. map (\<lambda>i. RID (int p) (int i)) [0..<length (es p)]) ps)"

definition none_deleted :: "nat list \<Rightarrow> (nat \<Rightarrow> entry list) \<Rightarrow> bool" where
  "none_deleted ps es \<longleftrightarrow> (\<forall>p \<in> set ps. \<forall>e \<in> set (es p). visible e)"

lemma none_deleted_rows: "none_deleted ps es \<longleftrightarrow> None \<notin> set (rows ps es)"
  by (auto simp: none_deleted_def rows_def visible_view_def image_iff split: if_splits)

lemma setAllRIDs_chain:
  assumes "bpm_inv s n {}" "links (view s) ps" "\<forall>p \<in> set ps. 1 \<le> p \<and> p \<le> n" "ps \<noteq> []"
    and "\<forall>p \<in> set ps. page_rids (view s p) (int p) = (if \<forall>e \<in> set (es p). visible e
      then Inr (map (\<lambda>i. RID (int p) (int i)) [0..<length (es p)]) else Inl (Throw ''this tuple is not  found''))"
    and "length ps < k"
  shows "if none_deleted ps es
    then \<exists>u. setAllRIDs k s (int (hd ps)) = Inr (all_rids ps es, u) \<and> bpm_inv u n {} \<and> same_views n s u
    else setAllRIDs k s (int (hd ps)) = Inl (Throw ''this tuple is not  found'')"
  using assms
proof (induction ps arbitrary: s k)
  case (Cons p ps)
  then obtain k' where k': "k = Suc k'" "length ps < k'" by (cases k) auto
  obtain f u where u: "fetch_frame s (int p) = Inr (f, view s p, u)" "bpm_inv u n {}" "same_views n s u"
    using fetch_frame_inv[OF Cons.prems(1)] Cons.prems(3) by (metis list.set_intros(1))
  have v: "view u q = view s q" if "q \<in> set (p # ps)" for q
    using u(3) Cons.prems(3) that by (auto simp: same_views_def)
  show ?case
  proof (cases ps)
    case Nil
    with Cons.prems u k' show ?thesis by (cases k') (auto simp: none_deleted_def all_rids_def)
  next
    case (Cons q qs)
    have lk: "hdr_next_page_id (view s p) = int q" "links (view s) ps" using Cons.prems(2) Cons by simp_all
    have IH: "if none_deleted ps es
      then \<exists>w. setAllRIDs k' u (int (hd ps)) = Inr (all_rids ps es, w) \<and> bpm_inv w n {} \<and> same_views n u w
      else setAllRIDs k' u (int (hd ps)) = Inl (Throw ''this tuple is not  found'')"
    proof (rule Cons.IH[OF u(2)])
      show "links (view u) ps" using lk(2) links_cong[of ps "view u" "view s"] v by simp
    qed (use Cons.prems(3,5) Cons k'(2) v in auto)
    have nd: "none_deleted (p # ps) es \<longleftrightarrow> (\<forall>e \<in> set (es p). visible e) \<and> none_deleted ps es"
      by (simp add: none_deleted_def)
    show ?thesis
    proof (cases "none_deleted (p # ps) es")
      case True
      with IH obtain w where "setAllRIDs k' u (int q) = Inr (all_rids ps es, w)" "bpm_inv w n {}" "same_views n u w"
        using Cons nd by auto
      with True u k'(1) lk(1) Cons.prems(5) nd show ?thesis
        using same_views_trans[OF u(3)] by (auto simp: all_rids_def)
    next
      case False
      then show ?thesis using IH u(1) k'(1) lk(1) Cons.prems(5) nd Cons by auto
    qed
  qed
qed simp

end
