(* ===== verification/Table_Props.thy ===== *)
theory Table_Props imports Table_Laws
begin

text \<open>
  Properties of a table: what insertion, reading and deletion do to its rows, what survives a restart,
  which tables can be loaded, and the round trip of the metadata.
\<close>

section \<open>A new table\<close>

lemma in_i32_mono: "in_i32 b \<Longrightarrow> 0 \<le> a \<Longrightarrow> a \<le> b \<Longrightarrow> in_i32 a"
  by (simp add: in_i32_def)

lemma new_table_wf:
  assumes s: "bpm_inv s n {}" and c: "in_i32 (4 * dm_capacity (disk s) * int PAGE_SIZE)"
  shows "\<exists>t u. new_table s tid = Inr (t, u) \<and> table_wf u (Suc (Suc n)) t (Suc n) [Suc (Suc n)] (\<lambda>_. []) \<and>
    view u (Suc (Suc n)) = Page (int (Suc (Suc n))) \<and>
    num_of_tuples t = 0 \<and> table_rids t = [] \<and> starting_rid t = RID (- 1) (- 1) \<and>
    dm_capacity (disk u) \<le> 4 * dm_capacity (disk s) \<and> tables_names (disk u) = tables_names (disk s)"
proof -
  have cp: "0 < dm_capacity (disk s)" using bpm_invD(1)[OF s] by (auto simp: dm_inv_def)
  have "in_i32 (2 * dm_capacity (disk s) * int PAGE_SIZE)"
    using cp by (intro in_i32_mono[OF c]) (auto simp: PAGE_SIZE_def)
  from newPage_inv[OF s this] obtain s1 where s1: "newPage s = Inr (int (Suc n), s1)" "bpm_inv s1 (Suc n) {}"
    "view s1 (Suc n) = Page (int (Suc n))" "dm_capacity (disk s1) \<le> 2 * dm_capacity (disk s)"
    "tables_names (disk s1) = tables_names (disk s)" by blast
  have cp1: "0 < dm_capacity (disk s1)" using bpm_invD(1)[OF s1(2)] by (auto simp: dm_inv_def)
  have "in_i32 (2 * dm_capacity (disk s1) * int PAGE_SIZE)"
    using cp1 s1(4) by (intro in_i32_mono[OF c]) (auto simp: PAGE_SIZE_def)
  from newPage_inv[OF s1(2) this] obtain s2 where s2: "newPage s1 = Inr (int (Suc (Suc n)), s2)" "bpm_inv s2 (Suc (Suc n)) {}"
    "same_views (Suc n) s1 s2" "view s2 (Suc (Suc n)) = Page (int (Suc (Suc n)))"
    "dm_capacity (disk s2) \<le> 2 * dm_capacity (disk s1)" "tables_names (disk s2) = tables_names (disk s1)" by blast
  let ?p = "Suc n" and ?q = "Suc (Suc n)"
  have v2: "view s2 ?p = Page (int ?p)" using s2(3) s1(3) by (simp add: same_views_def)
  obtain f s3 where s3: "fetch_frame s2 (int ?p) = Inr (f, view s2 ?p, s3)" "bpm_inv s3 ?q {}" "same_views ?q s2 s3"
    "cached s3 ?p f" "dm_capacity (disk s3) = dm_capacity (disk s2)" "tables_names (disk s3) = tables_names (disk s2)"
    using fetch_frame_inv[OF s2(2), of ?p] by auto
  let ?b = "set_next_page_id (Page (int ?p)) (int ?q)"
  obtain u where u: "markAsDirty (store_frame s3 f ?b) (int ?p) = Inr u" "bpm_inv u ?q {}" "view u = (view s3)(?p := ?b)"
    "disk u = disk s3"
    using mark_written[OF s3(2,4), of ?b] by auto
  have q32: "in_i32 (int ?q)" using capacity_bound[OF s1(2)] .
  have vq: "view u ?q = Page (int ?q)" using u(3) s3(3) s2(4) by (simp add: same_views_def)
  have P: "hdr_next_page_id (Page i) = - 1" "hdr_num_tuples (Page i) = 0" for i
    by (simp_all add: Page_def Let_def in_i32_def)
  let ?t = "(blank_table tid)\<lparr>first_page_id := int ?p, last_page_id := int ?q\<rparr>"
  have "new_table s tid = Inr (?t, u)"
    using s1(1) s2(1) s3(1) u(1) v2 by (simp add: new_table_def)
  moreover have "table_wf u ?q ?t ?p [?q] (\<lambda>_. [])"
    unfolding table_wf_def using u(2,3) vq q32 Page_wf[of "int ?q"] by (simp add: P)
  ultimately show ?thesis using s1(4,5) s2(5,6) s3(5,6) u(4) vq by (auto simp: blank_table_def)
qed

text \<open>A table in a new database.\<close>

lemma demo_table:
  "\<exists>d t u. DiskManager None = Inr d \<and> new_table (BufferPoolManager d) 0 = Inr (t, u) \<and>
     table_wf u 2 t 1 [2] (\<lambda>_. []) \<and> in_i32 (2 * dm_capacity (disk u) * int PAGE_SIZE) \<and> num_of_tuples t = 0 \<and>
     tables_names (disk u) = [] \<and> view u 2 = Page 2 \<and> starting_rid t = RID (- 1) (- 1)"
proof -
  obtain d where d: "DiskManager None = Inr d" "dm_inv d 0" "dm_capacity d = 100" "tables_names d = []"
    using new_disk by blast
  have "in_i32 (4 * dm_capacity (disk (BufferPoolManager d)) * int PAGE_SIZE)"
    by (simp add: d(3) BufferPoolManager_def in_i32_def PAGE_SIZE_def)
  from new_table_wf[OF BufferPoolManager_inv(1)[OF d(2)] this, of 0] obtain t u where
    tu: "new_table (BufferPoolManager d) 0 = Inr (t, u)" "table_wf u (Suc (Suc 0)) t (Suc 0) [Suc (Suc 0)] (\<lambda>_. [])"
    "num_of_tuples t = 0" "dm_capacity (disk u) \<le> 4 * dm_capacity (disk (BufferPoolManager d))"
    "tables_names (disk u) = tables_names (disk (BufferPoolManager d))" "view u (Suc (Suc 0)) = Page (int (Suc (Suc 0)))" "starting_rid t = RID (- 1) (- 1)" by blast
  have "0 < dm_capacity (disk u)" "dm_capacity (disk u) \<le> 400"
    using bpm_invD(1)[OF table_wfD(1)[OF tu(2)]] tu(4) d(3) by (auto simp: dm_inv_def BufferPoolManager_def)
  then have "in_i32 (2 * dm_capacity (disk u) * int PAGE_SIZE)" by (simp add: in_i32_def PAGE_SIZE_def)
  with d(1,4) tu show ?thesis by (auto simp: numeral_2_eq_2 BufferPoolManager_def)
qed

section \<open>Insertion\<close>

lemma insert_appends:
  assumes wf: "table_wf s n t p0 ps es" and tup: "tuple_fits tup" "\<not> t_deleted tup"
    and c: "in_i32 (2 * dm_capacity (disk s) * int PAGE_SIZE)"
  shows "\<exists>r t' u. heap_insertTuple s t tup = Inr (r, t', u) \<and> num_of_tuples t' = num_of_tuples t + 1 \<and>
    (if fits_in (view s (last ps)) (es (last ps)) tup
     then \<exists>es'. table_wf u n t' p0 ps es' \<and> rows ps es' = rows ps es @ [Some (tfields tup)] \<and>
       r = RID (int (last ps)) (int (length (es (last ps))))
     else \<exists>es'. table_wf u (Suc n) t' p0 (ps @ [Suc n]) es' \<and> r = RID (int (Suc n)) (- 1) \<and>
       rows (ps @ [Suc n]) es' = rows ps es @ (if fits_in (Page (int (Suc n))) [] tup then [Some (tfields tup)] else []))"
proof (cases "fits_in (view s (last ps)) (es (last ps)) tup")
  case True
  let ?lp = "last ps"
  let ?es = "es(?lp := es ?lp @ [new_entry (hdr_free (view s ?lp)) tup])"
  have sp: "ps = butlast ps @ [?lp]" using table_wfD(2)[OF wf] by simp
  have "?lp \<notin> set (butlast ps)" using table_wfD(5)[OF wf] sp by (metis distinct.simps(2) distinct_append disjoint_insert(1) list.simps(15))
  then have "rows (butlast ps @ [?lp]) ?es = rows (butlast ps @ [?lp]) es @ [Some (tfields tup)]"
    using visible_new[OF tup(2)] by (simp add: rows_other del: append_butlast_last_id)
  then have "rows ps ?es = rows ps es @ [Some (tfields tup)]" using sp by simp
  with insertTuple_with_room[OF wf tup(1) True] True show ?thesis by (metis (no_types, lifting))
next
  case False
  obtain t' u where u: "heap_insertTuple s t tup = Inr (RID (int (Suc n)) (- 1), t', u)"
    "table_wf u (Suc n) t' p0 (ps @ [Suc n])
      (es(Suc n := if fits_in (Page (int (Suc n))) [] tup then [new_entry PAGE_SIZE tup] else []))"
    "num_of_tuples t' = num_of_tuples t + 1"
    using insertTuple_new_page[OF wf tup(1) False c] by blast
  have "Suc n \<notin> set ps" using table_wfD(6)[OF wf] by fastforce
  then have r: "rows (ps @ [Suc n]) (es(Suc n := if fits_in (Page (int (Suc n))) [] tup then [new_entry PAGE_SIZE tup] else []))
      = rows ps es @ (if fits_in (Page (int (Suc n))) [] tup then [Some (tfields tup)] else [])"
    using visible_new[OF tup(2)] by (simp add: rows_other)
  show ?thesis unfolding if_not_P[OF False] using u(1,3) u(2) r by blast
qed

text \<open>
  C1. Inserting a row that fits its page format appends it to the rows of the table, on the last page
  when it has room and on a new page linked behind it otherwise, and changes no other row. The address
  that is returned is the address of the row only in the first case: behind a new page it has slot -1,
  and a row that does not fit an empty page is counted, but stored nowhere.
\<close>

theorem table_insert_appends:
  assumes wf: "table_wf s n t p0 ps es" and tup: "tuple_fits tup" "\<not> t_deleted tup"
    and c: "in_i32 (2 * dm_capacity (disk s) * int PAGE_SIZE)"
  shows "\<exists>r t' u. heap_insertTuple s t tup = Inr (r, t', u) \<and> num_of_tuples t' = num_of_tuples t + 1 \<and>
    (if fits_in (view s (last ps)) (es (last ps)) tup
     then \<exists>es'. table_wf u n t' p0 ps es' \<and> rows ps es' = rows ps es @ [Some (tfields tup)] \<and>
       r = RID (int (last ps)) (int (length (es (last ps))))
     else \<exists>es'. table_wf u (Suc n) t' p0 (ps @ [Suc n]) es' \<and> r = RID (int (Suc n)) (- 1) \<and>
       rows (ps @ [Suc n]) es' = rows ps es @ (if fits_in (Page (int (Suc n))) [] tup then [Some (tfields tup)] else []))"
  by (rule insert_appends[OF wf tup c])

lemma empty_page_fits: "fits_in (Page i) [] demo_tuple"
  by (simp add: fits_in_def demo_tuple_fits(3) page_room_def pad8_def Page_def Let_def PAGE_SIZE_def)

lemma table_insert_appends_witness:
  "\<exists>d t u r t' u' es'. DiskManager None = Inr d \<and> new_table (BufferPoolManager d) 0 = Inr (t, u) \<and>
     heap_insertTuple u t demo_tuple = Inr (r, t', u') \<and> rows [2] es' = [Some (tfields demo_tuple)] \<and>
     table_wf u' 2 t' 1 [2] es' \<and> num_of_tuples t' = 1"
proof -
  obtain d t u where t: "DiskManager None = Inr d" "new_table (BufferPoolManager d) 0 = Inr (t, u)"
    "table_wf u 2 t 1 [2] (\<lambda>_. [])" "in_i32 (2 * dm_capacity (disk u) * int PAGE_SIZE)" "num_of_tuples t = 0" "view u 2 = Page 2"
    using demo_table by blast
  have f: "fits_in (view u (last [2])) ((\<lambda>_. []) (last [2 :: nat])) demo_tuple" using t(6) empty_page_fits[of 2] by simp
  obtain r t' u' es' where "heap_insertTuple u t demo_tuple = Inr (r, t', u')" "num_of_tuples t' = num_of_tuples t + 1"
    "table_wf u' 2 t' 1 [2] es'" "rows [2] es' = rows [2] (\<lambda>_. []) @ [Some (tfields demo_tuple)]"
    using table_insert_appends[OF t(3) demo_tuple_fits(1,2) t(4)] unfolding if_P[OF f] by blast
  with t(1,2,5) show ?thesis by (intro exI[of _ d] exI[of _ t] exI[of _ u] exI[of _ r] exI[of _ t'] exI[of _ u'] exI[of _ es']) simp
qed

text \<open>
  A row that went to the last page is found again at the address \<^verbatim>\<open>insertTuple\<close> returned; a row
  that opened a new page is not found at the address that was returned for it.
\<close>

lemma insert_then_get:
  assumes wf: "table_wf s n t p0 ps es" and tup: "tuple_fits tup" "\<not> t_deleted tup"
    and c: "in_i32 (2 * dm_capacity (disk s) * int PAGE_SIZE)"
  shows "\<exists>r t' u v w. heap_insertTuple s t tup = Inr (r, t', u) \<and> heap_getTuple u r = Inr (v, w) \<and>
    (if fits_in (view s (last ps)) (es (last ps)) tup then \<exists>x. v = Some x \<and> tuple_eqv tup x else v = None)"
proof (cases "fits_in (view s (last ps)) (es (last ps)) tup")
  case True
  let ?lp = "last ps" and ?i = "length (es (last ps))"
  let ?e = "new_entry (hdr_free (view s ?lp)) tup"
  obtain t' u where u: "heap_insertTuple s t tup = Inr (RID (int ?lp) (int ?i), t', u)"
    "table_wf u n t' p0 ps (es(?lp := es ?lp @ [?e]))"
    using insertTuple_with_room[OF wf tup(1) True] by blast
  have "?lp \<in> set ps" using table_wfD(2)[OF wf] by simp
  moreover have "visible ?e" using tup(2) by (simp add: new_entry_def visible_def)
  ultimately obtain v w where "heap_getTuple u (RID (int ?lp) (int ?i)) = Inr (Some v, w)" "tuple_eqv tup v"
    using getTuple_at[OF u(2), of "RID (int ?lp) (int ?i)" ?lp "int ?i"]
    by (auto simp: getActualPair_def new_entry_def)
  with u(1) True show ?thesis by auto
next
  case False
  obtain t' u es' where u: "heap_insertTuple s t tup = Inr (RID (int (Suc n)) (- 1), t', u)"
    "table_wf u (Suc n) t' p0 (ps @ [Suc n]) es'"
    using insertTuple_new_page[OF wf tup(1) False c] by blast
  obtain v w where "heap_getTuple u (RID (int (Suc n)) (- 1)) = Inr (v, w)" "v = None"
    using getTuple_at[OF u(2), of "RID (int (Suc n)) (- 1)" "Suc n" "- 1"] by (auto simp: getActualPair_def)
  with u(1) False show ?thesis by auto
qed

lemma insert_then_get_witness:
  "\<exists>d t u r t' u' v w. DiskManager None = Inr d \<and> new_table (BufferPoolManager d) 0 = Inr (t, u) \<and>
     heap_insertTuple u t demo_tuple = Inr (r, t', u') \<and> heap_getTuple u' r = Inr (Some v, w) \<and> tuple_eqv demo_tuple v"
proof -
  obtain d t u where t: "DiskManager None = Inr d" "new_table (BufferPoolManager d) 0 = Inr (t, u)"
    "table_wf u 2 t 1 [2] (\<lambda>_. [])" "in_i32 (2 * dm_capacity (disk u) * int PAGE_SIZE)" "num_of_tuples t = 0" "view u 2 = Page 2"
    using demo_table by blast
  have f: "fits_in (view u (last [2])) ((\<lambda>_. []) (last [2 :: nat])) demo_tuple" using t(6) empty_page_fits[of 2] by simp
  show ?thesis
    using insert_then_get[OF t(3) demo_tuple_fits(1,2) t(4)] t(1,2) unfolding if_P[OF f] by blast
qed

section \<open>Deletion and restart\<close>

text \<open>A table with one row, in a database that was closed and opened again.\<close>

lemma demo_reopened:
  "\<exists>s t e. table_wf s 2 t 1 [2] (\<lambda>p. if p = 2 then [e] else []) \<and> visible e \<and> (\<forall>i f. \<not> cached s i f) \<and>
     tables_names (disk s) = [] \<and> starting_rid t = RID 2 0 \<and> stopping_rid t = RID 2 0 \<and> e_tuple e = demo_tuple"
proof -
  obtain d t u where t: "DiskManager None = Inr d" "new_table (BufferPoolManager d) 0 = Inr (t, u)"
    "table_wf u 2 t 1 [2] (\<lambda>_. [])" "tables_names (disk u) = []" "view u 2 = Page 2" "starting_rid t = RID (- 1) (- 1)"
    using demo_table by blast
  have f: "fits_in (view u (last [2])) ((\<lambda>_. []) (last [2 :: nat])) demo_tuple" using t(5) empty_page_fits[of 2] by simp
  let ?e = "new_entry (hdr_free (view u 2)) demo_tuple"
  obtain t' u' where u': "table_wf u' 2 t' 1 [2] ((\<lambda>_. [])(2 := [?e]))" "tables_names (disk u') = []"
    "starting_rid t' = RID 2 0" "stopping_rid t' = RID 2 0"
    using insertTuple_with_room[OF t(3) demo_tuple_fits(1) f] t(4,6) by auto
  note inv = table_wfD(1)[OF u'(1)]
  obtain d' where d': "bpm_inv (BufferPoolManager d') 2 {}" "same_views 2 u' (BufferPoolManager d')" "tables_names d' = []"
    using pool_restart[OF inv] u'(2) by (auto simp: tables_ok_def PAGE_SIZE_def)
  have "table_wf (BufferPoolManager d') 2 t' 1 [2] ((\<lambda>_. [])(2 := [?e]))"
    by (rule table_wf_same[OF u'(1) d'(1) _ d'(2)]) simp_all
  moreover have "(\<lambda>_. [])(2 := [?e]) = (\<lambda>p :: nat. if p = 2 then [?e] else [])" by auto
  moreover have "visible ?e" "e_tuple ?e = demo_tuple" using demo_tuple_fits(2) by (simp_all add: new_entry_def visible_def)
  ultimately show ?thesis using d'(3) u'(3,4) by (intro exI[of _ "BufferPoolManager d'"] exI[of _ t'] exI[of _ ?e])
    (simp add: cached_def BufferPoolManager_def)
qed

text \<open>
  C3. Deleting a row of a page that the pool holds clean hides the row in the pool, but the page is not
  marked as dirty: when the database is closed and opened again, the table has the row as before.
\<close>

theorem unmarked_delete_is_lost:
  assumes wf: "table_wf s n t p0 ps es" and r: "page_id r = int p" "slot_num (getActualPair r) = int i"
    and p: "p \<in> set ps" and i: "i < length (es p)" "visible (es p ! i)"
    and clean: "\<And>f. cached s p f \<Longrightarrow> \<not> is_dirty s ! nat f"
    and meta: "tables_ok (disk s)" "16 + 12 * n + seq_size table_size (tables_names (disk s)) \<le> PAGE_SIZE"
  shows "\<exists>t' u xs d d'. deleteTupleBool s t r = Inr (True, t', u) \<and> page_wf (view u p) xs \<and>
    visible_view xs = (visible_view (es p))[i := None] \<and>
    bpm_close u = Inr d \<and> DiskManager (Some (db_file d)) = Inr d' \<and> table_wf (BufferPoolManager d') n t p0 ps es"
proof -
  have ed: "\<not> e_del (es p ! i)" using i(2) by (simp add: visible_def)
  obtain u f b x where u: "fetch_frame s (int p) = Inr (f, view s p, u)" "bpm_inv u n {}" "same_views n s u"
    "deleteTupleBool s t r = Inr (True, t\<lparr>num_of_tuples := num_of_tuples t - 1\<rparr>, store_frame u f b)"
    "view (store_frame u f b) p = b" "tables_names (disk u) = tables_names (disk s)"
    "page_wf b ((es p)[i := (es p ! i)\<lparr>e_del := True, e_tuple := set_is_deleted x True\<rparr>])"
    using deleteTupleBool_at[OF wf r p i(1) ed] by blast
  have pn: "1 \<le> p" "p \<le> n" using table_wfD(6)[OF wf] p by auto
  have "\<not> is_dirty u ! nat f" by (rule fetch_clean[OF table_wfD(1)[OF wf] pn clean u(1)])
  then have cl: "bpm_close (store_frame u f b) = bpm_close u" by (simp add: bpm_close_def flush_ignores_clean)
  obtain d d' where d: "bpm_close u = Inr d" "DiskManager (Some (db_file d)) = Inr d'" "bpm_inv (BufferPoolManager d') n {}"
    "same_views n u (BufferPoolManager d')"
    using pool_restart[OF u(2)] meta u(6) by (auto simp: tables_ok_def)
  have "table_wf (BufferPoolManager d') n t p0 ps es"
    by (rule table_wf_same[OF wf d(3) _ same_views_trans[OF u(3) d(4)]]) simp_all
  moreover have "visible_view ((es p)[i := (es p ! i)\<lparr>e_del := True, e_tuple := set_is_deleted x True\<rparr>]) = (visible_view (es p))[i := None]"
    by (simp add: visible_view_update visible_def)
  ultimately show ?thesis using u(4,5,7) cl d(1,2) by (metis (no_types, lifting))
qed

lemma unmarked_delete_is_lost_witness:
  "\<exists>s t t' u d d' es. table_wf s 2 t 1 [2] es \<and> rows [2] es \<noteq> [None] \<and> length (rows [2] es) = 1 \<and>
     deleteTupleBool s t (RID 2 0) = Inr (True, t', u) \<and> bpm_close u = Inr d \<and>
     DiskManager (Some (db_file d)) = Inr d' \<and> table_wf (BufferPoolManager d') 2 t 1 [2] es"
proof -
  obtain s t e where s: "table_wf s 2 t 1 [2] (\<lambda>p. if p = 2 then [e] else [])" "visible e" "\<And>i f. \<not> cached s i f"
    "tables_names (disk s) = []" using demo_reopened by blast
  have "tables_ok (disk s)" "16 + 12 * 2 + seq_size table_size (tables_names (disk s)) \<le> PAGE_SIZE"
    using s(4) by (simp_all add: tables_ok_def PAGE_SIZE_def)
  then obtain t' u d d' where "deleteTupleBool s t (RID 2 0) = Inr (True, t', u)" "bpm_close u = Inr d"
    "DiskManager (Some (db_file d)) = Inr d'" "table_wf (BufferPoolManager d') 2 t 1 [2] (\<lambda>p. if p = 2 then [e] else [])"
    using unmarked_delete_is_lost[OF s(1), of "RID 2 0" 2 0] s(2,3) by (auto simp: getActualPair_def)
  with s(1,2) show ?thesis by (intro exI conjI) (assumption | simp)+
qed

text \<open>
  C4. \<^verbatim>\<open>setAllRIDs\<close>, which loading a table calls, returns the addresses of all rows when no row is
  deleted; when one is, it throws instead of skipping the row, so the table cannot be loaded.
\<close>

theorem loading_needs_no_deleted_row:
  assumes wf: "table_wf s n t p0 ps es" and k: "Suc (length ps) < k"
  shows "if None \<notin> set (rows ps es)
    then \<exists>u. setAllRIDs k s (first_page_id t) = Inr (all_rids ps es, u) \<and> table_wf u n t p0 ps es
    else setAllRIDs k s (first_page_id t) = Inl (Throw ''this tuple is not  found'')"
proof -
  let ?es = "es(p0 := [])"
  have p0: "p0 \<notin> set ps" using table_wfD(5)[OF wf] by simp
  have "page_rids (view s p) (int p) = (if \<forall>e \<in> set (?es p). visible e
      then Inr (map (\<lambda>i. RID (int p) (int i)) [0..<length (?es p)]) else Inl (Throw ''this tuple is not  found''))"
    if "p \<in> set (p0 # ps)" for p
    using page_rids_wf[OF table_wfD(9)[OF wf, of p], of "int p"] that p0 table_wfD(8)[OF wf]
    by (cases "p = p0") (auto simp: page_rids_def)
  moreover have "\<forall>p \<in> set (p0 # ps). 1 \<le> p \<and> p \<le> n" using table_wfD(6)[OF wf] by blast
  ultimately have c: "if none_deleted (p0 # ps) ?es
    then \<exists>u. setAllRIDs k s (int (hd (p0 # ps))) = Inr (all_rids (p0 # ps) ?es, u) \<and> bpm_inv u n {} \<and> same_views n s u
    else setAllRIDs k s (int (hd (p0 # ps))) = Inl (Throw ''this tuple is not  found'')"
    using k by (intro setAllRIDs_chain[OF table_wfD(1,7)[OF wf]]) simp_all
  have other: "?es q = es q" if "q \<in> set ps" for q using that p0 by auto
  have "all_rids (p0 # ps) ?es = all_rids ps es" using other by (auto simp: all_rids_def intro!: arg_cong[where f = concat])
  moreover have "none_deleted (p0 # ps) ?es \<longleftrightarrow> None \<notin> set (rows ps es)"
    using other by (simp add: none_deleted_rows[symmetric]) (simp add: none_deleted_def)
  ultimately show ?thesis using c table_wfD(3)[OF wf] table_wf_same[OF wf] by auto
qed

lemma loading_needs_no_deleted_row_witness:
  "\<exists>s (t :: table_heap) u. setAllRIDs 3 s (first_page_id t) = Inr ([RID 2 0], u) \<and> first_page_id t = 1"
proof -
  obtain s t e where s: "table_wf s 2 t 1 [2] (\<lambda>p. if p = 2 then [e] else [])" "visible e" using demo_reopened by blast
  have v: "None \<notin> set (rows [2] (\<lambda>p. if p = 2 then [e] else []))" using s(2) by simp
  have "\<exists>u. setAllRIDs 3 s (first_page_id t) = Inr ([RID 2 0], u)"
    using loading_needs_no_deleted_row[OF s(1), of 3] unfolding if_P[OF v] by (auto simp: all_rids_def)
  moreover have "first_page_id t = 1" using table_wfD(3)[OF s(1)] by simp
  ultimately show ?thesis by blast
qed

section \<open>Metadata\<close>

definition colrec_enc :: "column \<Rightarrow> byte list" where
  "colrec_enc c = [the (type_letter (col_type c))] @ col_enc c"

interpretation colrec: codec write_col read_col "\<lambda>c. 1 + nat (getColSize c)" colrec_enc "\<lambda>_. []" col_ok col_eqv
proof unfold_locales
  fix x y b off
  show "write_col x b off = memcpy_to b off (colrec_enc x @ [])" if "col_ok x"
  proof -
    have "write_col x b off = rbind (memcpy_to b off [the (type_letter (col_type x))]) (\<lambda>b. memcpy_to b (off + 1) (col_enc x))"
      using that by (cases "col_type x") (simp_all add: write_col_def write_letter_def col_ok_def type_letter_def serializeCol_bytes)
    also have "\<dots> = memcpy_to b off ([the (type_letter (col_type x))] @ col_enc x)" by (rule memcpy_then) simp_all
    finally show ?thesis by (simp add: colrec_enc_def)
  qed
  show "\<exists>y. read_col b off = Inr y \<and> col_eqv x y"
    if ok: "col_ok x" and pk: "peek (mem b) off (length (colrec_enc x)) = colrec_enc x"
      and room: "off + length (colrec_enc x @ []) \<le> cap b"
  proof -
    have p: "peek (mem b) off 1 = [the (type_letter (col_type x))]" "peek (mem b) (off + 1) (length (col_enc x)) = col_enc x"
      using peek_conc[of "mem b" off "[the (type_letter (col_type x))]" "col_enc x"] pk by (simp_all add: colrec_enc_def)
    have "letter_type (the (type_letter (col_type x))) = Some (col_type x)"
      using letter_type_letter[OF letter_ok[OF ok]] .
    with p room col_read_back[OF ok _ p(2), of "Column (col_type x) '''' 1"] show ?thesis
      by (simp add: read_col_def memcpy_from_def colrec_enc_def Column_def col_eqv_def)
  qed
  show "1 + nat (getColSize x) = length (colrec_enc x)" if "col_ok x"
    using that col.sz_enc[of x] by (simp add: colrec_enc_def)
  show "col_ok y \<and> colrec_enc y = colrec_enc x \<and> ([] :: byte list) = []" if ok: "col_ok x" and eq: "col_eqv x y"
  proof -
    obtain v where "y = x\<lparr>is_nullable := v\<rparr>" using eq by (auto simp: col_eqv_def)
    with col.eqv_ok[OF ok eq] show ?thesis by (simp add: colrec_enc_def)
  qed
qed

definition table_meta_ok :: "table_heap \<Rightarrow> bool" where
  "table_meta_ok t \<longleftrightarrow> length (table_name t) < 2 ^ 31 \<and> in_i32 (num_of_tuples t) \<and> in_i32 (first_page_id t) \<and>
     in_i32 (last_page_id t) \<and> rid_ok (starting_rid t) \<and> rid_ok (stopping_rid t) \<and> length (cols t) < 2 ^ 31 \<and>
     (\<forall>c \<in> set (cols t). col_ok c)"

definition table_meta_enc :: "table_heap \<Rightarrow> byte list" where
  "table_meta_enc t = i32_bytes (int (length (table_name t))) @ str_bytes (table_name t) @ i32_bytes (num_of_tuples t) @
     i32_bytes (first_page_id t) @ i32_bytes (last_page_id t) @ rid_enc (starting_rid t) @ rid_enc (stopping_rid t) @
     i32_bytes (int (length (cols t))) @ seq_enc colrec_enc (cols t)"

lemma write_table_meta_bytes:
  assumes "table_meta_ok t"
  shows "write_table_meta t b off = memcpy_to b off (table_meta_enc t)"
  unfolding write_table_meta_def table_meta_enc_def Let_def RID_serialize_bytes
  by ((rule memcpy_then)+) (use assms in \<open>simp_all add: colrec.write_seq_bytes[simplified] table_meta_ok_def ac_simps\<close>)

lemma read_table_meta_back:
  assumes ok: "table_meta_ok t" and pk: "peek (mem b) off (length (table_meta_enc t)) = table_meta_enc t"
    and room: "off + length (table_meta_enc t) \<le> cap b"
  shows "\<exists>cs. read_table_meta t0 b off = Inr (t0\<lparr>table_name := table_name t, num_of_tuples := num_of_tuples t,
      first_page_id := first_page_id t, last_page_id := last_page_id t, starting_rid := starting_rid t,
      stopping_rid := stopping_rid t, cols := cols t0 @ cs\<rparr>) \<and> list_all2 col_eqv (cols t) cs"
proof -
  let ?k = "length (table_name t)" and ?m = "mem b"
  note e = table_meta_ok_def
  have enc: "length (table_meta_enc t) = 52 + ?k + length (seq_enc colrec_enc (cols t))"
    by (simp add: table_meta_enc_def)
  note c = peek_conc[of ?m]
  note p1 = c[OF pk[unfolded table_meta_enc_def]]
  note p2 = c[OF p1(2)] note p3 = c[OF p2(2)] note p4 = c[OF p3(2)] note p5 = c[OF p4(2)]
  note p6 = c[OF p5(2)] note p7 = c[OF p6(2)] note p8 = c[OF p7(2)]
  have q: "peek ?m off 4 = i32_bytes (int ?k)" "peek ?m (off + 4) ?k = str_bytes (table_name t)"
    "peek ?m (off + 4 + ?k) 4 = i32_bytes (num_of_tuples t)" "peek ?m (off + 8 + ?k) 4 = i32_bytes (first_page_id t)"
    "peek ?m (off + 12 + ?k) 4 = i32_bytes (last_page_id t)" "peek ?m (off + 16 + ?k) 16 = rid_enc (starting_rid t)"
    "peek ?m (off + 32 + ?k) 16 = rid_enc (stopping_rid t)" "peek ?m (off + 48 + ?k) 4 = i32_bytes (int (length (cols t)))"
    "peek ?m (off + 52 + ?k) (length (seq_enc colrec_enc (cols t))) = seq_enc colrec_enc (cols t)"
    using p1(1) p2(1) p3(1) p4(1) p5(1) p6(1) p7(1) p8 by (simp_all add: ac_simps)
  have r: "RID_deserialize b (off + 16 + ?k) = Inr (starting_rid t)" "RID_deserialize b (off + 32 + ?k) = Inr (stopping_rid t)"
    using ok room enc q(6,7) by (auto intro!: RID_deserialize_back simp: e)
  obtain cs where cs: "read_seq read_col (\<lambda>c. 1 + nat (getColSize c)) (length (cols t)) b (off + 52 + ?k) = Inr cs"
    "list_all2 col_eqv (cols t) cs"
    using colrec.read_seq_back[of "cols t" b "off + 52 + ?k"] ok room enc q(9) by (auto simp: e)
  have i: "in_i32 (int ?k)" "in_i32 (int (length (cols t)))" using ok by (simp_all add: e in_i32_def)
  have nb: "off + 4 \<le> cap b" "off + 4 + ?k \<le> cap b" "off + 4 + ?k + 4 \<le> cap b" "off + 8 + ?k + 4 \<le> cap b"
    "off + 12 + ?k + 4 \<le> cap b" "off + 48 + ?k + 4 \<le> cap b" using room enc by simp_all
  have "read_table_meta t0 b off = Inr (t0\<lparr>table_name := table_name t, num_of_tuples := num_of_tuples t,
      first_page_id := first_page_id t, last_page_id := last_page_id t, starting_rid := starting_rid t,
      stopping_rid := stopping_rid t, cols := cols t0 @ cs\<rparr>)"
    using nb q(1-5,8) r cs(1) i ok by (simp add: read_table_meta_def memcpy_from_def Let_def e)
  with cs(2) show ?thesis by blast
qed

text \<open>
  C14. Loading the metadata page of a table restores its name, row count, chain, first and last
  address and its columns as \<^verbatim>\<open>saveMetaData\<close> wrote them, except that every column comes back nullable.
\<close>

theorem table_meta_roundtrip:
  assumes "table_meta_ok t" "write_table_meta t b off = Inr b'"
  shows "read_table_meta (blank_table tid) b' off = Inr ((blank_table tid)\<lparr>table_name := table_name t,
      num_of_tuples := num_of_tuples t, first_page_id := first_page_id t, last_page_id := last_page_id t,
      starting_rid := starting_rid t, stopping_rid := stopping_rid t,
      cols := map (\<lambda>c. c\<lparr>is_nullable := True\<rparr>) (cols t)\<rparr>)"
proof -
  have b': "off + length (table_meta_enc t) \<le> cap b'" "peek (mem b') off (length (table_meta_enc t)) = table_meta_enc t"
    using assms(2) by (auto simp: write_table_meta_bytes[OF assms(1)] memcpy_to_eq_Inr)
  obtain cs where cs: "read_table_meta (blank_table tid) b' off = Inr ((blank_table tid)\<lparr>table_name := table_name t,
      num_of_tuples := num_of_tuples t, first_page_id := first_page_id t, last_page_id := last_page_id t,
      starting_rid := starting_rid t, stopping_rid := stopping_rid t, cols := cols (blank_table tid) @ cs\<rparr>)"
    "list_all2 col_eqv (cols t) cs"
    using read_table_meta_back[OF assms(1) b'(2,1)] by blast
  have "cs = map (\<lambda>c. c\<lparr>is_nullable := True\<rparr>) (cols t)"
    using cs(2) by (induction rule: list_all2_induct) (simp_all add: col_eqv_def)
  then show ?thesis using cs(1) by (simp add: blank_table_def)
qed

definition demo_cols :: "column list" where
  "demo_cols = [Column TYPE_INT ''id'' 4, set_is_nullable (Column TYPE_STRING ''name'' 30) False]"

lemma table_meta_roundtrip_witness:
  "\<exists>b u. write_table_meta ((blank_table 0)\<lparr>table_name := ''t'', cols := demo_cols\<rparr>) (Page 1) 14 = Inr b \<and>
     read_table_meta (blank_table 0) b 14 = Inr u \<and> table_name u = ''t'' \<and> map col_name (cols u) = [''id'', ''name'']"
proof -
  let ?t = "(blank_table 0)\<lparr>table_name := ''t'', cols := demo_cols\<rparr>"
  have ok: "table_meta_ok ?t"
    by (simp add: table_meta_ok_def blank_table_def demo_cols_def col_ok_def Column_def set_is_nullable_def in_i32_def rid_ok_def)
  have "length (table_meta_enc ?t) = 79"
    by (simp add: table_meta_enc_def demo_cols_def colrec_enc_def length_col_enc Column_def set_is_nullable_def)
  moreover have "cap (Page 1) = PAGE_SIZE" using Page_canon[of 1] by (simp add: canon_def)
  ultimately obtain b where b: "write_table_meta ?t (Page 1) 14 = Inr b"
    by (simp add: write_table_meta_bytes[OF ok] memcpy_to_def PAGE_SIZE_def)
  show ?thesis using table_meta_roundtrip[OF ok b, of 0] b
    by (intro exI[of _ b]) (simp add: demo_cols_def Column_def set_is_nullable_def)
qed

end
