(* ===== verification/Executer_Spec.thy ===== *)
theory Executer_Spec imports Tuple_Model
begin

text \<open>
  The interface \<^verbatim>\<open>AbstractExecuter\<close> (src/Include/Q_Execution/AbstractExecuter.h): what an operator of a query
  relies on when it calls \<^verbatim>\<open>getNext\<close> of a child, and promises when it is a child itself. The operators of
  one query share a world, the buffer pool; each has a state of its own.
\<close>

type_synonym ('w, 'a) get_next = "'w \<Rightarrow> 'a \<Rightarrow> (tuple option \<times> 'a \<times> 'w) res"

text \<open>The loop of every caller: \<^verbatim>\<open>while (executor->getNext(&tuple))\<close>.\<close>

fun drain :: "nat \<Rightarrow> ('w, 'a) get_next \<Rightarrow> 'w \<Rightarrow> 'a \<Rightarrow> (tuple list \<times> 'a \<times> 'w) res" where
  "drain 0 nxt w a = Inl Diverges"
| "drain (Suc m) nxt w a =
     rbind (nxt w a) (\<lambda>(x, a, w).
     case x of None \<Rightarrow> Inr ([], a, w) | Some tup \<Rightarrow> rbind (drain m nxt w a) (\<lambda>(xs, a, w). Inr (tup # xs, a, w)))"

text \<open>
  \<open>left w a xs\<close>: the executer in state \<open>a\<close> has the rows \<open>xs\<close> left. Steps of other executers that change
  the world as \<open>same\<close> allows do not disturb it.
\<close>

locale executer =
  fixes nxt :: "('w, 'a) get_next" and left :: "'w \<Rightarrow> 'a \<Rightarrow> tuple list \<Rightarrow> bool" and same :: "'w \<Rightarrow> 'w \<Rightarrow> bool"
  assumes at_end: "left w a [] \<Longrightarrow> \<exists>b u. nxt w a = Inr (None, b, u) \<and> same w u"
    and at_row: "left w a (x # xs) \<Longrightarrow> \<exists>b u. nxt w a = Inr (Some x, b, u) \<and> same w u \<and> left u b xs"
    and undisturbed: "left w a xs \<Longrightarrow> same w u \<Longrightarrow> left u a xs"
    and same_refl: "left w a xs \<Longrightarrow> same w w"
    and same_trans: "same w u \<Longrightarrow> same u v \<Longrightarrow> same w v"
begin

lemma drain_left: "left w a xs \<Longrightarrow> length xs < m \<Longrightarrow> \<exists>b u. drain m nxt w a = Inr (xs, b, u) \<and> same w u"
proof (induction m arbitrary: w a xs)
  case (Suc m)
  show ?case
  proof (cases xs)
    case Nil
    then show ?thesis using at_end Suc.prems(1) by fastforce
  next
    case (Cons x ys)
    then obtain b u where u: "nxt w a = Inr (Some x, b, u)" "same w u" "left u b ys" using at_row Suc.prems(1) by blast
    then obtain c v where "drain m nxt u b = Inr (ys, c, v)" "same u v" using Suc.IH[OF u(3)] Suc.prems(2) Cons by auto
    then show ?thesis using u(1) same_trans[OF u(2)] Cons by auto
  qed
qed simp

lemma next_left:
  assumes "left w a xs"
  shows "\<exists>r b u. nxt w a = Inr (r, b, u) \<and> same w u \<and> (case xs of [] \<Rightarrow> r = None | x # rest \<Rightarrow> r = Some x \<and> left u b rest)"
proof (cases xs)
  case Nil
  then show ?thesis using at_end[of w a] assms by auto
next
  case (Cons x rest)
  then show ?thesis using at_row[of w a x rest] assms by auto
qed

end

end
