(* ===== verification/Scan.thy ===== *)
theory Scan imports Table_Props Executer_Spec
begin

text \<open>
  The two ways to walk over a table: \<^verbatim>\<open>TableIterator\<close> (src/Storage/Table/TableIterator.c++) and the
  operator \<^verbatim>\<open>SeqScan\<close> (src/Q_Execution/seq_scan_operator.c++). A scan keeps the address of the next row;
  \<^verbatim>\<open>getNext\<close> skips deleted rows and follows the chain of pages until a page behind the one of the last
  insertion. The loop takes fuel, and more fuel than there are slots and pages left is enough.
\<close>

section \<open>TableIterator\<close>

record table_iterator =
  it_curr :: rid
  it_stopping :: rid

definition TableIterator :: "bpm \<Rightarrow> rid \<Rightarrow> rid \<Rightarrow> (table_iterator \<times> bpm) res" where
  "TableIterator s start stop =
     (let p = getActualPair start in
      if page_id p \<noteq> - 1 then
        rbind (fetch_frame s (page_id p)) (\<lambda>(_, b, s).
        Inr (\<lparr>it_curr = (if int (hdr_num_tuples b) \<le> slot_num p then RID (- 1) 0 else start), it_stopping = stop\<rparr>, s))
      else Inr (\<lparr>it_curr = start, it_stopping = stop\<rparr>, s))"

text \<open>The stopping condition of \<^verbatim>\<open>operator++\<close> changes a copy of the pointer and has no effect.\<close>

definition it_next :: "bpm \<Rightarrow> table_iterator \<Rightarrow> (table_iterator \<times> bpm) res" where
  "it_next s it =
     (let p = getActualPair (it_curr it) in
      rbind (fetch_frame s (page_id p)) (\<lambda>(_, b, s).
      Inr (it\<lparr>it_curr := (if slot_num p + 1 \<ge> int (hdr_num_tuples b) then RID (hdr_next_page_id b) 0
                            else RID (page_id p) (slot_num p + 1))\<rparr>, s)))"

definition it_deref :: "bpm \<Rightarrow> table_iterator \<Rightarrow> (tuple \<times> bpm) res" where
  "it_deref s it = rbind (heap_getTuple s (it_curr it)) (\<lambda>(x, s). rbind (get_or_ub x) (\<lambda>x. Inr (x, s)))"

definition it_end :: "table_iterator \<Rightarrow> bool" where
  "it_end it \<longleftrightarrow> page_id (getActualPair (it_curr it)) = - 1"

section \<open>SeqScan\<close>

record seq_scan =
  curr_rid :: rid
  prev_rid :: rid
  scan_schema :: "column list"

text \<open>The constructor calls \<^verbatim>\<open>open\<close>, which qualifies the column names with the table name.\<close>

definition seq_open :: "table_heap \<Rightarrow> seq_scan" where
  "seq_open t = \<lparr>curr_rid = starting_rid t, prev_rid = RID (- 1) (- 1),
     scan_schema = map (\<lambda>c. setColName c (table_name t @ ''.'' @ col_name c)) (cols t)\<rparr>"

definition seq_close :: "seq_scan \<Rightarrow> seq_scan" where
  "seq_close sc = sc\<lparr>curr_rid := RID (- 1) (- 1)\<rparr>"

definition seq_has_column :: "table_heap \<Rightarrow> seq_scan \<Rightarrow> string \<Rightarrow> bool" where
  "seq_has_column t sc name = list_ex (\<lambda>c. table_name t @ ''.'' @ col_name c = name) (scan_schema sc)"

fun seq_getNext :: "nat \<Rightarrow> bpm \<Rightarrow> table_heap \<Rightarrow> seq_scan \<Rightarrow> (tuple option \<times> seq_scan \<times> bpm) res" where
  "seq_getNext 0 s t sc = Inl Diverges"
| "seq_getNext (Suc k) s t sc =
     rbind (fetchPage s (page_id (curr_rid sc))) (\<lambda>(p, s).
     case p of None \<Rightarrow> Inr (None, sc, s)
     | Some f \<Rightarrow> rbind (frame_at s f) (\<lambda>b.
         let next_page_id = hdr_next_page_id b; slot = slot_num (curr_rid sc) in
         if slot \<ge> int (hdr_num_tuples b) then
           if next_page_id > page_id (stopping_rid t) \<or> next_page_id = - 1 then Inr (None, sc, s)
           else rbind (heap_getTuple s (RID next_page_id 0)) (\<lambda>(x, s).
             let sc = sc\<lparr>prev_rid := RID next_page_id 0, curr_rid := RID next_page_id 1\<rparr>
             in case x of None \<Rightarrow> seq_getNext k s t sc | Some tup \<Rightarrow> Inr (Some tup, sc, s))
         else rbind (heap_getTuple s (curr_rid sc)) (\<lambda>(x, s).
             let sc = sc\<lparr>prev_rid := curr_rid sc, curr_rid := RID (page_id (curr_rid sc)) (slot + 1)\<rparr>
             in case x of None \<Rightarrow> seq_getNext k s t sc | Some tup \<Rightarrow> Inr (Some tup, sc, s))))"

section \<open>A scan returns the rows\<close>

lemma links_at: "links v (xs @ p # post) \<Longrightarrow> hdr_next_page_id (v p) = (if post = [] then - 1 else int (hd post))"
proof (induction xs)
  case Nil
  then show ?case by (cases post) auto
next
  case (Cons x xs)
  then show ?case by (cases xs) auto
qed

text \<open>
  The entries of pages with the pages they are on; the entries a scan at slot \<open>i\<close> of page \<open>p\<close> has not
  returned yet, and the work to get there.
\<close>

definition paged :: "(nat \<Rightarrow> entry list) \<Rightarrow> nat list \<Rightarrow> (nat \<times> entry) list" where
  "paged es ps = concat (map (\<lambda>q. map (Pair q) (es q)) ps)"

definition shown :: "nat \<times> entry \<Rightarrow> bool" where
  "shown x = visible (snd x)"

definition row_of :: "(nat \<Rightarrow> buf) \<Rightarrow> nat \<times> entry \<Rightarrow> tuple" where
  "row_of v x = stored_row (v (fst x)) (snd x)"

definition ahead :: "(nat \<Rightarrow> entry list) \<Rightarrow> nat \<Rightarrow> int \<Rightarrow> nat list \<Rightarrow> (nat \<times> entry) list" where
  "ahead es p i post = map (Pair p) (drop (nat i) (es p)) @ paged es post"

definition scan_work :: "(nat \<Rightarrow> entry list) \<Rightarrow> nat \<Rightarrow> int \<Rightarrow> nat list \<Rightarrow> nat" where
  "scan_work es p i post = nat (int (length (es p)) - i) + sum_list (map (\<lambda>q. Suc (length (es q))) post)"

text \<open>A scan of a table: where it stands, and that it will follow the chain to its end.\<close>

definition scan_at :: "bpm \<Rightarrow> nat \<Rightarrow> table_heap \<Rightarrow> nat \<Rightarrow> nat list \<Rightarrow> (nat \<Rightarrow> entry list) \<Rightarrow> (nat \<Rightarrow> buf) \<Rightarrow> seq_scan \<Rightarrow>
    nat list \<Rightarrow> nat \<Rightarrow> int \<Rightarrow> nat list \<Rightarrow> bool" where
  "scan_at s n t p0 ps es v sc pre p i post \<longleftrightarrow> table_wf s n t p0 ps es \<and> (\<forall>q \<in> set ps. view s q = v q) \<and> ps = pre @ p # post \<and>
     curr_rid sc = RID (int p) i \<and> - 1 \<le> i \<and> (\<forall>q \<in> set ps. int q \<le> page_id (stopping_rid t))"

lemma ahead_step:
  assumes "0 \<le> i" "nat i < length (es p)"
  shows "ahead es p i post = (p, es p ! nat i) # ahead es p (i + 1) post"
proof -
  have "nat (i + 1) = Suc (nat i)" using assms(1) by simp
  then show ?thesis using assms(2) by (simp add: ahead_def flip: Cons_nth_drop_Suc)
qed

lemma ahead_skip:
  assumes "- 1 \<le> i" "\<not> (0 \<le> i \<and> nat i < length (es p))"
  shows "ahead es p (i + 1) post = ahead es p i post"
  using assms by (cases "i = - 1") (auto simp: ahead_def nat_add_distrib)

lemma ahead_next: "int (length (es p)) \<le> i \<Longrightarrow> ahead es p i (q # post) = ahead es q 0 post"
  by (simp add: ahead_def paged_def)

definition scan_step :: "(tuple option \<times> seq_scan \<times> bpm) res \<Rightarrow> bpm \<Rightarrow> nat \<Rightarrow> table_heap \<Rightarrow> nat \<Rightarrow> nat list \<Rightarrow>
    (nat \<Rightarrow> entry list) \<Rightarrow> (nat \<Rightarrow> buf) \<Rightarrow> (nat \<times> entry) list \<Rightarrow> nat \<Rightarrow> bool" where
  "scan_step R s n t p0 ps es v todo w \<longleftrightarrow> (\<exists>r sc u. R = Inr (r, sc, u) \<and> table_wf u n t p0 ps es \<and> same_views n s u \<and>
     (case todo of [] \<Rightarrow> r = None
      | x # rest \<Rightarrow> r = Some (row_of v x) \<and> (\<exists>pre p i post. scan_at u n t p0 ps es v sc pre p i post \<and>
          filter shown (ahead es p i post) = rest \<and> scan_work es p i post \<le> w)))"

lemma scan_step_later:
  assumes "scan_step R u n t p0 ps es v todo w" "same_views n s u" "w \<le> w'"
  shows "scan_step R s n t p0 ps es v todo w'"
  using assms(1) le_trans[OF _ assms(3)] same_views_trans[OF assms(2)] unfolding scan_step_def
  by (cases todo) (fastforce, simp, blast)

lemma scan_at_views:
  assumes "scan_at s n t p0 ps es v sc pre p i post" "bpm_inv u n {}" "same_views n s u"
  shows "scan_at u n t p0 ps es v sc pre p i post"
proof -
  have wf: "table_wf s n t p0 ps es" using assms(1) unfolding scan_at_def by blast
  have "table_wf u n t p0 ps es" by (rule table_wf_same[OF wf assms(2) _ assms(3)]) simp_all
  moreover have "view u q = view s q" if "q \<in> set ps" for q
    using table_wfD(6)[OF wf, of q] that assms(3) by (auto simp: same_views_def)
  ultimately show ?thesis using assms(1) by (simp add: scan_at_def)
qed

lemma getNext_spec:
  assumes "scan_at s n t p0 ps es v sc pre p i post" "scan_work es p i post < k"
  shows "scan_step (seq_getNext k s t sc) s n t p0 ps es v (filter shown (ahead es p i post)) (scan_work es p i post)"
  using assms
proof (induction k arbitrary: s sc pre p i post)
  case (Suc k)
  note at = Suc.prems(1)[unfolded scan_at_def]
  have wf: "table_wf s n t p0 ps es" and sp: "ps = pre @ p # post" and cr: "curr_rid sc = RID (int p) i"
    and i: "- 1 \<le> i" and stop: "\<forall>q \<in> set ps. int q \<le> page_id (stopping_rid t)" using at by blast+
  have p: "p \<in> set ps" "1 \<le> p" "p \<le> n" using sp table_wfD(6)[OF wf, of p] by auto
  obtain f s1 where s1: "fetchPage s (int p) = Inr (Some f, s1)" "bpm_inv s1 n {}" "same_views n s s1"
    "frame_at s1 f = Inr (view s p)"
    using fetchPage_inv[OF table_wfD(1)[OF wf] p(2,3)] by blast
  note at1 = scan_at_views[OF Suc.prems(1) s1(2,3), unfolded scan_at_def]
  have nt: "hdr_num_tuples (view s p) = length (es p)" using table_wfD(9)[OF wf p(1)] by (simp add: page_wf_def)
  have nx: "hdr_next_page_id (view s p) = (if post = [] then - 1 else int (hd post))"
    using links_at[of "view s" "p0 # pre" p post] table_wfD(7)[OF wf] sp by simp
  have move: "scan_step (rbind (heap_getTuple u (RID (int q) j))
        (\<lambda>(x, u). case x of None \<Rightarrow> seq_getNext k u t sc1 | Some tup \<Rightarrow> Inr (Some tup, sc1, u)))
      u n t p0 ps es v (filter shown (ahead es q j post')) (scan_work es q (j + 1) post')"
    if j: "scan_at u n t p0 ps es v sc1 pre' q (j + 1) post'" "- 1 \<le> j" "scan_work es q (j + 1) post' < k" for u sc1 pre' q j post'
  proof -
    have wfu: "table_wf u n t p0 ps es" and q: "q \<in> set ps" and vq: "view u q = v q" using j(1) by (auto simp: scan_at_def)
    let ?here = "0 \<le> j \<and> nat j < length (es q) \<and> visible (es q ! nat j)"
    obtain z where g: "heap_getTuple u (RID (int q) j) = Inr (if ?here then Some (row_of v (q, es q ! nat j)) else None, z)"
      "table_wf z n t p0 ps es" "same_views n u z"
      using getTuple_reads[OF wfu, of "RID (int q) j" q j] q vq by (auto simp: getActualPair_def row_of_def)
    have at': "scan_at z n t p0 ps es v sc1 pre' q (j + 1) post'" by (rule scan_at_views[OF j(1) table_wfD(1)[OF g(2)] g(3)])
    show ?thesis
    proof (cases ?here)
      case True
      then have "filter shown (ahead es q j post') = (q, es q ! nat j) # filter shown (ahead es q (j + 1) post')"
        by (simp add: ahead_step shown_def)
      with g True at' show ?thesis unfolding scan_step_def by auto
    next
      case False
      then have "filter shown (ahead es q j post') = filter shown (ahead es q (j + 1) post')"
        using ahead_step[of j es q post'] ahead_skip[OF j(2), of es q post']
        by (cases "0 \<le> j \<and> nat j < length (es q)") (auto simp: shown_def)
      then show ?thesis using scan_step_later[OF Suc.IH[OF at' j(3)] g(3) order_refl] g(1) False by simp
    qed
  qed
  show ?case
  proof (cases "int (length (es p)) \<le> i")
    case False
    let ?sc = "sc\<lparr>prev_rid := RID (int p) i, curr_rid := RID (int p) (i + 1)\<rparr>"
    have a: "scan_at s1 n t p0 ps es v ?sc pre p (i + 1) post" using at1 i by (auto simp: scan_at_def)
    have w: "scan_work es p (i + 1) post < scan_work es p i post" using False i by (simp add: scan_work_def)
    have eq: "seq_getNext (Suc k) s t sc = rbind (heap_getTuple s1 (RID (int p) i))
        (\<lambda>(x, u). case x of None \<Rightarrow> seq_getNext k u t ?sc | Some tup \<Rightarrow> Inr (Some tup, ?sc, u))"
      using s1(1,4) cr nt False by (simp add: Let_def)
    show ?thesis unfolding eq using w Suc.prems(2) by (intro scan_step_later[OF move[OF a i] s1(3)]) simp_all
  next
    case True
    show ?thesis
    proof (cases post)
      case Nil
      then have "seq_getNext (Suc k) s t sc = Inr (None, sc, s1)" using s1(1,4) cr nt nx True by (simp add: Let_def)
      moreover have "ahead es p i post = []" using True Nil by (simp add: ahead_def paged_def)
      ultimately show ?thesis using at1 s1(3) by (auto simp: scan_step_def)
    next
      case (Cons q post')
      let ?sc = "sc\<lparr>prev_rid := RID (int q) 0, curr_rid := RID (int q) 1\<rparr>"
      have a: "scan_at s1 n t p0 ps es v ?sc (pre @ [p]) q (0 + 1) post'" using at1 Cons by (auto simp: scan_at_def)
      have w: "scan_work es q (0 + 1) post' < scan_work es p i post" using True Cons by (simp add: scan_work_def)
      have qs: "q \<in> set ps" using sp Cons by simp
      have eq: "seq_getNext (Suc k) s t sc = rbind (heap_getTuple s1 (RID (int q) 0))
          (\<lambda>(x, u). case x of None \<Rightarrow> seq_getNext k u t ?sc | Some tup \<Rightarrow> Inr (Some tup, ?sc, u))"
        using s1(1,4) cr nt nx True Cons stop[rule_format, OF qs] by (simp add: Let_def)
      have ah: "ahead es p i post = ahead es q 0 post'" using True Cons by (simp add: ahead_next)
      show ?thesis unfolding eq ah using w Suc.prems(2) by (intro scan_step_later[OF move[OF a] s1(3)]) simp_all
    qed
  qed
qed simp

text \<open>
  What a scan relies on: the pages of the chain are in increasing order, the last insertion was on the
  last page, and no row lies before the starting address.
\<close>

definition scan_ready :: "table_heap \<Rightarrow> nat list \<Rightarrow> (nat \<Rightarrow> entry list) \<Rightarrow> bool" where
  "scan_ready t ps es \<longleftrightarrow> sorted_wrt (<) ps \<and>
     (starting_rid t = RID (- 1) (- 1) \<and> (\<forall>p \<in> set ps. es p = []) \<or>
      page_id (stopping_rid t) = int (last ps) \<and>
      (\<exists>pre p post i. ps = pre @ p # post \<and> (\<forall>q \<in> set pre. es q = []) \<and>
         starting_rid t = RID (int p) i \<and> - 1 \<le> i \<and> i \<le> 0))"

lemma sorted_last: "sorted_wrt (<) ps \<Longrightarrow> q \<in> set ps \<Longrightarrow> q \<le> last (ps :: nat list)"
proof (induction ps)
  case (Cons p ps)
  then show ?case by (cases ps) (auto simp: less_imp_le)
qed simp

definition scan_left :: "nat \<Rightarrow> nat \<Rightarrow> table_heap \<Rightarrow> nat \<Rightarrow> nat list \<Rightarrow> (nat \<Rightarrow> entry list) \<Rightarrow> (nat \<Rightarrow> buf) \<Rightarrow>
    bpm \<Rightarrow> seq_scan \<Rightarrow> tuple list \<Rightarrow> bool" where
  "scan_left k n t p0 ps es v s sc xs \<longleftrightarrow> 0 < k \<and> table_wf s n t p0 ps es \<and>
     (curr_rid sc = RID (- 1) (- 1) \<and> xs = [] \<or>
      (\<exists>pre p i post. scan_at s n t p0 ps es v sc pre p i post \<and> scan_work es p i post < k \<and>
         xs = map (row_of v) (filter shown (ahead es p i post))))"

definition same_pages :: "nat \<Rightarrow> bpm \<Rightarrow> bpm \<Rightarrow> bool" where
  "same_pages n s u \<longleftrightarrow> bpm_inv u n {} \<and> same_views n s u"

lemma scan_left_step:
  assumes "scan_left k n t p0 ps es v s sc xs"
  shows "\<exists>r sc' u. seq_getNext k s t sc = Inr (r, sc', u) \<and> same_pages n s u \<and>
    (case xs of [] \<Rightarrow> r = None | x # rest \<Rightarrow> r = Some x \<and> scan_left k n t p0 ps es v u sc' rest)"
proof (cases "curr_rid sc = RID (- 1) (- 1) \<and> xs = []")
  case True
  then obtain k' where "k = Suc k'" "bpm_inv s n {}"
    using assms table_wfD(1) by (cases k) (auto simp: scan_left_def)
  then show ?thesis using True by (simp add: fetchPage_def same_pages_def same_views_def)
next
  case False
  then obtain pre p i post where at: "scan_at s n t p0 ps es v sc pre p i post" "scan_work es p i post < k"
    "xs = map (row_of v) (filter shown (ahead es p i post))"
    using assms unfolding scan_left_def by blast
  note st = getNext_spec[OF at(1,2)]
  show ?thesis
  proof (cases "filter shown (ahead es p i post)")
    case Nil
    then show ?thesis using st at(3) table_wfD(1) unfolding scan_step_def same_pages_def by fastforce
  next
    case (Cons x rest)
    then obtain sc' u pre' p' i' post' where "seq_getNext k s t sc = Inr (Some (row_of v x), sc', u)" "table_wf u n t p0 ps es"
      "same_views n s u" "scan_at u n t p0 ps es v sc' pre' p' i' post'" "rest = filter shown (ahead es p' i' post')"
      "scan_work es p' i' post' < k"
      using st at(2) unfolding scan_step_def by auto
    then show ?thesis unfolding at(3) Cons scan_left_def same_pages_def using table_wfD(1) by fastforce
  qed
qed

lemma scan_left_same:
  assumes "scan_left k n t p0 ps es v s sc xs" "same_pages n s u"
  shows "scan_left k n t p0 ps es v u sc xs"
proof -
  have wf: "table_wf s n t p0 ps es" using assms(1) by (simp add: scan_left_def)
  have "table_wf u n t p0 ps es"
    using assms(2) by (intro table_wf_same[OF wf]) (auto simp: same_pages_def)
  then show ?thesis using assms scan_at_views unfolding scan_left_def same_pages_def by blast
qed

lemma same_pages_trans: "same_pages n s u \<Longrightarrow> same_pages n u w \<Longrightarrow> same_pages n s w"
  using same_views_trans by (auto simp: same_pages_def)

text \<open>A scan of a table is an executer.\<close>

abbreviation scan_next :: "nat \<Rightarrow> table_heap \<Rightarrow> (bpm, seq_scan) get_next" where
  "scan_next k t \<equiv> (\<lambda>s sc. seq_getNext k s t sc)"

interpretation scan: executer "scan_next k t" "scan_left k n t p0 ps es v" "same_pages n" for k n t p0 ps es v
proof unfold_locales
  fix s sc u x xs
  show "scan_left k n t p0 ps es v s sc [] \<Longrightarrow> \<exists>b u. seq_getNext k s t sc = Inr (None, b, u) \<and> same_pages n s u"
    using scan_left_step by fastforce
  show "scan_left k n t p0 ps es v s sc (x # xs) \<Longrightarrow> \<exists>b u. seq_getNext k s t sc = Inr (Some x, b, u) \<and>
      same_pages n s u \<and> scan_left k n t p0 ps es v u b xs"
    using scan_left_step by fastforce
  show "scan_left k n t p0 ps es v s sc xs \<Longrightarrow> same_pages n s u \<Longrightarrow> scan_left k n t p0 ps es v u sc xs"
    by (rule scan_left_same)
  show "scan_left k n t p0 ps es v s sc xs \<Longrightarrow> same_pages n s s"
    using table_wfD(1) by (auto simp: scan_left_def same_pages_def same_views_def)
qed (rule same_pages_trans)

text \<open>The rows of a table that are not deleted, as they read back; a scan that was just opened has all of them left.\<close>

definition table_rows :: "(nat \<Rightarrow> buf) \<Rightarrow> nat list \<Rightarrow> (nat \<Rightarrow> entry list) \<Rightarrow> tuple list" where
  "table_rows v ps es = map (row_of v) (filter shown (paged es ps))"

definition scan_fuel :: "nat list \<Rightarrow> (nat \<Rightarrow> entry list) \<Rightarrow> nat" where
  "scan_fuel ps es = Suc (sum_list (map (\<lambda>p. Suc (length (es p))) ps))"

lemma scan_left_open:
  assumes wf: "table_wf s n t p0 ps es" and ready: "scan_ready t ps es" and k: "scan_fuel ps es < k"
    and v: "\<forall>q \<in> set ps. view s q = v q"
  shows "scan_left k n t p0 ps es v s (seq_open t) (table_rows v ps es)"
proof (cases "starting_rid t = RID (- 1) (- 1) \<and> (\<forall>p \<in> set ps. es p = [])")
  case True
  then have "paged es ps = []" by (simp add: paged_def)
  then show ?thesis using True wf k by (simp add: seq_open_def scan_left_def table_rows_def)
next
  case False
  then obtain pre p post i where st: "ps = pre @ p # post" "\<forall>q \<in> set pre. es q = []"
    "starting_rid t = RID (int p) i" "- 1 \<le> i" "i \<le> 0" "page_id (stopping_rid t) = int (last ps)" "sorted_wrt (<) ps"
    using ready by (auto simp: scan_ready_def)
  have all: "paged es ps = ahead es p i post" using st(1,2,5) by (simp add: ahead_def paged_def)
  have "scan_at s n t p0 ps es v (seq_open t) pre p i post"
    using wf st sorted_last[of ps] v by (auto simp: scan_at_def seq_open_def)
  moreover have "scan_work es p i post < k"
    using k st(1,4) by (simp add: scan_work_def scan_fuel_def)
  moreover have "0 < k" using k by simp
  ultimately show ?thesis unfolding scan_left_def table_rows_def all using wf by blast
qed

lemma table_rows_eqv:
  assumes "table_wf s n t p0 ps es"
  shows "list_all2 (\<lambda>e x. tuple_eqv (e_tuple e) x) (filter visible (concat (map es ps))) (table_rows (view s) ps es)"
proof -
  have pg: "list_all2 (\<lambda>e x. tuple_eqv (e_tuple e) x) (map snd (filter shown xs)) (map (row_of (view s)) (filter shown xs))"
    if "\<forall>x \<in> set xs. fst x \<in> set ps \<and> snd x \<in> set (es (fst x))" for xs
    using that stored_row_eqv[OF table_wfD(9)[OF assms]]
    by (fastforce simp: list_all2_map1 list_all2_map2 row_of_def intro!: list.rel_refl_strong)
  have "map snd (filter shown (paged es qs)) = filter visible (concat (map es qs))" for qs
    by (induction qs) (simp_all add: paged_def filter_map shown_def comp_def)
  with pg[of "paged es ps"] show ?thesis by (auto simp: table_rows_def paged_def)
qed

lemma length_table_rows: "length (table_rows v ps es) \<le> length (rows ps es)"
proof -
  have "length (paged es qs) = length (rows qs es)" for qs
    by (induction qs) (simp_all add: paged_def rows_def visible_view_def)
  then show ?thesis using length_filter_le[of shown "paged es ps"] by (simp add: table_rows_def)
qed

text \<open>
  C2. A scan returns the rows of the table that are not deleted, in chain order, each equal to the
  stored one, and leaves the table as it was.
\<close>

theorem seq_scan_returns_rows:
  assumes wf: "table_wf s n t p0 ps es" and ready: "scan_ready t ps es"
    and k: "scan_fuel ps es < k" and m: "length (rows ps es) < m"
  shows "\<exists>xs sc u. drain m (scan_next k t) s (seq_open t) = Inr (xs, sc, u) \<and> table_wf u n t p0 ps es \<and>
    list_all2 (\<lambda>e x. tuple_eqv (e_tuple e) x) (filter visible (concat (map es ps))) xs"
proof -
  have "scan_left k n t p0 ps es (view s) s (seq_open t) (table_rows (view s) ps es)"
    by (rule scan_left_open[OF wf ready k]) simp
  then obtain sc u where "drain m (scan_next k t) s (seq_open t) = Inr (table_rows (view s) ps es, sc, u)" "same_pages n s u"
    using scan.drain_left length_table_rows[of "view s" ps es] m by (meson le_less_trans)
  then show ?thesis using table_rows_eqv[OF wf] table_wf_same[OF wf, of u n] by (auto simp: same_pages_def)
qed

text \<open>
  C5. Inserting a row keeps the table well-formed and ready for a scan, on the branch with room as on
  the branch with a new page.
\<close>

theorem insert_keeps_scan_ready:
  assumes wf: "table_wf s n t p0 ps es" and ready: "scan_ready t ps es" and tup: "tuple_fits tup"
    and c: "in_i32 (2 * dm_capacity (disk s) * int PAGE_SIZE)"
  shows "\<exists>r t' u n' ps' es'. heap_insertTuple s t tup = Inr (r, t', u) \<and> table_wf u n' t' p0 ps' es' \<and> scan_ready t' ps' es'"
proof -
  have srt: "sorted_wrt (<) ps" and ne: "ps \<noteq> []" using ready table_wfD(2)[OF wf] by (auto simp: scan_ready_def)
  have start: "page_id (getActualPair (starting_rid t)) = - 1 \<longleftrightarrow> starting_rid t = RID (- 1) (- 1)"
    using ready by (auto simp: scan_ready_def getActualPair_def)
  have was: "\<exists>pre p post i. ps = pre @ p # post \<and> (\<forall>q \<in> set pre. es q = []) \<and>
      starting_rid t = RID (int p) i \<and> - 1 \<le> i \<and> i \<le> 0" if "starting_rid t \<noteq> RID (- 1) (- 1)"
    using ready that by (auto simp: scan_ready_def)
  have empty: "\<forall>p \<in> set ps. es p = []" if "starting_rid t = RID (- 1) (- 1)"
    using ready that by (auto simp: scan_ready_def)
  show ?thesis
  proof (cases "fits_in (view s (last ps)) (es (last ps)) tup")
    case True
    let ?lp = "last ps" and ?r = "RID (int (last ps)) (int (length (es (last ps))))"
    let ?es = "es(?lp := es ?lp @ [new_entry (hdr_free (view s ?lp)) tup])"
    obtain t' u where u: "heap_insertTuple s t tup = Inr (?r, t', u)" "table_wf u n t' p0 ps ?es"
      "starting_rid t' = (if page_id (getActualPair (starting_rid t)) = - 1 then ?r else starting_rid t)" "stopping_rid t' = ?r"
      using insertTuple_with_room[OF wf tup True] by blast
    have sp: "ps = butlast ps @ [?lp]" using ne by simp
    have "\<exists>pre p post i. ps = pre @ p # post \<and> (\<forall>q \<in> set pre. ?es q = []) \<and> starting_rid t' = RID (int p) i \<and> - 1 \<le> i \<and> i \<le> 0"
    proof (cases "starting_rid t = RID (- 1) (- 1)")
      case True
      have "?lp \<notin> set (butlast ps)" using table_wfD(5)[OF wf] sp
        by (metis distinct.simps(2) distinct_append disjoint_insert(1) list.simps(15))
      then have "\<forall>q \<in> set (butlast ps). ?es q = []" using empty[OF True] in_set_butlastD by fastforce
      moreover have "starting_rid t' = RID (int ?lp) 0" using u(3) start True empty[OF True] ne by simp
      ultimately show ?thesis using sp by (intro exI[of _ "butlast ps"] exI[of _ ?lp] exI[of _ "[]"] exI[of _ 0]) simp
    next
      case False
      then obtain pre p post i where w: "ps = pre @ p # post" "\<forall>q \<in> set pre. es q = []" "starting_rid t = RID (int p) i" "- 1 \<le> i" "i \<le> 0"
        using was by blast
      have "?lp \<notin> set pre" using table_wfD(5)[OF wf] w(1) by (cases post rule: rev_cases) auto
      then have "\<forall>q \<in> set pre. ?es q = []" using w(2) by auto
      moreover have "starting_rid t' = RID (int p) i" using u(3) start False w(3) by simp
      ultimately show ?thesis using w by blast
    qed
    then have "scan_ready t' ps ?es" using srt u(4) by (simp add: scan_ready_def)
    with u(1,2) show ?thesis by blast
  next
    case False
    let ?np = "Suc n" and ?r = "RID (int (Suc n)) (- 1)"
    define es' where "es' = es(?np := if fits_in (Page (int ?np)) [] tup then [new_entry PAGE_SIZE tup] else [])"
    obtain t' u where u: "heap_insertTuple s t tup = Inr (?r, t', u)" "table_wf u ?np t' p0 (ps @ [?np]) es'"
      "starting_rid t' = (if page_id (getActualPair (starting_rid t)) = - 1 then ?r else starting_rid t)" "stopping_rid t' = ?r"
      using insertTuple_new_page[OF wf tup False c] unfolding es'_def by blast
    have le: "q \<le> n" if "q \<in> set ps" for q using table_wfD(6)[OF wf, of q] that by simp
    then have other: "es' q = es q" if "q \<in> set ps" for q using that by (fastforce simp: es'_def)
    have "\<exists>pre p post i. ps @ [?np] = pre @ p # post \<and> (\<forall>q \<in> set pre. es' q = []) \<and> starting_rid t' = RID (int p) i \<and> - 1 \<le> i \<and> i \<le> 0"
    proof (cases "starting_rid t = RID (- 1) (- 1)")
      case True
      then show ?thesis using u(3) start empty[OF True] other
        by (intro exI[of _ ps] exI[of _ ?np] exI[of _ "[]"] exI[of _ "- 1"]) simp
    next
      case False
      then obtain pre p post i where w: "ps = pre @ p # post" "\<forall>q \<in> set pre. es q = []" "starting_rid t = RID (int p) i" "- 1 \<le> i" "i \<le> 0"
        using was by blast
      then show ?thesis using u(3) start False other
        by (intro exI[of _ pre] exI[of _ p] exI[of _ "post @ [?np]"] exI[of _ i]) simp
    qed
    moreover have "sorted_wrt (<) (ps @ [?np])" using srt le by (fastforce simp: sorted_wrt_append)
    ultimately have "scan_ready t' (ps @ [?np]) es'" using u(4) by (simp add: scan_ready_def)
    with u(1,2) show ?thesis by blast
  qed
qed

lemma empty_scan_ready: "starting_rid t = RID (- 1) (- 1) \<Longrightarrow> scan_ready t [p] (\<lambda>_. [])"
  by (simp add: scan_ready_def)

lemma demo_start:
  "\<exists>d t u. DiskManager None = Inr d \<and> new_table (BufferPoolManager d) 0 = Inr (t, u) \<and>
     table_wf u 2 t 1 [2] (\<lambda>_. []) \<and> in_i32 (2 * dm_capacity (disk u) * int PAGE_SIZE) \<and> starting_rid t = RID (- 1) (- 1)"
proof -
  obtain d t u where t: "DiskManager None = Inr d" "new_table (BufferPoolManager d) 0 = Inr (t, u)"
    "table_wf u 2 t 1 [2] (\<lambda>_. [])" "in_i32 (2 * dm_capacity (disk u) * int PAGE_SIZE)"
    "starting_rid t = RID (- 1) (- 1)"
    using demo_table by blast
  then show ?thesis by blast
qed

lemma seq_scan_returns_rows_witness:
  "\<exists>s (t :: table_heap) x u sc. drain 2 (scan_next 4 t) s (seq_open t) = Inr ([x], sc, u) \<and> starting_rid t = RID 2 0"
proof -
  obtain s t e where t: "table_wf s 2 t 1 [2] (\<lambda>p. if p = 2 then [e] else [])" "visible e"
    "starting_rid t = RID 2 0" "stopping_rid t = RID 2 0" using demo_reopened by blast
  have "scan_ready t [2] (\<lambda>p. if p = 2 then [e] else [])"
    using t(3,4) unfolding scan_ready_def by (intro conjI disjI2 exI[of _ "[]"] exI[of _ 2] exI[of _ 0]) simp_all
  from seq_scan_returns_rows[OF t(1) this, of 4 2] t(2)
  obtain xs sc u where "drain 2 (scan_next 4 t) s (seq_open t) = Inr (xs, sc, u)" "list_all2 (\<lambda>e x. tuple_eqv (e_tuple e) x) [e] xs"
    by (auto simp: scan_fuel_def)
  moreover from this(2) obtain z where "xs = [z]" by (auto simp: list_all2_Cons1)
  ultimately show ?thesis using t(3) by blast
qed

lemma insert_keeps_scan_ready_witness:
  "\<exists>d t u r t' u' n ps es. DiskManager None = Inr d \<and> new_table (BufferPoolManager d) 0 = Inr (t, u) \<and>
     heap_insertTuple u t demo_tuple = Inr (r, t', u') \<and> table_wf u' n t' 1 ps es \<and> scan_ready t' ps es"
proof -
  obtain d t u where t: "DiskManager None = Inr d" "new_table (BufferPoolManager d) 0 = Inr (t, u)"
    "table_wf u 2 t 1 [2] (\<lambda>_. [])" "in_i32 (2 * dm_capacity (disk u) * int PAGE_SIZE)" "starting_rid t = RID (- 1) (- 1)"
    using demo_start by blast
  from insert_keeps_scan_ready[OF t(3) empty_scan_ready[OF t(5)] demo_tuple_fits(1) t(4)] t(1,2) show ?thesis by blast
qed

end
