(* ===== verification/Executers.thy ===== *)
theory Executers imports Scan Field_Order
begin

text \<open>
  The operators above a scan: \<^verbatim>\<open>Predicate\<close> and \<^verbatim>\<open>ComplexPredicate\<close> (the \<^verbatim>\<open>WHERE\<close> clause), \<^verbatim>\<open>Select\<close>,
  \<^verbatim>\<open>Projection\<close> and \<^verbatim>\<open>Limit\<close> (src/Q_Execution/Predicate.c++, ComplexPredicate.c++, select_operator.c++,
  Projection_operator.c++, limit_operator.c++). An operator calls \<^verbatim>\<open>getNext\<close> of its child through the
  interface \<^verbatim>\<open>AbstractExecuter\<close>; the state of an operator is the state of its child with its own members.
\<close>

section \<open>Predicates\<close>

datatype PredicateType = P_EQ | P_NE | P_GT | P_GE | P_LT | P_LE

datatype ComplexPredicateType = C_AND | C_OR | C_NOT

text \<open>\<open>NullPredicate\<close> is a null pointer to a predicate.\<close>

datatype predicate =
    Predicate column column PredicateType
  | ComplexPredicate predicate "predicate option" ComplexPredicateType
  | NullPredicate

definition compareValues :: "('a \<Rightarrow> 'a \<Rightarrow> bool) \<Rightarrow> ('a \<Rightarrow> 'a \<Rightarrow> bool) \<Rightarrow> ('a \<Rightarrow> 'a \<Rightarrow> bool) \<Rightarrow> PredicateType \<Rightarrow> 'a \<Rightarrow> 'a \<Rightarrow> bool" where
  "compareValues eq lt le t v1 v2 =
     (case t of P_EQ \<Rightarrow> eq v1 v2 | P_NE \<Rightarrow> \<not> eq v1 v2 | P_GT \<Rightarrow> lt v2 v1 | P_GE \<Rightarrow> le v2 v1
      | P_LT \<Rightarrow> lt v1 v2 | P_LE \<Rightarrow> le v1 v2)"

text \<open>The \<^verbatim>\<open>float\<close> of the getter converts to \<^verbatim>\<open>double\<close> exactly, so the comparison is that of floats.\<close>

definition checkPredicate :: "PredicateType \<Rightarrow> field \<Rightarrow> field \<Rightarrow> bool res" where
  "checkPredicate t l r =
     rbind (rassert (fieldType l = fieldType r)) (\<lambda>_.
     case fieldType l of
       TYPE_INT \<Rightarrow> rbind (getFieldValueInt l) (\<lambda>x. rbind (getFieldValueInt r) (\<lambda>y. Inr (compareValues (=) (<) (\<le>) t x y)))
     | TYPE_BOOL \<Rightarrow> rbind (getFieldValueBool l) (\<lambda>x. rbind (getFieldValueBool r) (\<lambda>y. Inr (compareValues (=) (<) (\<le>) t x y)))
     | TYPE_FLOAT \<Rightarrow> rbind (getFieldValueFloat l) (\<lambda>x. rbind (getFieldValueFloat r) (\<lambda>y. Inr (compareValues f32_eq f32_less f32_le t x y)))
     | TYPE_STRING \<Rightarrow> rbind (field_string l) (\<lambda>x. rbind (field_string r) (\<lambda>y.
         Inr (compareValues (=) str_less (\<lambda>a b. \<not> str_less b a) t x y)))
     | TYPE_NULL \<Rightarrow> Inr False)"

text \<open>The last column with the name wins; the row may have fewer fields than the schema has columns.\<close>

fun find_field :: "column list \<Rightarrow> field list \<Rightarrow> string \<Rightarrow> field option \<Rightarrow> field option res" where
  "find_field [] fs name acc = Inr acc"
| "find_field (c # cs) fs name acc =
     (if col_name c = name
      then (case fs of [] \<Rightarrow> Inl Undefined | f # _ \<Rightarrow> find_field cs (tl fs) name (Some f))
      else find_field cs (tl fs) name acc)"

text \<open>\<^verbatim>\<open>name.find("const") != npos\<close>: such a column is taken for a constant.\<close>

definition const_name :: "string \<Rightarrow> bool" where
  "const_name name = list_ex (\<lambda>k. take 5 (drop k name) = ''const'') [0..<length name]"

definition active_field :: "column \<Rightarrow> column list \<Rightarrow> field list \<Rightarrow> field res" where
  "active_field c sch fs =
     rbind (find_field sch fs (col_name c) None) (\<lambda>f.
     case (if const_name (col_name c) \<or> f = None then cfield c else f) of
       None \<Rightarrow> Inl (Throw ''assert'') | Some f \<Rightarrow> Inr f)"

text \<open>
  Evaluation replaces both columns of a leaf by columns that hold the values it compared; \<^verbatim>\<open>AND\<close> and \<^verbatim>\<open>OR\<close>
  do not evaluate their second operand when the first decides.
\<close>

definition Predicate_evaluate :: "column \<Rightarrow> column \<Rightarrow> PredicateType \<Rightarrow> field list \<Rightarrow> column list \<Rightarrow> (bool \<times> predicate) res" where
  "Predicate_evaluate l r t fs sch =
     rbind (active_field l sch fs) (\<lambda>a.
     rbind (active_field r sch fs) (\<lambda>b.
     rbind (Column_field a (col_name l) 4) (\<lambda>l.
     rbind (Column_field b (col_name r) 4) (\<lambda>r.
     rbind (get_or_ub (cfield l)) (\<lambda>x. rbind (get_or_ub (cfield r)) (\<lambda>y.
     rbind (checkPredicate t x y) (\<lambda>v. Inr (v, Predicate l r t))))))))"

fun evaluate :: "predicate \<Rightarrow> field list \<Rightarrow> column list \<Rightarrow> (bool \<times> predicate) res" where
  "evaluate (Predicate l r t) fs sch = Predicate_evaluate l r t fs sch"
| "evaluate (ComplexPredicate p (Some q) C_AND) fs sch =
     rbind (evaluate p fs sch) (\<lambda>(a, p).
     if a then rbind (evaluate q fs sch) (\<lambda>(b, q). Inr (b, ComplexPredicate p (Some q) C_AND))
     else Inr (False, ComplexPredicate p (Some q) C_AND))"
| "evaluate (ComplexPredicate p (Some q) C_OR) fs sch =
     rbind (evaluate p fs sch) (\<lambda>(a, p).
     if a then Inr (True, ComplexPredicate p (Some q) C_OR)
     else rbind (evaluate q fs sch) (\<lambda>(b, q). Inr (b, ComplexPredicate p (Some q) C_OR)))"
| "evaluate (ComplexPredicate p q C_NOT) fs sch =
     rbind (evaluate p fs sch) (\<lambda>(a, p). Inr (\<not> a, ComplexPredicate p q C_NOT))"
| "evaluate (ComplexPredicate p None t) fs sch =
     rbind (evaluate p fs sch) (\<lambda>(a, p). Inr (a, ComplexPredicate p None t))"
| "evaluate NullPredicate fs sch = Inl Undefined"

section \<open>Select, Projection and Limit\<close>

text \<open>\<open>prev\<close> is \<^verbatim>\<open>get_prev_rid\<close> of a child that is a \<^verbatim>\<open>SeqScan\<close>, and \<open>None\<close> for any other child.\<close>

record select_op =
  sel_predicate :: predicate
  sel_curr_rid :: rid
  select_tuples_rids :: "rid list"

definition Select :: "predicate \<Rightarrow> select_op" where
  "Select p = \<lparr>sel_predicate = p, sel_curr_rid = RID (- 1) (- 1), select_tuples_rids = []\<rparr>"

fun Select_getNext :: "nat \<Rightarrow> ('w, 'a) get_next \<Rightarrow> ('a \<Rightarrow> rid option) \<Rightarrow> column list \<Rightarrow> ('w, 'a \<times> select_op) get_next" where
  "Select_getNext 0 nxt prev sch w (a, op) = Inl Diverges"
| "Select_getNext (Suc k) nxt prev sch w (a, op) =
     rbind (nxt w a) (\<lambda>(x, a, w).
     case x of None \<Rightarrow> Inr (None, (a, op), w)
     | Some tup \<Rightarrow> rbind (evaluate (sel_predicate op) (tfields tup) sch) (\<lambda>(v, p).
         let op = op\<lparr>sel_predicate := p\<rparr> in
         if v then Inr (Some tup, (a, case prev a of None \<Rightarrow> op
            | Some r \<Rightarrow> op\<lparr>sel_curr_rid := r, select_tuples_rids := select_tuples_rids op @ [r]\<rparr>), w)
         else Select_getNext k nxt prev sch w (a, op)))"

text \<open>\<^verbatim>\<open>Projection::open\<close>: the first column with each name; a name that is not there is skipped.\<close>

definition project_open :: "string list \<Rightarrow> column list \<Rightarrow> column list \<times> nat list" where
  "project_open names sch =
     (let ixs = concat (map (\<lambda>nm. let i = getColIndex sch nm in if i < length sch then [i] else []) names)
      in (map (\<lambda>i. sch ! i) ixs, ixs))"

definition Projection_getNext :: "('w, 'a) get_next \<Rightarrow> nat list \<Rightarrow> ('w, 'a) get_next" where
  "Projection_getNext nxt ixs w a =
     rbind (nxt w a) (\<lambda>(x, a, w).
     case x of None \<Rightarrow> Inr (None, a, w)
     | Some tup \<Rightarrow> rbind (rmap (vec_at (tfields tup)) ixs) (\<lambda>fs. Inr (Some (Tuple fs), a, w)))"

record limit_op =
  lim_limit :: int
  lim_offset :: int
  skipped :: int
  returned :: int

text \<open>The two columns hold the constants of the query.\<close>

definition Limit :: "column \<Rightarrow> column option \<Rightarrow> limit_op res" where
  "Limit lim off =
     rbind (get_or_ub (cfield lim)) (\<lambda>f. rbind (getFieldValueInt f) (\<lambda>n.
     rbind (case off of None \<Rightarrow> Inr 0 | Some c \<Rightarrow> rbind (get_or_ub (cfield c)) getFieldValueInt) (\<lambda>m.
     Inr \<lparr>lim_limit = n, lim_offset = m, skipped = 0, returned = 0\<rparr>)))"

text \<open>The loop that skips rows ends after \<open>offset - skipped\<close> rows.\<close>

fun limit_skip :: "nat \<Rightarrow> ('w, 'a) get_next \<Rightarrow> 'w \<Rightarrow> 'a \<times> limit_op \<Rightarrow> (bool \<times> ('a \<times> limit_op) \<times> 'w) res" where
  "limit_skip 0 nxt w (a, op) = Inr (True, (a, op), w)"
| "limit_skip (Suc n) nxt w (a, op) =
     rbind (nxt w a) (\<lambda>(x, a, w).
     case x of None \<Rightarrow> Inr (False, (a, op), w) | Some _ \<Rightarrow> limit_skip n nxt w (a, op\<lparr>skipped := skipped op + 1\<rparr>))"

definition Limit_getNext :: "('w, 'a) get_next \<Rightarrow> ('w, 'a \<times> limit_op) get_next" where
  "Limit_getNext nxt w st =
     rbind (limit_skip (nat (lim_offset (snd st) - skipped (snd st))) nxt w st) (\<lambda>(more, (a, op), w).
     if \<not> more \<or> lim_limit op \<le> returned op then Inr (None, (a, op), w)
     else rbind (nxt w a) (\<lambda>(x, a, w).
       case x of None \<Rightarrow> Inr (None, (a, op), w) | Some tup \<Rightarrow> Inr (Some tup, (a, op\<lparr>returned := returned op + 1\<rparr>), w)))"

section \<open>What a predicate means\<close>

definition operand :: "column list \<Rightarrow> field list \<Rightarrow> column \<Rightarrow> field option" where
  "operand sch fs c = (case find_field sch fs (col_name c) None of
     Inl _ \<Rightarrow> None | Inr f \<Rightarrow> if const_name (col_name c) \<or> f = None then cfield c else f)"

definition leaf_holds :: "PredicateType \<Rightarrow> field \<Rightarrow> field \<Rightarrow> bool" where
  "leaf_holds t a b = compareValues fequal fless (\<lambda>x y. \<not> fless y x) t a b"

fun holds :: "column list \<Rightarrow> predicate \<Rightarrow> field list \<Rightarrow> bool" where
  "holds sch (Predicate l r t) fs = leaf_holds t (the (operand sch fs l)) (the (operand sch fs r))"
| "holds sch (ComplexPredicate p (Some q) C_AND) fs = (holds sch p fs \<and> holds sch q fs)"
| "holds sch (ComplexPredicate p (Some q) C_OR) fs = (holds sch p fs \<or> holds sch q fs)"
| "holds sch (ComplexPredicate p q C_NOT) fs = (\<not> holds sch p fs)"
| "holds sch (ComplexPredicate p None C_AND) fs = holds sch p fs"
| "holds sch (ComplexPredicate p None C_OR) fs = holds sch p fs"
| "holds sch NullPredicate fs = False"

text \<open>Both operands of every leaf are values of one type, neither null nor NaN.\<close>

fun well_typed :: "column list \<Rightarrow> predicate \<Rightarrow> field list \<Rightarrow> bool" where
  "well_typed sch (Predicate l r t) fs = (\<exists>ty a b. operand sch fs l = Some a \<and> operand sch fs r = Some b \<and>
     comparable ty a \<and> comparable ty b)"
| "well_typed sch (ComplexPredicate p q t) fs =
     (well_typed sch p fs \<and> (case q of None \<Rightarrow> True | Some q \<Rightarrow> well_typed sch q fs))"
| "well_typed sch NullPredicate fs = False"

text \<open>What evaluation leaves of a predicate: the values in the columns of a leaf count only for constants.\<close>

fun same_col :: "column list \<Rightarrow> column \<Rightarrow> column \<Rightarrow> bool" where
  "same_col sch c d \<longleftrightarrow> col_name d = col_name c \<and>
     (const_name (col_name c) \<or> col_name c \<notin> col_name ` set sch \<longrightarrow> cfield d = cfield c)"

fun same_pred :: "column list \<Rightarrow> predicate \<Rightarrow> predicate \<Rightarrow> bool" where
  "same_pred sch (Predicate l r t) (Predicate l' r' t') = (t' = t \<and> same_col sch l l' \<and> same_col sch r r')"
| "same_pred sch (ComplexPredicate p q t) (ComplexPredicate p' q' t') =
     (t' = t \<and> same_pred sch p p' \<and> (case (q, q') of (None, None) \<Rightarrow> True | (Some x, Some y) \<Rightarrow> same_pred sch x y | _ \<Rightarrow> False))"
| "same_pred sch NullPredicate NullPredicate = True"
| "same_pred sch _ _ = False"

lemma Field_copy_comparable:
  assumes "comparable t f"
  shows "Field_copy f = Inr f"
proof (cases "t = TYPE_STRING")
  case True
  then obtain s where s: "fieldType f = TYPE_STRING" "fval f = VALUE_STRING (Some (s @ [NUL]))" "fsize f = int (length s)"
    using assms by (auto simp: comparable_def field_ok_def active_ok_iff)
  then have "f\<lparr>fval := VALUE_STRING (Some (s @ [NUL]))\<rparr> = f" by (intro field.equality) simp_all
  with s show ?thesis by (simp add: Field_copy_def copy_array_def)
next
  case False
  with assms show ?thesis by (simp add: Field_copy_def comparable_def)
qed

lemma checkPredicate_leaf:
  assumes "comparable t a" "comparable t b"
  shows "checkPredicate op a b = Inr (leaf_holds op a b)"
proof -
  have ty: "fieldType a = t" "fieldType b = t" using assms by (simp_all add: comparable_def)
  note d = checkPredicate_def leaf_holds_def compareValues_def fless_def fequal_def getFieldValueInt_def
    getFieldValueFloat_def getFieldValueBool_def
  show ?thesis
    using ty
    by (cases rule: comparable_cases[OF assms(1)]; cases rule: comparable_cases[OF assms(2)]; cases op;
        force simp: d f32_le_not_less f32_not_less_eq str_eq_not_less[symmetric] not_less)
qed

lemma find_field_none: "find_field sch fs name acc = Inr None \<Longrightarrow> acc = None \<and> name \<notin> col_name ` set sch"
  by (induction sch fs name acc rule: find_field.induct) (auto split: if_splits list.splits)

lemma find_field_absent: "name \<notin> col_name ` set sch \<Longrightarrow> find_field sch fs name acc = Inr acc"
  by (induction sch fs name acc rule: find_field.induct) auto

lemma operand_same: "same_col sch c d \<Longrightarrow> operand sch fs d = operand sch fs c"
  using find_field_none[of sch fs "col_name c" None]
  by (auto simp: operand_def split: sum.splits)

lemma operand_active: "operand sch fs c = Some a \<Longrightarrow> active_field c sch fs = Inr a"
  by (auto simp: operand_def active_field_def split: sum.splits)

lemma operand_constant:
  "operand sch fs c = Some a \<Longrightarrow> const_name (col_name c) \<or> col_name c \<notin> col_name ` set sch \<Longrightarrow> cfield c = Some a"
  by (auto simp: operand_def find_field_absent split: sum.splits if_splits)

lemma evaluate_spec:
  "same_pred sch p0 p \<Longrightarrow> well_typed sch p0 fs \<Longrightarrow>
   \<exists>p'. evaluate p fs sch = Inr (holds sch p0 fs, p') \<and> same_pred sch p0 p'"
proof (induction sch p0 fs arbitrary: p rule: holds.induct)
  case (1 sch l r t fs)
  then obtain l' r' where p: "p = Predicate l' r' t" "same_col sch l l'" "same_col sch r r'"
    by (cases p) auto
  obtain ty a b where ab: "operand sch fs l = Some a" "operand sch fs r = Some b" "comparable ty a" "comparable ty b"
    using 1 by auto
  then have op: "operand sch fs l' = Some a" "operand sch fs r' = Some b" using operand_same p(2,3) by metis+
  have "evaluate p fs sch = Inr (leaf_holds t a b,
      Predicate \<lparr>cfield = Some a, col_type = fieldType a, col_name = col_name l', col_max_size = 4, is_nullable = True\<rparr>
        \<lparr>cfield = Some b, col_type = fieldType b, col_name = col_name r', col_max_size = 4, is_nullable = True\<rparr> t)"
    using operand_active[OF op(1)] operand_active[OF op(2)] checkPredicate_leaf[OF ab(3,4)] p(1)
      Field_copy_comparable[OF ab(3)] Field_copy_comparable[OF ab(4)]
    by (simp add: Column_field_def Predicate_evaluate_def)
  then show ?case using ab(1,2) p(2,3) operand_constant[OF ab(1)] operand_constant[OF ab(2)] by auto
next
  case (2 sch p1 q1 fs)
  then obtain x y where p: "p = ComplexPredicate x (Some y) C_AND" "same_pred sch p1 x" "same_pred sch q1 y"
    by (cases p) (auto split: option.splits)
  obtain x' where x': "evaluate x fs sch = Inr (holds sch p1 fs, x')" "same_pred sch p1 x'" using 2 p(2) by fastforce
  obtain y' where y': "evaluate y fs sch = Inr (holds sch q1 fs, y')" "same_pred sch q1 y'" using 2 p(3) by fastforce
  show ?case using x' y' p by auto
next
  case (3 sch p1 q1 fs)
  then obtain x y where p: "p = ComplexPredicate x (Some y) C_OR" "same_pred sch p1 x" "same_pred sch q1 y"
    by (cases p) (auto split: option.splits)
  obtain x' where x': "evaluate x fs sch = Inr (holds sch p1 fs, x')" "same_pred sch p1 x'" using 3 p(2) by fastforce
  obtain y' where y': "evaluate y fs sch = Inr (holds sch q1 fs, y')" "same_pred sch q1 y'" using 3 p(3) by fastforce
  show ?case using x' y' p by auto
next
  case (4 sch p1 q1 fs)
  then obtain x y where p: "p = ComplexPredicate x y C_NOT" "same_pred sch p1 x"
    "case (q1, y) of (None, None) \<Rightarrow> True | (Some u, Some v) \<Rightarrow> same_pred sch u v | _ \<Rightarrow> False"
    by (cases p) auto
  obtain x' where x': "evaluate x fs sch = Inr (holds sch p1 fs, x')" "same_pred sch p1 x'" using 4 p(2) by fastforce
  show ?case using x' p by auto
next
  case (5 sch p1 fs)
  then obtain x where p: "p = ComplexPredicate x None C_AND" "same_pred sch p1 x"
    by (cases p) (auto split: option.splits)
  then show ?case using 5 by fastforce
next
  case (6 sch p1 fs)
  then obtain x where p: "p = ComplexPredicate x None C_OR" "same_pred sch p1 x"
    by (cases p) (auto split: option.splits)
  then show ?case using 6 by fastforce
qed simp

lemma same_pred_refl: "same_pred sch p p"
  by (induction p) (auto split: option.splits)

section \<open>The operators are executers\<close>

context executer begin

definition select_left :: "column list \<Rightarrow> predicate \<Rightarrow> nat \<Rightarrow> 'w \<Rightarrow> 'a \<times> select_op \<Rightarrow> tuple list \<Rightarrow> bool" where
  "select_left sch p k w st ys \<longleftrightarrow> (\<exists>xs. left w (fst st) xs \<and> length xs < k \<and> same_pred sch p (sel_predicate (snd st)) \<and>
     (\<forall>x \<in> set xs. well_typed sch p (tfields x)) \<and> ys = filter (\<lambda>x. holds sch p (tfields x)) xs)"

lemma select_step:
  assumes "left w a xs" "length xs < k" "same_pred sch p (sel_predicate op)" "\<forall>x \<in> set xs. well_typed sch p (tfields x)"
  shows "case filter (\<lambda>x. holds sch p (tfields x)) xs of
      [] \<Rightarrow> \<exists>b u. Select_getNext k nxt prev sch w (a, op) = Inr (None, b, u) \<and> same w u
    | y # ys \<Rightarrow> \<exists>b u. Select_getNext k nxt prev sch w (a, op) = Inr (Some y, b, u) \<and> same w u \<and> select_left sch p k u b ys"
  using assms
proof (induction xs arbitrary: w a op k)
  case Nil
  obtain b u where "nxt w a = Inr (None, b, u)" "same w u" using at_end[OF Nil(1)] by blast
  then show ?case using Nil(2) by (cases k) auto
next
  case (Cons x xs)
  then obtain k' where k: "k = Suc k'" "length xs < k'" by (cases k) auto
  obtain b u where u: "nxt w a = Inr (Some x, b, u)" "same w u" "left u b xs" using at_row[OF Cons.prems(1)] by blast
  obtain p' where p': "evaluate (sel_predicate op) (tfields x) sch = Inr (holds sch p (tfields x), p')" "same_pred sch p p'"
    using evaluate_spec[OF Cons.prems(3)] Cons.prems(4) by fastforce
  show ?case
  proof (cases "holds sch p (tfields x)")
    case True
    have "select_left sch p k u (b, op') (filter (\<lambda>x. holds sch p (tfields x)) xs)" if "sel_predicate op' = p'" for op'
      unfolding select_left_def using u(3) k p'(2) Cons.prems(4) that by auto
    then show ?thesis using True u(1,2) p'(1) k(1) by (auto simp: Let_def split: option.splits)
  next
    case False
    have IH: "case filter (\<lambda>x. holds sch p (tfields x)) xs of
        [] \<Rightarrow> \<exists>c v. Select_getNext k' nxt prev sch u (b, op\<lparr>sel_predicate := p'\<rparr>) = Inr (None, c, v) \<and> same u v
      | y # ys \<Rightarrow> \<exists>c v. Select_getNext k' nxt prev sch u (b, op\<lparr>sel_predicate := p'\<rparr>) = Inr (Some y, c, v) \<and> same u v \<and>
          select_left sch p k' v c ys"
      using Cons.IH[OF u(3) k(2), of "op\<lparr>sel_predicate := p'\<rparr>"] p'(2) Cons.prems(4) by simp
    have "select_left sch p k v c ys" if "select_left sch p k' v c ys" for v c ys
      using that k unfolding select_left_def by auto
    then show ?thesis using IH False u(1) same_trans[OF u(2)] p'(1) k(1) by (auto split: list.splits)
  qed
qed

lemma project_step:
  assumes "left w a (x # xs)" "\<forall>i \<in> set ixs. i < length (tfields x)"
  shows "\<exists>b u. Projection_getNext nxt ixs w a = Inr (Some (Tuple (map (\<lambda>i. tfields x ! i) ixs)), b, u) \<and> same w u \<and> left u b xs"
proof -
  obtain b u where "nxt w a = Inr (Some x, b, u)" "same w u" "left u b xs" using at_row[OF assms(1)] by blast
  moreover have "rmap (vec_at (tfields x)) ixs = Inr (map (\<lambda>i. tfields x ! i) ixs)"
    using assms(2) by (intro rmap_all_ok) simp
  ultimately show ?thesis by (simp add: Projection_getNext_def)
qed

text \<open>Skipping \<open>m\<close> rows, with enough of them or not.\<close>

lemma skip_left:
  assumes "left w a xs" "m \<le> length xs"
  shows "\<exists>b u. limit_skip m nxt w (a, op) = Inr (True, (b, op\<lparr>skipped := skipped op + int m\<rparr>), u) \<and>
    same w u \<and> left u b (drop m xs)"
  using assms
proof (induction m arbitrary: w a xs op)
  case 0
  then show ?case using same_refl by simp
next
  case (Suc m)
  then obtain x ys where xs: "xs = x # ys" "m \<le> length ys" by (cases xs) auto
  then obtain b u where u: "nxt w a = Inr (Some x, b, u)" "same w u" "left u b ys" using at_row Suc.prems(1) by blast
  from Suc.IH[OF u(3) xs(2), of "op\<lparr>skipped := skipped op + 1\<rparr>"] u(1) xs(1) same_trans[OF u(2)]
  show ?case by (auto simp: algebra_simps)
qed

lemma skip_ends:
  assumes "left w a xs" "length xs < m"
  shows "\<exists>st u. limit_skip m nxt w (a, op) = Inr (False, st, u) \<and> same w u"
  using assms
proof (induction m arbitrary: w a xs op)
  case (Suc m)
  show ?case
  proof (cases xs)
    case Nil
    then show ?thesis using at_end Suc.prems(1) by fastforce
  next
    case (Cons x ys)
    then obtain b u where u: "nxt w a = Inr (Some x, b, u)" "same w u" "left u b ys" using at_row Suc.prems(1) by blast
    then show ?thesis using Suc.IH[OF u(3), of "op\<lparr>skipped := skipped op + 1\<rparr>"] Suc.prems(2) Cons same_trans[OF u(2)] by auto
  qed
qed simp

text \<open>\<open>OFFSET m LIMIT n\<close>.\<close>

definition limit_left :: "'w \<Rightarrow> 'a \<times> limit_op \<Rightarrow> tuple list \<Rightarrow> bool" where
  "limit_left w st ys \<longleftrightarrow> (\<exists>xs. left w (fst st) xs \<and>
     ys = take (nat (lim_limit (snd st) - returned (snd st))) (drop (nat (lim_offset (snd st) - skipped (snd st))) xs))"

lemma limit_end:
  assumes "limit_left w (a, op) []"
  shows "\<exists>st u. Limit_getNext nxt w (a, op) = Inr (None, st, u) \<and> same w u"
proof -
  obtain xs where xs: "left w a xs" "take (nat (lim_limit op - returned op)) (drop (nat (lim_offset op - skipped op)) xs) = []"
    using assms by (auto simp: limit_left_def)
  let ?m = "nat (lim_offset op - skipped op)"
  show ?thesis
  proof (cases "length xs < ?m")
    case True
    then show ?thesis using skip_ends[OF xs(1) True, of op] by (auto simp: Limit_getNext_def)
  next
    case False
    then obtain b u where u: "limit_skip ?m nxt w (a, op) = Inr (True, (b, op\<lparr>skipped := skipped op + int ?m\<rparr>), u)"
      "same w u" "left u b (drop ?m xs)"
      using skip_left[OF xs(1), of ?m op] by auto
    show ?thesis
    proof (cases "lim_limit op \<le> returned op")
      case True
      then show ?thesis using u(1,2) by (simp add: Limit_getNext_def)
    next
      case more: False
      then have "left u b []" using xs(2) u(3) by simp
      then obtain c v where "nxt u b = Inr (None, c, v)" "same u v" using at_end by blast
      then show ?thesis using u(1) more same_trans[OF u(2)] by (auto simp: Limit_getNext_def)
    qed
  qed
qed

lemma limit_row:
  assumes "limit_left w (a, op) (y # ys)"
  shows "\<exists>st u. Limit_getNext nxt w (a, op) = Inr (Some y, st, u) \<and> same w u \<and> limit_left u st ys"
proof -
  let ?m = "nat (lim_offset op - skipped op)" and ?n = "nat (lim_limit op - returned op)"
  obtain xs where xs: "left w a xs" "take ?n (drop ?m xs) = y # ys" using assms by (auto simp: limit_left_def)
  then obtain zs where zs: "drop ?m xs = y # zs" "0 < ?n" by (cases "drop ?m xs"; cases ?n) auto
  have "?m \<le> length xs" using zs(1) by (metis drop_all list.distinct(1) nat_le_linear)
  then obtain b u where u: "limit_skip ?m nxt w (a, op) = Inr (True, (b, op\<lparr>skipped := skipped op + int ?m\<rparr>), u)"
    "same w u" "left u b (y # zs)"
    using skip_left[OF xs(1), of ?m op] zs(1) by auto
  obtain c v where v: "nxt u b = Inr (Some y, c, v)" "same u v" "left v c zs" using at_row[OF u(3)] by blast
  let ?op = "op\<lparr>skipped := skipped op + int ?m, returned := returned op + 1\<rparr>"
  have "Limit_getNext nxt w (a, op) = Inr (Some y, (c, ?op), v)" using u(1) v(1) zs(2) by (simp add: Limit_getNext_def)
  moreover have "limit_left v (c, ?op) ys"
  proof -
    have "nat (lim_limit op - (returned op + 1)) = ?n - 1" "nat (lim_offset op - (skipped op + int ?m)) = 0" using zs(2) by auto
    moreover have "take (?n - 1) zs = ys" using xs(2) zs by (cases ?n) auto
    ultimately show ?thesis using v(3) unfolding limit_left_def by (intro exI[of _ zs]) simp
  qed
  ultimately show ?thesis using same_trans[OF u(2) v(2)] by blast
qed

end

context executer begin

text \<open>A \<^verbatim>\<open>Select\<close>, a \<^verbatim>\<open>Projection\<close> and a \<^verbatim>\<open>Limit\<close> over an executer are executers.\<close>

lemma select_executer: "executer (Select_getNext k nxt prev sch) (select_left sch p k) same"
proof unfold_locales
  fix w :: 'w and st :: "'a \<times> select_op" and u x xs
  obtain a op where st: "st = (a, op)" by (cases st)
  have sub: "\<exists>ys. left w a ys \<and> length ys < k \<and> same_pred sch p (sel_predicate op) \<and>
      (\<forall>x \<in> set ys. well_typed sch p (tfields x)) \<and> zs = filter (\<lambda>x. holds sch p (tfields x)) ys"
    if "select_left sch p k w st zs" for zs
    using that unfolding select_left_def st by simp
  show "\<exists>b u. Select_getNext k nxt prev sch w st = Inr (None, b, u) \<and> same w u" if l: "select_left sch p k w st []"
  proof -
    obtain ys where ys: "left w a ys" "length ys < k" "same_pred sch p (sel_predicate op)"
      "\<forall>x \<in> set ys. well_typed sch p (tfields x)" "[] = filter (\<lambda>x. holds sch p (tfields x)) ys"
      using sub[OF l] by blast
    show ?thesis using select_step[OF ys(1-4), of prev] unfolding ys(5)[symmetric] st by simp
  qed
  show "\<exists>b u. Select_getNext k nxt prev sch w st = Inr (Some x, b, u) \<and> same w u \<and> select_left sch p k u b xs"
    if l: "select_left sch p k w st (x # xs)"
  proof -
    obtain ys where ys: "left w a ys" "length ys < k" "same_pred sch p (sel_predicate op)"
      "\<forall>x \<in> set ys. well_typed sch p (tfields x)" "x # xs = filter (\<lambda>x. holds sch p (tfields x)) ys"
      using sub[OF l] by blast
    show ?thesis using select_step[OF ys(1-4), of prev] unfolding ys(5)[symmetric] st by simp
  qed
  show "select_left sch p k u st xs" if "select_left sch p k w st xs" "same w u"
    using that undisturbed unfolding select_left_def by blast
  show "select_left sch p k w st xs \<Longrightarrow> same w w" using same_refl unfolding select_left_def by blast
qed (rule same_trans)

definition project_left :: "nat list \<Rightarrow> 'w \<Rightarrow> 'a \<Rightarrow> tuple list \<Rightarrow> bool" where
  "project_left ixs w a ys \<longleftrightarrow> (\<exists>xs. left w a xs \<and> (\<forall>x \<in> set xs. \<forall>i \<in> set ixs. i < length (tfields x)) \<and>
     ys = map (\<lambda>x. Tuple (map (\<lambda>i. tfields x ! i) ixs)) xs)"

lemma project_executer: "executer (Projection_getNext nxt ixs) (project_left ixs) same"
proof unfold_locales
  fix w a u y ys
  show "project_left ixs w a [] \<Longrightarrow> \<exists>b u. Projection_getNext nxt ixs w a = Inr (None, b, u) \<and> same w u"
    using at_end[of w a] by (auto simp: project_left_def Projection_getNext_def)
  show "\<exists>b u. Projection_getNext nxt ixs w a = Inr (Some y, b, u) \<and> same w u \<and> project_left ixs u b ys"
    if l: "project_left ixs w a (y # ys)"
  proof -
    obtain x xs where xs: "left w a (x # xs)" "\<forall>x \<in> set (x # xs). \<forall>i \<in> set ixs. i < length (tfields x)"
      "y = Tuple (map (\<lambda>i. tfields x ! i) ixs)" "ys = map (\<lambda>x. Tuple (map (\<lambda>i. tfields x ! i) ixs)) xs"
      using l by (fastforce simp: project_left_def Cons_eq_map_conv)
    then show ?thesis using project_step[OF xs(1), of ixs] unfolding project_left_def by auto
  qed
  show "project_left ixs w a ys \<Longrightarrow> same w u \<Longrightarrow> project_left ixs u a ys"
    using undisturbed unfolding project_left_def by blast
  show "project_left ixs w a ys \<Longrightarrow> same w w" using same_refl unfolding project_left_def by blast
qed (rule same_trans)

lemma limit_executer: "executer (Limit_getNext nxt) limit_left same"
proof unfold_locales
  fix w :: 'w and st :: "'a \<times> limit_op" and u x xs
  show "limit_left w st [] \<Longrightarrow> \<exists>b u. Limit_getNext nxt w st = Inr (None, b, u) \<and> same w u"
    using limit_end by (cases st) blast
  show "limit_left w st (x # xs) \<Longrightarrow> \<exists>b u. Limit_getNext nxt w st = Inr (Some x, b, u) \<and> same w u \<and> limit_left u b xs"
    using limit_row by (cases st) blast
  show "limit_left w st xs \<Longrightarrow> same w u \<Longrightarrow> limit_left u st xs" using undisturbed unfolding limit_left_def by blast
  show "limit_left w st xs \<Longrightarrow> same w w" using same_refl unfolding limit_left_def by blast
qed (rule same_trans)

end

end
