(* ===== verification/Hash_Index.thy ===== *)
theory Hash_Index imports Scan Field_Order
begin

text \<open>
  The static hash index (src/Storage/Indexing/static_hash_index.c++, Include/Storage/Indexing/static_hash_index.h):
  a fixed number of buckets, each a chain of entries that hold a key and the address of a row. A bucket
  is the list of its entries, the first one being the \<^verbatim>\<open>optional\<close> in the vector and the rest the heap
  nodes behind its \<^verbatim>\<open>next\<close> pointer; the empty list is \<^verbatim>\<open>nullopt\<close>. Every chain is reached from its
  bucket only. \<open>hs\<close> is \<^verbatim>\<open>std::hash<string>\<close>.
\<close>

record hash_entry =
  hkey :: field
  hrid :: rid
  next_rid :: rid

record hash_index =
  hashTable :: "hash_entry list list"
  hfield_type :: FieldType
  hcol_index :: int
  number_of_entries :: int
  hfirst_page_id :: int
  hlast_page_id :: int
  capacity :: nat

definition hashEntry :: "field \<Rightarrow> rid \<Rightarrow> hash_entry" where
  "hashEntry k r = \<lparr>hkey = k, hrid = r, next_rid = RID (- 1) (- 1)\<rparr>"

text \<open>A negative size becomes a huge \<^verbatim>\<open>size_t\<close>, which \<^verbatim>\<open>resize\<close> rejects.\<close>

definition hashIndex :: "bpm \<Rightarrow> FieldType \<Rightarrow> int \<Rightarrow> int \<Rightarrow> int \<Rightarrow> int \<Rightarrow> (hash_index \<times> bpm) res" where
  "hashIndex s ft ci tablesize efirst elast =
     rbind (if efirst = - 1 then
         rbind (newPage s) (\<lambda>(p, s).
         rbind (newPage s) (\<lambda>(q, s).
         rbind (fetch_frame s p) (\<lambda>(f, b, s).
         rbind (markAsDirty (store_frame s f (set_next_page_id b q)) p) (\<lambda>s. Inr (p, q, s)))))
       else Inr (efirst, elast, s)) (\<lambda>(p, q, s).
     let n = (if tablesize = - 1 then 100 else tablesize) in
     if n < 0 then Inl (Throw ''vector::_M_default_append'')
     else Inr (\<lparr>hashTable = replicate (nat n) [], hfield_type = ft, hcol_index = ci, number_of_entries = 0,
                hfirst_page_id = p, hlast_page_id = q, capacity = nat n\<rparr>, s))"

text \<open>
  The remainder by the capacity is undefined for capacity 0. The value of a \<^verbatim>\<open>FLOAT\<close> or \<^verbatim>\<open>BOOL\<close> key is read
  through the integer member of the union.
\<close>

definition hashFunction :: "(string \<Rightarrow> nat) \<Rightarrow> nat \<Rightarrow> field \<Rightarrow> nat res" where
  "hashFunction hs cp k =
     rbind (case fieldType k of
        TYPE_STRING \<Rightarrow> rbind (field_string k) (\<lambda>s. Inr (hs s mod 2 ^ 64))
      | TYPE_NULL \<Rightarrow> Inr 0
      | _ \<Rightarrow> rbind (getFieldValueInt k) (\<lambda>i. Inr (nat (i mod 2 ^ 64)))) (\<lambda>raw.
     if cp = 0 then Inl Undefined else Inr (raw mod cp))"

text \<open>Appending to a chain sets \<^verbatim>\<open>next_rid\<close> of its last entry.\<close>

definition chain_append :: "hash_entry list \<Rightarrow> hash_entry \<Rightarrow> hash_entry list" where
  "chain_append c e = (if c = [] then [e] else butlast c @ [(last c)\<lparr>next_rid := hrid e\<rparr>, e])"

definition insertIndex :: "(string \<Rightarrow> nat) \<Rightarrow> hash_index \<Rightarrow> field \<Rightarrow> rid \<Rightarrow> hash_index res" where
  "insertIndex hs h k r =
     rbind (hashFunction hs (capacity h) k) (\<lambda>i.
     rbind (vec_at (hashTable h) i) (\<lambda>c.
     Inr (h\<lparr>hashTable := (hashTable h)[i := chain_append c (hashEntry k r)],
            number_of_entries := number_of_entries h + 1\<rparr>)))"

text \<open>\<^verbatim>\<open>getHashEntryPtr\<close>: the rest of the chain from the first entry with the key; \<^verbatim>\<open>nullptr\<close> is the empty list.\<close>

fun chain_find :: "field \<Rightarrow> hash_entry list \<Rightarrow> hash_entry list res" where
  "chain_find k [] = Inr []"
| "chain_find k (e # es) = rbind (field_eq (hkey e) k) (\<lambda>b. if b then Inr (e # es) else chain_find k es)"

definition getHashEntryPtr :: "(string \<Rightarrow> nat) \<Rightarrow> hash_index \<Rightarrow> field \<Rightarrow> hash_entry list res" where
  "getHashEntryPtr hs h k =
     rbind (hashFunction hs (capacity h) k) (\<lambda>i. rbind (vec_at (hashTable h) i) (chain_find k))"

fun chain_rids :: "field \<Rightarrow> hash_entry list \<Rightarrow> rid list res" where
  "chain_rids k [] = Inr []"
| "chain_rids k (e # es) = rbind (field_eq (hkey e) k) (\<lambda>b.
     rbind (chain_rids k es) (\<lambda>rs. Inr (if b then hrid e # rs else rs)))"

definition getValue :: "(string \<Rightarrow> nat) \<Rightarrow> hash_index \<Rightarrow> field \<Rightarrow> rid list res" where
  "getValue hs h k = rbind (getHashEntryPtr hs h k) (chain_rids k)"

definition getFirstValue :: "(string \<Rightarrow> nat) \<Rightarrow> hash_index \<Rightarrow> field \<Rightarrow> hash_entry option res" where
  "getFirstValue hs h k =
     rbind (hashFunction hs (capacity h) k) (\<lambda>i. rbind (vec_at (hashTable h) i) (\<lambda>c.
     Inr (case c of [] \<Rightarrow> None | e # _ \<Rightarrow> Some e)))"

text \<open>The first entry with the key is overwritten.\<close>

fun chain_update :: "field \<Rightarrow> rid \<Rightarrow> hash_entry list \<Rightarrow> hash_entry list res" where
  "chain_update k r [] = Inr []"
| "chain_update k r (e # es) = rbind (field_eq (hkey e) k) (\<lambda>b.
     if b then Inr (e\<lparr>hkey := k, hrid := r\<rparr> # es) else rbind (chain_update k r es) (\<lambda>es. Inr (e # es)))"

definition updateIndex :: "(string \<Rightarrow> nat) \<Rightarrow> hash_index \<Rightarrow> field \<Rightarrow> rid \<Rightarrow> hash_index res" where
  "updateIndex hs h k r =
     rbind (hashFunction hs (capacity h) k) (\<lambda>i.
     rbind (vec_at (hashTable h) i) (\<lambda>c.
     rbind (chain_update k r c) (\<lambda>c. Inr (h\<lparr>hashTable := (hashTable h)[i := c]\<rparr>))))"

text \<open>
  Deletion reads \<^verbatim>\<open>next_rid\<close> of the entry behind the deleted one also when there is none. The count goes
  down for the first entry of a bucket only.
\<close>

fun chain_delete :: "field \<Rightarrow> hash_entry list \<Rightarrow> hash_entry list res" where
  "chain_delete k [] = Inl Undefined"
| "chain_delete k [e] = Inr [e]"
| "chain_delete k (e # d # es) = rbind (field_eq (hkey d) k) (\<lambda>b.
     if b then (case es of [] \<Rightarrow> Inl Undefined | n # _ \<Rightarrow> Inr (e\<lparr>next_rid := next_rid n\<rparr> # es))
     else rbind (chain_delete k (d # es)) (\<lambda>c. Inr (e # c)))"

definition deleteIndex :: "(string \<Rightarrow> nat) \<Rightarrow> hash_index \<Rightarrow> field \<Rightarrow> hash_index res" where
  "deleteIndex hs h k =
     rbind (hashFunction hs (capacity h) k) (\<lambda>i.
     rbind (vec_at (hashTable h) i) (\<lambda>c.
     case c of
       [] \<Rightarrow> Inl Undefined
     | e # es \<Rightarrow> rbind (field_eq (hkey e) k) (\<lambda>b.
         if b then (case es of
             [] \<Rightarrow> Inr (h\<lparr>hashTable := (hashTable h)[i := []], number_of_entries := number_of_entries h - 1\<rparr>)
           | [d] \<Rightarrow> Inl Undefined
           | d # n # es' \<Rightarrow> Inr (h\<lparr>hashTable := (hashTable h)[i := d\<lparr>next_rid := hrid n\<rparr> # n # es'],
                                   number_of_entries := number_of_entries h - 1\<rparr>))
         else rbind (chain_delete k c) (\<lambda>c. Inr (h\<lparr>hashTable := (hashTable h)[i := c]\<rparr>)))))"

section \<open>Loading\<close>

text \<open>The rows of one page, then the next page; the fuel counts the pages. The code copies the
  field of the row to a local key before it inserts it; the copy is the field itself here.\<close>

definition load_page :: "(string \<Rightarrow> nat) \<Rightarrow> hash_index \<Rightarrow> buf \<Rightarrow> int \<Rightarrow> hash_index res" where
  "load_page hs h b pid =
     rfold (\<lambda>i h. rbind (Page_getTuple b (int i) (Tuple [])) (\<lambda>(found, tup).
       if found then rbind (vec_at_int (tfields tup) (hcol_index h)) (\<lambda>k. insertIndex hs h k (RID pid (int i)))
       else Inr h)) [0..<hdr_num_tuples b] h"

definition resize_table :: "hash_index \<Rightarrow> hash_index" where
  "resize_table h = h\<lparr>hashTable := take (capacity h) (hashTable h) @ replicate (capacity h - length (hashTable h)) []\<rparr>"

fun load_hash_table :: "nat \<Rightarrow> (string \<Rightarrow> nat) \<Rightarrow> bpm \<Rightarrow> hash_index \<Rightarrow> int \<Rightarrow> (hash_index \<times> bpm) res" where
  "load_hash_table 0 hs s h pid = Inl Diverges"
| "load_hash_table (Suc n) hs s h pid =
     (if pid = - 1 then Inr (h, s)
      else rbind (fetch_frame s pid) (\<lambda>(f, b, s).
        rbind (load_page hs (resize_table h) b pid) (\<lambda>h. load_hash_table n hs s h (hdr_next_page_id b))))"

section \<open>On disk\<close>

text \<open>\<^verbatim>\<open>serializeOneEntry\<close> and its inverse: the key, the address of the row and \<^verbatim>\<open>next_rid\<close>.\<close>

definition serializeOneEntry :: "hash_entry \<Rightarrow> buf \<Rightarrow> nat \<Rightarrow> buf res" where
  "serializeOneEntry e b base =
     rbind (Field_serialize (hkey e) b base) (\<lambda>b.
     rbind (at_off base (getSerializedSize (hkey e))) (\<lambda>o1.
     rbind (RID_serialize (hrid e) b o1) (\<lambda>b. RID_serialize (next_rid e) b (o1 + RID_size))))"

definition deSerializeOneEntry :: "hash_entry \<Rightarrow> buf \<Rightarrow> nat \<Rightarrow> hash_entry res" where
  "deSerializeOneEntry e b base =
     rbind (Field_deserialize (hkey e) b base) (\<lambda>k.
     rbind (at_off base (getSerializedSize k)) (\<lambda>o1.
     rbind (RID_deserialize b o1) (\<lambda>r. rbind (RID_deserialize b (o1 + RID_size)) (\<lambda>nr.
     Inr \<lparr>hkey = k, hrid = r, next_rid = nr\<rparr>))))"

definition getEntrySize :: "hash_entry \<Rightarrow> int" where
  "getEntrySize e = getSerializedSize (hkey e) + 2 * int RID_size"

text \<open>
  \<^verbatim>\<open>hashEntry::serialize\<close> writes a whole chain: the first entry, the number of entries behind it, and
  those. \<open>ser_nodes\<close> is its loop; both return the next offset, which the caller adds to its own.
\<close>

fun ser_nodes :: "hash_entry list \<Rightarrow> buf \<Rightarrow> nat \<Rightarrow> int \<Rightarrow> (buf \<times> int) res" where
  "ser_nodes [] b base off = Inr (b, off)"
| "ser_nodes (e # es) b base off =
     rbind (at_off base off) (\<lambda>p. rbind (Field_serialize (hkey e) b p) (\<lambda>b.
     let off = off + getSerializedSize (hkey e) in
     rbind (at_off base off) (\<lambda>p. rbind (RID_serialize (hrid e) b p) (\<lambda>b.
     ser_nodes es b base (off + int RID_size)))))"

definition chain_serialize :: "hash_entry \<Rightarrow> hash_entry list \<Rightarrow> buf \<Rightarrow> nat \<Rightarrow> (buf \<times> int) res" where
  "chain_serialize e es b base =
     rbind (ser_nodes [e] b base 0) (\<lambda>(b, off).
     rbind (at_off base off) (\<lambda>p. rbind (memcpy_to b p (i32_bytes (int (length es)))) (\<lambda>b.
     ser_nodes es b base (off + 4))))"

text \<open>
  Reading back does not restore \<^verbatim>\<open>next_rid\<close>. A negative count would not end before the buffer does, so
  the count is taken as unsigned.
\<close>

fun des_nodes :: "nat \<Rightarrow> FieldType \<Rightarrow> buf \<Rightarrow> nat \<Rightarrow> int \<Rightarrow> (hash_entry list \<times> int) res" where
  "des_nodes 0 t b base off = Inr ([], off)"
| "des_nodes (Suc n) t b base off =
     rbind (at_off base off) (\<lambda>p. rbind (Field_deserialize (Field_null t) b p) (\<lambda>k.
     let off = off + getSerializedSize k in
     rbind (at_off base off) (\<lambda>p. rbind (RID_deserialize b p) (\<lambda>r.
     rbind (des_nodes n t b base (off + int RID_size)) (\<lambda>(es, off). Inr (hashEntry k r # es, off))))))"

definition chain_deserialize :: "FieldType \<Rightarrow> buf \<Rightarrow> nat \<Rightarrow> (hash_entry list \<times> int) res" where
  "chain_deserialize t b base =
     rbind (des_nodes 1 t b base 0) (\<lambda>(c, off).
     rbind (at_off base off) (\<lambda>p. rbind (memcpy_from b p 4) (\<lambda>n.
     rbind (des_nodes (le_val n) (fieldType (hkey (hd c))) b base (off + 4)) (\<lambda>(es, off). Inr (c @ es, off)))))"

text \<open>The whole index behind the header of a page; \<open>b\<close> and \<open>base\<close> are the argument \<^verbatim>\<open>data\<close>.\<close>

definition type_code :: "FieldType \<Rightarrow> int" where
  "type_code t = (case t of TYPE_INT \<Rightarrow> 0 | TYPE_STRING \<Rightarrow> 1 | TYPE_FLOAT \<Rightarrow> 2 | TYPE_BOOL \<Rightarrow> 3 | TYPE_NULL \<Rightarrow> 4)"

definition code_type :: "int \<Rightarrow> FieldType res" where
  "code_type i = (if i = 0 then Inr TYPE_INT else if i = 1 then Inr TYPE_STRING else if i = 2 then Inr TYPE_FLOAT
     else if i = 3 then Inr TYPE_BOOL else if i = 4 then Inr TYPE_NULL else Inl Undefined)"

fun ser_buckets :: "hash_entry list list \<Rightarrow> buf \<Rightarrow> nat \<Rightarrow> int \<Rightarrow> buf res" where
  "ser_buckets [] b base off = Inr b"
| "ser_buckets (c # cs) b base off =
     rbind (at_off base off) (\<lambda>p. rbind (memcpy_to b p [bool_byte (c \<noteq> [])]) (\<lambda>b.
     case c of
       [] \<Rightarrow> ser_buckets cs b base (off + 1)
     | e # es \<Rightarrow> rbind (at_off base (off + 1)) (\<lambda>p. rbind (chain_serialize e es b p) (\<lambda>(b, n).
         ser_buckets cs b base (off + 1 + n)))))"

definition serializeHashIndex :: "hash_index \<Rightarrow> buf \<Rightarrow> nat \<Rightarrow> buf res" where
  "serializeHashIndex h b base =
     rbind (memcpy_to b (base + 14) (i32_bytes (number_of_entries h))) (\<lambda>b.
     rbind (memcpy_to b (base + 18) (u64_bytes (capacity h))) (\<lambda>b.
     rbind (memcpy_to b (base + 26) (i32_bytes (type_code (hfield_type h)))) (\<lambda>b.
     ser_buckets (hashTable h) b base 30)))"

fun des_buckets :: "nat \<Rightarrow> FieldType \<Rightarrow> buf \<Rightarrow> nat \<Rightarrow> int \<Rightarrow> hash_entry list list res" where
  "des_buckets 0 t b base off = Inr []"
| "des_buckets (Suc n) t b base off =
     rbind (at_off base off) (\<lambda>p. rbind (memcpy_from b p 1) (\<lambda>v.
     if v = [0] then rbind (des_buckets n t b base (off + 1)) (\<lambda>cs. Inr ([] # cs))
     else rbind (at_off base (off + 1)) (\<lambda>p. rbind (chain_deserialize t b p) (\<lambda>(c, m).
       rbind (des_buckets n t b base (off + 1 + m)) (\<lambda>cs. Inr (c # cs))))))"

definition deserializeHashIndex :: "hash_index \<Rightarrow> buf \<Rightarrow> nat \<Rightarrow> hash_index res" where
  "deserializeHashIndex h b base =
     rbind (memcpy_from b base 4) (\<lambda>n.
     rbind (memcpy_from b (base + 4) 8) (\<lambda>c.
     rbind (memcpy_from b (base + 12) 4) (\<lambda>t.
     rbind (code_type (i32_val t)) (\<lambda>t.
     rbind (des_buckets (le_val c) t b base 16) (\<lambda>cs.
     Inr (h\<lparr>number_of_entries := i32_val n, capacity := le_val c, hfield_type := t, hashTable := cs\<rparr>))))))"

text \<open>The metadata the table keeps of an index, in the page the index allocated for itself.\<close>

definition saveIndexMeta :: "bpm \<Rightarrow> hash_index \<Rightarrow> bpm res" where
  "saveIndexMeta s h =
     rbind (fetchPage s (hfirst_page_id h)) (\<lambda>(p, s).
     case p of None \<Rightarrow> Inr s
     | Some f \<Rightarrow> rbind (frame_at s f) (\<lambda>b.
         rbind (memcpy_to b 14 (i32_bytes (hlast_page_id h))) (\<lambda>b.
         rbind (memcpy_to b 18 (i32_bytes (number_of_entries h))) (\<lambda>b.
         rbind (memcpy_to b 22 (u64_bytes (capacity h))) (\<lambda>b.
         rbind (memcpy_to b 30 (i32_bytes (type_code (hfield_type h)))) (\<lambda>b.
         rbind (memcpy_to b 34 (i32_bytes (hcol_index h))) (\<lambda>b.
         markAsDirty (store_frame s f b) (hfirst_page_id h))))))))"

definition loadIndexMeta :: "bpm \<Rightarrow> hash_index \<Rightarrow> (hash_index \<times> bpm) res" where
  "loadIndexMeta s h =
     rbind (fetchPage s (hfirst_page_id h)) (\<lambda>(p, s).
     case p of None \<Rightarrow> Inr (h, s)
     | Some f \<Rightarrow> rbind (frame_at s f) (\<lambda>b.
         rbind (memcpy_from b 14 4) (\<lambda>lp. rbind (memcpy_from b 18 4) (\<lambda>n.
         rbind (memcpy_from b 22 8) (\<lambda>c. rbind (memcpy_from b 30 4) (\<lambda>t.
         rbind (memcpy_from b 34 4) (\<lambda>ci. rbind (code_type (i32_val t)) (\<lambda>t.
         Inr (h\<lparr>hlast_page_id := i32_val lp, number_of_entries := i32_val n, capacity := le_val c,
                hfield_type := t, hcol_index := i32_val ci\<rparr>, s)))))))))"

end
