(* ===== verification/Hash_Laws.thy ===== *)
theory Hash_Laws imports Hash_Index
begin

text \<open>
  What an index promises to the operators that look rows up: after a sequence of insertions a search
  returns the addresses that were inserted with an equal key, in the order of insertion. The locale
  states the laws of one insertion and one search, the interpretation shows that the hash index meets
  them on keys of type \<^verbatim>\<open>INT\<close> and \<^verbatim>\<open>STRING\<close>. Deletion is described branch by branch, and loading from
  the pages of a table is a sequence of insertions.
\<close>

locale multi_index =
  fixes inv :: "'i \<Rightarrow> bool" and key :: "'k \<Rightarrow> bool" and same :: "'k \<Rightarrow> 'k \<Rightarrow> bool"
    and ins :: "'k \<Rightarrow> 'v \<Rightarrow> 'i \<Rightarrow> 'i res" and find :: "'i \<Rightarrow> 'k \<Rightarrow> 'v list res" and look :: "'i \<Rightarrow> 'k \<Rightarrow> 'v list"
  assumes ins: "inv i \<Longrightarrow> key k \<Longrightarrow>
      \<exists>j. ins k v i = Inr j \<and> inv j \<and> (\<forall>k'. key k' \<longrightarrow> look j k' = look i k' @ (if same k k' then [v] else []))"
    and find: "inv i \<Longrightarrow> key k \<Longrightarrow> find i k = Inr (look i k)"
begin

lemma insert_all:
  assumes "inv i" "\<forall>p \<in> set kvs. key (fst p)"
  shows "\<exists>j. rfold (\<lambda>p. ins (fst p) (snd p)) kvs i = Inr j \<and> inv j \<and>
    (\<forall>k. key k \<longrightarrow> find j k = Inr (look i k @ map snd (filter (\<lambda>p. same (fst p) k) kvs)))"
  using assms
proof (induction kvs arbitrary: i)
  case Nil
  then show ?case by (simp add: find)
next
  case (Cons p kvs)
  obtain j where j: "ins (fst p) (snd p) i = Inr j" "inv j"
    "\<And>k. key k \<Longrightarrow> look j k = look i k @ (if same (fst p) k then [snd p] else [])"
    using ins[OF Cons.prems(1), of "fst p" "snd p"] Cons.prems(2) by auto
  with Cons.IH[OF j(2)] Cons.prems(2) show ?case by auto
qed

end

section \<open>Buckets\<close>

definition hash_slot :: "(string \<Rightarrow> nat) \<Rightarrow> nat \<Rightarrow> field \<Rightarrow> nat" where
  "hash_slot hs cp k = (case fval k of VALUE_INT i \<Rightarrow> nat (i mod 2 ^ 64) mod cp
     | VALUE_STRING (Some a) \<Rightarrow> hs (val_string a) mod 2 ^ 64 mod cp | _ \<Rightarrow> 0)"

definition hash_key :: "FieldType \<Rightarrow> field \<Rightarrow> bool" where
  "hash_key t k \<longleftrightarrow> comparable t k \<and> t \<in> {TYPE_INT, TYPE_STRING}"

definition chain_ok :: "hash_entry list \<Rightarrow> bool" where
  "chain_ok c \<longleftrightarrow> c = [] \<or> map next_rid c = map hrid (tl c) @ [RID (- 1) (- 1)]"

definition hash_ok :: "(string \<Rightarrow> nat) \<Rightarrow> FieldType \<Rightarrow> hash_index \<Rightarrow> bool" where
  "hash_ok hs t h \<longleftrightarrow> 0 < capacity h \<and> length (hashTable h) = capacity h \<and>
     number_of_entries h = int (length (concat (hashTable h))) \<and>
     (\<forall>i < capacity h. chain_ok (hashTable h ! i) \<and>
        (\<forall>e \<in> set (hashTable h ! i). hash_key t (hkey e) \<and> hash_slot hs (capacity h) (hkey e) = i))"

definition hash_look :: "hash_index \<Rightarrow> field \<Rightarrow> rid list" where
  "hash_look h k = map hrid (filter (\<lambda>e. fequal (hkey e) k) (concat (hashTable h)))"

lemma hash_okD:
  assumes "hash_ok hs t h"
  shows "0 < capacity h" "length (hashTable h) = capacity h" "number_of_entries h = int (length (concat (hashTable h)))"
    "\<And>i. i < capacity h \<Longrightarrow> chain_ok (hashTable h ! i)"
    "\<And>i e. i < capacity h \<Longrightarrow> e \<in> set (hashTable h ! i) \<Longrightarrow> hash_key t (hkey e) \<and> hash_slot hs (capacity h) (hkey e) = i"
  using assms by (simp_all add: hash_ok_def)

lemma hash_key_cases:
  assumes "hash_key t k"
  obtains i where "t = TYPE_INT" "fieldType k = TYPE_INT" "fval k = VALUE_INT i"
  | s where "t = TYPE_STRING" "fieldType k = TYPE_STRING" "fval k = VALUE_STRING (Some (s @ [NUL]))"
proof -
  have c: "comparable t k" "fieldType k = t" "t = TYPE_INT \<or> t = TYPE_STRING"
    using assms by (auto simp: hash_key_def comparable_def)
  then show thesis using that by (cases rule: comparable_cases[OF c(1)]) simp_all
qed

lemma hashFunction_ok: "hash_key t k \<Longrightarrow> 0 < cp \<Longrightarrow> hashFunction hs cp k = Inr (hash_slot hs cp k)"
  by (erule hash_key_cases) (simp_all add: hashFunction_def hash_slot_def getFieldValueInt_def)

lemma hash_slot_less: "0 < cp \<Longrightarrow> hash_slot hs cp k < cp"
  by (auto simp: hash_slot_def split: field_val.split option.split)

lemma equal_same_slot: "hash_key t a \<Longrightarrow> hash_key t b \<Longrightarrow> fequal a b \<Longrightarrow> hash_slot hs cp a = hash_slot hs cp b"
  by (erule hash_key_cases; erule hash_key_cases)
     (auto simp: hash_slot_def fequal_def fless_def str_eq_not_less[symmetric])

lemma key_eq: "hash_key t a \<Longrightarrow> hash_key t b \<Longrightarrow> field_eq a b = Inr (fequal a b)"
  unfolding hash_key_def using field_cmp_not_same(5) by blast

text \<open>All entries with a key are in one bucket.\<close>

lemma filter_concat_one:
  assumes "i < length xss" "\<And>j x. j < length xss \<Longrightarrow> j \<noteq> i \<Longrightarrow> x \<in> set (xss ! j) \<Longrightarrow> \<not> P x"
  shows "filter P (concat xss) = filter P (xss ! i)"
proof -
  have sp: "xss = take i xss @ xss ! i # drop (Suc i) xss" using assms(1) by (rule id_take_nth_drop)
  have "\<not> P x" if a: "xs \<in> set (take i xss)" "x \<in> set xs" for xs x
  proof -
    obtain j where "j < i" "xs = xss ! j" using a(1) by (auto simp: in_set_conv_nth)
    then show ?thesis using assms(1) assms(2)[of j x] a(2) by simp
  qed
  moreover have "\<not> P x" if a: "xs \<in> set (drop (Suc i) xss)" "x \<in> set xs" for xs x
  proof -
    obtain j where "j < length xss - Suc i" "xs = xss ! (Suc i + j)" using a(1) assms(1) by (auto simp: in_set_conv_nth)
    then show ?thesis using assms(2)[of "Suc i + j" x] a(2) by simp
  qed
  ultimately have "filter P (concat (take i xss)) = []" "filter P (concat (drop (Suc i) xss)) = []"
    by (auto simp: filter_empty_conv)
  then show ?thesis by (subst sp) simp
qed

lemma hash_look_bucket:
  assumes ok: "hash_ok hs t h" and k: "hash_key t k"
  shows "hash_look h k = map hrid (filter (\<lambda>e. fequal (hkey e) k) (hashTable h ! hash_slot hs (capacity h) k))"
proof -
  have "filter (\<lambda>e. fequal (hkey e) k) (concat (hashTable h)) =
    filter (\<lambda>e. fequal (hkey e) k) (hashTable h ! hash_slot hs (capacity h) k)"
  proof (rule filter_concat_one)
    show "hash_slot hs (capacity h) k < length (hashTable h)"
      using hash_okD(1,2)[OF ok] hash_slot_less by simp
    show "\<not> fequal (hkey e) k" if "j < length (hashTable h)" "j \<noteq> hash_slot hs (capacity h) k" "e \<in> set (hashTable h ! j)" for j e
      using that hash_okD(2)[OF ok] hash_okD(5)[OF ok] equal_same_slot[OF _ k] by metis
  qed
  then show ?thesis by (simp add: hash_look_def)
qed

text \<open>Replacing one bucket.\<close>

lemma length_concat_update:
  "i < length xss \<Longrightarrow> length (concat (xss[i := c])) + length (xss ! i) = length (concat xss) + length c"
proof (induction xss arbitrary: i)
  case (Cons x xss)
  then show ?case by (cases i) (simp, fastforce)
qed simp

lemma hash_ok_update:
  assumes ok: "hash_ok hs t h" and i: "i < capacity h" and c: "chain_ok c"
    "\<And>e. e \<in> set c \<Longrightarrow> hash_key t (hkey e) \<and> hash_slot hs (capacity h) (hkey e) = i"
    and n: "n = number_of_entries h + int (length c) - int (length (hashTable h ! i))"
  shows "hash_ok hs t (h\<lparr>hashTable := (hashTable h)[i := c], number_of_entries := n\<rparr>)"
proof -
  have "int (length (concat ((hashTable h)[i := c]))) = n"
    using length_concat_update[of i "hashTable h" c] hash_okD(2,3)[OF ok] i n by simp
  then show ?thesis using ok i c by (auto simp: hash_ok_def nth_list_update)
qed

section \<open>Search and insertion\<close>

lemma chain_find_spec:
  assumes "\<forall>e \<in> set c. hash_key t (hkey e)" "hash_key t k"
  shows "chain_find k c = Inr (dropWhile (\<lambda>e. \<not> fequal (hkey e) k) c)"
  using assms by (induction c) (auto simp: key_eq)

lemma chain_rids_spec:
  assumes "\<forall>e \<in> set c. hash_key t (hkey e)" "hash_key t k"
  shows "chain_rids k c = Inr (map hrid (filter (\<lambda>e. fequal (hkey e) k) c))"
  using assms by (induction c) (auto simp: key_eq)

lemma filter_dropWhile_not: "filter P (dropWhile (\<lambda>x. \<not> P x) xs) = filter P xs"
  by (induction xs) auto

lemma bucket_at:
  assumes ok: "hash_ok hs t h" and k: "hash_key t k"
  shows "hashFunction hs (capacity h) k = Inr (hash_slot hs (capacity h) k)"
    "vec_at (hashTable h) (hash_slot hs (capacity h) k) = Inr (hashTable h ! hash_slot hs (capacity h) k)"
    "hash_slot hs (capacity h) k < capacity h"
    "\<forall>e \<in> set (hashTable h ! hash_slot hs (capacity h) k). hash_key t (hkey e)"
  using hash_okD(1,2)[OF ok] hash_okD(5)[OF ok hash_slot_less] hashFunction_ok[OF k] hash_slot_less by auto

lemma getValue_look:
  assumes ok: "hash_ok hs t h" and k: "hash_key t k"
  shows "getValue hs h k = Inr (hash_look h k)"
proof -
  note b = bucket_at[OF ok k]
  let ?c = "hashTable h ! hash_slot hs (capacity h) k"
  have "getHashEntryPtr hs h k = Inr (dropWhile (\<lambda>e. \<not> fequal (hkey e) k) ?c)"
    using b chain_find_spec[OF b(4) k] by (simp add: getHashEntryPtr_def)
  moreover have "chain_rids k (dropWhile (\<lambda>e. \<not> fequal (hkey e) k) ?c) = Inr (map hrid (filter (\<lambda>e. fequal (hkey e) k) ?c))"
    using chain_rids_spec[OF _ k, of "dropWhile (\<lambda>e. \<not> fequal (hkey e) k) ?c"] b(4) set_dropWhileD
    by (fastforce simp: filter_dropWhile_not)
  ultimately show ?thesis using hash_look_bucket[OF ok k] by (simp add: getValue_def)
qed

lemma chain_append_keys: "map hkey (chain_append c e) = map hkey c @ [hkey e]" "map hrid (chain_append c e) = map hrid c @ [hrid e]"
  by (cases c rule: rev_cases; simp add: chain_append_def)+

lemma chain_append_ok: "chain_ok c \<Longrightarrow> next_rid e = RID (- 1) (- 1) \<Longrightarrow> chain_ok (chain_append c e)"
  by (cases c rule: rev_cases; cases "butlast c") (auto simp: chain_append_def chain_ok_def butlast_append)

lemma insertIndex_look:
  assumes ok: "hash_ok hs t h" and k: "hash_key t k"
  shows "\<exists>g. insertIndex hs h k v = Inr g \<and> hash_ok hs t g \<and>
    (\<forall>k'. hash_key t k' \<longrightarrow> hash_look g k' = hash_look h k' @ (if fequal k k' then [v] else []))"
proof -
  let ?i = "hash_slot hs (capacity h) k"
  let ?c = "hashTable h ! ?i"
  let ?d = "chain_append ?c (hashEntry k v)"
  let ?g = "h\<lparr>hashTable := (hashTable h)[?i := ?d], number_of_entries := number_of_entries h + 1\<rparr>"
  note b = bucket_at[OF ok k]
  have keys: "map hkey ?d = map hkey ?c @ [k]" "map hrid ?d = map hrid ?c @ [v]"
    by (simp_all add: chain_append_keys hashEntry_def)
  have ok': "hash_ok hs t ?g"
  proof (rule hash_ok_update[OF ok b(3)])
    show "chain_ok ?d" using chain_append_ok hash_okD(4)[OF ok b(3)] by (simp add: hashEntry_def)
    show "hash_key t (hkey e) \<and> hash_slot hs (capacity h) (hkey e) = ?i" if "e \<in> set ?d" for e
    proof -
      have "hkey e \<in> set (map hkey ?d)" using that by simp
      then have "hkey e \<in> hkey ` set ?c \<or> hkey e = k" unfolding keys(1) by auto
      then show ?thesis using hash_okD(5)[OF ok b(3)] k by auto
    qed
    have "length ?d = length ?c + 1" using arg_cong[OF keys(1), of length] by simp
    then show "number_of_entries h + 1 = number_of_entries h + int (length ?d) - int (length ?c)" by simp
  qed
  have pick: "map hrid (filter (\<lambda>e. P (hkey e)) c) = map snd (filter (\<lambda>p. P (fst p)) (zip (map hkey c) (map hrid c)))"
    for P and c :: "hash_entry list" by (induction c) auto
  have look: "hash_look ?g k' = hash_look h k' @ (if fequal k k' then [v] else [])" if k': "hash_key t k'" for k'
  proof -
    let ?j = "hash_slot hs (capacity h) k'"
    note lk = hash_look_bucket[OF ok' k'] hash_look_bucket[OF ok k']
    show ?thesis
    proof (cases "?j = ?i")
      case True
      then have "hash_look ?g k' = map hrid (filter (\<lambda>e. fequal (hkey e) k') ?d)" using lk b(3) hash_okD(2)[OF ok] by simp
      also have "\<dots> = map hrid (filter (\<lambda>e. fequal (hkey e) k') ?c) @ (if fequal k k' then [v] else [])"
        unfolding pick[of "\<lambda>x. fequal x k'"] keys by simp
      finally show ?thesis using lk True by simp
    next
      case False
      then have "\<not> fequal k k'" using equal_same_slot[OF k k'] by metis
      then show ?thesis using lk False by simp
    qed
  qed
  have "insertIndex hs h k v = Inr ?g" using b by (simp add: insertIndex_def)
  with ok' look show ?thesis by blast
qed

interpretation hash_index: multi_index "hash_ok hs t" "hash_key t" fequal
  "\<lambda>k v h. insertIndex hs h k v" "getValue hs" hash_look for hs t
  by unfold_locales (use insertIndex_look getValue_look in blast)+

section \<open>Deletion\<close>

definition kv :: "hash_entry \<Rightarrow> field \<times> rid" where
  "kv e = (hkey e, hrid e)"

lemma kv_next [simp]: "kv (e\<lparr>next_rid := r\<rparr>) = kv e"
  by (simp add: kv_def)

lemma hash_look_kv: "hash_look h k = map snd (filter (\<lambda>p. fequal (fst p) k) (map kv (concat (hashTable h))))"
  by (simp add: hash_look_def filter_map comp_def kv_def)

lemma concat_update: "i < length xss \<Longrightarrow> concat (xss[i := c]) = concat (take i xss) @ c @ concat (drop (Suc i) xss)"
  by (simp add: upd_conv_take_nth_drop)

lemma chain_delete_spec:
  assumes "\<forall>e \<in> set c. hash_key t (hkey e)" "hash_key t k"
  shows "case dropWhile (\<lambda>e. \<not> fequal (hkey e) k) c of
      [] \<Rightarrow> chain_delete k (x # c) = Inr (x # c)
    | e # ys \<Rightarrow> (if ys = [] then chain_delete k (x # c) = Inl Undefined
        else \<exists>d. chain_delete k (x # c) = Inr d \<and>
          map kv d = kv x # map kv (takeWhile (\<lambda>e. \<not> fequal (hkey e) k) c) @ map kv ys)"
  using assms
proof (induction c arbitrary: x)
  case (Cons a c)
  then have eq: "field_eq (hkey a) k = Inr (fequal (hkey a) k)" by (intro key_eq[OF _ Cons.prems(2)]) simp
  show ?case
  proof (cases "fequal (hkey a) k")
    case True
    then show ?thesis using eq by (cases c) auto
  next
    case False
    have IH: "case dropWhile (\<lambda>e. \<not> fequal (hkey e) k) c of
        [] \<Rightarrow> chain_delete k (a # c) = Inr (a # c)
      | e # ys \<Rightarrow> (if ys = [] then chain_delete k (a # c) = Inl Undefined
          else \<exists>d. chain_delete k (a # c) = Inr d \<and>
            map kv d = kv a # map kv (takeWhile (\<lambda>e. \<not> fequal (hkey e) k) c) @ map kv ys)"
      using Cons.IH[of a] Cons.prems by simp
    then show ?thesis
      using False eq
      by (cases "dropWhile (\<lambda>e. \<not> fequal (hkey e) k) c")
         (simp_all del: dropWhile_eq_Nil_conv split: if_splits, auto)
  qed
qed simp

text \<open>What is left when the entry \<open>e\<close> of a bucket is taken out.\<close>

lemma look_without:
  assumes ok: "hash_ok hs t h" and k: "hash_key t k" and i: "i = hash_slot hs (capacity h) k"
    and c: "hashTable h ! i = xs @ e # ys" "\<forall>x \<in> set xs. \<not> fequal (hkey x) k" "fequal (hkey e) k"
    and g: "hashTable g = (hashTable h)[i := d]" "map kv d = map kv xs @ map kv ys"
  shows "hash_look g k = tl (hash_look h k)" "\<not> fequal (hkey e) k' \<Longrightarrow> hash_look g k' = hash_look h k'"
proof -
  have il: "i < length (hashTable h)" using bucket_at(3)[OF ok k] hash_okD(2)[OF ok] i by simp
  let ?L = "map kv (concat (take i (hashTable h)))" and ?R = "map kv (concat (drop (Suc i) (hashTable h)))"
  have h: "map kv (concat (hashTable h)) = ?L @ (map kv xs @ kv e # map kv ys) @ ?R"
    using arg_cong[OF concat_update[OF il, of "hashTable h ! i"], of "map kv"] unfolding list_update_id by (simp add: c(1))
  have gt: "map kv (concat (hashTable g)) = ?L @ (map kv xs @ map kv ys) @ ?R"
    using g concat_update[OF il, of d] by simp
  have "filter (\<lambda>p. fequal (fst p) k) ?L = []"
  proof -
    have "\<not> fequal (hkey x) k" if x: "x \<in> set (concat (take i (hashTable h)))" for x
    proof -
      obtain j where j: "j < i" "x \<in> set (hashTable h ! j)" using x il by (auto simp: in_set_conv_nth[of _ "take i (hashTable h)"])
      then show ?thesis using hash_okD(5)[OF ok, of j x] equal_same_slot[OF _ k, of "hkey x" hs "capacity h"] i il hash_okD(2)[OF ok]
        by auto
    qed
    then show ?thesis by (auto simp: filter_empty_conv kv_def)
  qed
  moreover have "filter (\<lambda>p. fequal (fst p) k) (map kv xs) = []" using c(2) by (auto simp: filter_empty_conv kv_def)
  ultimately show "hash_look g k = tl (hash_look h k)" unfolding hash_look_kv h gt using c(3) by (simp add: kv_def)
  show "hash_look g k' = hash_look h k'" if "\<not> fequal (hkey e) k'"
    unfolding hash_look_kv h gt using that by (simp add: kv_def)
qed

text \<open>
  C17. Deleting a key from a bucket \<open>c\<close>: without an entry the bucket is left alone, and an empty bucket
  is read as an entry. The first equal entry is taken out, all other addresses are still found, and the
  count goes down only if it was the head. When the entry is the last of several, or the head of two,
  the code reads through a null pointer.
\<close>

theorem hash_delete_branches:
  assumes ok: "hash_ok hs t h" and k: "hash_key t k" and c: "c = hashTable h ! hash_slot hs (capacity h) k"
  shows "case dropWhile (\<lambda>e. \<not> fequal (hkey e) k) c of
      [] \<Rightarrow> deleteIndex hs h k = (if c = [] then Inl Undefined else Inr h)
    | e # ys \<Rightarrow>
        if ys = [] \<and> length c \<noteq> 1 \<or> length ys = 1 \<and> length c = 2 then deleteIndex hs h k = Inl Undefined
        else \<exists>g. deleteIndex hs h k = Inr g \<and> hash_look g k = tl (hash_look h k) \<and>
          (\<forall>k'. fequal (hkey e) k' \<or> hash_look g k' = hash_look h k') \<and>
          number_of_entries g = number_of_entries h - (if length c = Suc (length ys) then 1 else 0)"
proof (cases c)
  case Nil
  then show ?thesis using bucket_at[OF ok k] c by (simp add: deleteIndex_def)
next
  case (Cons a as)
  let ?i = "hash_slot hs (capacity h) k"
  note b = bucket_at[OF ok k]
  have keys: "hash_key t (hkey a)" "\<forall>e \<in> set as. hash_key t (hkey e)" using b(4)[folded c] unfolding Cons by simp_all
  have eq: "field_eq (hkey a) k = Inr (fequal (hkey a) k)" using key_eq keys(1) k by blast
  have at: "hashFunction hs (capacity h) k = Inr ?i" "vec_at (hashTable h) ?i = Inr (a # as)"
    using b(1,2) c Cons by simp_all
  show ?thesis
  proof (cases "fequal (hkey a) k")
    case True
    have "\<exists>d g. deleteIndex hs h k = Inr g \<and> hashTable g = (hashTable h)[?i := d] \<and> map kv d = map kv as \<and>
        number_of_entries g = number_of_entries h - 1" if "length as \<noteq> 1"
      using that at eq True by (cases as rule: remdups_adj.cases) (auto simp: deleteIndex_def)
    moreover have "deleteIndex hs h k = Inl Undefined" if "length as = 1"
      using that at eq True by (auto simp: deleteIndex_def length_Suc_conv)
    ultimately show ?thesis
      using Cons True look_without[OF ok k refl, of "[]" a as] c by (cases "length as = 1") (auto, metis)
  next
    case False
    have del: "deleteIndex hs h k = rbind (chain_delete k (a # as)) (\<lambda>c. Inr (h\<lparr>hashTable := (hashTable h)[?i := c]\<rparr>))"
      using at eq False by (simp add: deleteIndex_def)
    show ?thesis
    proof (cases "dropWhile (\<lambda>e. \<not> fequal (hkey e) k) as")
      case Nil
      then have "dropWhile (\<lambda>e. \<not> fequal (hkey e) k) c = []" using False \<open>c = a # as\<close> by simp
      moreover have "chain_delete k (a # as) = Inr (a # as)"
        using chain_delete_spec[OF keys(2) k, of a] unfolding Nil by simp
      moreover have "(hashTable h)[?i := a # as] = hashTable h" using c \<open>c = a # as\<close> by (metis list_update_id)
      ultimately show ?thesis using del \<open>c = a # as\<close> by (simp del: dropWhile_eq_Nil_conv)
    next
      case (Cons e ys)
      have sp: "c = (a # takeWhile (\<lambda>e. \<not> fequal (hkey e) k) as) @ e # ys"
        using takeWhile_dropWhile_id[of "\<lambda>e. \<not> fequal (hkey e) k" as] \<open>c = a # as\<close> Cons by simp
      have e: "fequal (hkey e) k" using Cons by (metis dropWhile_eq_Cons_conv)
      have xs: "\<forall>x \<in> set (a # takeWhile (\<lambda>e. \<not> fequal (hkey e) k) as). \<not> fequal (hkey x) k"
        using False by (auto dest: set_takeWhileD)
      have dw: "dropWhile (\<lambda>e. \<not> fequal (hkey e) k) c = e # ys" using False Cons \<open>c = a # as\<close> by simp
      have l: "length c \<noteq> 1" "length c = 2 \<Longrightarrow> length ys \<noteq> 1" "length c \<noteq> Suc (length ys)"
        using arg_cong[OF sp, of length] by auto
      show ?thesis
      proof (cases "ys = []")
        case True
        then show ?thesis using chain_delete_spec[OF keys(2) k, of a] del Cons dw l by simp
      next
        case False
        then obtain d where d: "chain_delete k (a # as) = Inr d"
          "map kv d = map kv (a # takeWhile (\<lambda>e. \<not> fequal (hkey e) k) as) @ map kv ys"
          using chain_delete_spec[OF keys(2) k, of a] Cons by auto
        then show ?thesis
          using look_without[OF ok k refl _ xs e _ d(2), of "h\<lparr>hashTable := (hashTable h)[?i := d]\<rparr>"] sp c False del dw l
          by auto
      qed
    qed
  qed
qed

section \<open>Loading\<close>

text \<open>The addresses a search for \<open>k\<close> must find in a table: the visible rows whose column \<open>ci\<close> is equal.\<close>

definition key_at :: "nat \<Rightarrow> entry \<Rightarrow> field" where
  "key_at ci e = tfields (e_tuple e) ! ci"

definition page_matches :: "nat \<Rightarrow> field \<Rightarrow> entry list \<Rightarrow> int \<Rightarrow> rid list" where
  "page_matches ci k es pid =
     map (\<lambda>i. RID pid (int i)) (filter (\<lambda>i. visible (es ! i) \<and> fequal (key_at ci (es ! i)) k) [0..<length es])"

definition matches :: "nat \<Rightarrow> field \<Rightarrow> nat list \<Rightarrow> (nat \<Rightarrow> entry list) \<Rightarrow> rid list" where
  "matches ci k ps es = concat (map (\<lambda>p. page_matches ci k (es p) (int p)) ps)"

definition keyed :: "FieldType \<Rightarrow> nat \<Rightarrow> entry \<Rightarrow> bool" where
  "keyed t ci e \<longleftrightarrow> (visible e \<longrightarrow> ci < length (tfields (e_tuple e)) \<and> hash_key t (key_at ci e))"

lemma hash_key_eqv: "field_eqv f g \<Longrightarrow> hash_key t f \<Longrightarrow> hash_key t g \<and> fequal g k = fequal f k"
  by (auto simp: hash_key_def comparable_def field_eqv_def field_ok_def no_nan_def fequal_def fless_def)

lemma insertIndex_col: "insertIndex hs h k v = Inr g \<Longrightarrow> hcol_index g = hcol_index h"
  by (auto simp: insertIndex_def rbind_eq_Inr)

lemma load_page_spec:
  assumes ok: "hash_ok hs t h" "hcol_index h = int ci" and wf: "page_wf b es" and keys: "\<forall>e \<in> set es. keyed t ci e"
  shows "\<exists>g. load_page hs h b pid = Inr g \<and> hash_ok hs t g \<and> hcol_index g = int ci \<and>
    (\<forall>k. hash_key t k \<longrightarrow> hash_look g k = hash_look h k @ page_matches ci k es pid)"
proof -
  let ?step = "\<lambda>i h. rbind (Page_getTuple b (int i) (Tuple [])) (\<lambda>(found, tup).
       if found then rbind (vec_at_int (tfields tup) (hcol_index h)) (\<lambda>k. insertIndex hs h k (RID pid (int i)))
       else Inr h)"
  have "\<exists>g. rfold ?step [0..<m] h = Inr g \<and> hash_ok hs t g \<and> hcol_index g = int ci \<and>
    (\<forall>k. hash_key t k \<longrightarrow> hash_look g k = hash_look h k @ map (\<lambda>i. RID pid (int i))
      (filter (\<lambda>i. visible (es ! i) \<and> fequal (key_at ci (es ! i)) k) [0..<m]))" if "m \<le> length es" for m
    using that
  proof (induction m)
    case (Suc m)
    then obtain g where g: "rfold ?step [0..<m] h = Inr g" "hash_ok hs t g" "hcol_index g = int ci"
      "\<And>k. hash_key t k \<Longrightarrow> hash_look g k = hash_look h k @ map (\<lambda>i. RID pid (int i))
        (filter (\<lambda>i. visible (es ! i) \<and> fequal (key_at ci (es ! i)) k) [0..<m])" by auto
    obtain u where u: "Page_getTuple b (int m) (Tuple []) = Inr (visible (es ! m), u)" "tuple_eqv (e_tuple (es ! m)) u"
      using getTuple_entry[OF wf, of m] Suc.prems by auto
    show ?case
    proof (cases "visible (es ! m)")
      case False
      with g u show ?thesis by (simp add: rfold_append)
    next
      case True
      then have km: "ci < length (tfields (e_tuple (es ! m)))" "hash_key t (key_at ci (es ! m))"
        using keys Suc.prems by (simp_all add: keyed_def)
      have "list_all2 field_eqv (tfields (e_tuple (es ! m))) (tfields u)" using u(2) by (simp add: tuple_eqv_def)
      then have ku: "ci < length (tfields u)" "field_eqv (key_at ci (es ! m)) (tfields u ! ci)"
        using km(1) by (auto simp: key_at_def list_all2_conv_all_nth)
      note kv = hash_key_eqv[OF ku(2) km(2)]
      obtain g' where g': "insertIndex hs g (tfields u ! ci) (RID pid (int m)) = Inr g'" "hash_ok hs t g'"
        "\<And>k. hash_key t k \<Longrightarrow> hash_look g' k = hash_look g k @ (if fequal (tfields u ! ci) k then [RID pid (int m)] else [])"
        using insertIndex_look[OF g(2), of "tfields u ! ci"] kv by blast
      have "?step m g = Inr g'" using u(1) True ku(1) g(3) g'(1) by simp
      then have "rfold ?step [0..<Suc m] h = Inr g'" using g(1) by (simp add: rfold_append)
      moreover have "hcol_index g' = int ci" using insertIndex_col[OF g'(1)] g(3) by simp
      ultimately show ?thesis using g'(2,3) g(4) kv True by auto
    qed
  qed (use ok in simp)
  moreover have "hdr_num_tuples b = length es" using wf by (simp add: page_wf_def)
  ultimately show ?thesis by (simp add: load_page_def page_matches_def)
qed

lemma resize_table_same: "hash_ok hs t h \<Longrightarrow> resize_table h = h"
  using hash_okD(2)[of hs t h] by (simp add: resize_table_def)

lemma load_chain:
  assumes "bpm_inv s n {}" "links (view s) ps" "\<forall>p \<in> set ps. 1 \<le> p \<and> p \<le> n" "ps \<noteq> []"
    and "\<forall>p \<in> set ps. page_wf (view s p) (es p)" "\<forall>p \<in> set ps. \<forall>e \<in> set (es p). keyed t ci e"
    and "hash_ok hs t h" "hcol_index h = int ci" "length ps < m"
  shows "\<exists>g u. load_hash_table m hs s h (int (hd ps)) = Inr (g, u) \<and> bpm_inv u n {} \<and> same_views n s u \<and>
    hash_ok hs t g \<and> (\<forall>k. hash_key t k \<longrightarrow> hash_look g k = hash_look h k @ matches ci k ps es)"
  using assms
proof (induction ps arbitrary: s h m)
  case (Cons p ps)
  then obtain m' where m': "m = Suc m'" "length ps < m'" by (cases m) auto
  obtain f u where u: "fetch_frame s (int p) = Inr (f, view s p, u)" "bpm_inv u n {}" "same_views n s u"
    using fetch_frame_inv[OF Cons.prems(1)] Cons.prems(3) by (metis list.set_intros(1))
  have v: "view u q = view s q" if "q \<in> set (p # ps)" for q
    using u(3) Cons.prems(3) that by (auto simp: same_views_def)
  obtain g where g: "load_page hs h (view s p) (int p) = Inr g" "hash_ok hs t g" "hcol_index g = int ci"
    "\<And>k. hash_key t k \<Longrightarrow> hash_look g k = hash_look h k @ page_matches ci k (es p) (int p)"
    using load_page_spec[OF Cons.prems(7,8), of "view s p" "es p" "int p"] Cons.prems(5,6) by auto
  have step: "load_hash_table m hs s h (int p) = load_hash_table m' hs u g (hdr_next_page_id (view s p))"
    using u(1) g(1) m'(1) resize_table_same[OF Cons.prems(7)] by simp
  show ?case
  proof (cases ps)
    case Nil
    then have "load_hash_table m hs s h (int p) = Inr (g, u)"
      using step Cons.prems(2) m'(2) by (cases m') auto
    then show ?thesis using Nil g u by (auto simp: matches_def)
  next
    case (Cons q qs)
    have lk: "hdr_next_page_id (view s p) = int q" "links (view s) ps" using Cons.prems(2) Cons by simp_all
    obtain g' w where "load_hash_table m' hs u g (int (hd ps)) = Inr (g', w)" "bpm_inv w n {}" "same_views n u w" "hash_ok hs t g'"
      "\<And>k. hash_key t k \<Longrightarrow> hash_look g' k = hash_look g k @ matches ci k ps es"
    proof (rule exE[OF Cons.IH[OF u(2) _ _ _ _ _ g(2,3) m'(2)]])
      show "links (view u) ps" using lk(2) links_cong[of ps "view u" "view s"] v by simp
    qed (use Cons.prems(3,5,6) Cons v in auto)
    then show ?thesis using step lk(1) Cons g(4) same_views_trans[OF u(3)] by (auto simp: matches_def)
  qed
qed simp

section \<open>Properties\<close>

text \<open>
  C15. Inserting pairs of a key and an address and then searching a key gives the addresses that were
  found before, followed by the addresses inserted with an equal key in the order of insertion.
\<close>

theorem hash_index_finds_inserted:
  assumes "hash_ok hs t h" "\<forall>p \<in> set kvs. hash_key t (fst p)" "hash_key t k"
  shows "\<exists>g. rfold (\<lambda>p h. insertIndex hs h (fst p) (snd p)) kvs h = Inr g \<and> hash_ok hs t g \<and>
    getValue hs g k = Inr (hash_look h k @ map snd (filter (\<lambda>p. fequal (fst p) k) kvs))"
  using hash_index.insert_all[OF assms(1,2)] assms(3) by blast

lemma load_whole_table:
  assumes wf: "table_wf s n t p0 ps es" and ok: "hash_ok hs ty h" "number_of_entries h = 0" and ci: "hcol_index h = int ci"
    and keys: "\<forall>p \<in> set ps. \<forall>e \<in> set (es p). keyed ty ci e" and m: "Suc (length ps) < m"
  shows "\<exists>g u. load_hash_table m hs s h (first_page_id t) = Inr (g, u) \<and> same_views n s u \<and> table_wf u n t p0 ps es \<and>
    hash_ok hs ty g \<and> (\<forall>k. hash_key ty k \<longrightarrow> getValue hs g k = Inr (matches ci k ps es))"
proof -
  obtain m' where m': "m = Suc m'" "length ps < m'" using m by (cases m) auto
  note d = table_wfD[OF wf]
  have "1 \<le> p0" "p0 \<le> n" using d(6)[of p0] by simp_all
  then obtain f u where u: "fetch_frame s (int p0) = Inr (f, view s p0, u)" "bpm_inv u n {}" "same_views n s u"
    using fetch_frame_inv[OF d(1)] by blast
  have wfu: "table_wf u n t p0 ps es" by (rule table_wf_same[OF wf u(2) _ u(3)]) simp_all
  note e = table_wfD[OF wfu]
  have lk: "hdr_next_page_id (view s p0) = int (hd ps)" "links (view u) ps" using d(2,7) e(7) by (cases ps; simp)+
  have "load_page hs h (view s p0) (int p0) = Inr h" using d(8) by (simp add: load_page_def)
  then have step: "load_hash_table m hs s h (first_page_id t) = load_hash_table m' hs u h (int (hd ps))"
    using u(1) m'(1) d(3) lk(1) resize_table_same[OF ok(1)] by simp
  have "concat (hashTable h) = []" using hash_okD(3)[OF ok(1)] ok(2) by simp
  then have empty: "hash_look h k = []" for k unfolding hash_look_def by (simp only: filter.simps list.map)
  obtain g w where g: "load_hash_table m' hs u h (int (hd ps)) = Inr (g, w)" "bpm_inv w n {}" "same_views n u w" "hash_ok hs ty g"
    "\<And>k. hash_key ty k \<Longrightarrow> hash_look g k = hash_look h k @ matches ci k ps es"
    using load_chain[OF e(1) lk(2) _ d(2) _ keys ok(1) ci m'(2)] e(6,9) by auto
  have "table_wf w n t p0 ps es" by (rule table_wf_same[OF wfu g(2) _ g(3)]) simp_all
  moreover have "getValue hs g k = Inr (matches ci k ps es)" if "hash_key ty k" for k
    using g(5)[OF that] empty getValue_look[OF g(4) that] by simp
  ultimately show ?thesis using step g(1,4) same_views_trans[OF u(3) g(3)] by simp
qed

text \<open>
  The counter takes no part in anything else: an index that starts with another count is loaded in the same way.
\<close>

definition add_count :: "int \<Rightarrow> hash_index \<Rightarrow> hash_index" where
  "add_count d h = h\<lparr>number_of_entries := number_of_entries h + d\<rparr>"

lemma add_count_simps [simp]:
  "hashTable (add_count d h) = hashTable h" "capacity (add_count d h) = capacity h" "hcol_index (add_count d h) = hcol_index h"
  "number_of_entries (add_count d h) = number_of_entries h + d" "hfirst_page_id (add_count d h) = hfirst_page_id h"
  "hlast_page_id (add_count d h) = hlast_page_id h" "resize_table (add_count d h) = add_count d (resize_table h)"
  by (simp_all add: add_count_def resize_table_def)

lemma insertIndex_add_count: "insertIndex hs (add_count d h) k r = rbind (insertIndex hs h k r) (\<lambda>g. Inr (add_count d g))"
  unfolding insertIndex_def by (simp add: rbind_assoc) (auto intro!: rbind_cong simp: add_count_def)

lemma rfold_add_count:
  assumes "\<And>x h. f x (add_count d h) = rbind (f x h) (\<lambda>g. Inr (add_count d g))"
  shows "rfold f xs (add_count d h) = rbind (rfold f xs h) (\<lambda>g. Inr (add_count d g))"
  by (induction xs arbitrary: h) (simp_all add: assms rbind_assoc)

lemma load_page_add_count: "load_page hs (add_count d h) b pid = rbind (load_page hs h b pid) (\<lambda>g. Inr (add_count d g))"
  unfolding load_page_def
  by (rule rfold_add_count) (auto simp: insertIndex_add_count rbind_assoc intro!: rbind_cong split: prod.splits)

lemma load_hash_table_add_count:
  "load_hash_table m hs s (add_count d h) pid = rbind (load_hash_table m hs s h pid) (\<lambda>(g, u). Inr (add_count d g, u))"
  by (induction m arbitrary: s h pid) (auto simp: load_page_add_count rbind_assoc intro!: rbind_cong split: prod.splits)

lemma load_hash_table_resize: "pid \<noteq> - 1 \<Longrightarrow> load_hash_table m hs s (resize_table h) pid = load_hash_table m hs s h pid"
proof -
  have "resize_table (resize_table h) = resize_table h" by (simp add: resize_table_def min_def)
  then show "pid \<noteq> - 1 \<Longrightarrow> ?thesis" by (cases m) simp_all
qed

definition hash_frame :: "hash_index \<Rightarrow> nat \<times> int \<times> int" where
  "hash_frame h = (capacity h, hfirst_page_id h, hlast_page_id h)"

lemma insertIndex_frame: "insertIndex hs h k v = Inr g \<Longrightarrow> hash_frame g = hash_frame h"
  by (auto simp: insertIndex_def rbind_eq_Inr hash_frame_def)

lemma load_page_frame:
  assumes "load_page hs h b pid = Inr g"
  shows "hash_frame g = hash_frame h"
  using assms unfolding load_page_def
  by (rule rfold_invariant) (auto simp: rbind_eq_Inr split: if_splits dest: insertIndex_frame)

lemma load_hash_table_frame: "load_hash_table m hs s h pid = Inr (g, u) \<Longrightarrow> hash_frame g = hash_frame h"
proof (induction m arbitrary: s h pid)
  case (Suc m)
  have "hash_frame (resize_table h) = hash_frame h" by (simp add: hash_frame_def resize_table_def)
  with Suc show ?case by (auto simp: rbind_eq_Inr split: if_splits dest!: load_page_frame)
qed simp

text \<open>
  A table of empty buckets of any length up to the capacity, and any count: loading makes the table as long as
  the capacity, visits every row and adds the number of its entries to the count.
\<close>

lemma load_fresh_table:
  assumes wf: "table_wf s n t p0 ps es" and cp: "0 < capacity h" "length (hashTable h) \<le> capacity h"
    and empty: "\<forall>c \<in> set (hashTable h). c = []" and ci: "hcol_index h = int ci"
    and keys: "\<forall>p \<in> set ps. \<forall>e \<in> set (es p). keyed ty ci e" and m: "Suc (length ps) < m"
  shows "\<exists>g u. load_hash_table m hs s h (first_page_id t) = Inr (g, u) \<and> same_views n s u \<and> table_wf u n t p0 ps es \<and>
    hash_frame g = hash_frame h \<and> number_of_entries g = number_of_entries h + int (length (concat (hashTable g))) \<and>
    (\<forall>k. hash_key ty k \<longrightarrow> getValue hs g k = Inr (matches ci k ps es))"
proof -
  let ?h = "(resize_table h)\<lparr>number_of_entries := 0\<rparr>"
  have "hashTable h = replicate (length (hashTable h)) []" using empty by (simp add: replicate_eqI)
  then obtain l where l: "hashTable h = replicate l []" "l \<le> capacity h" using cp(2) by metis
  then have tb: "hashTable ?h = replicate (capacity h) []" by (simp add: resize_table_def flip: replicate_add)
  then have ok: "hash_ok hs ty ?h" using cp(1) by (simp add: hash_ok_def chain_ok_def resize_table_def)
  have c: "hcol_index ?h = int ci" using ci by (simp add: resize_table_def)
  obtain g u where g: "load_hash_table m hs s ?h (first_page_id t) = Inr (g, u)" "same_views n s u" "table_wf u n t p0 ps es"
    "hash_ok hs ty g" "\<forall>k. hash_key ty k \<longrightarrow> getValue hs g k = Inr (matches ci k ps es)"
    using load_whole_table[OF wf ok _ c keys m] by auto
  have r: "resize_table h = add_count (number_of_entries h) ?h" by (simp add: add_count_def resize_table_def)
  have "first_page_id t \<noteq> - 1" using table_wfD(3)[OF wf] by simp
  from load_hash_table_resize[OF this, of m hs s h]
  have "load_hash_table m hs s h (first_page_id t) = load_hash_table m hs s (add_count (number_of_entries h) ?h) (first_page_id t)"
    unfolding r[symmetric] by (rule sym)
  also have "\<dots> = Inr (add_count (number_of_entries h) g, u)" unfolding load_hash_table_add_count g(1) by simp
  finally have "load_hash_table m hs s h (first_page_id t) = Inr (add_count (number_of_entries h) g, u)" .
  moreover have "hash_frame g = hash_frame h" using load_hash_table_frame[OF g(1)] by (simp add: hash_frame_def resize_table_def)
  moreover have "number_of_entries g = int (length (concat (hashTable g)))" using hash_okD(3)[OF g(4)] .
  moreover have "getValue hs (add_count d g) k = getValue hs g k" for d k by (simp add: getValue_def getHashEntryPtr_def)
  ultimately show ?thesis using g(2,3,5) by (simp add: hash_frame_def)
qed

definition demo_index :: hash_index where
  "demo_index = \<lparr>hashTable = [[], []], hfield_type = TYPE_INT, hcol_index = 0, number_of_entries = 0,
     hfirst_page_id = 5, hlast_page_id = 6, capacity = 2\<rparr>"

lemma demo_index: "hashIndex s TYPE_INT 0 2 5 6 = Inr (demo_index, s)" "hash_ok hs t demo_index" "hash_look demo_index k = []"
  by (auto simp: hashIndex_def demo_index_def hash_ok_def chain_ok_def less_Suc_eq numeral_2_eq_2 hash_look_def)

lemma demo_key: "in_i32 i \<Longrightarrow> hash_key TYPE_INT (Field_int TYPE_INT i)" "fequal (Field_int t i) (Field_int t j) \<longleftrightarrow> i = j"
  by (auto simp: hash_key_def comparable_def) (auto simp: Field_int_def no_nan_def fequal_def fless_def)

lemma hash_index_finds_inserted_witness:
  "\<forall>s. \<exists>h g. hashIndex s TYPE_INT 0 2 5 6 = Inr (h, s) \<and>
     rfold (\<lambda>p h. insertIndex length h (fst p) (snd p))
       [(Field_int TYPE_INT 1, RID 2 0), (Field_int TYPE_INT 3, RID 2 1), (Field_int TYPE_INT 1, RID 2 2)] h = Inr g \<and>
     getValue length g (Field_int TYPE_INT 1) = Inr [RID 2 0, RID 2 2]"
proof -
  have k: "hash_key TYPE_INT (Field_int TYPE_INT 1)" "hash_key TYPE_INT (Field_int TYPE_INT 3)"
    by (simp_all add: demo_key in_i32_def)
  have "\<forall>p \<in> set [(Field_int TYPE_INT 1, RID 2 0), (Field_int TYPE_INT 3, RID 2 1), (Field_int TYPE_INT 1, RID 2 2)]. hash_key TYPE_INT (fst p)"
    using k by simp
  from hash_index_finds_inserted[OF demo_index(2) this k(1), of length] show ?thesis
    by (auto simp: demo_index demo_key)
qed

lemma hash_delete_branches_witness:
  "deleteIndex length demo_index (Field_int TYPE_INT 1) = Inl Undefined \<and>
   (\<exists>h g. insertIndex length demo_index (Field_int TYPE_INT 1) (RID 2 0) = Inr h \<and>
      deleteIndex length h (Field_int TYPE_INT 1) = Inr g \<and> hash_look g (Field_int TYPE_INT 1) = [] \<and> number_of_entries g = 0)"
proof
  let ?k = "Field_int TYPE_INT 1"
  have k: "hash_key TYPE_INT ?k" by (simp add: demo_key in_i32_def)
  show "deleteIndex length demo_index ?k = Inl Undefined"
    using hash_delete_branches[OF demo_index(2) k refl, of length]
    by (simp add: demo_index_def hash_slot_def Field_int_def)
  obtain h where h: "insertIndex length demo_index ?k (RID 2 0) = Inr h" "hash_ok length TYPE_INT h"
    using hash_index.ins[OF demo_index(2) k] by blast
  have sl: "hash_slot length (capacity demo_index) ?k = 1" by (simp add: hash_slot_def Field_int_def demo_index_def)
  have "hashFunction length (capacity demo_index) ?k = Inr 1"
    using hashFunction_ok[OF k, of "capacity demo_index" length] sl by (simp add: demo_index_def)
  then have hd: "hashTable h = [[], [hashEntry ?k (RID 2 0)]]" "capacity h = 2" "number_of_entries h = 1"
    using h(1) by (auto simp: insertIndex_def demo_index_def chain_append_def)
  have e: "hkey (hashEntry ?k (RID 2 0)) = ?k" "hrid (hashEntry ?k (RID 2 0)) = RID 2 0" by (simp_all add: hashEntry_def)
  have "[hashEntry ?k (RID 2 0)] = hashTable h ! hash_slot length (capacity h) ?k"
    using hd sl by (simp add: demo_index_def)
  from hash_delete_branches[OF h(2) k this]
  obtain g where g: "deleteIndex length h ?k = Inr g" "hash_look g ?k = tl (hash_look h ?k)" "number_of_entries g = 0"
    using e hd(3) by (auto simp: demo_key)
  have "hash_look h ?k = [RID 2 0]" using hd(1) e by (simp add: hash_look_def demo_key)
  then show "\<exists>h g. insertIndex length demo_index ?k (RID 2 0) = Inr h \<and> deleteIndex length h ?k = Inr g \<and> hash_look g ?k = [] \<and> number_of_entries g = 0"
    using h(1) g by (intro exI[of _ h] exI[of _ g]) simp
qed

end
