(* ===== verification/Joins.thy ===== *)
theory Joins imports Executers Hash_Laws
begin

text \<open>
  \<^verbatim>\<open>NestedLoopJoin\<close> and \<^verbatim>\<open>HashJoin\<close> (src/Q_Execution/Nested_loop_join.c++, hash_join.c++). The state of a
  join is the states of its two children with its own members; the children share the world. The loops
  take fuel: each turn fetches a row or returns.
\<close>

section \<open>Nested loops\<close>

datatype join_types = INNER_JOIN | LEFT_JOIN | RIGHT_JOIN | FULL_JOIN

record nested_loop_join =
  nl_join_condition :: predicate
  nl_outer_tuple :: tuple
  has_inner :: bool
  nl_output_schema :: "column list"
  inner_matches_counter :: int
  nl_join_type :: join_types

text \<open>The constructor calls \<^verbatim>\<open>open\<close>, which opens both children and concatenates their schemas.\<close>

definition NestedLoopJoin :: "predicate \<Rightarrow> join_types \<Rightarrow> column list \<Rightarrow> column list \<Rightarrow> nested_loop_join" where
  "NestedLoopJoin p jt sch1 sch2 = \<lparr>nl_join_condition = p, nl_outer_tuple = Tuple [], has_inner = False,
     nl_output_schema = sch1 @ sch2, inner_matches_counter = - 1, nl_join_type = jt\<rparr>"

text \<open>The padding of an unmatched row is the string \<^verbatim>\<open>NULL\<close>, not a null field.\<close>

definition null_string :: field where
  "null_string = \<lparr>fieldType = TYPE_STRING, fsize = 4, is_null = False, fval = VALUE_STRING (Some (''NULL'' @ [NUL]))\<rparr>"

text \<open>
  \<open>getNext\<close> is the outer loop and \<open>inner_loop\<close> the loop over the inner table, from the call that fetches
  the next inner row; \<open>isz\<close> is the number of columns of the inner table. With a row without fields the
  inner loop continues without fetching, and never ends.
\<close>

fun NestedLoopJoin_getNext :: "nat \<Rightarrow> ('w, 'a) get_next \<Rightarrow> ('w, 'b) get_next \<Rightarrow> ('w \<Rightarrow> 'b \<Rightarrow> ('b \<times> 'w) res) \<Rightarrow> nat \<Rightarrow>
    ('w, 'a \<times> 'b \<times> nested_loop_join) get_next"
  and inner_loop :: "nat \<Rightarrow> ('w, 'a) get_next \<Rightarrow> ('w, 'b) get_next \<Rightarrow> ('w \<Rightarrow> 'b \<Rightarrow> ('b \<times> 'w) res) \<Rightarrow> nat \<Rightarrow>
    ('w, 'a \<times> 'b \<times> nested_loop_join) get_next" where
  "NestedLoopJoin_getNext 0 onxt inxt iopen isz w (a, b, j) = Inl Diverges"
| "NestedLoopJoin_getNext (Suc k) onxt inxt iopen isz w (a, b, j) =
     (if has_inner j then inner_loop k onxt inxt iopen isz w (a, b, j)
      else if inner_matches_counter j = 0 \<and> (nl_join_type j = LEFT_JOIN \<or> nl_join_type j = FULL_JOIN) then
        let j = j\<lparr>inner_matches_counter := - 1\<rparr>; inner_fields = replicate isz null_string;
            outer_fields = tfields (nl_outer_tuple j) in
        if outer_fields = [] \<or> inner_fields = [] then NestedLoopJoin_getNext k onxt inxt iopen isz w (a, b, j)
        else Inr (Some (Tuple (outer_fields @ inner_fields)), (a, b, j), w)
      else rbind (onxt w a) (\<lambda>(x, a, w).
        case x of None \<Rightarrow> Inr (None, (a, b, j), w)
        | Some tup \<Rightarrow> rbind (iopen w b) (\<lambda>(b, w).
            inner_loop k onxt inxt iopen isz w
              (a, b, j\<lparr>nl_outer_tuple := tup, has_inner := True, inner_matches_counter := 0\<rparr>))))"
| "inner_loop 0 onxt inxt iopen isz w (a, b, j) = Inl Diverges"
| "inner_loop (Suc k) onxt inxt iopen isz w (a, b, j) =
     rbind (inxt w b) (\<lambda>(x, b, w).
     case x of None \<Rightarrow> NestedLoopJoin_getNext k onxt inxt iopen isz w (a, b, j\<lparr>has_inner := False\<rparr>)
     | Some tup \<Rightarrow>
         let outer_fields = tfields (nl_outer_tuple j); inner_fields = tfields tup in
         if outer_fields = [] \<or> inner_fields = [] then Inl Diverges
         else rbind (evaluate (nl_join_condition j) (outer_fields @ inner_fields) (nl_output_schema j)) (\<lambda>(v, p).
           let j = j\<lparr>nl_join_condition := p\<rparr> in
           if v then Inr (Some (Tuple (outer_fields @ inner_fields)),
             (a, b, j\<lparr>inner_matches_counter := inner_matches_counter j + 1\<rparr>), w)
           else if nl_join_type j = RIGHT_JOIN \<or> nl_join_type j = FULL_JOIN then
             Inr (Some (Tuple (replicate (length outer_fields) null_string @ inner_fields)), (a, b, j), w)
           else inner_loop k onxt inxt iopen isz w (a, b, j)))"

section \<open>The rows of a nested loop join\<close>

text \<open>A child that can be opened again.\<close>

locale reopenable = executer nxt left same
  for nxt :: "('w, 'a) get_next" and left :: "'w \<Rightarrow> 'a \<Rightarrow> tuple list \<Rightarrow> bool" and same :: "'w \<Rightarrow> 'w \<Rightarrow> bool" +
  fixes opn :: "'w \<Rightarrow> 'a \<Rightarrow> ('a \<times> 'w) res" and ready :: "'w \<Rightarrow> 'a \<Rightarrow> tuple list \<Rightarrow> bool"
  assumes open_left: "ready w a xs \<Longrightarrow> \<exists>b u. opn w a = Inr (b, u) \<and> same w u \<and> left u b xs \<and> ready u b xs"
    and ready_next: "ready w a xs \<Longrightarrow> nxt w a = Inr (r, b, u) \<Longrightarrow> same w u \<Longrightarrow> ready u b xs"
    and ready_undisturbed: "ready w a xs \<Longrightarrow> same w u \<Longrightarrow> ready u a xs"

text \<open>What one outer row gives: with each inner row, and after the last one.\<close>

definition pair_rows :: "join_types \<Rightarrow> column list \<Rightarrow> predicate \<Rightarrow> tuple \<Rightarrow> tuple \<Rightarrow> tuple list" where
  "pair_rows jt sch p x y =
     (if holds sch p (tfields x @ tfields y) then [Tuple (tfields x @ tfields y)]
      else if jt = RIGHT_JOIN \<or> jt = FULL_JOIN then [Tuple (replicate (length (tfields x)) null_string @ tfields y)]
      else [])"

definition unmatched_rows :: "join_types \<Rightarrow> nat \<Rightarrow> tuple \<Rightarrow> bool \<Rightarrow> tuple list" where
  "unmatched_rows jt isz x matched =
     (if \<not> matched \<and> (jt = LEFT_JOIN \<or> jt = FULL_JOIN) then [Tuple (tfields x @ replicate isz null_string)] else [])"

definition matches :: "column list \<Rightarrow> predicate \<Rightarrow> tuple \<Rightarrow> tuple \<Rightarrow> bool" where
  "matches sch p x y = holds sch p (tfields x @ tfields y)"

definition outer_rows :: "join_types \<Rightarrow> nat \<Rightarrow> column list \<Rightarrow> predicate \<Rightarrow> tuple list \<Rightarrow> tuple \<Rightarrow> tuple list" where
  "outer_rows jt isz sch p ys x = concat (map (pair_rows jt sch p x) ys) @ unmatched_rows jt isz x (list_ex (matches sch p x) ys)"

definition join_rows :: "join_types \<Rightarrow> nat \<Rightarrow> column list \<Rightarrow> predicate \<Rightarrow> tuple list \<Rightarrow> tuple list \<Rightarrow> tuple list" where
  "join_rows jt isz sch p xs ys = concat (map (outer_rows jt isz sch p ys) xs)"

text \<open>What the join relies on: rows have fields, and the condition compares values of one type.\<close>

definition joinable :: "column list \<Rightarrow> predicate \<Rightarrow> tuple list \<Rightarrow> tuple list \<Rightarrow> bool" where
  "joinable sch p xs ys \<longleftrightarrow> (\<forall>x \<in> set xs. tfields x \<noteq> [] \<and>
     (\<forall>y \<in> set ys. tfields y \<noteq> [] \<and> well_typed sch p (tfields x @ tfields y)))"

locale nested_join = outer: executer onxt oleft same + inner: reopenable inxt ileft same iopen iready
  for onxt :: "('w, 'a) get_next" and oleft and inxt :: "('w, 'b) get_next" and ileft and same :: "'w \<Rightarrow> 'w \<Rightarrow> bool"
    and iopen and iready +
  fixes jt :: join_types and isz :: nat and sch :: "column list" and p :: predicate
  assumes isz: "0 < isz"
begin

text \<open>A join with rows \<open>xs\<close> left of the outer table, \<open>ys\<close> in the inner table and fuel \<open>K\<close> for each call.\<close>

definition join_inv :: "nat \<Rightarrow> tuple list \<Rightarrow> tuple list \<Rightarrow> 'w \<Rightarrow> 'a \<times> 'b \<times> nested_loop_join \<Rightarrow> bool" where
  "join_inv K xs ys w st \<longleftrightarrow> (case st of (a, b, j) \<Rightarrow>
     oleft w a xs \<and> iready w b ys \<and> joinable sch p xs ys \<and> same_pred sch p (nl_join_condition j) \<and>
     nl_output_schema j = sch \<and> nl_join_type j = jt \<and> Suc (length xs) * (length ys + 2) < K)"

definition at_outer :: "'w \<Rightarrow> 'a \<times> 'b \<times> nested_loop_join \<Rightarrow> tuple list \<Rightarrow> bool" where
  "at_outer w st us \<longleftrightarrow> (case st of (a, b, j) \<Rightarrow> \<not> has_inner j \<and>
     us = unmatched_rows jt isz (nl_outer_tuple j) (inner_matches_counter j \<noteq> 0) \<and>
     (inner_matches_counter j = 0 \<longrightarrow> tfields (nl_outer_tuple j) \<noteq> []))"

definition at_inner :: "tuple list \<Rightarrow> 'w \<Rightarrow> 'a \<times> 'b \<times> nested_loop_join \<Rightarrow> tuple list \<Rightarrow> tuple list \<Rightarrow> bool" where
  "at_inner ys w st is us \<longleftrightarrow> (case st of (a, b, j) \<Rightarrow> has_inner j \<and> 0 \<le> inner_matches_counter j \<and>
     ileft w b is \<and> set is \<subseteq> set ys \<and> length is \<le> length ys \<and> joinable sch p [nl_outer_tuple j] ys \<and>
     us = concat (map (pair_rows jt sch p (nl_outer_tuple j)) is) @
       unmatched_rows jt isz (nl_outer_tuple j) (inner_matches_counter j \<noteq> 0 \<or> list_ex (matches sch p (nl_outer_tuple j)) is))"

definition nlj_left :: "nat \<Rightarrow> 'w \<Rightarrow> 'a \<times> 'b \<times> nested_loop_join \<Rightarrow> tuple list \<Rightarrow> bool" where
  "nlj_left K w st zs \<longleftrightarrow> (\<exists>xs ys us. join_inv K xs ys w st \<and> (at_outer w st us \<or> (\<exists>is. at_inner ys w st is us)) \<and>
     zs = us @ join_rows jt isz sch p xs ys)"

definition gives_rows :: "nat \<Rightarrow> (tuple option \<times> ('a \<times> 'b \<times> nested_loop_join) \<times> 'w) res \<Rightarrow> 'w \<Rightarrow> tuple list \<Rightarrow> bool" where
  "gives_rows K R w zs \<longleftrightarrow> (\<exists>r st u. R = Inr (r, st, u) \<and> same w u \<and>
     (case zs of [] \<Rightarrow> r = None | z # zs' \<Rightarrow> r = Some z \<and> nlj_left K u st zs'))"

lemma gives_rows_later: "gives_rows K R u zs \<Longrightarrow> same w u \<Longrightarrow> gives_rows K R w zs"
  unfolding gives_rows_def using outer.same_trans by blast

lemma join_undisturbed:
  assumes "same w u"
  shows "join_inv K xs ys w st \<Longrightarrow> join_inv K xs ys u st" and "at_outer w st us \<Longrightarrow> at_outer u st us"
    and "at_inner ys w st is us \<Longrightarrow> at_inner ys u st is us"
  using outer.undisturbed[OF _ assms] inner.undisturbed[OF _ assms] inner.ready_undisturbed[OF _ assms]
  by (simp_all add: join_inv_def at_outer_def at_inner_def split: prod.splits)

lemma joinable_sub: "joinable sch p xs ys \<Longrightarrow> x \<in> set xs \<Longrightarrow> joinable sch p [x] ys"
  by (auto simp: joinable_def)

lemma joinable_tail: "joinable sch p (x # xs) ys \<Longrightarrow> joinable sch p xs ys"
  by (auto simp: joinable_def)

lemma inner_row:
  assumes inv: "join_inv K xs ys w (a, b, j)" and at: "at_inner ys w (a, b, j) (y # is) us"
  shows "\<exists>c u. inxt w b = Inr (Some y, c, u) \<and> same w u \<and> join_inv K xs ys u (a, c, j) \<and> ileft u c is"
proof -
  obtain c u where u: "inxt w b = Inr (Some y, c, u)" "same w u" "ileft u c is"
    using inner.at_row[of w b y "is"] at by (auto simp: at_inner_def)
  then show ?thesis using inv inner.ready_next[of w b ys "Some y" c u] outer.undisturbed[OF _ u(2)]
    by (auto simp: join_inv_def)
qed

lemma nested_loop_rows:
  "(\<forall>w a b j us xs ys. join_inv K xs ys w (a, b, j) \<longrightarrow> at_outer w (a, b, j) us \<longrightarrow> Suc (length xs * (length ys + 2)) \<le> k \<longrightarrow>
      gives_rows K (NestedLoopJoin_getNext k onxt inxt iopen isz w (a, b, j)) w (us @ join_rows jt isz sch p xs ys)) \<and>
   (\<forall>w a b j is us xs ys. join_inv K xs ys w (a, b, j) \<longrightarrow> at_inner ys w (a, b, j) is us \<longrightarrow>
      length is + 2 + length xs * (length ys + 2) \<le> k \<longrightarrow>
      gives_rows K (inner_loop k onxt inxt iopen isz w (a, b, j)) w (us @ join_rows jt isz sch p xs ys))"
proof (induction k)
  case (Suc k)
  have outer_case: "gives_rows K (NestedLoopJoin_getNext (Suc k) onxt inxt iopen isz w (a, b, j)) w (us @ join_rows jt isz sch p xs ys)"
    if inv: "join_inv K xs ys w (a, b, j)" and at: "at_outer w (a, b, j) us" and k: "length xs * (length ys + 2) \<le> k" for w a b j us xs ys
  proof (cases "inner_matches_counter j = 0 \<and> (jt = LEFT_JOIN \<or> jt = FULL_JOIN)")
    case True
    have at': "at_outer w (a, b, j\<lparr>inner_matches_counter := - 1\<rparr>) []" using at by (simp add: at_outer_def unmatched_rows_def)
    have "join_inv K xs ys w (a, b, j\<lparr>inner_matches_counter := - 1\<rparr>)" using inv by (simp add: join_inv_def)
    then have "nlj_left K w (a, b, j\<lparr>inner_matches_counter := - 1\<rparr>) (join_rows jt isz sch p xs ys)"
      using at' unfolding nlj_left_def by fastforce
    moreover have "same w w" using inv outer.same_refl by (auto simp: join_inv_def)
    ultimately show ?thesis using True at inv isz
      by (auto simp: gives_rows_def at_outer_def unmatched_rows_def join_inv_def Let_def)
  next
    case False
    have nf: "(inner_matches_counter j = 0 \<and> (jt = LEFT_JOIN \<or> jt = FULL_JOIN)) = False" using False by blast
    have us: "us = []" using False at by (auto simp: at_outer_def unmatched_rows_def)
    have j: "\<not> has_inner j" "nl_join_type j = jt" "oleft w a xs" using at inv by (auto simp: at_outer_def join_inv_def)
    show ?thesis
    proof (cases xs)
      case Nil
      then obtain c u where "onxt w a = Inr (None, c, u)" "same w u" using outer.at_end j(3) by blast
      with j Nil us show ?thesis by (simp add: nf gives_rows_def join_rows_def)
    next
      case (Cons x xs')
      then obtain c u where u: "onxt w a = Inr (Some x, c, u)" "same w u" "oleft u c xs'" using outer.at_row j(3) by blast
      have "iready u b ys" using inv inner.ready_undisturbed[OF _ u(2)] by (auto simp: join_inv_def)
      then obtain d v where v: "iopen u b = Inr (d, v)" "same u v" "ileft v d ys" "iready v d ys" using inner.open_left by blast
      let ?j = "j\<lparr>nl_outer_tuple := x, has_inner := True, inner_matches_counter := 0\<rparr>"
      have inv': "join_inv K xs' ys v (c, d, ?j)"
        using inv v(4) outer.undisturbed[OF u(3) v(2)] Cons joinable_tail by (auto simp: join_inv_def)
      have "joinable sch p [x] ys" using inv Cons by (auto simp: join_inv_def joinable_def)
      then have "at_inner ys v (c, d, ?j) ys (outer_rows jt isz sch p ys x)" using v(3) by (simp add: at_inner_def outer_rows_def)
      moreover have "length ys + 2 + length xs' * (length ys + 2) \<le> k" using k Cons by simp
      ultimately have "gives_rows K (inner_loop k onxt inxt iopen isz v (c, d, ?j)) v (outer_rows jt isz sch p ys x @ join_rows jt isz sch p xs' ys)"
        using Suc.IH inv' by blast
      then have "gives_rows K (inner_loop k onxt inxt iopen isz v (c, d, ?j)) w (us @ join_rows jt isz sch p xs ys)"
        using gives_rows_later outer.same_trans[OF u(2) v(2)] us Cons by (simp add: join_rows_def)
      with j u(1) v(1) show ?thesis by (simp add: nf)
    qed
  qed
  have inner_case: "gives_rows K (inner_loop (Suc k) onxt inxt iopen isz w (a, b, j)) w (us @ join_rows jt isz sch p xs ys)"
    if inv: "join_inv K xs ys w (a, b, j)" and at: "at_inner ys w (a, b, j) is us" and k: "length is + 1 + length xs * (length ys + 2) \<le> k"
    for w a b j "is" us xs ys
  proof (cases "is")
    case Nil
    then obtain c u where u: "inxt w b = Inr (None, c, u)" "same w u" using inner.at_end[of w b] at by (auto simp: at_inner_def)
    let ?j = "j\<lparr>has_inner := False\<rparr>"
    have "join_inv K xs ys u (a, c, ?j)"
      using inv inner.ready_next[of w b ys None c u] outer.undisturbed[OF _ u(2)] u by (auto simp: join_inv_def)
    moreover have "at_outer u (a, c, ?j) us" using at Nil by (auto simp: at_inner_def at_outer_def joinable_def)
    ultimately have "gives_rows K (NestedLoopJoin_getNext k onxt inxt iopen isz u (a, c, ?j)) u (us @ join_rows jt isz sch p xs ys)"
      using Suc.IH k by fastforce
    from gives_rows_later[OF this u(2)] u(1) show ?thesis by simp
  next
    case (Cons y is')
    obtain c u where u: "inxt w b = Inr (Some y, c, u)" "same w u" "join_inv K xs ys u (a, c, j)" "ileft u c is'"
      using inner_row[OF inv] at Cons by blast
    let ?x = "nl_outer_tuple j"
    have jb: "joinable sch p [?x] ys" "y \<in> set ys" "set is' \<subseteq> set ys" "length is' \<le> length ys" "has_inner j" "0 \<le> inner_matches_counter j"
      and us: "us = pair_rows jt sch p ?x y @ concat (map (pair_rows jt sch p ?x) is') @
        unmatched_rows jt isz ?x (inner_matches_counter j \<noteq> 0 \<or> matches sch p ?x y \<or> list_ex (matches sch p ?x) is')"
      using at Cons by (auto simp: at_inner_def)
    have ne: "tfields ?x \<noteq> []" "tfields y \<noteq> []" "well_typed sch p (tfields ?x @ tfields y)" using jb(1,2) by (auto simp: joinable_def)
    have sp: "same_pred sch p (nl_join_condition j)" "nl_output_schema j = sch" "nl_join_type j = jt" using inv by (auto simp: join_inv_def)
    obtain p' where p': "evaluate (nl_join_condition j) (tfields ?x @ tfields y) sch = Inr (holds sch p (tfields ?x @ tfields y), p')"
      "same_pred sch p p'" using evaluate_spec[OF sp(1) ne(3)] by blast
    let ?j = "\<lambda>m. j\<lparr>nl_join_condition := p', inner_matches_counter := m\<rparr>"
    have inv': "join_inv K xs ys u (a, c, ?j m)" for m using u(3) p'(2) by (auto simp: join_inv_def)
    have at': "at_inner ys u (a, c, ?j m) is' (concat (map (pair_rows jt sch p ?x) is') @
        unmatched_rows jt isz ?x (m \<noteq> 0 \<or> list_ex (matches sch p ?x) is'))" if "0 \<le> m" for m
      using u(4) jb that by (simp add: at_inner_def)
    have later: "nlj_left K u (a, c, ?j m) ((concat (map (pair_rows jt sch p ?x) is') @
        unmatched_rows jt isz ?x (m \<noteq> 0 \<or> list_ex (matches sch p ?x) is')) @ join_rows jt isz sch p xs ys)" if "0 \<le> m" for m
      unfolding nlj_left_def using inv' at'[OF that] by blast
    have same_j: "?j (inner_matches_counter j) = j\<lparr>nl_join_condition := p'\<rparr>" by simp
    show ?thesis
    proof (cases "holds sch p (tfields ?x @ tfields y)")
      case True
      then show ?thesis using later[of "inner_matches_counter j + 1"] u(1,2) p'(1) ne(1,2) sp(2) jb(6)
        by (simp add: gives_rows_def us pair_rows_def matches_def Let_def)
    next
      case no: False
      show ?thesis
      proof (cases "jt = RIGHT_JOIN \<or> jt = FULL_JOIN")
        case True
        then show ?thesis using no later[OF jb(6)] u(1,2) p'(1) ne(1,2) sp(2,3)
          by (simp add: gives_rows_def us pair_rows_def matches_def Let_def)
      next
        case False
        have "length is' + 2 + length xs * (length ys + 2) \<le> k" using k Cons by simp
        then have "gives_rows K (inner_loop k onxt inxt iopen isz u (a, c, ?j (inner_matches_counter j))) u
            ((concat (map (pair_rows jt sch p ?x) is') @
              unmatched_rows jt isz ?x (inner_matches_counter j \<noteq> 0 \<or> list_ex (matches sch p ?x) is')) @ join_rows jt isz sch p xs ys)"
          using Suc.IH inv' at'[OF jb(6)] by blast
        from gives_rows_later[OF this u(2)] False no u(1) p'(1) ne(1,2) sp(2,3) show ?thesis
          by (simp add: us pair_rows_def matches_def Let_def)
      qed
    qed
  qed
  show ?case using outer_case inner_case by auto
qed simp

lemma nested_loop_executer: "executer (NestedLoopJoin_getNext (Suc K) onxt inxt iopen isz) (nlj_left K) same"
proof unfold_locales
  fix w u :: 'w and st :: "'a \<times> 'b \<times> nested_loop_join" and x xs
  obtain a b j where st: "st = (a, b, j)" by (cases st)
  have gives: "gives_rows K (NestedLoopJoin_getNext (Suc K) onxt inxt iopen isz w st) w zs" if l: "nlj_left K w st zs" for zs
  proof -
    obtain xs ys us where inv: "join_inv K xs ys w st" and at: "at_outer w st us \<or> (\<exists>is. at_inner ys w st is us)"
      and zs: "zs = us @ join_rows jt isz sch p xs ys" using l unfolding nlj_left_def by blast
    have K: "Suc (length xs) * (length ys + 2) < K" using inv st by (simp add: join_inv_def)
    show ?thesis
    proof (cases "has_inner j")
      case False
      then have "at_outer w st us" using at st by (auto simp: at_inner_def)
      then show ?thesis using nested_loop_rows[of K "Suc K"] inv K unfolding zs st by simp
    next
      case True
      then obtain "is" where "at_inner ys w st is us" using at st by (auto simp: at_outer_def)
      moreover from this have "length is \<le> length ys" using st by (simp add: at_inner_def)
      ultimately have "gives_rows K (inner_loop K onxt inxt iopen isz w st) w zs"
        using nested_loop_rows[of K K] inv K unfolding zs st by simp
      then show ?thesis using True st by simp
    qed
  qed
  show "nlj_left K w st [] \<Longrightarrow> \<exists>b u. NestedLoopJoin_getNext (Suc K) onxt inxt iopen isz w st = Inr (None, b, u) \<and> same w u"
    using gives by (fastforce simp: gives_rows_def)
  show "nlj_left K w st (x # xs) \<Longrightarrow> \<exists>b u. NestedLoopJoin_getNext (Suc K) onxt inxt iopen isz w st = Inr (Some x, b, u) \<and>
      same w u \<and> nlj_left K u b xs"
    using gives by (fastforce simp: gives_rows_def)
  show "nlj_left K u st xs" if "nlj_left K w st xs" "same w u"
    using that join_undisturbed unfolding nlj_left_def by blast
  show "nlj_left K w st xs \<Longrightarrow> same w w" using outer.same_refl by (auto simp: nlj_left_def join_inv_def)
qed (rule outer.same_trans)

end

section \<open>Two scans in one buffer pool\<close>

definition scan_open :: "table_heap \<Rightarrow> bpm \<Rightarrow> seq_scan \<Rightarrow> (seq_scan \<times> bpm) res" where
  "scan_open t s sc = Inr (seq_open t, s)"

definition scan_again :: "nat \<Rightarrow> nat \<Rightarrow> table_heap \<Rightarrow> nat \<Rightarrow> nat list \<Rightarrow> (nat \<Rightarrow> entry list) \<Rightarrow> (nat \<Rightarrow> buf) \<Rightarrow>
    bpm \<Rightarrow> seq_scan \<Rightarrow> tuple list \<Rightarrow> bool" where
  "scan_again k n t p0 ps es v s sc xs \<longleftrightarrow> table_wf s n t p0 ps es \<and> scan_ready t ps es \<and> (\<forall>q \<in> set ps. view s q = v q) \<and>
     scan_fuel ps es < k \<and> xs = table_rows v ps es"

lemma scan_again_same:
  assumes a: "scan_again k n t p0 ps es v s sc xs" and s: "same_pages n s u"
  shows "scan_again k n t p0 ps es v u sc' xs"
proof -
  have wf: "table_wf s n t p0 ps es" using a by (simp add: scan_again_def)
  have "table_wf u n t p0 ps es" using s by (intro table_wf_same[OF wf]) (auto simp: same_pages_def)
  moreover have "view u q = view s q" if "q \<in> set ps" for q
    using table_wfD(6)[OF wf, of q] that s by (auto simp: same_pages_def same_views_def)
  ultimately show ?thesis using a by (simp add: scan_again_def)
qed

interpretation scan: reopenable "scan_next k t" "scan_left k n t p0 ps es v" "same_pages n" "scan_open t"
  "scan_again k n t p0 ps es v" for k n t p0 ps es v
proof unfold_locales
  fix s a xs r b u
  show "\<exists>b u. scan_open t s a = Inr (b, u) \<and> same_pages n s u \<and> scan_left k n t p0 ps es v u b xs \<and> scan_again k n t p0 ps es v u b xs"
    if "scan_again k n t p0 ps es v s a xs"
    using that scan_left_open table_wfD(1) unfolding scan_again_def scan_open_def same_pages_def same_views_def by auto
  show "scan_again k n t p0 ps es v s a xs \<Longrightarrow> seq_getNext k s t a = Inr (r, b, u) \<Longrightarrow> same_pages n s u \<Longrightarrow>
      scan_again k n t p0 ps es v u b xs"
    by (rule scan_again_same)
  show "scan_again k n t p0 ps es v s a xs \<Longrightarrow> same_pages n s u \<Longrightarrow> scan_again k n t p0 ps es v u a xs"
    by (rule scan_again_same)
qed

interpretation scan_join: nested_join "scan_next k t" "scan_left k n t p0 ps es v" "scan_next k' t'" "scan_left k' n t' p0' ps' es' v'"
  "same_pages n" "scan_open t'" "scan_again k' n t' p0' ps' es' v'" jt "Suc isz" sch p
  for k t n p0 ps es v k' t' p0' ps' es' v' jt isz sch p
  by unfold_locales simp

section \<open>Hash join\<close>

text \<open>The hash functions of the standard library for the four types of keys.\<close>

record std_hash =
  hash_int :: "int \<Rightarrow> nat"
  hash_float :: "32 word \<Rightarrow> nat"
  hash_bool :: "bool \<Rightarrow> nat"
  hash_string :: "string \<Rightarrow> nat"

text \<open>\<^verbatim>\<open>std::hash<Field>\<close>.\<close>

definition field_hash :: "std_hash \<Rightarrow> field \<Rightarrow> nat res" where
  "field_hash h f = (case fieldType f of
       TYPE_INT \<Rightarrow> rbind (getFieldValueInt f) (\<lambda>x. Inr (hash_int h x))
     | TYPE_FLOAT \<Rightarrow> rbind (getFieldValueFloat f) (\<lambda>x. Inr (hash_float h x))
     | TYPE_BOOL \<Rightarrow> rbind (getFieldValueBool f) (\<lambda>x. Inr (hash_bool h x))
     | TYPE_STRING \<Rightarrow> rbind (field_string f) (\<lambda>x. Inr (hash_string h x))
     | TYPE_NULL \<Rightarrow> Inr 0)"

text \<open>The \<^verbatim>\<open>unordered_map\<close>: a key is found by its hash and \<^verbatim>\<open>operator==\<close>.\<close>

type_synonym join_map = "(field \<times> tuple list) list"

definition same_key :: "std_hash \<Rightarrow> field \<Rightarrow> field \<Rightarrow> bool res" where
  "same_key h f k = rbind (field_hash h f) (\<lambda>x. rbind (field_hash h k) (\<lambda>y. if x = y then field_eq f k else Inr False))"

fun map_find :: "std_hash \<Rightarrow> join_map \<Rightarrow> field \<Rightarrow> tuple list option res" where
  "map_find h [] f = Inr None"
| "map_find h ((k, ts) # m) f = rbind (same_key h f k) (\<lambda>b. if b then Inr (Some ts) else map_find h m f)"

fun map_push :: "std_hash \<Rightarrow> field \<Rightarrow> tuple \<Rightarrow> join_map \<Rightarrow> join_map res" where
  "map_push h f t [] = Inr [(f, [t])]"
| "map_push h f t ((k, ts) # m) = rbind (same_key h f k) (\<lambda>b.
     if b then Inr ((k, ts @ [t]) # m) else rbind (map_push h f t m) (\<lambda>m. Inr ((k, ts) # m)))"

record hash_join =
  is_hash_built :: bool
  hash_map :: join_map
  tuple_index :: nat
  curr_inner_tuple :: tuple

definition HashJoin :: hash_join where
  "HashJoin = \<lparr>is_hash_built = False, hash_map = [], tuple_index = 0, curr_inner_tuple = Tuple []\<rparr>"

fun build_hash :: "nat \<Rightarrow> std_hash \<Rightarrow> ('w, 'a) get_next \<Rightarrow> nat \<Rightarrow> 'w \<Rightarrow> 'a \<Rightarrow> join_map \<Rightarrow> (join_map \<times> 'a \<times> 'w) res" where
  "build_hash 0 h onxt oi w a m = Inl Diverges"
| "build_hash (Suc k) h onxt oi w a m =
     rbind (onxt w a) (\<lambda>(x, a, w).
     case x of None \<Rightarrow> Inr (m, a, w)
     | Some tup \<Rightarrow> rbind (vec_at (tfields tup) oi) (\<lambda>f. rbind (map_push h f tup m) (\<lambda>m. build_hash k h onxt oi w a m)))"

definition hits :: "tuple list option \<Rightarrow> tuple list" where
  "hits r = (case r of None \<Rightarrow> [] | Some ts \<Rightarrow> ts)"

fun hash_probe :: "nat \<Rightarrow> std_hash \<Rightarrow> ('w, 'b) get_next \<Rightarrow> nat \<Rightarrow> field \<Rightarrow> ('w, 'b \<times> hash_join) get_next" where
  "hash_probe 0 h inxt ii f w (b, j) = Inl Diverges"
| "hash_probe (Suc k) h inxt ii f w (b, j) =
     rbind (map_find h (hash_map j) f) (\<lambda>r.
     if tuple_index j < length (hits r)
     then Inr (Some (Tuple (tfields (hits r ! tuple_index j) @ tfields (curr_inner_tuple j))),
       (b, j\<lparr>tuple_index := tuple_index j + 1\<rparr>), w)
     else rbind (inxt w b) (\<lambda>(x, b, w).
       case x of None \<Rightarrow> Inr (None, (b, j\<lparr>tuple_index := 0\<rparr>), w)
       | Some tup \<Rightarrow> rbind (vec_at (tfields tup) ii) (\<lambda>f.
           hash_probe k h inxt ii f w (b, j\<lparr>tuple_index := 0, curr_inner_tuple := tup\<rparr>))))"

text \<open>\<open>oi\<close> and \<open>ii\<close> are the indices of the join column in the two tables.\<close>

definition hash_build_phase :: "nat \<Rightarrow> std_hash \<Rightarrow> ('w, 'a) get_next \<Rightarrow> ('w, 'b) get_next \<Rightarrow> nat \<Rightarrow> 'w \<Rightarrow> 'a \<times> 'b \<times> hash_join \<Rightarrow>
    (bool \<times> ('a \<times> 'b \<times> hash_join) \<times> 'w) res" where
  "hash_build_phase k h onxt inxt oi w st = (case st of (a, b, j) \<Rightarrow>
     if is_hash_built j then Inr (True, (a, b, j), w)
     else rbind (build_hash k h onxt oi w a (hash_map j)) (\<lambda>(m, a, w).
       let j = j\<lparr>hash_map := m, is_hash_built := True\<rparr> in
       rbind (inxt w b) (\<lambda>(x, b, w).
       case x of None \<Rightarrow> Inr (False, (a, b, j), w) | Some tup \<Rightarrow> Inr (True, (a, b, j\<lparr>curr_inner_tuple := tup\<rparr>), w))))"

definition HashJoin_getNext :: "nat \<Rightarrow> std_hash \<Rightarrow> ('w, 'a) get_next \<Rightarrow> ('w, 'b) get_next \<Rightarrow> nat \<Rightarrow> nat \<Rightarrow>
    ('w, 'a \<times> 'b \<times> hash_join) get_next" where
  "HashJoin_getNext k h onxt inxt oi ii w st =
     rbind (hash_build_phase k h onxt inxt oi w st) (\<lambda>(go, (a, b, j), w).
     if \<not> go then Inr (None, (a, b, j), w)
     else rbind (vec_at (tfields (curr_inner_tuple j)) ii) (\<lambda>f.
       rbind (hash_probe k h inxt ii f w (b, j)) (\<lambda>(x, (b, j), w). Inr (x, (a, b, j), w))))"

section \<open>The rows of a hash join\<close>

text \<open>Equal floats have equal hashes, \<open>0.0\<close> and \<open>-0.0\<close> among them, as the standard demands.\<close>

definition hash_respects_eq :: "std_hash \<Rightarrow> bool" where
  "hash_respects_eq h \<longleftrightarrow> (\<forall>x y. f32_eq x y \<longrightarrow> hash_float h x = hash_float h y)"

lemma field_hash_value:
  assumes "comparable t f"
  shows "field_hash h f = Inr (case fval f of VALUE_INT i \<Rightarrow> hash_int h i | VALUE_FLOAT d \<Rightarrow> hash_float h (f64_to_f32 d)
    | VALUE_BOOL v \<Rightarrow> hash_bool h v | VALUE_STRING s \<Rightarrow> hash_string h (val_string (the s)))"
proof -
  have t: "fieldType f = t" using assms by (simp add: comparable_def)
  show ?thesis
    using t by (cases rule: comparable_cases[OF assms])
      (simp_all add: field_hash_def getFieldValueInt_def getFieldValueFloat_def getFieldValueBool_def)
qed

lemma same_key_equal:
  assumes "hash_respects_eq h" "comparable t f" "comparable t k"
  shows "same_key h f k = Inr (fequal f k)"
proof -
  have "the (case field_hash h f of Inr x \<Rightarrow> Some x) = the (case field_hash h k of Inr x \<Rightarrow> Some x)" if "fequal f k"
    unfolding field_hash_value[OF assms(2)] field_hash_value[OF assms(3)] using that assms(1)
    by (cases rule: comparable_cases[OF assms(2)]; cases rule: comparable_cases[OF assms(3)])
      (auto simp: fequal_def fless_def hash_respects_eq_def f32_not_less_eq str_eq_not_less[symmetric])
  then show ?thesis using field_cmp_not_same(5)[OF assms(2,3)] field_hash_value[OF assms(2)] field_hash_value[OF assms(3)]
    by (auto simp: same_key_def)
qed

definition map_ok :: "FieldType \<Rightarrow> join_map \<Rightarrow> bool" where
  "map_ok t m \<longleftrightarrow> (\<forall>(k, ts) \<in> set m. comparable t k) \<and> sorted_wrt (\<lambda>x y. \<not> fequal (fst x) (fst y)) m"

definition map_look :: "join_map \<Rightarrow> field \<Rightarrow> tuple list" where
  "map_look m f = concat (map snd (filter (\<lambda>x. fequal f (fst x)) m))"

lemma map_find_look:
  assumes h: "hash_respects_eq h" and m: "map_ok t m" and f: "comparable t f"
  shows "rbind (map_find h m f) (\<lambda>r. Inr (hits r)) = Inr (map_look m f)"
  using m
proof (induction m)
  case Nil
  then show ?case by (simp add: hits_def map_look_def)
next
  case (Cons x m)
  obtain k ts where x: "x = (k, ts)" by (cases x)
  have k: "comparable t k" and m: "map_ok t m" using Cons.prems x by (auto simp: map_ok_def)
  show ?case
  proof (cases "fequal f k")
    case True
    have "\<not> fequal f k'" if "(k', ts') \<in> set m" for k' ts'
    proof
      assume e: "fequal f k'"
      have k': "comparable t k'" using that m by (auto simp: map_ok_def)
      have "fequal k k'" using field_order.equal_trans[OF k f k'] field_order.equal_sym[OF f k True] e by blast
      then show False using Cons.prems that x by (auto simp: map_ok_def)
    qed
    then have "filter (\<lambda>x. fequal f (fst x)) m = []" by (auto simp: filter_empty_conv)
    then show ?thesis using True same_key_equal[OF h f k] x by (simp add: map_look_def hits_def)
  next
    case False
    then show ?thesis using same_key_equal[OF h f k] x Cons.IH[OF m] by (simp add: map_look_def)
  qed
qed

lemma map_push_look:
  assumes h: "hash_respects_eq h" and m: "map_ok t m" and f: "comparable t f"
  shows "\<exists>m'. map_push h f tup m = Inr m' \<and> map_ok t m' \<and>
    (\<forall>g. comparable t g \<longrightarrow> map_look m' g = map_look m g @ (if fequal f g then [tup] else [])) \<and>
    (\<forall>k. (\<exists>x \<in> set m'. fst x = k) \<longrightarrow> k = f \<or> (\<exists>x \<in> set m. fst x = k))"
  using m
proof (induction m)
  case Nil
  have "fequal g f = fequal f g" if "comparable t g" for g using field_order.equal_sym f that by blast
  then show ?case using f by (simp add: map_ok_def map_look_def)
next
  case (Cons x m)
  obtain k ts where x: "x = (k, ts)" by (cases x)
  have k: "comparable t k" and m: "map_ok t m" and apart: "\<forall>y \<in> set m. \<not> fequal k (fst y)"
    and ks: "\<And>y. y \<in> set m \<Longrightarrow> comparable t (fst y)"
    using Cons.prems x by (auto simp: map_ok_def)
  show ?case
  proof (cases "fequal f k")
    case True
    let ?m = "(k, ts @ [tup]) # m"
    have "map_look ?m g = map_look (x # m) g @ (if fequal f g then [tup] else [])" if g: "comparable t g" for g
    proof (cases "fequal g k")
      case gk: True
      then have fg: "fequal f g" using field_order.equal_trans[OF f k g True] field_order.equal_sym[OF g k] by blast
      have "\<not> fequal g (fst y)" if y: "y \<in> set m" for y
        using apart y field_order.equal_trans[OF k g ks[OF y]] field_order.equal_sym[OF g k gk] by blast
      then have "filter (\<lambda>y. fequal g (fst y)) m = []" by (auto simp: filter_empty_conv)
      then show ?thesis using gk fg x by (simp add: map_look_def)
    next
      case gk: False
      have "\<not> fequal f g"
        using gk field_order.equal_trans[OF g f k] field_order.equal_sym[OF f g] True by blast
      then show ?thesis using gk x by (simp add: map_look_def)
    qed
    moreover have "map_ok t ?m" using Cons.prems x by (simp add: map_ok_def)
    ultimately show ?thesis using True same_key_equal[OF h f k] x by (intro exI[of _ ?m]) auto
  next
    case False
    obtain m' where m': "map_push h f tup m = Inr m'" "map_ok t m'"
      "\<And>g. comparable t g \<Longrightarrow> map_look m' g = map_look m g @ (if fequal f g then [tup] else [])"
      "\<And>y. y \<in> set m' \<Longrightarrow> fst y = f \<or> (\<exists>x \<in> set m. fst x = fst y)"
      using Cons.IH[OF m] by blast
    have "\<not> fequal k (fst y)" if "y \<in> set m'" for y
      using m'(4)[OF that] apart False field_order.equal_sym[OF k f] by auto
    then have "map_ok t ((k, ts) # m')" using m'(2) k by (auto simp: map_ok_def)
    then show ?thesis using m'(1,3,4) False same_key_equal[OF h f k] x
      by (intro exI[of _ "(k, ts) # m'"]) (auto simp: map_look_def)
  qed
qed

interpretation join_map: multi_index "\<lambda>m. hash_respects_eq h \<and> map_ok t m" "comparable t" fequal "map_push h"
  "\<lambda>m f. rbind (map_find h m f) (\<lambda>r. Inr (hits r))" map_look for h t
  using map_push_look map_find_look by unfold_locales blast+

text \<open>The rows of the outer table whose key equals the key of an inner row, for each inner row in turn.\<close>

definition hash_rows :: "nat \<Rightarrow> nat \<Rightarrow> tuple list \<Rightarrow> tuple list \<Rightarrow> tuple list" where
  "hash_rows oi ii xs ys = concat (map (\<lambda>y. map (\<lambda>x. Tuple (tfields x @ tfields y))
     (filter (\<lambda>x. fequal (tfields x ! oi) (tfields y ! ii)) xs)) ys)"

definition join_keys :: "FieldType \<Rightarrow> nat \<Rightarrow> tuple list \<Rightarrow> bool" where
  "join_keys ty i xs \<longleftrightarrow> (\<forall>x \<in> set xs. i < length (tfields x) \<and> comparable ty (tfields x ! i))"

locale hash_joined = outer: executer onxt oleft same + inner: executer inxt ileft same
  for onxt :: "('w, 'a) get_next" and oleft and inxt :: "('w, 'b) get_next" and ileft and same :: "'w \<Rightarrow> 'w \<Rightarrow> bool" +
  fixes h :: std_hash and ty :: FieldType and oi ii :: nat
begin

definition match_rows :: "tuple list \<Rightarrow> tuple \<Rightarrow> tuple list" where
  "match_rows xs y = filter (\<lambda>x. fequal (tfields x ! oi) (tfields y ! ii)) xs"

definition holds_rows :: "tuple list \<Rightarrow> join_map \<Rightarrow> bool" where
  "holds_rows xs m \<longleftrightarrow> (\<forall>f. comparable ty f \<longrightarrow>
     rbind (map_find h m f) (\<lambda>r. Inr (hits r)) = Inr (filter (\<lambda>x. fequal (tfields x ! oi) f) xs))"

lemma build_hash_rows:
  assumes "oleft w a xs" "length xs < k" "join_keys ty oi xs" and h: "hash_respects_eq h"
  shows "\<exists>m b u. build_hash k h onxt oi w a [] = Inr (m, b, u) \<and> same w u \<and> holds_rows xs m"
proof -
  have build: "\<exists>b u. build_hash k h onxt oi w a m = rbind (rfold (\<lambda>q. map_push h (fst q) (snd q)) (map (\<lambda>x. (tfields x ! oi, x)) xs) m)
      (\<lambda>m. Inr (m, b, u)) \<and> same w u"
    if "oleft w a xs" "length xs < k" "join_keys ty oi xs" for w a m
    using that
  proof (induction xs arbitrary: w a m k)
    case Nil
    then obtain k' b u where "k = Suc k'" "onxt w a = Inr (None, b, u)" "same w u" using outer.at_end[of w a] by (cases k) auto
    then show ?case by auto
  next
    case (Cons x xs)
    then obtain k' b u where k: "k = Suc k'" "onxt w a = Inr (Some x, b, u)" "same w u" "oleft u b xs"
      using outer.at_row[of w a x xs] by (cases k) auto
    have "join_keys ty oi xs" "oi < length (tfields x)" using Cons.prems(3) by (simp_all add: join_keys_def)
    then have step: "\<exists>c v. build_hash k' h onxt oi u b m' = rbind (rfold (\<lambda>q. map_push h (fst q) (snd q)) (map (\<lambda>x. (tfields x ! oi, x)) xs) m')
        (\<lambda>m. Inr (m, c, v)) \<and> same w v" for m'
      using Cons.IH[OF k(4), of k' m'] k(1) Cons.prems(2) outer.same_trans[OF k(3)] by auto
    show ?case
    proof (cases "map_push h (tfields x ! oi) x m")
      case (Inl e)
      then show ?thesis using k(1-3) \<open>oi < length (tfields x)\<close> by auto
    next
      case (Inr m')
      then show ?thesis using k(1,2) \<open>oi < length (tfields x)\<close> step[of m'] by simp
    qed
  qed
  have ok: "hash_respects_eq h \<and> map_ok ty []" using h by (simp add: map_ok_def)
  have keys: "\<forall>q \<in> set (map (\<lambda>x. (tfields x ! oi, x)) xs). comparable ty (fst q)" using assms(3) by (auto simp: join_keys_def)
  obtain m where m: "rfold (\<lambda>q. map_push h (fst q) (snd q)) (map (\<lambda>x. (tfields x ! oi, x)) xs) [] = Inr m"
    "\<And>f. comparable ty f \<Longrightarrow> rbind (map_find h m f) (\<lambda>r. Inr (hits r)) =
      Inr (map_look [] f @ map snd (filter (\<lambda>q. fequal (fst q) f) (map (\<lambda>x. (tfields x ! oi, x)) xs)))"
    using join_map.insert_all[OF ok keys] by blast
  have "holds_rows xs m" unfolding holds_rows_def
    using m(2) by (simp add: map_look_def filter_map comp_def)
  with build[OF assms(1-3), of "[]"] m(1) show ?thesis by auto
qed

definition probing :: "nat \<Rightarrow> tuple list \<Rightarrow> tuple list \<Rightarrow> 'w \<Rightarrow> 'b \<Rightarrow> hash_join \<Rightarrow> bool" where
  "probing K xs ys w b j \<longleftrightarrow> ileft w b ys \<and> length ys < K \<and> join_keys ty ii ys \<and> holds_rows xs (hash_map j) \<and>
     is_hash_built j \<and> join_keys ty ii [curr_inner_tuple j]"

definition hash_left :: "nat \<Rightarrow> 'w \<Rightarrow> 'a \<times> 'b \<times> hash_join \<Rightarrow> tuple list \<Rightarrow> bool" where
  "hash_left K w st zs \<longleftrightarrow> (case st of (a, b, j) \<Rightarrow>
     (\<exists>xs ys. hash_respects_eq h \<and> \<not> is_hash_built j \<and> hash_map j = [] \<and> tuple_index j = 0 \<and> oleft w a xs \<and> ileft w b ys \<and>
        length xs < K \<and> length ys < K \<and> join_keys ty oi xs \<and> join_keys ty ii ys \<and> zs = hash_rows oi ii xs ys) \<or>
     (\<exists>xs ys. probing K xs ys w b j \<and>
        zs = map (\<lambda>x. Tuple (tfields x @ tfields (curr_inner_tuple j))) (drop (tuple_index j) (match_rows xs (curr_inner_tuple j))) @
          hash_rows oi ii xs ys))"

lemma probe_rows:
  assumes "probing K xs ys w b j" "length ys < k" "f = tfields (curr_inner_tuple j) ! ii"
    and "zs = map (\<lambda>x. Tuple (tfields x @ tfields (curr_inner_tuple j))) (drop (tuple_index j) (match_rows xs (curr_inner_tuple j))) @
      hash_rows oi ii xs ys"
  shows "\<exists>r c j' u. hash_probe k h inxt ii f w (b, j) = Inr (r, (c, j'), u) \<and> same w u \<and>
    (case zs of [] \<Rightarrow> r = None | z # zs' \<Rightarrow> r = Some z \<and> (\<forall>a. hash_left K u (a, c, j') zs'))"
  using assms
proof (induction k arbitrary: ys w b j f zs)
  case (Suc k)
  let ?y = "curr_inner_tuple j"
  have f: "comparable ty f" using Suc.prems(1,3) by (simp add: probing_def join_keys_def)
  then obtain r where r: "map_find h (hash_map j) f = Inr r" "hits r = match_rows xs ?y"
    using Suc.prems(1,3) by (auto simp: probing_def holds_rows_def match_rows_def rbind_eq_Inr)
  show ?case
  proof (cases "tuple_index j < length (match_rows xs ?y)")
    case True
    let ?j = "j\<lparr>tuple_index := tuple_index j + 1\<rparr>"
    let ?zs = "map (\<lambda>x. Tuple (tfields x @ tfields ?y)) (drop (Suc (tuple_index j)) (match_rows xs ?y)) @ hash_rows oi ii xs ys"
    have "zs = Tuple (tfields (match_rows xs ?y ! tuple_index j) @ tfields ?y) # ?zs"
      using True Suc.prems(4) by (simp flip: Cons_nth_drop_Suc)
    moreover have "hash_left K w (a, b, ?j) ?zs" for a using Suc.prems(1) by (auto simp: hash_left_def probing_def)
    moreover have "same w w" using Suc.prems(1) inner.same_refl by (auto simp: probing_def)
    ultimately show ?thesis using True r by simp
  next
    case False
    then have zs: "zs = hash_rows oi ii xs ys" using Suc.prems(4) by simp
    show ?thesis
    proof (cases ys)
      case Nil
      then obtain c u where "inxt w b = Inr (None, c, u)" "same w u"
        using inner.at_end[of w b] Suc.prems(1) by (auto simp: probing_def)
      then show ?thesis using False r zs Nil by (simp add: hash_rows_def)
    next
      case (Cons y ys')
      then obtain c u where u: "inxt w b = Inr (Some y, c, u)" "same w u" "ileft u c ys'"
        using inner.at_row[of w b y ys'] Suc.prems(1) by (auto simp: probing_def)
      let ?j = "j\<lparr>tuple_index := 0, curr_inner_tuple := y\<rparr>"
      have p: "probing K xs ys' u c ?j" and y: "ii < length (tfields y)"
        using Suc.prems(1) u(3) Cons by (auto simp: probing_def join_keys_def)
      have "zs = map (\<lambda>x. Tuple (tfields x @ tfields y)) (match_rows xs y) @ hash_rows oi ii xs ys'"
        using zs Cons by (simp add: hash_rows_def match_rows_def)
      then obtain r' d j' v where "hash_probe k h inxt ii (tfields y ! ii) u (c, ?j) = Inr (r', (d, j'), v)" "same u v"
        "case zs of [] \<Rightarrow> r' = None | z # zs' \<Rightarrow> r' = Some z \<and> (\<forall>a. hash_left K v (a, d, j') zs')"
        using Suc.IH[OF p, of "tfields y ! ii" zs] Suc.prems(2) Cons by auto
      then show ?thesis using False r u(1) y inner.same_trans[OF u(2)] by auto
    qed
  qed
qed simp

lemma hash_getNext_rows:
  assumes "hash_left K w st zs"
  shows "\<exists>r st' u. HashJoin_getNext K h onxt inxt oi ii w st = Inr (r, st', u) \<and> same w u \<and>
    (case zs of [] \<Rightarrow> r = None | z # zs' \<Rightarrow> r = Some z \<and> hash_left K u st' zs')"
proof -
  obtain a b j where st: "st = (a, b, j)" by (cases st)
  have probe: "\<exists>r st' v. rbind (vec_at (tfields (curr_inner_tuple j)) ii) (\<lambda>f. rbind (hash_probe K h inxt ii f u (b, j))
        (\<lambda>(x, (b, j), w). Inr (x, (a, b, j), w))) = Inr (r, st', v) \<and> same w v \<and>
      (case zs of [] \<Rightarrow> r = None | z # zs' \<Rightarrow> r = Some z \<and> hash_left K v st' zs')"
    if p: "probing K xs ys u b j" and w: "same w u" and zs: "zs = map (\<lambda>x. Tuple (tfields x @ tfields (curr_inner_tuple j)))
        (drop (tuple_index j) (match_rows xs (curr_inner_tuple j))) @ hash_rows oi ii xs ys" for xs ys u a b j
  proof -
    have y: "ii < length (tfields (curr_inner_tuple j))" "length ys < K" using p by (auto simp: probing_def join_keys_def)
    obtain r c j' v where "hash_probe K h inxt ii (tfields (curr_inner_tuple j) ! ii) u (b, j) = Inr (r, (c, j'), v)" "same u v"
      "case zs of [] \<Rightarrow> r = None | z # zs' \<Rightarrow> r = Some z \<and> (\<forall>a. hash_left K v (a, c, j') zs')"
      using probe_rows[OF p y(2) refl zs] by blast
    then show ?thesis using y(1) inner.same_trans[OF w] by (auto split: list.splits)
  qed
  show ?thesis
  proof (cases "is_hash_built j")
    case True
    then obtain xs ys where p: "probing K xs ys w b j" and zs: "zs = map (\<lambda>x. Tuple (tfields x @ tfields (curr_inner_tuple j)))
        (drop (tuple_index j) (match_rows xs (curr_inner_tuple j))) @ hash_rows oi ii xs ys"
      using assms st by (auto simp: hash_left_def)
    moreover have "same w w" using p inner.same_refl by (auto simp: probing_def)
    ultimately show ?thesis using probe[OF p _ zs] True st by (simp add: HashJoin_getNext_def hash_build_phase_def)
  next
    case False
    then obtain xs ys where h: "hash_respects_eq h" and l: "hash_map j = []" "tuple_index j = 0" "oleft w a xs" "ileft w b ys" "length xs < K" "length ys < K"
      "join_keys ty oi xs" "join_keys ty ii ys" "zs = hash_rows oi ii xs ys"
      using assms st by (auto simp: hash_left_def probing_def)
    obtain m c u where u: "build_hash K h onxt oi w a [] = Inr (m, c, u)" "same w u" "holds_rows xs m"
      using build_hash_rows[OF l(3,5,7) h] by blast
    have b: "ileft u b ys" by (rule inner.undisturbed[OF l(4) u(2)])
    show ?thesis
    proof (cases ys)
      case Nil
      then obtain d v where "inxt u b = Inr (None, d, v)" "same u v" using inner.at_end b by blast
      then show ?thesis using False st l(1,9) u(1) inner.same_trans[OF u(2)] Nil
        by (auto simp: HashJoin_getNext_def hash_build_phase_def hash_rows_def Let_def)
    next
      case (Cons y ys')
      then obtain d v where v: "inxt u b = Inr (Some y, d, v)" "same u v" "ileft v d ys'" using inner.at_row b by blast
      let ?j = "j\<lparr>hash_map := m, is_hash_built := True, curr_inner_tuple := y\<rparr>"
      have p: "probing K xs ys' v d ?j" using l(6,8) v(3) u(3) Cons by (auto simp: probing_def join_keys_def)
      have "zs = map (\<lambda>x. Tuple (tfields x @ tfields (curr_inner_tuple ?j)))
          (drop (tuple_index ?j) (match_rows xs (curr_inner_tuple ?j))) @ hash_rows oi ii xs ys'"
        using l(2,9) Cons by (simp add: hash_rows_def match_rows_def)
      from probe[OF p inner.same_trans[OF u(2) v(2)] this, of c] False st l(1) u(1) v(1) show ?thesis
        by (simp add: HashJoin_getNext_def hash_build_phase_def Let_def)
    qed
  qed
qed

lemma hash_join_executer: "executer (HashJoin_getNext K h onxt inxt oi ii) (hash_left K) same"
proof unfold_locales
  fix w u :: 'w and st :: "'a \<times> 'b \<times> hash_join" and x xs
  show "hash_left K w st [] \<Longrightarrow> \<exists>b u. HashJoin_getNext K h onxt inxt oi ii w st = Inr (None, b, u) \<and> same w u"
    using hash_getNext_rows by fastforce
  show "hash_left K w st (x # xs) \<Longrightarrow> \<exists>b u. HashJoin_getNext K h onxt inxt oi ii w st = Inr (Some x, b, u) \<and> same w u \<and> hash_left K u b xs"
    using hash_getNext_rows by fastforce
  show "hash_left K u st xs" if l: "hash_left K w st xs" and s: "same w u"
  proof -
    have "probing K xs ys u b j" if "probing K xs ys w b j" for xs ys b j
      using that inner.undisturbed[OF _ s] by (auto simp: probing_def)
    then show ?thesis using l outer.undisturbed[OF _ s] inner.undisturbed[OF _ s]
      unfolding hash_left_def by (cases st) (simp, blast)
  qed
  show "hash_left K w st xs \<Longrightarrow> same w w" using inner.same_refl unfolding hash_left_def probing_def by (cases st) (simp, blast)
qed (rule inner.same_trans)

end

interpretation scan_hash_join: hash_joined "scan_next k t" "scan_left k n t p0 ps es v" "scan_next k' t'" "scan_left k' n t' p0' ps' es' v'"
  "same_pages n" h ty oi ii for k t n p0 ps es v k' t' p0' ps' es' v' h ty oi ii
  by unfold_locales

interpretation hash_join: executer "HashJoin_getNext K h (scan_next k t) (scan_next k' t') oi ii"
  "scan_hash_join.hash_left k n t p0 ps es v k' t' p0' ps' es' v' h ty oi ii K" "same_pages n"
  for K k t n p0 ps es v k' t' p0' ps' es' v' h ty oi ii
  by (rule scan_hash_join.hash_join_executer)

interpretation loop_join: executer "NestedLoopJoin_getNext (Suc K) (scan_next k t) (scan_next k' t') (scan_open t') (Suc isz)"
  "scan_join.nlj_left k n t p0 ps es v k' t' p0' ps' es' v' jt isz sch p K" "same_pages n"
  for K k t n p0 ps es v k' t' p0' ps' es' v' jt isz sch p
  by (rule scan_join.nested_loop_executer)

end
