(* ===== verification/Query.thy ===== *)
theory Query imports Joins
begin

text \<open>
  From a bound \<^verbatim>\<open>SELECT\<close> to its executers: bound expressions (src/Binder/BoundExpression.c++,
  BoundSelectStatement.c++), plans and the planner (src/QueryPlan/Plans.c++, Planner.c++), and
  \<^verbatim>\<open>ExecutorFactory::createExecutor\<close> with the builders of predicates (src/Executer/ExecuterFactory.c++).
  A plan names tables by id; the context of the binder gives the name and the alias of a table, the
  catalog its heap. Scans hold a pointer to the heap, here its name in the catalog, because an alias
  renames the heap itself.
\<close>

section \<open>Bound expressions\<close>

datatype BoundOperatorType = B_EQ | B_NE | B_GT | B_GE | B_LT | B_LE | B_AND | B_OR | B_NOT | B_ADD | B_SUB | B_MUL | B_DIV

datatype AggregateType = COUNT | SUM | AVG | MAX | MIN

text \<open>The union of a constant with its active member; an integer is an \<^verbatim>\<open>int64_t\<close>.\<close>

datatype bound_const = INT_CONST int | FLOAT_CONST "64 word" | BOOL_CONST bool | STR_CONST string

datatype bound_expr =
    BoundColumnRef int int string string FieldType
  | BoundConstant bound_const
  | BoundBinary "bound_expr option" BoundOperatorType "bound_expr option" FieldType
  | BoundFunction string AggregateType "bound_expr option" FieldType

datatype JoinType = INNER | LEFT | RIGHT

record bound_select =
  select_list :: "bound_expr list"
  from_table :: int
  joins :: "(JoinType \<times> int \<times> bound_expr option) list"
  where_clause :: "bound_expr option"
  limit_clause :: "bound_expr option"
  offset_clause :: "bound_expr option"

section \<open>Plans\<close>

datatype plan =
    SeqScanPlan int
  | FilterPlan bound_expr plan
  | ProjectionPlan "bound_expr list" plan
  | LimitPlan "bound_expr option" "bound_expr option" plan
  | JoinPlan JoinType "bound_expr option" plan plan

text \<open>
  \<^verbatim>\<open>Planner::PlanSelect\<close> of a statement without \<^verbatim>\<open>GROUP BY\<close> and \<^verbatim>\<open>ORDER BY\<close>, whose steps lie between
  these two: the tables, the joins and the \<^verbatim>\<open>WHERE\<close> clause, then the limit and the projection.
\<close>

definition plan_output :: "bound_select \<Rightarrow> plan \<Rightarrow> plan" where
  "plan_output st plan =
     (let plan = (if limit_clause st \<noteq> None \<or> offset_clause st \<noteq> None
                  then LimitPlan (limit_clause st) (offset_clause st) plan else plan)
      in ProjectionPlan (select_list st) plan)"

definition PlanSelect :: "bound_select \<Rightarrow> plan" where
  "PlanSelect st =
     (let plan = foldl (\<lambda>p (jt, oid, c). JoinPlan jt c p (SeqScanPlan oid)) (SeqScanPlan (from_table st)) (joins st);
          plan = (case where_clause st of None \<Rightarrow> plan | Some e \<Rightarrow> FilterPlan e plan)
      in plan_output st plan)"

section \<open>Executers\<close>

record world =
  pool :: bpm
  heaps :: "string \<rightharpoonup> table_heap"

datatype executer =
    E_SeqScan string seq_scan
  | E_Select executer select_op
  | E_Projection executer "string list" "column list" "nat list"
  | E_Limit executer limit_op
  | E_Join executer executer nested_loop_join

definition get_heap :: "world \<Rightarrow> string \<Rightarrow> table_heap res" where
  "get_heap w name = get_or_ub (heaps w name)"

fun get_output_schema :: "executer \<Rightarrow> column list" where
  "get_output_schema (E_SeqScan name sc) = scan_schema sc"
| "get_output_schema (E_Select c op) = get_output_schema c"
| "get_output_schema (E_Projection c names sch ixs) = sch"
| "get_output_schema (E_Limit c op) = get_output_schema c"
| "get_output_schema (E_Join a b j) = nl_output_schema j"

fun has_column :: "world \<Rightarrow> executer \<Rightarrow> string \<Rightarrow> bool res" where
  "has_column w (E_SeqScan name sc) col = rbind (get_heap w name) (\<lambda>t. Inr (seq_has_column t sc col))"
| "has_column w e col = Inr (list_ex (\<lambda>c. col_name c = col) (get_output_schema e))"

fun exec_open :: "world \<Rightarrow> executer \<Rightarrow> executer res" where
  "exec_open w (E_SeqScan name sc) = rbind (get_heap w name) (\<lambda>t. Inr (E_SeqScan name (seq_open t)))"
| "exec_open w (E_Select c op) = rbind (exec_open w c) (\<lambda>c. Inr (E_Select c op))"
| "exec_open w (E_Projection c names sch ixs) = rbind (exec_open w c) (\<lambda>c.
     let (sch, ixs) = project_open names (get_output_schema c) in Inr (E_Projection c names sch ixs))"
| "exec_open w (E_Limit c op) = rbind (exec_open w c) (\<lambda>c. Inr (E_Limit c op))"
| "exec_open w (E_Join a b j) = rbind (exec_open w a) (\<lambda>a. rbind (exec_open w b) (\<lambda>b.
     Inr (E_Join a b (j\<lparr>nl_output_schema := get_output_schema a @ get_output_schema b\<rparr>))))"

text \<open>\<^verbatim>\<open>dynamic_cast<SeqScan*>\<close> and \<^verbatim>\<open>get_prev_rid\<close>.\<close>

definition scan_prev_rid :: "executer \<Rightarrow> rid option" where
  "scan_prev_rid e = (case e of E_SeqScan name sc \<Rightarrow> Some (prev_rid sc) | _ \<Rightarrow> None)"

text \<open>The virtual call of \<^verbatim>\<open>getNext\<close>; the fuel bounds the loops and the depth of the calls.\<close>

fun exec_getNext :: "nat \<Rightarrow> (world, executer) get_next" where
  "exec_getNext 0 w e = Inl Diverges"
| "exec_getNext (Suc k) w e = (case e of
     E_SeqScan name sc \<Rightarrow> rbind (get_heap w name) (\<lambda>t. rbind (seq_getNext k (pool w) t sc) (\<lambda>(x, sc, s).
       Inr (x, E_SeqScan name sc, w\<lparr>pool := s\<rparr>)))
   | E_Select c op \<Rightarrow> rbind (Select_getNext k (exec_getNext k) scan_prev_rid (get_output_schema c) w (c, op)) (\<lambda>(x, (c, op), w).
       Inr (x, E_Select c op, w))
   | E_Projection c names sch ixs \<Rightarrow> rbind (Projection_getNext (exec_getNext k) ixs w c) (\<lambda>(x, c, w).
       Inr (x, E_Projection c names sch ixs, w))
   | E_Limit c op \<Rightarrow> rbind (Limit_getNext (exec_getNext k) w (c, op)) (\<lambda>(x, (c, op), w). Inr (x, E_Limit c op, w))
   | E_Join a b j \<Rightarrow> rbind (NestedLoopJoin_getNext k (exec_getNext k) (exec_getNext k)
         (\<lambda>w b. rbind (exec_open w b) (\<lambda>b. Inr (b, w))) (length (get_output_schema b)) w (a, b, j)) (\<lambda>(x, (a, b, j), w).
       Inr (x, E_Join a b j, w)))"

section \<open>Predicates from expressions\<close>

definition cast_int :: "int \<Rightarrow> int" where
  "cast_int v = i32_val (i32_bytes v)"

definition const_to_col :: "bound_const \<Rightarrow> column res" where
  "const_to_col c = (case c of
     INT_CONST v \<Rightarrow> Column_field (Field_int TYPE_INT (cast_int v)) ''_const_int_'' 4
   | FLOAT_CONST v \<Rightarrow> Column_field (Field_double TYPE_FLOAT v) ''_const_float_'' 8
   | BOOL_CONST v \<Rightarrow> Column_field (Field_bool TYPE_BOOL v) ''_const_bool_'' 1
   | STR_CONST v \<Rightarrow> rbind (Field_str TYPE_STRING (v @ [NUL])) (\<lambda>f. Column_field f ''_const_str_'' (int (length v))))"

definition expr_to_col :: "bound_expr option \<Rightarrow> executer \<Rightarrow> column res" where
  "expr_to_col e child = rbind (get_or_ub e) (\<lambda>e. case e of
     BoundColumnRef t i tn cn ty \<Rightarrow> vec_at_int (get_output_schema child) i
   | BoundConstant c \<Rightarrow> const_to_col c
   | BoundFunction fn ft a ty \<Rightarrow> (case a of None \<Rightarrow> Inr (Column ty [] 4)
       | Some (BoundColumnRef t i tn cn ty') \<Rightarrow> Inr (Column ty (fn @ ''('' @ cn @ '')'') 4) | _ \<Rightarrow> Inl Undefined)
   | BoundBinary l op r ty \<Rightarrow> Inl (Throw ''invalid expression''))"

definition expr_to_join_col :: "world \<Rightarrow> bound_expr option \<Rightarrow> executer \<Rightarrow> executer \<Rightarrow> column res" where
  "expr_to_join_col w e l r = (case e of
     None \<Rightarrow> Inl (Throw ''Expression is null'')
   | Some (BoundColumnRef t i tn cn ty) \<Rightarrow>
       (let res_col_name = tn @ ''.'' @ cn in
        rbind (has_column w l res_col_name) (\<lambda>hl.
        rbind (if hl then Inr (Some l) else rbind (has_column w r res_col_name) (\<lambda>hr. Inr (if hr then Some r else None))) (\<lambda>target.
        case target of None \<Rightarrow> Inl (Throw ''column is not found ....'')
        | Some c \<Rightarrow> if i < 0 \<or> int (length (get_output_schema c)) \<le> i then Inl (Throw ''invlaid col oid'')
            else Inr (setColName (get_output_schema c ! nat i) res_col_name))))
   | Some (BoundConstant c) \<Rightarrow> const_to_col c
   | Some _ \<Rightarrow> Inl (Throw ''Unsupported join expression''))"

fun op_predicate :: "BoundOperatorType \<Rightarrow> PredicateType option" where
  "op_predicate B_EQ = Some P_EQ" | "op_predicate B_NE = Some P_NE" | "op_predicate B_GT = Some P_GT"
| "op_predicate B_GE = Some P_GE" | "op_predicate B_LT = Some P_LT" | "op_predicate B_LE = Some P_LE"
| "op_predicate _ = None"

definition null_pred :: "predicate option \<Rightarrow> predicate" where
  "null_pred p = (case p of None \<Rightarrow> NullPredicate | Some p \<Rightarrow> p)"

fun build_predicate :: "bound_expr option \<Rightarrow> executer \<Rightarrow> predicate option res" where
  "build_predicate None child = Inr None"
| "build_predicate (Some (BoundBinary l op r ty)) child =
     (if op = B_AND \<or> op = B_OR then
        rbind (build_predicate l child) (\<lambda>p. rbind (build_predicate r child) (\<lambda>q.
        Inr (Some (ComplexPredicate (null_pred p) q (if op = B_AND then C_AND else C_OR)))))
      else if op = B_NOT then
        rbind (build_predicate l child) (\<lambda>p. Inr (Some (ComplexPredicate (null_pred p) None C_NOT)))
      else (case op_predicate op of
        None \<Rightarrow> Inl (Throw ''Unsupported predicate operator'')
      | Some t \<Rightarrow> rbind (expr_to_col l child) (\<lambda>x. rbind (expr_to_col r child) (\<lambda>y. Inr (Some (Predicate x y t))))))"
| "build_predicate (Some e) child = Inl (Throw ''predicate has to be binary'')"

definition build_join_predicate :: "world \<Rightarrow> bound_expr option \<Rightarrow> executer \<Rightarrow> executer \<Rightarrow> predicate option res" where
  "build_join_predicate w e l r = (case e of
     None \<Rightarrow> Inr None
   | Some (BoundBinary x op y ty) \<Rightarrow>
       if op = B_EQ \<or> op = B_NE \<or> op = B_GT then
         rbind (expr_to_join_col w x l r) (\<lambda>a. rbind (expr_to_join_col w y l r) (\<lambda>b.
         Inr (Some (Predicate a b (the (op_predicate op))))))
       else Inl (Throw ''unsupported join predicate'')
   | Some _ \<Rightarrow> Inl (Throw ''Join predicate must be binary''))"

section \<open>Executers from plans\<close>

record bound_table =
  bt_name :: string
  bt_alias :: string

text \<open>An unknown id gives a table without name and alias, as \<^verbatim>\<open>operator[]\<close> of a map does.\<close>

definition getBoundTable :: "(int \<rightharpoonup> bound_table) \<Rightarrow> int \<Rightarrow> bound_table" where
  "getBoundTable ctx oid = (case ctx oid of None \<Rightarrow> \<lparr>bt_name = '''', bt_alias = ''''\<rparr> | Some t \<Rightarrow> t)"

definition create_scan :: "(int \<rightharpoonup> bound_table) \<Rightarrow> int \<Rightarrow> world \<Rightarrow> (executer \<times> world) res" where
  "create_scan ctx oid w =
     (let bt = getBoundTable ctx oid; name = bt_name bt in
      rbind (get_heap w name) (\<lambda>t.
      let t = (if bt_alias bt = '''' then t else t\<lparr>table_name := bt_alias bt\<rparr>); w = w\<lparr>heaps := (heaps w)(name \<mapsto> t)\<rparr> in
      rbind (rassert (cols t \<noteq> [])) (\<lambda>_. Inr (E_SeqScan name (seq_open t), w))))"

text \<open>The names of the columns of a \<^verbatim>\<open>SELECT\<close> list.\<close>

definition item_name :: "bound_expr \<Rightarrow> string res" where
  "item_name e = (case e of
     BoundColumnRef t i tn cn ty \<Rightarrow> Inr (tn @ ''.'' @ cn)
   | BoundFunction fn ft a ty \<Rightarrow> (case a of Some (BoundColumnRef t i tn cn ty') \<Rightarrow> Inr (fn @ ''('' @ cn @ '')'')
       | _ \<Rightarrow> Inl (Throw ''agg argument is not a column''))
   | _ \<Rightarrow> Inl (Throw ''unsupported projection expression''))"

text \<open>Without an \<^verbatim>\<open>OFFSET\<close> the pointer to its column is never initialised, and reading it is undefined.\<close>

definition create_limit :: "bound_expr option \<Rightarrow> bound_expr option \<Rightarrow> executer \<Rightarrow> executer res" where
  "create_limit lim off child =
     rbind (expr_to_col lim child) (\<lambda>l.
     case off of None \<Rightarrow> Inl Undefined
     | Some e \<Rightarrow> rbind (expr_to_col (Some e) child) (\<lambda>o'. rbind (Limit l (Some o')) (\<lambda>op. Inr (E_Limit child op))))"

text \<open>The join type of the plan is not used. The constructors of \<^verbatim>\<open>Select\<close>, \<^verbatim>\<open>Projection\<close> and the join open themselves.\<close>

fun createExecutor :: "(int \<rightharpoonup> bound_table) \<Rightarrow> plan \<Rightarrow> world \<Rightarrow> (executer \<times> world) res" where
  "createExecutor ctx (SeqScanPlan oid) w = create_scan ctx oid w"
| "createExecutor ctx (ProjectionPlan items c) w =
     rbind (createExecutor ctx c w) (\<lambda>(child, w).
     rbind (rmap item_name items) (\<lambda>names.
     rbind (exec_open w (E_Projection child names [] [])) (\<lambda>e. Inr (e, w))))"
| "createExecutor ctx (LimitPlan lim off c) w =
     rbind (createExecutor ctx c w) (\<lambda>(child, w). rbind (create_limit lim off child) (\<lambda>e. Inr (e, w)))"
| "createExecutor ctx (FilterPlan p c) w =
     rbind (createExecutor ctx c w) (\<lambda>(child, w).
     rbind (build_predicate (Some p) child) (\<lambda>q.
     rbind (exec_open w (E_Select child (Select (null_pred q)))) (\<lambda>e. Inr (e, w))))"
| "createExecutor ctx (JoinPlan jt c l r) w =
     rbind (createExecutor ctx l w) (\<lambda>(left_child, w).
     rbind (createExecutor ctx r w) (\<lambda>(right_child, w).
     rbind (build_join_predicate w c left_child right_child) (\<lambda>p.
     rbind (exec_open w (E_Join left_child right_child
       (NestedLoopJoin (null_pred p) INNER_JOIN (get_output_schema left_child) (get_output_schema right_child)))) (\<lambda>e.
     Inr (e, w)))))"

text \<open>The main loop: plan, create, open, fetch until the end.\<close>

definition run_select :: "nat \<Rightarrow> nat \<Rightarrow> (int \<rightharpoonup> bound_table) \<Rightarrow> bound_select \<Rightarrow> world \<Rightarrow> (tuple list \<times> world) res" where
  "run_select m k ctx st w =
     rbind (createExecutor ctx (PlanSelect st) w) (\<lambda>(e, w).
     rbind (exec_open w e) (\<lambda>e. rbind (drain m (exec_getNext k) w e) (\<lambda>(xs, e, w). Inr (xs, w))))"

end
