(* ===== verification/Join_Props.thy ===== *)
theory Join_Props imports Joins "HOL-Library.Multiset"
begin

text \<open>
  What a filter over a scan and the two joins of two tables return. Both tables live in one buffer pool, so
  that reading one of them evicts pages of the other; the rows are those of the pages at the start.
\<close>

definition pair_schema :: "table_heap \<Rightarrow> table_heap \<Rightarrow> column list" where
  "pair_schema t t' = scan_schema (seq_open t) @ scan_schema (seq_open t')"

definition in_pool :: "bpm \<Rightarrow> nat \<Rightarrow> table_heap \<Rightarrow> nat \<Rightarrow> nat list \<Rightarrow> (nat \<Rightarrow> entry list) \<Rightarrow> nat \<Rightarrow> tuple list \<Rightarrow> bool" where
  "in_pool s n t p0 ps es k xs \<longleftrightarrow> table_wf s n t p0 ps es \<and> scan_ready t ps es \<and> scan_fuel ps es < k \<and> xs = table_rows (view s) ps es"

lemma in_pool_left:
  assumes "in_pool s n t p0 ps es k xs"
  shows "scan_left k n t p0 ps es (view s) s (seq_open t) xs" "scan_again k n t p0 ps es (view s) s sc xs"
  using assms scan_left_open[of s n t p0 ps es k "view s"] by (auto simp: in_pool_def scan_again_def)

lemma in_pool_same: "in_pool s n t p0 ps es k xs \<Longrightarrow> same_pages n s u \<Longrightarrow> table_wf u n t p0 ps es"
  unfolding in_pool_def same_pages_def by (blast intro: table_wf_same[of s n t p0 ps es u n, OF _ _ order_refl])

lemma scan_schema_length [simp]: "length (scan_schema (seq_open t)) = length (cols t)"
  by (simp add: seq_open_def)

section \<open>Nested loops\<close>

lemma loop_join_drain:
  assumes t: "in_pool s n t p0 ps es k xs" and t': "in_pool s n t' p0' ps' es' k' ys"
    and j: "joinable (pair_schema t t') p xs ys" and c: "cols t' \<noteq> []"
    and K: "Suc (length xs) * (length ys + 2) < K" and m: "length (join_rows jt (length (cols t')) (pair_schema t t') p xs ys) < m"
  shows "\<exists>st u. drain m (NestedLoopJoin_getNext (Suc K) (scan_next k t) (scan_next k' t') (scan_open t') (length (cols t'))) s
      (seq_open t, seq_open t', NestedLoopJoin p jt (scan_schema (seq_open t)) (scan_schema (seq_open t'))) =
      Inr (join_rows jt (length (cols t')) (pair_schema t t') p xs ys, st, u) \<and> same_pages n s u"
proof -
  obtain isz where isz: "length (cols t') = Suc isz" using c by (cases "cols t'") auto
  let ?j = "NestedLoopJoin p jt (scan_schema (seq_open t)) (scan_schema (seq_open t'))"
  have "scan_join.join_inv k n t p0 ps es (view s) k' t' p0' ps' es' (view s) jt (pair_schema t t') p K xs ys s (seq_open t, seq_open t', ?j)"
    using in_pool_left[OF t] in_pool_left[OF t'] j K
    by (simp add: scan_join.join_inv_def NestedLoopJoin_def pair_schema_def same_pred_refl)
  moreover have "scan_join.at_outer jt isz s (seq_open t, seq_open t', ?j) []"
    by (simp add: scan_join.at_outer_def NestedLoopJoin_def unmatched_rows_def)
  ultimately have "scan_join.nlj_left k n t p0 ps es (view s) k' t' p0' ps' es' (view s) jt isz (pair_schema t t') p K s
      (seq_open t, seq_open t', ?j) (join_rows jt (Suc isz) (pair_schema t t') p xs ys)"
    unfolding scan_join.nlj_left_def by fastforce
  from loop_join.drain_left[OF this] m show ?thesis unfolding isz by blast
qed

text \<open>
  C7. A nested loop join of two tables returns, for each row of the outer table in turn, its
  concatenations with the inner rows for which the condition holds; a left or full join adds the outer row
  padded with \<^verbatim>\<open>NULL\<close> strings when none does; a right or full join adds, for every pair that does not match,
  the inner row padded on the left, not only for inner rows without any match.
\<close>

theorem nested_loop_join_rows:
  assumes "in_pool s n t p0 ps es k xs" "in_pool s n t' p0' ps' es' k' ys" "joinable (pair_schema t t') p xs ys" "cols t' \<noteq> []"
    and "Suc (length xs) * (length ys + 2) < K" "length (join_rows jt (length (cols t')) (pair_schema t t') p xs ys) < m"
  shows "\<exists>st u. drain m (NestedLoopJoin_getNext (Suc K) (scan_next k t) (scan_next k' t') (scan_open t') (length (cols t'))) s
      (seq_open t, seq_open t', NestedLoopJoin p jt (scan_schema (seq_open t)) (scan_schema (seq_open t'))) =
      Inr (concat (map (\<lambda>x. concat (map (pair_rows jt (pair_schema t t') p x) ys) @
        unmatched_rows jt (length (cols t')) x (list_ex (matches (pair_schema t t') p x) ys)) xs), st, u) \<and>
    table_wf u n t p0 ps es \<and> table_wf u n t' p0' ps' es'"
  using loop_join_drain[OF assms] in_pool_same[OF assms(1)] in_pool_same[OF assms(2)]
  unfolding join_rows_def outer_rows_def by blast

section \<open>Hash join\<close>

lemma hash_join_drain:
  assumes t: "in_pool s n t p0 ps es k xs" and t': "in_pool s n t' p0' ps' es' k' ys"
    and h: "hash_respects_eq h" and keys: "join_keys ty oi xs" "join_keys ty ii ys"
    and K: "length xs < K" "length ys < K" and m: "length (hash_rows oi ii xs ys) < m"
  shows "\<exists>st u. drain m (HashJoin_getNext K h (scan_next k t) (scan_next k' t') oi ii) s (seq_open t, seq_open t', HashJoin) =
      Inr (hash_rows oi ii xs ys, st, u) \<and> same_pages n s u"
proof -
  have "scan_hash_join.hash_left k n t p0 ps es (view s) k' t' p0' ps' es' (view s) h ty oi ii K s
      (seq_open t, seq_open t', HashJoin) (hash_rows oi ii xs ys)"
    unfolding scan_hash_join.hash_left_def
    using in_pool_left[OF t] in_pool_left[OF t'] h keys K by (auto simp: HashJoin_def)
  from hash_join.drain_left[OF this m] show ?thesis .
qed

lemma find_field_nth:
  "distinct (map col_name sch) \<Longrightarrow> length sch \<le> length fs \<Longrightarrow> i < length sch \<Longrightarrow>
   find_field sch fs (col_name (sch ! i)) acc = Inr (Some (fs ! i))"
proof (induction sch arbitrary: fs i acc)
  case (Cons c sch)
  then obtain f fs' where fs: "fs = f # fs'" by (cases fs) auto
  show ?case
  proof (cases i)
    case 0
    then show ?thesis using Cons.prems fs by (simp add: find_field_absent image_iff)
  next
    case (Suc i')
    then have "col_name c \<noteq> col_name (sch ! i')" using Cons.prems nth_mem[of i' sch] by auto
    then show ?thesis using Suc Cons fs by simp
  qed
qed simp

text \<open>The condition of an equi-join on column \<open>oi\<close> of one table and \<open>ii\<close> of the other.\<close>

definition equi_join :: "table_heap \<Rightarrow> table_heap \<Rightarrow> nat \<Rightarrow> nat \<Rightarrow> predicate" where
  "equi_join t t' oi ii = Predicate (scan_schema (seq_open t) ! oi) (scan_schema (seq_open t') ! ii) P_EQ"

definition plain_names :: "column list \<Rightarrow> bool" where
  "plain_names sch \<longleftrightarrow> distinct (map col_name sch) \<and> (\<forall>c \<in> set sch. \<not> const_name (col_name c))"

lemma equi_join_holds:
  assumes n: "plain_names (pair_schema t t')" and i: "oi < length (cols t)" "ii < length (cols t')"
    and x: "length (tfields x) = length (cols t)" "comparable ty (tfields x ! oi)"
    and y: "length (tfields y) = length (cols t')" "comparable ty (tfields y ! ii)"
  shows "holds (pair_schema t t') (equi_join t t' oi ii) (tfields x @ tfields y) = fequal (tfields x ! oi) (tfields y ! ii)"
    and "well_typed (pair_schema t t') (equi_join t t' oi ii) (tfields x @ tfields y)"
proof -
  let ?sch = "pair_schema t t'" and ?fs = "tfields x @ tfields y"
  have op: "operand ?sch ?fs (?sch ! i) = Some (?fs ! i)" if "i < length ?sch" for i
  proof -
    have "length ?sch \<le> length ?fs" using x(1) y(1) by (simp add: pair_schema_def)
    then have "find_field ?sch ?fs (col_name (?sch ! i)) None = Inr (Some (?fs ! i))"
      using n that by (intro find_field_nth) (simp_all add: plain_names_def)
    moreover have "\<not> const_name (col_name (?sch ! i))" using n that nth_mem[of i ?sch] by (auto simp: plain_names_def)
    ultimately show ?thesis by (simp add: operand_def)
  qed
  have nth: "?sch ! oi = scan_schema (seq_open t) ! oi" "?sch ! (length (cols t) + ii) = scan_schema (seq_open t') ! ii"
    "?fs ! oi = tfields x ! oi" "?fs ! (length (cols t) + ii) = tfields y ! ii"
    using i x(1) y(1) by (simp_all add: pair_schema_def nth_append)
  have "operand ?sch ?fs (scan_schema (seq_open t) ! oi) = Some (tfields x ! oi)"
    "operand ?sch ?fs (scan_schema (seq_open t') ! ii) = Some (tfields y ! ii)"
    using op[of oi] op[of "length (cols t) + ii"] i unfolding nth by (simp_all add: pair_schema_def)
  with x(2) y(2) show "holds ?sch (equi_join t t' oi ii) ?fs = fequal (tfields x ! oi) (tfields y ! ii)"
    and "well_typed ?sch (equi_join t t' oi ii) ?fs"
    by (auto simp: equi_join_def leaf_holds_def compareValues_def)
qed

lemma mset_concat_append: "mset (concat (map (\<lambda>y. f y @ g y) ys)) = mset (concat (map f ys)) + mset (concat (map g ys))"
  by (induction ys) simp_all

lemma mset_concat_swap:
  "mset (concat (map (\<lambda>x. concat (map (f x) ys)) xs)) = mset (concat (map (\<lambda>y. concat (map (\<lambda>x. f x y) xs)) ys))"
  by (induction xs) (simp_all add: mset_concat_append)

lemma concat_if: "concat (map (\<lambda>x. if P x then [f x] else []) xs) = map f (filter P xs)"
  by (induction xs) simp_all

text \<open>
  C10. On two tables and an equality of two columns without nulls the hash join returns the same rows as
  the nested loop join, as often as it does, in the order of the inner table instead of the outer one.
\<close>

theorem hash_join_equals_nested_loops:
  assumes t: "in_pool s n t p0 ps es k xs" and t': "in_pool s n t' p0' ps' es' k' ys"
    and names: "plain_names (pair_schema t t')" and i: "oi < length (cols t)" "ii < length (cols t')"
    and len: "\<forall>x \<in> set xs. length (tfields x) = length (cols t)" "\<forall>y \<in> set ys. length (tfields y) = length (cols t')"
    and keys: "join_keys ty oi xs" "join_keys ty ii ys" and h: "hash_respects_eq h"
    and K: "Suc (length xs) * (length ys + 2) < K" and m: "length xs * length ys < m"
  shows "\<exists>zs zs' st st' u u'.
    drain m (HashJoin_getNext K h (scan_next k t) (scan_next k' t') oi ii) s (seq_open t, seq_open t', HashJoin) = Inr (zs, st, u) \<and>
    drain m (NestedLoopJoin_getNext (Suc K) (scan_next k t) (scan_next k' t') (scan_open t') (length (cols t'))) s
      (seq_open t, seq_open t', NestedLoopJoin (equi_join t t' oi ii) INNER_JOIN (scan_schema (seq_open t)) (scan_schema (seq_open t'))) =
      Inr (zs', st', u') \<and>
    mset zs = mset zs' \<and> zs = hash_rows oi ii xs ys"
proof -
  let ?p = "equi_join t t' oi ii" and ?sch = "pair_schema t t'"
  let ?row = "\<lambda>x y. if fequal (tfields x ! oi) (tfields y ! ii) then [Tuple (tfields x @ tfields y)] else []"
  have holds: "holds ?sch ?p (tfields x @ tfields y) = fequal (tfields x ! oi) (tfields y ! ii)"
    "well_typed ?sch ?p (tfields x @ tfields y)" if "x \<in> set xs" "y \<in> set ys" for x y
    using equi_join_holds[OF names i, of x ty y] len keys that unfolding join_keys_def by blast+
  have "tfields x \<noteq> []" if "x \<in> set xs" for x using len(1) i(1) that by force
  moreover have "tfields y \<noteq> []" if "y \<in> set ys" for y using len(2) i(2) that by force
  ultimately have j: "joinable ?sch ?p xs ys" using holds(2) by (auto simp: joinable_def)
  have "outer_rows INNER_JOIN (length (cols t')) ?sch ?p ys x = concat (map (?row x) ys)" if "x \<in> set xs" for x
    using holds(1)[OF that] by (auto simp: outer_rows_def unmatched_rows_def pair_rows_def intro!: arg_cong[of _ _ concat])
  then have rows: "join_rows INNER_JOIN (length (cols t')) ?sch ?p xs ys = concat (map (\<lambda>x. concat (map (?row x) ys)) xs)"
    unfolding join_rows_def by (metis (no_types, lifting) map_cong)
  have hrows: "hash_rows oi ii xs ys = concat (map (\<lambda>y. concat (map (\<lambda>x. ?row x y) xs)) ys)"
    unfolding hash_rows_def by (simp add: concat_if)
  have eq: "mset (hash_rows oi ii xs ys) = mset (join_rows INNER_JOIN (length (cols t')) ?sch ?p xs ys)"
    unfolding rows hrows by (rule mset_concat_swap[symmetric])
  have "length (hash_rows oi ii xs ys) \<le> length xs * length ys"
    unfolding hash_rows_def by (induction ys) (simp_all add: add_le_mono)
  then have l: "length (hash_rows oi ii xs ys) < m" using m by simp
  have "length xs < K" "length ys < K" using K by (auto intro: le_less_trans[OF _ K])
  from hash_join_drain[OF t t' h keys this l] loop_join_drain[OF t t' j _ K, of INNER_JOIN m] l i(2) eq
    mset_eq_length[OF eq] show ?thesis by fastforce
qed

section \<open>Filter, limit and projection\<close>

interpretation filtered: executer "Select_getNext k' (scan_next k t) prev sch" "scan.select_left k n t p0 ps es v sch p k'" "same_pages n"
  for k' k t prev sch n p0 ps es v p
  by (rule scan.select_executer)

interpretation limited: executer "Limit_getNext (Select_getNext k' (scan_next k t) prev sch)"
  "filtered.limit_left k n t p0 ps es v sch p k'" "same_pages n"
  for k' k t prev sch n p0 ps es v p
  by (rule filtered.limit_executer)

interpretation projected: executer "Projection_getNext (Limit_getNext (Select_getNext k' (scan_next k t) prev sch)) ixs"
  "limited.project_left k n t p0 ps es v sch p k' ixs" "same_pages n"
  for k' k t prev sch n p0 ps es v p ixs
  by (rule limited.project_executer)

lemma project_open_less: "i \<in> set (snd (project_open names sch)) \<Longrightarrow> i < length sch"
  by (auto simp: project_open_def Let_def split: if_splits)

text \<open>
  The operators of \<^verbatim>\<open>SELECT cols FROM t WHERE p LIMIT n OFFSET o\<close>, stacked as the planner does, return
  the rows of the table for which the condition holds, without the first \<open>o\<close> and at most \<open>n\<close> of them, each
  cut to the named columns, and leave the table as it was.
\<close>

lemma select_limit_project_rows:
  assumes t: "in_pool s n t p0 ps es k xs" and ty: "\<forall>x \<in> set xs. well_typed sch p (tfields x) \<and> length (tfields x) = length sch"
    and k: "length xs < k'" and m: "length xs < m"
  shows "\<exists>st u. drain m (Projection_getNext (Limit_getNext (Select_getNext k' (scan_next k t) prev sch)) (snd (project_open names sch))) s
      ((seq_open t, Select p), \<lparr>lim_limit = l, lim_offset = off, skipped = 0, returned = 0\<rparr>) =
      Inr (map (\<lambda>x. Tuple (map (\<lambda>i. tfields x ! i) (snd (project_open names sch))))
        (take (nat l) (drop (nat off) (filter (\<lambda>x. holds sch p (tfields x)) xs))), st, u) \<and> table_wf u n t p0 ps es"
proof -
  let ?ixs = "snd (project_open names sch)" and ?ys = "filter (\<lambda>x. holds sch p (tfields x)) xs"
  let ?zs = "take (nat l) (drop (nat off) ?ys)"
  have "scan.select_left k n t p0 ps es (view s) sch p k' s (seq_open t, Select p) ?ys"
    unfolding scan.select_left_def using in_pool_left(1)[OF t] ty k by (auto simp: Select_def same_pred_refl)
  then have "filtered.limit_left k n t p0 ps es (view s) sch p k' s
      ((seq_open t, Select p), \<lparr>lim_limit = l, lim_offset = off, skipped = 0, returned = 0\<rparr>) ?zs"
    unfolding filtered.limit_left_def by auto
  moreover have "set ?zs \<subseteq> set xs" by (meson filter_is_subset set_drop_subset set_take_subset subset_trans)
  then have "\<forall>x \<in> set ?zs. \<forall>i \<in> set ?ixs. i < length (tfields x)" using ty project_open_less by fastforce
  ultimately have left: "limited.project_left k n t p0 ps es (view s) sch p k' ?ixs s
      ((seq_open t, Select p), \<lparr>lim_limit = l, lim_offset = off, skipped = 0, returned = 0\<rparr>)
      (map (\<lambda>x. Tuple (map (\<lambda>i. tfields x ! i) ?ixs)) ?zs)"
    unfolding limited.project_left_def by blast
  have "length ?zs \<le> length ?ys" by simp
  also have "\<dots> \<le> length xs" by (rule length_filter_le)
  finally have "length ?zs \<le> length xs" .
  then have "length (map (\<lambda>x. Tuple (map (\<lambda>i. tfields x ! i) ?ixs)) ?zs) < m" using m by simp
  from projected.drain_left[OF left this] in_pool_same[OF t] show ?thesis by blast
qed

section \<open>Witnesses\<close>

definition demo_users :: "table_heap \<Rightarrow> string \<Rightarrow> table_heap" where
  "demo_users t name = t\<lparr>table_name := name, cols := [Column TYPE_INT ''id'' 4, Column TYPE_BOOL ''ok'' 1]\<rparr>"

lemma demo_users_simps [simp]: "table_name (demo_users t name) = name" "length (cols (demo_users t name)) = 2"
  by (simp_all add: demo_users_def)

lemma demo_users_schema:
  "scan_schema (seq_open (demo_users t name)) = [Column TYPE_INT (name @ ''.id'') 4, Column TYPE_BOOL (name @ ''.ok'') 1]"
  by (simp add: seq_open_def demo_users_def setColName_def Column_def)

lemma demo_users_names: "plain_names (pair_schema (demo_users t ''a'') (demo_users t ''b''))"
  by (simp add: pair_schema_def demo_users_schema plain_names_def Column_def const_name_def upt_rec)

lemma demo_in_pool:
  "\<exists>s t es. \<forall>name. in_pool s 2 (demo_users t name) 1 [2] es 4 [demo_tuple]"
proof -
  obtain s t e where t: "table_wf s 2 t 1 [2] (\<lambda>p. if p = 2 then [e] else [])" "visible e"
    "starting_rid t = RID 2 0" "stopping_rid t = RID 2 0" "e_tuple e = demo_tuple" using demo_reopened by blast
  let ?es = "\<lambda>p :: nat. if p = 2 then [e] else []"
  have "tuple_eqv (e_tuple e) (stored_row (view s 2) e)" using stored_row_eqv[OF table_wfD(9)[OF t(1)], of 2 e] by simp
  then have "stored_row (view s 2) e = demo_tuple"
    using tuple_eqv_non_null t(5) by (fastforce simp: demo_tuple_def Tuple_def Field_int_def Field_bool_def)
  then have "table_rows (view s) [2] ?es = [demo_tuple]" using t(2) by (simp add: table_rows_def paged_def shown_def row_of_def)
  moreover have "table_wf s 2 (demo_users t name) 1 [2] ?es" for name using t(1) by (simp add: table_wf_def demo_users_def)
  moreover have "scan_ready (demo_users t name) [2] ?es" for name
    using t(3,4) unfolding scan_ready_def demo_users_def
    by (intro conjI disjI2 exI[of _ "[]"] exI[of _ 2] exI[of _ 0]) simp_all
  ultimately have "\<forall>name. in_pool s 2 (demo_users t name) 1 [2] ?es 4 [demo_tuple]" by (simp add: in_pool_def scan_fuel_def)
  then show ?thesis by blast
qed

lemma demo_keys: "join_keys TYPE_INT 0 [demo_tuple]" "length (tfields demo_tuple) = 2" "fequal (tfields demo_tuple ! 0) (tfields demo_tuple ! 0)"
  by (simp_all add: join_keys_def demo_tuple_def Tuple_def Field_int_def comparable_def field_ok_def no_nan_def active_ok_iff
      in_i32_def fequal_def fless_def)

lemma nested_loop_join_rows_witness:
  "\<exists>s (t :: table_heap) (t' :: table_heap) st u.
     drain 2 (NestedLoopJoin_getNext 8 (scan_next 4 t) (scan_next 4 t') (scan_open t') 2) s
       (seq_open t, seq_open t', NestedLoopJoin (equi_join t t' 0 0) FULL_JOIN (scan_schema (seq_open t)) (scan_schema (seq_open t'))) =
     Inr ([Tuple (tfields demo_tuple @ tfields demo_tuple)], st, u) \<and> table_name t = ''a'' \<and> table_name t' = ''b''"
proof -
  obtain s t es where t: "\<And>name. in_pool s 2 (demo_users t name) 1 [2] es 4 [demo_tuple]" using demo_in_pool by blast
  let ?a = "demo_users t ''a''" and ?b = "demo_users t ''b''"
  have c: "length (cols ?a) = 2" "length (cols ?b) = 2" "cols ?b \<noteq> []" by (simp_all flip: length_greater_0_conv)
  have e: "holds (pair_schema ?a ?b) (equi_join ?a ?b 0 0) (tfields demo_tuple @ tfields demo_tuple)"
    "well_typed (pair_schema ?a ?b) (equi_join ?a ?b 0 0) (tfields demo_tuple @ tfields demo_tuple)"
    using equi_join_holds[OF demo_users_names[of t], of 0 0 demo_tuple TYPE_INT demo_tuple] demo_keys c by (simp_all add: join_keys_def)
  have "tfields demo_tuple \<noteq> []" using demo_keys(2) by auto
  then have j: "joinable (pair_schema ?a ?b) (equi_join ?a ?b 0 0) [demo_tuple] [demo_tuple]" using e(2) by (simp add: joinable_def)
  have l: "length (join_rows FULL_JOIN (length (cols ?b)) (pair_schema ?a ?b) (equi_join ?a ?b 0 0) [demo_tuple] [demo_tuple]) < 2"
    using e(1) by (simp add: join_rows_def outer_rows_def pair_rows_def unmatched_rows_def matches_def)
  have K: "Suc (length [demo_tuple]) * (length [demo_tuple] + 2) < 7" by simp
  from nested_loop_join_rows[OF t t j c(3) K l] e(1) c(2) show ?thesis
    by (intro exI[of _ s] exI[of _ ?a] exI[of _ ?b]) (auto simp: pair_rows_def unmatched_rows_def matches_def)
qed

lemma hash_join_equals_nested_loops_witness:
  "\<exists>h s (t :: table_heap) (t' :: table_heap) zs zs' st st' u u'.
     drain 2 (HashJoin_getNext 7 h (scan_next 4 t) (scan_next 4 t') 0 0) s (seq_open t, seq_open t', HashJoin) = Inr (zs, st, u) \<and>
     drain 2 (NestedLoopJoin_getNext 8 (scan_next 4 t) (scan_next 4 t') (scan_open t') 2) s
       (seq_open t, seq_open t', NestedLoopJoin (equi_join t t' 0 0) INNER_JOIN (scan_schema (seq_open t)) (scan_schema (seq_open t'))) =
     Inr (zs', st', u') \<and> mset zs = mset zs' \<and> zs = [Tuple (tfields demo_tuple @ tfields demo_tuple)]"
proof -
  obtain s t es where t: "\<And>name. in_pool s 2 (demo_users t name) 1 [2] es 4 [demo_tuple]" using demo_in_pool by blast
  let ?a = "demo_users t ''a''" and ?b = "demo_users t ''b''"
  let ?h = "\<lparr>hash_int = \<lambda>i. nat i, hash_float = \<lambda>_. 0, hash_bool = \<lambda>_. 0, hash_string = length\<rparr>"
  have c: "0 < length (cols ?a)" "0 < length (cols ?b)" "length (cols ?b) = 2" by simp_all
  have len: "\<forall>x \<in> set [demo_tuple]. length (tfields x) = length (cols ?a)" "\<forall>x \<in> set [demo_tuple]. length (tfields x) = length (cols ?b)"
    using demo_keys(2) by simp_all
  have h: "hash_respects_eq ?h" by (simp add: hash_respects_eq_def)
  have K: "Suc (length [demo_tuple]) * (length [demo_tuple] + 2) < 7" "length [demo_tuple] * length [demo_tuple] < 2" by simp_all
  have "hash_rows 0 0 [demo_tuple] [demo_tuple] = [Tuple (tfields demo_tuple @ tfields demo_tuple)]"
    using demo_keys(3) by (simp add: hash_rows_def)
  with hash_join_equals_nested_loops[OF t t demo_users_names c(1,2) len demo_keys(1) demo_keys(1) h K] c(3) show ?thesis
    by (simp, blast)
qed

lemma select_limit_project_rows_witness:
  "\<exists>s (t :: table_heap) p st u.
     drain 2 (Projection_getNext (Limit_getNext (Select_getNext 2 (scan_next 4 t) (\<lambda>sc. Some (prev_rid sc)) (scan_schema (seq_open t)))) [1]) s
       ((seq_open t, Select p), \<lparr>lim_limit = 5, lim_offset = 0, skipped = 0, returned = 0\<rparr>) =
     Inr ([Tuple [Field_bool TYPE_BOOL True]], st, u) \<and> p = Predicate (Column TYPE_INT ''a.id'' 4) (Column TYPE_INT ''a.id'' 4) P_EQ"
proof -
  obtain s t es where t: "\<And>name. in_pool s 2 (demo_users t name) 1 [2] es 4 [demo_tuple]" using demo_in_pool by blast
  let ?a = "demo_users t ''a''" and ?p = "Predicate (Column TYPE_INT ''a.id'' 4) (Column TYPE_INT ''a.id'' 4) P_EQ"
  let ?sch = "scan_schema (seq_open ?a)"
  have op: "operand ?sch (tfields demo_tuple) (Column TYPE_INT ''a.id'' 4) = Some (tfields demo_tuple ! 0)"
    by (simp add: operand_def demo_users_schema Column_def const_name_def upt_rec demo_tuple_def Tuple_def)
  have p: "holds ?sch ?p (tfields demo_tuple)" "well_typed ?sch ?p (tfields demo_tuple)"
    using op demo_keys(1,3) by (auto simp: leaf_holds_def compareValues_def join_keys_def)
  have o: "snd (project_open [''a.ok''] ?sch) = [1]" by (simp add: project_open_def demo_users_schema Column_def)
  have ty: "\<forall>x \<in> set [demo_tuple]. well_typed ?sch ?p (tfields x) \<and> length (tfields x) = length ?sch"
    using p(2) demo_keys(2) by simp
  have f: "tfields demo_tuple ! 1 = Field_bool TYPE_BOOL True" by (simp add: demo_tuple_def Tuple_def)
  from select_limit_project_rows[OF t[of "''a''"] ty, where prev = "\<lambda>sc. Some (prev_rid sc)" and k' = 2 and m = 2 and names = "[''a.ok'']" and l = 5 and off = 0] p(1) f show ?thesis
    unfolding o by (intro exI[of _ s] exI[of _ ?a]) auto
qed

end
