(* ===== verification/Query_Props.thy ===== *)
theory Query_Props imports Query Join_Props
begin

text \<open>
  What a bound \<^verbatim>\<open>SELECT\<close> returns. The executers a plan is turned into satisfy the contract of the interface
  \<^verbatim>\<open>AbstractExecuter\<close> together, whatever their nesting, and the predicate built from a \<^verbatim>\<open>WHERE\<close> clause means
  what the clause says of a row; so the statement returns the rows relational algebra gives.
\<close>

section \<open>Trees of executers\<close>

definition world_same :: "nat \<Rightarrow> world \<Rightarrow> world \<Rightarrow> bool" where
  "world_same n w u \<longleftrightarrow> same_pages n (pool w) (pool u) \<and> heaps u = heaps w"

text \<open>The rows left of an executer with output schema \<open>sch\<close>, when each call has fuel \<open>k\<close>.\<close>

fun exec_left :: "nat \<Rightarrow> nat \<Rightarrow> column list \<Rightarrow> world \<Rightarrow> executer \<Rightarrow> tuple list \<Rightarrow> bool" where
  "exec_left n 0 sch w e xs = False"
| "exec_left n (Suc k) sch w e xs \<longleftrightarrow> get_output_schema e = sch \<and> (case e of
     E_SeqScan name sc \<Rightarrow> (\<exists>t p0 ps es v. heaps w name = Some t \<and> scan_left k n t p0 ps es v (pool w) sc xs)
   | E_Select c op \<Rightarrow> (\<exists>p. executer.select_left (exec_left n k sch) sch p k w (c, op) xs)
   | E_Projection c names sch' ixs \<Rightarrow> (\<exists>csch. executer.project_left (exec_left n k csch) ixs w c xs)
   | E_Limit c op \<Rightarrow> executer.limit_left (exec_left n k sch) w (c, op) xs
   | E_Join a b j \<Rightarrow> False)"

lemma exec_left_schema: "exec_left n k sch w e xs \<Longrightarrow> get_output_schema e = sch"
  by (cases k) simp_all

lemma world_same_trans: "world_same n w u \<Longrightarrow> world_same n u v \<Longrightarrow> world_same n w v"
  using same_pages_trans by (auto simp: world_same_def)

lemma seq_getNext_schema: "seq_getNext k s t sc = Inr (r, sc', u) \<Longrightarrow> scan_schema sc' = scan_schema sc"
proof (induction k arbitrary: s sc)
  case (Suc k)
  then show ?case
    by (simp only: seq_getNext.simps rbind_eq_Inr Let_def split_paired_all prod.case)
       (fastforce split: option.splits if_splits simp: rbind_eq_Inr)
qed simp

lemma exec_step:
  assumes ih: "\<And>sch. executer (exec_getNext k) (exec_left n k sch) (world_same n)"
    and l: "exec_left n (Suc k) sch w e xs"
  shows "\<exists>r e' u. exec_getNext (Suc k) w e = Inr (r, e', u) \<and> world_same n w u \<and>
    (case xs of [] \<Rightarrow> r = None | x # rest \<Rightarrow> r = Some x \<and> exec_left n (Suc k) sch u e' rest)"
proof (cases e)
  case (E_SeqScan name sc)
  then obtain t p0 ps es v where t: "heaps w name = Some t" "scan_left k n t p0 ps es v (pool w) sc xs" "scan_schema sc = sch"
    using l by auto
  obtain r sc' s where s: "seq_getNext k (pool w) t sc = Inr (r, sc', s)" "same_pages n (pool w) s"
    "case xs of [] \<Rightarrow> r = None | x # rest \<Rightarrow> r = Some x \<and> scan_left k n t p0 ps es v s sc' rest"
    using scan.next_left[OF t(2)] by blast
  with t E_SeqScan seq_getNext_schema[OF s(1)] show ?thesis
    by (auto simp: get_heap_def world_same_def split: list.splits)
next
  case (E_Select c op)
  then obtain p where p: "executer.select_left (exec_left n k sch) sch p k w (c, op) xs" "get_output_schema c = sch"
    using l by auto
  obtain r c' op' u where u: "Select_getNext k (exec_getNext k) scan_prev_rid sch w (c, op) = Inr (r, (c', op'), u)" "world_same n w u"
    "case xs of [] \<Rightarrow> r = None | x # rest \<Rightarrow> r = Some x \<and> executer.select_left (exec_left n k sch) sch p k u (c', op') rest"
    using executer.next_left[OF executer.select_executer[OF ih] p(1), of scan_prev_rid] by fastforce
  moreover have "get_output_schema c' = sch" if "executer.select_left (exec_left n k sch) sch p k u (c', op') rest" for rest
    using that exec_left_schema unfolding executer.select_left_def[OF ih] by auto
  ultimately show ?thesis using E_Select p(2) by (auto split: list.splits)
next
  case (E_Projection c names sch' ixs)
  then obtain csch where p: "executer.project_left (exec_left n k csch) ixs w c xs" "sch' = sch" using l by auto
  obtain r c' u where "Projection_getNext (exec_getNext k) ixs w c = Inr (r, c', u)" "world_same n w u"
    "case xs of [] \<Rightarrow> r = None | x # rest \<Rightarrow> r = Some x \<and> executer.project_left (exec_left n k csch) ixs u c' rest"
    using executer.next_left[OF executer.project_executer[OF ih] p(1)] by blast
  with E_Projection p(2) show ?thesis by (auto split: list.splits)
next
  case (E_Limit c op)
  then have p: "executer.limit_left (exec_left n k sch) w (c, op) xs" "get_output_schema c = sch" using l by auto
  obtain r c' op' u where u: "Limit_getNext (exec_getNext k) w (c, op) = Inr (r, (c', op'), u)" "world_same n w u"
    "case xs of [] \<Rightarrow> r = None | x # rest \<Rightarrow> r = Some x \<and> executer.limit_left (exec_left n k sch) u (c', op') rest"
    using executer.next_left[OF executer.limit_executer[OF ih] p(1)] by fastforce
  moreover have "get_output_schema c' = sch" if "executer.limit_left (exec_left n k sch) u (c', op') rest" for rest
    using that exec_left_schema unfolding executer.limit_left_def[OF ih] by auto
  ultimately show ?thesis using E_Limit by (auto split: list.splits)
next
  case (E_Join a b j)
  then show ?thesis using l by simp
qed

lemma exec_undisturbed:
  assumes ih: "\<And>sch. executer (exec_getNext k) (exec_left n k sch) (world_same n)"
    and l: "exec_left n (Suc k) sch w e xs"
  shows "world_same n w u \<Longrightarrow> exec_left n (Suc k) sch u e xs" and "world_same n w w"
proof -
  have "(world_same n w u \<longrightarrow> exec_left n (Suc k) sch u e xs) \<and> world_same n w w"
  proof (cases e)
    case (E_SeqScan name sc)
    then obtain t p0 ps es v where t: "heaps w name = Some t" "scan_left k n t p0 ps es v (pool w) sc xs" "scan_schema sc = sch"
      using l by auto
    have "scan_left k n t p0 ps es v (pool u) sc xs" if "world_same n w u"
      using scan.undisturbed[OF t(2)] that by (simp add: world_same_def)
    then show ?thesis using t E_SeqScan scan.same_refl[OF t(2)] by (auto simp: world_same_def)
  next
    case (E_Select c op)
    then obtain p where p: "executer.select_left (exec_left n k sch) sch p k w (c, op) xs" "get_output_schema c = sch"
      using l by auto
    show ?thesis using executer.undisturbed[OF executer.select_executer[OF ih] p(1)] executer.same_refl[OF executer.select_executer[OF ih] p(1)]
      p(2) E_Select by auto
  next
    case (E_Projection c names sch' ixs)
    then obtain csch where p: "executer.project_left (exec_left n k csch) ixs w c xs" "sch' = sch" using l by auto
    show ?thesis using executer.undisturbed[OF executer.project_executer[OF ih] p(1)] executer.same_refl[OF executer.project_executer[OF ih] p(1)]
      p(2) E_Projection by auto
  next
    case (E_Limit c op)
    then have p: "executer.limit_left (exec_left n k sch) w (c, op) xs" "get_output_schema c = sch" using l by auto
    show ?thesis using executer.undisturbed[OF executer.limit_executer[OF ih] p(1)] executer.same_refl[OF executer.limit_executer[OF ih] p(1)]
      p(2) E_Limit by auto
  next
    case (E_Join a b j)
    then show ?thesis using l by simp
  qed
  then show "world_same n w u \<Longrightarrow> exec_left n (Suc k) sch u e xs" and "world_same n w w" by blast+
qed

lemma exec_executer: "executer (exec_getNext k) (exec_left n k sch) (world_same n)"
proof (induction k arbitrary: sch)
  case 0
  show ?case by unfold_locales (auto intro: world_same_trans)
next
  case (Suc k)
  show ?case
  proof unfold_locales
    fix w u e x xs
    show "exec_left n (Suc k) sch w e [] \<Longrightarrow> \<exists>b u. exec_getNext (Suc k) w e = Inr (None, b, u) \<and> world_same n w u"
      using exec_step[OF Suc] by fastforce
    show "exec_left n (Suc k) sch w e (x # xs) \<Longrightarrow> \<exists>b u. exec_getNext (Suc k) w e = Inr (Some x, b, u) \<and>
        world_same n w u \<and> exec_left n (Suc k) sch u b xs"
      using exec_step[OF Suc] by fastforce
    show "exec_left n (Suc k) sch w e xs \<Longrightarrow> world_same n w u \<Longrightarrow> exec_left n (Suc k) sch u e xs"
      by (rule exec_undisturbed(1)[OF Suc])
    show "exec_left n (Suc k) sch w e xs \<Longrightarrow> world_same n w w"
      by (rule exec_undisturbed(2)[OF Suc])
  qed (rule world_same_trans)
qed

interpretation exec: executer "exec_getNext k" "exec_left n k sch" "world_same n" for k n sch
  by (rule exec_executer)

section \<open>The meaning of a WHERE clause\<close>

definition const_field :: "bound_const \<Rightarrow> field" where
  "const_field c = (case c of INT_CONST v \<Rightarrow> Field_int TYPE_INT (cast_int v) | FLOAT_CONST v \<Rightarrow> Field_double TYPE_FLOAT v
    | BOOL_CONST v \<Rightarrow> Field_bool TYPE_BOOL v
    | STR_CONST v \<Rightarrow> (let s = takeWhile (\<lambda>c. c \<noteq> NUL) v in
        \<lparr>fieldType = TYPE_STRING, fsize = int (length s), is_null = False, fval = VALUE_STRING (Some (s @ [NUL]))\<rparr>))"

definition where_value :: "field list \<Rightarrow> bound_expr option \<Rightarrow> field option" where
  "where_value fs e = (case e of
     Some (BoundColumnRef t i tn cn ty) \<Rightarrow> if 0 \<le> i \<and> i < int (length fs) then Some (fs ! nat i) else None
   | Some (BoundConstant c) \<Rightarrow> Some (const_field c) | _ \<Rightarrow> None)"

fun where_true :: "bound_expr option \<Rightarrow> field list \<Rightarrow> bool" where
  "where_true (Some (BoundBinary l op r ty)) fs =
     (if op = B_AND then where_true l fs \<and> where_true r fs
      else if op = B_OR then where_true l fs \<or> where_true r fs
      else if op = B_NOT then \<not> where_true l fs
      else leaf_holds (the (op_predicate op)) (the (where_value fs l)) (the (where_value fs r)))"
| "where_true e fs = False"

text \<open>A clause the factory accepts, for a table of \<open>m\<close> columns, and a row its comparisons are typed for.\<close>

definition operand_ok :: "nat \<Rightarrow> bound_expr option \<Rightarrow> bool" where
  "operand_ok m e = (case e of Some (BoundColumnRef t i tn cn ty) \<Rightarrow> 0 \<le> i \<and> i < int m | Some (BoundConstant c) \<Rightarrow> True | _ \<Rightarrow> False)"

fun where_ok :: "nat \<Rightarrow> bound_expr option \<Rightarrow> bool" where
  "where_ok m (Some (BoundBinary l op r ty)) =
     (if op = B_AND \<or> op = B_OR then where_ok m l \<and> where_ok m r
      else if op = B_NOT then where_ok m l
      else op_predicate op \<noteq> None \<and> operand_ok m l \<and> operand_ok m r)"
| "where_ok m e = False"

fun where_typed :: "bound_expr option \<Rightarrow> field list \<Rightarrow> bool" where
  "where_typed (Some (BoundBinary l op r ty)) fs =
     (if op = B_AND \<or> op = B_OR then where_typed l fs \<and> where_typed r fs
      else if op = B_NOT then where_typed l fs
      else \<exists>t. comparable t (the (where_value fs l)) \<and> comparable t (the (where_value fs r)))"
| "where_typed e fs = False"

lemma takeWhile_snoc_NUL: "takeWhile (\<lambda>c. c \<noteq> NUL) (v @ [NUL]) = takeWhile (\<lambda>c. c \<noteq> NUL) v"
  by (induction v) simp_all

lemma const_to_col_field:
  "\<exists>col. const_to_col c = Inr col \<and> cfield col = Some (const_field c) \<and> const_name (col_name col)"
proof (cases c)
  case (STR_CONST v)
  let ?s = "takeWhile (\<lambda>c. c \<noteq> NUL) v"
  have "c_str (v @ [NUL]) = Inr ?s" by (simp add: c_str_def takeWhile_snoc_NUL)
  moreover have "c_str (?s @ [NUL]) = Inr ?s"
    by (rule c_str_terminated) (auto dest: set_takeWhileD)
  ultimately show ?thesis using STR_CONST
    by (simp add: const_to_col_def const_field_def Field_str_def Column_field_def Field_copy_def copy_array_def Let_def
        const_name_def upt_rec)
qed (simp_all add: const_to_col_def const_field_def Column_field_def Field_copy_def const_name_def upt_rec
      Field_int_def Field_double_def Field_bool_def)

lemma expr_to_col_operand:
  assumes n: "plain_names sch" and c: "get_output_schema child = sch" and e: "operand_ok (length sch) e"
  shows "\<exists>col. expr_to_col e child = Inr col \<and> (\<forall>fs. length fs = length sch \<longrightarrow> operand sch fs col = where_value fs e)"
proof -
  obtain e' where e': "e = Some e'" using e by (cases e) (auto simp: operand_ok_def)
  show ?thesis
  proof (cases e')
    case (BoundColumnRef t i tn cn ty)
    then have i: "0 \<le> i" "nat i < length sch" using e e' by (auto simp: operand_ok_def)
    have "operand sch fs (sch ! nat i) = Some (fs ! nat i)" if "length fs = length sch" for fs
    proof -
      have "find_field sch fs (col_name (sch ! nat i)) None = Inr (Some (fs ! nat i))"
        using n i that by (intro find_field_nth) (simp_all add: plain_names_def)
      moreover have "\<not> const_name (col_name (sch ! nat i))" using n i nth_mem[of "nat i" sch] by (auto simp: plain_names_def)
      ultimately show ?thesis by (simp add: operand_def)
    qed
    then show ?thesis using BoundColumnRef e' c i by (simp add: expr_to_col_def where_value_def vec_at_int_def)
  next
    case (BoundConstant v)
    obtain col where col: "const_to_col v = Inr col" "cfield col = Some (const_field v)" "const_name (col_name col)"
      using const_to_col_field by blast
    have "col_name col \<notin> col_name ` set sch" using n col(3) by (auto simp: plain_names_def)
    then have "operand sch fs col = where_value fs e" for fs
      using col BoundConstant e' by (simp add: operand_def find_field_absent where_value_def)
    with col(1) BoundConstant e' show ?thesis by (simp add: expr_to_col_def)
  qed (use e e' in \<open>simp_all add: operand_ok_def\<close>)
qed

lemma where_value_some: "operand_ok m e \<Longrightarrow> length fs = m \<Longrightarrow> \<exists>f. where_value fs e = Some f"
  by (auto simp: operand_ok_def where_value_def split: option.splits bound_expr.splits)

text \<open>The predicate the factory builds holds of a row exactly when the clause is true of it.\<close>

lemma build_predicate_where:
  assumes n: "plain_names sch" and c: "get_output_schema child = sch" and e: "where_ok m e" "m = length sch"
  shows "\<exists>p. build_predicate e child = Inr (Some p) \<and>
    (\<forall>fs. length fs = length sch \<longrightarrow> where_typed e fs \<longrightarrow> well_typed sch p fs \<and> holds sch p fs = where_true e fs)"
  using e
proof (induction m e rule: where_ok.induct)
  case (1 m l op r ty)
  let ?ok = "\<lambda>e p. \<forall>fs. length fs = length sch \<longrightarrow> where_typed e fs \<longrightarrow> well_typed sch p fs \<and> holds sch p fs = where_true e fs"
  consider "op = B_AND \<or> op = B_OR" | "op = B_NOT" | "op \<noteq> B_AND" "op \<noteq> B_OR" "op \<noteq> B_NOT" by blast
  then show ?case
  proof cases
    case 1
    then obtain p q where "build_predicate l child = Inr (Some p)" "?ok l p" "build_predicate r child = Inr (Some q)" "?ok r q"
      using "1.IH"(1,2) "1.prems" by auto
    then show ?thesis using 1 by (auto simp: null_pred_def)
  next
    case 2
    then obtain p where "build_predicate l child = Inr (Some p)" "?ok l p" using "1.IH"(3) "1.prems" by auto
    then show ?thesis using 2 by (auto simp: null_pred_def)
  next
    case 3
    then obtain t where t: "op_predicate op = Some t" "operand_ok (length sch) l" "operand_ok (length sch) r" using "1.prems" by auto
    obtain x y where x: "expr_to_col l child = Inr x" "\<And>fs. length fs = length sch \<Longrightarrow> operand sch fs x = where_value fs l"
      and y: "expr_to_col r child = Inr y" "\<And>fs. length fs = length sch \<Longrightarrow> operand sch fs y = where_value fs r"
      using expr_to_col_operand[OF n c t(2)] expr_to_col_operand[OF n c t(3)] by blast
    have "well_typed sch (Predicate x y t) fs \<and> holds sch (Predicate x y t) fs = where_true (Some (BoundBinary l op r ty)) fs"
      if f: "length fs = length sch" "where_typed (Some (BoundBinary l op r ty)) fs" for fs
    proof -
      obtain a b where "where_value fs l = Some a" "where_value fs r = Some b"
        using where_value_some[OF t(2)] where_value_some[OF t(3)] f(1) by blast
      then show ?thesis using f(2) 3 t(1) x(2)[OF f(1)] y(2)[OF f(1)] by simp
    qed
    then show ?thesis using 3 t(1) x(1) y(1) by simp
  qed
qed simp_all

section \<open>Building the executers of a statement\<close>

text \<open>An executer that was built and opened, with the rows it returns when each call has fuel \<open>K\<close> or more.\<close>

definition built :: "nat \<Rightarrow> nat \<Rightarrow> column list \<Rightarrow> world \<Rightarrow> executer \<Rightarrow> tuple list \<Rightarrow> bool" where
  "built n K sch w e xs \<longleftrightarrow> exec_open w e = Inr e \<and> get_output_schema e = sch \<and> (\<forall>k \<ge> K. exec_left n k sch w e xs)"

lemma built_Suc: "built n (Suc K) sch w e xs \<longleftrightarrow> exec_open w e = Inr e \<and> get_output_schema e = sch \<and>
    (\<forall>k \<ge> K. exec_left n (Suc k) sch w e xs)"
  unfolding built_def by (metis Suc_le_D Suc_le_mono)

lemma built_scan:
  assumes "heaps w name = Some t" "in_pool (pool w) n t p0 ps es K xs"
  shows "built n (Suc K) (scan_schema (seq_open t)) w (E_SeqScan name (seq_open t)) xs"
  unfolding built_Suc
proof (intro conjI allI impI)
  fix k assume "K \<le> k"
  then have "in_pool (pool w) n t p0 ps es k xs" using assms(2) by (simp add: in_pool_def)
  then have "scan_left k n t p0 ps es (view (pool w)) (pool w) (seq_open t) xs" by (rule in_pool_left(1))
  then show "exec_left n (Suc k) (scan_schema (seq_open t)) w (E_SeqScan name (seq_open t)) xs" using assms(1) by auto
qed (use assms(1) in \<open>simp_all add: get_heap_def\<close>)

lemma built_filter:
  assumes b: "built n K sch w c xs" and n: "plain_names sch" and e: "where_ok (length sch) (Some e)"
    and ty: "\<forall>x \<in> set xs. length (tfields x) = length sch \<and> where_typed (Some e) (tfields x)"
  shows "\<exists>f. rbind (build_predicate (Some e) c) (\<lambda>q. rbind (exec_open w (E_Select c (Select (null_pred q)))) (\<lambda>e. Inr (e, w))) = Inr (f, w) \<and>
    built n (Suc (max K (Suc (length xs)))) sch w f (filter (\<lambda>x. where_true (Some e) (tfields x)) xs)"
proof -
  have c: "exec_open w c = Inr c" "get_output_schema c = sch" using b by (auto simp: built_def)
  obtain p where p: "build_predicate (Some e) c = Inr (Some p)"
    "\<And>fs. length fs = length sch \<Longrightarrow> where_typed (Some e) fs \<Longrightarrow> well_typed sch p fs \<and> holds sch p fs = where_true (Some e) fs"
    using build_predicate_where[OF n c(2) e refl] by blast
  let ?f = "E_Select c (Select p)"
  have "filter (\<lambda>x. holds sch p (tfields x)) xs = filter (\<lambda>x. where_true (Some e) (tfields x)) xs"
    using p(2) ty by (intro filter_cong) auto
  then have "executer.select_left (exec_left n k sch) sch p k w (c, Select p) (filter (\<lambda>x. where_true (Some e) (tfields x)) xs)"
    if "max K (Suc (length xs)) \<le> k" for k
    unfolding exec.select_left_def using b that p(2) ty
    by (intro exI[of _ xs]) (auto simp: built_def Select_def same_pred_refl)
  then have "built n (Suc (max K (Suc (length xs)))) sch w ?f (filter (\<lambda>x. where_true (Some e) (tfields x)) xs)"
    unfolding built_Suc using c by auto
  then show ?thesis using p(1) c by (simp add: null_pred_def)
qed

lemma built_limit:
  assumes b: "built n K sch w c xs" and l: "in_i32 l" "in_i32 off"
  shows "\<exists>f. create_limit (Some (BoundConstant (INT_CONST l))) (Some (BoundConstant (INT_CONST off))) c = Inr f \<and>
    built n (Suc K) sch w f (take (nat l) (drop (nat off) xs))"
proof -
  let ?op = "\<lparr>lim_limit = l, lim_offset = off, skipped = 0, returned = 0\<rparr>"
  have "create_limit (Some (BoundConstant (INT_CONST l))) (Some (BoundConstant (INT_CONST off))) c = Inr (E_Limit c ?op)"
    using l by (simp add: create_limit_def expr_to_col_def const_to_col_def Column_field_def Field_copy_def Limit_def
        Field_int_def getFieldValueInt_def cast_int_def)
  moreover have "executer.limit_left (exec_left n k sch) w (c, ?op) (take (nat l) (drop (nat off) xs))" if "K \<le> k" for k
    unfolding exec.limit_left_def using b that by (auto simp: built_def)
  then have "built n (Suc K) sch w (E_Limit c ?op) (take (nat l) (drop (nat off) xs))"
    unfolding built_Suc using b by (auto simp: built_def)
  ultimately show ?thesis by blast
qed

lemma project_open_distinct:
  assumes "distinct (map col_name sch)" "\<forall>i \<in> set is. i < length sch"
  shows "snd (project_open (map (\<lambda>i. col_name (sch ! i)) is) sch) = is"
proof -
  have "getColIndex sch (col_name (sch ! i)) = i" if "distinct (map col_name sch)" "i < length sch" for i
    using that
  proof (induction sch arbitrary: i)
    case (Cons c sch)
    then show ?case by (cases i) (auto simp: image_iff)
  qed simp
  then show ?thesis using assms by (induction "is") (simp_all add: project_open_def Let_def)
qed

lemma built_projection:
  assumes b: "built n K sch w c xs" and n: "plain_names sch" and i: "\<forall>i \<in> set is. i < length sch"
    and ty: "\<forall>x \<in> set xs. length (tfields x) = length sch"
  shows "\<exists>f sch'. exec_open w (E_Projection c (map (\<lambda>i. col_name (sch ! i)) is) [] []) = Inr f \<and>
    built n (Suc K) sch' w f (map (\<lambda>x. Tuple (map (\<lambda>i. tfields x ! i) is)) xs)"
proof -
  let ?names = "map (\<lambda>i. col_name (sch ! i)) is"
  have c: "exec_open w c = Inr c" "get_output_schema c = sch" using b by (auto simp: built_def)
  obtain sch' where p: "project_open ?names sch = (sch', is)"
    using project_open_distinct[of sch "is"] n i by (metis plain_names_def prod.collapse)
  let ?f = "E_Projection c ?names sch' is"
  have "executer.project_left (exec_left n k sch) is w c (map (\<lambda>x. Tuple (map (\<lambda>i. tfields x ! i) is)) xs)" if "K \<le> k" for k
    unfolding exec.project_left_def using b that i ty by (auto simp: built_def)
  then have "built n (Suc K) sch' w ?f (map (\<lambda>x. Tuple (map (\<lambda>i. tfields x ! i) is)) xs)"
    unfolding built_Suc using c p by auto
  then show ?thesis using c p by auto
qed

section \<open>Statements\<close>

definition aliased :: "bound_table \<Rightarrow> table_heap \<Rightarrow> table_heap" where
  "aliased bt t = (if bt_alias bt = '''' then t else t\<lparr>table_name := bt_alias bt\<rparr>)"

lemma aliased_in_pool: "in_pool s n (aliased bt t) p0 ps es k xs \<longleftrightarrow> in_pool s n t p0 ps es k xs"
  by (simp add: aliased_def in_pool_def table_wf_def scan_ready_def)

lemma aliased_cols [simp]: "cols (aliased bt t) = cols t"
  by (simp add: aliased_def)

text \<open>What a statement means: the rows its clause is true of, cut by \<^verbatim>\<open>LIMIT\<close> and \<^verbatim>\<open>OFFSET\<close>.\<close>

definition selected :: "bound_select \<Rightarrow> tuple list \<Rightarrow> tuple list" where
  "selected st xs = (case where_clause st of None \<Rightarrow> xs | Some e \<Rightarrow> filter (\<lambda>x. where_true (Some e) (tfields x)) xs)"

definition limited :: "bound_select \<Rightarrow> tuple list \<Rightarrow> tuple list" where
  "limited st xs = (case (limit_clause st, offset_clause st) of
     (Some (BoundConstant (INT_CONST l)), Some (BoundConstant (INT_CONST off))) \<Rightarrow> take (nat l) (drop (nat off) xs) | _ \<Rightarrow> xs)"

definition clauses_ok :: "bound_select \<Rightarrow> nat \<Rightarrow> tuple list \<Rightarrow> bool" where
  "clauses_ok st m xs \<longleftrightarrow> joins st = [] \<and> (\<forall>x \<in> set xs. length (tfields x) = m) \<and>
     (\<forall>e. where_clause st = Some e \<longrightarrow> where_ok m (Some e) \<and> (\<forall>x \<in> set xs. where_typed (Some e) (tfields x))) \<and>
     (limit_clause st = None \<and> offset_clause st = None \<or>
      (\<exists>l off. limit_clause st = Some (BoundConstant (INT_CONST l)) \<and> offset_clause st = Some (BoundConstant (INT_CONST off)) \<and>
         in_i32 l \<and> in_i32 off))"

definition creates :: "nat \<Rightarrow> (int \<rightharpoonup> bound_table) \<Rightarrow> plan \<Rightarrow> world \<Rightarrow> world \<Rightarrow> column list \<Rightarrow> tuple list \<Rightarrow> bool" where
  "creates n ctx p w u sch xs \<longleftrightarrow> (\<exists>e K. createExecutor ctx p w = Inr (e, u) \<and> built n K sch u e xs)"

lemma creates_scan:
  assumes "ctx oid = Some bt" "heaps w (bt_name bt) = Some t" "in_pool (pool w) n t p0 ps es K xs" "cols t \<noteq> []"
  shows "creates n ctx (SeqScanPlan oid) w (w\<lparr>heaps := (heaps w)(bt_name bt \<mapsto> aliased bt t)\<rparr>) (scan_schema (seq_open (aliased bt t))) xs"
proof -
  let ?u = "w\<lparr>heaps := (heaps w)(bt_name bt \<mapsto> aliased bt t)\<rparr>"
  have "createExecutor ctx (SeqScanPlan oid) w = Inr (E_SeqScan (bt_name bt) (seq_open (aliased bt t)), ?u)"
    using assms(1,2,4) aliased_cols[of bt t] unfolding aliased_def by (simp add: create_scan_def getBoundTable_def get_heap_def Let_def)
  moreover have "in_pool (pool ?u) n (aliased bt t) p0 ps es K xs" using assms(3) by (simp add: aliased_in_pool)
  then have "built n (Suc K) (scan_schema (seq_open (aliased bt t))) ?u (E_SeqScan (bt_name bt) (seq_open (aliased bt t))) xs"
    by (intro built_scan) simp_all
  ultimately show ?thesis unfolding creates_def by blast
qed

lemma creates_filter:
  assumes "creates n ctx p w u sch xs" "plain_names sch" "where_ok (length sch) (Some e)"
    and "\<forall>x \<in> set xs. length (tfields x) = length sch \<and> where_typed (Some e) (tfields x)"
  shows "creates n ctx (FilterPlan e p) w u sch (filter (\<lambda>x. where_true (Some e) (tfields x)) xs)"
proof -
  obtain c K where c: "createExecutor ctx p w = Inr (c, u)" "built n K sch u c xs" using assms(1) by (auto simp: creates_def)
  show ?thesis using built_filter[OF c(2) assms(2-4)] c(1) unfolding creates_def by fastforce
qed

lemma creates_limit:
  assumes "creates n ctx p w u sch xs" "in_i32 l" "in_i32 off"
  shows "creates n ctx (LimitPlan (Some (BoundConstant (INT_CONST l))) (Some (BoundConstant (INT_CONST off))) p) w u sch
    (take (nat l) (drop (nat off) xs))"
proof -
  obtain c K where c: "createExecutor ctx p w = Inr (c, u)" "built n K sch u c xs" using assms(1) by (auto simp: creates_def)
  show ?thesis using built_limit[OF c(2) assms(2,3)] c(1) unfolding creates_def by fastforce
qed

lemma creates_projection:
  assumes "creates n ctx p w u sch xs" "plain_names sch" "\<forall>i \<in> set is. i < length sch"
    and "\<forall>x \<in> set xs. length (tfields x) = length sch" "rmap item_name items = Inr (map (\<lambda>i. col_name (sch ! i)) is)"
  shows "\<exists>sch'. creates n ctx (ProjectionPlan items p) w u sch' (map (\<lambda>x. Tuple (map (\<lambda>i. tfields x ! i) is)) xs)"
proof -
  obtain c K where c: "createExecutor ctx p w = Inr (c, u)" "built n K sch u c xs" using assms(1) by (auto simp: creates_def)
  show ?thesis using built_projection[OF c(2) assms(2-4)] c(1) assms(5) unfolding creates_def by fastforce
qed

lemma creates_select:
  assumes s: "creates n ctx (SeqScanPlan (from_table st)) w u sch xs" and ok: "clauses_ok st (length sch) xs" and n: "plain_names sch"
    and i: "\<forall>i \<in> set is. i < length sch" "rmap item_name (select_list st) = Inr (map (\<lambda>i. col_name (sch ! i)) is)"
  shows "\<exists>sch'. creates n ctx (PlanSelect st) w u sch' (map (\<lambda>x. Tuple (map (\<lambda>i. tfields x ! i) is)) (limited st (selected st xs)))"
proof -
  let ?p1 = "case where_clause st of None \<Rightarrow> SeqScanPlan (from_table st) | Some e \<Rightarrow> FilterPlan e (SeqScanPlan (from_table st))"
  let ?p2 = "if limit_clause st \<noteq> None \<or> offset_clause st \<noteq> None then LimitPlan (limit_clause st) (offset_clause st) ?p1 else ?p1"
  have p: "PlanSelect st = ProjectionPlan (select_list st) ?p2" using ok by (simp add: PlanSelect_def plan_output_def clauses_ok_def Let_def)
  have c1: "creates n ctx ?p1 w u sch (selected st xs)"
  proof (cases "where_clause st")
    case None
    then show ?thesis using s by (simp add: selected_def)
  next
    case (Some e)
    then show ?thesis using creates_filter[OF s n, of e] ok by (simp add: selected_def clauses_ok_def)
  qed
  have c2: "creates n ctx ?p2 w u sch (limited st (selected st xs))"
    using ok c1 creates_limit[OF c1] by (auto simp: clauses_ok_def limited_def)
  have "set (selected st xs) \<subseteq> set xs" by (auto simp: selected_def split: option.splits)
  moreover have "set (limited st ys) \<subseteq> set ys" for ys
    by (auto simp: limited_def split: option.splits bound_expr.splits bound_const.splits dest: in_set_takeD in_set_dropD)
  ultimately have "\<forall>x \<in> set (limited st (selected st xs)). length (tfields x) = length sch"
    using ok unfolding clauses_ok_def by blast
  then show ?thesis unfolding p by (rule creates_projection[OF c2 n i(1) _ i(2)])
qed

text \<open>
  C8. A bound \<^verbatim>\<open>SELECT\<close> on one table without grouping and ordering, planned, turned into executers and
  run by the main loop with enough fuel, returns the rows of the table its \<^verbatim>\<open>WHERE\<close> clause is true of, cut by
  its \<^verbatim>\<open>LIMIT\<close> and \<^verbatim>\<open>OFFSET\<close>, reduced to the selected columns, and leaves the table as it was.
\<close>

theorem select_statement_rows:
  assumes "ctx (from_table st) = Some bt" "heaps w (bt_name bt) = Some t" "in_pool (pool w) n t p0 ps es K xs" "cols t \<noteq> []"
    and names: "plain_names (scan_schema (seq_open (aliased bt t)))" and ok: "clauses_ok st (length (cols t)) xs"
    and i: "\<forall>i \<in> set is. i < length (cols t)"
      "rmap item_name (select_list st) = Inr (map (\<lambda>i. col_name (scan_schema (seq_open (aliased bt t)) ! i)) is)"
    and m: "length xs < m"
  shows "\<exists>K'. \<forall>k \<ge> K'. \<exists>u. run_select m k ctx st w =
      Inr (map (\<lambda>x. Tuple (map (\<lambda>i. tfields x ! i) is)) (limited st (selected st xs)), u) \<and> table_wf (pool u) n t p0 ps es"
proof -
  let ?sch = "scan_schema (seq_open (aliased bt t))" and ?u = "w\<lparr>heaps := (heaps w)(bt_name bt \<mapsto> aliased bt t)\<rparr>"
  let ?ys = "map (\<lambda>x. Tuple (map (\<lambda>i. tfields x ! i) is)) (limited st (selected st xs))"
  have "creates n ctx (SeqScanPlan (from_table st)) w ?u ?sch xs"
    using creates_scan[of ctx "from_table st" bt w t n p0 ps es K xs] assms(1-4) by simp
  then obtain sch' where "creates n ctx (PlanSelect st) w ?u sch' ?ys"
    using creates_select[of n ctx st w ?u ?sch xs "is"] ok names i by auto
  then obtain e K' where e: "createExecutor ctx (PlanSelect st) w = Inr (e, ?u)" "built n K' sch' ?u e ?ys" by (auto simp: creates_def)
  have l: "length (selected st xs) \<le> length xs" "length (limited st (selected st xs)) \<le> length (selected st xs)"
    by (auto simp: selected_def limited_def split: option.splits bound_expr.splits bound_const.splits)
  have "\<exists>u. run_select m k ctx st w = Inr (?ys, u) \<and> table_wf (pool u) n t p0 ps es" if "K' \<le> k" for k
  proof -
    have "exec_left n k sch' ?u e ?ys" "exec_open ?u e = Inr e" using e(2) that by (auto simp: built_def)
    moreover have "length ?ys < m" using l m by simp
    ultimately obtain e' u where "drain m (exec_getNext k) ?u e = Inr (?ys, e', u)" "world_same n ?u u"
      using exec.drain_left by blast
    then show ?thesis using e(1) \<open>exec_open ?u e = Inr e\<close> in_pool_same[OF assms(3)] by (simp add: run_select_def world_same_def)
  qed
  then show ?thesis by blast
qed

lemma demo_names: "plain_names (scan_schema (seq_open (demo_users t ''a'')))"
  by (simp add: demo_users_schema plain_names_def Column_def const_name_def upt_rec)

text \<open>\<^verbatim>\<open>SELECT a.ok FROM a WHERE a.id = 7 LIMIT 5 OFFSET 0\<close>\<close>

definition demo_select :: bound_select where
  "demo_select = \<lparr>select_list = [BoundColumnRef 0 1 ''a'' ''ok'' TYPE_BOOL], from_table = 0, joins = [],
     where_clause = Some (BoundBinary (Some (BoundColumnRef 0 0 ''a'' ''id'' TYPE_INT)) B_EQ (Some (BoundConstant (INT_CONST 7))) TYPE_BOOL),
     limit_clause = Some (BoundConstant (INT_CONST 5)), offset_clause = Some (BoundConstant (INT_CONST 0))\<rparr>"

lemma demo_select_ok: "clauses_ok demo_select 2 [demo_tuple]"
  "limited demo_select (selected demo_select [demo_tuple]) = [demo_tuple]"
proof -
  have f: "tfields demo_tuple ! 0 = Field_int TYPE_INT 7" "length (tfields demo_tuple) = 2" by (simp_all add: demo_tuple_def Tuple_def)
  have w: "where_value (tfields demo_tuple) (Some (BoundColumnRef 0 0 ''a'' ''id'' TYPE_INT)) = Some (Field_int TYPE_INT 7)"
    "where_value (tfields demo_tuple) (Some (BoundConstant (INT_CONST 7))) = Some (Field_int TYPE_INT 7)"
    using f by (simp_all add: where_value_def const_field_def cast_int_def in_i32_def)
  have c: "comparable TYPE_INT (Field_int TYPE_INT 7)" "fequal (Field_int TYPE_INT 7) (Field_int TYPE_INT 7)"
    using demo_keys(1,3) f by (auto simp: join_keys_def)
  then show "clauses_ok demo_select 2 [demo_tuple]"
    using f w by (auto simp: clauses_ok_def demo_select_def operand_ok_def in_i32_def)
  show "limited demo_select (selected demo_select [demo_tuple]) = [demo_tuple]"
    using f w c by (simp add: limited_def selected_def demo_select_def leaf_holds_def compareValues_def)
qed

lemma demo_items:
  "rmap item_name (select_list demo_select) = Inr (map (\<lambda>i. col_name (scan_schema (seq_open (demo_users t ''a'')) ! i)) [1])"
  by (simp add: demo_select_def item_name_def demo_users_schema Column_def)

lemma select_statement_rows_witness:
  "\<exists>(w :: world) K u. run_select 2 K [0 \<mapsto> \<lparr>bt_name = ''a'', bt_alias = []\<rparr>] demo_select w = Inr ([Tuple [Field_bool TYPE_BOOL True]], u)"
proof -
  obtain s t es where t: "\<And>name. in_pool s 2 (demo_users t name) 1 [2] es 4 [demo_tuple]" using demo_in_pool by blast
  let ?a = "demo_users t ''a''" and ?bt = "\<lparr>bt_name = ''a'', bt_alias = []\<rparr>"
  let ?w = "\<lparr>pool = s, heaps = [''a'' \<mapsto> ?a]\<rparr>"
  have al: "aliased ?bt ?a = ?a" by (simp add: aliased_def)
  have f: "tfields demo_tuple ! 1 = Field_bool TYPE_BOOL True" by (simp add: demo_tuple_def Tuple_def)
  have "cols ?a \<noteq> []" by (simp flip: length_greater_0_conv)
  then have "\<exists>K'. \<forall>k \<ge> K'. \<exists>u. run_select 2 k [0 \<mapsto> ?bt] demo_select ?w = Inr (map (\<lambda>x. Tuple (map (\<lambda>i. tfields x ! i) [1]))
      (limited demo_select (selected demo_select [demo_tuple])), u) \<and> table_wf (pool u) 2 ?a 1 [2] es"
    by (intro select_statement_rows[where t = ?a and bt = ?bt and K = 4])
      (use t demo_select_ok(1) in \<open>simp_all add: al demo_names demo_items[of t, simplified]\<close>, simp add: demo_select_def)
  then show ?thesis using f unfolding demo_select_ok(2) by (simp, blast)
qed

section \<open>Joins\<close>

text \<open>A scan names its columns \<open>table.column\<close> and \<^verbatim>\<open>has_column\<close> puts the name of the table before them once more.\<close>

lemma count_dots: "CHR ''.'' \<notin> set xs \<Longrightarrow> filter (\<lambda>c. c = CHR ''.'') xs = []"
  by (auto simp: filter_empty_conv)

lemma seq_has_column_seq_open:
  "seq_has_column t (seq_open u) x \<longleftrightarrow> (\<exists>c \<in> set (cols u). table_name t @ ''.'' @ table_name u @ ''.'' @ col_name c = x)"
  by (auto simp: seq_has_column_def seq_open_def list_ex_iff setColName_def)

lemma scan_has_no_column:
  assumes "CHR ''.'' \<notin> set tn" "CHR ''.'' \<notin> set cn"
  shows "\<not> seq_has_column t (seq_open u) (tn @ ''.'' @ cn)"
proof
  assume "seq_has_column t (seq_open u) (tn @ ''.'' @ cn)"
  then obtain c :: column where "table_name t @ ''.'' @ table_name u @ ''.'' @ col_name c = tn @ ''.'' @ cn"
    unfolding seq_has_column_seq_open by blast
  then have "filter (\<lambda>c. c = CHR ''.'') (table_name t @ ''.'' @ table_name u @ ''.'' @ col_name c) = filter (\<lambda>c. c = CHR ''.'') (tn @ ''.'' @ cn)"
    by (rule arg_cong)
  then show False using count_dots[OF assms(1)] count_dots[OF assms(2)] by simp
qed

definition table_ready :: "(int \<rightharpoonup> bound_table) \<Rightarrow> world \<Rightarrow> int \<Rightarrow> bool" where
  "table_ready ctx w oid \<longleftrightarrow> (\<exists>t. heaps w (bt_name (getBoundTable ctx oid)) = Some t \<and> cols t \<noteq> [])"

lemma create_scan_ready:
  assumes "table_ready ctx w oid"
  shows "\<exists>name t u. createExecutor ctx (SeqScanPlan oid) w = Inr (E_SeqScan name (seq_open t), u) \<and> heaps u name \<noteq> None \<and>
    (\<forall>x. heaps w x \<noteq> None \<longrightarrow> heaps u x \<noteq> None) \<and> (\<forall>x. table_ready ctx w x \<longrightarrow> table_ready ctx u x)"
proof -
  let ?bt = "getBoundTable ctx oid"
  obtain t where t: "heaps w (bt_name ?bt) = Some t" "cols t \<noteq> []" using assms by (auto simp: table_ready_def)
  then have "createExecutor ctx (SeqScanPlan oid) w = Inr (E_SeqScan (bt_name ?bt) (seq_open (aliased ?bt t)),
      w\<lparr>heaps := (heaps w)(bt_name ?bt \<mapsto> aliased ?bt t)\<rparr>)"
    using aliased_cols[of ?bt t] unfolding aliased_def by (simp add: create_scan_def get_heap_def Let_def)
  then show ?thesis using t by (auto simp: table_ready_def)
qed

lemma const_to_col_ok: "\<exists>c. const_to_col v = Inr c"
  by (cases v) (auto simp: const_to_col_def Column_field_def Field_copy_def Field_int_def Field_double_def Field_bool_def Field_str_def c_str_def copy_array_def)

text \<open>
  Every \<^verbatim>\<open>ON\<close> condition that is not a comparison of two constants with \<^verbatim>\<open>=\<close>, \<^verbatim>\<open><>\<close> or \<^verbatim>\<open>>\<close> throws. The names
  in a condition have no dot.
\<close>

fun undotted :: "bound_expr option \<Rightarrow> bool" where
  "undotted (Some (BoundColumnRef o1 o2 tn cn ty)) \<longleftrightarrow> CHR ''.'' \<notin> set tn \<and> CHR ''.'' \<notin> set cn"
| "undotted _ \<longleftrightarrow> True"

fun operand_error :: "bound_expr option \<Rightarrow> string option" where
  "operand_error None = Some ''Expression is null''"
| "operand_error (Some (BoundColumnRef o1 o2 tn cn ty)) = Some ''column is not found ....''"
| "operand_error (Some (BoundConstant c)) = None"
| "operand_error (Some _) = Some ''Unsupported join expression''"

fun join_error :: "bound_expr \<Rightarrow> string option" where
  "join_error (BoundBinary l op r ty) =
     (if op \<in> {B_EQ, B_NE, B_GT} then (case operand_error l of Some m \<Rightarrow> Some m | None \<Rightarrow> operand_error r)
      else Some ''unsupported join predicate'')"
| "join_error _ = Some ''Join predicate must be binary''"

fun operands_undotted :: "bound_expr \<Rightarrow> bool" where
  "operands_undotted (BoundBinary l op r ty) \<longleftrightarrow> undotted l \<and> undotted r"
| "operands_undotted _ \<longleftrightarrow> True"

lemma operand_error_None: "operand_error e = None \<Longrightarrow> \<exists>c. e = Some (BoundConstant c)"
  by (cases e rule: operand_error.cases) simp_all

lemma expr_to_join_col_scans:
  assumes h: "heaps v na \<noteq> None" "heaps v nb \<noteq> None" and d: "undotted e"
  shows "case operand_error e of
      Some m \<Rightarrow> expr_to_join_col v e (E_SeqScan na (seq_open a)) (E_SeqScan nb (seq_open b)) = Inl (Throw m)
    | None \<Rightarrow> \<exists>c. expr_to_join_col v e (E_SeqScan na (seq_open a)) (E_SeqScan nb (seq_open b)) = Inr c"
proof (cases e rule: operand_error.cases)
  case (2 o1 o2 tn cn ty)
  then have "has_column v (E_SeqScan na (seq_open a)) (tn @ ''.'' @ cn) = Inr False"
    "has_column v (E_SeqScan nb (seq_open b)) (tn @ ''.'' @ cn) = Inr False"
    using h scan_has_no_column[of tn cn] d by (auto simp: get_heap_def)
  then show ?thesis using 2 by (simp add: expr_to_join_col_def)
next
  case (3 c)
  then show ?thesis using const_to_col_ok[of c] by (simp add: expr_to_join_col_def)
qed (simp_all add: expr_to_join_col_def)

lemma join_of_scans_throws:
  assumes t: "table_ready ctx w l" "table_ready ctx w r" and e: "join_error c = Some m" "operands_undotted c"
  shows "createExecutor ctx (JoinPlan jt (Some c) (SeqScanPlan l) (SeqScanPlan r)) w = Inl (Throw m)"
proof -
  obtain na a u where a: "createExecutor ctx (SeqScanPlan l) w = Inr (E_SeqScan na (seq_open a), u)" "heaps u na \<noteq> None"
    "table_ready ctx u r" using create_scan_ready[OF t(1)] t(2) by blast
  obtain nb b v where b: "createExecutor ctx (SeqScanPlan r) u = Inr (E_SeqScan nb (seq_open b), v)" "heaps v nb \<noteq> None" "heaps v na \<noteq> None"
    using create_scan_ready[OF a(3)] a(2) by blast
  have "build_join_predicate v (Some c) (E_SeqScan na (seq_open a)) (E_SeqScan nb (seq_open b)) = Inl (Throw m)"
  proof (cases c)
    case (BoundBinary x op y ty)
    then show ?thesis
      using e expr_to_join_col_scans[OF b(3,2), of x a b] expr_to_join_col_scans[OF b(3,2), of y a b]
      by (auto simp: build_join_predicate_def split: if_splits option.splits)
  qed (use e in \<open>simp_all add: build_join_predicate_def\<close>)
  then show ?thesis using a(1) b(1) by simp
qed

lemma create_joins_throws:
  "createExecutor ctx p w = Inl e \<Longrightarrow> createExecutor ctx (foldl (\<lambda>p (jt, oid, c). JoinPlan jt c p (SeqScanPlan oid)) p js) w = Inl e"
  by (induction js arbitrary: p) (simp, auto)

text \<open>
  C9. A statement whose first join has an \<^verbatim>\<open>ON\<close> condition always throws, whatever the rest of the statement,
  unless the condition compares two constants with \<^verbatim>\<open>=\<close>, \<^verbatim>\<open><>\<close> or \<^verbatim>\<open>>\<close>: for these three operators a column on
  either side is looked up by a name that has the table twice and is not found in either scan, and every other
  operator is not supported. \<open>join_error\<close> gives the message. Table and column names have no dot.
\<close>

theorem join_statement_throws:
  assumes t: "table_ready ctx w (from_table st)" "table_ready ctx w r" and j: "joins st = (jt, r, Some c) # js"
    and d: "operands_undotted c"
    and c: "\<not> (\<exists>x y op ty. c = BoundBinary (Some (BoundConstant x)) op (Some (BoundConstant y)) ty \<and> op \<in> {B_EQ, B_NE, B_GT})"
  shows "\<exists>m. join_error c = Some m \<and> run_select n k ctx st w = Inl (Throw m)"
proof -
  have "join_error c \<noteq> None"
  proof
    assume n: "join_error c = None"
    then obtain x op y ty where b: "c = BoundBinary x op y ty" by (cases c) simp_all
    then have "op \<in> {B_EQ, B_NE, B_GT}" "operand_error x = None" "operand_error y = None"
      using n by (simp_all split: if_splits option.splits)
    then show False using c b operand_error_None by blast
  qed
  then obtain m where m: "join_error c = Some m" by blast
  show ?thesis using create_joins_throws[OF join_of_scans_throws[OF t m d]] m
    by (simp add: run_select_def PlanSelect_def plan_output_def Let_def j split: option.splits)
qed

lemma join_statement_throws_witness:
  "\<exists>w :: world. \<forall>(op, m) \<in> {(B_EQ, ''column is not found ....''), (B_LT, ''unsupported join predicate'')}.
     run_select 2 9 [0 \<mapsto> \<lparr>bt_name = ''a'', bt_alias = []\<rparr>, 1 \<mapsto> \<lparr>bt_name = ''b'', bt_alias = []\<rparr>]
       (demo_select\<lparr>joins := [(INNER, 1, Some (BoundBinary (Some (BoundColumnRef 0 0 ''a'' ''id'' TYPE_INT)) op
          (Some (BoundColumnRef 1 0 ''b'' ''id'' TYPE_INT)) TYPE_BOOL))]\<rparr>) w = Inl (Throw m)"
proof -
  obtain t :: table_heap where t: "cols t \<noteq> []" using demo_users_simps(2) by (metis list.size(3) zero_neq_numeral)
  let ?w = "\<lparr>pool = undefined, heaps = [''a'' \<mapsto> t, ''b'' \<mapsto> t]\<rparr>"
  let ?ctx = "[0 \<mapsto> \<lparr>bt_name = ''a'', bt_alias = []\<rparr>, 1 \<mapsto> \<lparr>bt_name = ''b'', bt_alias = []\<rparr>]"
  let ?c = "\<lambda>op. BoundBinary (Some (BoundColumnRef 0 0 ''a'' ''id'' TYPE_INT)) op (Some (BoundColumnRef 1 0 ''b'' ''id'' TYPE_INT)) TYPE_BOOL"
  have "\<exists>m. join_error (?c op) = Some m \<and> run_select 2 9 ?ctx (demo_select\<lparr>joins := [(INNER, 1, Some (?c op))]\<rparr>) ?w = Inl (Throw m)" for op
    by (rule join_statement_throws[where jt = INNER and r = 1]) (use t in \<open>simp_all add: table_ready_def getBoundTable_def demo_select_def\<close>)
  from this[of B_EQ] this[of B_LT] show ?thesis by (intro exI[of _ ?w]) simp
qed

section \<open>LIMIT without OFFSET\<close>

text \<open>
  A statement with a \<^verbatim>\<open>LIMIT\<close> and no \<^verbatim>\<open>OFFSET\<close> is undefined: the pointer to the column of the offset is
  never initialised, and the constructor of \<^verbatim>\<open>Limit\<close> reads it.
\<close>

lemma limit_without_offset_undefined:
  assumes t: "table_ready ctx w (from_table st)" "joins st = []" "where_clause st = None"
    and l: "limit_clause st = Some (BoundConstant (INT_CONST l))" "offset_clause st = None"
  shows "run_select m k ctx st w = Inl Undefined"
proof -
  obtain na a u where "createExecutor ctx (SeqScanPlan (from_table st)) w = Inr (E_SeqScan na (seq_open a), u)"
    using create_scan_ready[OF t(1)] by blast
  then show ?thesis using t(2,3) l
    by (simp add: run_select_def PlanSelect_def plan_output_def create_limit_def expr_to_col_def const_to_col_def Column_field_def Field_copy_def Field_int_def)
qed

lemma limit_without_offset_undefined_witness:
  "\<exists>w :: world. run_select 2 9 [0 \<mapsto> \<lparr>bt_name = ''a'', bt_alias = []\<rparr>] (demo_select\<lparr>where_clause := None, offset_clause := None\<rparr>) w = Inl Undefined"
proof -
  obtain t :: table_heap where "cols t \<noteq> []" using demo_users_simps(2) by (metis list.size(3) zero_neq_numeral)
  then show ?thesis
    by (intro exI[of _ "\<lparr>pool = undefined, heaps = [''a'' \<mapsto> t]\<rparr>"] limit_without_offset_undefined[where l = 5])
      (simp_all add: table_ready_def getBoundTable_def demo_select_def)
qed

end
