(* ===== verification/Wal_Record.thy ===== *)
theory Wal_Record imports Tuple_Model Rid_Model
begin

text \<open>
  The write-ahead log (src/Recovery/WAL_record.c++, WAL_manager.c++, WAL_recovery.c++): the records with
  their byte format, the log file, appending a record and reading all records back. \<^verbatim>\<open>WALManager\<close> and
  \<^verbatim>\<open>WALRecovery\<close> open the file separately, so each has a position of its own.
\<close>

section \<open>Records\<close>

text \<open>An \<^verbatim>\<open>enum class\<close> can hold any \<^verbatim>\<open>int\<close>; the values without a name are \<open>LOG_OTHER\<close>.\<close>

datatype LogType = LOG_BEGIN | LOG_INSERT | LOG_DELETE | LOG_UPDATE | LOG_COMMIT | LOG_ABORT | LOG_OTHER int

definition log_code :: "LogType \<Rightarrow> int" where
  "log_code t = (case t of LOG_BEGIN \<Rightarrow> 0 | LOG_INSERT \<Rightarrow> 1 | LOG_DELETE \<Rightarrow> 2 | LOG_UPDATE \<Rightarrow> 3
     | LOG_COMMIT \<Rightarrow> 4 | LOG_ABORT \<Rightarrow> 5 | LOG_OTHER i \<Rightarrow> i)"

definition code_log :: "int \<Rightarrow> LogType" where
  "code_log i = (if i = 0 then LOG_BEGIN else if i = 1 then LOG_INSERT else if i = 2 then LOG_DELETE
     else if i = 3 then LOG_UPDATE else if i = 4 then LOG_COMMIT else if i = 5 then LOG_ABORT else LOG_OTHER i)"

record wal_record =
  rtype :: LogType
  transaction_id :: int
  rtable_id :: int
  rrid :: rid
  old_tuple :: tuple
  new_tuple :: tuple

definition serialize_WAL_record :: "wal_record \<Rightarrow> buf \<Rightarrow> nat \<Rightarrow> buf res" where
  "serialize_WAL_record r b base =
     rbind (memcpy_to b base (i32_bytes (log_code (rtype r)))) (\<lambda>b.
     rbind (memcpy_to b (base + 4) (i32_bytes (transaction_id r))) (\<lambda>b.
     rbind (memcpy_to b (base + 8) (i32_bytes (rtable_id r))) (\<lambda>b.
     rbind (RID_serialize (rrid r) b (base + 12)) (\<lambda>b.
     rbind (Tuple_serialize (old_tuple r) b (base + 28)) (\<lambda>b.
     rbind (at_off base (28 + getTupleSize (old_tuple r))) (\<lambda>p.
     Tuple_serialize (new_tuple r) b p))))))"

definition deSerialize_WAL_record :: "buf \<Rightarrow> nat \<Rightarrow> wal_record res" where
  "deSerialize_WAL_record b base =
     rbind (memcpy_from b base 4) (\<lambda>ty.
     rbind (memcpy_from b (base + 4) 4) (\<lambda>txn.
     rbind (memcpy_from b (base + 8) 4) (\<lambda>tab.
     rbind (RID_deserialize b (base + 12)) (\<lambda>r.
     rbind (Tuple_deserialize b (base + 28)) (\<lambda>old.
     rbind (at_off base (28 + getTupleSize old)) (\<lambda>p.
     rbind (Tuple_deserialize b p) (\<lambda>new.
     Inr \<lparr>rtype = code_log (i32_val ty), transaction_id = i32_val txn, rtable_id = i32_val tab, rrid = r,
          old_tuple = old, new_tuple = new\<rparr>)))))))"

definition get_record_size :: "wal_record \<Rightarrow> int" where
  "get_record_size r = 4 + 4 + 4 + int RID_size + getTupleSize (old_tuple r) + getTupleSize (new_tuple r)"

section \<open>The log file\<close>

record wal =
  log_bytes :: "byte list"
  wpos :: nat
  rpos :: nat
  committed_txns :: "int set"
  un_committed_txns :: "int set"

text \<open>
  Opening the file: both positions are at its start. \<^verbatim>\<open>write\<close> continues at the writer's position, over
  old bytes and behind a hole of zeros when the file was cut in between.
\<close>

definition open_wal :: "byte list \<Rightarrow> wal" where
  "open_wal bs = \<lparr>log_bytes = bs, wpos = 0, rpos = 0, committed_txns = {}, un_committed_txns = {}\<rparr>"

definition write_at :: "byte list \<Rightarrow> nat \<Rightarrow> byte list \<Rightarrow> byte list" where
  "write_at bs pos xs = take pos (bs @ replicate (pos - length bs) 0) @ xs @ drop (pos + length xs) bs"

text \<open>The buffer has exactly \<^verbatim>\<open>get_record_size\<close> bytes; its content before serialization is taken as zero.\<close>

definition add_record :: "wal \<Rightarrow> wal_record \<Rightarrow> wal res" where
  "add_record w r =
     (if get_record_size r < 0 then Inl (Throw ''std::bad_array_new_length'')
      else rbind (serialize_WAL_record r (zero_buf (nat (get_record_size r))) 0) (\<lambda>b.
        let n = nat (get_record_size r) in
        Inr (w\<lparr>log_bytes := write_at (log_bytes w) (wpos w) (peek (mem b) 0 n), wpos := wpos w + n\<rparr>)))"

definition clear_wal :: "wal \<Rightarrow> wal" where
  "clear_wal w = w\<lparr>log_bytes := []\<rparr>"

text \<open>
  The loop of \<^verbatim>\<open>read_all_records\<close> adds to a \<^verbatim>\<open>size_t\<close>, so a negative offset ends it. An iteration is
  determined by the offset: after more iterations than the file has bytes it never ends.
\<close>

fun read_records :: "nat \<Rightarrow> buf \<Rightarrow> int \<Rightarrow> wal_record list res" where
  "read_records 0 b off = Inl Diverges"
| "read_records (Suc n) b off =
     (if 0 \<le> off \<and> off < int (cap b) then
        rbind (deSerialize_WAL_record b (nat off)) (\<lambda>r.
        rbind (read_records n b (off + get_record_size r)) (\<lambda>rs. Inr (r # rs)))
      else Inr [])"

definition bytes_buf :: "byte list \<Rightarrow> buf" where
  "bytes_buf bs = \<lparr>cap = length bs, mem = (\<lambda>i. if i < length bs then bs ! i else 0)\<rparr>"

text \<open>A file of 2 GiB or more is read in several calls; the code makes one.\<close>

definition read_all_records :: "wal \<Rightarrow> (wal_record list \<times> wal) res" where
  "read_all_records w =
     (let n = length (log_bytes w); w' = w\<lparr>rpos := max (rpos w) n\<rparr> in
      if n = 0 then Inr ([], w)
      else if 0 < rpos w \<or> 2 ^ 31 \<le> n then Inl (Throw ''can't open walfile'')
      else rbind (read_records (Suc n) (bytes_buf (log_bytes w)) 0) (\<lambda>rs. Inr (rs, w')))"

section \<open>The codec of a record\<close>

definition wal_ok :: "wal_record \<Rightarrow> bool" where
  "wal_ok r \<longleftrightarrow> in_i32 (log_code (rtype r)) \<and> code_log (log_code (rtype r)) = rtype r \<and> in_i32 (transaction_id r) \<and>
     in_i32 (rtable_id r) \<and> rid_ok (rrid r) \<and> tuple_ok (old_tuple r) \<and> tuple_ok (new_tuple r)"

definition wal_enc :: "wal_record \<Rightarrow> byte list" where
  "wal_enc r = i32_bytes (log_code (rtype r)) @ i32_bytes (transaction_id r) @ i32_bytes (rtable_id r) @
     rid_enc (rrid r) @ tuple_enc (old_tuple r) @ tuple_enc (new_tuple r)"

definition wal_over :: "wal_record \<Rightarrow> byte list" where
  "wal_over r = tuple_over (new_tuple r) @
     drop (length (tuple_enc (new_tuple r) @ tuple_over (new_tuple r))) (tuple_over (old_tuple r))"

definition wal_eqv :: "wal_record \<Rightarrow> wal_record \<Rightarrow> bool" where
  "wal_eqv r s \<longleftrightarrow> (\<exists>x y. s = r\<lparr>old_tuple := x, new_tuple := y\<rparr> \<and> tuple_eqv (old_tuple r) x \<and> tuple_eqv (new_tuple r) y)"

lemma length_wal_enc: "length (wal_enc r) = 28 + length (tuple_enc (old_tuple r)) + length (tuple_enc (new_tuple r))"
  by (simp add: wal_enc_def)

lemma serialize_wal_bytes:
  assumes ok: "wal_ok r"
  shows "serialize_WAL_record r b base = memcpy_to b base (wal_enc r @ wal_over r)"
proof -
  have t: "tuple_ok (old_tuple r)" "tuple_ok (new_tuple r)" using ok by (simp_all add: wal_ok_def)
  let ?old = "tuple_enc (old_tuple r)" and ?new = "tuple_enc (new_tuple r)"
  have tuples: "rbind (Tuple_serialize (old_tuple r) b (base + 28)) (\<lambda>b.
      rbind (at_off base (28 + getTupleSize (old_tuple r))) (\<lambda>p. Tuple_serialize (new_tuple r) b p)) =
    memcpy_to b (base + 28) (?old @ ?new @ wal_over r)" for b
  proof -
    have "at_off base (28 + getTupleSize (old_tuple r)) = Inr (base + (28 + length ?old))"
      using at_off_nat[of base "28 + length ?old"] by (simp add: tuple_size_enc t(1))
    then show ?thesis
      using memcpy_to_overlay[of b "base + 28" ?old "tuple_over (old_tuple r)" "?new @ tuple_over (new_tuple r)"]
      by (simp add: Tuple_serialize_bytes t wal_over_def add.assoc)
  qed
  show ?thesis
    unfolding serialize_WAL_record_def wal_enc_def append_assoc tuples RID_serialize_bytes
    by (rule memcpy_then)+ (simp_all add: ac_simps)
qed

lemma deSerialize_wal_back:
  assumes ok: "wal_ok r" and pk: "peek (mem b) off (length (wal_enc r)) = wal_enc r"
    and room: "off + length (wal_enc r @ wal_over r) \<le> cap b"
  shows "\<exists>s. deSerialize_WAL_record b off = Inr s \<and> wal_eqv r s"
proof -
  let ?old = "tuple_enc (old_tuple r)" and ?new = "tuple_enc (new_tuple r)"
  have t: "tuple_ok (old_tuple r)" "tuple_ok (new_tuple r)" using ok by (simp_all add: wal_ok_def)
  note p0 = peek_conc[OF pk[unfolded wal_enc_def]]
  note p1 = peek_conc[OF p0(2)]
  note p2 = peek_conc[OF p1(2)]
  note p3 = peek_conc[OF p2(2)]
  note p4 = peek_conc[OF p3(2)]
  have rm: "off + 28 + length (?old @ tuple_over (old_tuple r)) \<le> cap b"
    "off + (28 + length ?old) + length (?new @ tuple_over (new_tuple r)) \<le> cap b"
    using room by (simp_all add: length_wal_enc wal_over_def)
  obtain x where x: "Tuple_deserialize b (off + 28) = Inr x" "tuple_eqv (old_tuple r) x"
    using Tuple_deserialize_back[OF t(1) _ rm(1)] p4(1) by (auto simp: ac_simps)
  obtain y where y: "Tuple_deserialize b (off + (28 + length ?old)) = Inr y" "tuple_eqv (new_tuple r) y"
    using Tuple_deserialize_back[OF t(2) _ rm(2)] p4(2) by (auto simp: ac_simps)
  have "getTupleSize x = int (length ?old)"
    using tuple_eqv_ok[OF t(1) x(2)] tuple_size_enc by fastforce
  then have at: "at_off off (28 + getTupleSize x) = Inr (off + (28 + length ?old))"
    using at_off_nat[of off "28 + length ?old"] by simp
  have rid: "RID_deserialize b (off + 12) = Inr (rrid r)"
    using ok p3(1) rm(1) by (intro RID_deserialize_back) (simp_all add: wal_ok_def ac_simps)
  have "peek (mem b) (off + 8) 4 = i32_bytes (rtable_id r)" using p2(1) by (simp add: add.assoc)
  then have "deSerialize_WAL_record b off = Inr (r\<lparr>old_tuple := x, new_tuple := y\<rparr>)"
    using p0(1) p1(1) rm(1) ok x(1) y(1) at rid
    by (simp add: deSerialize_WAL_record_def memcpy_from_def wal_ok_def)
  with x(2) y(2) show ?thesis by (auto simp: wal_eqv_def)
qed

lemma record_size_enc: "wal_ok r \<Longrightarrow> get_record_size r = int (length (wal_enc r))"
  by (simp add: get_record_size_def wal_ok_def tuple_size_enc length_wal_enc RID_size_def)

interpretation walrec: codec serialize_WAL_record deSerialize_WAL_record "\<lambda>r. nat (get_record_size r)"
  wal_enc wal_over wal_ok wal_eqv
proof unfold_locales
  fix x y b off
  show "wal_ok x \<Longrightarrow> serialize_WAL_record x b off = memcpy_to b off (wal_enc x @ wal_over x)"
    by (rule serialize_wal_bytes)
  show "\<exists>y. deSerialize_WAL_record b off = Inr y \<and> wal_eqv x y"
    if "wal_ok x" "peek (mem b) off (length (wal_enc x)) = wal_enc x" "off + length (wal_enc x @ wal_over x) \<le> cap b"
    using deSerialize_wal_back[OF that] .
  show "wal_ok x \<Longrightarrow> nat (get_record_size x) = length (wal_enc x)" by (simp add: record_size_enc)
  assume a: "wal_ok x" "wal_eqv x y"
  then obtain s t where "y = x\<lparr>old_tuple := s, new_tuple := t\<rparr>" "tuple_eqv (old_tuple x) s" "tuple_eqv (new_tuple x) t"
    by (auto simp: wal_eqv_def)
  with a(1) show "wal_ok y \<and> wal_enc y = wal_enc x \<and> wal_over y = wal_over x"
    using tuple_eqv_ok[of "old_tuple x" s] tuple_eqv_ok[of "new_tuple x" t]
    by (simp add: wal_ok_def wal_enc_def wal_over_def)
qed

section \<open>Writing and reading the log\<close>

lemma write_at_end: "write_at bs (length bs) xs = bs @ xs"
  by (simp add: write_at_def)

lemma read_records_back:
  assumes "\<forall>r \<in> set rs. wal_ok r" "peek (mem b) off (length (seq_enc wal_enc rs)) = seq_enc wal_enc rs"
    and "off + length (seq_bytes wal_enc wal_over rs) \<le> cap b" "cap b = off + length (seq_enc wal_enc rs)" "length rs < n"
  shows "\<exists>ss. read_records n b (int off) = Inr ss \<and> list_all2 wal_eqv rs ss"
  using assms
proof (induction rs arbitrary: off n)
  case Nil
  then show ?case by (cases n) auto
next
  case (Cons r rs)
  let ?e = "wal_enc r" and ?es = "seq_enc wal_enc rs"
  obtain n' where n: "n = Suc n'" "length rs < n'" using Cons.prems(5) by (cases n) auto
  have pk: "peek (mem b) off (length ?e) = ?e" "peek (mem b) (off + length ?e) (length ?es) = ?es"
    using peek_conc[of "mem b" off ?e ?es] Cons.prems(2) by simp_all
  have room: "off + length (?e @ wal_over r) \<le> cap b" "off + length ?e + length (seq_bytes wal_enc wal_over rs) \<le> cap b"
    using Cons.prems(3) by (auto simp: Let_def)
  obtain y where y: "deSerialize_WAL_record b off = Inr y" "wal_eqv r y"
    using walrec.rd_back[OF _ pk(1) room(1)] Cons.prems(1) by auto
  have "get_record_size y = int (length ?e)"
    using walrec.eqv_ok[OF _ y(2)] Cons.prems(1) record_size_enc by fastforce
  then have step: "off < cap b \<Longrightarrow> read_records n b (int off) =
      rbind (read_records n' b (int (off + length ?e))) (\<lambda>rs. Inr (y # rs))"
    using n(1) y(1) by simp
  obtain ss where "read_records n' b (int (off + length ?e)) = Inr ss" "list_all2 wal_eqv rs ss"
    using Cons.IH[OF _ pk(2) room(2) _ n(2)] Cons.prems(1,4) by auto
  moreover have "off < cap b" using Cons.prems(4) by (simp add: length_wal_enc)
  ultimately show ?case using step y(2) by auto
qed

lemma add_record_bytes:
  assumes ok: "wal_ok r"
  shows "add_record w r = (if wal_over r = []
    then Inr (w\<lparr>log_bytes := write_at (log_bytes w) (wpos w) (wal_enc r), wpos := wpos w + length (wal_enc r)\<rparr>)
    else Inl Undefined)"
proof -
  have "memcpy_to (zero_buf (length (wal_enc r))) 0 (wal_enc r @ wal_over r) =
    (if wal_over r = [] then Inr ((zero_buf (length (wal_enc r)))\<lparr>mem := put (\<lambda>_. 0) 0 (wal_enc r)\<rparr>) else Inl Undefined)"
    by (simp add: memcpy_to_def zero_buf_def)
  then show ?thesis
    using peek_put_same[of "\<lambda>_. 0" 0 "wal_enc r"]
    by (simp add: add_record_def serialize_wal_bytes[OF ok] record_size_enc[OF ok] Let_def)
qed

lemma append_records:
  assumes "\<forall>r \<in> set rs. wal_ok r \<and> wal_over r = []" "wpos w = length (log_bytes w)"
  shows "rfold (\<lambda>r w. add_record w r) rs w =
    Inr (w\<lparr>log_bytes := log_bytes w @ seq_enc wal_enc rs, wpos := wpos w + length (seq_enc wal_enc rs)\<rparr>)"
  using assms
proof (induction rs arbitrary: w)
  case (Cons r rs)
  then have "add_record w r = Inr (w\<lparr>log_bytes := log_bytes w @ wal_enc r, wpos := wpos w + length (wal_enc r)\<rparr>)"
    using add_record_bytes[of r w] write_at_end[of "log_bytes w"] by simp
  then show ?case using Cons by (simp add: add.assoc)
qed simp

lemma peek_bytes_buf: "peek (mem (bytes_buf bs)) 0 (length bs) = bs"
  by (simp add: peek_eq_iff bytes_buf_def)

lemma seq_bytes_no_overrun: "\<forall>r \<in> set rs. over r = [] \<Longrightarrow> seq_bytes enc over rs = seq_enc enc rs"
  by (induction rs) (simp_all add: Let_def)

lemma length_le_log: "length rs \<le> length (seq_enc wal_enc rs)"
  by (induction rs) (simp_all add: length_wal_enc)

lemma read_log:
  assumes rs: "\<forall>r \<in> set rs. wal_ok r \<and> wal_over r = []" and w: "log_bytes w = seq_enc wal_enc rs" "rpos w = 0"
    and n: "length (seq_enc wal_enc rs) < 2 ^ 31"
  shows "\<exists>ss v. read_all_records w = Inr (ss, v) \<and> list_all2 wal_eqv rs ss \<and> v = w\<lparr>rpos := rpos v\<rparr>"
proof (cases "rs = []")
  case True
  then show ?thesis using w by (simp add: read_all_records_def)
next
  case False
  then have ne: "seq_enc wal_enc rs \<noteq> []" by (metis length_le_log le_zero_eq length_0_conv list.size(3))
  obtain ss where ss: "read_records (Suc (length (log_bytes w))) (bytes_buf (log_bytes w)) (int 0) = Inr ss" "list_all2 wal_eqv rs ss"
    using read_records_back[of rs "bytes_buf (log_bytes w)" 0 "Suc (length (log_bytes w))"] rs length_le_log[of rs]
      peek_bytes_buf[of "log_bytes w"] seq_bytes_no_overrun[of rs wal_over wal_enc] w(1)
    by (auto simp: bytes_buf_def simp del: read_records.simps)
  have c: "length (log_bytes w) \<noteq> 0" "\<not> (0 < rpos w \<or> 2 ^ 31 \<le> length (log_bytes w))" using w ne n by simp_all
  have "read_all_records w = Inr (ss, w\<lparr>rpos := max (rpos w) (length (log_bytes w))\<rparr>)"
    unfolding read_all_records_def Let_def if_not_P[OF c(1)] if_not_P[OF c(2)] using ss(1) by (simp del: read_records.simps)
  with ss(2) show ?thesis by (intro exI[of _ ss] exI[of _ "w\<lparr>rpos := max (rpos w) (length (log_bytes w))\<rparr>"]) simp
qed

end
