(* ===== verification/Recovery.thy ===== *)
theory Recovery imports Wal_Record Table_Props
begin

text \<open>
  Transactions (src/TransactionManager/Transaction.c++, Transaction_manager.c++), the executers that
  change rows (src/Q_Execution/insert_statement_executer.c++, update_statement_executer.c++,
  delete_statement_executer.c++), recovery (\<^verbatim>\<open>WALManager::recover\<close> of src/Recovery/WAL_manager.c++) and the
  way the main loop brackets a statement with a transaction (src/Executer/ExecuterFactory.c++).

  The tables are those of the catalog's map from table ids to heaps, over one buffer pool; a pointer to a
  table is its id. A pointer to a transaction is its id: the manager hands ids out once, so the id of a
  deleted transaction is a dangling pointer.
\<close>

record database =
  pool :: bpm
  heaps :: "(int \<times> table_heap) list"

definition with_heap :: "database \<Rightarrow> int \<Rightarrow> (bpm \<Rightarrow> table_heap \<Rightarrow> ('a \<times> table_heap \<times> bpm) res) \<Rightarrow> ('a \<times> database) res" where
  "with_heap d i f =
     rbind (get_or_ub (map_of (heaps d) i)) (\<lambda>t.
     rbind (f (pool d) t) (\<lambda>(x, t, s). Inr (x, d\<lparr>pool := s, heaps := AList.update i t (heaps d)\<rparr>)))"

section \<open>Transactions\<close>

datatype WriteType = W_INSERT | W_UPDATE | W_DELETE

datatype TransactionState = RUNNING | COMMITTED | ABORTED

record write_record =
  wtype :: WriteType
  wtable :: int
  wrid :: rid
  wold :: tuple

record transaction =
  txn_id :: int
  txn_state :: TransactionState
  writes_set :: "write_record list"

record txn_manager =
  next_txn_id :: int
  current_txn :: "transaction option"

definition Transaction :: "int \<Rightarrow> transaction" where
  "Transaction i = \<lparr>txn_id = i, txn_state = RUNNING, writes_set = []\<rparr>"

definition add_write :: "transaction \<Rightarrow> write_record \<Rightarrow> transaction" where
  "add_write t r = t\<lparr>writes_set := writes_set t @ [r]\<rparr>"

definition new_txn_manager :: txn_manager where
  "new_txn_manager = \<lparr>next_txn_id = 0, current_txn = None\<rparr>"

definition get_current_transaction :: "txn_manager \<Rightarrow> int option" where
  "get_current_transaction m = map_option txn_id (current_txn m)"

definition begin_txn :: "txn_manager \<Rightarrow> (int \<times> txn_manager) res" where
  "begin_txn m =
     (case current_txn m of
        Some _ \<Rightarrow> Inl (Throw ''another txn is running, wait till it ends'')
      | None \<Rightarrow> Inr (next_txn_id m, m\<lparr>next_txn_id := next_txn_id m + 1, current_txn := Some (Transaction (next_txn_id m))\<rparr>))"

text \<open>\<^verbatim>\<open>nullptr\<close> is \<open>None\<close>. The transaction is deleted, so its last state is not seen by anyone.\<close>

definition commit_txn :: "txn_manager \<Rightarrow> int option \<Rightarrow> bool \<times> txn_manager" where
  "commit_txn m p =
     (if p = None \<or> p \<noteq> get_current_transaction m then (False, m) else (True, m\<lparr>current_txn := None\<rparr>))"

definition rollback_write :: "write_record \<Rightarrow> database \<Rightarrow> database res" where
  "rollback_write r d =
     rbind (with_heap d (wtable r) (\<lambda>s t. case wtype r of
         W_UPDATE \<Rightarrow> rbind (heap_updateTuple s t (wrid r) (wold r)) (\<lambda>(_, t, s). Inr ((), t, s))
       | W_INSERT \<Rightarrow> rbind (heap_deleteTuple s t (wrid r)) (\<lambda>(t, s). Inr ((), t, s))
       | W_DELETE \<Rightarrow> rbind (heap_insertTuple s t (wold r)) (\<lambda>(_, t, s). Inr ((), t, s)))) (\<lambda>(_, d). Inr d)"

definition abort_txn :: "txn_manager \<Rightarrow> database \<Rightarrow> int option \<Rightarrow> (bool \<times> txn_manager \<times> database) res" where
  "abort_txn m d p =
     (case current_txn m of
        None \<Rightarrow> Inr (False, m, d)
      | Some t \<Rightarrow> if p \<noteq> Some (txn_id t) then Inr (False, m, d)
          else rbind (rfold rollback_write (rev (writes_set t)) d) (\<lambda>d. Inr (True, m\<lparr>current_txn := None\<rparr>, d)))"

text \<open>\<^verbatim>\<open>txn->GetTransactionId()\<close>: undefined for \<^verbatim>\<open>nullptr\<close> and for a transaction that was deleted.\<close>

definition GetTransactionId :: "txn_manager \<Rightarrow> int option \<Rightarrow> int res" where
  "GetTransactionId m p = (if p \<noteq> None \<and> p = get_current_transaction m then get_or_ub p else Inl Undefined)"

section \<open>The executers that change rows\<close>

definition push_write :: "txn_manager \<Rightarrow> write_record \<Rightarrow> txn_manager" where
  "push_write m r = m\<lparr>current_txn := map_option (\<lambda>t. add_write t r) (current_txn m)\<rparr>"

text \<open>
  \<^verbatim>\<open>InsertTuple\<close> inserts in its constructor. Every executer changes the table first and appends the log
  record last, and reads the id of the transaction also when there is none.
\<close>

definition InsertTuple :: "wal \<Rightarrow> txn_manager \<Rightarrow> database \<Rightarrow> int \<Rightarrow> tuple \<Rightarrow> (bool \<times> wal \<times> txn_manager \<times> database) res" where
  "InsertTuple w m d i tup =
     rbind (with_heap d i (\<lambda>s t. rbind (heap_insertTuple s t tup) (\<lambda>(r, t, s). Inr ((r, table_id t), t, s)))) (\<lambda>((r, tid), d).
     let m = push_write m \<lparr>wtype = W_INSERT, wtable = i, wrid = r, wold = Tuple []\<rparr> in
     rbind (GetTransactionId m (get_current_transaction m)) (\<lambda>x.
     rbind (add_record w \<lparr>rtype = LOG_INSERT, transaction_id = x, rtable_id = tid, rrid = r,
        old_tuple = Tuple [], new_tuple = tup\<rparr>) (\<lambda>w.
     Inr (page_id r \<noteq> - 1 \<and> slot_num r \<noteq> - 1, w, m, d))))"

definition update_tuple :: "wal \<Rightarrow> txn_manager \<Rightarrow> database \<Rightarrow> int \<Rightarrow> rid \<Rightarrow> tuple \<Rightarrow> (bool \<times> wal \<times> txn_manager \<times> database) res" where
  "update_tuple w m d i r tup =
     rbind (with_heap d i (\<lambda>s t. rbind (heap_getTuple s r) (\<lambda>(x, s).
       case x of None \<Rightarrow> Inr (None, t, s)
       | Some old \<Rightarrow> rbind (heap_updateTuple s t r tup) (\<lambda>(nr, t, s). Inr (Some (old, getActualPair nr, table_id t), t, s))))) (\<lambda>(x, d).
     case x of None \<Rightarrow> Inr (False, w, m, d)
     | Some (old, nr, tid) \<Rightarrow>
         let m = push_write m \<lparr>wtype = W_UPDATE, wtable = i, wrid = r, wold = old\<rparr> in
         rbind (GetTransactionId m (get_current_transaction m)) (\<lambda>x.
         rbind (add_record w \<lparr>rtype = LOG_UPDATE, transaction_id = x, rtable_id = tid, rrid = r,
            old_tuple = old, new_tuple = tup\<rparr>) (\<lambda>w.
         Inr (page_id nr \<noteq> - 1 \<and> slot_num nr \<noteq> - 1, w, m, d))))"

text \<open>A deletion is logged as an update to the empty tuple; a row that is not there is a null pointer.\<close>

definition delete_tuple :: "wal \<Rightarrow> txn_manager \<Rightarrow> database \<Rightarrow> int \<Rightarrow> rid \<Rightarrow> (bool \<times> wal \<times> txn_manager \<times> database) res" where
  "delete_tuple w m d i r =
     rbind (with_heap d i (\<lambda>s t. rbind (heap_getTuple s r) (\<lambda>(old, s).
       rbind (deleteTupleBool s t r) (\<lambda>(ok, t, s). Inr ((old, ok, table_id t), t, s))))) (\<lambda>((old, ok, tid), d).
     rbind (get_or_ub old) (\<lambda>old.
     let m = push_write m \<lparr>wtype = W_DELETE, wtable = i, wrid = r, wold = old\<rparr> in
     rbind (GetTransactionId m (get_current_transaction m)) (\<lambda>x.
     rbind (add_record w \<lparr>rtype = LOG_UPDATE, transaction_id = x, rtable_id = tid, rrid = r,
        old_tuple = old, new_tuple = Tuple []\<rparr>) (\<lambda>w.
     Inr (ok, w, m, d)))))"

section \<open>Recovery\<close>

definition classify :: "wal_record \<Rightarrow> wal \<Rightarrow> wal" where
  "classify r w =
     (case rtype r of
        LOG_BEGIN \<Rightarrow> w\<lparr>un_committed_txns := insert (transaction_id r) (un_committed_txns w)\<rparr>
      | LOG_COMMIT \<Rightarrow> w\<lparr>committed_txns := insert (transaction_id r) (committed_txns w),
                        un_committed_txns := un_committed_txns w - {transaction_id r}\<rparr>
      | LOG_ABORT \<Rightarrow> w\<lparr>un_committed_txns := un_committed_txns w - {transaction_id r}\<rparr>
      | _ \<Rightarrow> w)"

definition redo_write :: "wal_record \<Rightarrow> bpm \<Rightarrow> table_heap \<Rightarrow> (unit \<times> table_heap \<times> bpm) res" where
  "redo_write r s t =
     (case rtype r of
        LOG_UPDATE \<Rightarrow> rbind (heap_updateTuple s t (rrid r) (new_tuple r)) (\<lambda>(_, t, s). Inr ((), t, s))
      | LOG_INSERT \<Rightarrow> rbind (heap_insertTuple s t (new_tuple r)) (\<lambda>(_, t, s). Inr ((), t, s))
      | LOG_DELETE \<Rightarrow> rbind (heap_deleteTuple s t (rrid r)) (\<lambda>(t, s). Inr ((), t, s))
      | _ \<Rightarrow> Inr ((), t, s))"

definition undo_write :: "wal_record \<Rightarrow> bpm \<Rightarrow> table_heap \<Rightarrow> (unit \<times> table_heap \<times> bpm) res" where
  "undo_write r s t =
     (case rtype r of
        LOG_UPDATE \<Rightarrow> rbind (heap_updateTuple s t (rrid r) (old_tuple r)) (\<lambda>(_, t, s). Inr ((), t, s))
      | LOG_INSERT \<Rightarrow> rbind (heap_deleteTuple s t (rrid r)) (\<lambda>(t, s). Inr ((), t, s))
      | LOG_DELETE \<Rightarrow> rbind (heap_insertTuple s t (old_tuple r)) (\<lambda>(_, t, s). Inr ((), t, s))
      | _ \<Rightarrow> Inr ((), t, s))"

text \<open>Redo and undo are one pass over the records, both in the order of the log.\<close>

definition replay :: "int set \<Rightarrow> wal_record \<Rightarrow> database \<Rightarrow> database res" where
  "replay committed r d =
     (if rtype r \<in> {LOG_BEGIN, LOG_COMMIT, LOG_ABORT} then Inr d
      else if map_of (heaps d) (rtable_id r) = None then Inl (Throw ''table not found'')
      else rbind (with_heap d (rtable_id r)
             (if transaction_id r \<in> committed then redo_write r else undo_write r)) (\<lambda>(_, d). Inr d))"

definition recover :: "wal \<Rightarrow> database \<Rightarrow> (wal \<times> database) res" where
  "recover w d =
     rbind (read_all_records w) (\<lambda>(rs, w).
     let w = fold classify rs w in
     rbind (rfold (replay (committed_txns w)) rs d) (\<lambda>d. Inr (clear_wal w, d)))"

section \<open>Statements and transactions\<close>

text \<open>The main loop opens a transaction for an \<^verbatim>\<open>INSERT\<close>, \<^verbatim>\<open>UPDATE\<close> or \<^verbatim>\<open>DELETE\<close> when none is running.\<close>

definition marker :: "LogType \<Rightarrow> int \<Rightarrow> wal_record" where
  "marker t x = \<lparr>rtype = t, transaction_id = x, rtable_id = - 1, rrid = RID (- 1) (- 1),
     old_tuple = Tuple [], new_tuple = Tuple []\<rparr>"

definition open_statement :: "wal \<Rightarrow> txn_manager \<Rightarrow> (wal \<times> txn_manager) res" where
  "open_statement w m =
     (if get_current_transaction m = None then
        rbind (begin_txn m) (\<lambda>(x, m). rbind (add_record w (marker LOG_BEGIN x)) (\<lambda>w. Inr (w, m)))
      else Inr (w, m))"

text \<open>After the statement it commits whatever transaction is running.\<close>

definition close_statement :: "wal \<Rightarrow> txn_manager \<Rightarrow> (wal \<times> txn_manager) res" where
  "close_statement w m =
     rbind (GetTransactionId m (get_current_transaction m)) (\<lambda>x.
     let m = snd (commit_txn m (get_current_transaction m)) in
     rbind (add_record w (marker LOG_COMMIT x)) (\<lambda>w. Inr (w, m)))"

text \<open>
  The turn of the main loop for an \<^verbatim>\<open>INSERT\<close>, \<^verbatim>\<open>UPDATE\<close> or \<^verbatim>\<open>DELETE\<close>. \<open>body\<close> binds, plans and executes the statement; its
  first result is \<open>False\<close> when it threw, with the state that this left: the exception is caught behind the end of the
  statement, so that the commit is skipped and the loop goes on.
\<close>

definition change_statement ::
  "(wal \<Rightarrow> txn_manager \<Rightarrow> database \<Rightarrow> (bool \<times> wal \<times> txn_manager \<times> database) res) \<Rightarrow> wal \<Rightarrow> txn_manager \<Rightarrow> database \<Rightarrow>
    (bool \<times> wal \<times> txn_manager \<times> database) res" where
  "change_statement body w m d =
     rbind (open_statement w m) (\<lambda>(w, m).
     rbind (body w m d) (\<lambda>(ended, w, m, d).
     if ended then rbind (close_statement w m) (\<lambda>(w, m). Inr (True, w, m, d)) else Inr (False, w, m, d)))"

text \<open>
  \<^verbatim>\<open>execute_txn\<close>: the explicit statements. After \<^verbatim>\<open>commit\<close> and \<^verbatim>\<open>abort\<close> the id is read from the transaction
  they deleted.
\<close>

datatype txn_command = kBeginTransaction | kCommitTransaction | kRollbackTransaction

definition execute_txn :: "txn_command \<Rightarrow> wal \<Rightarrow> txn_manager \<Rightarrow> database \<Rightarrow> (wal \<times> txn_manager \<times> database) res" where
  "execute_txn c w m d =
     (let p = get_current_transaction m in
      case c of
        kBeginTransaction \<Rightarrow> rbind (begin_txn m) (\<lambda>(x, m).
          rbind (add_record w (marker LOG_BEGIN x)) (\<lambda>w. Inr (w, m, d)))
      | kCommitTransaction \<Rightarrow>
          let m = snd (commit_txn m p) in
          rbind (GetTransactionId m p) (\<lambda>x. rbind (add_record w (marker LOG_COMMIT x)) (\<lambda>w. Inr (w, m, d)))
      | kRollbackTransaction \<Rightarrow>
          rbind (abort_txn m d p) (\<lambda>(_, m, d).
          rbind (GetTransactionId m p) (\<lambda>x. rbind (add_record w (marker LOG_ABORT x)) (\<lambda>w. Inr (w, m, d)))))"

end
