(* ===== verification/Txn_Props.thy ===== *)
theory Txn_Props imports Recovery
begin

text \<open>
  What the log, recovery and transactions guarantee: the records that were appended are read back, a
  committed insertion is redone whatever state the table is in, an aborted insertion is taken back
  when its row went to the last page, and an explicit \<^verbatim>\<open>COMMIT\<close> or \<^verbatim>\<open>ROLLBACK\<close> has no defined behaviour.
\<close>

section \<open>Records of the engine\<close>

lemma in_i32_log [simp]: "in_i32 0" "in_i32 1" "in_i32 2" "in_i32 3" "in_i32 4" "in_i32 5" "in_i32 (- 1)"
  by (simp_all add: in_i32_def)

lemma empty_tuple_ok [simp]: "tuple_ok (Tuple [])" "tuple_over (Tuple []) = []"
  by (simp_all add: tuple_ok_def Tuple_def tuple_over_def seq_over_def)

lemma marker_ok: "in_i32 x \<Longrightarrow> t \<in> {LOG_BEGIN, LOG_COMMIT, LOG_ABORT} \<Longrightarrow> wal_ok (marker t x) \<and> wal_over (marker t x) = []"
  by (auto simp: marker_def wal_ok_def wal_over_def rid_ok_def log_code_def code_log_def)

definition insert_record :: "int \<Rightarrow> int \<Rightarrow> rid \<Rightarrow> tuple \<Rightarrow> wal_record" where
  "insert_record x i r tup = \<lparr>rtype = LOG_INSERT, transaction_id = x, rtable_id = i, rrid = r,
     old_tuple = Tuple [], new_tuple = tup\<rparr>"

lemma insert_record_ok: "in_i32 x \<Longrightarrow> in_i32 i \<Longrightarrow> rid_ok r \<Longrightarrow> tuple_ok tup \<Longrightarrow> wal_ok (insert_record x i r tup)"
  and insert_record_over: "wal_over (insert_record x i r tup) = tuple_over tup"
  by (simp_all add: insert_record_def wal_ok_def wal_over_def log_code_def code_log_def)

section \<open>Recovery\<close>

text \<open>The log of one \<^verbatim>\<open>INSERT\<close> statement that was committed.\<close>

definition insert_log :: "int \<Rightarrow> int \<Rightarrow> rid \<Rightarrow> tuple \<Rightarrow> wal_record list" where
  "insert_log x i r tup = [marker LOG_BEGIN x, insert_record x i r tup, marker LOG_COMMIT x]"

lemma insert_log_ok:
  assumes "in_i32 x" "in_i32 i" "rid_ok r" "tuple_ok tup" "tuple_over tup = []"
  shows "\<forall>r \<in> set (insert_log x i r tup). wal_ok r \<and> wal_over r = []"
  using assms marker_ok[OF assms(1)] by (simp add: insert_log_def insert_record_ok insert_record_over)

lemma read_insert_log:
  assumes "list_all2 wal_eqv (insert_log x i r tup) ss"
  shows "\<exists>a y b. ss = [a, y, b] \<and> rtype a = LOG_BEGIN \<and> transaction_id a = x \<and>
    rtype y = LOG_INSERT \<and> transaction_id y = x \<and> rtable_id y = i \<and> tuple_eqv tup (new_tuple y) \<and>
    rtype b = LOG_COMMIT \<and> transaction_id b = x"
  using assms by (auto simp: insert_log_def list_all2_Cons1 wal_eqv_def marker_def insert_record_def)

lemma tuple_fits_eqv: "tuple_fits tup \<Longrightarrow> tuple_eqv tup y \<Longrightarrow> tuple_fits y"
  using tuple_eqv_ok[of tup y] by (simp add: tuple_fits_def)

lemma fits_in_eqv: "tuple_ok tup \<Longrightarrow> tuple_eqv tup y \<Longrightarrow> fits_in b es y = fits_in b es tup"
  using tuple_eqv_ok[of tup y] by (simp add: fits_in_def)

text \<open>
  C12. The records appended to an empty log are read back in order, each equal to the one that was
  appended, if none of them overruns its size; a record whose last column is a string (or a null
  number) is written past the end of the buffer that is allocated for it.
\<close>

theorem log_roundtrip:
  assumes "\<forall>r \<in> set rs. wal_ok r"
  shows "if \<forall>r \<in> set rs. wal_over r = []
    then \<exists>w. rfold (\<lambda>r w. add_record w r) rs (open_wal []) = Inr w \<and>
      (2 ^ 31 \<le> length (log_bytes w) \<or> (\<exists>ss v. read_all_records w = Inr (ss, v) \<and> list_all2 wal_eqv rs ss))
    else rfold (\<lambda>r w. add_record w r) rs (open_wal []) = Inl Undefined"
proof (cases "\<forall>r \<in> set rs. wal_over r = []")
  case True
  then have rs: "\<forall>r \<in> set rs. wal_ok r \<and> wal_over r = []" using assms by blast
  let ?w = "(open_wal [])\<lparr>log_bytes := seq_enc wal_enc rs, wpos := length (seq_enc wal_enc rs)\<rparr>"
  have "rfold (\<lambda>r w. add_record w r) rs (open_wal []) = Inr ?w"
    using append_records[OF rs, of "open_wal []"] by (simp add: open_wal_def)
  moreover have "2 ^ 31 \<le> length (log_bytes ?w) \<or> (\<exists>ss v. read_all_records ?w = Inr (ss, v) \<and> list_all2 wal_eqv rs ss)"
    using read_log[OF rs, of ?w] by (fastforce simp: open_wal_def)
  ultimately show ?thesis using True by auto
next
  case False
  then obtain r where "r \<in> set rs" "wal_over r \<noteq> []" by blast
  then obtain pre post x where sp: "rs = pre @ x # post" "wal_over x \<noteq> []" "\<forall>y \<in> set pre. wal_over y = []"
    using split_list_first_prop[of rs "\<lambda>r. wal_over r \<noteq> []"] by auto
  then have "rfold (\<lambda>r w. add_record w r) pre (open_wal []) = Inr ((open_wal [])\<lparr>log_bytes := seq_enc wal_enc pre, wpos := length (seq_enc wal_enc pre)\<rparr>)"
    using append_records[of pre "open_wal []"] assms by (simp add: open_wal_def)
  then show ?thesis using sp assms False add_record_bytes[of x] by (simp add: rfold_append)
qed

text \<open>
  C6. Recovery from the log of a committed insertion appends the row to the table and empties the log.
  It does not look whether the row is there: a row that had already reached the disk is there twice.
\<close>

theorem recovery_redoes_insert:
  assumes wf: "table_wf (pool d) n t p0 ps es" and t: "map_of (heaps d) i = Some t"
    and tup: "tuple_fits tup" "\<not> t_deleted tup" "tuple_over tup = []" and ids: "in_i32 x" "in_i32 i" "rid_ok r"
    and c: "in_i32 (2 * dm_capacity (disk (pool d)) * int PAGE_SIZE)"
    and room: "fits_in (Page (int (Suc n))) [] tup" and small: "length (seq_enc wal_enc (insert_log x i r tup)) < 2 ^ 31"
  shows "\<exists>v v' d' t' n' ps' es' y. rfold (\<lambda>r w. add_record w r) (insert_log x i r tup) (open_wal []) = Inr v \<and>
    recover v d = Inr (v', d') \<and> log_bytes v' = [] \<and> map_of (heaps d') i = Some t' \<and>
    table_wf (pool d') n' t' p0 ps' es' \<and> rows ps' es' = rows ps es @ [Some (tfields y)] \<and> tuple_eqv tup y"
proof -
  let ?L = "insert_log x i r tup"
  have tok: "tuple_ok tup" using tup(1) by (simp add: tuple_fits_def)
  note ok = insert_log_ok[OF ids tok tup(3)]
  let ?v = "(open_wal [])\<lparr>log_bytes := seq_enc wal_enc ?L, wpos := length (seq_enc wal_enc ?L)\<rparr>"
  have add: "rfold (\<lambda>r w. add_record w r) ?L (open_wal []) = Inr ?v"
    using append_records[OF ok, of "open_wal []"] by (simp add: open_wal_def)
  obtain ss v where ss: "read_all_records ?v = Inr (ss, v)" "list_all2 wal_eqv ?L ss" "v = ?v\<lparr>rpos := rpos v\<rparr>"
    using read_log[OF ok, of ?v] small by (auto simp: open_wal_def)
  obtain a y b where y: "ss = [a, y, b]" "rtype a = LOG_BEGIN" "transaction_id a = x" "rtype y = LOG_INSERT"
    "transaction_id y = x" "rtable_id y = i" "tuple_eqv tup (new_tuple y)" "rtype b = LOG_COMMIT" "transaction_id b = x"
    using read_insert_log[OF ss(2)] by blast
  have ny: "\<not> t_deleted (new_tuple y)" using y(7) tup(2) by (simp add: tuple_eqv_def)
  note eqv = fits_in_eqv[OF tok y(7)]
  obtain q t' u n' ps' es' where ins: "heap_insertTuple (pool d) t (new_tuple y) = Inr (q, t', u)"
    "table_wf u n' t' p0 ps' es'" "rows ps' es' = rows ps es @ [Some (tfields (new_tuple y))]"
    using insert_appends[OF wf tuple_fits_eqv[OF tup(1) y(7)] ny c] room unfolding eqv
    by (cases "fits_in (view (pool d) (last ps)) (es (last ps)) tup") auto
  let ?d = "d\<lparr>pool := u, heaps := AList.update i t' (heaps d)\<rparr>"
  let ?w = "fold classify ss v"
  have com: "x \<in> committed_txns ?w" using y by (simp add: classify_def)
  have "replay (committed_txns ?w) y d = Inr ?d"
    using com y(4-6) t ins(1) by (simp add: replay_def with_heap_def redo_write_def)
  moreover have "replay (committed_txns ?w) a d = Inr d" "replay (committed_txns ?w) b ?d = Inr ?d"
    using y by (simp_all add: replay_def)
  ultimately have "rfold (replay (committed_txns ?w)) ss d = Inr ?d" using y(1) by simp
  then have "recover ?v d = Inr (clear_wal ?w, ?d)" using ss(1) by (simp add: recover_def)
  moreover have "map_of (heaps ?d) i = Some t'" "table_wf (pool ?d) n' t' p0 ps' es'" using ins(2) by simp_all
  moreover have "log_bytes (clear_wal ?w) = []" by (simp add: clear_wal_def)
  ultimately show ?thesis using add ins(3) y(7) by blast
qed

section \<open>Taking an insertion back\<close>

text \<open>A page that was written and marked stays marked while it is cached, so a later change of it is kept.\<close>

definition dirty_page :: "bpm \<Rightarrow> int \<Rightarrow> bool" where
  "dirty_page s p \<longleftrightarrow> (\<exists>f. map_of (page_table s) p = Some f \<and> is_dirty s ! nat f)"

lemma markAsDirty_dirty: "markAsDirty s p = Inr u \<Longrightarrow> dirty_page u p"
  by (auto simp: markAsDirty_def dirty_page_def vec_at_int_def split: option.splits if_splits)

lemma insert_dirty: "heap_insertTuple s t tup = Inr (r, t', u) \<Longrightarrow> dirty_page u (page_id r)"
  by (auto simp: heap_insertTuple_def rbind_eq_Inr Let_def dest!: markAsDirty_dirty split: prod.splits if_splits)

lemma fetch_dirty:
  assumes "fetch_frame s p = Inr (f, b, u)" "dirty_page s p"
  shows "map_of (page_table u) p = Some f \<and> is_dirty u ! nat f"
  using assms by (auto simp: fetch_frame_def fetchPage_def dirty_page_def rbind_eq_Inr split: if_splits)

lemma store_dirty:
  assumes s: "bpm_inv s n {}" and f: "cached s i f" "is_dirty s ! nat f" and b: "canon b"
  shows "bpm_inv (store_frame s f b) n {} \<and> view (store_frame s f b) = (view s)(i := b)"
proof -
  obtain t where t: "markAsDirty (store_frame s f b) (int i) = Inr t" "bpm_inv t n {}" "view t = (view s)(i := b)"
    using mark_written[OF s f(1) b] by blast
  have "(is_dirty s)[nat f := True] = is_dirty s" using f(2) by (metis list_update_id)
  then have "t = store_frame s f b"
    using t(1) f(1) by (auto simp: markAsDirty_def store_frame_def cached_def vec_at_int_def split: if_splits)
  with t(2,3) show ?thesis by simp
qed

lemma fetch_frameD: "fetch_frame s p = Inr (f, b, u) \<Longrightarrow> fetchPage s p = Inr (Some f, u) \<and> frame_at u f = Inr b"
  by (auto simp: fetch_frame_def rbind_eq_Inr get_or_ub_eq_Inr)

lemma delete_on_dirty_page:
  assumes wf: "table_wf s n t p0 ps es" and p: "p \<in> set ps" and d: "dirty_page s (int p)" and i: "i < length (es p)" "\<not> e_del (es p ! i)"
  shows "\<exists>u x. heap_deleteTuple s t (RID (int p) (int i)) = Inr (t\<lparr>num_of_tuples := num_of_tuples t - 1\<rparr>, u) \<and>
    table_wf u n t p0 ps (es(p := (es p)[i := (es p ! i)\<lparr>e_del := True, e_tuple := x\<rparr>]))"
proof -
  have pn: "1 \<le> p" "p \<le> n" using table_wfD(6)[OF wf] p by auto
  obtain f u where u: "fetch_frame s (int p) = Inr (f, view s p, u)" "bpm_inv u n {}" "same_views n s u"
    using fetch_frame_inv[OF table_wfD(1)[OF wf] pn] by blast
  have c: "cached u p f" "is_dirty u ! nat f" using fetch_dirty[OF u(1) d] by (simp_all add: cached_def)
  obtain b x where b: "Page_deleteTuple (view s p) (int i) = Inr (True, b)"
    "page_wf b ((es p)[i := (es p ! i)\<lparr>e_del := True, e_tuple := set_is_deleted x True\<rparr>])"
    "hdr_next_page_id b = hdr_next_page_id (view s p)"
    using deleteTuple_entry[OF table_wfD(9)[OF wf p] i] by blast
  have "canon b" using givesD[OF Page_deleteTuple_canon b(1)] view_canon[OF table_wfD(1)[OF wf], of p] by simp
  note st = store_dirty[OF u(2) c this]
  have "heap_deleteTuple s t (RID (int p) (int i)) = Inr (t\<lparr>num_of_tuples := num_of_tuples t - 1\<rparr>, store_frame u f b)"
    using fetch_frameD[OF u(1)] b(1) by (simp add: heap_deleteTuple_def)
  moreover have "table_wf (store_frame u f b) n t p0 ps (es(p := (es p)[i := (es p ! i)\<lparr>e_del := True, e_tuple := set_is_deleted x True\<rparr>]))"
  proof (rule table_wf_edit[OF wf _ p _ b(2,3)])
    show "view (store_frame u f b) q = view s q" if "1 \<le> q" "q \<le> n" "q \<noteq> p" for q
      using st u(3) that by (simp add: same_views_def)
  qed (use st in simp_all)
  ultimately show ?thesis by blast
qed

lemma delete_no_slot:
  assumes wf: "table_wf s n t p0 ps es" and p: "p \<in> set ps"
  shows "\<exists>u. heap_deleteTuple s t (RID (int p) (- 1)) = Inr (t\<lparr>num_of_tuples := num_of_tuples t - 1\<rparr>, u) \<and> table_wf u n t p0 ps es"
proof -
  have pn: "1 \<le> p" "p \<le> n" using table_wfD(6)[OF wf] p by auto
  obtain f u where u: "fetch_frame s (int p) = Inr (f, view s p, u)" "bpm_inv u n {}" "same_views n s u"
    using fetch_frame_inv[OF table_wfD(1)[OF wf] pn] by blast
  note ff = fetch_frameD[OF u(1)]
  have "Page_deleteTuple (view s p) (- 1) = Inr (False, view s p)" by (simp add: Page_deleteTuple_def slot_valid_def)
  then have "heap_deleteTuple s t (RID (int p) (- 1)) = Inr (t\<lparr>num_of_tuples := num_of_tuples t - 1\<rparr>, u)"
    using ff store_frame_id[of u f "view s p"] by (simp add: heap_deleteTuple_def)
  moreover have "table_wf u n t p0 ps es" by (rule table_wf_same[OF wf u(2) _ u(3)]) simp_all
  ultimately show ?thesis by blast
qed

lemma table_wf_count: "table_wf s n t p0 ps es \<Longrightarrow> table_wf s n (t\<lparr>num_of_tuples := c\<rparr>) p0 ps es"
  by (simp add: table_wf_def)

lemma grow_keeps_id: "grow_and_insert s t f tup = Inr (t', u) \<Longrightarrow> table_id t' = table_id t"
  by (auto simp: grow_and_insert_def rbind_eq_Inr Let_def)

lemma insert_keeps_id: "heap_insertTuple s t tup = Inr (r, t', u) \<Longrightarrow> table_id t' = table_id t"
  by (auto simp: heap_insertTuple_def rbind_eq_Inr Let_def dest!: grow_keeps_id split: if_splits)

lemma rows_snoc:
  assumes "table_wf s n t p0 ps es"
  shows "rows ps (es(last ps := es (last ps) @ [e])) = rows ps es @ visible_view [e]"
proof -
  have sp: "ps = butlast ps @ [last ps]" using table_wfD(2)[OF assms] by simp
  have "last ps \<notin> set (butlast ps)"
    using table_wfD(5)[OF assms] sp by (metis distinct.simps(2) distinct_append disjoint_insert(1) list.simps(15))
  then have "rows (butlast ps @ [last ps]) (es(last ps := es (last ps) @ [e])) = rows (butlast ps @ [last ps]) es @ visible_view [e]"
    by (simp add: rows_other visible_view_def del: append_butlast_last_id)
  then show ?thesis using sp by simp
qed

text \<open>One insertion and its rollback, whatever the heap does.\<close>

lemma insert_then_abort:
  assumes t: "map_of (heaps d) i = Some t" "in_i32 (table_id t)" and tup: "tuple_ok tup" "tuple_over tup = []"
    and m: "current_txn m = None" "in_i32 (next_txn_id m)"
    and ins: "heap_insertTuple (pool d) t tup = Inr (r, t', u)" "rid_ok r" and del: "heap_deleteTuple u t' r = Inr (t2, v)"
  shows "\<exists>m0 ok w1 m1 d1 m2. begin_txn m = Inr (next_txn_id m, m0) \<and> InsertTuple w m0 d i tup = Inr (ok, w1, m1, d1) \<and>
    abort_txn m1 d1 (Some (next_txn_id m)) = Inr (True, m2, d1\<lparr>pool := v, heaps := AList.update i t2 (heaps d1)\<rparr>) \<and> current_txn m2 = None"
proof -
  let ?x = "next_txn_id m" and ?wr = "\<lparr>wtype = W_INSERT, wtable = i, wrid = r, wold = Tuple []\<rparr>"
  let ?m0 = "m\<lparr>next_txn_id := ?x + 1, current_txn := Some (Transaction ?x)\<rparr>" and ?d1 = "d\<lparr>pool := u, heaps := AList.update i t' (heaps d)\<rparr>"
  let ?m1 = "push_write ?m0 ?wr"
  obtain w1 where "add_record w (insert_record ?x (table_id t) r tup) = Inr w1"
    using add_record_bytes[OF insert_record_ok[OF m(2) t(2) ins(2) tup(1)], of w] tup(2) by (auto simp: insert_record_over)
  then have "InsertTuple w ?m0 d i tup = Inr (page_id r \<noteq> - 1 \<and> slot_num r \<noteq> - 1, w1, ?m1, ?d1)"
    using ins t(1) insert_keeps_id[OF ins(1)] by (simp add: InsertTuple_def with_heap_def push_write_def get_current_transaction_def
        GetTransactionId_def Transaction_def add_write_def insert_record_def Let_def)
  moreover have "rollback_write ?wr ?d1 = Inr (?d1\<lparr>pool := v, heaps := AList.update i t2 (heaps ?d1)\<rparr>)"
    using del by (simp add: rollback_write_def with_heap_def)
  then have "abort_txn ?m1 ?d1 (Some ?x) = Inr (True, ?m1\<lparr>current_txn := None\<rparr>, ?d1\<lparr>pool := v, heaps := AList.update i t2 (heaps ?d1)\<rparr>)"
    by (simp add: abort_txn_def push_write_def Transaction_def add_write_def)
  moreover have "begin_txn m = Inr (?x, ?m0)" using m(1) by (simp add: begin_txn_def)
  ultimately show ?thesis by fastforce
qed

text \<open>
  C11. A transaction that inserts one row and is aborted: the row is hidden again when it went to the
  last page of the table. When it opened a new page, the address in the write set has slot -1, nothing
  is deleted, and the row of the aborted transaction stays in the table. The row count is as before in
  both cases.
\<close>

theorem abort_undoes_insert:
  assumes wf: "table_wf (pool d) n t p0 ps es" and t: "map_of (heaps d) i = Some t" "in_i32 (table_id t)"
    and tup: "tuple_fits tup" "\<not> t_deleted tup" "tuple_over tup = []"
    and m: "current_txn m = None" "in_i32 (next_txn_id m)"
    and c: "in_i32 (2 * dm_capacity (disk (pool d)) * int PAGE_SIZE)"
  shows "\<exists>m0 ok w1 m1 d1 m2 d2 t2 n2 ps2 es2. begin_txn m = Inr (next_txn_id m, m0) \<and>
    InsertTuple w m0 d i tup = Inr (ok, w1, m1, d1) \<and> abort_txn m1 d1 (Some (next_txn_id m)) = Inr (True, m2, d2) \<and>
    current_txn m2 = None \<and> map_of (heaps d2) i = Some t2 \<and> table_wf (pool d2) n2 t2 p0 ps2 es2 \<and>
    num_of_tuples t2 = num_of_tuples t \<and>
    rows ps2 es2 = rows ps es @
      (if fits_in (view (pool d) (last ps)) (es (last ps)) tup then [None]
       else if fits_in (Page (int (Suc n))) [] tup then [Some (tfields tup)] else [])"
proof -
  let ?x = "next_txn_id m" and ?lp = "last ps"
  have tok: "tuple_ok tup" using tup(1) by (simp add: tuple_fits_def)
  have lp: "?lp \<in> set ps" "?lp \<le> n" using table_wfD(2)[OF wf] table_wfD(6)[OF wf, of ?lp] by auto
  have ids: "in_i32 (int (Suc n))" "in_i32 (int ?lp)" "in_i32 (int (length (es ?lp)))"
    using capacity_bound[OF table_wfD(1)[OF wf]] lp(2) table_wfD(9)[OF wf lp(1)]
    by (auto simp: in_i32_def page_wf_def PAGE_SIZE_def)
  have finish: ?thesis
    if ins: "heap_insertTuple (pool d) t tup = Inr (q, t', u)" "rid_ok q"
      and del: "heap_deleteTuple u t' q = Inr (t'\<lparr>num_of_tuples := num_of_tuples t' - 1\<rparr>, v)"
      and wf2: "table_wf v n2 t' p0 ps2 es2" and cnt: "num_of_tuples t' = num_of_tuples t + 1"
      and rw: "rows ps2 es2 = rows ps es @
        (if fits_in (view (pool d) (last ps)) (es (last ps)) tup then [None]
         else if fits_in (Page (int (Suc n))) [] tup then [Some (tfields tup)] else [])" for q t' u v n2 ps2 es2
  proof -
    let ?t2 = "t'\<lparr>num_of_tuples := num_of_tuples t' - 1\<rparr>"
    obtain m0 ok w1 m1 d1 m2 where r: "begin_txn m = Inr (?x, m0)" "InsertTuple w m0 d i tup = Inr (ok, w1, m1, d1)"
      "abort_txn m1 d1 (Some ?x) = Inr (True, m2, d1\<lparr>pool := v, heaps := AList.update i ?t2 (heaps d1)\<rparr>)" "current_txn m2 = None"
      using insert_then_abort[OF t tok tup(3) m ins del] by blast
    moreover have "table_wf v n2 ?t2 p0 ps2 es2" "num_of_tuples ?t2 = num_of_tuples t" using wf2 cnt by (simp_all add: table_wf_count)
    ultimately show ?thesis using rw
      by (intro exI[of _ m0] exI[of _ ok] exI[of _ w1] exI[of _ m1] exI[of _ d1] exI[of _ m2]
          exI[of _ "d1\<lparr>pool := v, heaps := AList.update i ?t2 (heaps d1)\<rparr>"] exI[of _ ?t2] exI[of _ n2] exI[of _ ps2] exI[of _ es2]) simp
  qed
  show ?thesis
  proof (cases "fits_in (view (pool d) ?lp) (es ?lp) tup")
    case True
    let ?k = "length (es ?lp)" and ?e = "new_entry (hdr_free (view (pool d) ?lp)) tup"
    let ?es = "es(?lp := es ?lp @ [?e])"
    obtain t' u where u: "heap_insertTuple (pool d) t tup = Inr (RID (int ?lp) (int ?k), t', u)" "table_wf u n t' p0 ps ?es"
      "num_of_tuples t' = num_of_tuples t + 1"
      using insertTuple_with_room[OF wf tup(1) True] by blast
    have dirty: "dirty_page u (int ?lp)" using insert_dirty[OF u(1)] by simp
    have live: "?k < length (?es ?lp)" "\<not> e_del (?es ?lp ! ?k)" by (simp_all add: new_entry_def)
    obtain v x where v: "heap_deleteTuple u t' (RID (int ?lp) (int ?k)) = Inr (t'\<lparr>num_of_tuples := num_of_tuples t' - 1\<rparr>, v)"
      "table_wf v n t' p0 ps (?es(?lp := (?es ?lp)[?k := (?es ?lp ! ?k)\<lparr>e_del := True, e_tuple := x\<rparr>]))"
      using delete_on_dirty_page[OF u(2) lp(1) dirty live] by blast
    have eq: "?es(?lp := (?es ?lp)[?k := (?es ?lp ! ?k)\<lparr>e_del := True, e_tuple := x\<rparr>]) =
        es(?lp := es ?lp @ [?e\<lparr>e_del := True, e_tuple := x\<rparr>])" by simp
    have "rows ps (es(?lp := es ?lp @ [?e\<lparr>e_del := True, e_tuple := x\<rparr>])) = rows ps es @ [None]"
      using rows_snoc[OF wf] by (simp add: visible_view_def visible_def)
    then show ?thesis using True ids by (intro finish[OF u(1) _ v(1) v(2)[unfolded eq] u(3)]) (simp_all add: rid_ok_def)
  next
    case False
    let ?np = "Suc n"
    define es2 where "es2 = es(?np := if fits_in (Page (int ?np)) [] tup then [new_entry PAGE_SIZE tup] else [])"
    obtain t' u where u: "heap_insertTuple (pool d) t tup = Inr (RID (int ?np) (- 1), t', u)"
      "table_wf u ?np t' p0 (ps @ [?np]) es2" "num_of_tuples t' = num_of_tuples t + 1"
      using insertTuple_new_page[OF wf tup(1) False c] unfolding es2_def by blast
    obtain v where v: "heap_deleteTuple u t' (RID (int ?np) (- 1)) = Inr (t'\<lparr>num_of_tuples := num_of_tuples t' - 1\<rparr>, v)"
      "table_wf v ?np t' p0 (ps @ [?np]) es2"
      using delete_no_slot[OF u(2), of ?np] by auto
    have "?np \<notin> set ps" using table_wfD(6)[OF wf] by fastforce
    then have "rows (ps @ [?np]) es2 = rows ps es @ (if fits_in (Page (int ?np)) [] tup then [Some (tfields tup)] else [])"
      using visible_new[OF tup(2)] by (simp add: rows_other es2_def)
    then show ?thesis using False ids by (intro finish[OF u(1) _ v u(3)]) (simp_all add: rid_ok_def)
  qed
qed

section \<open>Explicit transactions\<close>

definition keeps_txn :: "(wal \<Rightarrow> txn_manager \<Rightarrow> database \<Rightarrow> (bool \<times> wal \<times> txn_manager \<times> database) res) \<Rightarrow> bool" where
  "keeps_txn body \<longleftrightarrow> (\<forall>w m d b w' m' d'. body w m d = Inr (b, w', m', d') \<longrightarrow> get_current_transaction m' = get_current_transaction m)"

lemma push_write_current [simp]: "get_current_transaction (push_write m x) = get_current_transaction m"
  by (cases "current_txn m") (simp_all add: push_write_def get_current_transaction_def add_write_def)

text \<open>No executer ends the transaction.\<close>

lemma executers_keep_txn:
  "keeps_txn (\<lambda>w m d. InsertTuple w m d i tup)" "keeps_txn (\<lambda>w m d. update_tuple w m d i r tup)"
  "keeps_txn (\<lambda>w m d. delete_tuple w m d i r)"
  by (auto simp: keeps_txn_def InsertTuple_def update_tuple_def delete_tuple_def rbind_eq_Inr Let_def split: option.splits)

text \<open>
  C13. No explicit \<^verbatim>\<open>COMMIT\<close> or \<^verbatim>\<open>ROLLBACK\<close> returns: with a running transaction its id is read after it was
  deleted, without one through a null pointer. One statement that changes rows is all a transaction has: when
  the statement runs to its end, it ends the transaction, also one that \<^verbatim>\<open>BEGIN\<close> started; when it throws, the
  exception is caught after the place of the commit and the transaction keeps running.
\<close>

theorem explicit_end_undefined:
  assumes body: "keeps_txn body"
  shows "execute_txn kCommitTransaction w m d = Inl Undefined \<and> \<not> is_ok (execute_txn kRollbackTransaction w m d) \<and>
   (case change_statement body w m d of Inl _ \<Rightarrow> True
    | Inr (ended, w', m', d') \<Rightarrow> get_current_transaction m' = None \<longleftrightarrow> ended)"
proof (intro conjI)
  show "execute_txn kCommitTransaction w m d = Inl Undefined"
    by (cases "current_txn m") (simp_all add: execute_txn_def commit_txn_def GetTransactionId_def get_current_transaction_def)
  show "\<not> is_ok (execute_txn kRollbackTransaction w m d)"
    by (cases "current_txn m")
       (auto simp: execute_txn_def abort_txn_def GetTransactionId_def get_current_transaction_def is_ok_iff rbind_eq_Inr Let_def
         split: if_splits)
  have opened: "get_current_transaction m1 \<noteq> None" if "open_statement w m = Inr (w1, m1)" for w1 m1
    using that by (auto simp: open_statement_def begin_txn_def get_current_transaction_def rbind_eq_Inr split: if_splits option.splits)
  have closed: "get_current_transaction m2 = None" if "close_statement w1 m1 = Inr (w2, m2)" for w1 m1 w2 m2
    using that by (auto simp: close_statement_def commit_txn_def GetTransactionId_def get_current_transaction_def rbind_eq_Inr Let_def
        split: if_splits)
  have kept: "get_current_transaction m2 = get_current_transaction m1" if "body w1 m1 d1 = Inr (b, w2, m2, d2)" for w1 m1 d1 b w2 m2 d2
    using body that unfolding keeps_txn_def by blast
  have "get_current_transaction m' = None \<longleftrightarrow> ended" if "change_statement body w m d = Inr (ended, w', m', d')" for ended w' m' d'
    using that unfolding change_statement_def rbind_eq_Inr
    by (auto simp: rbind_eq_Inr split: if_splits dest!: opened closed kept)
  then show "case change_statement body w m d of Inl _ \<Rightarrow> True
    | Inr (ended, w', m', d') \<Rightarrow> get_current_transaction m' = None \<longleftrightarrow> ended"
    by (auto split: sum.splits)
qed

section \<open>Witnesses\<close>

lemma demo_over: "tuple_ok demo_tuple" "tuple_over demo_tuple = []"
  using demo_tuple_fits(1)
  by (simp_all add: tuple_fits_def demo_tuple_def Tuple_def tuple_over_def seq_over_def field_enc_def field_over_def
      field_header_def field_payload_def Field_int_def Field_bool_def)

lemma demo_log: "\<forall>r \<in> set (insert_log 0 1 (RID 2 0) demo_tuple). wal_ok r \<and> wal_over r = []"
  by (rule insert_log_ok) (simp_all add: rid_ok_def in_i32_def demo_over)

lemma length_demo_log: "length (seq_enc wal_enc (insert_log 0 1 (RID 2 0) demo_tuple)) = 131"
  by (simp add: insert_log_def marker_def insert_record_def length_wal_enc demo_tuple_fits(3)) (simp add: tuple_enc_def Tuple_def)

lemma log_roundtrip_witness:
  "\<exists>w ss v. rfold (\<lambda>r w. add_record w r) (insert_log 0 1 (RID 2 0) demo_tuple) (open_wal []) = Inr w \<and>
     read_all_records w = Inr (ss, v) \<and> length ss = 3"
proof -
  let ?L = "insert_log 0 1 (RID 2 0) demo_tuple"
  obtain w where w: "rfold (\<lambda>r w. add_record w r) ?L (open_wal []) = Inr w"
    "2 ^ 31 \<le> length (log_bytes w) \<or> (\<exists>ss v. read_all_records w = Inr (ss, v) \<and> list_all2 wal_eqv ?L ss)"
    using log_roundtrip[of ?L] demo_log by auto
  have "length (log_bytes w) = 131"
    using append_records[OF demo_log, of "open_wal []"] w(1) length_demo_log by (auto simp: open_wal_def)
  with w obtain ss v where "read_all_records w = Inr (ss, v)" "list_all2 wal_eqv ?L ss" by auto
  moreover from this have "length ss = 3" by (auto simp: insert_log_def dest: list_all2_lengthD)
  ultimately show ?thesis using w(1) by blast
qed

lemma recovery_redoes_insert_witness:
  "\<exists>d v v' d' x. recover v d = Inr (v', d') \<and> map_of (heaps d) 1 \<noteq> None \<and> log_bytes v' = [] \<and> log_bytes v \<noteq> []"
proof -
  obtain dm t u where t: "DiskManager None = Inr dm" "new_table (BufferPoolManager dm) 0 = Inr (t, u)"
    "table_wf u 2 t 1 [2] (\<lambda>_. [])" "in_i32 (2 * dm_capacity (disk u) * int PAGE_SIZE)"
    using demo_table by blast
  let ?d = "\<lparr>pool = u, heaps = [(1, t)]\<rparr>"
  have wf: "table_wf (pool ?d) 2 t 1 [2] (\<lambda>_. [])" using t(3) by simp
  have len: "length (seq_enc wal_enc (insert_log 0 1 (RID 2 0) demo_tuple)) < 2 ^ 31" unfolding length_demo_log by simp
  obtain v v' d' where v: "rfold (\<lambda>r w. add_record w r) (insert_log 0 1 (RID 2 0) demo_tuple) (open_wal []) = Inr v"
    "recover v ?d = Inr (v', d')" "log_bytes v' = []"
    using recovery_redoes_insert[OF wf _ demo_tuple_fits(1,2) demo_over(2) _ _ _ _ empty_page_fits len] t(4)
    by (auto simp: rid_ok_def in_i32_def)
  have "log_bytes v \<noteq> []"
    using append_records[OF demo_log, of "open_wal []"] v(1) length_demo_log by (auto simp: open_wal_def)
  with v show ?thesis by (intro exI[of _ ?d]) auto
qed

lemma demo_open: "\<exists>w m. open_statement (open_wal []) new_txn_manager = Inr (w, m)"
proof -
  have "wal_ok (marker LOG_BEGIN 0)" "wal_over (marker LOG_BEGIN 0) = []" using demo_log by (simp_all add: insert_log_def)
  then have "\<exists>w. add_record (open_wal []) (marker LOG_BEGIN 0) = Inr w" using add_record_bytes[of "marker LOG_BEGIN 0"] by simp
  then show ?thesis by (auto simp: open_statement_def new_txn_manager_def get_current_transaction_def begin_txn_def)
qed

lemma explicit_end_undefined_witness:
  "\<forall>d. \<exists>w m. change_statement (\<lambda>w m d. Inr (False, w, m, d)) (open_wal []) new_txn_manager d = Inr (False, w, m, d) \<and>
     get_current_transaction m \<noteq> None \<and> execute_txn kCommitTransaction w m d = Inl Undefined"
proof
  fix d :: database
  let ?body = "\<lambda>(w :: wal) (m :: txn_manager) (d :: database). (Inr (False, w, m, d) :: (bool \<times> wal \<times> txn_manager \<times> database) res)"
  have k: "keeps_txn ?body" by (simp add: keeps_txn_def)
  obtain w m where wm: "open_statement (open_wal []) new_txn_manager = Inr (w, m)" using demo_open by blast
  then have c: "change_statement ?body (open_wal []) new_txn_manager d = Inr (False, w, m, d)" by (simp add: change_statement_def)
  then show "\<exists>w m. change_statement ?body (open_wal []) new_txn_manager d = Inr (False, w, m, d) \<and>
      get_current_transaction m \<noteq> None \<and> execute_txn kCommitTransaction w m d = Inl Undefined"
    using explicit_end_undefined[OF k, of "open_wal []" new_txn_manager d] explicit_end_undefined[OF k, of w m d] by auto
qed

lemma abort_undoes_insert_witness:
  "\<exists>d m0 ok w1 m1 d1 m2 d2. begin_txn new_txn_manager = Inr (0, m0) \<and>
     InsertTuple (open_wal []) m0 d 1 demo_tuple = Inr (ok, w1, m1, d1) \<and>
     abort_txn m1 d1 (Some 0) = Inr (True, m2, d2) \<and> current_txn m2 = None"
proof -
  obtain dm t u where t: "DiskManager None = Inr dm" "new_table (BufferPoolManager dm) 0 = Inr (t, u)"
    "table_wf u 2 t 1 [2] (\<lambda>_. [])" "in_i32 (2 * dm_capacity (disk u) * int PAGE_SIZE)"
    using demo_table by blast
  have tid: "table_id t = 0" using t(2) by (auto simp: new_table_def blank_table_def rbind_eq_Inr)
  let ?d = "\<lparr>pool = u, heaps = [(1, t)]\<rparr>"
  have wf: "table_wf (pool ?d) 2 t 1 [2] (\<lambda>_. [])" using t(3) by simp
  have m: "current_txn new_txn_manager = None" "in_i32 (next_txn_id new_txn_manager)" "next_txn_id new_txn_manager = 0"
    by (simp_all add: new_txn_manager_def)
  have h: "map_of (heaps ?d) 1 = Some t" "in_i32 (table_id t)" using tid by simp_all
  have c: "in_i32 (2 * dm_capacity (disk (pool ?d)) * int PAGE_SIZE)" using t(4) by simp
  from abort_undoes_insert[OF wf h demo_tuple_fits(1,2) demo_over(2) m(1,2) c, of "open_wal []"] show ?thesis
    unfolding m(3) by blast
qed

end
