(* ===== verification/Bplus_Tree.thy ===== *)
theory Bplus_Tree imports Pool_Client Rid_Model Field_Order
begin

text \<open>
  The B+ tree index (src/Storage/Indexing/BPlusTreeIndex.c++, Include/Storage/Indexing/BPlusTreeIndex.h).
  A node in memory is reached from its parent only, so the tree is a datatype and an assignment through
  \<^verbatim>\<open>Node*\<close> gives the changed tree; a null pointer in \<^verbatim>\<open>children\<close> is \<open>None\<close>. The member \<^verbatim>\<open>next\<close>, a second
  way to the right neighbour, is never read and left out. Every change of a node is written to its page
  at once, and the scans along the leaves read the pages.

  The constructor of a node leaves \<^verbatim>\<open>next_page_id\<close> uninitialised: \<open>jk\<close> gives the value it happens to have,
  by the page of the node. The fuel bounds the depth of the recursion and the number of leaves in a scan.
\<close>

record bentry =
  bkey :: field
  bval :: rid

datatype bnode = Node (isLeaf: bool) (entries: "bentry list") (keys: "field list")
  (children: "bnode option list") (children_pages_ids: "int list") (curr_page_id: int) (next_page_id: int)

record bplus_tree =
  root :: "bnode option"
  degree :: int
  meta_page_id :: int

text \<open>Assignments to the members of a node.\<close>

definition set_entries :: "bnode \<Rightarrow> bentry list \<Rightarrow> bnode" where
  "set_entries nd es = Node (isLeaf nd) es (keys nd) (children nd) (children_pages_ids nd) (curr_page_id nd) (next_page_id nd)"

definition set_keys :: "bnode \<Rightarrow> field list \<Rightarrow> bnode" where
  "set_keys nd ks = Node (isLeaf nd) (entries nd) ks (children nd) (children_pages_ids nd) (curr_page_id nd) (next_page_id nd)"

definition set_children :: "bnode \<Rightarrow> bnode option list \<Rightarrow> bnode" where
  "set_children nd cs = Node (isLeaf nd) (entries nd) (keys nd) cs (children_pages_ids nd) (curr_page_id nd) (next_page_id nd)"

definition set_pids :: "bnode \<Rightarrow> int list \<Rightarrow> bnode" where
  "set_pids nd ps = Node (isLeaf nd) (entries nd) (keys nd) (children nd) ps (curr_page_id nd) (next_page_id nd)"

definition set_next :: "bnode \<Rightarrow> int \<Rightarrow> bnode" where
  "set_next nd p = Node (isLeaf nd) (entries nd) (keys nd) (children nd) (children_pages_ids nd) (curr_page_id nd) p"

text \<open>\<^verbatim>\<open>entries = es\<close> with the loop that brings \<^verbatim>\<open>keys\<close> in line.\<close>

definition sync_keys :: "bnode \<Rightarrow> bentry list \<Rightarrow> bnode" where
  "sync_keys nd es = set_keys (set_entries nd es) (map bkey es)"

text \<open>\<^verbatim>\<open>v.insert(v.begin()+i, x)\<close>\<close>

definition insert_at :: "nat \<Rightarrow> 'a \<Rightarrow> 'a list \<Rightarrow> 'a list res" where
  "insert_at i x xs = (if i \<le> length xs then Inr (take i xs @ x # drop i xs) else Inl Undefined)"

text \<open>\<^verbatim>\<open>v.resize(n)\<close> of a vector of pointers.\<close>

definition resize_ptrs :: "nat \<Rightarrow> 'a option list \<Rightarrow> 'a option list" where
  "resize_ptrs n cs = take n cs @ replicate (n - length cs) None"

text \<open>A size compared with the degree, which is converted to \<^verbatim>\<open>size_t\<close>.\<close>

definition size_ge :: "nat \<Rightarrow> int \<Rightarrow> bool" where
  "size_ge n t \<longleftrightarrow> t mod 2 ^ 64 \<le> int n"

text \<open>A loop over a vector that gives a new vector and threads a state.\<close>

fun smap :: "('a \<Rightarrow> 's \<Rightarrow> ('b \<times> 's) res) \<Rightarrow> 'a list \<Rightarrow> 's \<Rightarrow> ('b list \<times> 's) res" where
  "smap f [] s = Inr ([], s)"
| "smap f (x # xs) s = rbind (f x s) (\<lambda>(y, s). rbind (smap f xs s) (\<lambda>(ys, s). Inr (y # ys, s)))"

lemma smap_cong [fundef_cong]:
  "xs = ys \<Longrightarrow> s = t \<Longrightarrow> (\<And>x s. x \<in> set ys \<Longrightarrow> f x s = g x s) \<Longrightarrow> smap f xs s = smap g ys t"
proof (induction ys arbitrary: xs s t)
  case (Cons y ys)
  then have "smap f ys s = smap g ys s" for s by simp
  with Cons.prems show ?case by (auto intro!: rbind_cong)
qed simp

section \<open>Serialization\<close>

definition Entry_serialize :: "bentry \<Rightarrow> buf \<Rightarrow> nat \<Rightarrow> buf res" where
  "Entry_serialize e b base =
     rbind (Field_serialize (bkey e) b base) (\<lambda>b.
     rbind (at_off base (getSerializedSize (bkey e))) (\<lambda>p. RID_serialize (bval e) b p))"

text \<open>The key of a new entry is a default constructed field, which the reader overwrites.\<close>

definition Field_new :: field where
  "Field_new = \<lparr>fieldType = TYPE_NULL, fsize = 0, is_null = False, fval = VALUE_NONE\<rparr>"

definition Entry_deserialize :: "buf \<Rightarrow> nat \<Rightarrow> bentry res" where
  "Entry_deserialize b base =
     rbind (Field_deserialize Field_new b base) (\<lambda>k.
     rbind (at_off base (getSerializedSize k)) (\<lambda>p. rbind (RID_deserialize b p) (\<lambda>r.
     Inr \<lparr>bkey = k, bval = r\<rparr>)))"

definition entry_size :: "bentry \<Rightarrow> int" where
  "entry_size e = getSerializedSize (bkey e) + int RID_size"

fun ser_entries :: "bentry list \<Rightarrow> buf \<Rightarrow> int \<Rightarrow> buf res" where
  "ser_entries [] b off = Inr b"
| "ser_entries (e # es) b off =
     rbind (at_off 0 off) (\<lambda>p. rbind (Entry_serialize e b p) (\<lambda>b. ser_entries es b (off + entry_size e)))"

fun ser_keys :: "field list \<Rightarrow> buf \<Rightarrow> int \<Rightarrow> (buf \<times> int) res" where
  "ser_keys [] b off = Inr (b, off)"
| "ser_keys (k # ks) b off =
     rbind (at_off 0 off) (\<lambda>p. rbind (Field_serialize k b p) (\<lambda>b. ser_keys ks b (off + getSerializedSize k)))"

fun ser_children :: "bnode option list \<Rightarrow> buf \<Rightarrow> int \<Rightarrow> buf res" where
  "ser_children [] b off = Inr b"
| "ser_children (c # cs) b off =
     rbind (get_or_ub c) (\<lambda>c. rbind (at_off 0 off) (\<lambda>p.
     rbind (memcpy_to b p (i32_bytes (curr_page_id c))) (\<lambda>b. ser_children cs b (off + 4))))"

definition Node_serialize :: "bnode \<Rightarrow> buf \<Rightarrow> buf res" where
  "Node_serialize nd b =
     rbind (memcpy_to b 14 [bool_byte (isLeaf nd)]) (\<lambda>b.
     rbind (memcpy_to b 15 (i32_bytes (int (if isLeaf nd then length (entries nd) else length (keys nd))))) (\<lambda>b.
     rbind (memcpy_to b 19 (i32_bytes (next_page_id nd))) (\<lambda>b.
     if isLeaf nd then ser_entries (entries nd) b 23
     else rbind (ser_keys (keys nd) b 23) (\<lambda>(b, off). ser_children (children nd) b off))))"

fun des_entries :: "nat \<Rightarrow> buf \<Rightarrow> int \<Rightarrow> bentry list res" where
  "des_entries 0 b off = Inr []"
| "des_entries (Suc n) b off =
     rbind (at_off 0 off) (\<lambda>p. rbind (Entry_deserialize b p) (\<lambda>e.
     rbind (des_entries n b (off + entry_size e)) (\<lambda>es. Inr (e # es))))"

fun des_keys :: "nat \<Rightarrow> buf \<Rightarrow> int \<Rightarrow> (field list \<times> int) res" where
  "des_keys 0 b off = Inr ([], off)"
| "des_keys (Suc n) b off =
     rbind (at_off 0 off) (\<lambda>p. rbind (Field_deserialize Field_new b p) (\<lambda>k.
     rbind (des_keys n b (off + getSerializedSize k)) (\<lambda>(ks, off). Inr (k # ks, off))))"

fun des_pids :: "nat \<Rightarrow> buf \<Rightarrow> int \<Rightarrow> int list res" where
  "des_pids 0 b off = Inr []"
| "des_pids (Suc n) b off =
     rbind (at_off 0 off) (\<lambda>p. rbind (memcpy_from b p 4) (\<lambda>v.
     rbind (des_pids n b (off + 4)) (\<lambda>ps. Inr (i32_val v # ps))))"

text \<open>A leaf that is read back has no \<^verbatim>\<open>keys\<close>.\<close>

definition Node_deserialize :: "int \<Rightarrow> buf \<Rightarrow> bnode res" where
  "Node_deserialize pid b =
     rbind (memcpy_from b 14 1) (\<lambda>l.
     rbind (memcpy_from b 15 4) (\<lambda>n.
     rbind (memcpy_from b 19 4) (\<lambda>np.
     if l \<noteq> [0] then rbind (des_entries (nat (i32_val n)) b 23) (\<lambda>es. Inr (Node True es [] [] [] pid (i32_val np)))
     else rbind (des_keys (nat (i32_val n)) b 23) (\<lambda>(ks, off).
       rbind (if 0 < i32_val n then des_pids (Suc (nat (i32_val n))) b off else Inr []) (\<lambda>ps.
       Inr (Node False [] ks [] ps pid (i32_val np)))))))"

text \<open>\<^verbatim>\<open>buf = bpm->fetchPage(id); node->serialize(buf); bpm->markAsDirty(id)\<close>\<close>

definition write_node :: "bnode \<Rightarrow> bpm \<Rightarrow> bpm res" where
  "write_node nd s =
     rbind (fetch_frame s (curr_page_id nd)) (\<lambda>(f, b, s).
     rbind (Node_serialize nd b) (\<lambda>b. markAsDirty (store_frame s f b) (curr_page_id nd)))"

fun loadNode :: "nat \<Rightarrow> int \<Rightarrow> bpm \<Rightarrow> (bnode option \<times> bpm) res" where
  "loadNode 0 pid s = Inl Diverges"
| "loadNode (Suc k) pid s =
     (if pid \<le> - 1 then Inr (None, s)
      else rbind (fetch_frame s pid) (\<lambda>(f, b, s).
        rbind (Node_deserialize pid b) (\<lambda>nd.
        if isLeaf nd then Inr (Some nd, s)
        else rbind (smap (loadNode k) (children_pages_ids nd) s) (\<lambda>(cs, s).
          Inr (Some (set_children nd (filter (\<lambda>c. c \<noteq> None) cs)), s)))))"

fun saveNode :: "nat \<Rightarrow> bnode option \<Rightarrow> bpm \<Rightarrow> (bnode option \<times> bpm) res" where
  "saveNode 0 nd s = Inl Diverges"
| "saveNode (Suc k) None s = Inr (None, s)"
| "saveNode (Suc k) (Some nd) s =
     (let nd = set_pids nd (if isLeaf nd then [] else map (curr_page_id \<circ> the) (filter (\<lambda>c. c \<noteq> None) (children nd))) in
      rbind (write_node nd s) (\<lambda>s.
      if isLeaf nd then Inr (Some nd, s)
      else rbind (smap (saveNode k) (children nd) s) (\<lambda>(cs, s). Inr (Some (set_children nd cs), s))))"

text \<open>The metadata lies at the start of its page, over the page header.\<close>

definition saveBPlusTree :: "nat \<Rightarrow> bplus_tree \<Rightarrow> bpm \<Rightarrow> (bplus_tree \<times> bpm) res" where
  "saveBPlusTree k tr s =
     rbind (fetch_frame s (meta_page_id tr)) (\<lambda>(f, b, s).
     rbind (memcpy_to b 0 (i32_bytes (degree tr))) (\<lambda>b.
     rbind (memcpy_to b 4 (i32_bytes (case root tr of None \<Rightarrow> - 1 | Some nd \<Rightarrow> curr_page_id nd))) (\<lambda>b.
     rbind (markAsDirty (store_frame s f b) (meta_page_id tr)) (\<lambda>s.
     rbind (saveNode k (root tr) s) (\<lambda>(r, s). Inr (tr\<lparr>root := r\<rparr>, s))))))"

definition loadBPlusTree :: "nat \<Rightarrow> bplus_tree \<Rightarrow> bpm \<Rightarrow> (bplus_tree \<times> bpm) res" where
  "loadBPlusTree k tr s =
     rbind (fetch_frame s (meta_page_id tr)) (\<lambda>(f, b, s).
     rbind (memcpy_from b 0 4) (\<lambda>t. rbind (memcpy_from b 4 4) (\<lambda>r.
     rbind (if i32_val r \<noteq> - 1 then loadNode k (i32_val r) s else Inr (None, s)) (\<lambda>(nd, s).
     Inr (tr\<lparr>root := nd, degree := i32_val t\<rparr>, s)))))"

section \<open>Insertion\<close>

definition child_at :: "bnode \<Rightarrow> nat \<Rightarrow> bnode res" where
  "child_at nd i = rbind (vec_at (children nd) i) get_or_ub"

definition set_child :: "bnode \<Rightarrow> nat \<Rightarrow> bnode \<Rightarrow> bnode" where
  "set_child nd i c = set_children nd ((children nd)[i := Some c])"

text \<open>\<^verbatim>\<open>lower_bound\<close> of the library: binary search for the first element that is not smaller.\<close>

function lower_bound :: "('a \<Rightarrow> bool res) \<Rightarrow> 'a list \<Rightarrow> nat res" where
  "lower_bound before xs =
     (if xs = [] then Inr 0
      else let h = length xs div 2 in rbind (before (xs ! h)) (\<lambda>b.
        if b then rbind (lower_bound before (drop (Suc h) xs)) (\<lambda>i. Inr (Suc h + i))
        else lower_bound before (take h xs)))"
  by pat_completeness auto
termination by (relation "measure (\<lambda>(before, xs). length xs)") auto

declare lower_bound.simps [simp del]

text \<open>
  A full child is split in two: the new right node takes the upper part, a leaf keeps all its keys and
  its first key becomes the separator, an inner node gives its middle key to the parent.
\<close>

definition split_node :: "(int \<Rightarrow> int) \<Rightarrow> int \<Rightarrow> int \<Rightarrow> bnode \<Rightarrow> (field \<times> bnode \<times> bnode) res" where
  "split_node jk t np child =
     (let n = nat t; new = Node (isLeaf child) [] [] [] [] np (jk np) in
      if isLeaf child then
        rbind (guard_ub (1 \<le> t \<and> n - 1 < length (entries child))) (\<lambda>_.
        let new = set_next (sync_keys new (drop (n - 1) (entries child))) (next_page_id child);
            child = set_next (sync_keys child (take (n - 1) (entries child))) np
        in Inr (bkey (hd (entries new)), child, new))
      else
        rbind (guard_ub (1 \<le> t \<and> n \<le> length (keys child) \<and> n \<le> length (children_pages_ids child) \<and> n \<le> length (children child))) (\<lambda>_.
        let new = set_children (set_pids (set_keys new (drop n (keys child))) (drop n (children_pages_ids child))) (drop n (children child));
            sep = keys child ! (n - 1);
            child = set_children (set_pids (set_keys child (take (n - 1) (keys child))) (take n (children_pages_ids child))) (take n (children child))
        in Inr (sep, child, new)))"

definition splitChild :: "(int \<Rightarrow> int) \<Rightarrow> int \<Rightarrow> bnode \<Rightarrow> nat \<Rightarrow> bpm \<Rightarrow> (bnode \<times> bpm) res" where
  "splitChild jk t parent index s =
     rbind (child_at parent index) (\<lambda>child.
     rbind (newPage s) (\<lambda>(np, s).
     rbind (split_node jk t np child) (\<lambda>(sep, child, new).
     rbind (insert_at index sep (keys parent)) (\<lambda>ks.
     rbind (insert_at (Suc index) (Some new) ((children parent)[index := Some child])) (\<lambda>cs.
     rbind (insert_at (Suc index) np (children_pages_ids parent)) (\<lambda>ps.
     rbind (write_node child s) (\<lambda>s. rbind (write_node new s) (\<lambda>s.
     Inr (set_pids (set_children (set_keys parent ks) cs) ps, s)))))))))"

text \<open>The loop from the last key down to the first that is not larger; the result is one behind it.\<close>

fun key_slot :: "field \<Rightarrow> field list \<Rightarrow> nat \<Rightarrow> nat res" where
  "key_slot key ks 0 = Inr 0"
| "key_slot key ks (Suc i) = rbind (vec_at ks i) (\<lambda>k. rbind (field_lt False key k) (\<lambda>b.
     if b then key_slot key ks i else Inr (Suc i)))"

text \<open>A child whose pointer is missing is loaded from its page.\<close>

definition ensure_child :: "nat \<Rightarrow> nat \<Rightarrow> bnode \<Rightarrow> bpm \<Rightarrow> (bnode \<times> bpm) res" where
  "ensure_child k i nd s =
     (let cs = (if length (children nd) \<le> i then resize_ptrs (length (children_pages_ids nd)) (children nd) else children nd) in
      rbind (vec_at cs i) (\<lambda>c. case c of
        Some _ \<Rightarrow> Inr (set_children nd cs, s)
      | None \<Rightarrow> rbind (vec_at (children_pages_ids nd) i) (\<lambda>p. rbind (loadNode k p s) (\<lambda>(c, s).
          Inr (set_children nd (cs[i := c]), s)))))"

definition node_size :: "bnode \<Rightarrow> nat" where
  "node_size nd = (if isLeaf nd then length (entries nd) else length (keys nd))"

fun insertNonFull :: "nat \<Rightarrow> (int \<Rightarrow> int) \<Rightarrow> int \<Rightarrow> bnode \<Rightarrow> field \<Rightarrow> rid \<Rightarrow> bpm \<Rightarrow> (bnode \<times> bpm) res" where
  "insertNonFull 0 jk t nd key val s = Inl Diverges"
| "insertNonFull (Suc k) jk t nd key val s =
     (if isLeaf nd then
        rbind (lower_bound (\<lambda>e. field_lt False (bkey e) key) (entries nd)) (\<lambda>i.
        rbind (insert_at i \<lparr>bkey = key, bval = val\<rparr> (entries nd)) (\<lambda>es.
        let nd = sync_keys nd es in rbind (write_node nd s) (\<lambda>s. Inr (nd, s))))
      else
        rbind (key_slot key (keys nd) (length (keys nd))) (\<lambda>i.
        rbind (ensure_child k i nd s) (\<lambda>(nd, s).
        rbind (child_at nd i) (\<lambda>child.
        rbind (if int (node_size child) = 2 * t - 1 then
            rbind (splitChild jk t nd i s) (\<lambda>(nd, s).
            rbind (vec_at (keys nd) i) (\<lambda>sep. rbind (field_gt False key sep) (\<lambda>b.
            Inr (if b then Suc i else i, nd, s))))
          else Inr (i, nd, s)) (\<lambda>(i, nd, s).
        rbind (child_at nd i) (\<lambda>child.
        rbind (insertNonFull k jk t child key val s) (\<lambda>(child, s).
        let nd = set_child nd i child in rbind (write_node nd s) (\<lambda>s. Inr (nd, s)))))))))"

definition bp_insert :: "nat \<Rightarrow> (int \<Rightarrow> int) \<Rightarrow> bplus_tree \<Rightarrow> field \<Rightarrow> rid \<Rightarrow> bpm \<Rightarrow> (bplus_tree \<times> bpm) res" where
  "bp_insert k jk tr key val s =
     (case root tr of
        None \<Rightarrow> rbind (newPage s) (\<lambda>(p, s).
          let nd = Node True [\<lparr>bkey = key, bval = val\<rparr>] [key] [] [] p (jk p)
          in rbind (write_node nd s) (\<lambda>s. Inr (tr\<lparr>root := Some nd\<rparr>, s)))
      | Some r \<Rightarrow>
          rbind (if int (node_size r) = 2 * degree tr - 1 then
              rbind (newPage s) (\<lambda>(p, s). splitChild jk (degree tr) (Node False [] [] [Some r] [curr_page_id r] p (jk p)) 0 s)
            else Inr (r, s)) (\<lambda>(r, s).
          rbind (insertNonFull k jk (degree tr) r key val s) (\<lambda>(r, s). Inr (tr\<lparr>root := Some r\<rparr>, s))))"

section \<open>Search\<close>

text \<open>The way down counts the leading keys that pass a test; missing children are loaded on the way.\<close>

fun skip_keys :: "(field \<Rightarrow> bool res) \<Rightarrow> field list \<Rightarrow> nat res" where
  "skip_keys pass [] = Inr 0"
| "skip_keys pass (k # ks) = rbind (pass k) (\<lambda>b. if b then rbind (skip_keys pass ks) (\<lambda>i. Inr (Suc i)) else Inr 0)"

fun descend :: "nat \<Rightarrow> (field \<Rightarrow> bool res) \<Rightarrow> bnode \<Rightarrow> bpm \<Rightarrow> (bnode \<times> bnode \<times> bpm) res" where
  "descend 0 pass nd s = Inl Diverges"
| "descend (Suc k) pass nd s =
     (if isLeaf nd then Inr (nd, nd, s)
      else rbind (skip_keys pass (keys nd)) (\<lambda>i.
        rbind (ensure_child k i nd s) (\<lambda>(nd, s).
        rbind (child_at nd i) (\<lambda>child.
        rbind (descend k pass child s) (\<lambda>(leaf, child, s). Inr (leaf, set_child nd i child, s))))))"

fun leaf_search :: "field \<Rightarrow> bentry list \<Rightarrow> bool res" where
  "leaf_search key [] = Inr False"
| "leaf_search key (e # es) = rbind (field_eq (bkey e) key) (\<lambda>b. if b then Inr True
     else rbind (field_gt False (bkey e) key) (\<lambda>g. if g then Inr False else leaf_search key es))"

definition bp_search :: "nat \<Rightarrow> bplus_tree \<Rightarrow> field \<Rightarrow> bpm \<Rightarrow> (bool \<times> bplus_tree \<times> bpm) res" where
  "bp_search k tr key s =
     (case root tr of None \<Rightarrow> Inr (False, tr, s)
      | Some r \<Rightarrow> rbind (descend k (\<lambda>x. field_ge False key x) r s) (\<lambda>(leaf, r, s).
          rbind (leaf_search key (entries leaf)) (\<lambda>b. Inr (b, tr\<lparr>root := Some r\<rparr>, s))))"

text \<open>One leaf: the addresses found, and whether the scan goes on to the next leaf.\<close>

fun leaf_equal :: "field \<Rightarrow> bentry list \<Rightarrow> (rid list \<times> bool) res" where
  "leaf_equal key [] = Inr ([], True)"
| "leaf_equal key (e # es) = rbind (field_eq (bkey e) key) (\<lambda>b.
     if b then rbind (leaf_equal key es) (\<lambda>(rs, more). Inr (bval e # rs, more))
     else rbind (field_gt False (bkey e) key) (\<lambda>g. if g then Inr ([], False) else leaf_equal key es))"

fun leaf_range :: "field \<Rightarrow> field \<Rightarrow> bentry list \<Rightarrow> (rid list \<times> bool) res" where
  "leaf_range lower upper [] = Inr ([], True)"
| "leaf_range lower upper (e # es) =
     rbind (field_ge False (bkey e) lower) (\<lambda>a.
     rbind (if a then field_le False (bkey e) upper else Inr False) (\<lambda>b.
     rbind (field_gt False (bkey e) upper) (\<lambda>g.
     let found = (if b then [bval e] else []) in
     if g then Inr (found, False)
     else rbind (leaf_range lower upper es) (\<lambda>(rs, more). Inr (found @ rs, more)))))"

text \<open>The walk along the leaves, which reads every leaf but the first from its page.\<close>

fun leaf_walk :: "nat \<Rightarrow> (bentry list \<Rightarrow> (rid list \<times> bool) res) \<Rightarrow> bnode \<Rightarrow> bpm \<Rightarrow> (rid list \<times> bpm) res" where
  "leaf_walk 0 visit nd s = Inl Diverges"
| "leaf_walk (Suc k) visit nd s =
     rbind (visit (entries nd)) (\<lambda>(rs, more).
     if \<not> more \<or> next_page_id nd \<le> - 1 then Inr (rs, s)
     else rbind (loadNode k (next_page_id nd) s) (\<lambda>(nx, s).
       case nx of None \<Rightarrow> Inr (rs, s)
       | Some nx \<Rightarrow> rbind (leaf_walk k visit nx s) (\<lambda>(qs, s). Inr (rs @ qs, s))))"

definition findValue :: "nat \<Rightarrow> bplus_tree \<Rightarrow> field \<Rightarrow> bpm \<Rightarrow> (rid list \<times> bplus_tree \<times> bpm) res" where
  "findValue k tr key s =
     (case root tr of None \<Rightarrow> Inr ([], tr, s)
      | Some r \<Rightarrow> rbind (descend k (\<lambda>x. field_ge False key x) r s) (\<lambda>(leaf, r, s).
          rbind (leaf_walk k (leaf_equal key) leaf s) (\<lambda>(rs, s). Inr (rs, tr\<lparr>root := Some r\<rparr>, s))))"

definition rangeQuery :: "nat \<Rightarrow> bplus_tree \<Rightarrow> field \<Rightarrow> field \<Rightarrow> bpm \<Rightarrow> (rid list \<times> bplus_tree \<times> bpm) res" where
  "rangeQuery k tr lower upper s =
     (case root tr of None \<Rightarrow> Inr ([], tr, s)
      | Some r \<Rightarrow> rbind (descend k (\<lambda>x. field_gt False lower x) r s) (\<lambda>(leaf, r, s).
          rbind (leaf_walk k (leaf_range lower upper) leaf s) (\<lambda>(rs, s). Inr (rs, tr\<lparr>root := Some r\<rparr>, s))))"

end
