(* ===== verification/Bplus_Page.thy ===== *)
theory Bplus_Page imports Bplus_Tree
begin

text \<open>
  Nodes of the B+ tree on their pages: the bytes a node writes, that reading them back gives the node,
  and what writing and loading a node do to the pages of the pool.
\<close>

section \<open>Entries and keys\<close>

definition key_ok :: "FieldType \<Rightarrow> nat \<Rightarrow> field \<Rightarrow> bool" where
  "key_ok ty m k \<longleftrightarrow> comparable ty k \<and> length (field_enc k) \<le> m"

definition bentry_ok :: "FieldType \<Rightarrow> nat \<Rightarrow> bentry \<Rightarrow> bool" where
  "bentry_ok ty m e \<longleftrightarrow> key_ok ty m (bkey e) \<and> rid_ok (bval e)"

definition bentry_enc :: "bentry \<Rightarrow> byte list" where
  "bentry_enc e = field_enc (bkey e) @ rid_enc (bval e)"

lemma key_okD: "key_ok ty m k \<Longrightarrow> comparable ty k" "key_ok ty m k \<Longrightarrow> field_ok k" "key_ok ty m k \<Longrightarrow> \<not> is_null k"
  "key_ok ty m k \<Longrightarrow> length (field_enc k) \<le> m"
  by (auto simp: key_ok_def comparable_def)

lemma field_over_le: "key_ok ty m k \<Longrightarrow> length (field_over k) \<le> 1"
  using field_over_length[of k]
  by (auto simp: key_ok_def comparable_def field_ok_def elim: comparable_cases[of ty k])

lemma field_eqv_non_null: "field_eqv f g \<Longrightarrow> \<not> is_null f \<Longrightarrow> g = f"
  by (auto simp: field_eqv_def intro!: field.equality)

lemma entry_size_enc: "bentry_ok ty m e \<Longrightarrow> entry_size e = int (length (bentry_enc e))"
  using length_field_enc[of "bkey e"] by (simp add: bentry_ok_def key_ok_def comparable_def entry_size_def bentry_enc_def RID_size_def)

lemma length_bentry_enc: "bentry_ok ty m e \<Longrightarrow> length (bentry_enc e) \<le> m + 16"
  by (simp add: bentry_ok_def key_ok_def bentry_enc_def)

lemma Entry_serialize_bytes:
  assumes "bentry_ok ty m e"
  shows "Entry_serialize e b off = memcpy_to b off (bentry_enc e)"
proof -
  have k: "field_ok (bkey e)" "length (field_over (bkey e)) \<le> 16"
    using assms field_over_le[of ty m "bkey e"] by (auto simp: bentry_ok_def dest: key_okD)
  have "at_off off (getSerializedSize (bkey e)) = Inr (off + length (field_enc (bkey e)))"
    using length_field_enc[OF k(1)] by (simp add: at_off_def nat_add_distrib)
  then have "Entry_serialize e b off =
      rbind (memcpy_to b off (field_enc (bkey e) @ field_over (bkey e))) (\<lambda>b. memcpy_to b (off + length (field_enc (bkey e))) (rid_enc (bval e)))"
    using k(1) by (simp add: Entry_serialize_def Field_serialize_bytes RID_serialize_bytes)
  then show ?thesis using k(2) unfolding memcpy_to_overlay by (simp add: bentry_enc_def)
qed

lemma Entry_deserialize_back:
  assumes e: "bentry_ok ty m e" and p: "peek (mem b) off (length (bentry_enc e)) = bentry_enc e" and c: "off + length (bentry_enc e) \<le> cap b"
  shows "Entry_deserialize b off = Inr e"
proof -
  have k: "field_ok (bkey e)" "length (field_over (bkey e)) \<le> 16" "\<not> is_null (bkey e)" "rid_ok (bval e)"
    using e field_over_le[of ty m "bkey e"] by (auto simp: bentry_ok_def dest: key_okD)
  note pk = peek_conc[OF p[unfolded bentry_enc_def]]
  obtain g where g: "Field_deserialize Field_new b off = Inr g" "field_eqv (bkey e) g"
    using Field_deserialize_back[OF k(1) pk(1)] k(2) c by (auto simp: bentry_enc_def)
  have "g = bkey e" using field_eqv_non_null[OF g(2)] k(3) by simp
  moreover have "at_off off (getSerializedSize (bkey e)) = Inr (off + length (field_enc (bkey e)))"
    using length_field_enc[OF k(1)] by (simp add: at_off_def nat_add_distrib)
  moreover have "RID_deserialize b (off + length (field_enc (bkey e))) = Inr (bval e)"
    using RID_deserialize_back[OF k(4)] pk(2) c by (simp add: bentry_enc_def)
  ultimately show ?thesis using g(1) by (simp add: Entry_deserialize_def)
qed

interpretation entry: codec Entry_serialize Entry_deserialize "\<lambda>e. nat (entry_size e)" bentry_enc "\<lambda>_. []" "bentry_ok ty m" "(=)" for ty m
  by unfold_locales (simp_all add: Entry_serialize_bytes Entry_deserialize_back entry_size_enc)

interpretation bkeys: codec Field_serialize "Field_deserialize Field_new" "\<lambda>k. nat (getSerializedSize k)" field_enc field_over "key_ok ty m" "(=)" for ty m
proof unfold_locales
  fix x b off
  assume x: "key_ok ty m x"
  show "Field_serialize x b off = memcpy_to b off (field_enc x @ field_over x)" by (rule Field_serialize_bytes[OF key_okD(2)[OF x]])
  show "nat (getSerializedSize x) = length (field_enc x)" by (rule serialized_size_nat[OF key_okD(2)[OF x]])
  show "peek (mem b) off (length (field_enc x)) = field_enc x \<Longrightarrow> off + length (field_enc x @ field_over x) \<le> cap b \<Longrightarrow>
      \<exists>y. Field_deserialize Field_new b off = Inr y \<and> x = y"
    using Field_deserialize_back[OF key_okD(2)[OF x]] field_eqv_non_null key_okD(3)[OF x] by blast
qed simp

section \<open>Bytes of a node\<close>

lemma ser_entries_write:
  "\<forall>e \<in> set es. bentry_ok ty m e \<Longrightarrow> ser_entries es b (int off) = write_seq Entry_serialize (\<lambda>e. nat (entry_size e)) es b off"
  by (induction es arbitrary: b off) (auto simp: at_off_def entry_size_enc simp flip: of_nat_add intro!: rbind_cong)

lemma ser_keys_write:
  "\<forall>k \<in> set ks. key_ok ty m k \<Longrightarrow> ser_keys ks b (int off) =
     rbind (write_seq Field_serialize (\<lambda>k. nat (getSerializedSize k)) ks b off) (\<lambda>b. Inr (b, int (off + length (seq_enc field_enc ks))))"
proof (induction ks arbitrary: b off)
  case (Cons k ks)
  have "getSerializedSize k = int (length (field_enc k))" using Cons.prems length_field_enc[of k] by (auto dest: key_okD)
  then show ?case using Cons by (auto simp: at_off_def rbind_assoc add.assoc simp flip: of_nat_add intro!: rbind_cong)
qed simp

definition pid_bytes :: "int list \<Rightarrow> byte list" where
  "pid_bytes ps = concat (map i32_bytes ps)"

lemma pid_bytes_simps [simp]: "pid_bytes [] = []" "pid_bytes (p # ps) = i32_bytes p @ pid_bytes ps" "length (pid_bytes ps) = 4 * length ps"
  by (induction ps) (simp_all add: pid_bytes_def)

lemma ser_children_bytes:
  "off + length (pid_bytes (map curr_page_id cs)) \<le> cap b \<Longrightarrow>
   ser_children (map Some cs) b (int off) = memcpy_to b off (pid_bytes (map curr_page_id cs))"
proof (induction cs arbitrary: b off)
  case (Cons c cs)
  have "ser_children (map Some (c # cs)) b (int off) =
      rbind (memcpy_to b off (i32_bytes (curr_page_id c))) (\<lambda>b. ser_children (map Some cs) b (int (off + 4)))"
    by (simp add: at_off_def add.commute)
  also have "\<dots> = rbind (memcpy_to b off (i32_bytes (curr_page_id c))) (\<lambda>b. memcpy_to b (off + 4) (pid_bytes (map curr_page_id cs)))"
    using Cons.IH[of "off + 4"] Cons.prems by (auto simp: memcpy_to_eq_Inr simp del: of_nat_add intro!: rbind_cong)
  finally show ?case using memcpy_to_append[of b off "i32_bytes (curr_page_id c)"] by simp
qed (simp add: memcpy_to_def)

lemma seq_over_le:
  "\<forall>x \<in> set xs. length (over x) \<le> d \<Longrightarrow> length (seq_over enc over xs) \<le> d"
proof (induction xs)
  case (Cons x xs)
  have "seq_over enc over (x # xs) = seq_over enc over xs @ drop (length (seq_enc enc xs) + length (seq_over enc over xs)) (over x)"
    unfolding seq_over_def[of enc over "x # xs"] by (simp add: Let_def seq_bytes_split[of enc over xs])
  then show ?case using Cons by (auto simp: max_def)
qed (simp add: seq_over_def)

text \<open>What a node writes behind the page header.\<close>

definition node_enc :: "bnode \<Rightarrow> byte list" where
  "node_enc nd = bool_byte (isLeaf nd) # i32_bytes (int (node_size nd)) @ i32_bytes (next_page_id nd) @
     (if isLeaf nd then seq_enc bentry_enc (entries nd)
      else seq_enc field_enc (keys nd) @ pid_bytes (children_pages_ids nd))"

definition node_ok :: "FieldType \<Rightarrow> nat \<Rightarrow> bnode \<Rightarrow> bool" where
  "node_ok ty m nd \<longleftrightarrow> in_i32 (int (node_size nd)) \<and> in_i32 (next_page_id nd) \<and> 14 + length (node_enc nd) \<le> PAGE_SIZE \<and>
     (if isLeaf nd then \<forall>e \<in> set (entries nd). bentry_ok ty m e
      else keys nd \<noteq> [] \<and> (\<forall>k \<in> set (keys nd). key_ok ty m k) \<and> (\<forall>p \<in> set (children_pages_ids nd). in_i32 p) \<and>
        length (children_pages_ids nd) = Suc (length (keys nd)) \<and>
        (\<exists>cs. children nd = map Some cs \<and> children_pages_ids nd = map curr_page_id cs))"

lemma node_head:
  "rbind (memcpy_to b 14 [x]) (\<lambda>b. rbind (memcpy_to b 15 (i32_bytes n)) (\<lambda>b. rbind (memcpy_to b 19 (i32_bytes p)) f)) =
   rbind (memcpy_to b 14 (x # i32_bytes n @ i32_bytes p)) f"
  using arg_cong[OF memcpy_to_append3[of b 14 "[x]" "i32_bytes n" "i32_bytes p"], of "\<lambda>m. rbind m f"] by (simp add: rbind_assoc)

lemma Node_serialize_bytes:
  assumes ok: "node_ok ty m nd" and c: "cap b = PAGE_SIZE"
  shows "Node_serialize nd b = Inr (b\<lparr>mem := put (mem b) 14 (node_enc nd)\<rparr>)"
proof -
  let ?h = "bool_byte (isLeaf nd) # i32_bytes (int (node_size nd)) @ i32_bytes (next_page_id nd)"
  have l: "14 + length (node_enc nd) \<le> PAGE_SIZE" using ok by (simp add: node_ok_def)
  have n: "int (if isLeaf nd then length (entries nd) else length (keys nd)) = int (node_size nd)" by (simp add: node_size_def)
  have "Node_serialize nd b = memcpy_to b 14 (node_enc nd)"
  proof (cases "isLeaf nd")
    case True
    then have es: "\<forall>e \<in> set (entries nd). bentry_ok ty m e" and e: "node_enc nd = ?h @ seq_enc bentry_enc (entries nd)"
      using ok by (simp_all add: node_ok_def node_enc_def)
    have "ser_entries (entries nd) b 23 = memcpy_to b 23 (seq_enc bentry_enc (entries nd))" if "cap b = PAGE_SIZE" for b
      using that l entry.write_seq_bytes[OF es, of 23 b] ser_entries_write[OF es, of b 23] by (simp add: PAGE_SIZE_def)
    then have "rbind (memcpy_to b 14 ?h) (\<lambda>b. ser_entries (entries nd) b 23) = memcpy_to b 14 (?h @ seq_enc bentry_enc (entries nd))"
      using c by (intro memcpy_then) simp_all
    then show ?thesis unfolding Node_serialize_def n node_head e using True by simp
  next
    case False
    obtain cs where cs: "children nd = map Some cs" "children_pages_ids nd = map curr_page_id cs" "length cs = Suc (length (keys nd))"
      using ok False by (auto simp: node_ok_def)
    have ks: "keys nd \<noteq> []" "\<forall>k \<in> set (keys nd). key_ok ty m k" and e: "node_enc nd = ?h @ seq_enc field_enc (keys nd) @ pid_bytes (map curr_page_id cs)"
      using ok False cs by (auto simp: node_ok_def node_enc_def)
    let ?o = "seq_over field_enc field_over (keys nd)" and ?k = "seq_enc field_enc (keys nd)" and ?p = "pid_bytes (map curr_page_id cs)"
    have o: "length ?o \<le> length ?p" using seq_over_le[of "keys nd" field_over 1 field_enc] ks(2) field_over_le cs(3) by fastforce
    have room: "23 + length ?k + length ?p \<le> PAGE_SIZE" using l by (simp add: e)
    have "rbind (ser_keys (keys nd) b 23) (\<lambda>(b, off). ser_children (children nd) b off) = memcpy_to b 23 (?k @ ?p)"
      if b: "cap b = PAGE_SIZE" for b
    proof -
      have "rbind (ser_keys (keys nd) b 23) (\<lambda>(b, off). ser_children (children nd) b off) =
          rbind (memcpy_to b 23 (?k @ ?o)) (\<lambda>b. ser_children (map Some cs) b (int (23 + length ?k)))"
        using b bkeys.write_seq_bytes[OF ks(2), of 23 b] ser_keys_write[OF ks(2), of b 23]
        by (simp add: PAGE_SIZE_def seq_bytes_split rbind_assoc cs(1))
      also have "\<dots> = rbind (memcpy_to b 23 (?k @ ?o)) (\<lambda>b. memcpy_to b (23 + length ?k) ?p)"
        using b room by (auto simp: memcpy_to_eq_Inr simp del: of_nat_add intro!: rbind_cong ser_children_bytes)
      also have "\<dots> = memcpy_to b 23 (?k @ ?p)" unfolding memcpy_to_overlay using o by simp
      finally show ?thesis .
    qed
    then have "rbind (memcpy_to b 14 ?h) (\<lambda>b. rbind (ser_keys (keys nd) b 23) (\<lambda>(b, off). ser_children (children nd) b off)) =
        memcpy_to b 14 (?h @ ?k @ ?p)"
      using c by (intro memcpy_then) simp_all
    then show ?thesis unfolding Node_serialize_def n node_head e using False by simp
  qed
  then show ?thesis using c l by (simp add: memcpy_to_ok)
qed

section \<open>Reading back\<close>

lemma des_entries_read:
  "read_seq Entry_deserialize (\<lambda>e. nat (entry_size e)) n b off = Inr es \<Longrightarrow> \<forall>e \<in> set es. bentry_ok ty m e \<Longrightarrow>
   des_entries n b (int off) = Inr es"
proof (induction n arbitrary: off es)
  case (Suc n)
  then obtain e ds where e: "Entry_deserialize b off = Inr e" "es = e # ds"
    "read_seq Entry_deserialize (\<lambda>e. nat (entry_size e)) n b (off + nat (entry_size e)) = Inr ds"
    by (auto simp: rbind_eq_Inr)
  have "int off + entry_size e = int (off + nat (entry_size e))" using Suc.prems(2) e(2) entry_size_enc[of ty m e] by simp
  then show ?case using Suc.IH[OF e(3)] Suc.prems(2) e by (simp add: at_off_def)
qed simp

lemma des_keys_read:
  "read_seq (Field_deserialize Field_new) (\<lambda>k. nat (getSerializedSize k)) n b off = Inr ks \<Longrightarrow> \<forall>k \<in> set ks. key_ok ty m k \<Longrightarrow>
   des_keys n b (int off) = Inr (ks, int (off + length (seq_enc field_enc ks)))"
proof (induction n arbitrary: off ks)
  case (Suc n)
  then obtain k js where k: "Field_deserialize Field_new b off = Inr k" "ks = k # js"
    "read_seq (Field_deserialize Field_new) (\<lambda>k. nat (getSerializedSize k)) n b (off + nat (getSerializedSize k)) = Inr js"
    by (auto simp: rbind_eq_Inr)
  have "getSerializedSize k = int (length (field_enc k))" using Suc.prems(2) k(2) length_field_enc[of k] by (auto dest: key_okD)
  then show ?case using Suc.IH[OF k(3)] Suc.prems(2) k by (simp add: at_off_def add.assoc)
qed simp

lemma des_pids_back:
  "peek (mem b) off (length (pid_bytes ps)) = pid_bytes ps \<Longrightarrow> \<forall>p \<in> set ps. in_i32 p \<Longrightarrow> off + length (pid_bytes ps) \<le> cap b \<Longrightarrow>
   des_pids (length ps) b (int off) = Inr ps"
proof (induction ps arbitrary: off)
  case (Cons p ps)
  note pk = peek_conc[OF Cons.prems(1)[unfolded pid_bytes_simps(2)]]
  have "des_pids (length ps) b (int (off + 4)) = Inr ps" using Cons.IH[of "off + 4"] Cons.prems pk(2) by simp
  moreover have "memcpy_from b off 4 = Inr (i32_bytes p)" using pk(1) Cons.prems(3) by (simp add: memcpy_from_def)
  ultimately show ?case using Cons.prems(2) by (simp add: at_off_def add.commute)
qed simp

definition on_page :: "buf \<Rightarrow> bnode \<Rightarrow> bool" where
  "on_page b nd \<longleftrightarrow> peek (mem b) 14 (length (node_enc nd)) = node_enc nd"

text \<open>The node a page gives back: no children yet, and no keys in a leaf.\<close>

definition bare :: "bnode \<Rightarrow> bnode" where
  "bare nd = (if isLeaf nd then Node True (entries nd) [] [] [] (curr_page_id nd) (next_page_id nd)
     else Node False [] (keys nd) [] (children_pages_ids nd) (curr_page_id nd) (next_page_id nd))"

lemma Node_deserialize_back:
  assumes ok: "node_ok ty m nd" and p: "on_page b nd" and c: "cap b = PAGE_SIZE"
  shows "Node_deserialize (curr_page_id nd) b = Inr (bare nd)"
proof -
  let ?body = "if isLeaf nd then seq_enc bentry_enc (entries nd) else seq_enc field_enc (keys nd) @ pid_bytes (children_pages_ids nd)"
  have l: "14 + length (node_enc nd) \<le> PAGE_SIZE" using ok by (simp add: node_ok_def)
  have e: "node_enc nd = [bool_byte (isLeaf nd)] @ i32_bytes (int (node_size nd)) @ i32_bytes (next_page_id nd) @ ?body"
    by (simp add: node_enc_def)
  note p1 = peek_conc[OF p[unfolded on_page_def e]]
  note p2 = peek_conc[OF p1(2)]
  note p3 = peek_conc[OF p2(2)]
  have room: "23 + length ?body \<le> PAGE_SIZE" using l by (simp add: e)
  have head: "memcpy_from b 14 1 = Inr [bool_byte (isLeaf nd)]" "memcpy_from b 15 4 = Inr (i32_bytes (int (node_size nd)))"
    "memcpy_from b 19 4 = Inr (i32_bytes (next_page_id nd))" and body: "peek (mem b) 23 (length ?body) = ?body"
    using p1(1) p2(1) p3 c by (simp_all add: memcpy_from_def PAGE_SIZE_def)
  have i: "i32_val (i32_bytes (int (node_size nd))) = int (node_size nd)" "i32_val (i32_bytes (next_page_id nd)) = next_page_id nd"
    using ok by (simp_all add: node_ok_def)
  show ?thesis
  proof (cases "isLeaf nd")
    case True
    then have es: "\<forall>e \<in> set (entries nd). bentry_ok ty m e" using ok by (simp add: node_ok_def)
    have "read_seq Entry_deserialize (\<lambda>e. nat (entry_size e)) (length (entries nd)) b 23 = Inr (entries nd)"
      using entry.read_seq_back[OF es, of b 23] body room True c by (auto simp: list_all2_eq)
    from des_entries_read[OF this es] have "des_entries (node_size nd) b 23 = Inr (entries nd)" using True by (simp add: node_size_def)
    then show ?thesis using head i True by (simp add: Node_deserialize_def bare_def bool_byte_def)
  next
    case False
    obtain cs where cs: "children_pages_ids nd = map curr_page_id cs" "length cs = Suc (length (keys nd))"
      using ok False by (auto simp: node_ok_def)
    have ks: "keys nd \<noteq> []" "\<forall>k \<in> set (keys nd). key_ok ty m k" "\<forall>p \<in> set (children_pages_ids nd). in_i32 p"
      using ok False by (auto simp: node_ok_def)
    let ?k = "seq_enc field_enc (keys nd)" and ?p = "pid_bytes (children_pages_ids nd)"
    have o: "length (seq_over field_enc field_over (keys nd)) \<le> length ?p"
      using seq_over_le[of "keys nd" field_over 1 field_enc] ks(2) field_over_le cs(1,2) by fastforce
    have b: "peek (mem b) 23 (length (?k @ ?p)) = ?k @ ?p" using body False by simp
    note pk = peek_conc[OF b]
    have "read_seq (Field_deserialize Field_new) (\<lambda>k. nat (getSerializedSize k)) (length (keys nd)) b 23 = Inr (keys nd)"
      using bkeys.read_seq_back[OF ks(2) pk(1)] room o False c by (auto simp: list_all2_eq seq_bytes_split)
    from des_keys_read[OF this ks(2)] have "des_keys (node_size nd) b 23 = Inr (keys nd, int (23 + length ?k))"
      using False by (simp add: node_size_def)
    moreover have "des_pids (Suc (node_size nd)) b (int (23 + length ?k)) = Inr (children_pages_ids nd)"
      using des_pids_back[OF pk(2) ks(3)] room False c cs by (simp add: node_size_def)
    moreover have "0 < node_size nd" using ks(1) False by (simp add: node_size_def)
    ultimately show ?thesis using head i False by (simp add: Node_deserialize_def bare_def bool_byte_def)
  qed
qed

section \<open>The pool\<close>

text \<open>The file grows by doubling, so its size is bounded by the number of its pages.\<close>

definition pool_ok :: "bpm \<Rightarrow> nat \<Rightarrow> bool" where
  "pool_ok s n \<longleftrightarrow> bpm_inv s n {} \<and> dm_capacity (disk s) \<le> max 100 (2 * int n + 2)"

lemma pool_new:
  assumes s: "pool_ok s n" and n: "n < 60000"
  shows "\<exists>t. newPage s = Inr (int (Suc n), t) \<and> pool_ok t (Suc n) \<and> same_views n s t"
proof -
  have inv: "bpm_inv s n {}" and c: "dm_capacity (disk s) \<le> max 100 (2 * int n + 2)" using s by (simp_all add: pool_ok_def)
  have "0 \<le> dm_capacity (disk s)" using bpm_invD(1)[OF inv] by (simp add: dm_inv_def)
  then have i: "in_i32 (2 * dm_capacity (disk s) * int PAGE_SIZE)" using c n by (simp add: in_i32_def PAGE_SIZE_def max_def split: if_splits)
  obtain t where t: "newPage s = Inr (int (Suc n), t)" "bpm_inv t (Suc n) {}" "same_views n s t"
    using newPage_inv[OF inv i] by blast
  obtain f u where u: "take_frame s = Inr (f, u)" "bpm_inv u n {f}" "dm_capacity (disk u) = dm_capacity (disk s)"
    using take_frame_inv[OF inv] by blast
  obtain d where d: "allocatePage (disk u) = Inr (Suc n * PAGE_SIZE, d)" "bpm_inv (u\<lparr>disk := d\<rparr>) (Suc n) {f}"
    "map_of (page_table u) (int (Suc n)) = None"
    using allocate_under[OF u(2)] i u(3) by auto
  have "dm_capacity d = (if int n + 1 \<ge> dm_capacity (disk s) then 2 * dm_capacity (disk s) else dm_capacity (disk s))"
    using allocatePage_inv[OF bpm_invD(1)[OF u(2)]] i u(3) d(1) by auto
  moreover obtain r where r: "install (u\<lparr>disk := d\<rparr>) (int (Suc n)) f = Inr r" "dm_capacity (disk r) = dm_capacity d"
    using install_inv[OF d(2), of "Suc n"] d(3) by auto
  moreover have "t = r" using t(1) u(1) d(1) r(1) by (simp add: newPage_def PAGE_SIZE_def del: mult_Suc)
  ultimately have "dm_capacity (disk t) \<le> max 100 (2 * int (Suc n) + 2)" using c by (auto simp: max_def split: if_splits)
  then show ?thesis using t by (auto simp: pool_ok_def)
qed

lemma write_node_ok:
  assumes s: "pool_ok s n" and i: "curr_page_id nd = int i" "1 \<le> i" "i \<le> n" and ok: "node_ok ty m nd"
  shows "\<exists>t. write_node nd s = Inr t \<and> pool_ok t n \<and> on_page (view t i) nd \<and> (\<forall>j. 1 \<le> j \<and> j \<le> n \<and> j \<noteq> i \<longrightarrow> view t j = view s j)"
proof -
  have inv: "bpm_inv s n {}" using s by (simp add: pool_ok_def)
  obtain f u where u: "fetch_frame s (int i) = Inr (f, view s i, u)" "bpm_inv u n {}" "same_views n s u" "cached u i f"
    "dm_capacity (disk u) = dm_capacity (disk s)"
    using fetch_frame_inv[OF inv i(2,3)] by blast
  have c: "canon (view s i)" by (rule view_canon[OF inv])
  let ?b = "(view s i)\<lparr>mem := put (mem (view s i)) 14 (node_enc nd)\<rparr>"
  have w: "Node_serialize nd (view s i) = Inr ?b" using Node_serialize_bytes[OF ok] c by (simp add: canon_def)
  have l: "14 + length (node_enc nd) \<le> PAGE_SIZE" using ok by (simp add: node_ok_def)
  then have "canon ?b" using c by (simp add: canon_def)
  then obtain t where t: "markAsDirty (store_frame u f ?b) (int i) = Inr t" "bpm_inv t n {}" "view t = (view u)(i := ?b)" "disk t = disk u"
    using mark_written[OF u(2,4)] by blast
  have "write_node nd s = Inr t" using i(1) u(1) w t(1) by (simp add: write_node_def)
  moreover have "on_page (view t i) nd" using t(3) by (simp add: on_page_def)
  ultimately show ?thesis using s t u by (auto simp: pool_ok_def same_views_def)
qed

lemma load_leaf:
  assumes s: "pool_ok s n" and i: "curr_page_id nd = int i" "1 \<le> i" "i \<le> n" and ok: "node_ok ty m nd" "on_page (view s i) nd" "isLeaf nd"
  shows "\<exists>t. loadNode (Suc k) (curr_page_id nd) s = Inr (Some (bare nd), t) \<and> pool_ok t n \<and> same_views n s t"
proof -
  have inv: "bpm_inv s n {}" using s by (simp add: pool_ok_def)
  obtain f u where u: "fetch_frame s (int i) = Inr (f, view s i, u)" "bpm_inv u n {}" "same_views n s u"
    "dm_capacity (disk u) = dm_capacity (disk s)"
    using fetch_frame_inv[OF inv i(2,3)] by blast
  have "Node_deserialize (curr_page_id nd) (view s i) = Inr (bare nd)"
    using Node_deserialize_back[OF ok(1,2)] view_canon[OF inv] by (simp add: canon_def)
  then show ?thesis using s u ok(3) i by (auto simp: pool_ok_def bare_def)
qed

end
