(* ===== verification/Bplus_Laws.thy ===== *)
theory Bplus_Laws imports Bplus_Page "HOL-Library.Multiset"
begin

text \<open>
  The B+ tree under insertion: the order of the entries in the leaves, the separators, the pages and the
  links between the leaves. The abstract value of a tree is the list of its entries in the order of the
  leaves.
\<close>

section \<open>Order and separators\<close>

abbreviation kle :: "field \<Rightarrow> field \<Rightarrow> bool" where
  "kle a b \<equiv> \<not> fless b a"

definition ordered :: "bentry list \<Rightarrow> bool" where
  "ordered = sorted_wrt (\<lambda>a b. kle (bkey a) (bkey b))"

text \<open>A separator between the entries of two neighbours: it is not larger than the right ones and equal to one of them.\<close>

definition link :: "field \<Rightarrow> bentry list \<Rightarrow> bentry list \<Rightarrow> bool" where
  "link k xs ys \<longleftrightarrow> (\<forall>e \<in> set xs. kle (bkey e) k) \<and> (\<forall>e \<in> set ys. kle k (bkey e)) \<and> (\<exists>e \<in> set ys. fequal (bkey e) k)"

fun adj :: "field list \<Rightarrow> bentry list list \<Rightarrow> bool" where
  "adj [] [x] = True"
| "adj (k # ks) (x # y # ys) \<longleftrightarrow> link k x y \<and> adj ks (y # ys)"
| "adj _ _ = False"

lemma adj_length: "adj ks xss \<Longrightarrow> length xss = Suc (length ks)"
  by (induction ks xss rule: adj.induct) auto

lemma adj_Nil [simp]: "adj [] xss \<longleftrightarrow> (\<exists>x. xss = [x])"
  by (cases "([] :: field list, xss)" rule: adj.cases) auto

lemma adj_append:
  "length ks = length xss \<Longrightarrow> adj (ks @ js) (xss @ x # yss) \<longleftrightarrow> adj ks (xss @ [x]) \<and> adj js (x # yss)"
proof (induction ks xss rule: list_induct2)
  case (Cons k ks y xss)
  then show ?case by (cases xss) auto
qed simp

text \<open>All entries and separators are comparable keys.\<close>

abbreviation oks :: "FieldType \<Rightarrow> nat \<Rightarrow> bentry list \<Rightarrow> bool" where
  "oks ty m xs \<equiv> \<forall>e \<in> set xs. bentry_ok ty m e"

lemma comp: "bentry_ok ty m e \<Longrightarrow> comparable ty (bkey e)" "key_ok ty m k \<Longrightarrow> comparable ty k"
  by (auto simp: bentry_ok_def dest: key_okD)

lemma kle_trans: "comparable ty a \<Longrightarrow> comparable ty b \<Longrightarrow> comparable ty c \<Longrightarrow> kle a b \<Longrightarrow> kle b c \<Longrightarrow> kle a c"
  using field_order.not_less_trans by blast

lemma fequal_kle: "fequal a b \<longleftrightarrow> kle a b \<and> kle b a"
  by (auto simp: fequal_def)

lemma adj_all_le:
  assumes "adj ks (xss @ [x])" "\<forall>xs \<in> set (xss @ [x]). oks ty m xs \<and> xs \<noteq> []" "\<forall>k \<in> set ks. key_ok ty m k" "comparable ty k"
    and "\<forall>e \<in> set x. kle (bkey e) k"
  shows "\<forall>e \<in> set (concat (xss @ [x])). kle (bkey e) k"
  using assms
proof (induction xss arbitrary: ks)
  case (Cons y xss)
  obtain j js where ks: "ks = j # js" using adj_length[OF Cons.prems(1)] by (cases ks) auto
  obtain z zs where z: "xss @ [x] = z # zs" by (cases xss) auto
  have a: "link j y z" "adj js (xss @ [x])" using Cons.prems(1) ks z by auto
  have ih: "\<forall>e \<in> set (concat (xss @ [x])). kle (bkey e) k" using Cons.IH[OF a(2)] Cons.prems ks by auto
  obtain e where e: "e \<in> set z" using Cons.prems(2) z by (metis list.set_intros(1) list.set_sel(1) append_Cons list.set_intros(2))
  have "bentry_ok ty m e" using Cons.prems(2) z e by (metis append_Cons list.set_intros(1) list.set_intros(2))
  moreover have "kle j (bkey e)" "kle (bkey e) k" using a(1) e ih z by (auto simp: link_def)
  ultimately have "kle j k" using kle_trans comp Cons.prems(3,4) ks by (metis list.set_intros(1))
  then have "kle (bkey f) k" if "f \<in> set y" for f
    using kle_trans[of ty "bkey f" j k] a(1) that comp Cons.prems(2-4) ks by (auto simp: link_def)
  then show ?case using ih by auto
qed simp

lemma adj_all_ge:
  assumes "adj ks (x # xss)" "\<forall>xs \<in> set (x # xss). oks ty m xs \<and> xs \<noteq> []" "\<forall>k \<in> set ks. key_ok ty m k" "comparable ty k"
    and "\<forall>e \<in> set x. kle k (bkey e)"
  shows "\<forall>e \<in> set (concat (x # xss)). kle k (bkey e)"
  using assms
proof (induction xss arbitrary: ks x)
  case (Cons y xss)
  obtain j js where ks: "ks = j # js" using adj_length[OF Cons.prems(1)] by (cases ks) auto
  have a: "link j x y" "adj js (y # xss)" using Cons.prems(1) ks by auto
  obtain e where e: "e \<in> set x" using Cons.prems(2) by (metis list.set_intros(1) list.set_sel(1))
  have "kle k (bkey e)" "kle (bkey e) j" "bentry_ok ty m e" using Cons.prems(2,5) a(1) e by (auto simp: link_def)
  then have "kle k j" using kle_trans comp Cons.prems(3,4) ks by (metis list.set_intros(1))
  then have "kle k (bkey f)" if "f \<in> set y" for f
    using kle_trans[of ty k j "bkey f"] a(1) that comp Cons.prems(2-4) ks by (auto simp: link_def)
  then have "\<forall>e \<in> set (concat (y # xss)). kle k (bkey e)" using Cons.IH[OF a(2)] Cons.prems ks by auto
  then show ?case using Cons.prems(5) by auto
qed simp

lemma adj_ordered:
  assumes "adj ks xss" "\<forall>xs \<in> set xss. oks ty m xs \<and> xs \<noteq> [] \<and> ordered xs" "\<forall>k \<in> set ks. key_ok ty m k"
  shows "ordered (concat xss)"
  using assms
proof (induction ks xss rule: adj.induct)
  case (2 k ks x y ys)
  have l: "link k x y" "adj ks (y # ys)" using "2.prems"(1) by auto
  have "\<forall>e \<in> set (concat (y # ys)). kle k (bkey e)"
  proof (rule adj_all_ge[OF l(2), of ty m k])
    show "comparable ty k" using "2.prems"(3) comp(2)[of ty m k] by simp
  qed (use l(1) "2.prems"(2,3) in \<open>simp_all add: link_def\<close>)
  then have "kle (bkey a) (bkey b)" if "a \<in> set x" "b \<in> set (concat (y # ys))" for a b
  proof -
    have "bentry_ok ty m a" "bentry_ok ty m b" using "2.prems"(2) that by auto
    then show ?thesis using kle_trans[of ty "bkey a" k "bkey b"] l(1) that comp "2.prems"(3) \<open>\<forall>e \<in> set (concat (y # ys)). kle k (bkey e)\<close>
      by (auto simp: link_def)
  qed
  moreover have "ordered (concat (y # ys))" using 2 by simp
  ultimately show ?case using "2.prems"(2) by (auto simp: ordered_def sorted_wrt_append)
qed simp_all

text \<open>Putting an entry into one part, and dividing one part.\<close>

lemma adj_replace:
  assumes a: "adj (ks @ js) (xss @ x # yss)" "length ks = length xss"
    and y: "set y = insert e (set x)" "ks \<noteq> [] \<Longrightarrow> kle (last ks) (bkey e)" "js \<noteq> [] \<Longrightarrow> kle (bkey e) (hd js)"
  shows "adj (ks @ js) (xss @ y # yss)"
proof -
  have a': "adj ks (xss @ [x])" "adj js (x # yss)" using a adj_append by blast+
  have "adj ks (xss @ [y])"
  proof (cases ks rule: rev_cases)
    case (snoc ls k)
    obtain zs z where z: "xss = zs @ [z]" "length ls = length zs" using snoc a(2) by (cases xss rule: rev_cases) auto
    have "adj ls (zs @ [z])" "link k z x" using a'(1) snoc z adj_append[of ls zs "[k]" z "[x]"] by auto
    moreover from this have "link k z y" using y(1,2) snoc by (auto simp: link_def)
    ultimately show ?thesis using snoc z adj_append[of ls zs "[k]" z "[y]"] by auto
  qed (use a' a(2) in auto)
  moreover have "adj js (y # yss)"
  proof (cases js)
    case (Cons k ls)
    then obtain z zs where "yss = z # zs" using a'(2) by (cases yss) auto
    then show ?thesis using a'(2) Cons y(1,3) by (auto simp: link_def)
  qed (use a' in auto)
  ultimately show ?thesis using adj_append a(2) by blast
qed

lemma adj_split:
  assumes a: "adj (ks @ js) (xss @ x # yss)" "length ks = length xss" and l: "link k u v" "u \<noteq> []" and x: "x = u @ v" "oks ty m x"
    and k: "key_ok ty m k" "\<forall>k \<in> set ks. key_ok ty m k"
  shows "adj (ks @ k # js) (xss @ u # v # yss)"
proof -
  have a': "adj ks (xss @ [x])" "adj js (x # yss)" using a adj_append by blast+
  have "adj ks (xss @ [u])"
  proof (cases ks rule: rev_cases)
    case (snoc ls j)
    obtain zs z where z: "xss = zs @ [z]" "length ls = length zs" using snoc a(2) by (cases xss rule: rev_cases) auto
    have b: "adj ls (zs @ [z])" "link j z x" using a'(1) snoc z adj_append[of ls zs "[j]" z "[x]"] by auto
    obtain w where w: "w \<in> set x" "fequal (bkey w) j" using b(2) by (auto simp: link_def)
    have "\<exists>w \<in> set u. fequal (bkey w) j"
    proof (cases "w \<in> set u")
      case False
      obtain f where f: "f \<in> set u" using l(2) by (meson ex_in_conv set_empty)
      have ok: "comparable ty (bkey f)" "comparable ty (bkey w)" "comparable ty k" "comparable ty j"
        using f w(1) x k snoc comp by auto
      have "kle j (bkey f)" "kle (bkey f) k" "kle k (bkey w)" using b(2) f w l(1) x False by (auto simp: link_def)
      moreover have "kle (bkey w) j" using w(2) by (simp add: fequal_kle)
      ultimately have "fequal (bkey f) j" using ok kle_trans unfolding fequal_kle by metis
      with f show ?thesis by blast
    qed (use w in blast)
    then have "link j z u" using b(2) x(1) by (auto simp: link_def)
    then show ?thesis using b(1) snoc z adj_append[of ls zs "[j]" z "[u]"] by auto
  qed (use a' a(2) in auto)
  moreover have "adj js (v # yss)"
  proof (cases js)
    case (Cons i ls)
    then obtain z zs where "yss = z # zs" using a'(2) by (cases yss) auto
    then show ?thesis using a'(2) Cons x(1) by (auto simp: link_def)
  qed (use a' in auto)
  then have "adj (k # js) (u # v # yss)" using l(1) by simp
  ultimately show ?thesis using adj_append a(2) by blast
qed

section \<open>Searching a node\<close>

lemma lower_bound_takeWhile:
  assumes "\<And>x. x \<in> set xs \<Longrightarrow> before x = Inr (q x)" "sorted_wrt (\<lambda>a b. q b \<longrightarrow> q a) xs"
  shows "lower_bound before xs = Inr (length (takeWhile q xs))"
  using assms
proof (induction "length xs" arbitrary: xs rule: less_induct)
  case less
  show ?case
  proof (cases "xs = []")
    case True
    then show ?thesis by (simp add: lower_bound.simps)
  next
    case False
    let ?h = "length xs div 2"
    have h: "?h < length xs" using False by simp
    have xs: "xs = take ?h xs @ xs ! ?h # drop (Suc ?h) xs" using h by (rule id_take_nth_drop)
    have s: "sorted_wrt (\<lambda>a b. q b \<longrightarrow> q a) (take ?h xs @ xs ! ?h # drop (Suc ?h) xs)" using less.prems(2) xs by simp
    have s': "sorted_wrt (\<lambda>a b. q b \<longrightarrow> q a) (take ?h xs)" "sorted_wrt (\<lambda>a b. q b \<longrightarrow> q a) (drop (Suc ?h) xs)"
      using s by (simp_all add: sorted_wrt_append)
    have b: "\<And>x. x \<in> set (take ?h xs) \<Longrightarrow> before x = Inr (q x)" "\<And>x. x \<in> set (drop (Suc ?h) xs) \<Longrightarrow> before x = Inr (q x)"
      using less.prems(1) by (meson in_set_takeD in_set_dropD)+
    have p: "before (xs ! ?h) = Inr (q (xs ! ?h))" using less.prems(1) h by simp
    show ?thesis
    proof (cases "q (xs ! ?h)")
      case True
      have "\<forall>x \<in> set (take ?h xs). q x" using s True by (auto simp: sorted_wrt_append)
      then have "takeWhile q xs = take ?h xs @ xs ! ?h # takeWhile q (drop (Suc ?h) xs)"
        using True by (subst xs) (simp add: takeWhile_append2)
      moreover have "lower_bound before (drop (Suc ?h) xs) = Inr (length (takeWhile q (drop (Suc ?h) xs)))"
        using less.hyps[OF _ b(2) s'(2)] h by simp
      ultimately show ?thesis using True p False by (subst lower_bound.simps) (simp add: Let_def min_absorb2[OF less_imp_le[OF h]])
    next
      case False
      then have "takeWhile q xs = takeWhile q (take ?h xs)"
        by (subst xs) (rule takeWhile_tail)
      moreover have "lower_bound before (take ?h xs) = Inr (length (takeWhile q (take ?h xs)))"
        using less.hyps[OF _ b(1) s'(1)] h by simp
      ultimately show ?thesis using False p \<open>xs \<noteq> []\<close> by (subst lower_bound.simps) (simp add: Let_def)
    qed
  qed
qed

lemma key_slot_local:
  assumes "\<forall>k \<in> set ks. key_ok ty m k" "comparable ty key" "n \<le> length ks"
  shows "\<exists>i \<le> n. key_slot key ks n = Inr i \<and> (0 < i \<longrightarrow> kle (ks ! (i - 1)) key) \<and> (i < n \<longrightarrow> fless key (ks ! i))"
  using assms(3)
proof (induction n)
  case (Suc n)
  then obtain i where i: "i \<le> n" "key_slot key ks n = Inr i" "0 < i \<longrightarrow> kle (ks ! (i - 1)) key" "i < n \<longrightarrow> fless key (ks ! i)"
    by auto
  have "comparable ty (ks ! n)" using assms(1) Suc.prems comp(2)[of ty m "ks ! n"] by simp
  then have "field_lt False key (ks ! n) = Inr (fless key (ks ! n))" by (rule field_cmp_not_same(1)[OF assms(2)])
  then show ?case using i Suc.prems by (cases "fless key (ks ! n)") (auto intro: exI[of _ i] simp: less_Suc_eq)
qed simp

lemma key_slot_split:
  assumes "\<forall>k \<in> set ks. key_ok ty m k" "comparable ty key"
  shows "\<exists>us vs. ks = us @ vs \<and> key_slot key ks (length ks) = Inr (length us) \<and>
    (us \<noteq> [] \<longrightarrow> kle (last us) key) \<and> (vs \<noteq> [] \<longrightarrow> fless key (hd vs))"
proof -
  obtain i where i: "i \<le> length ks" "key_slot key ks (length ks) = Inr i" "0 < i \<longrightarrow> kle (ks ! (i - 1)) key" "i < length ks \<longrightarrow> fless key (ks ! i)"
    using key_slot_local[OF assms order_refl] by blast
  have "take i ks \<noteq> [] \<longrightarrow> last (take i ks) = ks ! (i - 1)" using i(1) by (cases i) (auto simp: last_conv_nth)
  moreover have "drop i ks \<noteq> [] \<longrightarrow> hd (drop i ks) = ks ! i" by (simp add: hd_drop_conv_nth)
  ultimately show ?thesis using i by (intro exI[of _ "take i ks"] exI[of _ "drop i ks"]) (auto simp: min_def)
qed

section \<open>Trees\<close>

text \<open>All subtrees of a tree of height \<open>h\<close>, its leaves, their entries and the pages.\<close>

fun nodes :: "nat \<Rightarrow> bnode \<Rightarrow> bnode list" where
  "nodes 0 nd = [nd]"
| "nodes (Suc h) nd = nd # concat (map (\<lambda>c. nodes h (the c)) (children nd))"

fun leaves :: "nat \<Rightarrow> bnode \<Rightarrow> bnode list" where
  "leaves 0 nd = [nd]"
| "leaves (Suc h) nd = concat (map (\<lambda>c. leaves h (the c)) (children nd))"

definition contents :: "nat \<Rightarrow> bnode \<Rightarrow> bentry list" where
  "contents h nd = concat (map entries (leaves h nd))"

definition pages :: "nat \<Rightarrow> bnode \<Rightarrow> int list" where
  "pages h nd = map curr_page_id (nodes h nd)"

text \<open>\<open>inode\<close>: an inner node with its keys and children.\<close>

definition inode :: "bnode \<Rightarrow> field list \<Rightarrow> bnode list \<Rightarrow> bool" where
  "inode nd ks cs \<longleftrightarrow> \<not> isLeaf nd \<and> keys nd = ks \<and> children nd = map Some cs \<and> children_pages_ids nd = map curr_page_id cs"

fun btree :: "FieldType \<Rightarrow> nat \<Rightarrow> nat \<Rightarrow> nat \<Rightarrow> bnode \<Rightarrow> bool" where
  "btree ty m t 0 nd \<longleftrightarrow> isLeaf nd \<and> entries nd \<noteq> [] \<and> length (entries nd) < 2 * t \<and> oks ty m (entries nd) \<and>
     ordered (entries nd) \<and> in_i32 (next_page_id nd)"
| "btree ty m t (Suc h) nd \<longleftrightarrow> in_i32 (next_page_id nd) \<and> (\<exists>ks cs. inode nd ks cs \<and> ks \<noteq> [] \<and> length ks < 2 * t \<and>
     (\<forall>k \<in> set ks. key_ok ty m k) \<and> (\<forall>c \<in> set cs. btree ty m t h c) \<and> adj ks (map (contents h) cs))"

fun chain :: "int \<Rightarrow> bnode list \<Rightarrow> int \<Rightarrow> bool" where
  "chain p [] q \<longleftrightarrow> p = q"
| "chain p (l # ls) q \<longleftrightarrow> curr_page_id l = p \<and> chain (next_page_id l) ls q"

lemma chain_append: "chain p (ls @ ks) r \<longleftrightarrow> (\<exists>q. chain p ls q \<and> chain q ks r)"
  by (induction ls arbitrary: p) auto

definition stored :: "bpm \<Rightarrow> bnode list \<Rightarrow> bool" where
  "stored s ns \<longleftrightarrow> (\<forall>x \<in> set ns. on_page (view s (nat (curr_page_id x))) x)"

definition placed :: "nat \<Rightarrow> int list \<Rightarrow> bool" where
  "placed n ps \<longleftrightarrow> distinct ps \<and> (\<forall>p \<in> set ps. 1 \<le> p \<and> p \<le> int n)"

lemma contents_concat: "concat (map entries (concat (map (leaves h) cs))) = concat (map (contents h) cs)"
  by (induction cs) (simp_all add: contents_def)

lemma pages_concat: "map curr_page_id (concat (map (nodes h) cs)) = concat (map (pages h) cs)"
  by (induction cs) (simp_all add: pages_def)

lemma inode_simps:
  "inode nd ks cs \<Longrightarrow> nodes (Suc h) nd = nd # concat (map (nodes h) cs)"
  "inode nd ks cs \<Longrightarrow> leaves (Suc h) nd = concat (map (leaves h) cs)"
  "inode nd ks cs \<Longrightarrow> contents (Suc h) nd = concat (map (contents h) cs)"
  "inode nd ks cs \<Longrightarrow> pages (Suc h) nd = curr_page_id nd # concat (map (pages h) cs)"
  "inode nd ks cs \<Longrightarrow> node_size nd = length ks"
  by (simp_all add: inode_def contents_def[of "Suc h"] pages_def[of "Suc h"] node_size_def comp_def flip: contents_concat pages_concat)

lemma contents_0 [simp]: "contents 0 nd = entries nd" and pages_0 [simp]: "pages 0 nd = [curr_page_id nd]"
  by (simp_all add: contents_def pages_def)

lemma curr_in_pages: "curr_page_id nd \<in> set (pages h nd)"
  by (cases h) (simp_all add: pages_def)

lemma btree_contents:
  "btree ty m t h nd \<Longrightarrow> contents h nd \<noteq> [] \<and> oks ty m (contents h nd) \<and> ordered (contents h nd)"
proof (induction h arbitrary: nd)
  case (Suc h)
  then obtain ks cs where i: "inode nd ks cs" "\<forall>k \<in> set ks. key_ok ty m k" "\<forall>c \<in> set cs. btree ty m t h c" "adj ks (map (contents h) cs)"
    by auto
  have c: "contents h c \<noteq> []" "oks ty m (contents h c)" "ordered (contents h c)" if "c \<in> set cs" for c
    using Suc.IH i(3) that by blast+
  have "cs \<noteq> []" using adj_length[OF i(4)] by auto
  then have "concat (map (contents h) cs) \<noteq> []" using c(1) by (metis concat_eq_Nil_conv list.set_map imageI ex_in_conv set_empty)
  moreover have "ordered (concat (map (contents h) cs))" using adj_ordered[OF i(4) _ i(2)] c by auto
  ultimately show ?case using c(2) by (auto simp: inode_simps[OF i(1)])
qed simp

lemma btree_inner:
  "inode nd ks cs \<Longrightarrow> in_i32 (next_page_id nd) \<Longrightarrow> ks \<noteq> [] \<Longrightarrow> length ks < 2 * t \<Longrightarrow> \<forall>k \<in> set ks. key_ok ty m k \<Longrightarrow>
   \<forall>c \<in> set cs. btree ty m t h c \<Longrightarrow> adj ks (map (contents h) cs) \<Longrightarrow> btree ty m t (Suc h) nd"
  by auto

lemma btree_in_i32: "btree ty m t h nd \<Longrightarrow> in_i32 (next_page_id nd)"
  by (cases h) auto

lemma btree_isLeaf: "btree ty m t h nd \<Longrightarrow> isLeaf nd \<longleftrightarrow> h = 0"
  by (cases h) (auto simp: inode_def)

lemma btree_size: "btree ty m t h nd \<Longrightarrow> 0 < node_size nd \<and> node_size nd < 2 * t"
  by (cases h) (auto simp: node_size_def inode_def)

text \<open>Nodes whose keys have at most \<open>m\<close> bytes fit a page.\<close>

definition fits :: "nat \<Rightarrow> nat \<Rightarrow> bool" where
  "fits m t \<longleftrightarrow> 2 \<le> t \<and> 23 + (2 * t - 1) * (m + 16) \<le> PAGE_SIZE"

lemma length_seq_enc: "\<forall>x \<in> set xs. length (enc x) \<le> d \<Longrightarrow> length (seq_enc enc xs) \<le> length xs * d"
  by (induction xs) auto

lemma inode_node_ok:
  assumes c: "inode nd ks cs" "ks \<noteq> []" "length ks < 2 * t" "\<forall>k \<in> set ks. key_ok ty m k" "length cs = Suc (length ks)"
    and f: "fits m t" and p: "\<forall>c \<in> set cs. 1 \<le> curr_page_id c \<and> curr_page_id c \<le> int n" and n: "n < 2 ^ 31" and x: "in_i32 (next_page_id nd)"
  shows "node_ok ty m nd"
proof -
  have t: "(2 * t - 1) * (m + 16) \<le> 4073" using f by (simp add: fits_def PAGE_SIZE_def)
  have sz: "length ks \<le> 2 * t - 1" using c(3) by linarith
  have le: "length ks * (m + 16) \<le> 4073" by (rule le_trans[OF mult_le_mono1[OF sz] t])
  then have "length ks \<le> 4073" by (metis le_add2 le_trans mult.right_neutral mult_le_mono2 one_le_numeral)
  then have i: "in_i32 (int (length ks))" by (simp add: in_i32_def)
  have "length (seq_enc field_enc ks) \<le> length ks * m" using length_seq_enc[of ks field_enc m] c(4) key_okD(4) by blast
  moreover have "4 * Suc (length ks) \<le> length ks * 16" using c(2) by (cases ks) auto
  ultimately have "length (seq_enc field_enc ks) + 4 * length cs \<le> 4073" using le c(5) by (simp add: add_mult_distrib2)
  moreover have "\<forall>c \<in> set cs. in_i32 (curr_page_id c)"
  proof
    fix c assume "c \<in> set cs"
    then have "1 \<le> curr_page_id c" "curr_page_id c \<le> int n" using p by auto
    moreover have "int n < 2 ^ 31" using n by simp
    ultimately show "in_i32 (curr_page_id c)" by (simp add: in_i32_def)
  qed
  ultimately show ?thesis using c i x by (simp add: node_ok_def node_enc_def PAGE_SIZE_def inode_def inode_simps(5)[OF c(1)])
qed

lemma btree_node_ok:
  assumes b: "btree ty m t h nd" and f: "fits m t" and p: "\<forall>p \<in> set (pages h nd). 1 \<le> p \<and> p \<le> int n" and n: "n < 2 ^ 31"
  shows "node_ok ty m nd"
proof -
  have t: "1 \<le> t" "(2 * t - 1) * (m + 16) \<le> 4073" using f by (simp_all add: fits_def PAGE_SIZE_def)
  have sz: "node_size nd \<le> 2 * t - 1" using btree_size[OF b] by linarith
  have le: "node_size nd * (m + 16) \<le> 4073" by (rule le_trans[OF mult_le_mono1[OF sz] t(2)])
  then have "node_size nd \<le> 4073" by (metis le_add2 le_trans mult.right_neutral mult_le_mono2 one_le_numeral)
  then have i: "in_i32 (int (node_size nd))" by (simp add: in_i32_def)
  show ?thesis
  proof (cases h)
    case 0
    then have e: "isLeaf nd" "oks ty m (entries nd)" using b by auto
    have "length (seq_enc bentry_enc (entries nd)) \<le> node_size nd * (m + 16)"
      using length_seq_enc[of "entries nd" bentry_enc "m + 16"] e length_bentry_enc by (auto simp: node_size_def)
    then show ?thesis using e i btree_in_i32[OF b] le by (simp add: node_ok_def node_enc_def PAGE_SIZE_def)
  next
    case (Suc g)
    then obtain ks cs where c: "inode nd ks cs" "ks \<noteq> []" "\<forall>k \<in> set ks. key_ok ty m k" "adj ks (map (contents g) cs)" "length ks < 2 * t" using b by auto
    have l: "length cs = Suc (length ks)" using adj_length[OF c(4)] by simp
    have "\<forall>c \<in> set cs. curr_page_id c \<in> set (pages h nd)" using curr_in_pages Suc by (auto simp: inode_simps(4)[OF c(1)])
    then show ?thesis using inode_node_ok[OF c(1,2) c(5,3) l f _ n btree_in_i32[OF b]] p by blast
  qed
qed

section \<open>Splitting\<close>

lemmas setters = set_entries_def set_keys_def set_children_def set_pids_def set_next_def sync_keys_def

definition halves :: "FieldType \<Rightarrow> nat \<Rightarrow> nat \<Rightarrow> nat \<Rightarrow> int \<Rightarrow> bnode \<Rightarrow> field \<Rightarrow> bnode \<Rightarrow> bnode \<Rightarrow> bool" where
  "halves ty m t h np c sep a b \<longleftrightarrow> key_ok ty m sep \<and> btree ty m t h a \<and> btree ty m t h b \<and>
     Suc (node_size a) < 2 * t \<and> Suc (node_size b) < 2 * t \<and>
     contents h c = contents h a @ contents h b \<and> link sep (contents h a) (contents h b) \<and>
     curr_page_id a = curr_page_id c \<and> curr_page_id b = np \<and>
     (\<forall>x y. chain x (leaves h c) y \<longrightarrow> chain x (leaves h a @ leaves h b) y) \<and>
     (\<exists>us vs. nodes h c = c # us @ vs \<and> nodes h a = a # us \<and> nodes h b = b # vs)"

lemma ordered_link:
  assumes "ordered (xs @ ys)" "ys \<noteq> []" "oks ty m ys"
  shows "link (bkey (hd ys)) xs ys"
proof -
  have "comparable ty (bkey (hd ys))" using assms(2,3) comp(1)[of ty m "hd ys"] by simp
  then have "fequal (bkey (hd ys)) (bkey (hd ys))" by (rule field_order.equal_refl)
  moreover have "\<forall>e \<in> set ys. kle (bkey (hd ys)) (bkey e)"
    using assms(1,2) \<open>fequal (bkey (hd ys)) (bkey (hd ys))\<close> by (cases ys) (auto simp: ordered_def sorted_wrt_append fequal_def)
  moreover have "\<forall>e \<in> set xs. kle (bkey e) (bkey (hd ys))" using assms(1,2) by (auto simp: ordered_def sorted_wrt_append)
  ultimately show ?thesis using assms(2) by (auto simp: link_def intro!: bexI[of _ "hd ys"])
qed

lemma split_leaf:
  assumes b: "btree ty m t 0 c" and sz: "Suc (node_size c) = 2 * t" and t: "2 \<le> t" and i: "in_i32 np"
  shows "\<exists>sep a b. split_node jk (int t) np c = Inr (sep, a, b) \<and> halves ty m t 0 np c sep a b"
proof -
  let ?es = "entries c"
  let ?xs = "take (t - 1) ?es" and ?ys = "drop (t - 1) ?es"
  have c: "isLeaf c" "oks ty m ?es" "ordered ?es" "in_i32 (next_page_id c)" "length ?es = 2 * t - 1"
    using b sz by (auto simp: node_size_def)
  have l: "length ?xs = t - 1" "length ?ys = t" "?xs \<noteq> []" "?ys \<noteq> []" "t - 1 < length ?es" using c(5) t by auto
  have es: "?es = ?xs @ ?ys" by simp
  let ?a = "Node True ?xs (map bkey ?xs) (children c) (children_pages_ids c) (curr_page_id c) np"
  let ?b = "Node True ?ys (map bkey ?ys) [] [] np (next_page_id c)"
  have s: "split_node jk (int t) np c = Inr (bkey (hd ?ys), ?a, ?b)"
    using c(1) l(5) t by (simp add: split_node_def Let_def setters)
  have o: "oks ty m ?xs" "oks ty m ?ys" "ordered ?xs" "ordered ?ys"
    using c(2,3) es by (auto simp: ordered_def dest: in_set_takeD in_set_dropD intro: sorted_wrt_take sorted_wrt_drop)
  then have k: "key_ok ty m (bkey (hd ?ys))" using l(4) by (metis bentry_ok_def list.set_sel(1))
  have lk: "link (bkey (hd ?ys)) ?xs ?ys" using ordered_link[of ?xs ?ys] c(3) l(4) o(2) es by metis
  have "btree ty m t 0 ?a" "btree ty m t 0 ?b" using o l t i c(4) by simp_all
  then have "halves ty m t 0 np c (bkey (hd ?ys)) ?a ?b"
    using k lk l(1,2) t c(1) by (auto simp: halves_def node_size_def)
  then show ?thesis using s by blast
qed

lemma split_inner:
  assumes b: "btree ty m t (Suc h) c" and sz: "Suc (node_size c) = 2 * t" and t: "2 \<le> t" and i: "in_i32 np" "in_i32 (jk np)"
  shows "\<exists>sep a b. split_node jk (int t) np c = Inr (sep, a, b) \<and> halves ty m t (Suc h) np c sep a b"
proof -
  obtain ks cs where c: "inode c ks cs" "\<forall>k \<in> set ks. key_ok ty m k" "\<forall>c \<in> set cs. btree ty m t h c" "adj ks (map (contents h) cs)"
    "in_i32 (next_page_id c)" using b by auto
  have lk: "length ks = 2 * t - 1" using sz inode_simps(5)[OF c(1)] by simp
  have lc: "length cs = 2 * t" using adj_length[OF c(4)] lk t by simp
  let ?k = "ks ! (t - 1)" and ?us = "take t cs" and ?vs = "drop t cs"
  have kn: "ks = take (t - 1) ks @ ?k # drop t ks" using id_take_nth_drop[of "t - 1" ks] lk t by simp
  have ne: "?us \<noteq> []" "?vs \<noteq> []" "length (take (t - 1) ks) = t - 1" "length (drop t ks) = t - 1" using lc lk t by auto
  obtain us u where us: "?us = us @ [u]" using ne(1) by (metis rev_exhaust)
  obtain v vs where vs: "?vs = v # vs" using ne(2) by (metis list.exhaust)
  have cs: "cs = us @ u # v # vs" using us vs by (metis append_take_drop_id append_assoc append_Cons append_Nil)
  have lu: "length us = t - 1" using us lc by (metis length_append_singleton diff_Suc_1 length_take min.absorb2 le_add1 mult_2)
  let ?f = "contents h"
  have "adj (take (t - 1) ks @ ?k # drop t ks) (map ?f us @ ?f u # ?f v # map ?f vs)" using c(4) kn cs by simp
  then have ad: "adj (take (t - 1) ks) (map ?f us @ [?f u])" "link ?k (?f u) (?f v)" "adj (drop t ks) (?f v # map ?f vs)"
    using adj_append[of "take (t - 1) ks" "map ?f us" "?k # drop t ks" "?f u" "?f v # map ?f vs"] lu ne(3) by auto
  have k: "key_ok ty m ?k" "comparable ty ?k" using c(2) lk t comp(2)[of ty m ?k] by auto
  have kk: "\<forall>k \<in> set (take (t - 1) ks). key_ok ty m k" "\<forall>k \<in> set (drop t ks). key_ok ty m k"
    using c(2) by (auto dest: in_set_takeD in_set_dropD)
  have ok: "oks ty m (?f c) \<and> ?f c \<noteq> []" if "c \<in> set cs" for c using c(3) that btree_contents by blast
  have le: "\<forall>e \<in> set (concat (map ?f us @ [?f u])). kle (bkey e) ?k"
    by (rule adj_all_le[OF ad(1) _ kk(1) k(2)]) (use ok cs ad(2) in \<open>auto simp: link_def\<close>)
  have ge: "\<forall>e \<in> set (concat (?f v # map ?f vs)). kle ?k (bkey e)"
    by (rule adj_all_ge[OF ad(3) _ kk(2) k(2)]) (use ok cs ad(2) in \<open>auto simp: link_def\<close>)
  let ?a = "Node False (entries c) (take (t - 1) ks) (map Some ?us) (map curr_page_id ?us) (curr_page_id c) (next_page_id c)"
  let ?b = "Node False [] (drop t ks) (map Some ?vs) (map curr_page_id ?vs) np (jk np)"
  have g: "t \<le> 2 * t - Suc 0" using t by simp
  have "split_node jk (int t) np c = Inr (?k, ?a, ?b)"
    using c(1) lk lc t g by (simp add: split_node_def Let_def setters inode_def take_map drop_map)
  moreover have in_ab: "inode ?a (take (t - 1) ks) ?us" "inode ?b (drop t ks) ?vs" by (simp_all add: inode_def)
  have bt: "\<forall>c \<in> set ?us. btree ty m t h c" "\<forall>c \<in> set ?vs. btree ty m t h c"
    using c(3) by (auto dest: in_set_takeD in_set_dropD)
  have "take (t - 1) ks \<noteq> []" "drop t ks \<noteq> []" "length (take (t - 1) ks) < 2 * t" "length (drop t ks) < 2 * t"
    using ne(3,4) t by (auto simp flip: length_greater_0_conv)
  moreover have "adj (take (t - 1) ks) (map ?f ?us)" "adj (drop t ks) (map ?f ?vs)" using ad(1,3) us vs by simp_all
  ultimately have "btree ty m t (Suc h) ?a" "btree ty m t (Suc h) ?b"
    using btree_inner[OF in_ab(1)] btree_inner[OF in_ab(2)] kk bt i(2) c(5) by simp_all
  moreover have "contents (Suc h) c = contents (Suc h) ?a @ contents (Suc h) ?b"
    unfolding inode_simps(3)[OF c(1)] inode_simps(3)[OF in_ab(1)] inode_simps(3)[OF in_ab(2)]
    by (metis append_take_drop_id concat_append map_append)
  moreover have "link ?k (contents (Suc h) ?a) (contents (Suc h) ?b)"
    unfolding inode_simps(3)[OF in_ab(1)] inode_simps(3)[OF in_ab(2)] using le ge ad(2) us vs by (auto simp: link_def)
  moreover have "leaves (Suc h) c = leaves (Suc h) ?a @ leaves (Suc h) ?b"
    unfolding inode_simps(2)[OF c(1)] inode_simps(2)[OF in_ab(1)] inode_simps(2)[OF in_ab(2)]
    by (metis append_take_drop_id concat_append map_append)
  moreover have "nodes (Suc h) c = c # concat (map (nodes h) ?us) @ concat (map (nodes h) ?vs)"
    unfolding inode_simps(1)[OF c(1)] by (metis append_take_drop_id concat_append map_append)
  moreover note \<open>split_node jk (int t) np c = Inr (?k, ?a, ?b)\<close>
  ultimately show ?thesis
    using k(1) ne(3,4) t inode_simps(1)[OF in_ab(1)] inode_simps(1)[OF in_ab(2)] inode_simps(5)[OF in_ab(1)] inode_simps(5)[OF in_ab(2)]
    by (intro exI[of _ ?k] exI[of _ ?a] exI[of _ ?b]) (auto simp: halves_def)
qed

lemma split_node_halves:
  assumes "btree ty m t h c" "Suc (node_size c) = 2 * t" "2 \<le> t" "in_i32 np" "in_i32 (jk np)"
  shows "\<exists>sep a b. split_node jk (int t) np c = Inr (sep, a, b) \<and> halves ty m t h np c sep a b"
  using assms split_leaf split_inner by (cases h) blast+

section \<open>Insertion on pages\<close>

definition framed :: "bpm \<Rightarrow> nat \<Rightarrow> int list \<Rightarrow> bpm \<Rightarrow> bool" where
  "framed s n ps u \<longleftrightarrow> (\<forall>j. 1 \<le> j \<and> j \<le> n \<and> int j \<notin> set ps \<longrightarrow> view u j = view s j)"

lemma stored_framed:
  assumes "stored s ns" "framed s n ps u" "\<forall>x \<in> set ns. 1 \<le> curr_page_id x \<and> curr_page_id x \<le> int n \<and> curr_page_id x \<notin> set ps"
  shows "stored u ns"
  unfolding stored_def
proof
  fix x assume x: "x \<in> set ns"
  then have "1 \<le> nat (curr_page_id x)" "nat (curr_page_id x) \<le> n" "int (nat (curr_page_id x)) \<notin> set ps" using assms(3) by auto
  then have "view u (nat (curr_page_id x)) = view s (nat (curr_page_id x))" using assms(2) unfolding framed_def by blast
  then show "on_page (view u (nat (curr_page_id x))) x" using assms(1) x by (simp add: stored_def)
qed

lemma stored_append [simp]: "stored s (xs @ ys) \<longleftrightarrow> stored s xs \<and> stored s ys" and stored_Cons: "stored s (x # xs) \<longleftrightarrow> stored s [x] \<and> stored s xs"
  by (auto simp: stored_def)

lemma stored_tl: "stored s xs \<Longrightarrow> stored s (tl xs)"
  by (cases xs) (auto simp: stored_def)

lemma in_pages: "x \<in> set (nodes h nd) \<Longrightarrow> curr_page_id x \<in> set (pages h nd)"
  by (simp add: pages_def)

lemma page_nat: "1 \<le> p \<Longrightarrow> p \<le> int n \<Longrightarrow> p = int (nat p) \<and> 1 \<le> nat p \<and> nat p \<le> n"
  by linarith

lemma inode_child: "inode nd ks (as @ c # bs) \<Longrightarrow> child_at nd (length as) = Inr c"
  by (simp add: child_at_def inode_def vec_at_def nth_append)

lemma splitChild_ok:
  assumes s: "pool_ok s n" "n < 60000" and f: "fits m t" and jk: "\<forall>p. in_i32 (jk p)"
    and nd: "inode nd (ks @ js) (as @ c # bs)" "length ks = length as"
    and c: "btree ty m t h c" "Suc (node_size c) = 2 * t" "placed n (pages h c)" "stored s (nodes h c)"
  shows "\<exists>sep a b nd' u. splitChild jk (int t) nd (length as) s = Inr (nd', u) \<and> halves ty m t h (int (Suc n)) c sep a b \<and>
    inode nd' (ks @ sep # js) (as @ a # b # bs) \<and> curr_page_id nd' = curr_page_id nd \<and> next_page_id nd' = next_page_id nd \<and>
    pool_ok u (Suc n) \<and> stored u (nodes h a @ nodes h b) \<and> distinct (pages h a @ pages h b) \<and>
    set (pages h a @ pages h b) = insert (int (Suc n)) (set (pages h c)) \<and> framed s n (pages h c) u"
proof -
  let ?np = "int (Suc n)"
  have t: "2 \<le> t" using f by (simp add: fits_def)
  obtain s1 where s1: "newPage s = Inr (?np, s1)" "pool_ok s1 (Suc n)" "same_views n s s1" using pool_new[OF s] by blast
  have "in_i32 ?np" using s(2) by (simp add: in_i32_def)
  then obtain sep a b where sp: "split_node jk (int t) ?np c = Inr (sep, a, b)" and hv: "halves ty m t h ?np c sep a b"
    using split_node_halves[OF c(1,2) t, of ?np jk] jk by blast
  obtain us vs where uv: "nodes h c = c # us @ vs" "nodes h a = a # us" "nodes h b = b # vs" using hv by (auto simp: halves_def)
  have pid: "curr_page_id a = curr_page_id c" "curr_page_id b = ?np" "btree ty m t h a" "btree ty m t h b" using hv by (auto simp: halves_def)
  have pg: "pages h c = curr_page_id c # map curr_page_id us @ map curr_page_id vs" "pages h a = curr_page_id c # map curr_page_id us"
    "pages h b = ?np # map curr_page_id vs" using uv pid by (simp_all add: pages_def)
  have dist: "distinct (pages h c)" "\<And>p. p \<in> set (pages h c) \<Longrightarrow> 1 \<le> p \<and> p \<le> int n" using c(3) by (auto simp: placed_def)
  have "\<forall>p \<in> insert ?np (set (pages h c)). 1 \<le> p \<and> p \<le> int (Suc n)" using dist(2) by force
  moreover have "set (pages h a) \<subseteq> insert ?np (set (pages h c))" "set (pages h b) \<subseteq> insert ?np (set (pages h c))" unfolding pg by auto
  ultimately have rng: "\<forall>p \<in> set (pages h a). 1 \<le> p \<and> p \<le> int (Suc n)" "\<forall>p \<in> set (pages h b). 1 \<le> p \<and> p \<le> int (Suc n)"
    by blast+
  have "Suc n < 2 ^ 31" using s(2) by simp
  note ok = btree_node_ok[OF pid(3) f rng(1) this] btree_node_ok[OF pid(4) f rng(2) this]
  have ci: "curr_page_id a = int (nat (curr_page_id c))" "1 \<le> nat (curr_page_id c)" "nat (curr_page_id c) \<le> n"
    using page_nat[of "curr_page_id c" n] dist(2)[OF curr_in_pages] pid(1) by simp_all
  obtain s2 where s2: "write_node a s1 = Inr s2" "pool_ok s2 (Suc n)" "on_page (view s2 (nat (curr_page_id c))) a"
    "\<forall>j. 1 \<le> j \<and> j \<le> Suc n \<and> j \<noteq> nat (curr_page_id c) \<longrightarrow> view s2 j = view s1 j"
    using write_node_ok[OF s1(2) ci(1,2) _ ok(1)] ci(3) by auto
  obtain u where u: "write_node b s2 = Inr u" "pool_ok u (Suc n)" "on_page (view u (Suc n)) b"
    "\<forall>j. 1 \<le> j \<and> j \<le> Suc n \<and> j \<noteq> Suc n \<longrightarrow> view u j = view s2 j"
    using write_node_ok[OF s2(2) pid(2) _ _ ok(2)] by auto
  have vw: "view u j = view s j" if "1 \<le> j" "j \<le> n" "j \<noteq> nat (curr_page_id c)" for j
    using that u(4) s2(4) s1(3) by (simp add: same_views_def)
  then have fr: "framed s n [curr_page_id c] u" "framed s n (pages h c) u" unfolding framed_def pg by auto
  have "stored s (us @ vs)" using c(4) uv(1) stored_Cons by metis
  then have "stored u (us @ vs)"
  proof (rule stored_framed[OF _ fr(1)])
    have "\<forall>x \<in> set (us @ vs). curr_page_id x \<in> set (pages h c) \<and> curr_page_id x \<noteq> curr_page_id c" using dist(1) unfolding pg by (auto simp: image_iff)
    then show "\<forall>x \<in> set (us @ vs). 1 \<le> curr_page_id x \<and> curr_page_id x \<le> int n \<and> curr_page_id x \<notin> set [curr_page_id c]"
      using dist(2) by simp
  qed
  moreover have "nat (curr_page_id b) = Suc n" by (simp only: pid(2) nat_int)
  then have "on_page (view u (nat (curr_page_id a))) a" "on_page (view u (nat (curr_page_id b))) b"
    using s2(3) u(3,4) ci pid(1) by simp_all
  ultimately have st: "stored u (nodes h a @ nodes h b)" unfolding uv by (auto simp: stored_def)
  have np: "?np \<notin> set (pages h c)" using dist(2)[of ?np] by auto
  let ?nd = "set_pids (set_children (set_keys nd (ks @ sep # js)) (map Some (as @ a # b # bs))) (map curr_page_id (as @ a # b # bs))"
  have "splitChild jk (int t) nd (length as) s = Inr (?nd, u)"
    using nd s1(1) sp s2(1) u(1) pid(1,2)
    by (simp add: splitChild_def inode_child[OF nd(1)]) (simp add: inode_def insert_at_def list_update_append)
  moreover have "inode ?nd (ks @ sep # js) (as @ a # b # bs)" using nd(1) by (simp add: inode_def setters)
  moreover have "curr_page_id ?nd = curr_page_id nd" "next_page_id ?nd = next_page_id nd" by (simp_all add: setters)
  moreover have "distinct (pages h a @ pages h b)" "set (pages h a @ pages h b) = insert ?np (set (pages h c))"
    using dist(1) np unfolding pg by auto
  ultimately show ?thesis using hv u(2) st fr(2) by blast
qed

text \<open>What inserting the entry \<open>e\<close> does to a tree of height \<open>h\<close>, with at most \<open>d\<close> new pages.\<close>

definition grown :: "FieldType \<Rightarrow> nat \<Rightarrow> nat \<Rightarrow> nat \<Rightarrow> nat \<Rightarrow> bentry \<Rightarrow> bnode \<Rightarrow> bpm \<Rightarrow> nat \<Rightarrow> bnode \<Rightarrow> bpm \<Rightarrow> nat \<Rightarrow> bool" where
  "grown ty m t h d e nd s n nd' u n' \<longleftrightarrow> pool_ok u n' \<and> n \<le> n' \<and> n' \<le> n + d \<and> btree ty m t h nd' \<and>
     placed n' (pages h nd') \<and> stored u (nodes h nd') \<and> curr_page_id nd' = curr_page_id nd \<and>
     (\<exists>us vs. contents h nd = us @ vs \<and> contents h nd' = us @ e # vs) \<and>
     (\<forall>x y. chain x (leaves h nd) y \<longrightarrow> chain x (leaves h nd') y) \<and>
     set (pages h nd') \<subseteq> set (pages h nd) \<union> {int n + 1..int n'} \<and> framed s n (pages h nd) u"

lemma insert_into:
  fixes e defines "key \<equiv> bkey e"
  assumes IH: "\<And>c s n. btree ty m t h c \<Longrightarrow> Suc (node_size c) < 2 * t \<Longrightarrow> pool_ok s n \<Longrightarrow> placed n (pages h c) \<Longrightarrow>
      stored s (nodes h c) \<Longrightarrow> n + h < 60000 \<Longrightarrow>
      \<exists>c' u n'. insertNonFull k jk (int t) c key val s = Inr (c', u) \<and> grown ty m t h h e c s n c' u n'"
    and nd: "inode nd (ks @ js) (as @ c # bs)" "length ks = length as" "in_i32 (next_page_id nd)"
    and ks: "ks @ js \<noteq> []" "length (ks @ js) < 2 * t" "\<forall>k \<in> set (ks @ js). key_ok ty m k"
    and cs: "\<forall>c \<in> set (as @ c # bs). btree ty m t h c" "adj (ks @ js) (map (contents h) (as @ c # bs))"
    and sz: "Suc (node_size c) < 2 * t" and f: "fits m t"
    and s: "pool_ok s n" "placed n (pages (Suc h) nd)" "stored s (concat (map (nodes h) (as @ c # bs)))" "n + h < 60000"
    and b: "ks \<noteq> [] \<Longrightarrow> kle (last ks) key" "js \<noteq> [] \<Longrightarrow> kle key (hd js)"
  shows "\<exists>c' v u n'. insertNonFull k jk (int t) c key val s = Inr (c', v) \<and> write_node (set_child nd (length as) c') v = Inr u \<and>
    grown ty m t (Suc h) h e nd s n (set_child nd (length as) c') u n'"
proof -
  let ?P = "\<lambda>cs. concat (map (pages h) cs)"
  have pg: "pages (Suc h) nd = curr_page_id nd # ?P as @ pages h c @ ?P bs" by (simp add: inode_simps(4)[OF nd(1)])
  have dist: "distinct (curr_page_id nd # ?P as @ pages h c @ ?P bs)" "\<And>p. p \<in> set (pages (Suc h) nd) \<Longrightarrow> 1 \<le> p \<and> p \<le> int n"
    using s(2) pg by (auto simp: placed_def)
  have "placed n (pages h c)" using dist pg by (auto simp: placed_def)
  moreover have "stored s (nodes h c)" using s(3) by simp
  ultimately obtain c' v n' where v: "insertNonFull k jk (int t) c key val s = Inr (c', v)" "grown ty m t h h e c s n c' v n'"
    using IH[of c s n] cs(1) sz s(1,4) by auto
  note g = v(2)[unfolded grown_def]
  let ?nd = "set_child nd (length as) c'"
  have nd': "inode ?nd (ks @ js) (as @ c' # bs)" "curr_page_id ?nd = curr_page_id nd" "next_page_id ?nd = next_page_id nd"
    using nd(1) g by (simp_all add: inode_def set_child_def setters list_update_append)
  have pg': "pages (Suc h) ?nd = curr_page_id nd # ?P as @ pages h c' @ ?P bs" using nd'(2) by (simp add: inode_simps(4)[OF nd'(1)])
  have new: "set (pages h c') \<subseteq> set (pages h c) \<union> {int n + 1..int n'}" using g by blast
  have rest: "p \<le> int n" if "p \<in> set (curr_page_id nd # ?P as @ ?P bs)" for p using dist(2)[of p] that pg by auto
  have disj: "set (pages h c') \<inter> set (curr_page_id nd # ?P as @ ?P bs) = {}"
  proof -
    have "set (pages h c) \<inter> set (curr_page_id nd # ?P as @ ?P bs) = {}" using dist(1) by auto
    moreover have "{int n + 1..int n'} \<inter> set (curr_page_id nd # ?P as @ ?P bs) = {}" using rest by fastforce
    ultimately show ?thesis using new by blast
  qed
  have "distinct (curr_page_id nd # ?P as @ pages h c' @ ?P bs)" using dist(1) disj g by (auto simp: placed_def)
  moreover have "1 \<le> p \<and> p \<le> int n'" if p: "p \<in> set (curr_page_id nd # ?P as @ pages h c' @ ?P bs)" for p
  proof (cases "p \<in> set (pages h c')")
    case False
    then have "p \<in> set (pages (Suc h) nd)" using p pg by auto
    then show ?thesis using dist(2)[of p] g by auto
  qed (use g in \<open>auto simp: placed_def\<close>)
  ultimately have pl: "placed n' (pages (Suc h) ?nd)" unfolding pg' placed_def by blast
  obtain us vs where uv: "contents h c = us @ vs" "contents h c' = us @ e # vs" using g by blast
  have "adj (ks @ js) (map (contents h) as @ contents h c' # map (contents h) bs)"
    using adj_replace[of ks js "map (contents h) as" "contents h c" "map (contents h) bs" "contents h c'" e] cs(2) nd(2) uv b
    unfolding key_def by auto
  then have bt: "btree ty m t (Suc h) ?nd"
    using nd'(1,3) nd(3) ks cs(1) g by (intro btree_inner) auto
  have n': "n' < 2 ^ 31" using g s(4) by simp
  note ok = btree_node_ok[OF bt f _ n'] 
  have okn: "node_ok ty m ?nd" using ok pl by (simp add: placed_def)
  have ci: "curr_page_id ?nd = int (nat (curr_page_id nd))" "1 \<le> nat (curr_page_id nd)" "nat (curr_page_id nd) \<le> n"
    using page_nat[of "curr_page_id nd" n] dist(2)[of "curr_page_id nd"] pg nd'(2) by simp_all
  obtain u where u: "write_node ?nd v = Inr u" "pool_ok u n'" "on_page (view u (nat (curr_page_id nd))) ?nd"
    "\<forall>j. 1 \<le> j \<and> j \<le> n' \<and> j \<noteq> nat (curr_page_id nd) \<longrightarrow> view u j = view v j"
    using write_node_ok[OF _ ci(1,2) _ okn, of v n'] g ci(3) by auto
  have fr: "framed v n' [curr_page_id nd] u" using u(4) ci by (auto simp: framed_def)
  have fr2: "framed s n (pages (Suc h) nd) u"
    unfolding framed_def
  proof (intro allI impI)
    fix j assume j: "1 \<le> j \<and> j \<le> n \<and> int j \<notin> set (pages (Suc h) nd)"
    then have "view u j = view v j" using u(4) g pg ci by auto
    moreover have "view v j = view s j" using g j pg unfolding framed_def by auto
    ultimately show "view u j = view s j" by simp
  qed
  have st: "stored u (nodes h c')"
    using g disj placed_def by (intro stored_framed[OF _ fr]) (auto dest!: in_pages)
  have "stored s (concat (map (nodes h) as) @ concat (map (nodes h) bs))" using s(3) by simp
  then have "stored v (concat (map (nodes h) as) @ concat (map (nodes h) bs))"
  proof (rule stored_framed)
    show "framed s n (pages h c) v" using g by blast
    show "\<forall>x \<in> set (concat (map (nodes h) as) @ concat (map (nodes h) bs)).
        1 \<le> curr_page_id x \<and> curr_page_id x \<le> int n \<and> curr_page_id x \<notin> set (pages h c)"
    proof
      fix x assume "x \<in> set (concat (map (nodes h) as) @ concat (map (nodes h) bs))"
      then have x: "curr_page_id x \<in> set (?P as @ ?P bs)" using in_pages by fastforce
      then have "curr_page_id x \<in> set (pages (Suc h) nd)" using pg by auto
      then show "1 \<le> curr_page_id x \<and> curr_page_id x \<le> int n \<and> curr_page_id x \<notin> set (pages h c)" using dist x by auto
    qed
  qed
  then have "stored u (concat (map (nodes h) as) @ concat (map (nodes h) bs))"
  proof (rule stored_framed[OF _ fr])
    show "\<forall>x \<in> set (concat (map (nodes h) as) @ concat (map (nodes h) bs)).
        1 \<le> curr_page_id x \<and> curr_page_id x \<le> int n' \<and> curr_page_id x \<notin> set [curr_page_id nd]"
    proof
      fix x assume "x \<in> set (concat (map (nodes h) as) @ concat (map (nodes h) bs))"
      then have x: "curr_page_id x \<in> set (?P as @ ?P bs)" using in_pages by fastforce
      then have "curr_page_id x \<in> set (pages (Suc h) nd)" using pg by auto
      then show "1 \<le> curr_page_id x \<and> curr_page_id x \<le> int n' \<and> curr_page_id x \<notin> set [curr_page_id nd]"
        using dist(2)[of "curr_page_id x"] dist(1) x g by auto
    qed
  qed
  then have "stored u (nodes (Suc h) ?nd)"
    unfolding inode_simps(1)[OF nd'(1)] using st u(3) nd'(2) by (auto simp: stored_def)
  moreover have "\<exists>us vs. contents (Suc h) nd = us @ vs \<and> contents (Suc h) ?nd = us @ e # vs"
    unfolding inode_simps(3)[OF nd(1)] inode_simps(3)[OF nd'(1)] using uv
    by (intro exI[of _ "concat (map (contents h) as) @ us"] exI[of _ "vs @ concat (map (contents h) bs)"]) simp
  moreover have "chain x (leaves (Suc h) nd) y \<longrightarrow> chain x (leaves (Suc h) ?nd) y" for x y
    unfolding inode_simps(2)[OF nd(1)] inode_simps(2)[OF nd'(1)] using g by (auto simp: chain_append)
  moreover have "set (pages (Suc h) ?nd) \<subseteq> set (pages (Suc h) nd) \<union> {int n + 1..int n'}" unfolding pg pg' using new by auto
  ultimately have "grown ty m t (Suc h) h e nd s n ?nd u n'"
    unfolding grown_def using u(2) bt pl fr2 nd'(2) g by auto
  then show ?thesis using v(1) u(1) by blast
qed

lemma insert_leaf_entries:
  assumes e: "bentry_ok ty m e" and es: "oks ty m es" "ordered es"
  shows "\<exists>us vs. es = us @ vs \<and> lower_bound (\<lambda>x. field_lt False (bkey x) (bkey e)) es = Inr (length us) \<and>
    insert_at (length us) e es = Inr (us @ e # vs) \<and> ordered (us @ e # vs)"
proof -
  let ?q = "\<lambda>x. fless (bkey x) (bkey e)"
  have ce: "comparable ty (bkey e)" using comp(1)[OF e] .
  have cmp: "field_lt False (bkey x) (bkey e) = Inr (?q x)" if "x \<in> set es" for x
    using field_cmp_not_same(1)[OF comp(1) ce] es(1) that by blast
  have cx: "comparable ty (bkey x)" if "x \<in> set es" for x using comp(1) es(1) that by blast
  have "sorted_wrt (\<lambda>a b. ?q b \<longrightarrow> ?q a) es"
  proof (rule sorted_wrt_mono_rel[of _ "\<lambda>a b. kle (bkey a) (bkey b)"])
    show "sorted_wrt (\<lambda>a b. kle (bkey a) (bkey b)) es" using es(2) by (simp add: ordered_def)
    fix x y assume "x \<in> set es" "y \<in> set es" "kle (bkey x) (bkey y)"
    then show "?q y \<longrightarrow> ?q x" using cx ce kle_trans[of ty "bkey e" "bkey x" "bkey y"] by blast
  qed
  from lower_bound_takeWhile[OF cmp this] have lb: "lower_bound (\<lambda>x. field_lt False (bkey x) (bkey e)) es = Inr (length (takeWhile ?q es))" by blast
  have es': "es = takeWhile ?q es @ dropWhile ?q es" by simp
  have i: "insert_at (length (takeWhile ?q es)) e es = Inr (takeWhile ?q es @ e # dropWhile ?q es)"
    by (simp add: insert_at_def length_takeWhile_le flip: takeWhile_eq_take dropWhile_eq_drop)
  have l: "?q x" if "x \<in> set (takeWhile ?q es)" for x using that by (auto dest: set_takeWhileD)
  have r: "kle (bkey e) (bkey x)" if x: "x \<in> set (dropWhile ?q es)" for x
  proof -
    obtain z zs where z: "dropWhile ?q es = z # zs" using x by (cases "dropWhile ?q es") auto
    then have nz: "kle (bkey e) (bkey z)" using hd_dropWhile[of ?q es] by auto
    have "ordered (dropWhile ?q es)" using es(2) es' unfolding ordered_def by (metis sorted_wrt_append)
    then have "x = z \<or> kle (bkey z) (bkey x)" using x z by (auto simp: ordered_def)
    moreover have "z \<in> set es" "x \<in> set es" using z x set_dropWhileD[of _ ?q es] by (metis list.set_intros(1))+
    ultimately show ?thesis using nz kle_trans[OF ce cx cx] by blast
  qed
  have asym: "kle (bkey x) (bkey e)" if "x \<in> set (takeWhile ?q es)" for x
    using field_order.asym[OF cx ce] l[OF that] set_takeWhileD[OF that] by blast
  define us vs where us: "us = takeWhile ?q es" and vs: "vs = dropWhile ?q es"
  have d: "es = us @ vs" unfolding us vs by (rule es')
  have d2: "\<forall>x \<in> set us. kle (bkey x) (bkey e)" unfolding us by (intro ballI) (rule asym)
  have d3: "\<forall>x \<in> set vs. kle (bkey e) (bkey x)" unfolding vs by (intro ballI) (rule r)
  have "ordered (us @ e # vs)" using es(2) d2 d3 unfolding d ordered_def by (simp add: sorted_wrt_append)
  moreover have "lower_bound (\<lambda>x. field_lt False (bkey x) (bkey e)) es = Inr (length us)" "insert_at (length us) e es = Inr (us @ e # vs)"
    unfolding us vs by (rule lb, rule i)
  ultimately show ?thesis using d by blast
qed

lemma ensure_present: "inode nd ks (as @ c # bs) \<Longrightarrow> ensure_child k (length as) nd s = Inr (nd, s)"
  by (cases nd) (simp add: ensure_child_def inode_def vec_at_def nth_append setters)

lemma split_parent:
  assumes nd: "inode nd (ks @ js) (as @ c # bs)" and nd1: "inode nd1 (ks @ sep # js) (as @ a # b # bs)" "curr_page_id nd1 = curr_page_id nd"
    and hv: "halves ty m t h (int (Suc n)) c sep a b" and pl: "placed n (pages (Suc h) nd)"
    and pg: "distinct (pages h a @ pages h b)" "set (pages h a @ pages h b) = insert (int (Suc n)) (set (pages h c))"
    and st: "stored s (concat (map (nodes h) (as @ c # bs)))" "stored u (nodes h a @ nodes h b)" and fr: "framed s n (pages h c) u"
  shows "contents (Suc h) nd1 = contents (Suc h) nd" "\<forall>x y. chain x (leaves (Suc h) nd) y \<longrightarrow> chain x (leaves (Suc h) nd1) y"
    "set (pages (Suc h) nd1) = insert (int (Suc n)) (set (pages (Suc h) nd))" "placed (Suc n) (pages (Suc h) nd1)"
    "stored u (concat (map (nodes h) (as @ a # b # bs)))" "framed s n (pages (Suc h) nd) u"
proof -
  let ?P = "\<lambda>cs. concat (map (pages h) cs)" and ?N = "\<lambda>cs. concat (map (nodes h) cs)"
  have p0: "pages (Suc h) nd = curr_page_id nd # ?P as @ pages h c @ ?P bs" by (simp add: inode_simps(4)[OF nd])
  have p1: "pages (Suc h) nd1 = curr_page_id nd # ?P as @ (pages h a @ pages h b) @ ?P bs" using nd1(2) by (simp add: inode_simps(4)[OF nd1(1)])
  have dist: "distinct (curr_page_id nd # ?P as @ pages h c @ ?P bs)" "\<And>p. p \<in> set (pages (Suc h) nd) \<Longrightarrow> 1 \<le> p \<and> p \<le> int n"
    using pl p0 by (auto simp: placed_def)
  show "contents (Suc h) nd1 = contents (Suc h) nd"
    using hv unfolding inode_simps(3)[OF nd] inode_simps(3)[OF nd1(1)] by (simp add: halves_def)
  have hc: "\<And>x y. chain x (leaves h c) y \<Longrightarrow> chain x (leaves h a @ leaves h b) y" using hv by (simp add: halves_def)
  let ?L = "\<lambda>cs. concat (map (leaves h) cs)"
  have l1: "leaves (Suc h) nd1 = ?L as @ (leaves h a @ leaves h b) @ ?L bs" unfolding inode_simps(2)[OF nd1(1)] by simp
  have l0: "leaves (Suc h) nd = ?L as @ leaves h c @ ?L bs" unfolding inode_simps(2)[OF nd] by simp
  show "\<forall>x y. chain x (leaves (Suc h) nd) y \<longrightarrow> chain x (leaves (Suc h) nd1) y"
  proof (intro allI impI)
    fix x y assume "chain x (leaves (Suc h) nd) y"
    then obtain q q' where "chain x (?L as) q" "chain q (leaves h c) q'" "chain q' (?L bs) y" unfolding l0 chain_append by blast
    then show "chain x (leaves (Suc h) nd1) y" using hc unfolding l1 chain_append[of x] chain_append[of _ "leaves h a @ leaves h b"] by blast
  qed
  show ps: "set (pages (Suc h) nd1) = insert (int (Suc n)) (set (pages (Suc h) nd))"
    using pg(2) unfolding p0 p1 by auto
  have new: "int (Suc n) \<notin> set (pages (Suc h) nd)" using dist(2)[of "int (Suc n)"] by auto
  have "set (pages h a @ pages h b) \<inter> set (curr_page_id nd # ?P as @ ?P bs) = {}"
    using pg(2) dist(1) new unfolding p0 by auto
  then have "distinct (curr_page_id nd # ?P as @ (pages h a @ pages h b) @ ?P bs)" using dist(1) pg(1) by auto
  moreover have "\<forall>p \<in> set (pages (Suc h) nd1). 1 \<le> p \<and> p \<le> int (Suc n)" unfolding ps using dist(2) by force
  ultimately show "placed (Suc n) (pages (Suc h) nd1)" unfolding placed_def p1 by blast
  have "stored s (?N as @ ?N bs)" using st(1) by simp
  then have "stored u (?N as @ ?N bs)"
  proof (rule stored_framed[OF _ fr])
    show "\<forall>x \<in> set (?N as @ ?N bs). 1 \<le> curr_page_id x \<and> curr_page_id x \<le> int n \<and> curr_page_id x \<notin> set (pages h c)"
    proof
      fix x assume "x \<in> set (?N as @ ?N bs)"
      then have x: "curr_page_id x \<in> set (?P as @ ?P bs)" using in_pages by fastforce
      then have "curr_page_id x \<in> set (pages (Suc h) nd)" using p0 by auto
      then show "1 \<le> curr_page_id x \<and> curr_page_id x \<le> int n \<and> curr_page_id x \<notin> set (pages h c)" using dist x by auto
    qed
  qed
  then show "stored u (?N (as @ a # b # bs))" using st(2) by simp
  show "framed s n (pages (Suc h) nd) u" using fr p0 unfolding framed_def by simp
qed

lemma grown_after_split:
  assumes "contents (Suc h) nd1 = contents (Suc h) nd" "\<forall>x y. chain x (leaves (Suc h) nd) y \<longrightarrow> chain x (leaves (Suc h) nd1) y"
    "set (pages (Suc h) nd1) = insert (int (Suc n)) (set (pages (Suc h) nd))" "framed s n (pages (Suc h) nd) u" "curr_page_id nd1 = curr_page_id nd"
    and g: "grown ty m t (Suc h) h e nd1 u (Suc n) nd2 v n'"
  shows "grown ty m t (Suc h) (Suc h) e nd s n nd2 v n'"
proof -
  have "set (pages (Suc h) nd2) \<subseteq> set (pages (Suc h) nd) \<union> {int n + 1..int n'}" using assms(3) g by (auto simp: grown_def)
  moreover have "framed s n (pages (Suc h) nd) v"
    unfolding framed_def
  proof (intro allI impI)
    fix j assume j: "1 \<le> j \<and> j \<le> n \<and> int j \<notin> set (pages (Suc h) nd)"
    then have "int j \<notin> set (pages (Suc h) nd1)" using assms(3) by auto
    then have "view v j = view u j" using g j unfolding grown_def framed_def by auto
    then show "view v j = view s j" using assms(4) j by (simp add: framed_def)
  qed
  ultimately show ?thesis using g assms(1,2,5) unfolding grown_def by auto
qed

lemma insertNonFull_ok:
  fixes e defines "key \<equiv> bkey e" and "val \<equiv> bval e"
  assumes "btree ty m t h nd" "Suc (node_size nd) < 2 * t" "pool_ok s n" "placed n (pages h nd)" "stored s (tl (nodes h nd))" "n + h < 60000" "h < k"
    and f: "fits m t" and jk: "\<forall>p. in_i32 (jk p)" and e: "bentry_ok ty m e"
  shows "\<exists>nd' u n'. insertNonFull k jk (int t) nd key val s = Inr (nd', u) \<and> grown ty m t h h e nd s n nd' u n'"
  using assms(3-9)
proof (induction h arbitrary: nd s n k)
  case 0
  obtain k' where k: "k = Suc k'" using "0.prems"(7) by (cases k) auto
  have nd: "isLeaf nd" "oks ty m (entries nd)" "ordered (entries nd)" "length (entries nd) < 2 * t - 1" "in_i32 (next_page_id nd)"
    using "0.prems"(1,2) by (auto simp: node_size_def)
  obtain us vs where uv: "entries nd = us @ vs" "lower_bound (\<lambda>x. field_lt False (bkey x) key) (entries nd) = Inr (length us)"
    "insert_at (length us) e (entries nd) = Inr (us @ e # vs)" "ordered (us @ e # vs)"
    using insert_leaf_entries[OF e nd(2,3)] unfolding key_def by blast
  have e': "\<lparr>bkey = key, bval = val\<rparr> = e" by (simp add: key_def val_def)
  let ?nd = "sync_keys nd (us @ e # vs)"
  have sel: "curr_page_id ?nd = curr_page_id nd" "next_page_id ?nd = next_page_id nd" "entries ?nd = us @ e # vs" "isLeaf ?nd"
    using nd(1) by (simp_all add: setters)
  have bt: "btree ty m t 0 ?nd" using sel nd uv e by auto
  have p: "1 \<le> curr_page_id nd" "curr_page_id nd \<le> int n" using "0.prems"(4) by (auto simp: placed_def)
  have ci: "curr_page_id ?nd = int (nat (curr_page_id nd))" "1 \<le> nat (curr_page_id nd)" "nat (curr_page_id nd) \<le> n"
    using page_nat[OF p] sel(1) by simp_all
  have "node_ok ty m ?nd" using btree_node_ok[OF bt f, of n] "0.prems"(6) p sel(1) by simp
  then obtain u where u: "write_node ?nd s = Inr u" "pool_ok u n" "on_page (view u (nat (curr_page_id nd))) ?nd"
    "\<forall>j. 1 \<le> j \<and> j \<le> n \<and> j \<noteq> nat (curr_page_id nd) \<longrightarrow> view u j = view s j"
    using write_node_ok[OF "0.prems"(3) ci] by blast
  have "insertNonFull k jk (int t) nd key val s = Inr (?nd, u)"
    using nd(1) uv(2,3) u(1) by (simp add: k e')
  moreover have "grown ty m t 0 0 e nd s n ?nd u n"
    unfolding grown_def using u(2-4) bt sel "0.prems"(4) uv(1) ci(2,3) by (auto simp: stored_def framed_def)
  ultimately show ?case by blast
next
  case (Suc h)
  obtain k' where k: "k = Suc k'" "h < k'" using Suc.prems(7) by (cases k) auto
  have IH: "\<exists>c' u n'. insertNonFull k' jk (int t) c key val s = Inr (c', u) \<and> grown ty m t h h e c s n c' u n'"
    if "btree ty m t h c" "Suc (node_size c) < 2 * t" "pool_ok s n" "placed n (pages h c)" "stored s (nodes h c)" "n + h < 60000" for c s n
    using Suc.IH[OF that(1-4) stored_tl[OF that(5)] that(6) k(2)] .
  obtain ks' cs where i: "inode nd ks' cs" "ks' \<noteq> []" "\<forall>k \<in> set ks'. key_ok ty m k" "\<forall>c \<in> set cs. btree ty m t h c"
    "adj ks' (map (contents h) cs)" "in_i32 (next_page_id nd)" using Suc.prems(1) by auto
  have lk: "Suc (length ks') < 2 * t" using Suc.prems(2) inode_simps(5)[OF i(1)] by simp
  have ce: "comparable ty key" using comp(1)[OF e] by (simp add: key_def)
  obtain ks js where kj: "ks' = ks @ js" "key_slot key ks' (length ks') = Inr (length ks)" "ks \<noteq> [] \<longrightarrow> kle (last ks) key" "js \<noteq> [] \<longrightarrow> fless key (hd js)"
    using key_slot_split[OF i(3) ce] by blast
  have cl: "length cs = Suc (length ks + length js)" using adj_length[OF i(5)] kj(1) by simp
  obtain as c bs where cs: "cs = as @ c # bs" "length ks = length as"
    using cl id_take_nth_drop[of "length ks" cs] by (metis le_add1 le_imp_less_Suc length_take min.absorb2 less_imp_le)
  note i' = i(1)[unfolded kj(1) cs(1)]
  have jk': "js \<noteq> [] \<Longrightarrow> kle key (hd js)"
  proof -
    assume "js \<noteq> []"
    then have "fless key (hd js)" "comparable ty (hd js)" using kj i(3) comp(2)[of ty m "hd js"] by auto
    then show "kle key (hd js)" using field_order.asym[OF ce] by blast
  qed
  have c: "btree ty m t h c" using i(4) cs(1) by simp
  have pg: "pages (Suc h) nd = curr_page_id nd # concat (map (pages h) as) @ pages h c @ concat (map (pages h) bs)"
    by (simp add: inode_simps(4)[OF i'])
  have st: "stored s (concat (map (nodes h) (as @ c # bs)))"
    using Suc.prems(5) unfolding inode_simps(1)[OF i'] by (simp add: stored_def)
  have step: "insertNonFull k jk (int t) nd key val s =
      rbind (if int (node_size c) = 2 * int t - 1 then
            rbind (splitChild jk (int t) nd (length as) s) (\<lambda>(nd, s).
            rbind (vec_at (keys nd) (length as)) (\<lambda>sep. rbind (field_gt False key sep) (\<lambda>b.
            Inr (if b then Suc (length as) else length as, nd, s))))
          else Inr (length as, nd, s)) (\<lambda>(i, nd, s).
        rbind (child_at nd i) (\<lambda>child.
        rbind (insertNonFull k' jk (int t) child key val s) (\<lambda>(child, s).
        let nd = set_child nd i child in rbind (write_node nd s) (\<lambda>s. Inr (nd, s)))))"
    using i' kj(1,2) cs(2) ensure_present[OF i', of k' s] inode_child[OF i'] by (simp add: k(1) inode_def)
  show ?case
  proof (cases "Suc (node_size c) < 2 * t")
    case True
    have "\<exists>c' v u n'. insertNonFull k' jk (int t) c key val s = Inr (c', v) \<and> write_node (set_child nd (length as) c') v = Inr u \<and>
        grown ty m t (Suc h) h e nd s n (set_child nd (length as) c') u n'"
      unfolding key_def
      by (rule insert_into[OF IH[unfolded key_def] i' cs(2) i(6) _ _ _ _ _ True f])
        (use Suc.prems i kj(1,3) cs lk st jk' in \<open>auto simp: key_def\<close>)
    then obtain c' v u n' where r: "insertNonFull k' jk (int t) c key val s = Inr (c', v)" "write_node (set_child nd (length as) c') v = Inr u"
      "grown ty m t (Suc h) h e nd s n (set_child nd (length as) c') u n'" by blast
    have "int (node_size c) \<noteq> 2 * int t - 1" using True by linarith
    then have "insertNonFull k jk (int t) nd key val s = Inr (set_child nd (length as) c', u)"
      using step r(1,2) inode_child[OF i'] by simp
    moreover have "grown ty m t (Suc h) (Suc h) e nd s n (set_child nd (length as) c') u n'" using r(3) by (auto simp: grown_def)
    ultimately show ?thesis by blast
  next
    case False
    then have full: "Suc (node_size c) = 2 * t" using btree_size[OF c] by linarith
    have "placed n (pages h c)" "stored s (nodes h c)" using Suc.prems(4) pg st by (auto simp: placed_def)
    then obtain sep a b nd1 u1 where sp: "splitChild jk (int t) nd (length as) s = Inr (nd1, u1)" and hv: "halves ty m t h (int (Suc n)) c sep a b"
      and i1: "inode nd1 (ks @ sep # js) (as @ a # b # bs)" "curr_page_id nd1 = curr_page_id nd" "next_page_id nd1 = next_page_id nd"
      and u1: "pool_ok u1 (Suc n)" "stored u1 (nodes h a @ nodes h b)" "distinct (pages h a @ pages h b)"
        "set (pages h a @ pages h b) = insert (int (Suc n)) (set (pages h c))" "framed s n (pages h c) u1"
      using splitChild_ok[OF Suc.prems(3) _ f jk i' cs(2) c full] Suc.prems(6) by auto
    note par = split_parent[OF i' i1(1,2) hv Suc.prems(4) u1(3,4) st u1(2,5)]
    have h1: "btree ty m t h a" "btree ty m t h b" "Suc (node_size a) < 2 * t" "Suc (node_size b) < 2 * t" "key_ok ty m sep"
      "contents h c = contents h a @ contents h b" "link sep (contents h a) (contents h b)" using hv by (auto simp: halves_def)
    have keys: "\<forall>k \<in> set (ks @ sep # js). key_ok ty m k" "length (ks @ sep # js) < 2 * t" "ks @ sep # js \<noteq> []"
      using i(3) h1(5) lk kj(1) by auto
    have kids: "\<forall>c \<in> set (as @ a # b # bs). btree ty m t h c" using i(4) h1 cs(1) by auto
    have ad: "adj (ks @ sep # js) (map (contents h) (as @ a # b # bs))"
      using adj_split[of ks js "map (contents h) as" "contents h c" "map (contents h) bs" sep "contents h a" "contents h b" ty m]
        i(5) kj(1) cs h1 btree_contents[OF h1(1)] btree_contents[OF c] i(3) by simp
    have sc: "comparable ty sep" by (rule comp(2)[OF h1(5)])
    have gt: "field_gt False key sep = Inr (fless sep key)" by (rule field_cmp_not_same(2)[OF ce sc])
    have sepi: "vec_at (keys nd1) (length as) = Inr sep" using i1(1) cs(2) by (simp add: inode_def vec_at_def nth_append)
    have n1: "Suc n + h < 60000" using Suc.prems(6) by simp
    have nx: "in_i32 (next_page_id nd1)" using i1(3) i(6) by simp
    have "int (node_size c) = 2 * int t - 1" using full by linarith
    note step' = step[unfolded this sp]
    note fin = grown_after_split[OF par(1,2,3,6) i1(2)]
    show ?thesis
    proof (cases "fless sep key")
      case True
      have i2: "inode nd1 ((ks @ [sep]) @ js) ((as @ [a]) @ b # bs)" using i1(1) by simp
      have "kle sep key" using True field_order.asym[OF sc ce] by blast
      then have "\<exists>c' v u n'. insertNonFull k' jk (int t) b key val u1 = Inr (c', v) \<and> write_node (set_child nd1 (length (as @ [a])) c') v = Inr u \<and>
          grown ty m t (Suc h) h e nd1 u1 (Suc n) (set_child nd1 (length (as @ [a])) c') u n'"
        unfolding key_def
        by (intro insert_into[OF IH[unfolded key_def] i2 _ nx _ _ _ _ _ h1(4) f u1(1) par(4) _ n1])
          (use cs(2) keys kids ad par(5) jk' in \<open>simp_all add: key_def\<close>)
      then obtain c' v u n' where r: "insertNonFull k' jk (int t) b key val u1 = Inr (c', v)" "write_node (set_child nd1 (Suc (length as)) c') v = Inr u"
        "grown ty m t (Suc h) h e nd1 u1 (Suc n) (set_child nd1 (Suc (length as)) c') u n'" by auto
      have "child_at nd1 (Suc (length as)) = Inr b" using inode_child[OF i2] by simp
      then have "insertNonFull k jk (int t) nd key val s = Inr (set_child nd1 (Suc (length as)) c', u)"
        using step' r(1,2) sepi gt True by simp
      then show ?thesis using fin[OF r(3)] by blast
    next
      case False
      have "\<exists>c' v u n'. insertNonFull k' jk (int t) a key val u1 = Inr (c', v) \<and> write_node (set_child nd1 (length as) c') v = Inr u \<and>
          grown ty m t (Suc h) h e nd1 u1 (Suc n) (set_child nd1 (length as) c') u n'"
        unfolding key_def
        by (intro insert_into[OF IH[unfolded key_def] i1(1) cs(2) nx _ _ _ _ _ h1(3) f u1(1) par(4) _ n1])
          (use keys kids ad par(5) kj(3) False in \<open>simp_all add: key_def\<close>)
      then obtain c' v u n' where r: "insertNonFull k' jk (int t) a key val u1 = Inr (c', v)" "write_node (set_child nd1 (length as) c') v = Inr u"
        "grown ty m t (Suc h) h e nd1 u1 (Suc n) (set_child nd1 (length as) c') u n'" by blast
      have "insertNonFull k jk (int t) nd key val s = Inr (set_child nd1 (length as) c', u)"
        using step' r(1,2) sepi gt False inode_child[OF i1(1)] by simp
      then show ?thesis using fin[OF r(3)] by blast
    qed
  qed
qed

end
