(* ===== verification/Bplus_Props.thy ===== *)
theory Bplus_Props imports Bplus_Laws
begin

text \<open>
  The B+ tree as a sorted list of entries: what insertion does to it, and that the scans along the leaves
  return the entries in the order of the keys.
\<close>

section \<open>The abstract value of a tree\<close>

text \<open>
  A tree of height \<open>h\<close> with the entries \<open>xs\<close> in the order of its leaves. All nodes are on their pages, and
  the link of the last leaf, which the constructor of the first leaf never initialised, satisfies \<open>Q\<close>.
\<close>

definition tree_with :: "(int \<Rightarrow> bool) \<Rightarrow> FieldType \<Rightarrow> nat \<Rightarrow> nat \<Rightarrow> bplus_tree \<Rightarrow> bpm \<Rightarrow> nat \<Rightarrow> nat \<Rightarrow> bentry list \<Rightarrow> bool" where
  "tree_with Q ty m t tr s n h xs \<longleftrightarrow> degree tr = int t \<and> fits m t \<and> pool_ok s n \<and>
     (case root tr of None \<Rightarrow> xs = [] \<and> h = 0
      | Some r \<Rightarrow> btree ty m t h r \<and> contents h r = xs \<and> placed n (pages h r) \<and> stored s (nodes h r) \<and>
          (\<exists>p q. Q q \<and> chain p (leaves h r) q))"

lemma tree_with_ordered: "tree_with Q ty m t tr s n h xs \<Longrightarrow> ordered xs \<and> oks ty m xs"
  using btree_contents by (fastforce simp: tree_with_def ordered_def split: option.splits)

text \<open>A tree of height \<open>h\<close> has at least \<open>2 ^ h\<close> entries.\<close>

lemma btree_height: "btree ty m t h nd \<Longrightarrow> 2 ^ h \<le> length (contents h nd)"
proof (induction h arbitrary: nd)
  case 0
  then show ?case by (cases "entries nd") auto
next
  case (Suc h)
  then obtain ks cs where i: "inode nd ks cs" "ks \<noteq> []" "\<forall>c \<in> set cs. btree ty m t h c" "adj ks (map (contents h) cs)" by auto
  have "2 \<le> length cs" using adj_length[OF i(4)] i(2) by (cases ks) auto
  then obtain a b bs where cs: "cs = a # b # bs" by (metis Suc_le_length_iff numeral_2_eq_2)
  have "2 ^ h \<le> length (contents h a)" "2 ^ h \<le> length (contents h b)" using Suc.IH i(3) cs by auto
  then show ?case by (simp add: inode_simps(3)[OF i(1)] cs)
qed

lemma tree_with_height: "tree_with Q ty m t tr s n h xs \<Longrightarrow> h = 0 \<or> 2 ^ h \<le> length xs"
  using btree_height by (auto simp: tree_with_def split: option.splits)

section \<open>Insertion\<close>

lemma same_views_stored:
  "same_views n s u \<Longrightarrow> placed n (map curr_page_id ns) \<Longrightarrow> stored s ns \<Longrightarrow> stored u ns"
proof -
  assume a: "same_views n s u" "placed n (map curr_page_id ns)" "stored s ns"
  have "framed s n [] u" using a(1) by (simp add: framed_def same_views_def)
  then show "stored u ns" using stored_framed[OF a(3)] a(2) by (simp add: placed_def)
qed

lemma placed_mono: "placed n ps \<Longrightarrow> n \<le> k \<Longrightarrow> placed k ps"
  by (force simp: placed_def)

lemma grown_rep:
  assumes "grown ty m t h d e nd s n nd' u n'" "contents h nd = xs" "chain p (leaves h nd) q" "Q q" "fits m t" "degree tr = int t"
  shows "\<exists>us vs. xs = us @ vs \<and> tree_with Q ty m t (tr\<lparr>root := Some nd'\<rparr>) u n' h (us @ e # vs)"
  using assms unfolding grown_def tree_with_def by fastforce

lemma grow_root:
  assumes s: "pool_ok s n" "n + 2 < 60000" and f: "fits m t" and jk: "\<forall>p. in_i32 (jk p)"
    and r: "btree ty m t h r" "Suc (node_size r) = 2 * t" "placed n (pages h r)" "stored s (nodes h r)" and c: "chain p (leaves h r) q"
  shows "\<exists>s1 nd u. newPage s = Inr (int (Suc n), s1) \<and>
    splitChild jk (int t) (Node False [] [] [Some r] [curr_page_id r] (int (Suc n)) (jk (int (Suc n)))) 0 s1 = Inr (nd, u) \<and>
    btree ty m t (Suc h) nd \<and> Suc (node_size nd) < 2 * t \<and> contents (Suc h) nd = contents h r \<and> pool_ok u (Suc (Suc n)) \<and>
    placed (Suc (Suc n)) (pages (Suc h) nd) \<and> stored u (tl (nodes (Suc h) nd)) \<and> chain p (leaves (Suc h) nd) q"
proof -
  obtain s1 where s1: "newPage s = Inr (int (Suc n), s1)" "pool_ok s1 (Suc n)" "same_views n s s1" using pool_new[OF s(1)] s(2) by auto
  let ?r = "Node False [] [] [Some r] [curr_page_id r] (int (Suc n)) (jk (int (Suc n)))"
  have i: "inode ?r ([] @ []) ([] @ r # [])" by (simp add: inode_def)
  have st: "stored s1 (nodes h r)" using same_views_stored[OF s1(3) _ r(4)] r(3) by (simp add: pages_def)
  obtain sep a b nd u where sp: "splitChild jk (int t) ?r 0 s1 = Inr (nd, u)" and hv: "halves ty m t h (int (Suc (Suc n))) r sep a b"
    and nd: "inode nd [sep] [a, b]" "curr_page_id nd = int (Suc n)" "next_page_id nd = jk (int (Suc n))"
    and u: "pool_ok u (Suc (Suc n))" "stored u (nodes h a @ nodes h b)" "distinct (pages h a @ pages h b)"
      "set (pages h a @ pages h b) = insert (int (Suc (Suc n))) (set (pages h r))"
    using splitChild_ok[OF s1(2) _ f jk i _ r(1,2) placed_mono[OF r(3)] st] s(2) by auto
  have t: "2 \<le> t" using f by (simp add: fits_def)
  have bt: "btree ty m t (Suc h) nd"
    using btree_inner[OF nd(1)] nd(3) jk t hv by (auto simp: halves_def)
  have rp: "\<And>p. p \<in> set (pages h r) \<Longrightarrow> 1 \<le> p \<and> p \<le> int n" using r(3) by (simp add: placed_def)
  then have "int (Suc n) \<notin> set (pages h a @ pages h b)" unfolding u(4) by force
  moreover have pg: "pages (Suc h) nd = int (Suc n) # pages h a @ pages h b" using nd(2) by (simp add: inode_simps(4)[OF nd(1)])
  moreover have "\<forall>p \<in> set (pages (Suc h) nd). 1 \<le> p \<and> p \<le> int (Suc (Suc n))"
    using rp u(4) unfolding pg by fastforce
  ultimately have pl: "placed (Suc (Suc n)) (pages (Suc h) nd)" using u(3) unfolding placed_def by simp
  moreover have "contents (Suc h) nd = contents h r" using hv by (simp add: inode_simps(3)[OF nd(1)] halves_def)
  moreover have "chain p (leaves (Suc h) nd) q" using hv c unfolding inode_simps(2)[OF nd(1)] by (simp add: halves_def)
  moreover have "stored u (tl (nodes (Suc h) nd))" using u(2) unfolding inode_simps(1)[OF nd(1)] by simp
  moreover have "Suc (node_size nd) < 2 * t" using t by (simp add: inode_simps(5)[OF nd(1)])
  ultimately show ?thesis using s1(1) sp bt u(1) by blast
qed

lemma bp_insert_first:
  assumes tr: "degree tr = int t" "root tr = None" "fits m t" "pool_ok s n" and n: "Suc n < 60000" and e: "bentry_ok ty m e"
    and jk: "in_i32 (jk (int (Suc n)))"
  shows "\<exists>u. bp_insert k jk tr (bkey e) (bval e) s =
      Inr (tr\<lparr>root := Some (Node True [e] [bkey e] [] [] (int (Suc n)) (jk (int (Suc n))))\<rparr>, u) \<and> pool_ok u (Suc n) \<and>
    stored u [Node True [e] [bkey e] [] [] (int (Suc n)) (jk (int (Suc n)))] \<and>
    btree ty m t 0 (Node True [e] [bkey e] [] [] (int (Suc n)) (jk (int (Suc n))))"
proof -
  have t: "2 \<le> t" using tr(3) by (simp add: fits_def)
  have e': "\<lparr>bkey = bkey e, bval = bval e\<rparr> = e" by simp
  obtain s1 where s1: "newPage s = Inr (int (Suc n), s1)" "pool_ok s1 (Suc n)" using pool_new[OF tr(4)] n by auto
  let ?nd = "Node True [e] [bkey e] [] [] (int (Suc n)) (jk (int (Suc n)))"
  have bt: "btree ty m t 0 ?nd" using e jk t by (simp add: ordered_def)
  have ok: "node_ok ty m ?nd" using btree_node_ok[OF bt tr(3), of "Suc n"] n by simp
  then obtain u where u: "write_node ?nd s1 = Inr u" "pool_ok u (Suc n)" "on_page (view u (Suc n)) ?nd"
    using write_node_ok[OF s1(2) _ _ _ ok] by (auto simp del: of_nat_Suc)
  have "bp_insert k jk tr (bkey e) (bval e) s = Inr (tr\<lparr>root := Some ?nd\<rparr>, u)"
    using tr(2) s1(1) u(1) by (simp add: bp_insert_def Let_def e')
  moreover have "stored u [?nd]" using u(3) unfolding stored_def by (simp del: of_nat_Suc)
  ultimately show ?thesis using bt u(2) by blast
qed

lemma bp_insert_ok:
  assumes rep: "tree_with Q ty m t tr s n h xs" and e: "bentry_ok ty m e" and jk: "\<forall>p. in_i32 (jk p) \<and> Q (jk p)"
    and n: "n + h + 4 < 60000" and k: "Suc h < k"
  shows "\<exists>tr' u n' h' us vs. bp_insert k jk tr (bkey e) (bval e) s = Inr (tr', u) \<and> xs = us @ vs \<and>
    n' \<le> n + h + 3 \<and> h' \<le> Suc h \<and> tree_with Q ty m t tr' u n' h' (us @ e # vs)"
proof -
  have d: "degree tr = int t" and f: "fits m t" and s: "pool_ok s n" using rep by (auto simp: tree_with_def)
  have t: "2 \<le> t" using f by (simp add: fits_def)
  have jk': "\<forall>p. in_i32 (jk p)" using jk by blast
  show ?thesis
  proof (cases "root tr")
    case None
    then have x: "xs = []" "h = 0" using rep by (auto simp: tree_with_def)
    let ?nd = "Node True [e] [bkey e] [] [] (int (Suc n)) (jk (int (Suc n)))"
    obtain u where u: "bp_insert k jk tr (bkey e) (bval e) s = Inr (tr\<lparr>root := Some ?nd\<rparr>, u)" "pool_ok u (Suc n)"
      "stored u [?nd]" "btree ty m t 0 ?nd" using bp_insert_first[OF d None f s _ e, of jk k] n jk by auto
    moreover have "tree_with Q ty m t (tr\<lparr>root := Some ?nd\<rparr>) u (Suc n) 0 ([] @ e # [])"
      using u(2-4) d f jk by (auto simp: tree_with_def placed_def)
    ultimately show ?thesis using x
      by (intro exI[of _ "tr\<lparr>root := Some ?nd\<rparr>"] exI[of _ u] exI[of _ "Suc n"] exI[of _ 0] exI[of _ "[]"]) (simp del: of_nat_Suc)
  next
    case (Some r)
    then have r: "btree ty m t h r" "contents h r = xs" "placed n (pages h r)" "stored s (nodes h r)" using rep by (auto simp: tree_with_def)
    obtain p q where c: "Q q" "chain p (leaves h r) q" using rep Some by (auto simp: tree_with_def)
    show ?thesis
    proof (cases "Suc (node_size r) < 2 * t")
      case True
      have "h < k" "n + h < 60000" using k n by auto
      from insertNonFull_ok[OF r(1) True s r(3) stored_tl[OF r(4)] this(2,1) f jk' e] obtain nd' u n'
        where g: "insertNonFull k jk (int t) r (bkey e) (bval e) s = Inr (nd', u)" "grown ty m t h h e r s n nd' u n'" by blast
      obtain us vs where x: "xs = us @ vs" "tree_with Q ty m t (tr\<lparr>root := Some nd'\<rparr>) u n' h (us @ e # vs)"
        using grown_rep[where Q = Q, OF g(2) r(2) c(2,1) f d] by blast
      have "int (node_size r) \<noteq> 2 * int t - 1" using True by linarith
      then have "bp_insert k jk tr (bkey e) (bval e) s = Inr (tr\<lparr>root := Some nd'\<rparr>, u)" using Some d g(1) by (simp add: bp_insert_def)
      moreover have "n' \<le> n + h" using g(2) by (simp add: grown_def)
      ultimately show ?thesis using x
        by (intro exI[of _ "tr\<lparr>root := Some nd'\<rparr>"] exI[of _ u] exI[of _ n'] exI[of _ h] exI[of _ us] exI[of _ vs]) simp
    next
      case False
      then have full: "Suc (node_size r) = 2 * t" using btree_size[OF r(1)] by linarith
      have n': "n + 2 < 60000" using n by simp
      obtain s1 nd u where nd: "newPage s = Inr (int (Suc n), s1)"
        "splitChild jk (int t) (Node False [] [] [Some r] [curr_page_id r] (int (Suc n)) (jk (int (Suc n)))) 0 s1 = Inr (nd, u)"
        "btree ty m t (Suc h) nd" "Suc (node_size nd) < 2 * t" "contents (Suc h) nd = contents h r" "pool_ok u (Suc (Suc n))"
        "placed (Suc (Suc n)) (pages (Suc h) nd)" "stored u (tl (nodes (Suc h) nd))" "chain p (leaves (Suc h) nd) q"
        using grow_root[OF s n' f jk' r(1) full r(3,4) c(2)] by blast
      have "Suc (Suc n) + Suc h < 60000" using n by simp
      from insertNonFull_ok[OF nd(3,4,6,7,8) this k f jk' e] obtain nd' v n'
        where g: "insertNonFull k jk (int t) nd (bkey e) (bval e) u = Inr (nd', v)" "grown ty m t (Suc h) (Suc h) e nd u (Suc (Suc n)) nd' v n'" by blast
      obtain us vs where x: "xs = us @ vs" "tree_with Q ty m t (tr\<lparr>root := Some nd'\<rparr>) v n' (Suc h) (us @ e # vs)"
        using grown_rep[where Q = Q, OF g(2) _ nd(9) c(1) f d] nd(5) r(2) by auto
      have "int (node_size r) = 2 * int t - 1" using full by linarith
      then have "bp_insert k jk tr (bkey e) (bval e) s = Inr (tr\<lparr>root := Some nd'\<rparr>, v)" using Some d nd(1,2) g(1) by (simp add: bp_insert_def)
      moreover have "n' \<le> n + h + 3" using g(2) by (simp add: grown_def)
      ultimately show ?thesis using x
        by (intro exI[of _ "tr\<lparr>root := Some nd'\<rparr>"] exI[of _ v] exI[of _ n'] exI[of _ "Suc h"] exI[of _ us] exI[of _ vs]) simp
    qed
  qed
qed

section \<open>Scans\<close>

lemma skip_keys_split:
  assumes "\<forall>x \<in> set ks. pass x = Inr (q x)"
  shows "\<exists>us vs. ks = us @ vs \<and> skip_keys pass ks = Inr (length us) \<and> (\<forall>x \<in> set us. q x)"
  using assms
proof (induction ks)
  case (Cons k ks)
  then obtain us vs where "ks = us @ vs" "skip_keys pass ks = Inr (length us)" "\<forall>x \<in> set us. q x" by auto
  then have "q k \<Longrightarrow> skip_keys pass (k # ks) = Inr (length (k # us)) \<and> k # ks = (k # us) @ vs \<and> (\<forall>x \<in> set (k # us). q x)"
    using Cons.prems by simp
  moreover have "\<not> q k \<Longrightarrow> skip_keys pass (k # ks) = Inr (length []) \<and> k # ks = [] @ (k # ks) \<and> (\<forall>x \<in> set []. q x)"
    using Cons.prems by simp
  ultimately show ?case by blast
qed simp

text \<open>The way down leaves behind only entries with \<open>R\<close>, when \<open>R\<close> follows from an entry behind that equals a skipped key.\<close>

lemma adj_before:
  assumes "adj ks (map (contents h) (as @ [c]))" "\<forall>k \<in> set ks. q k" "sorted_wrt P (concat (map (contents h) (as @ [c])))"
    and R: "\<And>x y k. q k \<Longrightarrow> fequal (bkey y) k \<Longrightarrow> P x y \<Longrightarrow> R x"
  shows "\<forall>x \<in> set (concat (map (contents h) as)). R x"
  using assms(1-3)
proof (induction as arbitrary: ks)
  case (Cons a as)
  obtain k js where ks: "ks = k # js" using adj_length[OF Cons.prems(1)] by (cases ks) auto
  obtain b bs where b: "as @ [c] = b # bs" by (cases as) auto
  have a: "link k (contents h a) (contents h b)" "adj js (map (contents h) (as @ [c]))" using Cons.prems(1) ks b by auto
  obtain y where y: "y \<in> set (contents h b)" "fequal (bkey y) k" using a(1) by (auto simp: link_def)
  have "y \<in> set (concat (map (contents h) (as @ [c])))" using y(1) b by auto
  then have "\<forall>x \<in> set (contents h a). P x y" using Cons.prems(3) by (simp add: sorted_wrt_append)
  then have "\<forall>x \<in> set (contents h a). R x" using R y(2) Cons.prems(2) ks by auto
  moreover have "\<forall>x \<in> set (concat (map (contents h) as)). R x"
    using Cons.IH[OF a(2)] Cons.prems(2,3) ks by (auto simp: sorted_wrt_append)
  ultimately show ?case by auto
qed simp

lemma child_same: "inode nd ks (as @ c # bs) \<Longrightarrow> set_child nd (length as) c = nd"
  by (cases nd) (simp add: inode_def set_child_def setters list_update_append)

lemma descend_ok:
  assumes pass: "\<And>x. key_ok ty m x \<Longrightarrow> pass x = Inr (q x)"
    and R: "\<And>x y k. q k \<Longrightarrow> fequal (bkey y) k \<Longrightarrow> P x y \<Longrightarrow> R x"
    and "btree ty m t h nd" "sorted_wrt P (contents h nd)" "h < k"
  shows "\<exists>l as bs. descend k pass nd s = Inr (l, nd, s) \<and> leaves h nd = as @ l # bs \<and> (\<forall>x \<in> set (concat (map entries as)). R x)"
  using assms(3-)
proof (induction h arbitrary: nd k)
  case 0
  then obtain k' where "k = Suc k'" by (cases k) auto
  then show ?case using 0 by fastforce
next
  case (Suc h)
  obtain k' where k: "k = Suc k'" "h < k'" using Suc.prems(3) by (cases k) auto
  obtain ks cs where i: "inode nd ks cs" "\<forall>k \<in> set ks. key_ok ty m k" "\<forall>c \<in> set cs. btree ty m t h c" "adj ks (map (contents h) cs)"
    using Suc.prems(1) by auto
  have "\<forall>x \<in> set ks. pass x = Inr (q x)" using pass i(2) by blast
  then obtain us vs where uv: "ks = us @ vs" "skip_keys pass ks = Inr (length us)" "\<forall>x \<in> set us. q x" using skip_keys_split by blast
  have "length cs = Suc (length us + length vs)" using adj_length[OF i(4)] uv(1) by simp
  then obtain as c bs where cs: "cs = as @ c # bs" "length us = length as"
    using id_take_nth_drop[of "length us" cs] by (metis le_add1 le_imp_less_Suc length_take min.absorb2 less_imp_le)
  note i' = i(1)[unfolded cs(1)]
  have srt: "sorted_wrt P (concat (map (contents h) as) @ contents h c @ concat (map (contents h) bs))"
    using Suc.prems(2) unfolding inode_simps(3)[OF i'] by simp
  have "adj us (map (contents h) (as @ [c]))" using i(4) adj_append[of us "map (contents h) as" vs "contents h c" "map (contents h) bs"] cs uv(1) by simp
  then have before: "\<forall>x \<in> set (concat (map (contents h) as)). R x"
    by (rule adj_before[OF _ uv(3) _ R]) (use srt in \<open>auto simp: sorted_wrt_append\<close>)
  have "btree ty m t h c" "sorted_wrt P (contents h c)" using i(3) cs srt by (simp_all add: sorted_wrt_append)
  then obtain l ls rs where l: "descend k' pass c s = Inr (l, c, s)" "leaves h c = ls @ l # rs" "\<forall>x \<in> set (concat (map entries ls)). R x"
    using Suc.IH[OF _ _ k(2)] by blast
  have "descend k pass nd s = Inr (l, nd, s)"
    using i' uv(2) cs(2) l(1) ensure_present[OF i', of k' s] inode_child[OF i'] child_same[OF i'] by (simp add: k(1) inode_def)
  moreover have "leaves (Suc h) nd = (concat (map (leaves h) as) @ ls) @ l # (rs @ concat (map (leaves h) bs))"
    unfolding inode_simps(2)[OF i'] using l(2) by simp
  moreover have "concat (map entries (concat (map (leaves h) as) @ ls)) = concat (map (contents h) as) @ concat (map entries ls)"
    by (simp add: contents_concat)
  ultimately show ?case using before l(3) by (metis Un_iff set_append)
qed

text \<open>
  The walk: a visit of one leaf selects the entries with \<open>S\<close>, and stops at a leaf that has one with \<open>G\<close>,
  behind which nothing is selected. The link of the last leaf is followed unless it is negative or the walk
  has stopped before.
\<close>

lemma leaf_walk_ok:
  assumes visit: "\<And>l. l \<in> set (x # ls) \<Longrightarrow> visit (entries l) = Inr (map bval (filter S (entries l)), \<forall>e \<in> set (entries l). \<not> G e)"
    and G: "sorted_wrt (\<lambda>a b. G a \<longrightarrow> \<not> S b) (concat (map entries (x # ls)))"
    and ok: "\<forall>l \<in> set ls. isLeaf l \<and> node_ok ty m l \<and> 1 \<le> curr_page_id l \<and> curr_page_id l \<le> int n"
    and "stored s ls" "pool_ok s n" "chain (next_page_id x) ls q" "q \<le> - 1 \<or> (\<exists>e \<in> set (concat (map entries (x # ls))). G e)" "length ls < k" "entries nd = entries x" "next_page_id nd = next_page_id x"
  shows "\<exists>u. leaf_walk k visit nd s = Inr (map bval (filter S (concat (map entries (x # ls)))), u) \<and> pool_ok u n \<and> same_views n s u"
  using assms
proof (induction ls arbitrary: x nd s k)
  case Nil
  then obtain k' where "k = Suc k'" by (cases k) auto
  then show ?case using Nil by (auto simp: same_views_def)
next
  case (Cons l ls)
  obtain k' where k: "k = Suc k'" "length ls < k'" "0 < k'" using Cons.prems(8) by (cases k) auto
  let ?sel = "\<lambda>es. map bval (filter S es)"
  have v: "visit (entries x) = Inr (?sel (entries x), \<forall>e \<in> set (entries x). \<not> G e)" using Cons.prems(1) by simp
  have srt: "sorted_wrt (\<lambda>a b. G a \<longrightarrow> \<not> S b) (entries x @ concat (map entries (l # ls)))" using Cons.prems(2) by simp
  show ?case
  proof (cases "\<forall>e \<in> set (entries x). \<not> G e")
    case False
    then have "\<forall>b \<in> set (concat (map entries (l # ls))). \<not> S b" using srt by (auto simp: sorted_wrt_append)
    then have "filter S (concat (map entries (l # ls))) = []" by (simp only: filter_empty_conv)
    then have "?sel (concat (map entries (x # l # ls))) = ?sel (entries x)" by simp
    then show ?thesis using v False Cons.prems(5,9) by (auto simp: k(1) same_views_def)
  next
    case True
    have l: "isLeaf l" "node_ok ty m l" "1 \<le> curr_page_id l" "curr_page_id l \<le> int n" "next_page_id x = curr_page_id l"
      using Cons.prems(3,6) by auto
    have on: "on_page (view s (nat (curr_page_id l))) l" using Cons.prems(4) by (simp add: stored_def)
    obtain k2 where k2: "k' = Suc k2" using k(3) by (cases k') auto
    obtain u where u: "loadNode k' (curr_page_id l) s = Inr (Some (bare l), u)" "pool_ok u n" "same_views n s u"
      using load_leaf[OF Cons.prems(5) _ _ _ l(2) on l(1), of k2] page_nat[OF l(3,4)] unfolding k2 by auto
    have b: "entries (bare l) = entries l" "next_page_id (bare l) = next_page_id l" using l(1) by (simp_all add: bare_def)
    have st: "stored u ls"
      unfolding stored_def
    proof
      fix y assume y: "y \<in> set ls"
      then have "nat (curr_page_id y) \<le> n" "1 \<le> nat (curr_page_id y)" using Cons.prems(3) by auto
      then have "view u (nat (curr_page_id y)) = view s (nat (curr_page_id y))" using u(3) by (simp add: same_views_def)
      then show "on_page (view u (nat (curr_page_id y))) y" using Cons.prems(4) y by (simp add: stored_def)
    qed
    have e: "q \<le> - 1 \<or> (\<exists>e \<in> set (concat (map entries (l # ls))). G e)" using Cons.prems(7) True by auto
    have "\<exists>w. leaf_walk k' visit (bare l) u = Inr (?sel (concat (map entries (l # ls))), w) \<and> pool_ok w n \<and> same_views n u w"
      by (rule Cons.IH[OF _ _ _ st u(2) _ e k(2) b]) (use Cons.prems(1,3,6) srt in \<open>auto simp: sorted_wrt_append\<close>)
    then obtain w where w: "leaf_walk k' visit (bare l) u = Inr (?sel (concat (map entries (l # ls))), w)" "pool_ok w n" "same_views n u w" by blast
    have "leaf_walk k visit nd s = Inr (?sel (entries x) @ ?sel (concat (map entries (l # ls))), w)"
      using v True u(1) w(1) l(3,5) Cons.prems(9,10) by (simp add: k(1))
    moreover have "same_views n s w" using u(3) w(3) by (auto simp: same_views_def)
    ultimately show ?thesis using w(2) by auto
  qed
qed

lemma leaf_equal_visit:
  assumes "comparable ty key" "oks ty m es" "ordered es"
  shows "leaf_equal key es = Inr (map bval (filter (\<lambda>e. fequal (bkey e) key) es), \<forall>e \<in> set es. kle (bkey e) key)"
  using assms(2,3)
proof (induction es)
  case (Cons e es)
  have ce: "comparable ty (bkey e)" using Cons.prems(1) comp(1)[of ty m e] by simp
  have ih: "leaf_equal key es = Inr (map bval (filter (\<lambda>e. fequal (bkey e) key) es), \<forall>e \<in> set es. kle (bkey e) key)"
    using Cons by (simp add: ordered_def)
  have eq: "field_eq (bkey e) key = Inr (fequal (bkey e) key)" by (rule field_cmp_not_same(5)[OF ce assms(1)])
  have gt: "field_gt False (bkey e) key = Inr (fless key (bkey e))" by (rule field_cmp_not_same(2)[OF ce assms(1)])
  have "\<not> fequal (bkey f) key" if f: "fless key (bkey e)" "f \<in> set es" for f
  proof -
    have "comparable ty (bkey f)" "kle (bkey e) (bkey f)" using Cons.prems f(2) comp(1)[of ty m f] by (auto simp: ordered_def)
    then have "fless key (bkey f)" using kle_trans[of ty "bkey e" "bkey f" key] ce assms(1) f(1) by blast
    then show ?thesis by (auto simp: fequal_def)
  qed
  then have "fless key (bkey e) \<Longrightarrow> filter (\<lambda>e. fequal (bkey e) key) es = []" by (simp add: filter_empty_conv)
  then show ?case using ih eq gt by (auto simp: fequal_def)
qed simp

definition within :: "field \<Rightarrow> field \<Rightarrow> bentry \<Rightarrow> bool" where
  "within lo hi e \<longleftrightarrow> kle lo (bkey e) \<and> kle (bkey e) hi"

lemma leaf_range_visit:
  assumes "comparable ty lo" "comparable ty hi" "oks ty m es" "ordered es"
  shows "leaf_range lo hi es = Inr (map bval (filter (within lo hi) es), \<forall>e \<in> set es. kle (bkey e) hi)"
  using assms(3,4)
proof (induction es)
  case (Cons e es)
  have ce: "comparable ty (bkey e)" using Cons.prems(1) comp(1)[of ty m e] by simp
  have ih: "leaf_range lo hi es = Inr (map bval (filter (within lo hi) es), \<forall>e \<in> set es. kle (bkey e) hi)"
    using Cons by (simp add: ordered_def)
  note cmp = field_cmp_not_same[OF ce assms(1)] field_cmp_not_same[OF ce assms(2)]
  have "\<not> within lo hi f" if f: "fless hi (bkey e)" "f \<in> set es" for f
  proof -
    have "comparable ty (bkey f)" "kle (bkey e) (bkey f)" using Cons.prems f(2) comp(1)[of ty m f] by (auto simp: ordered_def)
    then have "fless hi (bkey f)" using kle_trans[of ty "bkey e" "bkey f" hi] ce assms(2) f(1) by blast
    then show ?thesis by (simp add: within_def)
  qed
  then have "fless hi (bkey e) \<Longrightarrow> filter (within lo hi) es = []" by (simp add: filter_empty_conv)
  moreover have "within lo hi e \<longleftrightarrow> kle lo (bkey e) \<and> kle (bkey e) hi" by (simp add: within_def)
  ultimately show ?case using ih cmp by auto
qed simp

lemma btree_leaves:
  "btree ty m t h nd \<Longrightarrow> set (leaves h nd) \<subseteq> set (nodes h nd) \<and> (\<forall>l \<in> set (leaves h nd). btree ty m t 0 l) \<and>
     length (leaves h nd) \<le> length (nodes h nd)"
proof (induction h arbitrary: nd)
  case (Suc h)
  then obtain ks cs where i: "inode nd ks cs" "\<forall>c \<in> set cs. btree ty m t h c" by auto
  have c: "set (leaves h c) \<subseteq> set (nodes h c)" "\<forall>l \<in> set (leaves h c). btree ty m t 0 l" "length (leaves h c) \<le> length (nodes h c)"
    if "c \<in> set cs" for c using Suc.IH i(2) that by blast+
  have "sum_list (map (\<lambda>c. length (leaves h c)) cs) \<le> sum_list (map (\<lambda>c. length (nodes h c)) cs)"
    using c(3) by (rule sum_list_mono)
  then have "length (leaves (Suc h) nd) \<le> length (nodes (Suc h) nd)"
    unfolding inode_simps(1)[OF i(1)] inode_simps(2)[OF i(1)] by (simp add: length_concat comp_def)
  moreover have "set (leaves (Suc h) nd) \<subseteq> set (nodes (Suc h) nd)" "\<forall>l \<in> set (leaves (Suc h) nd). btree ty m t 0 l"
    unfolding inode_simps(1)[OF i(1)] inode_simps(2)[OF i(1)] using c(1,2) by (fastforce simp del: btree.simps)+
  ultimately show ?case by blast
qed simp

lemma rep_pages: "pool_ok s n \<Longrightarrow> n < 2 ^ 31"
proof -
  assume "pool_ok s n"
  then have "int n < dm_capacity (disk s)" "in_i32 (dm_capacity (disk s) * int PAGE_SIZE)"
    using bpm_invD(1)[of s n "{}"] by (auto simp: pool_ok_def dm_inv_def)
  then have "int n < 2147483648" by (simp add: in_i32_def PAGE_SIZE_def)
  then show ?thesis by simp
qed

text \<open>A scan that starts at the leaf the descent gives and walks to the right.\<close>

lemma leaf_scan_ok:
  assumes rep: "tree_with Q ty m t tr s n h xs" "root tr = Some r" and k: "n < k" "h < k"
    and pass: "\<And>x. key_ok ty m x \<Longrightarrow> pass x = Inr (q x)"
    and R: "\<And>x y z. q z \<Longrightarrow> fequal (bkey y) z \<Longrightarrow> P x y \<Longrightarrow> \<not> S x"
    and P: "sorted_wrt P xs" and G: "sorted_wrt (\<lambda>a b. G a \<longrightarrow> \<not> S b) xs"
    and up: "sorted_wrt (\<lambda>a b. G a \<longrightarrow> G b) xs" and stop: "(\<forall>q. Q q \<longrightarrow> q \<le> - 1) \<or> (\<exists>e \<in> set xs. G e)"
    and visit: "\<And>es. oks ty m es \<Longrightarrow> ordered es \<Longrightarrow> visit es = Inr (map bval (filter S es), \<forall>e \<in> set es. \<not> G e)"
  shows "\<exists>l u. descend k pass r s = Inr (l, r, s) \<and> leaf_walk k visit l s = Inr (map bval (filter S xs), u) \<and> tree_with Q ty m t tr u n h xs"
proof -
  have b: "btree ty m t h r" "contents h r = xs" "placed n (pages h r)" "stored s (nodes h r)" and s: "pool_ok s n" and f: "fits m t"
    using rep by (auto simp: tree_with_def)
  obtain p e where c: "Q e" "chain p (leaves h r) e" using rep by (auto simp: tree_with_def)
  obtain l as bs where l: "descend k pass r s = Inr (l, r, s)" "leaves h r = as @ l # bs" "\<forall>x \<in> set (concat (map entries as)). \<not> S x"
  proof -
    have "\<exists>l as bs. descend k pass r s = Inr (l, r, s) \<and> leaves h r = as @ l # bs \<and> (\<forall>x \<in> set (concat (map entries as)). \<not> S x)"
    proof (rule descend_ok[where P = P and q = q, OF _ _ b(1) _ k(2)])
      show "\<And>x. key_ok ty m x \<Longrightarrow> pass x = Inr (q x)" by (rule pass)
      show "\<And>x y z. q z \<Longrightarrow> fequal (bkey y) z \<Longrightarrow> P x y \<Longrightarrow> \<not> S x" by (rule R)
      show "sorted_wrt P (contents h r)" using P b(2) by simp
    qed
    then show ?thesis using that by blast
  qed
  have xs: "xs = concat (map entries as) @ concat (map entries (l # bs))" using b(2) l(2) by (simp add: contents_def)
  have lv: "set (leaves h r) \<subseteq> set (nodes h r)" "\<forall>l \<in> set (leaves h r). btree ty m t 0 l" "length (leaves h r) \<le> length (nodes h r)"
    using btree_leaves[OF b(1)] by blast+
  have "set (pages h r) \<subseteq> {1..int n}" "distinct (pages h r)" using b(3) by (auto simp: placed_def)
  then have "length (pages h r) \<le> n" by (metis card_atLeastAtMost_int card_mono diff_add_cancel distinct_card finite_atLeastAtMost_int nat_int)
  then have "length bs < k" using lv(3) l(2) k(1) by (simp add: pages_def)
  moreover have "isLeaf l \<and> node_ok ty m l \<and> 1 \<le> curr_page_id l \<and> curr_page_id l \<le> int n" if "l \<in> set bs" for l
  proof -
    have l0: "btree ty m t 0 l" "l \<in> set (nodes h r)" using lv(1,2) l(2) that by auto
    then have pg: "1 \<le> curr_page_id l" "curr_page_id l \<le> int n" using b(3) in_pages[OF l0(2)] by (auto simp: placed_def)
    have "n < 2 ^ 31" using rep_pages[OF s] .
    then have "node_ok ty m l" using btree_node_ok[OF l0(1) f, of n] pg by simp
    then show ?thesis using pg l0(1) by simp
  qed
  moreover have "stored s bs" using b(4) lv(1) l(2) by (auto simp: stored_def)
  moreover have "chain (next_page_id l) bs e" using c(2) l(2) by (auto simp: chain_append)
  moreover have "visit (entries y) = Inr (map bval (filter S (entries y)), \<forall>e \<in> set (entries y). \<not> G e)" if "y \<in> set (l # bs)" for y
    using that lv(2) l(2) by (intro visit) auto
  moreover have "sorted_wrt (\<lambda>a b. G a \<longrightarrow> \<not> S b) (concat (map entries (l # bs)))" using G unfolding xs sorted_wrt_append by blast
  moreover have "e \<le> - 1 \<or> (\<exists>e \<in> set (concat (map entries (l # bs))). G e)"
  proof (cases "\<exists>e \<in> set (concat (map entries as)). G e")
    case True
    have "btree ty m t 0 l" using lv(2) l(2) by auto
    then obtain y ys where y: "entries l = y # ys" by (cases "entries l") auto
    then have "G y" using True up unfolding xs sorted_wrt_append by fastforce
    then show ?thesis using y by auto
  next
    case False
    then show ?thesis using stop c(1) unfolding xs by auto
  qed
  ultimately obtain u where u: "leaf_walk k visit l s = Inr (map bval (filter S (concat (map entries (l # bs)))), u)" "pool_ok u n" "same_views n s u"
    using leaf_walk_ok[of l bs visit S G ty m n s e k l] s by blast
  have "filter S (concat (map entries as)) = []" using l(3) by (simp only: filter_empty_conv)
  then have "filter S xs = filter S (concat (map entries (l # bs)))" unfolding xs by simp
  moreover have "stored u (nodes h r)" using same_views_stored[OF u(3) _ b(4)] b(3) by (simp add: pages_def)
  then have "tree_with Q ty m t tr u n h xs" using rep u(2) by (auto simp: tree_with_def)
  ultimately show ?thesis using l(1) u(1) by metis
qed

lemma range_query_ok:
  assumes rep: "tree_with Q ty m t tr s n h xs" and c: "comparable ty lo" "comparable ty hi" and k: "n < k" "h < k"
    and stop: "(\<forall>q. Q q \<longrightarrow> q \<le> - 1) \<or> (\<exists>e \<in> set xs. fless hi (bkey e))"
  shows "\<exists>u. rangeQuery k tr lo hi s = Inr (map bval (filter (within lo hi) xs), tr, u) \<and> tree_with Q ty m t tr u n h xs"
proof (cases "root tr")
  case None
  then show ?thesis using rep by (auto simp: rangeQuery_def tree_with_def)
next
  case (Some r)
  have o: "ordered xs" "oks ty m xs" using tree_with_ordered[OF rep] by auto
  let ?D = "\<lambda>a b. comparable ty (bkey a) \<and> comparable ty (bkey b)"
  have le: "sorted_wrt (\<lambda>a b. kle (bkey a) (bkey b) \<and> ?D a b) xs"
    using o comp(1) unfolding ordered_def by (fastforce intro: sorted_wrt_mono_rel[rotated])
  have "\<exists>l u. descend k (\<lambda>x. field_gt False lo x) r s = Inr (l, r, s) \<and>
      leaf_walk k (leaf_range lo hi) l s = Inr (map bval (filter (within lo hi) xs), u) \<and> tree_with Q ty m t tr u n h xs"
  proof (rule leaf_scan_ok[OF rep Some k, where q = "\<lambda>x. fless x lo \<and> comparable ty x" and P = "\<lambda>a b. kle (bkey a) (bkey b) \<and> ?D a b" and
        G = "\<lambda>e. fless hi (bkey e)"])
    show "field_gt False lo x = Inr (fless x lo \<and> comparable ty x)" if "key_ok ty m x" for x
      using field_cmp_not_same(2)[OF c(1) comp(2)[OF that]] comp(2)[OF that] by simp
    show "\<not> within lo hi x" if q: "fless z lo \<and> comparable ty z" "fequal (bkey y) z" "kle (bkey x) (bkey y) \<and> ?D x y" for x y z
    proof -
      have "kle (bkey x) z" using kle_trans[of ty "bkey x" "bkey y" z] q by (auto simp: fequal_def)
      then have "fless (bkey x) lo" using kle_trans[of ty lo "bkey x" z] q c(1) by blast
      then show ?thesis by (simp add: within_def)
    qed
    show "sorted_wrt (\<lambda>a b. kle (bkey a) (bkey b) \<and> ?D a b) xs" by (rule le)
    show "sorted_wrt (\<lambda>a b. fless hi (bkey a) \<longrightarrow> \<not> within lo hi b) xs"
      by (rule sorted_wrt_mono_rel[OF _ le]) (use kle_trans c(2) in \<open>unfold within_def, blast\<close>)
    show "sorted_wrt (\<lambda>a b. fless hi (bkey a) \<longrightarrow> fless hi (bkey b)) xs"
      by (rule sorted_wrt_mono_rel[OF _ le]) (use kle_trans c(2) in blast)
    show "(\<forall>q. Q q \<longrightarrow> q \<le> - 1) \<or> (\<exists>e \<in> set xs. fless hi (bkey e))" by (rule stop)
    show "leaf_range lo hi es = Inr (map bval (filter (within lo hi) es), \<forall>e \<in> set es. kle (bkey e) hi)" if "oks ty m es" "ordered es" for es
      by (rule leaf_range_visit[OF c that])
  qed
  then obtain l u where "descend k (\<lambda>x. field_gt False lo x) r s = Inr (l, r, s)"
    "leaf_walk k (leaf_range lo hi) l s = Inr (map bval (filter (within lo hi) xs), u)" "tree_with Q ty m t tr u n h xs" by blast
  then show ?thesis using Some by (auto simp: rangeQuery_def)
qed

section \<open>The link of the last leaf\<close>

text \<open>
  A leaf whose link is its own page keeps a walk that meets no larger key going for ever. The link of the first
  leaf is not initialised, so this is one of the ways in which a range query of a tree with one entry ends.
\<close>

lemma leaf_walk_cycle:
  assumes l: "isLeaf l" "node_ok ty m l" "1 \<le> curr_page_id l" "curr_page_id l \<le> int n" "next_page_id l = curr_page_id l"
    and v: "visit (entries l) = Inr (rs, True)"
  shows "pool_ok s n \<Longrightarrow> stored s [l] \<Longrightarrow> entries nd = entries l \<Longrightarrow> next_page_id nd = next_page_id l \<Longrightarrow>
    leaf_walk k visit nd s = Inl Diverges"
proof (induction k arbitrary: nd s)
  case (Suc k)
  show ?case
  proof (cases k)
    case 0
    then show ?thesis using Suc.prems v l(3,5) by simp
  next
    case (Suc k2)
    have on: "on_page (view s (nat (curr_page_id l))) l" using Suc.prems(2) by (simp add: stored_def)
    obtain u where u: "loadNode k (curr_page_id l) s = Inr (Some (bare l), u)" "pool_ok u n" "same_views n s u"
      using load_leaf[OF Suc.prems(1) _ _ _ l(2) on l(1), of k2] page_nat[OF l(3,4)] unfolding Suc by auto
    have b: "entries (bare l) = entries l" "next_page_id (bare l) = next_page_id l" using l(1) by (simp_all add: bare_def)
    have "stored u [l]" using same_views_stored[OF u(3) _ Suc.prems(2)] l(3,4) by (simp add: placed_def)
    then have "leaf_walk k visit (bare l) u = Inl Diverges" using Suc.IH[OF u(2) _ b] by blast
    then show ?thesis using Suc.prems(3,4) v l(3,5) u(1) by simp
  qed
qed simp

lemma range_query_may_not_return:
  assumes tr: "degree tr = int t" "root tr = None" "fits m t" "pool_ok s n" "n + 4 < 60000"
    and e: "bentry_ok ty m e" "comparable ty lo" "comparable ty hi" "kle (bkey e) hi"
    and jk: "jk (int (Suc n)) = int (Suc n)"
  shows "\<exists>tr' u. bp_insert k jk tr (bkey e) (bval e) s = Inr (tr', u) \<and> (\<forall>k. rangeQuery k tr' lo hi u = Inl Diverges)"
proof -
  have n: "Suc n < 60000" "in_i32 (int (Suc n))" using tr(5) by (simp_all add: in_i32_def)
  obtain u where u: "bp_insert k jk tr (bkey e) (bval e) s =
      Inr (tr\<lparr>root := Some (Node True [e] [bkey e] [] [] (int (Suc n)) (jk (int (Suc n))))\<rparr>, u)" "pool_ok u (Suc n)"
      "stored u [Node True [e] [bkey e] [] [] (int (Suc n)) (jk (int (Suc n)))]"
      "btree ty m t 0 (Node True [e] [bkey e] [] [] (int (Suc n)) (jk (int (Suc n))))"
    using bp_insert_first[OF tr(1-4) n(1) e(1), of jk k] n(2) unfolding jk by blast
  let ?nd = "Node True [e] [bkey e] [] [] (int (Suc n)) (jk (int (Suc n)))"
  have ok: "node_ok ty m ?nd" using btree_node_ok[OF u(4) tr(3), of "Suc n"] n(1) by simp
  have v: "leaf_range lo hi (entries ?nd) = Inr (map bval (filter (within lo hi) [e]), True)"
    using leaf_range_visit[OF e(2,3), of "[e]" m] e(1,4) by (simp add: ordered_def)
  have "rangeQuery k (tr\<lparr>root := Some ?nd\<rparr>) lo hi u = Inl Diverges" for k
  proof (cases k)
    case (Suc k')
    have "leaf_walk k (leaf_range lo hi) ?nd u = Inl Diverges"
      by (rule leaf_walk_cycle[where l = ?nd and visit = "leaf_range lo hi" and ty = ty and m = m, OF _ ok _ _ _ v u(2,3)]) (use jk in simp_all)
    then show ?thesis unfolding Suc by (simp add: rangeQuery_def del: leaf_walk.simps)
  qed (simp add: rangeQuery_def)
  then show ?thesis using u(1) by blast
qed

definition key_distinct :: "bentry list \<Rightarrow> bool" where
  "key_distinct xs \<longleftrightarrow> sorted_wrt (\<lambda>a b. \<not> fequal (bkey a) (bkey b)) xs"

lemma find_value_ok:
  assumes rep: "tree_with Q ty m t tr s n h xs" and c: "comparable ty key" and k: "n < k" "h < k" and d: "key_distinct xs"
    and stop: "(\<forall>q. Q q \<longrightarrow> q \<le> - 1) \<or> (\<exists>e \<in> set xs. fless key (bkey e))"
  shows "\<exists>u. findValue k tr key s = Inr (map bval (filter (\<lambda>e. fequal (bkey e) key) xs), tr, u) \<and> tree_with Q ty m t tr u n h xs"
proof (cases "root tr")
  case None
  then show ?thesis using rep by (auto simp: findValue_def tree_with_def)
next
  case (Some r)
  have o: "ordered xs" "oks ty m xs" using tree_with_ordered[OF rep] by auto
  let ?D = "\<lambda>a b. comparable ty (bkey a) \<and> comparable ty (bkey b)"
  have le: "sorted_wrt (\<lambda>a b. fless (bkey a) (bkey b) \<and> ?D a b) xs"
  proof -
    have "sorted_wrt (\<lambda>a b. kle (bkey a) (bkey b) \<and> \<not> fequal (bkey a) (bkey b)) xs"
      using o(1) d unfolding ordered_def key_distinct_def by (induction xs) auto
    then show ?thesis by (rule sorted_wrt_mono_rel[rotated]) (use o(2) comp(1) in \<open>auto simp: fequal_def\<close>)
  qed
  have "\<exists>l u. descend k (\<lambda>x. field_ge False key x) r s = Inr (l, r, s) \<and>
      leaf_walk k (leaf_equal key) l s = Inr (map bval (filter (\<lambda>e. fequal (bkey e) key) xs), u) \<and> tree_with Q ty m t tr u n h xs"
  proof (rule leaf_scan_ok[OF rep Some k, where q = "\<lambda>x. kle x key \<and> comparable ty x" and P = "\<lambda>a b. fless (bkey a) (bkey b) \<and> ?D a b" and
        G = "\<lambda>e. fless key (bkey e)"])
    show "field_ge False key x = Inr (kle x key \<and> comparable ty x)" if "key_ok ty m x" for x
      using field_cmp_not_same(4)[OF c comp(2)[OF that]] comp(2)[OF that] by simp
    show "\<not> fequal (bkey x) key" if q: "kle z key \<and> comparable ty z" "fequal (bkey y) z" "fless (bkey x) (bkey y) \<and> ?D x y" for x y z
    proof
      assume "fequal (bkey x) key"
      then have "kle key (bkey x)" by (simp add: fequal_def)
      then have "kle z (bkey x)" using kle_trans[of ty z key "bkey x"] q c by blast
      then have "kle (bkey y) (bkey x)" using kle_trans[of ty "bkey y" z "bkey x"] q by (auto simp: fequal_def)
      then show False using q by blast
    qed
    show "sorted_wrt (\<lambda>a b. fless (bkey a) (bkey b) \<and> ?D a b) xs" by (rule le)
    show "sorted_wrt (\<lambda>a b. fless key (bkey a) \<longrightarrow> \<not> fequal (bkey b) key) xs"
      by (rule sorted_wrt_mono_rel[OF _ le]) (use kle_trans c field_order.asym in \<open>unfold fequal_def, metis\<close>)
    show "sorted_wrt (\<lambda>a b. fless key (bkey a) \<longrightarrow> fless key (bkey b)) xs"
      by (rule sorted_wrt_mono_rel[OF _ le]) (use kle_trans[of ty] c field_order.asym in blast)
    show "(\<forall>q. Q q \<longrightarrow> q \<le> - 1) \<or> (\<exists>e \<in> set xs. fless key (bkey e))" by (rule stop)
    show "leaf_equal key es = Inr (map bval (filter (\<lambda>e. fequal (bkey e) key) es), \<forall>e \<in> set es. kle (bkey e) key)" if "oks ty m es" "ordered es" for es
      by (rule leaf_equal_visit[OF c that])
  qed
  then obtain l u where "descend k (\<lambda>x. field_ge False key x) r s = Inr (l, r, s)"
    "leaf_walk k (leaf_equal key) l s = Inr (map bval (filter (\<lambda>e. fequal (bkey e) key) xs), u)" "tree_with Q ty m t tr u n h xs" by blast
  then show ?thesis using Some by (auto simp: findValue_def)
qed

lemma sorted_wrt_sym_mset:
  assumes sym: "\<And>a b. P a b \<Longrightarrow> P b a" and "sorted_wrt P xs" "mset xs = mset ys"
  shows "sorted_wrt P ys"
  using assms(2,3)
proof (induction xs arbitrary: ys)
  case (Cons x xs)
  then obtain us vs where ys: "ys = us @ x # vs" by (metis list.set_intros(1) set_mset_mset split_list)
  then have m: "mset xs = mset (us @ vs)" using Cons.prems(2) by simp
  then have s: "set xs = set (us @ vs)" by (metis set_mset_mset)
  have "sorted_wrt P (us @ vs)" using Cons.IH[OF _ m] Cons.prems(1) by simp
  moreover have "\<forall>y \<in> set (us @ vs). P x y" using Cons.prems(1) unfolding s[symmetric] by simp
  ultimately show ?case using sym unfolding ys by (auto simp: sorted_wrt_append)
qed simp

lemma key_distinct_mset: "key_distinct xs \<Longrightarrow> mset xs = mset ys \<Longrightarrow> key_distinct ys"
  unfolding key_distinct_def by (rule sorted_wrt_sym_mset[of "\<lambda>a b. \<not> fequal (bkey a) (bkey b)"]) (simp add: fequal_kle conj_commute, assumption+)

lemma mset_short: "mset ys = mset xs \<Longrightarrow> length xs \<le> 1 \<Longrightarrow> ys = xs"
  by (cases xs) auto

lemma key_distinct_filter:
  assumes "comparable ty key" "oks ty m xs" "mset ys = mset xs" "key_distinct xs"
  shows "filter (\<lambda>e. fequal (bkey e) key) ys = filter (\<lambda>e. fequal (bkey e) key) xs"
proof -
  have one: "length (filter (\<lambda>e. fequal (bkey e) key) xs) \<le> 1"
    using assms(2,4)
  proof (induction xs)
    case (Cons x xs)
    have "\<not> fequal (bkey y) key" if y: "fequal (bkey x) key" "y \<in> set xs" for y
    proof
      assume "fequal (bkey y) key"
      moreover have "comparable ty (bkey x)" "comparable ty (bkey y)" using Cons.prems(1) comp(1) y(2) by auto
      ultimately have "fequal (bkey x) (bkey y)"
        using kle_trans[of ty "bkey x" key "bkey y"] kle_trans[of ty "bkey y" key "bkey x"] y(1) assms(1) unfolding fequal_kle by blast
      then show False using Cons.prems(2) y(2) by (auto simp: key_distinct_def)
    qed
    then have "fequal (bkey x) key \<Longrightarrow> filter (\<lambda>e. fequal (bkey e) key) xs = []" by (simp add: filter_empty_conv)
    then show ?case using Cons by (auto simp: key_distinct_def)
  qed simp
  have "mset (filter (\<lambda>e. fequal (bkey e) key) ys) = mset (filter (\<lambda>e. fequal (bkey e) key) xs)" using assms(3) by (simp add: mset_filter)
  then show ?thesis using one by (rule mset_short)
qed

section \<open>Loading a tree from entries\<close>

text \<open>\<^verbatim>\<open>insert\<close> for each entry in turn, as createIndex does for the rows of a table.\<close>

definition bp_insert_all :: "nat \<Rightarrow> (int \<Rightarrow> int) \<Rightarrow> bentry list \<Rightarrow> bplus_tree \<times> bpm \<Rightarrow> (bplus_tree \<times> bpm) res" where
  "bp_insert_all k jk = rfold (\<lambda>e (tr, s). bp_insert k jk tr (bkey e) (bval e) s)"

lemma height_bound: "h = 0 \<or> 2 ^ h \<le> (x :: nat) \<Longrightarrow> x < 2 ^ 12 \<Longrightarrow> h \<le> 11"
  using power_less_imp_less_exp[of "2 :: nat" h 12] by linarith

lemma insert_all_ok:
  assumes "tree_with Q ty m t tr s n h xs" "oks ty m es" "\<forall>p. in_i32 (jk p) \<and> Q (jk p)"
    and "length xs + length es < 2 ^ 12" "n + 14 * length es + 15 < 60000" "14 < k"
  shows "\<exists>tr' u n' h' ys. bp_insert_all k jk es (tr, s) = Inr (tr', u) \<and> mset ys = mset xs + mset es \<and> n' \<le> n + 14 * length es \<and>
    tree_with Q ty m t tr' u n' h' ys"
  using assms
proof (induction es arbitrary: tr s n h xs)
  case Nil
  then show ?case by (fastforce simp: bp_insert_all_def)
next
  case (Cons e es)
  have h: "h \<le> 11" using height_bound[OF tree_with_height[OF Cons.prems(1)]] Cons.prems(4) by simp
  have e: "bentry_ok ty m e" "n + h + 4 < 60000" "Suc h < k" using Cons.prems(2,5,6) h by auto
  obtain tr1 u n1 h1 us vs where i: "bp_insert k jk tr (bkey e) (bval e) s = Inr (tr1, u)" "xs = us @ vs" "n1 \<le> n + h + 3"
    "tree_with Q ty m t tr1 u n1 h1 (us @ e # vs)"
    using bp_insert_ok[OF Cons.prems(1) e(1) Cons.prems(3) e(2,3)] by blast
  have "oks ty m es" "length (us @ e # vs) + length es < 2 ^ 12" "n1 + 14 * length es + 15 < 60000"
    using Cons.prems(2,4,5) i(2,3) h by simp_all
  from Cons.IH[OF i(4) this(1) Cons.prems(3) this(2,3) Cons.prems(6)]
  obtain tr' w n' h' ys where r: "bp_insert_all k jk es (tr1, u) = Inr (tr', w)" "mset ys = mset (us @ e # vs) + mset es"
    "n' \<le> n1 + 14 * length es" "tree_with Q ty m t tr' w n' h' ys"
    by blast
  have "bp_insert_all k jk (e # es) (tr, s) = Inr (tr', w)" using i(1) r(1) by (simp add: bp_insert_all_def)
  moreover have "mset ys = mset xs + mset (e # es)" using r(2) i(2) by simp
  moreover have "n' \<le> n + 14 * length (e # es)" using r(3) i(3) h by simp
  ultimately show ?case using r(4) by blast
qed

lemma insert_all_empty:
  assumes "degree tr = int t" "root tr = None" "fits m t" "pool_ok s n" "oks ty m es" "\<forall>p. in_i32 (jk p)"
    and "length es < 2 ^ 12" "n + 14 * length es + 15 < 60000" "n + 14 * length es + 14 < k"
  shows "\<exists>tr' u n' h ys. bp_insert_all k jk es (tr, s) = Inr (tr', u) \<and> mset ys = mset es \<and>
    tree_with (\<lambda>q. \<exists>p. q = jk p) ty m t tr' u n' h ys \<and> n' < k \<and> h < k"
proof -
  let ?Q = "\<lambda>q. \<exists>p. q = jk p"
  have "tree_with ?Q ty m t tr s n 0 []" using assms(1-4) by (simp add: tree_with_def)
  moreover have "\<forall>p. in_i32 (jk p) \<and> ?Q (jk p)" using assms(6) by blast
  moreover have "length ([] :: bentry list) + length es < 2 ^ 12" "14 < k" using assms(7,9) by simp_all
  ultimately obtain tr' u n' h ys where i: "bp_insert_all k jk es (tr, s) = Inr (tr', u)" "mset ys = mset [] + mset es" "n' \<le> n + 14 * length es"
    "tree_with ?Q ty m t tr' u n' h ys"
    using insert_all_ok[of ?Q ty m t tr s n 0 "[]" es jk k] assms(5,8) by blast
  have "size (mset ys) = size (mset es)" using i(2) by simp
  then have "length ys = length es" by simp
  then have "h \<le> 11" using height_bound[OF tree_with_height[OF i(4)]] assms(7) by simp
  then have "n' < k" "h < k" using i(3) assms(9) by auto
  moreover have "mset ys = mset es" using i(2) by simp
  ultimately show ?thesis using i(1,4) by blast
qed

section \<open>Saving and loading\<close>

text \<open>The tree that loading gives: every node as its page holds it, with the children loaded.\<close>

fun reload :: "nat \<Rightarrow> bnode \<Rightarrow> bnode" where
  "reload 0 nd = bare nd"
| "reload (Suc h) nd = set_children (bare nd) (map (\<lambda>c. Some (reload h (the c))) (children nd))"

definition page_data :: "bnode \<Rightarrow> int \<times> byte list" where
  "page_data nd = (curr_page_id nd, node_enc nd)"

lemma stored_page_data: "map page_data xs = map page_data ys \<Longrightarrow> stored s xs \<longleftrightarrow> stored s ys"
proof -
  assume "map page_data xs = map page_data ys"
  then have e: "page_data ` set xs = page_data ` set ys" by (metis list.set_map)
  have st: "stored s zs \<longleftrightarrow> Ball (page_data ` set zs) (\<lambda>(p, bs). peek (mem (view s (nat p))) 14 (length bs) = bs)" for zs
    by (simp add: stored_def on_page_def page_data_def)
  show ?thesis unfolding st e ..
qed

lemma reload_inode: "inode nd ks cs \<Longrightarrow> inode (reload (Suc h) nd) ks (map (reload h) cs)"
  and reload_sel: "curr_page_id (reload h nd) = curr_page_id nd" "next_page_id (reload h nd) = next_page_id nd"
proof -
  show sel: "curr_page_id (reload h nd) = curr_page_id nd" "next_page_id (reload h nd) = next_page_id nd" for h nd
    by (cases h; simp add: bare_def setters)+
  show "inode nd ks cs \<Longrightarrow> inode (reload (Suc h) nd) ks (map (reload h) cs)"
    using sel by (simp add: inode_def bare_def setters)
qed

lemma reload_btree:
  "btree ty m t h nd \<Longrightarrow> btree ty m t h (reload h nd) \<and> leaves h (reload h nd) = map bare (leaves h nd) \<and>
     contents h (reload h nd) = contents h nd \<and> map page_data (nodes h (reload h nd)) = map page_data (nodes h nd)"
proof (induction h arbitrary: nd)
  case 0
  then show ?case by (simp add: bare_def page_data_def node_enc_def node_size_def)
next
  case (Suc h)
  then obtain ks cs where i: "inode nd ks cs" "ks \<noteq> []" "length ks < 2 * t" "\<forall>k \<in> set ks. key_ok ty m k" "\<forall>c \<in> set cs. btree ty m t h c"
    "adj ks (map (contents h) cs)" "in_i32 (next_page_id nd)" by auto
  note j = reload_inode[OF i(1), of h]
  have ih: "btree ty m t h (reload h c)" "leaves h (reload h c) = map bare (leaves h c)" "contents h (reload h c) = contents h c"
    "map page_data (nodes h (reload h c)) = map page_data (nodes h c)" if "c \<in> set cs" for c using Suc.IH i(5) that by blast+
  have "adj ks (map (contents h) (map (reload h) cs))" using i(6) ih(3) by (simp add: comp_def cong: map_cong)
  then have b: "btree ty m t (Suc h) (reload (Suc h) nd)"
    using ih(1) i reload_sel(2)[of "Suc h" nd] by (intro btree_inner[OF j]) auto
  have l: "leaves (Suc h) (reload (Suc h) nd) = map bare (leaves (Suc h) nd)"
    unfolding inode_simps(2)[OF i(1)] inode_simps(2)[OF j] using ih(2) by (simp add: map_concat comp_def cong: map_cong)
  have c: "contents (Suc h) (reload (Suc h) nd) = contents (Suc h) nd"
    unfolding inode_simps(3)[OF i(1)] inode_simps(3)[OF j] using ih(3) by (simp add: comp_def cong: map_cong)
  have "page_data (reload (Suc h) nd) = page_data nd"
    using i(1) j reload_sel[of h] by (simp add: page_data_def node_enc_def node_size_def inode_def bare_def setters comp_def)
  then have "map page_data (nodes (Suc h) (reload (Suc h) nd)) = map page_data (nodes (Suc h) nd)"
    unfolding inode_simps(1)[OF i(1)] inode_simps(1)[OF j] using ih(4) by (simp add: map_concat comp_def cong: map_cong)
  then show ?case using b l c by blast
qed

lemma chain_bare: "\<forall>l \<in> set ls. isLeaf l \<Longrightarrow> chain p (map bare ls) q \<longleftrightarrow> chain p ls q"
  by (induction ls arbitrary: p) (auto simp: bare_def)

lemma reload_rep:
  assumes rep: "tree_with Q ty m t tr s n h xs" "root tr = Some r" and v: "pool_ok u n" "stored u (nodes h r)"
  shows "tree_with Q ty m t (tr\<lparr>root := Some (reload h r)\<rparr>) u n h xs"
proof -
  have b: "btree ty m t h r" "contents h r = xs" "placed n (pages h r)" and o: "degree tr = int t" "fits m t" using rep by (auto simp: tree_with_def)
  obtain p q where c: "Q q" "chain p (leaves h r) q" using rep by (auto simp: tree_with_def)
  have "\<forall>l \<in> set (leaves h r). isLeaf l" using btree_leaves[OF b(1)] by auto
  then have c': "chain p (leaves h (reload h r)) q" using c(2) reload_btree[OF b(1)] by (simp add: chain_bare)
  have d: "map page_data (nodes h (reload h r)) = map page_data (nodes h r)" using reload_btree[OF b(1)] by blast
  then have "map fst (map page_data (nodes h (reload h r))) = map fst (map page_data (nodes h r))" by simp
  then have "pages h (reload h r) = pages h r" by (simp add: pages_def page_data_def comp_def)
  moreover have "stored u (nodes h (reload h r))" using v(2) stored_page_data[OF d] by simp
  ultimately show ?thesis unfolding tree_with_def using reload_btree[OF b(1)] b(2,3) o v(1) c(1) c' by auto
qed

lemma loadNode_ok:
  assumes "btree ty m t h nd" "fits m t" "placed n (pages h nd)" "stored s (nodes h nd)" "pool_ok s n" "h < k"
  shows "\<exists>u. loadNode k (curr_page_id nd) s = Inr (Some (reload h nd), u) \<and> pool_ok u n \<and> same_views n s u"
  using assms
proof (induction h arbitrary: nd s k)
  case 0
  obtain k' where k: "k = Suc k'" using "0.prems"(6) by (cases k) auto
  have p: "1 \<le> curr_page_id nd" "curr_page_id nd \<le> int n" using "0.prems"(3) by (auto simp: placed_def)
  have "node_ok ty m nd" using btree_node_ok[OF "0.prems"(1,2), of n] rep_pages[OF "0.prems"(5)] p by simp
  moreover have "on_page (view s (nat (curr_page_id nd))) nd" using "0.prems"(4) by (simp add: stored_def)
  ultimately have "\<exists>u. loadNode (Suc k') (curr_page_id nd) s = Inr (Some (bare nd), u) \<and> pool_ok u n \<and> same_views n s u"
    using load_leaf[OF "0.prems"(5), of nd "nat (curr_page_id nd)"] page_nat[OF p] "0.prems"(1) by (simp del: loadNode.simps)
  then show ?case unfolding k by simp
next
  case (Suc h)
  obtain k' where k: "k = Suc k'" "h < k'" using Suc.prems(6) by (cases k) auto
  obtain ks cs where i: "inode nd ks cs" "\<forall>c \<in> set cs. btree ty m t h c" using Suc.prems(1) by auto
  have p: "\<forall>p \<in> set (pages (Suc h) nd). 1 \<le> p \<and> p \<le> int n" using Suc.prems(3) by (simp add: placed_def)
  have c: "1 \<le> curr_page_id nd" "curr_page_id nd \<le> int n" using p curr_in_pages by blast+
  have ok: "node_ok ty m nd" using btree_node_ok[OF Suc.prems(1,2) p rep_pages[OF Suc.prems(5)]] .
  have st: "on_page (view s (nat (curr_page_id nd))) nd" "stored s (concat (map (nodes h) cs))"
    using Suc.prems(4) unfolding inode_simps(1)[OF i(1)] by (simp_all add: stored_def)
  obtain f u where u: "fetch_frame s (curr_page_id nd) = Inr (f, view s (nat (curr_page_id nd)), u)" "bpm_inv u n {}" "same_views n s u"
    "dm_capacity (disk u) = dm_capacity (disk s)"
    using fetch_frame_inv[of s n "nat (curr_page_id nd)"] Suc.prems(5) page_nat[OF c] by (auto simp: pool_ok_def)
  have pu: "pool_ok u n" using Suc.prems(5) u(2,4) by (simp add: pool_ok_def)
  have d: "Node_deserialize (curr_page_id nd) (view s (nat (curr_page_id nd))) = Inr (bare nd)"
    using Node_deserialize_back[OF ok st(1)] view_canon[of s n] Suc.prems(5) by (simp add: canon_def pool_ok_def)
  have list: "\<exists>w. smap (loadNode k') (map curr_page_id bs) v = Inr (map (\<lambda>c. Some (reload h c)) bs, w) \<and> pool_ok w n \<and> same_views n v w"
    if "\<forall>c \<in> set bs. btree ty m t h c \<and> placed n (pages h c)" "stored v (concat (map (nodes h) bs))" "pool_ok v n" for bs v
    using that
  proof (induction bs arbitrary: v)
    case (Cons b bs)
    then obtain w where w: "loadNode k' (curr_page_id b) v = Inr (Some (reload h b), w)" "pool_ok w n" "same_views n v w"
      using Suc.IH[OF _ Suc.prems(2) _ _ _ k(2), of b v] by auto
    have "\<forall>x \<in> set (concat (map (nodes h) bs)). 1 \<le> curr_page_id x \<and> curr_page_id x \<le> int n"
      using Cons.prems(1) in_pages by (fastforce simp: placed_def)
    then have "stored w (concat (map (nodes h) bs))"
      using stored_framed[of v "concat (map (nodes h) bs)" n "[]" w] Cons.prems(2) w(3) by (simp add: framed_def same_views_def)
    then obtain x where "smap (loadNode k') (map curr_page_id bs) w = Inr (map (\<lambda>c. Some (reload h c)) bs, x)" "pool_ok x n" "same_views n w x"
      using Cons.IH[of w] Cons.prems(1) w(2) by auto
    then show ?case using w by (auto simp: same_views_def)
  qed (auto simp: same_views_def)
  have "\<forall>c \<in> set cs. btree ty m t h c \<and> placed n (pages h c)"
    using i(2) Suc.prems(3) unfolding inode_simps(4)[OF i(1)] by (auto simp: placed_def distinct_concat_iff)
  moreover have "\<forall>x \<in> set (concat (map (nodes h) cs)). 1 \<le> curr_page_id x \<and> curr_page_id x \<le> int n"
    using calculation in_pages by (fastforce simp: placed_def)
  then have "stored u (concat (map (nodes h) cs))"
    using stored_framed[OF st(2), of n "[]" u] u(3) by (simp add: framed_def same_views_def)
  ultimately obtain w where w: "smap (loadNode k') (map curr_page_id cs) u = Inr (map (\<lambda>c. Some (reload h c)) cs, w)" "pool_ok w n" "same_views n u w"
    using list pu by blast
  have "\<not> isLeaf nd" "children_pages_ids nd = map curr_page_id cs" "children nd = map Some cs" using i(1) by (simp_all add: inode_def)
  then have "loadNode k (curr_page_id nd) s = Inr (Some (reload (Suc h) nd), w)"
    using u(1) d w(1) c by (simp add: k(1) bare_def comp_def)
  moreover have "same_views n s w" using u(3) w(3) by (simp add: same_views_def)
  ultimately show ?case using w(2) by blast
qed

lemma node_enc_pids: "isLeaf nd \<Longrightarrow> node_enc (set_pids nd ps) = node_enc nd"
  by (simp add: node_enc_def node_size_def setters)

lemma framed_mono: "framed s n ps u \<Longrightarrow> set ps \<subseteq> set qs \<Longrightarrow> framed s n qs u"
  unfolding framed_def by blast

lemma framed_trans: "framed s n ps u \<Longrightarrow> framed u n ps v \<Longrightarrow> framed s n ps v"
  unfolding framed_def by simp

lemma write_stored:
  assumes s: "pool_ok s n" and ok: "node_ok ty m nd" and p: "1 \<le> curr_page_id nd" "curr_page_id nd \<le> int n"
  shows "\<exists>u. write_node nd s = Inr u \<and> pool_ok u n \<and> stored u [nd] \<and> framed s n [curr_page_id nd] u"
proof -
  let ?i = "nat (curr_page_id nd)"
  have i: "curr_page_id nd = int ?i" "1 \<le> ?i" "?i \<le> n" using page_nat[OF p] by auto
  obtain u where u: "write_node nd s = Inr u" "pool_ok u n" "on_page (view u ?i) nd" "\<forall>j. 1 \<le> j \<and> j \<le> n \<and> j \<noteq> ?i \<longrightarrow> view u j = view s j"
    using write_node_ok[OF s i ok] by blast
  have "framed s n [curr_page_id nd] u" using u(4) i(1) by (auto simp: framed_def)
  then show ?thesis using u(1-3) by (auto simp: stored_def)
qed

lemma saveNode_ok:
  assumes "btree ty m t h nd" "fits m t" "placed n (pages h nd)" "pool_ok s n" "h < k"
  shows "\<exists>nd' u. saveNode k (Some nd) s = Inr (Some nd', u) \<and> pool_ok u n \<and> stored u (nodes h nd) \<and> framed s n (pages h nd) u"
  using assms
proof (induction h arbitrary: nd s k)
  case 0
  obtain k' where k: "k = Suc k'" using "0.prems"(5) by (cases k) auto
  have p: "1 \<le> curr_page_id nd" "curr_page_id nd \<le> int n" using "0.prems"(3) by (auto simp: placed_def)
  have l: "isLeaf nd" using "0.prems"(1) by simp
  have "node_ok ty m nd" using btree_node_ok[OF "0.prems"(1,2), of n] rep_pages[OF "0.prems"(4)] p by simp
  then have "node_ok ty m (set_pids nd [])" using l node_enc_pids[OF l, of "[]"] by (simp add: node_ok_def node_size_def setters)
  then obtain u where u: "write_node (set_pids nd []) s = Inr u" "pool_ok u n" "stored u [set_pids nd []]" "framed s n [curr_page_id nd] u"
    using write_stored[OF "0.prems"(4), of ty m "set_pids nd []"] p by (auto simp: setters)
  have "stored u [nd]" using u(3) node_enc_pids[OF l, of "[]"] by (simp add: stored_def on_page_def setters)
  then show ?case using u(1,2,4) l by (auto simp: k Let_def setters)
next
  case (Suc h)
  obtain k' where k: "k = Suc k'" "h < k'" using Suc.prems(5) by (cases k) auto
  obtain ks cs where i: "inode nd ks cs" "\<forall>c \<in> set cs. btree ty m t h c" using Suc.prems(1) by auto
  have p: "\<forall>p \<in> set (pages (Suc h) nd). 1 \<le> p \<and> p \<le> int n" using Suc.prems(3) by (simp add: placed_def)
  have c: "1 \<le> curr_page_id nd" "curr_page_id nd \<le> int n" using p curr_in_pages by blast+
  have pids: "set_pids nd (map (curr_page_id \<circ> the) (filter (\<lambda>c. c \<noteq> None) (children nd))) = nd"
    using i(1) by (cases nd) (simp add: inode_def setters comp_def filter_map)
  obtain u where u: "write_node nd s = Inr u" "pool_ok u n" "stored u [nd]" "framed s n [curr_page_id nd] u"
    using write_stored[OF Suc.prems(4) btree_node_ok[OF Suc.prems(1,2) p rep_pages[OF Suc.prems(4)]] c] by blast
  have list: "\<exists>cs' w. smap (saveNode k') (map Some bs) v = Inr (cs', w) \<and> pool_ok w n \<and> stored w (concat (map (nodes h) bs)) \<and>
      framed v n (concat (map (pages h) bs)) w"
    if "\<forall>c \<in> set bs. btree ty m t h c" "placed n (concat (map (pages h) bs))" "pool_ok v n" for bs v
    using that
  proof (induction bs arbitrary: v)
    case Nil
    then show ?case by (simp add: stored_def framed_def)
  next
    case (Cons b bs)
    have pl: "placed n (pages h b)" "placed n (concat (map (pages h) bs))" "set (pages h b) \<inter> set (concat (map (pages h) bs)) = {}"
      using Cons.prems(2) by (simp_all add: placed_def)
    obtain b' w where w: "saveNode k' (Some b) v = Inr (Some b', w)" "pool_ok w n" "stored w (nodes h b)" "framed v n (pages h b) w"
      using Suc.IH[OF _ Suc.prems(2) pl(1) Cons.prems(3) k(2)] Cons.prems(1) by auto
    obtain cs' x where x: "smap (saveNode k') (map Some bs) w = Inr (cs', x)" "pool_ok x n" "stored x (concat (map (nodes h) bs))"
      "framed w n (concat (map (pages h) bs)) x"
      using Cons.IH[OF _ pl(2) w(2)] Cons.prems(1) by auto
    have "stored x (nodes h b)"
      using pl(1,3) in_pages[of _ h b] by (intro stored_framed[OF w(3) x(4)]) (auto simp: placed_def)
    moreover have "framed v n (concat (map (pages h) (b # bs))) x"
      by (rule framed_trans[OF framed_mono[OF w(4)] framed_mono[OF x(4)]]) auto
    ultimately show ?case using w(1) x by auto
  qed
  have pl: "placed n (concat (map (pages h) cs))" "curr_page_id nd \<notin> set (concat (map (pages h) cs))"
    using Suc.prems(3) unfolding inode_simps(4)[OF i(1)] by (simp_all add: placed_def)
  obtain cs' w where w: "smap (saveNode k') (map Some cs) u = Inr (cs', w)" "pool_ok w n" "stored w (concat (map (nodes h) cs))"
    "framed u n (concat (map (pages h) cs)) w" using list[OF i(2) pl(1) u(2)] by blast
  have "stored w [nd]" using c pl(2) by (intro stored_framed[OF u(3) w(4)]) simp
  then have "stored w (nodes (Suc h) nd)" using w(3) unfolding inode_simps(1)[OF i(1)] by (simp add: stored_def)
  moreover have "framed s n (pages (Suc h) nd) w"
    by (rule framed_trans[OF framed_mono[OF u(4)] framed_mono[OF w(4)]]) (auto simp: inode_simps(4)[OF i(1)] simp del: nodes.simps)
  moreover have "\<not> isLeaf nd" "children nd = map Some cs" using i(1) by (simp_all add: inode_def)
  ultimately show ?case using u(1) w(1,2) pids by (simp add: k(1) Let_def del: nodes.simps)
qed

definition tree_meta :: "bplus_tree \<Rightarrow> byte list" where
  "tree_meta tr = i32_bytes (degree tr) @ i32_bytes (case root tr of None \<Rightarrow> - 1 | Some nd \<Rightarrow> curr_page_id nd)"

lemma length_tree_meta [simp]: "length (tree_meta tr) = 8"
  by (simp add: tree_meta_def)

lemma save_tree_ok:
  assumes rep: "tree_with Q ty m t tr s n h xs" and meta: "meta_page_id tr = int i" "1 \<le> i" "i \<le> n"
    and free: "\<And>r. root tr = Some r \<Longrightarrow> int i \<notin> set (pages h r)" and k: "h < k"
  shows "\<exists>tr' u. saveBPlusTree k tr s = Inr (tr', u) \<and> pool_ok u n \<and> peek (mem (view u i)) 0 8 = tree_meta tr \<and>
    (\<forall>r. root tr = Some r \<longrightarrow> stored u (nodes h r))"
proof -
  have s: "pool_ok s n" and f: "fits m t" using rep by (auto simp: tree_with_def)
  have inv: "bpm_inv s n {}" using s by (simp add: pool_ok_def)
  obtain fr u where u: "fetch_frame s (int i) = Inr (fr, view s i, u)" "bpm_inv u n {}" "same_views n s u" "cached u i fr"
    "dm_capacity (disk u) = dm_capacity (disk s)"
    using fetch_frame_inv[OF inv meta(2,3)] by blast
  let ?p = "case root tr of None \<Rightarrow> - 1 | Some nd \<Rightarrow> curr_page_id nd"
  let ?b = "(view s i)\<lparr>mem := put (mem (view s i)) 0 (tree_meta tr)\<rparr>"
  have cn: "canon (view s i)" by (rule view_canon[OF inv])
  have "put (put (mem (view s i)) 0 (i32_bytes (degree tr))) 4 (i32_bytes ?p) = put (mem (view s i)) 0 (tree_meta tr)"
    using put_put_append[of "mem (view s i)" 0 "i32_bytes (degree tr)" "i32_bytes ?p"] by (simp add: tree_meta_def)
  then have w2: "rbind (memcpy_to (view s i) 0 (i32_bytes (degree tr))) (\<lambda>b. memcpy_to b 4 (i32_bytes ?p)) = Inr ?b"
    using cn by (simp add: memcpy_to_def canon_def PAGE_SIZE_def)
  have "canon ?b" using cn by (simp add: canon_def PAGE_SIZE_def)
  then obtain v where v: "markAsDirty (store_frame u fr ?b) (int i) = Inr v" "bpm_inv v n {}" "view v = (view u)(i := ?b)" "disk v = disk u"
    using mark_written[OF u(2,4)] by blast
  have pv: "pool_ok v n" using s u(5) v(2,4) by (simp add: pool_ok_def)
  have "\<exists>r' w. saveNode k (root tr) v = Inr (r', w) \<and> pool_ok w n \<and> view w i = ?b \<and> (\<forall>r. root tr = Some r \<longrightarrow> stored w (nodes h r))"
  proof (cases "root tr")
    case None
    obtain k' where "k = Suc k'" using k by (cases k) auto
    then show ?thesis using None pv v(3) by simp
  next
    case (Some r)
    then have b: "btree ty m t h r" "placed n (pages h r)" using rep by (auto simp: tree_with_def)
    obtain r' w where w: "saveNode k (Some r) v = Inr (Some r', w)" "pool_ok w n" "stored w (nodes h r)" "framed v n (pages h r) w"
      using saveNode_ok[OF b(1) f b(2) pv k] by blast
    have "view w i = view v i" using w(4) free[OF Some] meta(2,3) by (simp add: framed_def)
    then show ?thesis using w(1-3) v(3) Some by auto
  qed
  then obtain r' w where w: "saveNode k (root tr) v = Inr (r', w)" "pool_ok w n" "view w i = ?b" "\<forall>r. root tr = Some r \<longrightarrow> stored w (nodes h r)"
    by blast
  have "saveBPlusTree k tr s = Inr (tr\<lparr>root := r'\<rparr>, w)"
    using u(1) w2 v(1) w(1) meta(1) by (simp add: saveBPlusTree_def rbind_assoc[symmetric])
  moreover have "peek (mem ?b) 0 8 = tree_meta tr" using peek_put_same[of "mem (view s i)" 0 "tree_meta tr"] by simp
  ultimately show ?thesis using w(2-4) by auto
qed

lemma load_tree_ok:
  assumes rep: "tree_with Q ty m t tr s n h xs" and i: "1 \<le> i" "i \<le> n" and k: "h < k" and t: "t < 2 ^ 31"
    and new: "meta_page_id tr0 = int i" and z: "pool_ok z n" "peek (mem (view z i)) 0 8 = tree_meta tr"
      "\<And>r. root tr = Some r \<Longrightarrow> stored z (nodes h r)"
  shows "\<exists>tr2 x. loadBPlusTree k tr0 z = Inr (tr2, x) \<and> tree_with Q ty m t tr2 x n h xs"
proof -
  have d: "degree tr = int t" and f: "fits m t" using rep by (auto simp: tree_with_def)
  have inv: "bpm_inv z n {}" using z(1) by (simp add: pool_ok_def)
  let ?p = "case root tr of None \<Rightarrow> - 1 | Some nd \<Rightarrow> curr_page_id nd"
  have pr: "1 \<le> curr_page_id r \<and> curr_page_id r \<le> int n" if "root tr = Some r" for r
    using rep that curr_in_pages[of r h] by (auto simp: tree_with_def placed_def)
  then have pi: "in_i32 ?p" "root tr \<noteq> None \<Longrightarrow> ?p \<noteq> - 1" "in_i32 (int t)"
    using rep_pages[OF z(1)] t by (force simp: in_i32_def split: option.splits)+
  obtain fr y where y: "fetch_frame z (int i) = Inr (fr, view z i, y)" "bpm_inv y n {}" "same_views n z y" "dm_capacity (disk y) = dm_capacity (disk z)"
    using fetch_frame_inv[OF inv i] by blast
  have py: "pool_ok y n" using z(1) y(2,4) by (simp add: pool_ok_def)
  have "peek (mem (view z i)) 0 (length (i32_bytes (int t) @ i32_bytes ?p)) = i32_bytes (int t) @ i32_bytes ?p"
    using z(2) d by (simp add: tree_meta_def)
  note pk = peek_conc[OF this]
  have rd: "memcpy_from (view z i) 0 4 = Inr (i32_bytes (int t))" "memcpy_from (view z i) 4 4 = Inr (i32_bytes ?p)"
    using pk view_canon[OF inv, of i] by (simp_all add: memcpy_from_def canon_def PAGE_SIZE_def)
  show ?thesis
  proof (cases "root tr")
    case None
    then have "loadBPlusTree k tr0 z = Inr (tr0\<lparr>root := None, degree := int t\<rparr>, y)"
      using y(1) rd pi(1,3) new by (simp add: loadBPlusTree_def)
    moreover have "tree_with Q ty m t (tr0\<lparr>root := None, degree := int t\<rparr>) y n h xs" using rep None py by (simp add: tree_with_def)
    ultimately show ?thesis by blast
  next
    case (Some r)
    then have b: "btree ty m t h r" "placed n (pages h r)" using rep by (auto simp: tree_with_def)
    have sy: "stored y (nodes h r)" using same_views_stored[OF y(3) _ z(3)[OF Some]] b(2) by (simp add: pages_def)
    from loadNode_ok[OF b(1) f b(2) sy py k] obtain x where x: "loadNode k (curr_page_id r) y = Inr (Some (reload h r), x)" "pool_ok x n" "same_views n y x"
      by blast
    have "loadBPlusTree k tr0 z = Inr (tr0\<lparr>root := Some (reload h r), degree := int t\<rparr>, x)"
      using y(1) rd pi x(1) new Some by (simp add: loadBPlusTree_def)
    moreover have "stored x (nodes h r)" using same_views_stored[OF x(3) _ sy] b(2) by (simp add: pages_def)
    then have "tree_with Q ty m t (tr\<lparr>root := Some (reload h r)\<rparr>) x n h xs" using reload_rep[OF rep Some x(2)] by blast
    then have "tree_with Q ty m t (tr0\<lparr>root := Some (reload h r), degree := int t\<rparr>) x n h xs" by (simp add: tree_with_def)
    ultimately show ?thesis by blast
  qed
qed

section \<open>Properties\<close>

text \<open>
  C19. Inserting an entry puts it at one place into the list of entries that a B+ tree represents and keeps
  that list in the order of the keys, whatever the number of splits, with duplicates allowed. The call
  returns when the fuel exceeds the height by two, uses at most as many new pages as the tree has levels
  and two, and all nodes are on their pages afterwards. The link \<open>jk p\<close> that a new node on page \<open>p\<close> happens to
  have may be any number: what holds of it (\<open>Q\<close>) holds of the link of the last leaf, and nothing else depends on it.
\<close>

theorem bplus_insert_sorted:
  assumes "tree_with Q ty m t tr s n h xs" "bentry_ok ty m e" "\<forall>p. in_i32 (jk p) \<and> Q (jk p)" "n + h + 4 < 60000" "Suc h < k"
  shows "\<exists>tr' u n' h' us vs. bp_insert k jk tr (bkey e) (bval e) s = Inr (tr', u) \<and> xs = us @ vs \<and> ordered (us @ e # vs) \<and>
    n' \<le> n + h + 3 \<and> h' \<le> Suc h \<and> tree_with Q ty m t tr' u n' h' (us @ e # vs)"
proof -
  obtain tr' u n' h' us vs where r: "bp_insert k jk tr (bkey e) (bval e) s = Inr (tr', u)" "xs = us @ vs" "n' \<le> n + h + 3" "h' \<le> Suc h"
    "tree_with Q ty m t tr' u n' h' (us @ e # vs)" using bp_insert_ok[OF assms] by blast
  have "ordered (us @ e # vs)" using tree_with_ordered[OF r(5)] by blast
  then show ?thesis using r by blast
qed

text \<open>
  C18. After any sequence of fewer than 4,096 insertions into an empty tree, a range query returns exactly
  the addresses of the entries with \<open>lo \<le> key \<le> hi\<close>, duplicates included, in the order of the keys. The
  query has to stop before it follows the link of the last leaf, which the program never initialises (\<open>jk p\<close> is
  the number it happens to be on page \<open>p\<close>): either some key above \<open>hi\<close> was inserted, and then the link may be
  anything, or the link happens to be negative.
\<close>

theorem bplus_range_query_exact:
  assumes "degree tr = int t" "root tr = None" "fits m t" "pool_ok s n" "oks ty m es" "\<forall>p. in_i32 (jk p)"
    and "length es < 2 ^ 12" "n + 14 * length es + 15 < 60000" "n + 14 * length es + 14 < k" "comparable ty lo" "comparable ty hi"
    and stop: "(\<exists>e \<in> set es. fless hi (bkey e)) \<or> (\<forall>p. jk p \<le> - 1)"
  shows "\<exists>tr' u ys v. bp_insert_all k jk es (tr, s) = Inr (tr', u) \<and> mset ys = mset es \<and> ordered ys \<and>
    rangeQuery k tr' lo hi u = Inr (map bval (filter (within lo hi) ys), tr', v)"
proof -
  obtain tr' u n' h ys where i: "bp_insert_all k jk es (tr, s) = Inr (tr', u)" "mset ys = mset es"
    "tree_with (\<lambda>q. \<exists>p. q = jk p) ty m t tr' u n' h ys" "n' < k" "h < k"
    using insert_all_empty[OF assms(1-9)] by blast
  have "set ys = set es" using i(2) by (metis set_mset_mset)
  then have "(\<forall>q. (\<exists>p. q = jk p) \<longrightarrow> q \<le> - 1) \<or> (\<exists>e \<in> set ys. fless hi (bkey e))" using stop by auto
  from range_query_ok[OF i(3) assms(10,11) i(4,5) this] obtain v
    where "rangeQuery k tr' lo hi u = Inr (map bval (filter (within lo hi) ys), tr', v)" by blast
  then show ?thesis using i(1,2) tree_with_ordered[OF i(3)] by blast
qed

text \<open>
  C20. When the keys of fewer than 4,096 insertions into an empty tree are distinct, \<^verbatim>\<open>findValue\<close> returns exactly
  the addresses inserted with the key, that is one address or none. As for a range query, the link of the
  last leaf is never initialised: either some larger key was inserted, and then the link may be
  anything, or the link happens to be negative.
\<close>

theorem bplus_find_exact:
  assumes "degree tr = int t" "root tr = None" "fits m t" "pool_ok s n" "oks ty m es" "\<forall>p. in_i32 (jk p)"
    and "length es < 2 ^ 12" "n + 14 * length es + 15 < 60000" "n + 14 * length es + 14 < k" "comparable ty key" "key_distinct es"
    and stop: "(\<exists>e \<in> set es. fless key (bkey e)) \<or> (\<forall>p. jk p \<le> - 1)"
  shows "\<exists>tr' u v. bp_insert_all k jk es (tr, s) = Inr (tr', u) \<and>
    findValue k tr' key u = Inr (map bval (filter (\<lambda>e. fequal (bkey e) key) es), tr', v)"
proof -
  obtain tr' u n' h ys where i: "bp_insert_all k jk es (tr, s) = Inr (tr', u)" "mset ys = mset es"
    "tree_with (\<lambda>q. \<exists>p. q = jk p) ty m t tr' u n' h ys" "n' < k" "h < k"
    using insert_all_empty[OF assms(1-9)] by blast
  have "set ys = set es" using i(2) by (metis set_mset_mset)
  then have st: "(\<forall>q. (\<exists>p. q = jk p) \<longrightarrow> q \<le> - 1) \<or> (\<exists>e \<in> set ys. fless key (bkey e))" using stop by auto
  have d: "key_distinct ys" using key_distinct_mset[OF assms(11) i(2)[symmetric]] .
  obtain v where v: "findValue k tr' key u = Inr (map bval (filter (\<lambda>e. fequal (bkey e) key) ys), tr', v)"
    using find_value_ok[OF i(3) assms(10) i(4,5) d st] by blast
  have "filter (\<lambda>e. fequal (bkey e) key) ys = filter (\<lambda>e. fequal (bkey e) key) es"
    by (rule key_distinct_filter[OF assms(10) _ i(2) assms(11)]) (rule assms(5))
  then show ?thesis using i(1) v by auto
qed

text \<open>
  C21. A saved B+ tree is loaded back from any pool that has the pages the saving pool had, such as the one
  after a restart: the loaded tree has the same degree and represents the same list of entries.
\<close>

theorem bplus_save_load:
  assumes rep: "tree_with Q ty m t tr s n h xs" and meta: "meta_page_id tr = int i" "1 \<le> i" "i \<le> n"
    and free: "\<And>r. root tr = Some r \<Longrightarrow> int i \<notin> set (pages h r)" and k: "h < k" and t: "t < 2 ^ 31"
    and new: "meta_page_id tr0 = int i"
  shows "\<exists>tr' u. saveBPlusTree k tr s = Inr (tr', u) \<and> pool_ok u n \<and>
    (\<forall>v. pool_ok v n \<and> same_views n u v \<longrightarrow>
      (\<exists>tr2 w. loadBPlusTree k tr0 v = Inr (tr2, w) \<and> tree_with Q ty m t tr2 w n h xs))"
proof -
  obtain tr' u where u: "saveBPlusTree k tr s = Inr (tr', u)" "pool_ok u n" "peek (mem (view u i)) 0 8 = tree_meta tr"
    "\<And>r. root tr = Some r \<Longrightarrow> stored u (nodes h r)"
    using save_tree_ok[OF rep meta free k] by blast
  have "\<exists>tr2 w. loadBPlusTree k tr0 v = Inr (tr2, w) \<and> tree_with Q ty m t tr2 w n h xs" if v: "pool_ok v n" "same_views n u v" for v
  proof (rule load_tree_ok[OF rep meta(2,3) k t new v(1)])
    show "peek (mem (view v i)) 0 8 = tree_meta tr" using v(2) u(3) meta(2,3) by (simp add: same_views_def)
    show "stored v (nodes h r)" if "root tr = Some r" for r
      using same_views_stored[OF v(2) _ u(4)[OF that]] rep that by (simp add: tree_with_def pages_def)
  qed
  then show ?thesis using u(1,2) by blast
qed

section \<open>An example\<close>

definition demo_entry :: "int \<Rightarrow> int \<Rightarrow> bentry" where
  "demo_entry i sl = \<lparr>bkey = Field_int TYPE_INT i, bval = RID 1 sl\<rparr>"

definition demo_tree :: bplus_tree where
  "demo_tree = \<lparr>root = None, degree = 2, meta_page_id = 1\<rparr>"

lemma demo_comparable: "in_i32 i \<Longrightarrow> comparable TYPE_INT (Field_int TYPE_INT i)"
  by (simp add: comparable_def) (simp add: Field_int_def no_nan_def)

lemma demo_entry_ok: "in_i32 i \<Longrightarrow> in_i32 sl \<Longrightarrow> bentry_ok TYPE_INT 10 (demo_entry i sl)"
proof -
  assume i: "in_i32 i" "in_i32 sl"
  have "length (field_enc (Field_int TYPE_INT i)) \<le> 10" by (simp add: field_enc_def) (simp add: Field_int_def)
  then show ?thesis using i demo_comparable[OF i(1)] by (simp add: bentry_ok_def key_ok_def demo_entry_def RID_def rid_ok_def in_i32_def)
qed

lemma demo_fits: "fits 10 2"
  by (simp add: fits_def PAGE_SIZE_def)

lemma demo_bplus_pool:
  "\<exists>d s. DiskManager None = Inr d \<and> newPage (BufferPoolManager d) = Inr (1, s) \<and> pool_ok s 1"
proof -
  obtain d where d: "DiskManager None = Inr d" "dm_inv d 0" "dm_capacity d = 100" using new_disk by blast
  have "disk (BufferPoolManager d) = d" by (simp add: BufferPoolManager_def)
  then have "pool_ok (BufferPoolManager d) 0" using BufferPoolManager_inv(1)[OF d(2)] d(3) by (simp add: pool_ok_def)
  then show ?thesis using pool_new[of "BufferPoolManager d" 0] d(1) by auto
qed

lemma demo_tree_with: "pool_ok s n \<Longrightarrow> tree_with Q TYPE_INT 10 2 demo_tree s n 0 []"
  by (simp add: tree_with_def demo_tree_def demo_fits)

lemma bplus_insert_sorted_witness:
  "\<exists>d s tr u n h. DiskManager None = Inr d \<and> newPage (BufferPoolManager d) = Inr (1, s) \<and>
     bp_insert 2 (\<lambda>_. 0) demo_tree (Field_int TYPE_INT 7) (RID 1 0) s = Inr (tr, u) \<and>
     tree_with (\<lambda>q. q = 0) TYPE_INT 10 2 tr u n h [demo_entry 7 0]"
proof -
  obtain d s where s: "DiskManager None = Inr d" "newPage (BufferPoolManager d) = Inr (1, s)" "pool_ok s 1" using demo_bplus_pool by blast
  have e: "bentry_ok TYPE_INT 10 (demo_entry 7 0)" by (simp add: demo_entry_ok in_i32_def)
  have jk: "\<forall>p :: int. in_i32 0" by (simp add: in_i32_def)
  obtain tr u n h us vs where r: "bp_insert 2 (\<lambda>_. 0) demo_tree (bkey (demo_entry 7 0)) (bval (demo_entry 7 0)) s = Inr (tr, u)" "[] = us @ vs"
    "tree_with (\<lambda>q. q = 0) TYPE_INT 10 2 tr u n h (us @ demo_entry 7 0 # vs)"
    using bplus_insert_sorted[OF demo_tree_with[OF s(3)] e, of "\<lambda>_. 0" "\<lambda>q. q = 0" 2] jk by auto
  then show ?thesis using s(1,2) by (auto simp: demo_entry_def)
qed

lemma demo_entries_ok: "oks TYPE_INT 10 [demo_entry 7 0, demo_entry 3 1, demo_entry 7 2, demo_entry 9 3]"
  by (simp add: demo_entry_ok in_i32_def)

lemma bplus_range_query_exact_witness:
  "\<exists>d s tr u ys v. DiskManager None = Inr d \<and> newPage (BufferPoolManager d) = Inr (1, s) \<and>
     bp_insert_all 100 (\<lambda>_. 0) [demo_entry 7 0, demo_entry 3 1, demo_entry 7 2, demo_entry 9 3] (demo_tree, s) = Inr (tr, u) \<and>
     mset ys = mset [demo_entry 7 0, demo_entry 3 1, demo_entry 7 2, demo_entry 9 3] \<and> ordered ys \<and>
     rangeQuery 100 tr (Field_int TYPE_INT 5) (Field_int TYPE_INT 8) u =
       Inr (map bval (filter (within (Field_int TYPE_INT 5) (Field_int TYPE_INT 8)) ys), tr, v)"
proof -
  obtain d s where s: "DiskManager None = Inr d" "newPage (BufferPoolManager d) = Inr (1, s)" "pool_ok s 1" using demo_bplus_pool by blast
  have jk: "\<forall>p :: int. in_i32 0" by (simp add: in_i32_def)
  have c: "comparable TYPE_INT (Field_int TYPE_INT 5)" "comparable TYPE_INT (Field_int TYPE_INT 8)" by (simp_all add: demo_comparable in_i32_def)
  have t: "degree demo_tree = int 2" "root demo_tree = None" by (simp_all add: demo_tree_def)
  have "fless (Field_int TYPE_INT 8) (bkey (demo_entry 9 3))" by (simp add: fless_def demo_entry_def Field_int_def)
  then show ?thesis using bplus_range_query_exact[OF t demo_fits s(3) demo_entries_ok, of "\<lambda>_. 0" 100, OF jk _ _ _ c] s(1,2) by auto
qed

lemma bplus_find_exact_witness:
  "\<exists>d s tr u v. DiskManager None = Inr d \<and> newPage (BufferPoolManager d) = Inr (1, s) \<and>
     bp_insert_all 100 (\<lambda>_. 0) [demo_entry 7 0, demo_entry 3 1, demo_entry 9 3] (demo_tree, s) = Inr (tr, u) \<and>
     findValue 100 tr (Field_int TYPE_INT 3) u = Inr ([RID 1 1], tr, v)"
proof -
  obtain d s where s: "DiskManager None = Inr d" "newPage (BufferPoolManager d) = Inr (1, s)" "pool_ok s 1" using demo_bplus_pool by blast
  have jk: "\<forall>p :: int. in_i32 0" by (simp add: in_i32_def)
  have c: "comparable TYPE_INT (Field_int TYPE_INT 3)" by (simp add: demo_comparable in_i32_def)
  have t: "degree demo_tree = int 2" "root demo_tree = None" by (simp_all add: demo_tree_def)
  have o: "oks TYPE_INT 10 [demo_entry 7 0, demo_entry 3 1, demo_entry 9 3]" using demo_entries_ok by simp
  have eq: "fequal (bkey (demo_entry i a)) (Field_int TYPE_INT j) \<longleftrightarrow> i = j" for i j a
    by (auto simp: fequal_def fless_def demo_entry_def Field_int_def)
  have "fequal (bkey (demo_entry i a)) (bkey (demo_entry j b)) \<longleftrightarrow> i = j" for i j a b using eq by (simp add: demo_entry_def)
  then have k: "key_distinct [demo_entry 7 0, demo_entry 3 1, demo_entry 9 3]" by (simp add: key_distinct_def)
  have "fless (Field_int TYPE_INT 3) (bkey (demo_entry 9 3))" by (simp add: fless_def demo_entry_def Field_int_def)
  then show ?thesis using bplus_find_exact[OF t demo_fits s(3) o, of "\<lambda>_. 0" 100, OF jk _ _ _ c k] s(1,2)
    by (auto simp: eq) (auto simp: demo_entry_def)
qed

lemma bplus_save_load_witness:
  "\<exists>d s tr u tr1 w tr2 x. DiskManager None = Inr d \<and> newPage (BufferPoolManager d) = Inr (1, s) \<and>
     bp_insert 2 (\<lambda>_. 0) demo_tree (Field_int TYPE_INT 7) (RID 1 0) s = Inr (tr, u) \<and>
     saveBPlusTree 1 tr u = Inr (tr1, w) \<and> loadBPlusTree 1 (demo_tree\<lparr>degree := 0\<rparr>) w = Inr (tr2, x) \<and>
     tree_with (\<lambda>q. q = 0) TYPE_INT 10 2 tr2 x 2 0 [demo_entry 7 0]"
proof -
  obtain d s where s: "DiskManager None = Inr d" "newPage (BufferPoolManager d) = Inr (1, s)" "pool_ok s 1" using demo_bplus_pool by blast
  have e: "bentry_ok TYPE_INT 10 (demo_entry 7 0)" by (simp add: demo_entry_ok in_i32_def)
  have t: "degree demo_tree = int 2" "root demo_tree = None" by (simp_all add: demo_tree_def)
  let ?nd = "Node True [demo_entry 7 0] [bkey (demo_entry 7 0)] [] [] 2 0"
  obtain u where u: "bp_insert 2 (\<lambda>_. 0) demo_tree (bkey (demo_entry 7 0)) (bval (demo_entry 7 0)) s = Inr (demo_tree\<lparr>root := Some ?nd\<rparr>, u)"
    "pool_ok u 2" "stored u [?nd]" "btree TYPE_INT 10 2 0 ?nd"
    using bp_insert_first[OF t demo_fits s(3) _ e, of "\<lambda>_. 0" 2] by (auto simp: in_i32_def numeral_2_eq_2)
  let ?tr = "demo_tree\<lparr>root := Some ?nd\<rparr>"
  have rep: "tree_with (\<lambda>q. q = 0) TYPE_INT 10 2 ?tr u 2 0 [demo_entry 7 0]"
    using u(2-4) demo_fits by (auto simp: tree_with_def demo_tree_def placed_def)
  have m: "meta_page_id ?tr = int 1" "meta_page_id (demo_tree\<lparr>degree := 0\<rparr>) = int 1" by (simp_all add: demo_tree_def)
  have free: "int 1 \<notin> set (pages 0 r)" if "root ?tr = Some r" for r using that by auto
  obtain tr1 w where w: "saveBPlusTree 1 ?tr u = Inr (tr1, w)" "pool_ok w 2"
    "\<forall>v. pool_ok v 2 \<and> same_views 2 w v \<longrightarrow> (\<exists>tr2 x. loadBPlusTree 1 (demo_tree\<lparr>degree := 0\<rparr>) v = Inr (tr2, x) \<and>
      tree_with (\<lambda>q. q = 0) TYPE_INT 10 2 tr2 x 2 0 [demo_entry 7 0])"
    using bplus_save_load[OF rep m(1) _ _ free _ _ m(2), of 1] by auto
  have "same_views 2 w w" by (simp add: same_views_def)
  then obtain tr2 x where "loadBPlusTree 1 (demo_tree\<lparr>degree := 0\<rparr>) w = Inr (tr2, x)"
    "tree_with (\<lambda>q. q = 0) TYPE_INT 10 2 tr2 x 2 0 [demo_entry 7 0]" using w(2,3) by blast
  then show ?thesis using s(1,2) u(1) w(1) by (fastforce simp: demo_entry_def)
qed

end
