(* ===== verification/Bplus_Remove.thy ===== *)
theory Bplus_Remove imports Bplus_Props
begin

text \<open>
  Removal from the B+ tree and the wrapper that the tables use
  (src/Storage/Indexing/BPlusTreeIndex.c++, BPlusTreeIndexWrapper.c++).
\<close>

section \<open>Merging and borrowing\<close>

text \<open>\<^verbatim>\<open>v.erase(v.begin()+i)\<close>, \<^verbatim>\<open>v.back()\<close> and \<^verbatim>\<open>v.pop_back()\<close>\<close>

definition erase_at :: "nat \<Rightarrow> 'a list \<Rightarrow> 'a list res" where
  "erase_at i xs = (if i < length xs then Inr (take i xs @ drop (Suc i) xs) else Inl Undefined)"

definition vec_back :: "'a list \<Rightarrow> 'a res" where
  "vec_back xs = (if xs = [] then Inl Undefined else Inr (last xs))"

definition merge_nodes :: "bnode \<Rightarrow> nat \<Rightarrow> bpm \<Rightarrow> (bnode \<times> bpm) res" where
  "merge_nodes nd i s =
     rbind (child_at nd i) (\<lambda>child. rbind (child_at nd (Suc i)) (\<lambda>sib.
     rbind (if isLeaf child then Inr (sync_keys child (entries child @ entries sib))
            else rbind (vec_at (keys nd) i) (\<lambda>k.
              Inr (set_pids (set_children (set_keys child (keys child @ k # keys sib)) (children child @ children sib))
                (children_pages_ids child @ children_pages_ids sib)))) (\<lambda>child.
     rbind (erase_at i (keys nd)) (\<lambda>ks.
     rbind (erase_at (Suc i) ((children nd)[i := Some child])) (\<lambda>cs.
     rbind (if children_pages_ids nd = [] then Inr [] else erase_at (Suc i) (children_pages_ids nd)) (\<lambda>ps.
     rbind (write_node child s) (\<lambda>s.
     Inr (set_pids (set_children (set_keys nd ks) cs) ps, s))))))))"

definition borrowFromPrev :: "bnode \<Rightarrow> nat \<Rightarrow> bpm \<Rightarrow> (bnode \<times> bpm) res" where
  "borrowFromPrev nd i s =
     rbind (child_at nd i) (\<lambda>child. rbind (child_at nd (i - 1)) (\<lambda>sib.
     rbind (if isLeaf child then
          rbind (vec_back (entries sib)) (\<lambda>e.
          let child = sync_keys child (e # entries child); sib = sync_keys sib (butlast (entries sib))
          in Inr (bkey e, child, sib))
        else
          rbind (vec_at (keys nd) (i - 1)) (\<lambda>k. rbind (vec_back (keys sib)) (\<lambda>sk. rbind (vec_back (children sib)) (\<lambda>c.
          let ps = children_pages_ids sib;
              child = set_children (set_keys child (k # keys child)) (c # children child);
              sib = set_children (set_keys sib (butlast (keys sib))) (butlast (children sib))
          in if ps = [] then Inr (sk, child, sib)
             else Inr (sk, set_pids child (last ps # children_pages_ids child), set_pids sib (butlast ps)))))) (\<lambda>(k, child, sib).
     rbind (guard_ub (i - 1 < length (keys nd))) (\<lambda>_.
     rbind (write_node child s) (\<lambda>s. rbind (write_node sib s) (\<lambda>s.
     Inr (set_children (set_keys nd ((keys nd)[i - 1 := k])) ((children nd)[i := Some child, i - 1 := Some sib]), s)))))))"

definition borrowFromNext :: "bnode \<Rightarrow> nat \<Rightarrow> bpm \<Rightarrow> (bnode \<times> bpm) res" where
  "borrowFromNext nd i s =
     rbind (child_at nd i) (\<lambda>child. rbind (child_at nd (Suc i)) (\<lambda>sib.
     rbind (if isLeaf child then
          rbind (vec_at (entries sib) 0) (\<lambda>e. rbind (vec_at (entries sib) 1) (\<lambda>e1.
          Inr (bkey e1, sync_keys child (entries child @ [e]), sync_keys sib (tl (entries sib)))))
        else
          rbind (vec_at (keys nd) i) (\<lambda>k. rbind (vec_at (keys sib) 0) (\<lambda>sk. rbind (vec_at (children sib) 0) (\<lambda>c.
          let ps = children_pages_ids sib;
              child = set_children (set_keys child (keys child @ [k])) (children child @ [c]);
              sib = set_children (set_keys sib (tl (keys sib))) (tl (children sib))
          in if ps = [] then Inr (sk, child, sib)
             else Inr (sk, set_pids child (children_pages_ids child @ [hd ps]), set_pids sib (tl ps)))))) (\<lambda>(k, child, sib).
     rbind (guard_ub (i < length (keys nd))) (\<lambda>_.
     rbind (write_node child s) (\<lambda>s. rbind (write_node sib s) (\<lambda>s.
     Inr (set_children (set_keys nd ((keys nd)[i := k])) ((children nd)[i := Some child, Suc i := Some sib]), s)))))))"

section \<open>Removal\<close>

text \<open>A missing child or sibling is loaded, with or without making room for its pointer.\<close>

definition load_child :: "nat \<Rightarrow> nat \<Rightarrow> bnode \<Rightarrow> bpm \<Rightarrow> (bnode \<times> bpm) res" where
  "load_child k i nd s =
     (if i < length (children_pages_ids nd) \<and> (length (children nd) \<le> i \<or> children nd ! i = None) then
        let cs = (if length (children nd) \<le> i then resize_ptrs (length (children_pages_ids nd)) (children nd) else children nd) in
        rbind (loadNode k (children_pages_ids nd ! i) s) (\<lambda>(c, s). Inr (set_children nd (cs[i := c]), s))
      else Inr (nd, s))"

definition load_sibling :: "nat \<Rightarrow> nat \<Rightarrow> bnode \<Rightarrow> bpm \<Rightarrow> (bnode \<times> bpm) res" where
  "load_sibling k i nd s =
     (if length (children nd) \<le> i \<or> children nd ! i = None then
        rbind (vec_at (children_pages_ids nd) i) (\<lambda>p. rbind (loadNode k p s) (\<lambda>(c, s).
        rbind (guard_ub (i < length (children nd))) (\<lambda>_. Inr (set_children nd ((children nd)[i := c]), s))))
      else Inr (nd, s))"

text \<open>The largest key below a node along the last children, and the smallest along the first.\<close>

fun pred_key :: "nat \<Rightarrow> bnode \<Rightarrow> bpm \<Rightarrow> (field \<times> bnode \<times> bpm) res" where
  "pred_key 0 nd s = Inl Diverges"
| "pred_key (Suc k) nd s =
     (if isLeaf nd then rbind (vec_back (keys nd)) (\<lambda>x. Inr (x, nd, s))
      else rbind (if children nd = [] \<or> last (children nd) = None then
            rbind (vec_back (children_pages_ids nd)) (\<lambda>p. rbind (loadNode k p s) (\<lambda>(c, s).
            let n = length (children_pages_ids nd) in Inr (set_children nd ((resize_ptrs n (children nd))[n - 1 := c]), s)))
          else Inr (nd, s)) (\<lambda>(nd, s).
        let i = length (children nd) - 1 in
        rbind (child_at nd i) (\<lambda>c. rbind (pred_key k c s) (\<lambda>(x, c, s). Inr (x, set_child nd i c, s)))))"

fun succ_key :: "nat \<Rightarrow> bnode \<Rightarrow> bpm \<Rightarrow> (field \<times> bnode \<times> bpm) res" where
  "succ_key 0 nd s = Inl Diverges"
| "succ_key (Suc k) nd s =
     (if isLeaf nd then rbind (vec_at (keys nd) 0) (\<lambda>x. Inr (x, nd, s))
      else rbind (if children nd = [] \<or> hd (children nd) = None then
            rbind (vec_at (children_pages_ids nd) 0) (\<lambda>p. rbind (loadNode k p s) (\<lambda>(c, s).
            Inr (set_children nd ((resize_ptrs (length (children_pages_ids nd)) (children nd))[0 := c]), s)))
          else Inr (nd, s)) (\<lambda>(nd, s).
        rbind (child_at nd 0) (\<lambda>c. rbind (succ_key k c s) (\<lambda>(x, c, s). Inr (x, set_child nd 0 c, s)))))"

text \<open>
  What happens at an inner node before the call goes down: the index of the child it goes to and the key
  it removes there. At a node that has the key, and at one that has not.
\<close>

definition remove_hit :: "nat \<Rightarrow> int \<Rightarrow> nat \<Rightarrow> bnode \<Rightarrow> field \<Rightarrow> bpm \<Rightarrow> (nat \<times> field \<times> bnode \<times> bpm) res" where
  "remove_hit k t i nd key s =
     rbind (load_child k (Suc i) nd s) (\<lambda>(nd, s).
     rbind (child_at nd i) (\<lambda>c.
     if size_ge (length (keys c)) t then
       rbind (pred_key k c s) (\<lambda>(x, c, s). Inr (i, x, set_child (set_keys nd ((keys nd)[i := x])) i c, s))
     else rbind (if Suc i < length (children nd) then rbind (child_at nd (Suc i)) (\<lambda>c. Inr (size_ge (length (keys c)) t)) else Inr False) (\<lambda>b.
       if b then rbind (child_at nd (Suc i)) (\<lambda>c. rbind (succ_key k c s) (\<lambda>(x, c, s).
         Inr (Suc i, x, set_child (set_keys nd ((keys nd)[i := x])) (Suc i) c, s)))
       else rbind (merge_nodes nd i s) (\<lambda>(nd, s). Inr (i, key, nd, s)))))"

definition remove_miss :: "nat \<Rightarrow> int \<Rightarrow> nat \<Rightarrow> bnode \<Rightarrow> field \<Rightarrow> bpm \<Rightarrow> (nat \<times> field \<times> bnode \<times> bpm) res" where
  "remove_miss k t i nd key s =
     rbind (if 0 < i then load_sibling k (i - 1) nd s else Inr (nd, s)) (\<lambda>(nd, s).
     rbind (if Suc i < length (children_pages_ids nd) then load_sibling k (Suc i) nd s else Inr (nd, s)) (\<lambda>(nd, s).
     rbind (child_at nd i) (\<lambda>c.
     if size_ge (length (keys c)) t then Inr (i, key, nd, s)
     else
       rbind (if 0 < i then rbind (child_at nd (i - 1)) (\<lambda>c. Inr (size_ge (length (keys c)) t)) else Inr False) (\<lambda>prev.
       if prev then rbind (borrowFromPrev nd i s) (\<lambda>(nd, s). Inr (i, key, nd, s))
       else rbind (if Suc i < length (children nd) then rbind (child_at nd (Suc i)) (\<lambda>c. Inr (size_ge (length (keys c)) t)) else Inr False) (\<lambda>nxt.
       if nxt then rbind (borrowFromNext nd i s) (\<lambda>(nd, s). Inr (i, key, nd, s))
       else if Suc i < length (children nd) then rbind (merge_nodes nd i s) (\<lambda>(nd, s). Inr (i, key, nd, s))
       else rbind (guard_ub (0 < i)) (\<lambda>_. rbind (merge_nodes nd (i - 1) s) (\<lambda>(nd, s). Inr (i - 1, key, nd, s))))))))"

text \<open>\<^verbatim>\<open>find_if\<close> for the first entry with the key.\<close>

fun find_entry :: "field \<Rightarrow> bentry list \<Rightarrow> nat option res" where
  "find_entry key [] = Inr None"
| "find_entry key (e # es) = rbind (field_eq (bkey e) key) (\<lambda>b.
     if b then Inr (Some 0) else rbind (find_entry key es) (\<lambda>i. Inr (map_option Suc i)))"

fun remove_node :: "nat \<Rightarrow> int \<Rightarrow> bnode \<Rightarrow> field \<Rightarrow> bpm \<Rightarrow> (bnode \<times> bpm) res" where
  "remove_node 0 t nd key s = Inl Diverges"
| "remove_node (Suc k) t nd key s =
     (if isLeaf nd then
        rbind (find_entry key (entries nd)) (\<lambda>i. case i of None \<Rightarrow> Inr (nd, s)
        | Some i \<Rightarrow> rbind (erase_at i (entries nd)) (\<lambda>es.
            let nd = sync_keys nd es in rbind (write_node nd s) (\<lambda>s. Inr (nd, s))))
      else
        rbind (lower_bound (\<lambda>x. field_lt False x key) (keys nd)) (\<lambda>i.
        rbind (load_child k i nd s) (\<lambda>(nd, s).
        rbind (if i < length (keys nd) then field_eq (keys nd ! i) key else Inr False) (\<lambda>hit.
        rbind (if hit then remove_hit k t i nd key s else remove_miss k t i nd key s) (\<lambda>(i, key, nd, s).
        rbind (child_at nd i) (\<lambda>c. rbind (remove_node k t c key s) (\<lambda>(c, s).
        let nd = set_child nd i c in rbind (write_node nd s) (\<lambda>s. Inr (nd, s))))))))) "

definition bp_remove :: "nat \<Rightarrow> bplus_tree \<Rightarrow> field \<Rightarrow> bpm \<Rightarrow> (bplus_tree \<times> bpm) res" where
  "bp_remove k tr key s =
     (case root tr of None \<Rightarrow> Inr (tr, s)
      | Some r \<Rightarrow> rbind (remove_node k (degree tr) r key s) (\<lambda>(r, s).
          if keys r = [] \<and> \<not> isLeaf r then rbind (vec_at (children r) 0) (\<lambda>c. Inr (tr\<lparr>root := c\<rparr>, s))
          else Inr (tr\<lparr>root := Some r\<rparr>, s)))"

section \<open>The wrapper\<close>

text \<open>
  src/Storage/Indexing/BPlusTreeIndexWrapper.c++. The column name and the schema that \<^verbatim>\<open>Insert\<close> gets are not
  used. \<^verbatim>\<open>Search\<close> reports a wrong type but searches nevertheless. The destructor saves the tree.
\<close>

record bplus_wrapper =
  BPlusTreeIndex :: bplus_tree
  bw_col_name :: string
  bw_field_type :: FieldType

definition BW_Insert :: "nat \<Rightarrow> (int \<Rightarrow> int) \<Rightarrow> bplus_wrapper \<Rightarrow> field \<Rightarrow> rid \<Rightarrow> bpm \<Rightarrow> (bplus_wrapper \<times> bpm) res" where
  "BW_Insert k jk w f r s =
     (if fieldType f \<noteq> bw_field_type w then Inr (w, s)
      else rbind (bp_insert k jk (BPlusTreeIndex w) f r s) (\<lambda>(tr, s). Inr (w\<lparr>BPlusTreeIndex := tr\<rparr>, s)))"

definition BW_Delete :: "nat \<Rightarrow> bplus_wrapper \<Rightarrow> field \<Rightarrow> bpm \<Rightarrow> (bplus_wrapper \<times> bpm) res" where
  "BW_Delete k w f s =
     (if fieldType f \<noteq> bw_field_type w then Inr (w, s)
      else rbind (bp_remove k (BPlusTreeIndex w) f s) (\<lambda>(tr, s). Inr (w\<lparr>BPlusTreeIndex := tr\<rparr>, s)))"

definition BW_Search :: "nat \<Rightarrow> bplus_wrapper \<Rightarrow> field \<Rightarrow> bpm \<Rightarrow> (rid list \<times> bplus_wrapper \<times> bpm) res" where
  "BW_Search k w f s =
     rbind (findValue k (BPlusTreeIndex w) f s) (\<lambda>(rs, tr, s). Inr (rs, w\<lparr>BPlusTreeIndex := tr\<rparr>, s))"

definition BW_searchRange :: "nat \<Rightarrow> bplus_wrapper \<Rightarrow> field \<Rightarrow> field \<Rightarrow> bpm \<Rightarrow> (rid list \<times> bplus_wrapper \<times> bpm) res" where
  "BW_searchRange k w lo hi s =
     (if fieldType lo \<noteq> bw_field_type w \<or> fieldType hi \<noteq> bw_field_type w then Inr ([RID (- 1) (- 1)], w, s)
      else rbind (rangeQuery k (BPlusTreeIndex w) lo hi s) (\<lambda>(rs, tr, s). Inr (rs, w\<lparr>BPlusTreeIndex := tr\<rparr>, s)))"

definition BW_close :: "nat \<Rightarrow> bplus_wrapper \<Rightarrow> bpm \<Rightarrow> bpm res" where
  "BW_close k w s = rbind (saveBPlusTree k (BPlusTreeIndex w) s) (\<lambda>(tr, s). Inr s)"

section \<open>Properties\<close>

lemma find_entry_last:
  assumes "es \<noteq> []" "oks ty m es" "key_distinct es"
  shows "find_entry (bkey (last es)) es = Inr (Some (length es - 1))"
  using assms
proof (induction es)
  case (Cons e es)
  have ce: "comparable ty (bkey e)" using Cons.prems(2) comp(1)[of ty m e] by simp
  show ?case
  proof (cases "es = []")
    case True
    then show ?thesis using field_cmp_not_same(5)[OF ce ce] field_order.equal_refl[OF ce] by simp
  next
    case False
    then have l: "last es \<in> set es" by simp
    then have cl: "comparable ty (bkey (last es))" using Cons.prems(2) comp(1)[of ty m "last es"] by simp
    have "\<not> fequal (bkey e) (bkey (last es))" using Cons.prems(3) l by (auto simp: key_distinct_def)
    then have "field_eq (bkey e) (bkey (last es)) = Inr False" using field_cmp_not_same(5)[OF ce cl] by simp
    moreover have "find_entry (bkey (last es)) es = Inr (Some (length es - 1))"
      using Cons.IH False Cons.prems(2,3) by (simp add: key_distinct_def)
    ultimately show ?thesis using False by simp
  qed
qed simp

lemma remove_last_entry:
  assumes c: "btree ty m t 0 c" "2 \<le> length (entries c)" "key_distinct (entries c)" and f: "fits m t"
    and p: "1 \<le> curr_page_id c" "curr_page_id c \<le> int n" and s: "pool_ok s n"
  shows "\<exists>c' u. remove_node (Suc k) tt c (bkey (last (entries c))) s = Inr (c', u) \<and> entries c' = butlast (entries c) \<and>
    curr_page_id c' = curr_page_id c \<and> pool_ok u n"
proof -
  let ?es = "entries c"
  have e: "isLeaf c" "oks ty m ?es" "ordered ?es" "?es \<noteq> []" using c(1) by auto
  have f1: "find_entry (bkey (last ?es)) ?es = Inr (Some (length ?es - 1))" by (rule find_entry_last[OF e(4,2) c(3)])
  have er: "erase_at (length ?es - 1) ?es = Inr (butlast ?es)" using e(4) by (simp add: erase_at_def butlast_conv_take)
  let ?c = "sync_keys c (butlast ?es)"
  have b: "btree ty m t 0 ?c"
    using c(1,2) e by (auto simp: setters butlast_conv_take ordered_def sorted_wrt_take dest: in_set_takeD)
  have "node_ok ty m ?c" using btree_node_ok[OF b f, of n] rep_pages[OF s] p by (simp add: setters)
  then obtain u where u: "write_node ?c s = Inr u" "pool_ok u n" using write_stored[OF s, of ty m ?c] p by (auto simp: setters)
  have "remove_node (Suc k) tt c (bkey (last ?es)) s = Inr (?c, u)" using e(1) f1 er u(1) by (simp add: Let_def)
  then show ?thesis using u(2) by (auto simp: setters)
qed

text \<open>
  C22. Removing a key that is a separator deletes the wrong entry: when the leaf to its left has at least as
  many keys as the degree, the last entry of that leaf is removed and the entry with the key stays. Every key
  that starts a leaf after a split is such a key.
\<close>

theorem bplus_remove_wrong_entry:
  assumes r: "inode r (us @ sep # vs) (as @ c # b # bs)" "length us = length as" "length (us @ sep # vs) < 2 * t"
      "in_i32 (next_page_id r)" "length vs = length bs"
    and ks: "\<forall>k \<in> set (us @ sep # vs). key_ok ty m k" "comparable ty key" "\<forall>k \<in> set us. fless k key" "\<forall>k \<in> set vs. kle key k" "fequal sep key"
    and c: "btree ty m t 0 c" "keys c = map bkey (entries c)" "t \<le> length (entries c)" "key_distinct (entries c)" and f: "fits m t"
    and p: "\<forall>x \<in> set (r # as @ c # b # bs). 1 \<le> curr_page_id x \<and> curr_page_id x \<le> int n" and s: "pool_ok s n"
  shows "\<exists>r' u. remove_node (Suc (Suc k)) (int t) r key s = Inr (r', u) \<and>
    contents 1 r = concat (map entries as) @ entries c @ entries b @ concat (map entries bs) \<and>
    contents 1 r' = concat (map entries as) @ butlast (entries c) @ entries b @ concat (map entries bs)"
proof -
  have t: "2 \<le> t" using f by (simp add: fits_def)
  have e: "isLeaf c" "oks ty m (entries c)" "entries c \<noteq> []" using c(1) by auto
  have cmp: "field_lt False k key = Inr (fless k key)" if "k \<in> set (us @ sep # vs)" for k
    using field_cmp_not_same(1)[OF comp(2) ks(2)] ks(1) that by blast
  have nsep: "\<not> fless sep key" using ks(5) by (simp add: fequal_def)
  have "sorted_wrt (\<lambda>a b. fless b key \<longrightarrow> fless a key) us" using ks(3) by (induction us) auto
  moreover have "sorted_wrt (\<lambda>a b. fless b key \<longrightarrow> fless a key) vs" using ks(4) by (induction vs) auto
  ultimately have "sorted_wrt (\<lambda>a b. fless b key \<longrightarrow> fless a key) (us @ sep # vs)"
    using ks(3,4) nsep by (auto simp: sorted_wrt_append)
  from lower_bound_takeWhile[OF cmp this] have "lower_bound (\<lambda>x. field_lt False x key) (us @ sep # vs) = Inr (length (takeWhile (\<lambda>x. fless x key) (us @ sep # vs)))"
    by blast
  moreover have "takeWhile (\<lambda>x. fless x key) (us @ sep # vs) = us" using ks(3) nsep by (subst takeWhile_append2) auto
  ultimately have lb: "lower_bound (\<lambda>x. field_lt False x key) (keys r) = Inr (length as)" using r(1,2) by (simp add: inode_def)
  have r0: "keys r = us @ sep # vs" "children r = map Some (as @ c # b # bs)" "children_pages_ids r = map curr_page_id (as @ c # b # bs)" "\<not> isLeaf r"
    using r(1) by (simp_all add: inode_def)
  have ld: "load_child k (length as) r s = Inr (r, s)" "load_child k (Suc (length as)) r s = Inr (r, s)" for k
    using r0(2,3) by (simp_all add: load_child_def nth_append)
  have hit: "(if length as < length (keys r) then field_eq (keys r ! length as) key else Inr False) = Inr True"
    using r0(1) r(2) field_cmp_not_same(5)[OF comp(2) ks(2), of m sep] ks(1,5) by (simp add: nth_append)
  let ?x = "bkey (last (entries c))"
  let ?r = "set_child (set_keys r (us @ ?x # vs)) (length as) c"
  have cc: "child_at r (length as) = Inr c" by (rule inode_child[OF r(1)])
  have "int t mod 2 ^ 64 \<le> int t" by (rule zmod_le_nonneg_dividend) simp
  then have "size_ge (length (keys c)) (int t)" using c(2,3) unfolding size_ge_def by simp
  moreover have "pred_key (Suc k) c s = Inr (?x, c, s)" using e c(2) by (simp add: vec_back_def last_map)
  ultimately have rh: "remove_hit (Suc k) (int t) (length as) r key s = Inr (length as, ?x, ?r, s)"
    using cc ld(2)[of "Suc k"] r0(1) r(2) by (simp add: remove_hit_def list_update_append)
  have r1: "inode ?r (us @ ?x # vs) (as @ c # b # bs)" "curr_page_id ?r = curr_page_id r" "next_page_id ?r = next_page_id r"
    using r(1) by (simp_all add: inode_def set_child_def setters list_update_append)
  obtain c' u where u: "remove_node (Suc k) (int t) c ?x s = Inr (c', u)" "entries c' = butlast (entries c)" "curr_page_id c' = curr_page_id c" "pool_ok u n"
    using remove_last_entry[OF c(1) _ c(4) f _ _ s, of k "int t"] c(3) t p by auto
  let ?r2 = "set_child ?r (length as) c'"
  have r2: "inode ?r2 (us @ ?x # vs) (as @ c' # b # bs)" "curr_page_id ?r2 = curr_page_id r" "next_page_id ?r2 = next_page_id r"
    using r1 u(3) by (simp_all add: inode_def set_child_def setters list_update_append)
  have "key_ok ty m ?x" using e(2,3) by (simp add: bentry_ok_def)
  then have "node_ok ty m ?r2"
    using r(2,3,4,5) ks(1) p u(3) r2(3) by (intro inode_node_ok[OF r2(1) _ _ _ _ f _ rep_pages[OF s]]) auto
  then obtain v where v: "write_node ?r2 u = Inr v" using write_stored[OF u(4), of ty m ?r2] p r2(2) by auto
  have "remove_node (Suc (Suc k)) (int t) r key s = Inr (?r2, v)"
    using r0(4) lb ld(1)[of "Suc k"] hit rh inode_child[OF r1(1)] u(1) v by (subst remove_node.simps(2)) (simp add: Let_def del: remove_node.simps)
  moreover have c0: "contents 0 = entries" by (rule ext) simp
  then have "contents 1 r = concat (map entries as) @ entries c @ entries b @ concat (map entries bs)"
    using inode_simps(3)[OF r(1), of 0] by (simp add: c0)
  moreover have "contents 1 ?r2 = concat (map entries as) @ butlast (entries c) @ entries b @ concat (map entries bs)"
    using inode_simps(3)[OF r2(1), of 0] u(2) by (simp add: c0)
  ultimately show ?thesis by blast
qed

lemma bplus_remove_wrong_entry_witness:
  "\<exists>d s s1 s2 r u. DiskManager None = Inr d \<and> newPage (BufferPoolManager d) = Inr (1, s) \<and> newPage s = Inr (2, s1) \<and> newPage s1 = Inr (3, s2) \<and>
     remove_node 2 2 (Node False [] [Field_int TYPE_INT 3]
         [Some (Node True [demo_entry 1 0, demo_entry 2 0] [Field_int TYPE_INT 1, Field_int TYPE_INT 2] [] [] 1 2),
          Some (Node True [demo_entry 3 0, demo_entry 4 0] [Field_int TYPE_INT 3, Field_int TYPE_INT 4] [] [] 2 (- 1))] [1, 2] 3 (- 1))
       (Field_int TYPE_INT 3) s2 = Inr (r, u) \<and> contents 1 r = [demo_entry 1 0, demo_entry 3 0, demo_entry 4 0]"
proof -
  let ?c = "Node True [demo_entry 1 0, demo_entry 2 0] [Field_int TYPE_INT 1, Field_int TYPE_INT 2] [] [] 1 2"
  let ?b = "Node True [demo_entry 3 0, demo_entry 4 0] [Field_int TYPE_INT 3, Field_int TYPE_INT 4] [] [] 2 (- 1)"
  let ?r = "Node False [] [Field_int TYPE_INT 3] [Some ?c, Some ?b] [1, 2] 3 (- 1)"
  obtain d s where s: "DiskManager None = Inr d" "newPage (BufferPoolManager d) = Inr (1, s)" "pool_ok s 1" using demo_bplus_pool by blast
  obtain s1 where s1: "newPage s = Inr (2, s1)" "pool_ok s1 2" using pool_new[OF s(3)] by (auto simp: numeral_2_eq_2)
  obtain s2 where s2: "newPage s1 = Inr (3, s2)" "pool_ok s2 3" using pool_new[OF s1(2)] by (auto simp: numeral_3_eq_3)
  have less: "fless (Field_int TYPE_INT i) (Field_int TYPE_INT j) \<longleftrightarrow> i < j" for i j by (simp add: fless_def Field_int_def)
  have eq: "fequal (Field_int TYPE_INT i) (Field_int TYPE_INT j) \<longleftrightarrow> i = j" for i j by (auto simp: fequal_def less)
  have key: "bkey (demo_entry i a) = Field_int TYPE_INT i" for i a by (simp add: demo_entry_def)
  have e: "bentry_ok TYPE_INT 10 (demo_entry 1 0)" "bentry_ok TYPE_INT 10 (demo_entry 2 0)" "bentry_ok TYPE_INT 10 (demo_entry 3 0)"
    by (simp_all add: demo_entry_ok in_i32_def)
  have b: "btree TYPE_INT 10 2 0 ?c" using e(1,2) by (simp add: ordered_def key less in_i32_def)
  have r: "inode ?r ([] @ Field_int TYPE_INT 3 # []) ([] @ ?c # ?b # [])" by (simp add: inode_def)
  have ks: "\<forall>k \<in> set ([] @ Field_int TYPE_INT 3 # []). key_ok TYPE_INT 10 k" using e(3) by (simp add: bentry_ok_def key)
  have kd: "key_distinct (entries ?c)" by (simp add: key_distinct_def key eq)
  have "\<exists>r' u. remove_node (Suc (Suc 0)) (int 2) ?r (Field_int TYPE_INT 3) s2 = Inr (r', u) \<and>
      contents 1 ?r = concat (map entries []) @ entries ?c @ entries ?b @ concat (map entries []) \<and>
      contents 1 r' = concat (map entries []) @ butlast (entries ?c) @ entries ?b @ concat (map entries [])"
    by (rule bplus_remove_wrong_entry[OF r _ _ _ _ ks demo_comparable _ _ _ b _ _ kd demo_fits _ s2(2)]) (simp_all add: in_i32_def key eq)
  then obtain r' u where "remove_node 2 2 ?r (Field_int TYPE_INT 3) s2 = Inr (r', u)" "contents 1 r' = [demo_entry 1 0, demo_entry 3 0, demo_entry 4 0]"
    by (auto simp: numeral_2_eq_2 simp del: remove_node.simps)
  then show ?thesis using s(1,2) s1(1) s2(1) by blast
qed

end
