(* ===== verification/Table_Index.thy ===== *)
theory Table_Index imports Bplus_Remove Hash_Laws
begin

text \<open>
  Indexes behind a table: the wrapper of the hash index (src/Storage/Indexing/StaticHashIndexWrapper.c++),
  the interface \<^verbatim>\<open>Index\<close> (Include/Storage/Indexing/Index.h), the indexes that a \<^verbatim>\<open>TableHeap\<close> keeps
  (createIndex, getIndex, saveMetaData and loadMetaData in src/Storage/Table/TableHeap.c++), and the
  executer that creates and fills an index (src/Q_Execution/create_index_operator.c++).
\<close>

section \<open>The wrapper of the hash index\<close>

record hash_wrapper =
  staticHashIndex :: hash_index
  hw_col_name :: string
  hw_field_type :: FieldType

text \<open>\<^verbatim>\<open>entries*1.0/capacity >= 0.75\<close>; the quotient by 0 is infinite or not a number.\<close>

definition almost_full :: "hash_index \<Rightarrow> bool" where
  "almost_full h \<longleftrightarrow> (if capacity h = 0 then 0 < number_of_entries h else 3 * int (capacity h) \<le> 4 * number_of_entries h)"

definition rehash :: "(string \<Rightarrow> nat) \<Rightarrow> bpm \<Rightarrow> FieldType \<Rightarrow> int \<Rightarrow> hash_index \<Rightarrow> (hash_index \<times> bpm) res" where
  "rehash hs s ft ci h =
     rbind (guard_ub (in_i32 (int (capacity h)) \<and> in_i32 (10 * int (capacity h)))) (\<lambda>_.
     rbind (hashIndex s ft ci (10 * int (capacity h)) (hfirst_page_id h) (hlast_page_id h)) (\<lambda>(g, s).
     rbind (rfold (\<lambda>e g. insertIndex hs g (hkey e) (hrid e)) (concat (hashTable h)) g) (\<lambda>g. Inr (g, s))))"

text \<open>The bytes of a new entry; the array has exactly the size of the entry.\<close>

definition entry_data :: "hash_entry \<Rightarrow> byte list res" where
  "entry_data e =
     (let n = nat (getEntrySize e) in
      rbind (serializeOneEntry e (zero_buf n) 0) (\<lambda>b. Inr (peek (mem b) 0 n)))"

definition HW_Insert :: "(string \<Rightarrow> nat) \<Rightarrow> hash_wrapper \<Rightarrow> field \<Rightarrow> string \<Rightarrow> column list \<Rightarrow> rid \<Rightarrow> bpm \<Rightarrow> (hash_wrapper \<times> bpm) res" where
  "HW_Insert hs w k name cs r s =
     (if fieldType k \<noteq> hw_field_type w then Inr (w, s)
      else
        let h = staticHashIndex w in
        rbind (fetch_frame s (hlast_page_id h)) (\<lambda>(f, _, s).
        rbind (if almost_full h then rehash hs s (hw_field_type w) (int (getColIndex cs name)) h else Inr (h, s)) (\<lambda>(h, s).
        rbind (entry_data (hashEntry k r)) (\<lambda>bs.
        rbind (frame_at s f) (\<lambda>b.
        rbind (Page_insertData b bs (length bs mod 65536)) (\<lambda>(slot, b).
        let s = store_frame s f b in
        rbind (if slot = - 1 then
            rbind (newPage s) (\<lambda>(np, s).
            rbind (frame_at s f) (\<lambda>b.
            rbind (markAsDirty (store_frame s f (set_next_page_id b np)) (int (hdr_page_id b))) (\<lambda>s.
            rbind (fetch_frame s np) (\<lambda>(g, b, s).
            rbind (markAsDirty s np) (\<lambda>s.
            rbind (Page_insertData b bs (length bs mod 65536)) (\<lambda>(_, b).
            Inr (h\<lparr>hlast_page_id := np\<rparr>, store_frame s g b)))))))
          else Inr (h, s)) (\<lambda>(h, s).
        rbind (markAsDirty s (hlast_page_id h)) (\<lambda>s.
        rbind (insertIndex hs h k r) (\<lambda>h. Inr (w\<lparr>staticHashIndex := h\<rparr>, s))))))))))"

definition HW_Delete :: "(string \<Rightarrow> nat) \<Rightarrow> hash_wrapper \<Rightarrow> field \<Rightarrow> hash_wrapper res" where
  "HW_Delete hs w k = rbind (deleteIndex hs (staticHashIndex w) k) (\<lambda>h. Inr (w\<lparr>staticHashIndex := h\<rparr>))"

definition HW_Search :: "(string \<Rightarrow> nat) \<Rightarrow> hash_wrapper \<Rightarrow> field \<Rightarrow> rid list res" where
  "HW_Search hs w k = getValue hs (staticHashIndex w) k"

definition HW_close :: "hash_wrapper \<Rightarrow> bpm \<Rightarrow> bpm res" where
  "HW_close w s = saveIndexMeta s (staticHashIndex w)"

section \<open>The interface\<close>

datatype index = I_Hash hash_wrapper | I_Bplus bplus_wrapper

datatype indexes_t = STATIC_HASH_INDEX | BPLUS_TREE_INDEX

text \<open>\<open>hs\<close> is \<^verbatim>\<open>std::hash<string>\<close>, \<open>k\<close> and \<open>jk\<close> are the fuel and the uninitialised members of the tree.\<close>

fun Index_Insert :: "(string \<Rightarrow> nat) \<Rightarrow> nat \<Rightarrow> (int \<Rightarrow> int) \<Rightarrow> index \<Rightarrow> field \<Rightarrow> string \<Rightarrow> column list \<Rightarrow> rid \<Rightarrow> bpm \<Rightarrow> (index \<times> bpm) res" where
  "Index_Insert hs k jk (I_Hash w) f name cs r s = rbind (HW_Insert hs w f name cs r s) (\<lambda>(w, s). Inr (I_Hash w, s))"
| "Index_Insert hs k jk (I_Bplus w) f name cs r s = rbind (BW_Insert k jk w f r s) (\<lambda>(w, s). Inr (I_Bplus w, s))"

fun Index_Delete :: "(string \<Rightarrow> nat) \<Rightarrow> nat \<Rightarrow> index \<Rightarrow> field \<Rightarrow> bpm \<Rightarrow> (index \<times> bpm) res" where
  "Index_Delete hs k (I_Hash w) f s = rbind (HW_Delete hs w f) (\<lambda>w. Inr (I_Hash w, s))"
| "Index_Delete hs k (I_Bplus w) f s = rbind (BW_Delete k w f s) (\<lambda>(w, s). Inr (I_Bplus w, s))"

fun Index_Search :: "(string \<Rightarrow> nat) \<Rightarrow> nat \<Rightarrow> index \<Rightarrow> field \<Rightarrow> bpm \<Rightarrow> (rid list \<times> index \<times> bpm) res" where
  "Index_Search hs k (I_Hash w) f s = rbind (HW_Search hs w f) (\<lambda>rs. Inr (rs, I_Hash w, s))"
| "Index_Search hs k (I_Bplus w) f s = rbind (BW_Search k w f s) (\<lambda>(rs, w, s). Inr (rs, I_Bplus w, s))"

fun is_type :: "indexes_t \<Rightarrow> index \<Rightarrow> bool" where
  "is_type STATIC_HASH_INDEX (I_Hash _) = True"
| "is_type BPLUS_TREE_INDEX (I_Bplus _) = True"
| "is_type _ _ = False"

section \<open>The indexes of a table\<close>

text \<open>
  \<open>indexes_pages_ids\<close> is a \<^verbatim>\<open>std::map\<close>: its entries are in the order of the keys, which the order of the
  metadata follows. \<open>None\<close> is a null pointer to \<^verbatim>\<open>Index_pages_struct\<close>.
\<close>

record indexed_table =
  heap :: table_heap
  indexes_map :: "string \<Rightarrow> index list option"
  indexes_pages_ids :: "((string \<times> indexes_t) \<times> (int \<times> int) option) list"

definition index_code :: "indexes_t \<Rightarrow> int" where
  "index_code ty = (case ty of STATIC_HASH_INDEX \<Rightarrow> 0 | BPLUS_TREE_INDEX \<Rightarrow> 1)"

definition code_index :: "int \<Rightarrow> indexes_t res" where
  "code_index i = (if i = 0 then Inr STATIC_HASH_INDEX else if i = 1 then Inr BPLUS_TREE_INDEX else Inl Undefined)"

definition pages_less :: "string \<times> indexes_t \<Rightarrow> string \<times> indexes_t \<Rightarrow> bool" where
  "pages_less a b \<longleftrightarrow> str_less (fst a) (fst b) \<or> fst a = fst b \<and> index_code (snd a) < index_code (snd b)"

fun pages_put :: "string \<times> indexes_t \<Rightarrow> (int \<times> int) option \<Rightarrow> ((string \<times> indexes_t) \<times> (int \<times> int) option) list \<Rightarrow>
    ((string \<times> indexes_t) \<times> (int \<times> int) option) list" where
  "pages_put k v [] = [(k, v)]"
| "pages_put k v ((j, w) # ps) =
     (if j = k then (k, v) # ps else if pages_less k j then (k, v) # (j, w) # ps else (j, w) # pages_put k v ps)"

text \<open>\<^verbatim>\<open>operator[]\<close> puts a null pointer when the key is new.\<close>

definition pages_get :: "string \<times> indexes_t \<Rightarrow> indexed_table \<Rightarrow> (int \<times> int) option \<times> indexed_table" where
  "pages_get k t =
     (case map_of (indexes_pages_ids t) k of Some v \<Rightarrow> (v, t)
      | None \<Rightarrow> (None, t\<lparr>indexes_pages_ids := pages_put k None (indexes_pages_ids t)\<rparr>))"

definition push_index :: "string \<Rightarrow> index \<Rightarrow> indexed_table \<Rightarrow> indexed_table" where
  "push_index name ix t =
     t\<lparr>indexes_map := (indexes_map t)(name := Some ((case indexes_map t name of None \<Rightarrow> [] | Some v \<Rightarrow> v) @ [ix]))\<rparr>"

definition getIndex :: "indexed_table \<Rightarrow> string \<Rightarrow> indexes_t \<Rightarrow> index option" where
  "getIndex t name ty = (case indexes_map t name of None \<Rightarrow> None | Some v \<Rightarrow> find (is_type ty) v)"

text \<open>
  The type of the indexed column, \<open>ft0\<close> when there is none and the variable stays uninitialised: the first
  column with the name for a hash index, the last one for a tree.
\<close>

definition first_type :: "FieldType \<Rightarrow> string \<Rightarrow> column list \<Rightarrow> FieldType" where
  "first_type ft0 name cs = (case find (\<lambda>c. col_name c = name) cs of None \<Rightarrow> ft0 | Some c \<Rightarrow> col_type c)"

definition createIndex :: "FieldType \<Rightarrow> indexes_t \<Rightarrow> string \<Rightarrow> int \<Rightarrow> indexed_table \<Rightarrow> bpm \<Rightarrow> (indexed_table \<times> bpm) res" where
  "createIndex ft0 ty name sz t s =
     (let (ps, t) = pages_get (name, ty) t;
          fp = (case ps of None \<Rightarrow> - 1 | Some (p, _) \<Rightarrow> p);
          cs = cols (heap t) in
      case getIndex t name ty of Some _ \<Rightarrow> Inr (t, s)
      | None \<Rightarrow> (case ty of
          STATIC_HASH_INDEX \<Rightarrow>
            let ft = first_type ft0 name cs in
            rbind (hashIndex s ft (int (getColIndex cs name)) sz fp (- 1)) (\<lambda>(h, s).
            let t = push_index name (I_Hash \<lparr>staticHashIndex = h, hw_col_name = name, hw_field_type = ft\<rparr>) t in
            Inr (t\<lparr>indexes_pages_ids := pages_put (name, ty) (Some (hfirst_page_id h, hlast_page_id h)) (indexes_pages_ids t)\<rparr>, s))
        | BPLUS_TREE_INDEX \<Rightarrow>
            let ft = first_type ft0 name (rev cs) in
            rbind (newPage s) (\<lambda>(p, s).
            let w = \<lparr>BPlusTreeIndex = \<lparr>root = None, degree = sz, meta_page_id = p\<rparr>, bw_col_name = name, bw_field_type = ft\<rparr>;
                t = push_index name (I_Bplus w) t in
            Inr (t\<lparr>indexes_pages_ids := pages_put (name, ty) (Some (p, - 1)) (indexes_pages_ids t)\<rparr>, s))))"

section \<open>Metadata with the indexes\<close>

fun write_indexes :: "column list \<Rightarrow> ((string \<times> indexes_t) \<times> (int \<times> int) option) list \<Rightarrow> buf \<Rightarrow> nat \<Rightarrow> buf res" where
  "write_indexes cs [] b off = Inr b"
| "write_indexes cs (((name, ty), ps) # xs) b off =
     rbind (memcpy_to b off (i32_bytes (int (getColIndex cs name)))) (\<lambda>b.
     rbind (memcpy_to b (off + 4) (i32_bytes (index_code ty))) (\<lambda>b.
     rbind (get_or_ub ps) (\<lambda>(p, q).
     rbind (memcpy_to b (off + 8) (i32_bytes p)) (\<lambda>b.
     rbind (memcpy_to b (off + 12) (i32_bytes q)) (\<lambda>b. write_indexes cs xs b (off + 16))))))"

definition heap_saveMetaData :: "indexed_table \<Rightarrow> bpm \<Rightarrow> bpm res" where
  "heap_saveMetaData t s =
     (let h = heap t; off = 14 + table_meta_size h in
      rbind (fetch_frame s (first_page_id h)) (\<lambda>(f, b, s).
      rbind (write_table_meta h b 14) (\<lambda>b.
      rbind (memcpy_to b off (i32_bytes (int (length (indexes_pages_ids t))))) (\<lambda>b.
      rbind (write_indexes (cols h) (indexes_pages_ids t) b (off + 4)) (\<lambda>b.
      markAsDirty (store_frame s f b) (first_page_id h))))))"

text \<open>
  Loading an index reads other pages, so the frame behind the buffer may be given to another page while the
  loop still reads from it. The tree is created with degree 7, which loading replaces.
\<close>

definition load_index :: "(string \<Rightarrow> nat) \<Rightarrow> nat \<Rightarrow> nat \<Rightarrow> table_heap \<Rightarrow> column \<Rightarrow> indexes_t \<Rightarrow> int \<Rightarrow> bpm \<Rightarrow> (index \<times> bpm) res" where
  "load_index hs m k h c ty fp s =
     (case ty of
        STATIC_HASH_INDEX \<Rightarrow>
          rbind (hashIndex s (col_type c) 1 1 1 (- 1)) (\<lambda>(g, s).
          rbind (loadIndexMeta s (g\<lparr>hfirst_page_id := fp\<rparr>)) (\<lambda>(g, s).
          rbind (load_hash_table m hs s g (first_page_id h)) (\<lambda>(g, s).
          Inr (I_Hash \<lparr>staticHashIndex = g, hw_col_name = col_name c, hw_field_type = col_type c\<rparr>, s))))
      | BPLUS_TREE_INDEX \<Rightarrow>
          rbind (loadBPlusTree k \<lparr>root = None, degree = 7, meta_page_id = fp\<rparr> s) (\<lambda>(tr, s).
          Inr (I_Bplus \<lparr>BPlusTreeIndex = tr, bw_col_name = col_name c, bw_field_type = col_type c\<rparr>, s)))"

fun read_indexes :: "(string \<Rightarrow> nat) \<Rightarrow> nat \<Rightarrow> nat \<Rightarrow> nat \<Rightarrow> int \<Rightarrow> nat \<Rightarrow> indexed_table \<Rightarrow> bpm \<Rightarrow> (indexed_table \<times> bpm) res" where
  "read_indexes hs m k 0 f off t s = Inr (t, s)"
| "read_indexes hs m k (Suc n) f off t s =
     rbind (frame_at s f) (\<lambda>b.
     rbind (memcpy_from b off 4) (\<lambda>ci.
     rbind (vec_at_int (cols (heap t)) (i32_val ci)) (\<lambda>c.
     rbind (memcpy_from b (off + 4) 4) (\<lambda>ty.
     rbind (memcpy_from b (off + 8) 4) (\<lambda>p.
     rbind (memcpy_from b (off + 12) 4) (\<lambda>q.
     rbind (code_index (i32_val ty)) (\<lambda>ty.
     let t = t\<lparr>indexes_pages_ids := pages_put (col_name c, ty) (Some (i32_val p, i32_val q)) (indexes_pages_ids t)\<rparr> in
     rbind (load_index hs m k (heap t) c ty (i32_val p) s) (\<lambda>(ix, s).
     read_indexes hs m k n f (off + 16) (push_index (col_name c) ix t) s))))))))"

definition heap_loadMetaData :: "(string \<Rightarrow> nat) \<Rightarrow> nat \<Rightarrow> nat \<Rightarrow> indexed_table \<Rightarrow> bpm \<Rightarrow> (indexed_table \<times> bpm) res" where
  "heap_loadMetaData hs m k t s =
     rbind (fetch_frame s (first_page_id (heap t))) (\<lambda>(f, b, s).
     rbind (read_table_meta (heap t) b 14) (\<lambda>h.
     let off = 14 + table_meta_size (h\<lparr>cols := drop (length (cols (heap t))) (cols h)\<rparr>) in
     rbind (memcpy_from b off 4) (\<lambda>n.
     rbind (read_indexes hs m k (nat (i32_val n)) f (off + 4) (t\<lparr>heap := h, indexes_map := \<lambda>_. None\<rparr>) s) (\<lambda>(t, s).
     rbind (setAllRIDs m s (first_page_id (heap t))) (\<lambda>(rs, s).
     Inr (t\<lparr>heap := (heap t)\<lparr>table_rids := rs\<rparr>\<rparr>, s))))))"

text \<open>The two ways to construct a table heap.\<close>

definition TableHeap :: "(string \<Rightarrow> nat) \<Rightarrow> nat \<Rightarrow> nat \<Rightarrow> int \<Rightarrow> int \<Rightarrow> int \<Rightarrow> bpm \<Rightarrow> (indexed_table \<times> bpm) res" where
  "TableHeap hs m k tid fp lp s =
     (if fp = - 1 \<and> lp = - 1 then
        rbind (new_table s tid) (\<lambda>(h, s). Inr (\<lparr>heap = h, indexes_map = \<lambda>_. None, indexes_pages_ids = []\<rparr>, s))
      else heap_loadMetaData hs m k \<lparr>heap = (blank_table tid)\<lparr>first_page_id := fp\<rparr>, indexes_map = \<lambda>_. None, indexes_pages_ids = []\<rparr> s)"

section \<open>CREATE INDEX\<close>

text \<open>
  The loop over the rows. The index that is filled is the first one of the column, whatever its type, and it
  is cast to the wrapper of the hash index.
\<close>

fun fill_index :: "nat \<Rightarrow> (string \<Rightarrow> nat) \<Rightarrow> string \<Rightarrow> column list \<Rightarrow> table_iterator \<Rightarrow> hash_wrapper \<Rightarrow> bpm \<Rightarrow> (hash_wrapper \<times> bpm) res" where
  "fill_index 0 hs name cs it w s = Inl Diverges"
| "fill_index (Suc n) hs name cs it w s =
     (if it_end it then Inr (w, s)
      else rbind (it_deref s it) (\<lambda>(tup, s).
        rbind (if getColIndex cs name < length cs then
            rbind (vec_at (tfields tup) (getColIndex cs name)) (\<lambda>x. HW_Insert hs w x name cs (it_curr it) s)
          else Inr (w, s)) (\<lambda>(w, s).
        rbind (it_next s it) (\<lambda>(it, s). fill_index n hs name cs it w s))))"

definition CreateIndex :: "nat \<Rightarrow> (string \<Rightarrow> nat) \<Rightarrow> FieldType \<Rightarrow> indexes_t \<Rightarrow> string \<Rightarrow> int \<Rightarrow> indexed_table \<Rightarrow> bpm \<Rightarrow> (indexed_table \<times> bpm) res" where
  "CreateIndex n hs ft0 ty name sz t s =
     rbind (createIndex ft0 ty name sz t s) (\<lambda>(t, s).
     rbind (get_or_ub (indexes_map t name)) (\<lambda>v.
     rbind (vec_at v 0) (\<lambda>ix.
     let h = heap t in
     rbind (TableIterator s (starting_rid h) (stopping_rid h)) (\<lambda>(it, s).
     case ix of
       I_Bplus _ \<Rightarrow> if it_end it then Inr (t, s) else Inl Undefined
     | I_Hash w \<Rightarrow> rbind (fill_index n hs name (cols h) it w s) (\<lambda>(w, s).
         Inr (t\<lparr>indexes_map := (indexes_map t)(name := Some (v[0 := I_Hash w]))\<rparr>, s))))))"

section \<open>A hash index across a restart\<close>

definition index_meta :: "hash_index \<Rightarrow> byte list" where
  "index_meta h = i32_bytes (hlast_page_id h) @ i32_bytes (number_of_entries h) @ u64_bytes (capacity h) @
     i32_bytes (type_code (hfield_type h)) @ i32_bytes (hcol_index h)"

lemma code_type_code [simp]: "code_type (type_code t) = Inr t"
  by (cases t) (simp_all add: type_code_def code_type_def)

lemma in_i32_type_code: "in_i32 (type_code t)"
  by (cases t) (simp_all add: type_code_def in_i32_def)

lemma length_index_meta [simp]: "length (index_meta h) = 24"
  by (simp add: index_meta_def)

lemma put_index_meta:
  "put (put (put (put (put m 14 (i32_bytes (hlast_page_id h))) 18 (i32_bytes (number_of_entries h))) 22 (u64_bytes (capacity h)))
     30 (i32_bytes (type_code (hfield_type h)))) 34 (i32_bytes (hcol_index h)) = put m 14 (index_meta h)"
  using put_put_append[of m 14 "i32_bytes (hlast_page_id h)" "i32_bytes (number_of_entries h)"]
    put_put_append[of m 14 "i32_bytes (hlast_page_id h) @ i32_bytes (number_of_entries h)" "u64_bytes (capacity h)"]
    put_put_append[of m 14 "i32_bytes (hlast_page_id h) @ i32_bytes (number_of_entries h) @ u64_bytes (capacity h)"
      "i32_bytes (type_code (hfield_type h))"]
    put_put_append[of m 14 "i32_bytes (hlast_page_id h) @ i32_bytes (number_of_entries h) @ u64_bytes (capacity h) @
      i32_bytes (type_code (hfield_type h))" "i32_bytes (hcol_index h)"]
  by (simp add: index_meta_def)

lemma saveIndexMeta_writes:
  assumes s: "bpm_inv s n {}" and q: "hfirst_page_id h = int q" "1 \<le> q" "q \<le> n"
  shows "\<exists>u. saveIndexMeta s h = Inr u \<and> bpm_inv u n {} \<and> (\<forall>p. 1 \<le> p \<and> p \<le> n \<and> p \<noteq> q \<longrightarrow> view u p = view s p) \<and>
    peek (mem (view u q)) 14 24 = index_meta h"
proof -
  obtain f u where u: "fetchPage s (int q) = Inr (Some f, u)" "frame_at u f = Inr (view s q)" "bpm_inv u n {}" "same_views n s u" "cached u q f"
    using fetchPage_inv[OF s q(2,3)] by (auto simp: cached_def)
  let ?b = "(view s q)\<lparr>mem := put (mem (view s q)) 14 (index_meta h)\<rparr>"
  have cn: "canon (view s q)" by (rule view_canon[OF s])
  then have b: "canon ?b" by (simp add: canon_def PAGE_SIZE_def)
  obtain v where v: "markAsDirty (store_frame u f ?b) (int q) = Inr v" "bpm_inv v n {}" "view v = (view u)(q := ?b)"
    using mark_written[OF u(3,5) b] by blast
  have "saveIndexMeta s h = Inr v"
    using u(1,2) v(1) q(1) cn by (simp add: saveIndexMeta_def memcpy_to_def canon_def PAGE_SIZE_def put_index_meta)
  moreover have "peek (mem ?b) 14 24 = index_meta h" using peek_put_same[of "mem (view s q)" 14 "index_meta h"] by simp
  ultimately show ?thesis using v(2,3) u(4) by (auto simp: same_views_def)
qed

lemma loadIndexMeta_reads:
  assumes s: "bpm_inv s n {}" and q: "hfirst_page_id g = int q" "1 \<le> q" "q \<le> n"
    and pk: "peek (mem (view s q)) 14 24 = index_meta h"
    and h: "in_i32 (hlast_page_id h)" "in_i32 (number_of_entries h)" "capacity h < 2 ^ 64" "in_i32 (hcol_index h)"
  shows "\<exists>u. loadIndexMeta s g = Inr (g\<lparr>hlast_page_id := hlast_page_id h, number_of_entries := number_of_entries h,
      capacity := capacity h, hfield_type := hfield_type h, hcol_index := hcol_index h\<rparr>, u) \<and> bpm_inv u n {} \<and> same_views n s u"
proof -
  obtain f u where u: "fetchPage s (int q) = Inr (Some f, u)" "frame_at u f = Inr (view s q)" "bpm_inv u n {}" "same_views n s u"
    using fetchPage_inv[OF s q(2,3)] by blast
  have cn: "canon (view s q)" by (rule view_canon[OF s])
  note c = peek_conc[of "mem (view s q)"]
  have "peek (mem (view s q)) 14 (length (index_meta h)) = index_meta h" using pk by simp
  note p1 = c[OF this[unfolded index_meta_def]]
  note p2 = c[OF p1(2)] note p3 = c[OF p2(2)] note p4 = c[OF p3(2)]
  have "memcpy_from (view s q) 14 4 = Inr (i32_bytes (hlast_page_id h))" "memcpy_from (view s q) 18 4 = Inr (i32_bytes (number_of_entries h))"
    "memcpy_from (view s q) 22 8 = Inr (u64_bytes (capacity h))" "memcpy_from (view s q) 30 4 = Inr (i32_bytes (type_code (hfield_type h)))"
    "memcpy_from (view s q) 34 4 = Inr (i32_bytes (hcol_index h))"
    using p1(1) p2(1) p3(1) p4 cn by (simp_all add: memcpy_from_def canon_def PAGE_SIZE_def)
  then show ?thesis using u q(1) h in_i32_type_code by (simp add: loadIndexMeta_def)
qed

lemma table_wf_beside:
  assumes wf: "table_wf s n t p0 ps es" and u: "bpm_inv u n {}" and q: "q \<notin> set (p0 # ps)"
    and v: "\<forall>p. 1 \<le> p \<and> p \<le> n \<and> p \<noteq> q \<longrightarrow> view u p = view s p"
  shows "table_wf u n t p0 ps es"
proof -
  have v': "view u p = view s p" if "p \<in> set (p0 # ps)" for p using v table_wfD(6)[OF wf that] q that by metis
  then have "links (view u) (p0 # ps)" using table_wfD(7)[OF wf] links_cong[of "p0 # ps" "view u" "view s"] by simp
  moreover have "\<forall>p \<in> set ps. page_wf (view u p) (es p)" using table_wfD(9)[OF wf] v' by simp
  ultimately show ?thesis
    unfolding table_wf_def using u table_wfD(2-6,8)[OF wf] v'[of p0] by simp
qed

text \<open>
  C16. The metadata of a hash index is saved on the first page of the index, which is no page of the table;
  loading it with the table (as \<^verbatim>\<open>TableHeap::loadMetaData\<close> does, which starts from an index with one bucket) gives
  an index with the saved number of buckets in which a search returns the addresses of exactly the visible rows
  whose indexed column equals the key, in chain order. The saved counter is kept and every row counted again.
\<close>

theorem hash_index_saved_and_loaded:
  assumes wf: "table_wf s n t p0 ps es" and q: "hfirst_page_id h = int q" "1 \<le> q" "q \<le> n" "q \<notin> set (p0 # ps)"
    and h: "hfield_type h = ty" "hcol_index h = int ci" "0 < capacity h" "capacity h < 2 ^ 64"
      "in_i32 (hlast_page_id h)" "in_i32 (number_of_entries h)" "in_i32 (int ci)"
    and keys: "\<forall>p \<in> set ps. \<forall>e \<in> set (es p). keyed ty ci e" and m: "Suc (length ps) < m"
  shows "\<exists>u w v. saveIndexMeta s h = Inr u \<and> load_index hs m k t c STATIC_HASH_INDEX (int q) u = Inr (I_Hash w, v) \<and>
    table_wf v n t p0 ps es \<and> capacity (staticHashIndex w) = capacity h \<and> hfirst_page_id (staticHashIndex w) = int q \<and>
    hlast_page_id (staticHashIndex w) = hlast_page_id h \<and>
    number_of_entries (staticHashIndex w) = number_of_entries h + int (length (concat (hashTable (staticHashIndex w)))) \<and>
    (\<forall>key. hash_key ty key \<longrightarrow> HW_Search hs w key = Inr (matches ci key ps es))"
proof -
  obtain u where u: "saveIndexMeta s h = Inr u" "bpm_inv u n {}" "\<forall>p. 1 \<le> p \<and> p \<le> n \<and> p \<noteq> q \<longrightarrow> view u p = view s p"
    "peek (mem (view u q)) 14 24 = index_meta h"
    using saveIndexMeta_writes[OF table_wfD(1)[OF wf] q(1-3)] by blast
  have wfu: "table_wf u n t p0 ps es" by (rule table_wf_beside[OF wf u(2) q(4) u(3)])
  obtain g where g: "hashIndex u (col_type c) 1 1 1 (- 1) = Inr (g, u)" "hashTable g = [[]]"
    by (simp add: hashIndex_def)
  let ?g = "g\<lparr>hfirst_page_id := int q, hlast_page_id := hlast_page_id h, number_of_entries := number_of_entries h,
      capacity := capacity h, hfield_type := hfield_type h, hcol_index := hcol_index h\<rparr>"
  have "in_i32 (hcol_index h)" using h(2,7) by simp
  from loadIndexMeta_reads[OF u(2) _ q(2,3) u(4) h(5,6,4) this, of "g\<lparr>hfirst_page_id := int q\<rparr>"]
  obtain x where x: "loadIndexMeta u (g\<lparr>hfirst_page_id := int q\<rparr>) = Inr (?g, x)" "bpm_inv x n {}" "same_views n u x" by auto
  have wfx: "table_wf x n t p0 ps es" by (rule table_wf_same[OF wfu x(2) _ x(3)]) simp_all
  obtain j v where j: "load_hash_table m hs x ?g (first_page_id t) = Inr (j, v)" "table_wf v n t p0 ps es" "hash_frame j = hash_frame ?g"
    "number_of_entries j = number_of_entries ?g + int (length (concat (hashTable j)))"
    "\<forall>key. hash_key ty key \<longrightarrow> getValue hs j key = Inr (matches ci key ps es)"
    using load_fresh_table[OF wfx, of ?g ci ty m hs] g(2) h(2,3) keys m by auto
  have "load_index hs m k t c STATIC_HASH_INDEX (int q) u =
      Inr (I_Hash \<lparr>staticHashIndex = j, hw_col_name = col_name c, hw_field_type = col_type c\<rparr>, v)"
    using g(1) x(1) j(1) by (simp add: load_index_def)
  then show ?thesis using u(1) j(2-5) by (auto simp: hash_frame_def HW_Search_def)
qed

lemma demo_beside:
  "\<exists>(s :: bpm) t e. table_wf s 3 t 1 [2] (\<lambda>p. if p = 2 then [e] else []) \<and> visible e \<and> e_tuple e = demo_tuple"
proof -
  obtain t u where t: "table_wf u 2 t 1 [2] (\<lambda>_. [])" "in_i32 (2 * dm_capacity (disk u) * int PAGE_SIZE)" "view u 2 = Page 2"
    using demo_table by blast
  obtain x where x: "bpm_inv x 3 {}" "same_views 2 u x" using newPage_inv[OF table_wfD(1)[OF t(1)] t(2)] by (auto simp: numeral_3_eq_3)
  have wf: "table_wf x 3 t 1 [2] (\<lambda>_. [])" by (rule table_wf_same[OF t(1) x(1) _ x(2)]) simp_all
  have "view x 2 = Page 2" using x(2) t(3) by (simp add: same_views_def)
  then have f: "fits_in (view x (last [2])) ((\<lambda>_. []) (last [2 :: nat])) demo_tuple" using empty_page_fits[of 2] by simp
  let ?e = "new_entry (hdr_free (view x 2)) demo_tuple"
  obtain t' u' where "table_wf u' 3 t' 1 [2] ((\<lambda>_. [])(2 := [?e]))"
    using insertTuple_with_room[OF wf demo_tuple_fits(1) f] by auto
  moreover have "(\<lambda>_. [])(2 := [?e]) = (\<lambda>p :: nat. if p = 2 then [?e] else [])" by auto
  moreover have "visible ?e" "e_tuple ?e = demo_tuple" using demo_tuple_fits(2) by (simp_all add: new_entry_def visible_def)
  ultimately show ?thesis by auto
qed

lemma hash_index_saved_and_loaded_witness:
  "\<exists>s (t :: table_heap) u w v c. saveIndexMeta s (demo_index\<lparr>hfirst_page_id := 3\<rparr>) = Inr u \<and>
     load_index length 3 0 t c STATIC_HASH_INDEX 3 u = Inr (I_Hash w, v) \<and> capacity (staticHashIndex w) = 2 \<and>
     HW_Search length w (Field_int TYPE_INT 7) = Inr [RID 2 0]"
proof -
  obtain x :: bpm and t e where wf: "table_wf x 3 t 1 [2] (\<lambda>p. if p = 2 then [e] else [])" "visible e" "e_tuple e = demo_tuple"
    using demo_beside by blast
  let ?es = "\<lambda>p :: nat. if p = 2 then [e] else []" and ?h = "demo_index\<lparr>hfirst_page_id := 3\<rparr>"
  have k: "key_at 0 e = Field_int TYPE_INT 7" "hash_key TYPE_INT (Field_int TYPE_INT 7)" "0 < length (tfields (e_tuple e))"
    using wf(3) by (simp_all add: key_at_def demo_tuple_def Tuple_def demo_key in_i32_def)
  have mt: "matches 0 (Field_int TYPE_INT 7) [2] ?es = [RID 2 0]" using k(1) wf(2) by (simp add: matches_def page_matches_def demo_key)
  have keys: "\<forall>p \<in> set [2 :: nat]. \<forall>e \<in> set (?es p). keyed TYPE_INT 0 e" using k by (simp add: keyed_def)
  have h: "hfirst_page_id ?h = int 3" "hfield_type ?h = TYPE_INT" "hcol_index ?h = int 0" "0 < capacity ?h" "capacity ?h < 2 ^ 64"
    "in_i32 (hlast_page_id ?h)" "in_i32 (number_of_entries ?h)" "in_i32 (int 0)" "capacity ?h = 2"
    by (simp_all add: demo_index_def in_i32_def)
  obtain u w v where "saveIndexMeta x ?h = Inr u" "load_index length 3 0 t undefined STATIC_HASH_INDEX (int 3) u = Inr (I_Hash w, v)"
    "capacity (staticHashIndex w) = capacity ?h" "\<forall>key. hash_key TYPE_INT key \<longrightarrow> HW_Search length w key = Inr (matches 0 key [2] ?es)"
    using hash_index_saved_and_loaded[OF wf(1) h(1) _ _ _ h(2-8) keys, of 3 length 0 undefined] by auto
  then show ?thesis using k(2) mt h(9) by fastforce
qed

section \<open>Growing the hash table\<close>

lemma rfold_map: "rfold f (map g xs) s = rfold (\<lambda>x. f (g x)) xs s"
  by (induction xs arbitrary: s) (auto intro: rbind_cong)

text \<open>
  C23. Growing a hash index, which the wrapper does before an insertion when three quarters of the buckets'
  number are used, changes the result of no search: the new table has ten times the buckets and every key has
  the same addresses in the same order.
\<close>

theorem rehash_preserves_search:
  assumes h: "hash_ok hs t h" and fp: "hfirst_page_id h \<noteq> - 1" and c: "in_i32 (10 * int (capacity h))"
  shows "\<exists>g. rehash hs s t ci h = Inr (g, s) \<and> hash_ok hs t g \<and> capacity g = 10 * capacity h \<and>
    number_of_entries g = number_of_entries h \<and> hfirst_page_id g = hfirst_page_id h \<and>
    (\<forall>k. hash_key t k \<longrightarrow> getValue hs g k = getValue hs h k)"
proof -
  let ?n = "10 * capacity h" and ?es = "concat (hashTable h)"
  let ?g = "\<lparr>hashTable = replicate ?n [], hfield_type = t, hcol_index = ci, number_of_entries = 0, hfirst_page_id = hfirst_page_id h,
    hlast_page_id = hlast_page_id h, capacity = ?n\<rparr>"
  have c0: "0 < capacity h" "length (hashTable h) = capacity h" using hash_okD(1,2)[OF h] by auto
  have "in_i32 (int (capacity h))" using c by (simp add: in_i32_def)
  moreover have "nat (10 * int (capacity h)) = ?n" by simp
  ultimately have g0: "hashIndex s t ci (10 * int (capacity h)) (hfirst_page_id h) (hlast_page_id h) = Inr (?g, s)"
    using fp c0 by (simp add: hashIndex_def Let_def)
  have ok: "hash_ok hs t ?g" using c0 by (simp add: hash_ok_def chain_ok_def)
  have keys: "hash_key t (hkey e)" if e: "e \<in> set ?es" for e
  proof -
    obtain b where "b \<in> set (hashTable h)" "e \<in> set b" using e by auto
    then obtain i where "i < capacity h" "e \<in> set (hashTable h ! i)" using c0(2) by (auto simp: in_set_conv_nth)
    then show ?thesis using hash_okD(5)[OF h] by blast
  qed
  let ?kvs = "map (\<lambda>e. (hkey e, hrid e)) ?es"
  have "\<forall>p \<in> set ?kvs. hash_key t (fst p)" using keys by auto
  from hash_index.insert_all[OF ok this] obtain g where g: "rfold (\<lambda>p h. insertIndex hs h (fst p) (snd p)) ?kvs ?g = Inr g" "hash_ok hs t g"
    "\<And>k. hash_key t k \<Longrightarrow> getValue hs g k = Inr (hash_look ?g k @ map snd (filter (\<lambda>p. fequal (fst p) k) ?kvs))" by blast
  have r: "rfold (\<lambda>e g. insertIndex hs g (hkey e) (hrid e)) ?es ?g = Inr g" using g(1) unfolding rfold_map by simp
  have inv: "capacity j = ?n \<and> hfirst_page_id j = hfirst_page_id h \<and> number_of_entries j = int (length xs)"
    if "rfold (\<lambda>e g. insertIndex hs g (hkey e) (hrid e)) xs ?g = Inr j" for xs j
    using that
  proof (induction xs arbitrary: j rule: rev_induct)
    case (snoc x xs)
    obtain i where i: "rfold (\<lambda>e g. insertIndex hs g (hkey e) (hrid e)) xs ?g = Inr i" "insertIndex hs i (hkey x) (hrid x) = Inr j"
      using snoc.prems unfolding rfold_append rbind_eq_Inr by (auto simp: rbind_eq_Inr rfold_Nil)
    show ?case using snoc.IH[OF i(1)] i(2) unfolding insertIndex_def rbind_eq_Inr by auto
  qed simp
  have "rehash hs s t ci h = Inr (g, s)" using g0 r c \<open>in_i32 (int (capacity h))\<close> by (simp add: rehash_def)
  moreover have "getValue hs g k = getValue hs h k" if k: "hash_key t k" for k
  proof -
    have "hash_look ?g k = []" by (simp add: hash_look_def)
    moreover have "map snd (filter (\<lambda>p. fequal (fst p) k) ?kvs) = hash_look h k" by (simp add: hash_look_def filter_map comp_def)
    ultimately show ?thesis using g(3)[OF k] hash_index.find[OF h k] by simp
  qed
  ultimately show ?thesis using g(2) inv[OF r] hash_okD(3)[OF h] by auto
qed

lemma rehash_preserves_search_witness:
  "\<forall>s. \<exists>h g. insertIndex length demo_index (Field_int TYPE_INT 1) (RID 2 0) = Inr h \<and> rehash length s TYPE_INT 0 h = Inr (g, s) \<and>
     capacity g = 20 \<and> getValue length g (Field_int TYPE_INT 1) = getValue length h (Field_int TYPE_INT 1)"
proof -
  have k: "hash_key TYPE_INT (Field_int TYPE_INT 1)" by (simp add: demo_key in_i32_def)
  obtain h where h: "insertIndex length demo_index (Field_int TYPE_INT 1) (RID 2 0) = Inr h" "hash_ok length TYPE_INT h"
    using hash_index.ins[OF demo_index(2) k] by blast
  then have "capacity h = 2" "hfirst_page_id h = 5" by (auto simp: insertIndex_def rbind_eq_Inr demo_index_def)
  then have c: "hfirst_page_id h \<noteq> - 1" "in_i32 (10 * int (capacity h))" "capacity h = 2" by (auto simp: in_i32_def)
  show ?thesis
  proof
    fix s
    obtain g where g: "rehash length s TYPE_INT 0 h = Inr (g, s)" "capacity g = 10 * capacity h"
      "\<forall>k. hash_key TYPE_INT k \<longrightarrow> getValue length g k = getValue length h k"
      using rehash_preserves_search[OF h(2) c(1,2), of s 0] by blast
    show "\<exists>h g. insertIndex length demo_index (Field_int TYPE_INT 1) (RID 2 0) = Inr h \<and> rehash length s TYPE_INT 0 h = Inr (g, s) \<and>
      capacity g = 20 \<and> getValue length g (Field_int TYPE_INT 1) = getValue length h (Field_int TYPE_INT 1)"
      by (intro exI[of _ h] exI[of _ g] conjI) (use h(1) g k c in auto)
  qed
qed

end
