(* ===== verification/Catalog_Model.thy ===== *)
theory Catalog_Model imports Table_Index Table_Props "HOL-Library.AList"
begin

text \<open>
  The catalog (src/Catalog/Catalog.c++, Include/Catalog/Catalog.h): the tables of a database with their
  constraints and indexes, and the pages of a second file that hold them. The first page has the counters;
  the description of the k-th table created is on page \<open>k + 1\<close>.

  A \<^verbatim>\<open>TableInfo*\<close> is a position in \<open>infos\<close>, which both maps share; an object is never freed. The order in
  which an \<^verbatim>\<open>unordered_map\<close> is visited is an argument of the operations that depend on it.
\<close>

section \<open>Data\<close>

record index_info =
  ix_name :: string
  ix_column :: string
  ix_type :: indexes_t
  ix_root_page :: int

record fk_info =
  fk_column_ids :: "nat list"
  referenced_table_id :: int
  referenced_column_ids :: "nat list"

record table_info =
  info_name :: string
  info_id :: int
  info_schema :: "column list"
  info_first_page :: int
  info_heap :: indexed_table
  info_indexes :: "index_info list"
  foreign_keys :: "fk_info list"
  unique_constraints :: "nat list list"
  primary_key_columns :: "nat list"

record catalog =
  infos :: "table_info list"
  tables :: "(string \<times> nat) list"
  tables_ids_map :: "(int \<times> nat) list"
  catalog_BPM :: bpm
  DB_BPM :: bpm
  next_table_id :: int
  catalog_first_page_id :: int

section \<open>Byte formats\<close>

text \<open>
  \<^verbatim>\<open>getSize\<close> returns the member \<^verbatim>\<open>offset\<close>, which \<^verbatim>\<open>serializeIndex\<close> and \<^verbatim>\<open>loadIndex\<close> leave at the number of
  bytes they went over.
\<close>

definition serializeIndex :: "index_info \<Rightarrow> buf \<Rightarrow> nat \<Rightarrow> buf res" where
  "serializeIndex x b off =
     (let n = length (ix_name x); m = length (ix_column x) in
     rbind (memcpy_to b off (i32_bytes (int n))) (\<lambda>b.
     rbind (memcpy_to b (off + 4) (str_bytes (ix_name x))) (\<lambda>b.
     rbind (memcpy_to b (off + 4 + n) (i32_bytes (int m))) (\<lambda>b.
     rbind (memcpy_to b (off + 8 + n) (str_bytes (ix_column x))) (\<lambda>b.
     rbind (memcpy_to b (off + 8 + n + m) (i32_bytes (index_code (ix_type x)))) (\<lambda>b.
     memcpy_to b (off + 12 + n + m) (i32_bytes (ix_root_page x))))))))"

definition ix_getSize :: "index_info \<Rightarrow> nat" where
  "ix_getSize x = 16 + length (ix_name x) + length (ix_column x)"

definition read_name :: "buf \<Rightarrow> nat \<Rightarrow> string res" where
  "read_name b off =
     rbind (memcpy_from b off 4) (\<lambda>n.
     if i32_val n < 0 then Inl (Throw ''basic_string::_M_replace'')
     else rbind (memcpy_from b (off + 4) (nat (i32_val n))) (\<lambda>s. Inr (bytes_str s)))"

definition loadIndex :: "buf \<Rightarrow> nat \<Rightarrow> index_info res" where
  "loadIndex b off =
     rbind (read_name b off) (\<lambda>nm.
     rbind (read_name b (off + 4 + length nm)) (\<lambda>co.
     let k = off + 8 + length nm + length co in
     rbind (memcpy_from b k 4) (\<lambda>ty.
     rbind (memcpy_from b (k + 4) 4) (\<lambda>rp.
     rbind (code_index (i32_val ty)) (\<lambda>ty.
     Inr \<lparr>ix_name = nm, ix_column = co, ix_type = ty, ix_root_page = i32_val rp\<rparr>)))))"

text \<open>The constraints and the nullability of the columns are not part of the format.\<close>

definition serializeTableInfo :: "table_info \<Rightarrow> buf \<Rightarrow> buf res" where
  "serializeTableInfo x b =
     (let n = length (info_name x); cs = info_schema x;
          k = 16 + n + sum_list (map (\<lambda>c. 1 + nat (getColSize c)) cs) in
     rbind (memcpy_to b 0 (i32_bytes (int n))) (\<lambda>b.
     rbind (memcpy_to b 4 (str_bytes (info_name x))) (\<lambda>b.
     rbind (memcpy_to b (4 + n) (i32_bytes (info_id x))) (\<lambda>b.
     rbind (memcpy_to b (8 + n) (i32_bytes (info_first_page x))) (\<lambda>b.
     rbind (memcpy_to b (12 + n) (i32_bytes (int (length cs)))) (\<lambda>b.
     rbind (write_seq write_col (\<lambda>c. 1 + nat (getColSize c)) cs b (16 + n)) (\<lambda>b.
     rbind (memcpy_to b k (i32_bytes (int (length (info_indexes x))))) (\<lambda>b.
     write_seq serializeIndex ix_getSize (info_indexes x) b (k + 4)))))))))"

text \<open>
  Loading, up to the table heap: name, id, first page, columns and indexes. The heap is then constructed
  from the pages of the database file; \<open>tid\<close> is its table id, which stays uninitialised.
\<close>

definition read_table_info :: "buf \<Rightarrow> (string \<times> int \<times> int \<times> column list \<times> index_info list) res" where
  "read_table_info b =
     rbind (read_name b 0) (\<lambda>nm.
     let n = length nm in
     rbind (memcpy_from b (4 + n) 4) (\<lambda>tid.
     rbind (memcpy_from b (8 + n) 4) (\<lambda>fp.
     rbind (memcpy_from b (12 + n) 4) (\<lambda>nc.
     rbind (read_seq read_col (\<lambda>c. 1 + nat (getColSize c)) (nat (i32_val nc)) b (16 + n)) (\<lambda>cs.
     let k = 16 + n + sum_list (map (\<lambda>c. 1 + nat (getColSize c)) cs) in
     rbind (memcpy_from b k 4) (\<lambda>ni.
     rbind (read_seq loadIndex ix_getSize (nat (i32_val ni)) b (k + 4)) (\<lambda>ixs.
     Inr (nm, i32_val tid, i32_val fp, cs, ixs))))))))"

definition loadTableInfo :: "(string \<Rightarrow> nat) \<Rightarrow> nat \<Rightarrow> nat \<Rightarrow> int \<Rightarrow> bpm \<Rightarrow> buf \<Rightarrow> (table_info \<times> bpm) res" where
  "loadTableInfo hs m k tid s b =
     rbind (read_table_info b) (\<lambda>(nm, i, fp, cs, ixs).
     rbind (TableHeap hs m k tid fp (- 1) s) (\<lambda>(h, s).
     Inr (\<lparr>info_name = nm, info_id = i, info_schema = cs, info_first_page = fp, info_heap = h, info_indexes = ixs,
           foreign_keys = [], unique_constraints = [], primary_key_columns = []\<rparr>, s)))"

section \<open>Saving and loading\<close>

definition save_catalog :: "catalog \<Rightarrow> catalog res" where
  "save_catalog c =
     (let p = catalog_first_page_id c in
      rbind (fetch_frame (catalog_BPM c) p) (\<lambda>(f, b, s).
      rbind (memcpy_to b 0 (i32_bytes p)) (\<lambda>b.
      rbind (memcpy_to b 4 (i32_bytes (next_table_id c))) (\<lambda>b.
      rbind (memcpy_to b 8 (i32_bytes (int (length (tables c))))) (\<lambda>b.
      rbind (markAsDirty (store_frame s f b) p) (\<lambda>s. Inr (c\<lparr>catalog_BPM := s\<rparr>)))))))"

text \<open>The loop reads the pages from the catalog's first page on, one per table that \<^verbatim>\<open>save_catalog\<close> counted.\<close>

fun load_tables :: "(string \<Rightarrow> nat) \<Rightarrow> nat \<Rightarrow> nat \<Rightarrow> int \<Rightarrow> nat \<Rightarrow> int \<Rightarrow> catalog \<Rightarrow> catalog res" where
  "load_tables hs m k tid 0 i c = Inr c"
| "load_tables hs m k tid (Suc n) i c =
     rbind (fetch_frame (catalog_BPM c) (i + 1)) (\<lambda>(f, b, s).
     rbind (loadTableInfo hs m k tid (DB_BPM c) b) (\<lambda>(x, d).
     let a = length (infos c) in
     load_tables hs m k tid n (i + 1) (c\<lparr>infos := infos c @ [x], tables := AList.update (info_name x) a (tables c),
       tables_ids_map := AList.update (info_id x) a (tables_ids_map c), catalog_BPM := s, DB_BPM := d\<rparr>)))"

definition load_catalog :: "(string \<Rightarrow> nat) \<Rightarrow> nat \<Rightarrow> nat \<Rightarrow> int \<Rightarrow> int \<Rightarrow> catalog \<Rightarrow> catalog res" where
  "load_catalog hs m k tid pg c =
     rbind (fetch_frame (catalog_BPM c) pg) (\<lambda>(f, b, s).
     rbind (memcpy_from b 0 4) (\<lambda>fp.
     rbind (memcpy_from b 4 4) (\<lambda>nt.
     rbind (memcpy_from b 8 4) (\<lambda>n.
     load_tables hs m k tid (nat (i32_val n + 1 - i32_val fp)) (i32_val fp)
       (c\<lparr>catalog_first_page_id := i32_val fp, next_table_id := i32_val nt, tables := [], tables_ids_map := [], catalog_BPM := s\<rparr>)))))"

definition Catalog :: "(string \<Rightarrow> nat) \<Rightarrow> nat \<Rightarrow> nat \<Rightarrow> int \<Rightarrow> bpm \<Rightarrow> bpm \<Rightarrow> bool \<Rightarrow> catalog res" where
  "Catalog hs m k tid cb db createNew =
     (let c = \<lparr>infos = [], tables = [], tables_ids_map = [], catalog_BPM = cb, DB_BPM = db, next_table_id = 0, catalog_first_page_id = - 1\<rparr> in
      if createNew then rbind (newPage cb) (\<lambda>(p, s). save_catalog (c\<lparr>catalog_BPM := s, catalog_first_page_id := p\<rparr>))
      else load_catalog hs m k tid 1 c)"

text \<open>The destructor; \<open>ids\<close> is the order in which it visits the tables.\<close>

definition Catalog_close :: "int list \<Rightarrow> catalog \<Rightarrow> catalog res" where
  "Catalog_close ids c =
     rbind (save_catalog c) (\<lambda>c.
     rfold (\<lambda>i c. rbind (get_or_ub (map_of (tables_ids_map c) i)) (\<lambda>a. rbind (vec_at (infos c) a) (\<lambda>x.
       rbind (heap_saveMetaData (info_heap x) (DB_BPM c)) (\<lambda>s. Inr (c\<lparr>DB_BPM := s\<rparr>))))) ids c)"

section \<open>Tables\<close>

definition GetTable :: "catalog \<Rightarrow> string \<Rightarrow> nat option" where
  "GetTable c name = map_of (tables c) name"

definition GetTable_id :: "catalog \<Rightarrow> int \<Rightarrow> nat option" where
  "GetTable_id c i = map_of (tables_ids_map c) i"

definition TableExists :: "catalog \<Rightarrow> string \<Rightarrow> bool" where
  "TableExists c name \<longleftrightarrow> GetTable c name \<noteq> None"

definition TableExists_id :: "catalog \<Rightarrow> int \<Rightarrow> bool" where
  "TableExists_id c i \<longleftrightarrow> GetTable_id c i \<noteq> None"

definition GetTables :: "string list \<Rightarrow> catalog \<Rightarrow> nat list" where
  "GetTables names c = map (\<lambda>x. the (map_of (tables c) x)) names"

fun column_names_to_indexes :: "string list \<Rightarrow> column list \<Rightarrow> nat list res" where
  "column_names_to_indexes [] cs = Inr []"
| "column_names_to_indexes (x # xs) cs =
     (if getColIndex cs x = length cs then Inl (Throw (''column does not exist '' @ x))
      else rbind (column_names_to_indexes xs cs) (\<lambda>is. Inr (getColIndex cs x # is)))"

text \<open>Writing the description of a new table to a new page of the catalog's file.\<close>

definition save_info :: "table_info \<Rightarrow> bpm \<Rightarrow> bpm res" where
  "save_info x s =
     rbind (newPage s) (\<lambda>(p, s).
     rbind (fetch_frame s p) (\<lambda>(f, b, s).
     rbind (serializeTableInfo x b) (\<lambda>b. markAsDirty (store_frame s f b) p)))"

definition new_info :: "catalog \<Rightarrow> string \<Rightarrow> column list \<Rightarrow> (table_info \<times> catalog) res" where
  "new_info c name cs =
     rbind (new_table (DB_BPM c) 0) (\<lambda>(h, d).
     let i = next_table_id c + 1;
         t = \<lparr>heap = h\<lparr>table_name := name, cols := cs, table_id := i\<rparr>, indexes_map = \<lambda>_. None, indexes_pages_ids = []\<rparr> in
     rbind (guard_ub (in_i32 i)) (\<lambda>_.
     Inr (\<lparr>info_name = name, info_id = i, info_schema = cs, info_first_page = first_page_id h, info_heap = t,
           info_indexes = [], foreign_keys = [], unique_constraints = [], primary_key_columns = []\<rparr>,
          c\<lparr>DB_BPM := d, next_table_id := i\<rparr>)))"

definition CreateTable :: "catalog \<Rightarrow> string \<Rightarrow> column list \<Rightarrow> (nat option \<times> catalog) res" where
  "CreateTable c name cs =
     (if TableExists c name then Inr (None, c)
      else rbind (new_info c name cs) (\<lambda>(x, c).
        let a = length (infos c);
            c = c\<lparr>infos := infos c @ [x], tables := AList.update name a (tables c),
                  tables_ids_map := AList.update (info_id x) a (tables_ids_map c)\<rparr> in
        rbind (save_info x (catalog_BPM c)) (\<lambda>s. Inr (Some a, c\<lparr>catalog_BPM := s\<rparr>))))"

datatype BoundConstraintType = PRIMARY_KEY | UNIQUE | FOREIGN_KEY

record bound_constraint =
  con_type :: BoundConstraintType
  con_columns :: "string list"
  referenced_table :: string
  referenced_columns :: "string list"

record bound_create_table =
  create_name :: string
  if_not_exists :: bool
  create_columns :: "column list"
  constraints :: "bound_constraint list"

definition resolve_constraint :: "catalog \<Rightarrow> column list \<Rightarrow> bound_constraint \<Rightarrow> table_info \<Rightarrow> table_info res" where
  "resolve_constraint c cs k x =
     rbind (column_names_to_indexes (con_columns k) cs) (\<lambda>is.
     case con_type k of
       PRIMARY_KEY \<Rightarrow> Inr (x\<lparr>primary_key_columns := is\<rparr>)
     | UNIQUE \<Rightarrow> Inr (x\<lparr>unique_constraints := unique_constraints x @ [is]\<rparr>)
     | FOREIGN_KEY \<Rightarrow> (case GetTable c (referenced_table k) of
           None \<Rightarrow> Inl (Throw ''referenced table does not exist'')
         | Some a \<Rightarrow> rbind (vec_at (infos c) a) (\<lambda>y.
             rbind (column_names_to_indexes (referenced_columns k) (info_schema y)) (\<lambda>js.
             Inr (x\<lparr>foreign_keys := foreign_keys x @ [\<lparr>fk_column_ids = is, referenced_table_id = info_id y, referenced_column_ids = js\<rparr>]\<rparr>)))))"

text \<open>The pages of the heap are allocated before the constraints are resolved.\<close>

definition CreateTable_stmt :: "catalog \<Rightarrow> bound_create_table \<Rightarrow> (nat \<times> catalog) res" where
  "CreateTable_stmt c st =
     (case GetTable c (create_name st) of
        Some a \<Rightarrow> if if_not_exists st then Inr (a, c) else Inl (Throw (''this table already exists '' @ create_name st))
      | None \<Rightarrow>
          if create_columns st = [] then Inl (Throw ''empty schema'')
          else rbind (new_info c (create_name st) (create_columns st)) (\<lambda>(x, c).
            rbind (rfold (resolve_constraint c (create_columns st)) (constraints st) x) (\<lambda>x.
            let a = length (infos c);
                c = c\<lparr>infos := infos c @ [x], tables := AList.update (create_name st) a (tables c),
                      tables_ids_map := AList.update (info_id x) a (tables_ids_map c)\<rparr> in
            rbind (save_info x (catalog_BPM c)) (\<lambda>s. Inr (a, c\<lparr>catalog_BPM := s\<rparr>)))))"

text \<open>\<^verbatim>\<open>tables[table_name]\<close> is a null pointer for an unknown table.\<close>

definition Catalog_DropTable :: "nat \<Rightarrow> catalog \<Rightarrow> string \<Rightarrow> catalog res" where
  "Catalog_DropTable n c name =
     rbind (get_or_ub (GetTable c name)) (\<lambda>a.
     rbind (vec_at (infos c) a) (\<lambda>x.
     rbind (deleteTableHeap n (DB_BPM c) (heap (info_heap x))) (\<lambda>(h, d).
     Inr (c\<lparr>DB_BPM := d, infos := (infos c)[a := x\<lparr>info_heap := (info_heap x)\<lparr>heap := h\<rparr>\<rparr>],
            tables := AList.delete name (tables c), tables_ids_map := AList.delete (info_id x) (tables_ids_map c)\<rparr>))))"

section \<open>Indexes\<close>

definition AddIndex :: "catalog \<Rightarrow> string \<Rightarrow> string \<Rightarrow> string \<Rightarrow> indexes_t \<Rightarrow> int \<Rightarrow> (bool \<times> catalog) res" where
  "AddIndex c tname iname cname ty rp =
     (case GetTable c tname of None \<Rightarrow> Inr (False, c)
      | Some a \<Rightarrow> rbind (vec_at (infos c) a) (\<lambda>x.
          if \<exists>i \<in> set (info_indexes x). ix_name i = iname then Inr (False, c)
          else rbind (save_catalog (c\<lparr>infos := (infos c)[a := x\<lparr>info_indexes := info_indexes x @
              [\<lparr>ix_name = iname, ix_column = cname, ix_type = ty, ix_root_page = rp\<rparr>]\<rparr>]\<rparr>)) (\<lambda>c. Inr (True, c))))"

definition Catalog_GetIndex :: "catalog \<Rightarrow> string \<Rightarrow> string \<Rightarrow> index_info option" where
  "Catalog_GetIndex c tname iname =
     (case GetTable c tname of None \<Rightarrow> None
      | Some a \<Rightarrow> if a < length (infos c) then find (\<lambda>i. ix_name i = iname) (info_indexes (infos c ! a)) else None)"

text \<open>
  The CREATE INDEX case of \<^verbatim>\<open>ExecutorFactory::createExecutor\<close>: always a hash index of 200 buckets on the
  first column that is named.
\<close>

definition create_index_case :: "nat \<Rightarrow> (string \<Rightarrow> nat) \<Rightarrow> FieldType \<Rightarrow> string \<Rightarrow> string \<Rightarrow> column list \<Rightarrow> catalog \<Rightarrow> catalog res" where
  "create_index_case n hs ft0 tname iname cs c =
     rbind (get_or_ub (GetTable c tname)) (\<lambda>a.
     rbind (vec_at (infos c) a) (\<lambda>x.
     rbind (vec_at cs 0) (\<lambda>col.
     rbind (CreateIndex n hs ft0 STATIC_HASH_INDEX (col_name col) 200 (info_heap x) (DB_BPM c)) (\<lambda>(t, d).
     let c = c\<lparr>infos := (infos c)[a := x\<lparr>info_heap := t\<rparr>], DB_BPM := d\<rparr> in
     case getIndex t (col_name col) STATIC_HASH_INDEX of
       None \<Rightarrow> Inl (Throw ''error while creating the index'')
     | Some _ \<Rightarrow> rbind (get_or_ub (fst (pages_get (col_name col, STATIC_HASH_INDEX) t))) (\<lambda>(fp, _).
         rbind (AddIndex c tname iname (col_name col) STATIC_HASH_INDEX fp) (\<lambda>(_, c). Inr c))))))"

end
