(* ===== verification/Catalog_Props.thy ===== *)
theory Catalog_Props imports Catalog_Model
begin

text \<open>
  Properties of the catalog: the byte format of a table's description, what CREATE TABLE does to the catalog
  and to the pages of its file, and what a reopened catalog reads after DROP TABLE.
\<close>

section \<open>The codec of index descriptions\<close>

definition name_enc :: "string \<Rightarrow> byte list" where
  "name_enc s = i32_bytes (int (length s)) @ str_bytes s"

lemma length_name_enc [simp]: "length (name_enc s) = 4 + length s"
  by (simp add: name_enc_def)

lemma read_name_back:
  assumes "length s < 2 ^ 31" "peek (mem b) off (length (name_enc s)) = name_enc s" "off + length (name_enc s) \<le> cap b"
  shows "read_name b off = Inr s"
proof -
  have i: "in_i32 (int (length s))" using assms(1) by (simp add: in_i32_def)
  have p: "peek (mem b) off 4 = i32_bytes (int (length s))" "peek (mem b) (off + 4) (length s) = str_bytes s"
    using peek_conc[of "mem b" off "i32_bytes (int (length s))" "str_bytes s"] assms(2) by (simp_all add: name_enc_def)
  then show ?thesis using i assms(3) by (simp add: read_name_def memcpy_from_def)
qed

definition ix_ok :: "index_info \<Rightarrow> bool" where
  "ix_ok x \<longleftrightarrow> length (ix_name x) < 2 ^ 31 \<and> length (ix_column x) < 2 ^ 31 \<and> in_i32 (ix_root_page x)"

definition ix_enc :: "index_info \<Rightarrow> byte list" where
  "ix_enc x = name_enc (ix_name x) @ name_enc (ix_column x) @ i32_bytes (index_code (ix_type x)) @ i32_bytes (ix_root_page x)"

lemma index_code_back [simp]: "in_i32 (index_code ty)" "code_index (index_code ty) = Inr ty"
  by (cases ty; simp add: index_code_def code_index_def in_i32_def)+

lemma serializeIndex_bytes: "serializeIndex x b off = memcpy_to b off (ix_enc x)"
  unfolding serializeIndex_def ix_enc_def name_enc_def Let_def append_assoc
  by ((rule memcpy_then)+) (simp_all add: ac_simps)

lemma loadIndex_back:
  assumes ok: "ix_ok x" and pk: "peek (mem b) off (length (ix_enc x)) = ix_enc x" and room: "off + length (ix_enc x) \<le> cap b"
  shows "loadIndex b off = Inr x"
proof -
  note p1 = peek_conc[OF pk[unfolded ix_enc_def]]
  note p2 = peek_conc[OF p1(2)]
  note p3 = peek_conc[OF p2(2)]
  let ?k = "off + 8 + length (ix_name x) + length (ix_column x)"
  have n: "read_name b off = Inr (ix_name x)" "read_name b (off + 4 + length (ix_name x)) = Inr (ix_column x)"
    using read_name_back[OF _ p1(1)] read_name_back[OF _ p2(1)] ok room by (simp_all add: ix_ok_def ix_enc_def ac_simps)
  have "peek (mem b) ?k 4 = i32_bytes (index_code (ix_type x))" "peek (mem b) (?k + 4) 4 = i32_bytes (ix_root_page x)"
    using p3 by (simp_all add: ac_simps)
  then have "memcpy_from b ?k 4 = Inr (i32_bytes (index_code (ix_type x)))" "memcpy_from b (?k + 4) 4 = Inr (i32_bytes (ix_root_page x))"
    using room by (simp_all add: memcpy_from_def ix_enc_def)
  then show ?thesis using n ok by (simp add: loadIndex_def Let_def ix_ok_def)
qed

interpretation ixs: codec serializeIndex loadIndex ix_getSize ix_enc "\<lambda>_. []" ix_ok "(=)"
  by unfold_locales (simp_all add: serializeIndex_bytes loadIndex_back ix_getSize_def ix_enc_def)

section \<open>The description of a table\<close>

definition nullable :: "column list \<Rightarrow> column list" where
  "nullable cs = map (\<lambda>c. c\<lparr>is_nullable := True\<rparr>) cs"

definition info_ok :: "table_info \<Rightarrow> bool" where
  "info_ok x \<longleftrightarrow> length (info_name x) < 2 ^ 31 \<and> in_i32 (info_id x) \<and> in_i32 (info_first_page x) \<and> length (info_schema x) < 2 ^ 31 \<and>
     (\<forall>c \<in> set (info_schema x). col_ok c) \<and> length (info_indexes x) < 2 ^ 31 \<and> (\<forall>i \<in> set (info_indexes x). ix_ok i)"

definition info_enc :: "table_info \<Rightarrow> byte list" where
  "info_enc x = i32_bytes (int (length (info_name x))) @ str_bytes (info_name x) @ i32_bytes (info_id x) @ i32_bytes (info_first_page x) @
     i32_bytes (int (length (info_schema x))) @ seq_enc colrec_enc (info_schema x) @
     i32_bytes (int (length (info_indexes x))) @ seq_enc ix_enc (info_indexes x)"

text \<open>What a description says of a table.\<close>

definition described :: "table_info \<Rightarrow> string \<times> int \<times> int \<times> column list \<times> index_info list" where
  "described x = (info_name x, info_id x, info_first_page x, nullable (info_schema x), info_indexes x)"

lemma colrec_sizes:
  "\<forall>c \<in> set cs. col_ok c \<Longrightarrow> sum_list (map (\<lambda>c. 1 + nat (getColSize c)) cs) = length (seq_enc colrec_enc cs)"
proof (induction cs)
  case (Cons c cs)
  then show ?case using colrec.sz_enc[of c] by simp
qed simp

lemma columns_then_indexes:
  assumes "\<forall>c \<in> set cs. col_ok c" "\<forall>i \<in> set js. ix_ok i" "off \<le> cap b" "k = off + length (seq_enc colrec_enc cs)" "l = k + 4"
  shows "rbind (write_seq write_col (\<lambda>c. 1 + nat (getColSize c)) cs b off) (\<lambda>b. rbind (memcpy_to b k (i32_bytes (int n))) (\<lambda>b.
      write_seq serializeIndex ix_getSize js b l)) =
    memcpy_to b off (seq_enc colrec_enc cs @ i32_bytes (int n) @ seq_enc ix_enc js)"
  unfolding colrec.write_seq_bytes[OF assms(1,3)] seq_bytes_no_over
  by ((rule memcpy_then)+) (use assms in \<open>simp_all add: ixs.write_seq_bytes[simplified] ac_simps\<close>)

lemma serializeTableInfo_bytes:
  assumes "info_ok x"
  shows "serializeTableInfo x b = memcpy_to b 0 (info_enc x)"
proof -
  have "\<forall>c \<in> set (info_schema x). col_ok c" "\<forall>i \<in> set (info_indexes x). ix_ok i" using assms by (simp_all add: info_ok_def)
  note ok = columns_then_indexes[OF this, simplified] colrec_sizes[OF this(1), simplified]
  show ?thesis
    unfolding serializeTableInfo_def info_enc_def Let_def
    by ((rule memcpy_then)+) (simp_all add: ok ac_simps)
qed

lemma nullable_back: "list_all2 col_eqv cs ds \<Longrightarrow> ds = nullable cs"
  by (induction rule: list_all2_induct) (simp_all add: col_eqv_def nullable_def)

lemma read_table_info_back:
  assumes ok: "info_ok x" and pk: "peek (mem b) 0 (length (info_enc x)) = info_enc x" and room: "length (info_enc x) \<le> cap b"
  shows "read_table_info b = Inr (described x)"
proof -
  let ?n = "length (info_name x)" and ?m = "mem b" and ?es = "seq_enc colrec_enc (info_schema x)" and ?is = "seq_enc ix_enc (info_indexes x)"
  note e = info_ok_def
  have enc: "length (info_enc x) = 20 + ?n + length ?es + length ?is" by (simp add: info_enc_def)
  note c = peek_conc[of ?m]
  have e': "info_enc x = name_enc (info_name x) @ i32_bytes (info_id x) @ i32_bytes (info_first_page x) @
     i32_bytes (int (length (info_schema x))) @ ?es @ i32_bytes (int (length (info_indexes x))) @ ?is"
    by (simp add: info_enc_def name_enc_def)
  note p1 = c[OF pk[unfolded e']]
  note p2 = c[OF p1(2)] note p3 = c[OF p2(2)] note p4 = c[OF p3(2)] note p5 = c[OF p4(2)] note p6 = c[OF p5(2)]
  have q: "peek ?m (4 + ?n) 4 = i32_bytes (info_id x)" "peek ?m (8 + ?n) 4 = i32_bytes (info_first_page x)"
    "peek ?m (12 + ?n) 4 = i32_bytes (int (length (info_schema x)))" "peek ?m (16 + ?n) (length ?es) = ?es"
    "peek ?m (16 + ?n + length ?es) 4 = i32_bytes (int (length (info_indexes x)))"
    "peek ?m (20 + ?n + length ?es) (length ?is) = ?is"
    using p2(1) p3(1) p4(1) p5(1) p6 by (simp_all add: ac_simps)
  have m: "memcpy_from b (4 + ?n) 4 = Inr (i32_bytes (info_id x))" "memcpy_from b (8 + ?n) 4 = Inr (i32_bytes (info_first_page x))"
    "memcpy_from b (12 + ?n) 4 = Inr (i32_bytes (int (length (info_schema x))))"
    "memcpy_from b (16 + ?n + length ?es) 4 = Inr (i32_bytes (int (length (info_indexes x))))"
    using q(1,2,3,5) room enc by (simp_all add: memcpy_from_def)
  have nm: "read_name b 0 = Inr (info_name x)" using read_name_back[OF _ p1(1)] ok room enc by (simp add: e)
  have okc: "\<forall>c \<in> set (info_schema x). col_ok c" "\<forall>i \<in> set (info_indexes x). ix_ok i" using ok by (simp_all add: e)
  obtain cs where cs: "read_seq read_col (\<lambda>c. 1 + nat (getColSize c)) (length (info_schema x)) b (16 + ?n) = Inr cs"
    "list_all2 col_eqv (info_schema x) cs"
    using colrec.read_seq_back[OF okc(1) q(4)] room enc by auto
  have n: "cs = nullable (info_schema x)" by (rule nullable_back[OF cs(2)])
  have k: "sum_list (map (\<lambda>c. 1 + nat (getColSize c)) cs) = length ?es"
    using colrec.list_eqv_ok[OF okc(1) cs(2)] colrec_sizes[of cs] by simp
  have ixs: "read_seq loadIndex ix_getSize (length (info_indexes x)) b (20 + ?n + length ?es) = Inr (info_indexes x)"
    using ixs.read_seq_back[OF okc(2) q(6)] room enc by (auto simp: list_all2_eq)
  have i: "in_i32 (info_id x)" "in_i32 (info_first_page x)" "in_i32 (int (length (info_schema x)))" "in_i32 (int (length (info_indexes x)))"
    using ok by (simp_all add: e in_i32_def)
  show ?thesis
    using nm m cs(1) ixs i unfolding read_table_info_def Let_def by (simp add: k[simplified] n[symmetric] described_def add.assoc)
qed

text \<open>
  A table's description is read back from the page it was written to: name, id, first page, columns and
  indexes. The constraints are not written, and every column comes back nullable.
\<close>

lemma table_info_roundtrip:
  assumes "info_ok x" "serializeTableInfo x b = Inr b'"
  shows "read_table_info b' = Inr (described x)"
  using assms(2) read_table_info_back[OF assms(1), of b'] unfolding serializeTableInfo_bytes[OF assms(1)]
  by (auto simp: memcpy_to_eq_Inr)


lemma table_info_roundtrip_witness:
  "\<exists>b. serializeTableInfo \<lparr>info_name = ''t'', info_id = 1, info_schema = demo_cols, info_first_page = 1, info_heap = undefined,
      info_indexes = [\<lparr>ix_name = ''i'', ix_column = ''id'', ix_type = STATIC_HASH_INDEX, ix_root_page = 3\<rparr>],
      foreign_keys = [], unique_constraints = [], primary_key_columns = [0]\<rparr> (Page 2) = Inr b \<and>
     read_table_info b = Inr (''t'', 1, 1, nullable demo_cols, [\<lparr>ix_name = ''i'', ix_column = ''id'', ix_type = STATIC_HASH_INDEX, ix_root_page = 3\<rparr>])"
proof -
  let ?x = "\<lparr>info_name = ''t'', info_id = 1, info_schema = demo_cols, info_first_page = 1, info_heap = undefined,
      info_indexes = [\<lparr>ix_name = ''i'', ix_column = ''id'', ix_type = STATIC_HASH_INDEX, ix_root_page = 3\<rparr>],
      foreign_keys = [], unique_constraints = [], primary_key_columns = [0]\<rparr>"
  have ok: "info_ok ?x"
    by (simp add: info_ok_def demo_cols_def col_ok_def Column_def set_is_nullable_def in_i32_def ix_ok_def)
  have "length (info_enc ?x) \<le> PAGE_SIZE"
    by (simp add: info_enc_def ix_enc_def demo_cols_def colrec_enc_def length_col_enc Column_def set_is_nullable_def PAGE_SIZE_def)
  moreover have "cap (Page 2) = PAGE_SIZE" using Page_canon[of 2] by (simp add: canon_def)
  ultimately obtain b where b: "serializeTableInfo ?x (Page 2) = Inr b"
    by (simp add: serializeTableInfo_bytes[OF ok] memcpy_to_def)
  show ?thesis using table_info_roundtrip[OF ok b] b by (intro exI[of _ b]) (simp add: described_def)
qed

section \<open>The invariant of the catalog\<close>

lemma pool_capacity: "pool_ok s n \<Longrightarrow> n < 60000 \<Longrightarrow> in_i32 (4 * dm_capacity (disk s) * int PAGE_SIZE)"
  unfolding pool_ok_def using bpm_invD(1)[of s n "{}"] by (auto simp: in_i32_def PAGE_SIZE_def dm_inv_def max_def split: if_splits)

text \<open>Rewriting a page of the pool.\<close>

lemma pool_write:
  assumes s: "pool_ok s n" and i: "1 \<le> i" "i \<le> n" and g: "\<And>b. canon b \<Longrightarrow> \<exists>b'. g b = Inr b' \<and> canon b' \<and> P b'"
  shows "\<exists>f u b t. fetch_frame s (int i) = Inr (f, view s i, u) \<and> g (view s i) = Inr b \<and> P b \<and>
    markAsDirty (store_frame u f b) (int i) = Inr t \<and> pool_ok t n \<and> view t i = b \<and> (\<forall>j. 1 \<le> j \<and> j \<le> n \<and> j \<noteq> i \<longrightarrow> view t j = view s j)"
proof -
  have inv: "bpm_inv s n {}" using s by (simp add: pool_ok_def)
  obtain f u where u: "fetch_frame s (int i) = Inr (f, view s i, u)" "bpm_inv u n {}" "same_views n s u" "cached u i f"
    "dm_capacity (disk u) = dm_capacity (disk s)"
    using fetch_frame_inv[OF inv i] by blast
  obtain b where b: "g (view s i) = Inr b" "canon b" "P b" using g[OF view_canon[OF inv]] by blast
  obtain t where t: "markAsDirty (store_frame u f b) (int i) = Inr t" "bpm_inv t n {}" "view t = (view u)(i := b)" "disk t = disk u"
    using mark_written[OF u(2,4) b(2)] by blast
  have "pool_ok t n" using s t(2,4) u(5) by (simp add: pool_ok_def)
  then show ?thesis using u t b by (intro exI[of _ f] exI[of _ u] exI[of _ b] exI[of _ t]) (auto simp: same_views_def)
qed

lemma new_table_pool:
  assumes s: "pool_ok s n" and n: "n < 50000"
  shows "\<exists>t u. new_table s tid = Inr (t, u) \<and> pool_ok u (Suc (Suc n)) \<and> same_views n s u \<and>
    table_wf u (Suc (Suc n)) t (Suc n) [Suc (Suc n)] (\<lambda>_. [])"
proof -
  have inv: "bpm_inv s n {}" using s by (simp add: pool_ok_def)
  obtain t u where t: "new_table s tid = Inr (t, u)" "table_wf u (Suc (Suc n)) t (Suc n) [Suc (Suc n)] (\<lambda>_. [])"
    using new_table_wf[OF inv pool_capacity[OF s]] n by fastforce
  obtain s1 where s1: "newPage s = Inr (int (Suc n), s1)" "pool_ok s1 (Suc n)" "same_views n s s1" using pool_new[OF s] n by auto
  obtain s2 where s2: "newPage s1 = Inr (int (Suc (Suc n)), s2)" "pool_ok s2 (Suc (Suc n))" "same_views (Suc n) s1 s2"
    using pool_new[OF s1(2)] n by auto
  let ?g = "\<lambda>b. Inr (set_next_page_id b (int (Suc (Suc n)))) :: buf res"
  have "\<exists>b'. ?g b = Inr b' \<and> canon b' \<and> True" if "canon b" for b
    using that by simp
  note W = pool_write[of s2 "Suc (Suc n)" "Suc n" ?g "\<lambda>_. True", OF s2(2) _ _ this, simplified]
  obtain f v b w where w: "fetch_frame s2 (int (Suc n)) = Inr (f, view s2 (Suc n), v)"
    "b = set_next_page_id (view s2 (Suc n)) (int (Suc (Suc n)))"
    "markAsDirty (store_frame v f b) (int (Suc n)) = Inr w" "pool_ok w (Suc (Suc n))"
    "\<forall>j. 1 \<le> j \<and> j \<le> Suc (Suc n) \<and> j \<noteq> Suc n \<longrightarrow> view w j = view s2 j"
    using W by auto
  have "u = w" using t(1) s1(1) s2(1) w(1,2,3) by (simp add: new_table_def)
  moreover have "same_views n s w" using s1(3) s2(3) w(5) by (auto simp: same_views_def)
  ultimately show ?thesis using t w(4) by blast
qed


definition bare_info :: "table_info \<Rightarrow> table_info" where
  "bare_info x = x\<lparr>info_indexes := []\<rparr>"

definition on_info :: "buf \<Rightarrow> table_info \<Rightarrow> bool" where
  "on_info b x \<longleftrightarrow> info_ok (bare_info x) \<and> length (info_enc (bare_info x)) \<le> PAGE_SIZE \<and>
     peek (mem b) 0 (length (info_enc (bare_info x))) = info_enc (bare_info x)"

text \<open>
  The description of a table is on its page as it was when the table was created; \<open>m\<close> is the number of pages
  of the database file. The two maps name the same objects.
\<close>

definition catalog_ok :: "catalog \<Rightarrow> nat \<Rightarrow> bool" where
  "catalog_ok c m \<longleftrightarrow> pool_ok (catalog_BPM c) (Suc (length (infos c))) \<and> pool_ok (DB_BPM c) m \<and>
     catalog_first_page_id c = 1 \<and> next_table_id c = int (length (infos c)) \<and>
     (\<forall>a < length (infos c). info_id (infos c ! a) = int (Suc a) \<and> on_info (view (catalog_BPM c) (a + 2)) (infos c ! a)) \<and>
     distinct (map fst (tables c)) \<and> distinct (map snd (tables c)) \<and>
     tables_ids_map c = map (\<lambda>(_, a). (int (Suc a), a)) (tables c) \<and>
     (\<forall>(name, a) \<in> set (tables c). a < length (infos c) \<and> info_name (infos c ! a) = name \<and>
        (\<exists>p0 ps es. table_wf (DB_BPM c) m (heap (info_heap (infos c ! a))) p0 ps es))"

lemma catalog_okD:
  assumes "catalog_ok c m"
  shows "pool_ok (catalog_BPM c) (Suc (length (infos c)))" "pool_ok (DB_BPM c) m" "catalog_first_page_id c = 1"
    "next_table_id c = int (length (infos c))" "\<And>a. a < length (infos c) \<Longrightarrow> info_id (infos c ! a) = int (Suc a)"
    "\<And>a. a < length (infos c) \<Longrightarrow> on_info (view (catalog_BPM c) (a + 2)) (infos c ! a)" "distinct (map fst (tables c))"
    "distinct (map snd (tables c))" "tables_ids_map c = map (\<lambda>(_, a). (int (Suc a), a)) (tables c)"
    "\<And>name a. (name, a) \<in> set (tables c) \<Longrightarrow> a < length (infos c) \<and> info_name (infos c ! a) = name \<and>
       (\<exists>p0 ps es. table_wf (DB_BPM c) m (heap (info_heap (infos c ! a))) p0 ps es)"
  using assms unfolding catalog_ok_def by blast+

lemma on_info_read:
  assumes "on_info b x" "cap b = PAGE_SIZE"
  shows "read_table_info b = Inr (info_name x, info_id x, info_first_page x, nullable (info_schema x), [])"
  using read_table_info_back[of "bare_info x" b] assms by (simp add: on_info_def described_def bare_info_def)

lemma update_new: "k \<notin> fst ` set al \<Longrightarrow> AList.update k v al = al @ [(k, v)]"
  by (induction al) auto

lemma map_of_new: "k \<notin> fst ` set al \<Longrightarrow> map_of (al @ [(k, v)]) = (map_of al)(k \<mapsto> v)"
  by (induction al) (auto simp: fun_eq_iff)

section \<open>Creating a table\<close>

text \<open>Writing the description to a new page.\<close>

lemma save_info_ok:
  assumes s: "pool_ok s n" and n: "n < 60000" and x: "info_ok x" "info_indexes x = []" "length (info_enc x) \<le> PAGE_SIZE"
  shows "\<exists>t. save_info x s = Inr t \<and> pool_ok t (Suc n) \<and> same_views n s t \<and> on_info (view t (Suc n)) x"
proof -
  obtain u where u: "newPage s = Inr (int (Suc n), u)" "pool_ok u (Suc n)" "same_views n s u" using pool_new[OF s n] by blast
  have bare: "bare_info x = x" using x(2) by (simp add: bare_info_def)
  have w: "\<exists>b'. serializeTableInfo x b = Inr b' \<and> canon b' \<and> on_info b' x" if c: "canon b" for b
    using c x memcpy_to_canon[OF c, of 0 "info_enc x"] unfolding serializeTableInfo_bytes[OF x(1)]
    by (auto simp: on_info_def bare canon_def memcpy_to_def gives_def)
  obtain f v b t where t: "fetch_frame u (int (Suc n)) = Inr (f, view u (Suc n), v)" "serializeTableInfo x (view u (Suc n)) = Inr b"
    "on_info b x" "markAsDirty (store_frame v f b) (int (Suc n)) = Inr t" "pool_ok t (Suc n)" "view t (Suc n) = b"
    "\<forall>j. 1 \<le> j \<and> j \<le> Suc n \<and> j \<noteq> Suc n \<longrightarrow> view t j = view u j"
    using pool_write[of u "Suc n" "Suc n" "serializeTableInfo x" "\<lambda>b. on_info b x", OF u(2) _ _ w] by auto
  have "save_info x s = Inr t" using u(1) t(1,2,4) by (simp add: save_info_def)
  then show ?thesis using u(3) t(3,5,6,7) by (auto simp: same_views_def)
qed

lemma new_info_ok:
  assumes c: "catalog_ok c m" and m: "m < 50000" "length (infos c) < 50000"
  shows "\<exists>x u. new_info c name cs = Inr (x, c\<lparr>DB_BPM := u, next_table_id := int (Suc (length (infos c)))\<rparr>) \<and>
    pool_ok u (Suc (Suc m)) \<and> same_views m (DB_BPM c) u \<and> info_name x = name \<and> info_id x = int (Suc (length (infos c))) \<and>
    info_schema x = cs \<and> info_first_page x = int (Suc m) \<and> info_indexes x = [] \<and> foreign_keys x = [] \<and> unique_constraints x = [] \<and>
    primary_key_columns x = [] \<and> (\<exists>p0 ps es. table_wf u (Suc (Suc m)) (heap (info_heap x)) p0 ps es)"
proof -
  obtain t u where t: "new_table (DB_BPM c) 0 = Inr (t, u)" "pool_ok u (Suc (Suc m))" "same_views m (DB_BPM c) u"
    "table_wf u (Suc (Suc m)) t (Suc m) [Suc (Suc m)] (\<lambda>_. [])"
    using new_table_pool[OF catalog_okD(2)[OF c] m(1)] by blast
  have "table_wf u (Suc (Suc m)) (t\<lparr>table_name := name, cols := cs, table_id := int (Suc (length (infos c)))\<rparr>) (Suc m) [Suc (Suc m)] (\<lambda>_. [])"
    using t(4) by (simp add: table_wf_def)
  moreover have "first_page_id t = int (Suc m)" using table_wfD(3)[OF t(4)] .
  moreover have "in_i32 (int (length (infos c)) + 1)" using m(2) by (simp add: in_i32_def)
  ultimately show ?thesis using t(1-3) catalog_okD(4)[OF c]
    by (simp add: new_info_def Let_def add.commute) blast
qed

text \<open>Entering the table; the constraints may have been resolved in between.\<close>

lemma enter_table:
  assumes c: "catalog_ok c m" and nm: "\<not> TableExists c name"
    and u: "pool_ok u (Suc (Suc m))" "same_views m (DB_BPM c) u"
    and x: "info_name x = name" "info_id x = int (Suc (length (infos c)))" "\<exists>p0 ps es. table_wf u (Suc (Suc m)) (heap (info_heap x)) p0 ps es"
    and t: "pool_ok t (Suc (Suc (length (infos c))))" "same_views (Suc (length (infos c))) (catalog_BPM c) t"
      "on_info (view t (Suc (Suc (length (infos c))))) x"
    and d: "d = c\<lparr>DB_BPM := u, next_table_id := int (Suc (length (infos c))), infos := infos c @ [x],
      tables := AList.update name (length (infos c)) (tables c),
      tables_ids_map := AList.update (info_id x) (length (infos c)) (tables_ids_map c), catalog_BPM := t\<rparr>"
  shows "catalog_ok d (Suc (Suc m))" "GetTable d = (GetTable c)(name \<mapsto> length (infos c))"
    "GetTable_id d = (GetTable_id c)(int (Suc (length (infos c))) \<mapsto> length (infos c))" "length (tables d) = Suc (length (tables c))"
proof -
  let ?n = "length (infos c)"
  note k = catalog_okD[OF c]
  have fresh: "name \<notin> fst ` set (tables c)" using nm by (simp add: TableExists_def GetTable_def map_of_eq_None_iff)
  have small: "a < ?n" if "a \<in> snd ` set (tables c)" for a using k(10) that by fastforce
  have ids: "int (Suc ?n) \<notin> fst ` set (tables_ids_map c)" using small by (fastforce simp: k(9))
  have tb: "tables d = tables c @ [(name, ?n)]" "tables_ids_map d = tables_ids_map c @ [(int (Suc ?n), ?n)]"
    using update_new[OF fresh] update_new[OF ids] by (simp_all add: d x(2))
  have bu: "bpm_inv u (Suc (Suc m)) {}" using u(1) by (simp add: pool_ok_def)
  have wf: "\<exists>p0 ps es. table_wf u (Suc (Suc m)) (heap (info_heap (infos c ! a))) p0 ps es" if "(na, a) \<in> set (tables c)" for na a
    using k(10)[OF that] table_wf_same[OF _ bu _ u(2) refl refl] by fastforce
  have pages: "on_info (view t (a + 2)) (infos c ! a)" if "a < ?n" for a
    using k(6)[OF that] t(2) that by (simp add: same_views_def)
  show "catalog_ok d (Suc (Suc m))"
    unfolding catalog_ok_def tb
  proof (intro conjI)
    show "\<forall>a < length (infos d). info_id (infos d ! a) = int (Suc a) \<and> on_info (view (catalog_BPM d) (a + 2)) (infos d ! a)"
      using k(5) pages t(3) x(2) by (auto simp: d nth_append less_Suc_eq)
    show "\<forall>(na, a) \<in> set (tables c @ [(name, ?n)]). a < length (infos d) \<and> info_name (infos d ! a) = na \<and>
        (\<exists>p0 ps es. table_wf (DB_BPM d) (Suc (Suc m)) (heap (info_heap (infos d ! a))) p0 ps es)"
      using k(10) wf x(1,3) by (fastforce simp: d nth_append)
    show "distinct (map snd (tables c @ [(name, ?n)]))" using k(8) small by auto
  qed (use k(3,7,9) fresh u(1) t(1) x(2) in \<open>auto simp: d\<close>)
  show "GetTable d = (GetTable c)(name \<mapsto> ?n)"
    using map_of_new[OF fresh] by (simp add: GetTable_def tb fun_eq_iff del: map_of_append)
  show "GetTable_id d = (GetTable_id c)(int (Suc ?n) \<mapsto> ?n)"
    using map_of_new[OF ids] by (simp add: GetTable_id_def tb fun_eq_iff del: map_of_append)
  show "length (tables d) = Suc (length (tables c))" by (simp add: tb)
qed


definition schema_fits :: "string \<Rightarrow> column list \<Rightarrow> bool" where
  "schema_fits name cs \<longleftrightarrow> (\<forall>c \<in> set cs. col_ok c) \<and> 20 + length name + length (seq_enc colrec_enc cs) \<le> PAGE_SIZE"

lemma new_info_fits:
  assumes f: "schema_fits name cs" and x: "info_name x = name" "info_id x = int (Suc n)" "info_schema x = cs" "info_first_page x = int (Suc m)"
      "info_indexes x = []" and n: "n < 50000" "m < 50000"
  shows "info_ok x" "length (info_enc x) \<le> PAGE_SIZE"
proof -
  have "length cs \<le> length (seq_enc colrec_enc cs)"
    by (induction cs) (auto simp: colrec_enc_def)
  then show "info_ok x" "length (info_enc x) \<le> PAGE_SIZE"
    using f x n by (auto simp: info_ok_def schema_fits_def info_enc_def in_i32_def PAGE_SIZE_def)
qed

lemma create_table_step:
  assumes c: "catalog_ok c m" and m: "m < 50000" "length (infos c) < 50000" and nm: "\<not> TableExists c name" and f: "schema_fits name cs"
  shows "\<exists>d. CreateTable c name cs = Inr (Some (length (infos c)), d) \<and> catalog_ok d (Suc (Suc m)) \<and>
    length (infos d) = Suc (length (infos c)) \<and> length (tables d) = Suc (length (tables c)) \<and> info_indexes (infos d ! length (infos c)) = [] \<and>
    GetTable d = (GetTable c)(name \<mapsto> length (infos c)) \<and>
    GetTable_id d = (GetTable_id c)(int (Suc (length (infos c))) \<mapsto> length (infos c)) \<and>
    read_table_info (view (catalog_BPM d) (length (infos c) + 2)) = Inr (name, int (Suc (length (infos c))), int (Suc m), nullable cs, [])"
proof -
  let ?n = "length (infos c)"
  obtain x u where x: "new_info c name cs = Inr (x, c\<lparr>DB_BPM := u, next_table_id := int (Suc ?n)\<rparr>)" "pool_ok u (Suc (Suc m))"
    "same_views m (DB_BPM c) u" "info_name x = name" "info_id x = int (Suc ?n)" "info_schema x = cs" "info_first_page x = int (Suc m)"
    "info_indexes x = []" "\<exists>p0 ps es. table_wf u (Suc (Suc m)) (heap (info_heap x)) p0 ps es"
    using new_info_ok[OF c m] by metis
  note ok = new_info_fits[OF f x(4,5,6,7,8) m(2,1)]
  obtain t where t: "save_info x (catalog_BPM c) = Inr t" "pool_ok t (Suc (Suc ?n))" "same_views (Suc ?n) (catalog_BPM c) t"
    "on_info (view t (Suc (Suc ?n))) x"
    using save_info_ok[OF catalog_okD(1)[OF c] _ ok(1) x(8) ok(2)] m(2) by auto
  define d where "d = c\<lparr>DB_BPM := u, next_table_id := int (Suc ?n), infos := infos c @ [x],
      tables := AList.update name ?n (tables c), tables_ids_map := AList.update (info_id x) ?n (tables_ids_map c), catalog_BPM := t\<rparr>"
  note e = enter_table[OF c nm x(2,3,4,5,9) t(2,3,4) d_def]
  have "CreateTable c name cs = Inr (Some ?n, d)" using nm x(1) t(1) by (simp add: CreateTable_def d_def Let_def)
  moreover have "bpm_inv t (Suc (Suc ?n)) {}" using t(2) by (simp add: pool_ok_def)
  then have "read_table_info (view t (Suc (Suc ?n))) = Inr (name, int (Suc ?n), int (Suc m), nullable cs, [])"
    using on_info_read[OF t(4)] view_canon[of t] x(4,5,6,7) by (simp add: canon_def)
  ultimately show ?thesis using e x(8) by (simp add: d_def)
qed

text \<open>
  C27. CREATE TABLE of a new name gives the table the next id, enters it under its name and its id and changes
  no other entry; the new page of the catalog's file describes it, and the catalog is well formed again.
\<close>

theorem create_table_ok:
  assumes c: "catalog_ok c m" and m: "m < 50000" "length (infos c) < 50000" and nm: "\<not> TableExists c name" and f: "schema_fits name cs"
  shows "\<exists>d. CreateTable c name cs = Inr (Some (length (infos c)), d) \<and> catalog_ok d (Suc (Suc m)) \<and>
    length (infos d) = Suc (length (infos c)) \<and> length (tables d) = Suc (length (tables c)) \<and>
    GetTable d = (GetTable c)(name \<mapsto> length (infos c)) \<and>
    GetTable_id d = (GetTable_id c)(int (Suc (length (infos c))) \<mapsto> length (infos c)) \<and>
    read_table_info (view (catalog_BPM d) (length (infos c) + 2)) = Inr (name, int (Suc (length (infos c))), int (Suc m), nullable cs, [])"
  using create_table_step[OF assms] by blast

section \<open>Saving, indexes, dropping\<close>

lemma deletePage_capacity:
  assumes s: "bpm_inv s n {}" and t: "bpm_deletePage s p = Inr t"
  shows "dm_capacity (disk t) = dm_capacity (disk s)"
proof (cases "map_of (page_table s) p")
  case None
  then show ?thesis using t by (simp add: bpm_deletePage_def)
next
  case (Some f)
  have f: "f \<in> used s {}" "pages_ids s ! nat f = p" using bpm_invD(9)[OF s] Some by blast+
  have ff: "f \<in> frame_ids" using f(1) by (rule used_frame)
  obtain d where d: "(if is_dirty s ! nat f then writePage (disk s) p (frames s ! nat f) else Inr (disk s)) = Inr d"
    "dm_capacity d = dm_capacity (disk s)"
    using write_back[OF s f(1)] f(2) by blast
  then have "disk t = d"
    using t Some vec_frame[OF ff bpm_invD(2)[OF s]] vec_frame[OF ff bpm_invD(4)[OF s]]
    by (cases "is_dirty s ! nat f") (auto simp: bpm_deletePage_def rbind_eq_Inr)
  with d(2) show ?thesis by simp
qed

lemma drop_chain_ok:
  "pool_ok s n \<Longrightarrow> links (view s) (p # ps) \<Longrightarrow> \<forall>q \<in> set (p # ps). 1 \<le> q \<and> q \<le> n \<Longrightarrow> Suc (length ps) < k \<Longrightarrow>
   \<exists>t. drop_chain k s (int p) = Inr t \<and> pool_ok t n \<and> same_views n s t"
proof (induction ps arbitrary: p k s)
  case (Nil p k s)
  have "k = Suc (Suc (k - 2))" using Nil.prems(4) by simp
  then obtain j where k: "k = Suc (Suc j)" by blast
  have inv: "bpm_inv s n {}" using Nil by (simp add: pool_ok_def)
  obtain f u where u: "fetchPage s (int p) = Inr (Some f, u)" "bpm_inv u n {}" "same_views n s u" "frame_at u f = Inr (view s p)"
    "dm_capacity (disk u) = dm_capacity (disk s)"
    using fetchPage_inv[OF inv, of p] Nil.prems(3) by auto
  obtain t where t: "bpm_deletePage u (int p) = Inr t" "bpm_inv t n {}" "same_views n u t" using bpm_deletePage_inv[OF u(2)] by blast
  have "drop_chain k s (int p) = Inr t" using u(1,4) t(1) Nil.prems(2) by (simp add: k)
  then show ?case using Nil.prems(1) t u deletePage_capacity[OF u(2) t(1)] same_views_trans[OF u(3) t(3)] by (simp add: pool_ok_def)
next
  case (Cons q ps p k s)
  then obtain j where k: "k = Suc j" by (cases k) auto
  have inv: "bpm_inv s n {}" using Cons by (simp add: pool_ok_def)
  obtain f u where u: "fetchPage s (int p) = Inr (Some f, u)" "bpm_inv u n {}" "same_views n s u" "frame_at u f = Inr (view s p)"
    "dm_capacity (disk u) = dm_capacity (disk s)"
    using fetchPage_inv[OF inv, of p] Cons.prems(3) by auto
  obtain t where t: "bpm_deletePage u (int p) = Inr t" "bpm_inv t n {}" "same_views n u t" using bpm_deletePage_inv[OF u(2)] by blast
  have v: "same_views n s t" by (rule same_views_trans[OF u(3) t(3)])
  have ok: "pool_ok t n" using Cons.prems(1) t(2) u(5) deletePage_capacity[OF u(2) t(1)] by (simp add: pool_ok_def)
  have "view t x = view s x" if "x \<in> set (q # ps)" for x using Cons.prems(3) that v by (auto simp: same_views_def)
  then have "links (view t) (q # ps)"
    using links_cong[of "q # ps" "view t" "view s"] Cons.prems(2) by simp
  then obtain w where w: "drop_chain j t (int q) = Inr w" "pool_ok w n" "same_views n t w"
    using Cons.IH[OF ok, of q j] Cons.prems(3,4) k by auto
  have "drop_chain k s (int p) = Inr w" using u(1,4) t(1) w(1) Cons.prems(2) by (simp add: k)
  then show ?case using w(2) same_views_trans[OF v w(3)] by blast
qed

text \<open>Rewriting the first page.\<close>

definition header_enc :: "catalog \<Rightarrow> byte list" where
  "header_enc c = i32_bytes (catalog_first_page_id c) @ i32_bytes (next_table_id c) @ i32_bytes (int (length (tables c)))"

lemma save_catalog_ok:
  assumes c: "catalog_ok c m"
  shows "\<exists>t. save_catalog c = Inr (c\<lparr>catalog_BPM := t\<rparr>) \<and> catalog_ok (c\<lparr>catalog_BPM := t\<rparr>) m \<and>
    peek (mem (view t 1)) 0 12 = header_enc c \<and> (\<forall>a < length (infos c). view t (a + 2) = view (catalog_BPM c) (a + 2))"
proof -
  note k = catalog_okD[OF c]
  let ?w = "\<lambda>b. rbind (memcpy_to b 0 (i32_bytes 1)) (\<lambda>b. rbind (memcpy_to b 4 (i32_bytes (next_table_id c)))
    (\<lambda>b. memcpy_to b 8 (i32_bytes (int (length (tables c))))))"
  have w: "?w b = memcpy_to b 0 (header_enc c)" for b
    unfolding header_enc_def k(3) by ((rule memcpy_then)+) simp_all
  have l: "length (header_enc c) = 12" by (simp add: header_enc_def)
  have "\<exists>b'. ?w b = Inr b' \<and> canon b' \<and> peek (mem b') 0 12 = header_enc c" if b: "canon b" for b
    using b memcpy_to_canon[OF b, of 0 "header_enc c"] peek_put_same[of "mem b" 0 "header_enc c"] unfolding w
    by (auto simp: canon_def memcpy_to_def gives_def PAGE_SIZE_def l)
  note W = pool_write[of "catalog_BPM c" "Suc (length (infos c))" 1 ?w "\<lambda>b. peek (mem b) 0 12 = header_enc c", OF k(1) _ _ this]
  obtain f u b t where t: "fetch_frame (catalog_BPM c) 1 = Inr (f, view (catalog_BPM c) 1, u)" "?w (view (catalog_BPM c) 1) = Inr b"
    "peek (mem b) 0 12 = header_enc c" "markAsDirty (store_frame u f b) 1 = Inr t" "pool_ok t (Suc (length (infos c)))" "view t 1 = b"
    "\<forall>j. 1 \<le> j \<and> j \<le> Suc (length (infos c)) \<and> j \<noteq> 1 \<longrightarrow> view t j = view (catalog_BPM c) j"
    using W by auto
  have "save_catalog c = Inr (c\<lparr>catalog_BPM := t\<rparr>)"
    using t(1,2,4) k(3) unfolding save_catalog_def Let_def by (auto simp: rbind_eq_Inr)
  moreover have "catalog_ok (c\<lparr>catalog_BPM := t\<rparr>) m"
    using c t(5,7) unfolding catalog_ok_def by simp
  ultimately show ?thesis using t(3,6,7) by auto
qed


lemma GetTable_in: "catalog_ok c m \<Longrightarrow> GetTable c name = Some a \<longleftrightarrow> (name, a) \<in> set (tables c)"
  using catalog_okD(7) by (simp add: GetTable_def)

lemma catalog_page_read:
  assumes c: "catalog_ok c m" and a: "a < length (infos c)"
  shows "read_table_info (view (catalog_BPM c) (a + 2)) =
    Inr (info_name (infos c ! a), int (Suc a), info_first_page (infos c ! a), nullable (info_schema (infos c ! a)), [])"
proof -
  have "cap (view (catalog_BPM c) (a + 2)) = PAGE_SIZE"
    using view_canon catalog_okD(1)[OF c] by (auto simp: pool_ok_def canon_def)
  then show ?thesis using on_info_read[OF catalog_okD(6)[OF c a]] catalog_okD(5)[OF c a] by simp
qed

text \<open>Dropping the entry of one of two tables that agree.\<close>

lemma same_entry:
  assumes "distinct (map fst al)" "distinct (map snd al)" "(name, a) \<in> set al" "(na, b) \<in> set al"
  shows "b = a \<longleftrightarrow> na = name"
proof -
  have "inj_on fst (set al)" "inj_on snd (set al)" using assms(1,2) by (simp_all add: distinct_map)
  from inj_onD[OF this(1) _ assms(4,3)] inj_onD[OF this(2) _ assms(4,3)] show ?thesis by auto
qed

lemma length_delete: "distinct (map fst al) \<Longrightarrow> (name, a) \<in> set al \<Longrightarrow> Suc (length (AList.delete name al)) = length al"
proof (induction al)
  case (Cons x al)
  show ?case
  proof (cases "fst x = name")
    case True
    then have "name \<notin> fst ` set al" using Cons.prems(1) by auto
    then have "AList.delete name al = al" by (induction al) auto
    then show ?thesis using True by (cases x) simp
  next
    case False
    then show ?thesis using Cons by (cases x) auto
  qed
qed simp

lemma delete_both:
  assumes "distinct (map fst al)" "distinct (map snd al)" "(name, a) \<in> set al"
  shows "AList.delete (int (Suc a)) (map (\<lambda>(_, a). (int (Suc a), a)) al) = map (\<lambda>(_, a). (int (Suc a), a)) (AList.delete name al)"
proof -
  have "(int (Suc a) \<noteq> int (Suc b)) = (name \<noteq> na)" if "(na, b) \<in> set al" for na b
    using same_entry[OF assms that] by auto
  then have "filter ((\<lambda>(k, _). int (Suc a) \<noteq> k) \<circ> (\<lambda>(_, a). (int (Suc a), a))) al = filter (\<lambda>(k, _). name \<noteq> k) al"
    by (intro filter_cong) auto
  then show ?thesis unfolding AList.delete_eq filter_map by simp
qed

lemma drop_entry:
  assumes c: "catalog_ok c m" and a: "(name, a) \<in> set (tables c)" and u: "pool_ok u m" "same_views m (DB_BPM c) u"
    and d: "d = c\<lparr>DB_BPM := u, infos := (infos c)[a := (infos c ! a)\<lparr>info_heap := h\<rparr>], tables := AList.delete name (tables c),
      tables_ids_map := AList.delete (info_id (infos c ! a)) (tables_ids_map c)\<rparr>"
  shows "catalog_ok d m"
proof -
  note k = catalog_okD[OF c]
  have al: "a < length (infos c)" using k(10)[OF a] by blast
  have ids: "tables_ids_map d = map (\<lambda>(_, a). (int (Suc a), a)) (tables d)"
    using delete_both[OF k(7,8) a] k(5)[OF al] by (simp add: d k(9))
  have sub: "(na, b) \<in> set (tables c) \<and> b \<noteq> a" if "(na, b) \<in> set (tables d)" for na b
    using same_entry[OF k(7,8) a, of na b] that by (auto simp: d AList.delete_eq)
  have bu: "bpm_inv u m {}" using u(1) by (simp add: pool_ok_def)
  have info: "info_id (infos d ! b) = info_id (infos c ! b)" "info_name (infos d ! b) = info_name (infos c ! b)"
    "on_info x (infos d ! b) = on_info x (infos c ! b)" if "b < length (infos c)" for b x
    using that by (cases "b = a"; simp add: d on_info_def bare_info_def info_ok_def info_enc_def)+
  show ?thesis
    unfolding catalog_ok_def
  proof (intro conjI)
    show "\<forall>(na, b) \<in> set (tables d). b < length (infos d) \<and> info_name (infos d ! b) = na \<and>
        (\<exists>p0 ps es. table_wf (DB_BPM d) m (heap (info_heap (infos d ! b))) p0 ps es)"
    proof (clarify)
      fix na b assume "(na, b) \<in> set (tables d)"
      then have s: "(na, b) \<in> set (tables c)" "b \<noteq> a" using sub by blast+
      then obtain p0 ps es where "b < length (infos c)" "info_name (infos c ! b) = na"
        "table_wf (DB_BPM c) m (heap (info_heap (infos c ! b))) p0 ps es" using k(10) by blast
      then show "b < length (infos d) \<and> info_name (infos d ! b) = na \<and> (\<exists>p0 ps es. table_wf (DB_BPM d) m (heap (info_heap (infos d ! b))) p0 ps es)"
        using table_wf_same[OF _ bu le_refl u(2) refl refl, of "heap (info_heap (infos c ! b))" p0 ps es] s(2) by (auto simp: d)
    qed
    show "distinct (map fst (tables d))" "distinct (map snd (tables d))"
      using k(7,8) by (auto simp: d AList.delete_eq distinct_map_filter)
  qed (use k u ids info in \<open>auto simp: d\<close>)
qed

lemma distinct_bounded: "distinct ps \<Longrightarrow> \<forall>p \<in> set ps. 1 \<le> p \<and> p \<le> m \<Longrightarrow> length ps \<le> (m :: nat)"
  using card_mono[of "{1..m}" "set ps"] distinct_card[of ps] by (simp add: subset_iff)

text \<open>
  C28. DROP TABLE takes the table out of both maps and changes no other entry. But its description stays on its
  page, and the pages a reopened catalog reads are the first ones, as many as there are tables left: they
  describe the tables created first, dropped or not. So a dropped table comes back, and the table created
  last is never read again.
\<close>

theorem drop_table_comes_back:
  assumes c: "catalog_ok c m" and a: "GetTable c name = Some a" and k: "Suc m < k" and all: "length (tables c) = length (infos c)"
  shows "\<exists>d e. Catalog_DropTable k c name = Inr d \<and> catalog_ok d m \<and> save_catalog d = Inr e \<and>
    GetTable d = (GetTable c)(name := None) \<and> GetTable_id d = (GetTable_id c)(int (Suc a) := None) \<and>
    peek (mem (view (catalog_BPM e) 1)) 0 12 =
      i32_bytes 1 @ i32_bytes (int (length (infos c))) @ i32_bytes (int (length (infos c)) - 1) \<and>
    (\<forall>i. 1 \<le> i \<and> i \<le> length (infos c) - 1 \<longrightarrow> read_table_info (view (catalog_BPM e) (i + 1)) =
       Inr (info_name (infos c ! (i - 1)), int i, info_first_page (infos c ! (i - 1)), nullable (info_schema (infos c ! (i - 1))), []))"
proof -
  note K = catalog_okD[OF c]
  have t: "(name, a) \<in> set (tables c)" using a GetTable_in[OF c] by blast
  obtain p0 ps es where w: "a < length (infos c)" "table_wf (DB_BPM c) m (heap (info_heap (infos c ! a))) p0 ps es"
    using K(10)[OF t] by blast
  note W = table_wfD[OF w(2)]
  have "length (p0 # ps) \<le> m" using distinct_bounded[OF W(5)] W(6) by blast
  then obtain u where u: "drop_chain k (DB_BPM c) (int p0) = Inr u" "pool_ok u m" "same_views m (DB_BPM c) u"
    using drop_chain_ok[OF K(2) W(7), of k] W(6) k by force
  define h where "h = (info_heap (infos c ! a))\<lparr>heap := (heap (info_heap (infos c ! a)))\<lparr>first_page_id := - 1, last_page_id := - 1\<rparr>\<rparr>"
  define d where "d = c\<lparr>DB_BPM := u, infos := (infos c)[a := (infos c ! a)\<lparr>info_heap := h\<rparr>], tables := AList.delete name (tables c),
      tables_ids_map := AList.delete (info_id (infos c ! a)) (tables_ids_map c)\<rparr>"
  have ok: "catalog_ok d m" by (rule drop_entry[OF c t u(2,3) d_def])
  have dr: "Catalog_DropTable k c name = Inr d"
    using a w(1) W(3) u(1) by (simp add: Catalog_DropTable_def deleteTableHeap_def vec_at_def d_def h_def)
  obtain v where v: "save_catalog d = Inr (d\<lparr>catalog_BPM := v\<rparr>)" "catalog_ok (d\<lparr>catalog_BPM := v\<rparr>) m"
    "peek (mem (view v 1)) 0 12 = header_enc d" using save_catalog_ok[OF ok] by blast
  have "length (AList.delete name (tables c)) = length (tables c) - 1"
    using length_delete[OF K(7) t] by simp
  moreover have "0 < length (tables c)" using t by (cases "tables c") auto
  ultimately have "header_enc d = i32_bytes 1 @ i32_bytes (int (length (infos c))) @ i32_bytes (int (length (infos c)) - 1)"
    using K(3,4) all by (simp add: header_enc_def d_def of_nat_diff Suc_leI)
  moreover have "GetTable d = (GetTable c)(name := None)"
    by (simp add: GetTable_def d_def AList.delete_conv' fun_eq_iff)
  moreover have "GetTable_id d = (GetTable_id c)(int (Suc a) := None)"
    using K(5)[OF w(1)] by (simp add: GetTable_id_def d_def AList.delete_conv' fun_eq_iff)
  moreover have "read_table_info (view v (i + 1)) = Inr (info_name (infos c ! (i - 1)), int i, info_first_page (infos c ! (i - 1)),
      nullable (info_schema (infos c ! (i - 1))), [])" if "1 \<le> i" "i \<le> length (infos c) - 1" for i
    using catalog_page_read[OF v(2), of "i - 1"] that by (cases "i - 1 = a") (simp_all add: d_def)
  ultimately show ?thesis using dr ok v(1,3) by (intro exI[of _ d] exI[of _ "d\<lparr>catalog_BPM := v\<rparr>"]) simp
qed


text \<open>
  C30. AddIndex enters an index under a name that is new for its table, and GetIndex then finds it; but only
  the first page is written, so the description of the table on disk still has no index.
\<close>

theorem added_index_is_not_saved:
  assumes c: "catalog_ok c m" and a: "GetTable c tname = Some a" and nw: "Catalog_GetIndex c tname iname = None"
  shows "\<exists>d. AddIndex c tname iname cname ty rp = Inr (True, d) \<and> catalog_ok d m \<and>
    Catalog_GetIndex d tname iname = Some \<lparr>ix_name = iname, ix_column = cname, ix_type = ty, ix_root_page = rp\<rparr> \<and>
    read_table_info (view (catalog_BPM d) (a + 2)) =
      Inr (tname, int (Suc a), info_first_page (infos c ! a), nullable (info_schema (infos c ! a)), [])"
proof -
  note K = catalog_okD[OF c]
  have t: "(tname, a) \<in> set (tables c)" using a GetTable_in[OF c] by blast
  then have al: "a < length (infos c)" "info_name (infos c ! a) = tname" using K(10) by blast+
  let ?i = "\<lparr>ix_name = iname, ix_column = cname, ix_type = ty, ix_root_page = rp\<rparr>"
  define d where "d = c\<lparr>infos := (infos c)[a := (infos c ! a)\<lparr>info_indexes := info_indexes (infos c ! a) @ [?i]\<rparr>]\<rparr>"
  have fresh: "\<forall>i \<in> set (info_indexes (infos c ! a)). ix_name i \<noteq> iname"
    using nw a al(1) by (auto simp: Catalog_GetIndex_def find_None_iff)
  have info: "info_id (infos d ! b) = info_id (infos c ! b)" "info_name (infos d ! b) = info_name (infos c ! b)"
    "on_info x (infos d ! b) = on_info x (infos c ! b)" "info_heap (infos d ! b) = info_heap (infos c ! b)" if "b < length (infos c)" for b x
    using that by (cases "b = a"; simp add: d_def on_info_def bare_info_def)+
  have "catalog_ok d m"
    unfolding catalog_ok_def
  proof (intro conjI)
    show "\<forall>(na, b) \<in> set (tables d). b < length (infos d) \<and> info_name (infos d ! b) = na \<and>
        (\<exists>p0 ps es. table_wf (DB_BPM d) m (heap (info_heap (infos d ! b))) p0 ps es)"
    proof (clarify)
      fix na b assume "(na, b) \<in> set (tables d)"
      then have "b < length (infos c) \<and> info_name (infos c ! b) = na \<and> (\<exists>p0 ps es. table_wf (DB_BPM c) m (heap (info_heap (infos c ! b))) p0 ps es)"
        using K(10) by (simp add: d_def)
      then show "b < length (infos d) \<and> info_name (infos d ! b) = na \<and> (\<exists>p0 ps es. table_wf (DB_BPM d) m (heap (info_heap (infos d ! b))) p0 ps es)"
        using info by (simp add: d_def)
    qed
  qed (use K info in \<open>auto simp: d_def\<close>)
  from save_catalog_ok[OF this] obtain v where v: "save_catalog d = Inr (d\<lparr>catalog_BPM := v\<rparr>)" "catalog_ok (d\<lparr>catalog_BPM := v\<rparr>) m" by blast
  have "AddIndex c tname iname cname ty rp = Inr (True, d\<lparr>catalog_BPM := v\<rparr>)"
    using a al(1) fresh v(1) by (auto simp: AddIndex_def vec_at_def d_def)
  moreover have "find (\<lambda>i. ix_name i = iname) (info_indexes (infos c ! a) @ [?i]) = Some ?i"
    using fresh by (induction "info_indexes (infos c ! a)" rule: rev_induct) (auto simp: find_Some_iff nth_append intro!: exI[of _ "length (info_indexes (infos c ! a))"])
  then have "Catalog_GetIndex (d\<lparr>catalog_BPM := v\<rparr>) tname iname = Some ?i"
    using a al(1) by (simp add: Catalog_GetIndex_def GetTable_def d_def)
  moreover have "read_table_info (view v (a + 2)) =
      Inr (tname, int (Suc a), info_first_page (infos c ! a), nullable (info_schema (infos c ! a)), [])"
    using catalog_page_read[OF v(2), of a] al by (simp add: d_def)
  ultimately show ?thesis using v(2) by (intro exI[of _ "d\<lparr>catalog_BPM := v\<rparr>"]) simp
qed


section \<open>The statement\<close>

lemma column_names_total: "(\<exists>e. column_names_to_indexes xs cs = Inl (Throw e)) \<or> (\<exists>is. column_names_to_indexes xs cs = Inr is)"
  by (induction xs) auto

definition same_table :: "table_info \<Rightarrow> table_info \<Rightarrow> bool" where
  "same_table x y \<longleftrightarrow> info_name y = info_name x \<and> info_id y = info_id x \<and> info_schema y = info_schema x \<and>
     info_first_page y = info_first_page x \<and> info_heap y = info_heap x \<and> info_indexes y = info_indexes x"

lemma same_table_trans: "same_table x y \<Longrightarrow> same_table y z \<Longrightarrow> same_table x z"
  by (simp add: same_table_def)

lemma resolve_total:
  assumes c: "catalog_ok c m" and d: "infos d = infos c" "tables d = tables c"
  shows "(\<exists>e. resolve_constraint d cs k x = Inl (Throw e)) \<or> (\<exists>y. resolve_constraint d cs k x = Inr y \<and> same_table x y)"
proof -
  have look: "a < length (infos d)" if "GetTable d name = Some a" for name a
    using that catalog_okD(10)[OF c, of name a] d GetTable_in[OF c, of name a] by (simp add: GetTable_def)
  have st: "same_table x (x\<lparr>primary_key_columns := is\<rparr>)" "same_table x (x\<lparr>unique_constraints := u\<rparr>)" "same_table x (x\<lparr>foreign_keys := f\<rparr>)" for "is" u f
    by (simp_all add: same_table_def)
  show ?thesis
  proof (cases "column_names_to_indexes (con_columns k) cs")
    case (Inl e)
    then show ?thesis using column_names_total[of "con_columns k" cs] by (auto simp: resolve_constraint_def)
  next
    case (Inr js)
    show ?thesis
    proof (cases "con_type k = FOREIGN_KEY \<and> GetTable d (referenced_table k) \<noteq> None")
      case True
      then obtain a where a: "GetTable d (referenced_table k) = Some a" by auto
      show ?thesis using True Inr a look[OF a] st(3) column_names_total[of "referenced_columns k" "info_schema (infos d ! a)"]
        by (auto simp: resolve_constraint_def vec_at_def)
    next
      case False
      then show ?thesis using Inr st by (cases "con_type k") (auto simp: resolve_constraint_def)
    qed
  qed
qed

lemma resolve_all_total:
  assumes c: "catalog_ok c m" and d: "infos d = infos c" "tables d = tables c"
  shows "(\<exists>e. rfold (resolve_constraint d cs) ks x = Inl (Throw e)) \<or> (\<exists>y. rfold (resolve_constraint d cs) ks x = Inr y \<and> same_table x y)"
proof (induction ks arbitrary: x)
  case Nil
  have "same_table x x" by (simp add: same_table_def)
  then show ?case by (simp add: rfold_Nil)
next
  case (Cons k ks)
  consider e where "resolve_constraint d cs k x = Inl (Throw e)" | y where "resolve_constraint d cs k x = Inr y" "same_table x y"
    using resolve_total[OF c d] by blast
  then show ?case
  proof cases
    case 2
    then show ?thesis using Cons.IH[of y] same_table_trans by auto
  qed simp
qed

lemma resolve_self_throws:
  assumes c: "catalog_ok c m" and d: "infos d = infos c" "tables d = tables c" and nm: "\<not> TableExists c name"
    and k: "k \<in> set ks" "con_type k = FOREIGN_KEY" "referenced_table k = name"
  shows "\<exists>e. rfold (resolve_constraint d cs) ks x = Inl (Throw e)"
  using k(1)
proof (induction ks arbitrary: x)
  case (Cons j ks)
  consider e where "resolve_constraint d cs j x = Inl (Throw e)" | y where "resolve_constraint d cs j x = Inr y"
    using resolve_total[OF c d] by blast
  then show ?case
  proof cases
    case 2
    have "GetTable d name = None" using nm d(2) by (simp add: TableExists_def GetTable_def)
    then have "j \<noteq> k" using 2 k(2,3) by (auto simp: resolve_constraint_def rbind_eq_Inr)
    then show ?thesis using 2 Cons by auto
  qed simp
qed simp

text \<open>
  C29. A CREATE TABLE statement for a new name with a schema that fits a page creates the table as CreateTable
  does, or throws; it never runs into undefined behaviour. It always throws when a foreign key refers to the
  table itself.
\<close>

theorem create_statement_total:
  assumes c: "catalog_ok c m" and m: "m < 50000" "length (infos c) < 50000" and nm: "\<not> TableExists c (create_name st)"
    and f: "schema_fits (create_name st) (create_columns st)"
  shows "((\<exists>e. CreateTable_stmt c st = Inl (Throw e)) \<or>
     (\<exists>d. CreateTable_stmt c st = Inr (length (infos c), d) \<and> catalog_ok d (Suc (Suc m)) \<and>
        GetTable d = (GetTable c)(create_name st \<mapsto> length (infos c)) \<and>
        read_table_info (view (catalog_BPM d) (length (infos c) + 2)) =
          Inr (create_name st, int (Suc (length (infos c))), int (Suc m), nullable (create_columns st), []))) \<and>
    ((\<exists>k \<in> set (constraints st). con_type k = FOREIGN_KEY \<and> referenced_table k = create_name st) \<longrightarrow>
      (\<exists>e. CreateTable_stmt c st = Inl (Throw e)))"
proof -
  let ?n = "length (infos c)" and ?name = "create_name st" and ?cs = "create_columns st"
  have g: "GetTable c ?name = None" using nm by (simp add: TableExists_def)
  obtain x u where x: "new_info c ?name ?cs = Inr (x, c\<lparr>DB_BPM := u, next_table_id := int (Suc ?n)\<rparr>)" "pool_ok u (Suc (Suc m))"
    "same_views m (DB_BPM c) u" "info_name x = ?name" "info_id x = int (Suc ?n)" "info_schema x = ?cs" "info_first_page x = int (Suc m)"
    "info_indexes x = []" "\<exists>p0 ps es. table_wf u (Suc (Suc m)) (heap (info_heap x)) p0 ps es"
    using new_info_ok[OF c m] by metis
  let ?c = "c\<lparr>DB_BPM := u, next_table_id := int (Suc ?n)\<rparr>"
  have R: "infos ?c = infos c" "tables ?c = tables c" by simp_all
  show ?thesis
  proof (cases "?cs = []")
    case True
    then show ?thesis using g by (simp add: CreateTable_stmt_def)
  next
    case False
    have eq: "CreateTable_stmt c st = rbind (rfold (resolve_constraint ?c ?cs) (constraints st) x) (\<lambda>x.
        rbind (save_info x (catalog_BPM c)) (\<lambda>t. Inr (?n, ?c\<lparr>infos := infos c @ [x], tables := AList.update ?name ?n (tables c),
          tables_ids_map := AList.update (info_id x) ?n (tables_ids_map c), catalog_BPM := t\<rparr>)))"
      using g False x(1) by (simp add: CreateTable_stmt_def Let_def)
    consider e where "rfold (resolve_constraint ?c ?cs) (constraints st) x = Inl (Throw e)"
      | y where "rfold (resolve_constraint ?c ?cs) (constraints st) x = Inr y" "same_table x y"
      using resolve_all_total[OF c R] by blast
    then show ?thesis
    proof cases
      case 1
      then show ?thesis by (simp add: eq)
    next
      case 2
      have y: "info_name y = ?name" "info_id y = int (Suc ?n)" "info_schema y = ?cs" "info_first_page y = int (Suc m)" "info_indexes y = []"
        "\<exists>p0 ps es. table_wf u (Suc (Suc m)) (heap (info_heap y)) p0 ps es"
        using 2(2) x(4-8) x(9) by (simp_all add: same_table_def)
      note ok = new_info_fits[OF f y(1-5) m(2,1)]
      obtain t where t: "save_info y (catalog_BPM c) = Inr t" "pool_ok t (Suc (Suc ?n))" "same_views (Suc ?n) (catalog_BPM c) t"
        "on_info (view t (Suc (Suc ?n))) y"
        using save_info_ok[OF catalog_okD(1)[OF c] _ ok(1) y(5) ok(2)] m(2) by auto
      define d where "d = ?c\<lparr>infos := infos c @ [y], tables := AList.update ?name ?n (tables c),
          tables_ids_map := AList.update (info_id y) ?n (tables_ids_map c), catalog_BPM := t\<rparr>"
      note e = enter_table[OF c nm x(2,3) y(1,2,6) t(2,3,4) d_def]
      have "CreateTable_stmt c st = Inr (?n, d)" using 2(1) t(1) by (simp add: eq d_def)
      moreover have "bpm_inv t (Suc (Suc ?n)) {}" using t(2) by (simp add: pool_ok_def)
      then have "read_table_info (view t (Suc (Suc ?n))) = Inr (?name, int (Suc ?n), int (Suc m), nullable ?cs, [])"
        using on_info_read[OF t(4)] view_canon[of t] y(1-4) by (simp add: canon_def)
      moreover have False if "\<exists>k \<in> set (constraints st). con_type k = FOREIGN_KEY \<and> referenced_table k = ?name"
        using resolve_self_throws[OF c R nm, of _ "constraints st" ?cs x] that 2(1) by fastforce
      ultimately show ?thesis using e by (auto simp: d_def)
    qed
  qed
qed

section \<open>Examples\<close>

lemma new_catalog_ok:
  assumes "pool_ok cb 0" "pool_ok db m"
  shows "\<exists>c. Catalog hs k j tid cb db True = Inr c \<and> catalog_ok c m \<and> infos c = [] \<and> tables c = []"
proof -
  obtain s where s: "newPage cb = Inr (1, s)" "pool_ok s 1" using pool_new[OF assms(1)] by auto
  let ?c = "\<lparr>infos = [], tables = [], tables_ids_map = [], catalog_BPM = s, DB_BPM = db, next_table_id = 0, catalog_first_page_id = 1\<rparr>"
  have "catalog_ok ?c m" using s(2) assms(2) by (simp add: catalog_ok_def)
  from save_catalog_ok[OF this] obtain t where "save_catalog ?c = Inr (?c\<lparr>catalog_BPM := t\<rparr>)" "catalog_ok (?c\<lparr>catalog_BPM := t\<rparr>) m" by blast
  then show ?thesis using s(1) by (simp add: Catalog_def)
qed

lemma demo_schema_fits: "length name < 100 \<Longrightarrow> schema_fits name demo_cols"
  by (simp add: schema_fits_def demo_cols_def col_ok_def Column_def set_is_nullable_def in_i32_def colrec_enc_def length_col_enc PAGE_SIZE_def)

lemma demo_catalog:
  "\<exists>d c. DiskManager None = Inr d \<and> Catalog length 1 1 0 (BufferPoolManager d) (BufferPoolManager d) True = Inr c \<and>
     catalog_ok c 0 \<and> infos c = [] \<and> tables c = []"
proof -
  obtain d where d: "DiskManager None = Inr d" "dm_inv d 0" "dm_capacity d = 100" using new_disk by blast
  have "disk (BufferPoolManager d) = d" by (simp add: BufferPoolManager_def)
  then have "pool_ok (BufferPoolManager d) 0" using BufferPoolManager_inv(1)[OF d(2)] d(3) by (simp add: pool_ok_def)
  then show ?thesis using new_catalog_ok[of "BufferPoolManager d" "BufferPoolManager d" 0 length 1 1 0] d(1) by auto
qed

lemma create_table_ok_witness:
  "\<exists>d c e. DiskManager None = Inr d \<and> Catalog length 1 1 0 (BufferPoolManager d) (BufferPoolManager d) True = Inr c \<and>
     CreateTable c ''t'' demo_cols = Inr (Some 0, e) \<and> GetTable e ''t'' = Some 0 \<and> GetTable_id e 1 = Some 0 \<and>
     read_table_info (view (catalog_BPM e) 2) = Inr (''t'', 1, 1, nullable demo_cols, [])"
proof -
  obtain d c where c: "DiskManager None = Inr d" "Catalog length 1 1 0 (BufferPoolManager d) (BufferPoolManager d) True = Inr c"
    "catalog_ok c 0" "infos c = []" "tables c = []" using demo_catalog by blast
  have "\<not> TableExists c ''t''" using c(5) by (simp add: TableExists_def GetTable_def)
  from create_table_ok[OF c(3) _ _ this demo_schema_fits] obtain e where "CreateTable c ''t'' demo_cols = Inr (Some 0, e)"
    "GetTable e = (GetTable c)(''t'' \<mapsto> 0)" "GetTable_id e = (GetTable_id c)(1 \<mapsto> 0)"
    "read_table_info (view (catalog_BPM e) 2) = Inr (''t'', 1, 1, nullable demo_cols, [])"
    using c(4) by (auto simp: numeral_2_eq_2)
  then show ?thesis using c(1,2) by (intro exI[of _ d] exI[of _ c] exI[of _ e]) simp
qed


lemma demo_one_table:
  "\<exists>d c e. DiskManager None = Inr d \<and> Catalog length 1 1 0 (BufferPoolManager d) (BufferPoolManager d) True = Inr c \<and>
     CreateTable c ''t'' demo_cols = Inr (Some 0, e) \<and> catalog_ok e 2 \<and> length (infos e) = 1 \<and> length (tables e) = 1 \<and>
     GetTable e = [''t'' \<mapsto> 0] \<and> info_indexes (infos e ! 0) = []"
proof -
  obtain d c where c: "DiskManager None = Inr d" "Catalog length 1 1 0 (BufferPoolManager d) (BufferPoolManager d) True = Inr c"
    "catalog_ok c 0" "infos c = []" "tables c = []" using demo_catalog by blast
  have nm: "\<not> TableExists c ''t''" "GetTable c = Map.empty" using c(5) by (simp_all add: TableExists_def GetTable_def fun_eq_iff)
  obtain e where "CreateTable c ''t'' demo_cols = Inr (Some 0, e)" "catalog_ok e 2" "length (infos e) = 1" "length (tables e) = 1"
    "GetTable e = (GetTable c)(''t'' \<mapsto> 0)" "info_indexes (infos e ! 0) = []"
    using create_table_step[OF c(3) _ _ nm(1) demo_schema_fits] c(4,5) by (auto simp: numeral_2_eq_2)
  then show ?thesis using c(1,2) nm(2) by (intro exI[of _ d] exI[of _ c] exI[of _ e]) simp
qed

text \<open>Two tables are created and the first is dropped: the page a reopened catalog reads describes the dropped one.\<close>

lemma drop_table_comes_back_witness:
  "\<exists>d c e f g h x. DiskManager None = Inr d \<and> Catalog length 1 1 0 (BufferPoolManager d) (BufferPoolManager d) True = Inr c \<and>
     CreateTable c ''t'' demo_cols = Inr (Some 0, e) \<and> CreateTable e ''u'' demo_cols = Inr (Some 1, f) \<and>
     Catalog_DropTable 6 f ''t'' = Inr g \<and> GetTable g = [''u'' \<mapsto> 1] \<and> save_catalog g = Inr h \<and>
     peek (mem (view (catalog_BPM h) 1)) 0 12 = i32_bytes 1 @ i32_bytes 2 @ i32_bytes 1 \<and>
     read_table_info (view (catalog_BPM h) 2) = Inr (''t'', 1, x)"
proof -
  obtain d c e where c: "DiskManager None = Inr d" "Catalog length 1 1 0 (BufferPoolManager d) (BufferPoolManager d) True = Inr c"
    "CreateTable c ''t'' demo_cols = Inr (Some 0, e)" "catalog_ok e 2" "length (infos e) = 1" "length (tables e) = 1"
    "GetTable e = [''t'' \<mapsto> 0]" using demo_one_table by blast
  have "\<not> TableExists e ''u''" using c(7) by (simp add: TableExists_def)
  from create_table_step[OF c(4) _ _ this demo_schema_fits] obtain f where f': "CreateTable e ''u'' demo_cols = Inr (Some (length (infos e)), f)"
    "catalog_ok f (Suc (Suc 2))" "length (infos f) = Suc (length (infos e))" "length (tables f) = Suc (length (tables e))"
    "GetTable f = (GetTable e)(''u'' \<mapsto> length (infos e))"
    using c(5) by auto
  then have f: "CreateTable e ''u'' demo_cols = Inr (Some 1, f)" "catalog_ok f 4" "length (infos f) = 2" "length (tables f) = 2"
    "GetTable f = [''t'' \<mapsto> 0, ''u'' \<mapsto> 1]"
    using c(5,6,7) by (simp_all add: numeral_eq_Suc)
  have n: "info_name (infos f ! 0) = ''t''" using catalog_okD(10)[OF f(2), of "''t''" 0] GetTable_in[OF f(2), of "''t''" 0] f(5) by simp
  obtain g h where g: "Catalog_DropTable 6 f ''t'' = Inr g" "save_catalog g = Inr h" "GetTable g = (GetTable f)(''t'' := None)"
    "peek (mem (view (catalog_BPM h) 1)) 0 12 = i32_bytes 1 @ i32_bytes (int (length (infos f))) @ i32_bytes (int (length (infos f)) - 1)"
    "\<forall>i. 1 \<le> i \<and> i \<le> length (infos f) - 1 \<longrightarrow> read_table_info (view (catalog_BPM h) (i + 1)) =
       Inr (info_name (infos f ! (i - 1)), int i, info_first_page (infos f ! (i - 1)), nullable (info_schema (infos f ! (i - 1))), [])"
    using drop_table_comes_back[OF f(2), of "''t''" 0 6] f(3,4,5) by (auto simp del: One_nat_def)
  have r: "read_table_info (view (catalog_BPM h) 2) = Inr (''t'', 1, info_first_page (infos f ! 0), nullable (info_schema (infos f ! 0)), [])"
    using g(5)[rule_format, of 1] f(3) n by (simp add: numeral_2_eq_2)
  have "[''t'' \<mapsto> 0, ''u'' \<mapsto> 1](''t'' := None) = [''u'' \<mapsto> (1 :: nat)]" by (simp add: fun_eq_iff)
  then have "GetTable g = [''u'' \<mapsto> 1]" using g(3) f(5) by simp
  moreover have "peek (mem (view (catalog_BPM h) 1)) 0 12 = i32_bytes 1 @ i32_bytes 2 @ i32_bytes 1" using g(4) f(3) by simp
  ultimately show ?thesis using c(1-3) f(1) g(1,2) r by blast
qed

lemma added_index_is_not_saved_witness:
  "\<exists>d c e f x. DiskManager None = Inr d \<and> Catalog length 1 1 0 (BufferPoolManager d) (BufferPoolManager d) True = Inr c \<and>
     CreateTable c ''t'' demo_cols = Inr (Some 0, e) \<and> AddIndex e ''t'' ''i'' ''id'' STATIC_HASH_INDEX 7 = Inr (True, f) \<and>
     Catalog_GetIndex f ''t'' ''i'' \<noteq> None \<and> read_table_info (view (catalog_BPM f) 2) = Inr (''t'', 1, x) \<and> snd (snd x) = []"
proof -
  obtain d c e where c: "DiskManager None = Inr d" "Catalog length 1 1 0 (BufferPoolManager d) (BufferPoolManager d) True = Inr c"
    "CreateTable c ''t'' demo_cols = Inr (Some 0, e)" "catalog_ok e 2" "length (infos e) = 1" "GetTable e = [''t'' \<mapsto> 0]"
    "info_indexes (infos e ! 0) = []"
    using demo_one_table by blast
  have "Catalog_GetIndex e ''t'' ''i'' = None" using c(5,6,7) by (simp add: Catalog_GetIndex_def)
  then obtain f where "AddIndex e ''t'' ''i'' ''id'' STATIC_HASH_INDEX 7 = Inr (True, f)" "Catalog_GetIndex f ''t'' ''i'' \<noteq> None"
    "read_table_info (view (catalog_BPM f) 2) = Inr (''t'', 1, info_first_page (infos e ! 0), nullable (info_schema (infos e ! 0)), [])"
    using added_index_is_not_saved[OF c(4), of "''t''" 0 "''i''" "''id''" STATIC_HASH_INDEX 7] c(6) by (auto simp: numeral_2_eq_2)
  then show ?thesis using c(1-3) by (intro exI[of _ d] exI[of _ c] exI[of _ e] exI[of _ f]) auto
qed

lemma create_statement_total_witness:
  "\<exists>d c e. DiskManager None = Inr d \<and> Catalog length 1 1 0 (BufferPoolManager d) (BufferPoolManager d) True = Inr c \<and>
     CreateTable_stmt c \<lparr>create_name = ''t'', if_not_exists = False, create_columns = demo_cols,
       constraints = [\<lparr>con_type = FOREIGN_KEY, con_columns = [''id''], referenced_table = ''t'', referenced_columns = [''id'']\<rparr>]\<rparr> = Inl (Throw e)"
proof -
  obtain d c where c: "DiskManager None = Inr d" "Catalog length 1 1 0 (BufferPoolManager d) (BufferPoolManager d) True = Inr c"
    "catalog_ok c 0" "infos c = []" "tables c = []" using demo_catalog by blast
  let ?st = "\<lparr>create_name = ''t'', if_not_exists = False, create_columns = demo_cols,
       constraints = [\<lparr>con_type = FOREIGN_KEY, con_columns = [''id''], referenced_table = ''t'', referenced_columns = [''id'']\<rparr>]\<rparr>"
  have "\<not> TableExists c (create_name ?st)" using c(5) by (simp add: TableExists_def GetTable_def)
  moreover have "schema_fits (create_name ?st) (create_columns ?st)" using demo_schema_fits by simp
  ultimately show ?thesis using create_statement_total[OF c(3), of ?st] c by auto
qed

end
