(* ===== verification/Loose_Pool.thy ===== *)
theory Loose_Pool imports Bplus_Page Table_Laws
begin

text \<open>
  A pool in which some pages \<open>X\<close> are written through their pointers without being marked as dirty, as an operator does
  with a temporary page: the frame and the file may then differ. Such a pool behaves like one whose file has
  another content at these pages, for every operation that does not read them from the file. The lemmas
  carry the laws of the pool over to this case.
\<close>

section \<open>Files that differ in one page\<close>

definition file_alike :: "nat set \<Rightarrow> dbfile \<Rightarrow> dbfile \<Rightarrow> bool" where
  "file_alike X f g \<longleftrightarrow> flen g = flen f \<and> ffail g = ffail f \<and> (\<forall>k. k div PAGE_SIZE \<notin> X \<longrightarrow> fdata g k = fdata f k)"

definition disk_alike :: "nat set \<Rightarrow> dm \<Rightarrow> dm \<Rightarrow> bool" where
  "disk_alike X d e \<longleftrightarrow> dm_capacity e = dm_capacity d \<and> dm_map_size e = dm_map_size d \<and> dm_deleted_size e = dm_deleted_size d \<and>
     dm_tables_number e = dm_tables_number d \<and> pages_table e = pages_table d \<and> deleted_slots e = deleted_slots d \<and>
     tables_names e = tables_names d \<and> is_file_new e = is_file_new d \<and> file_alike X (db_file d) (db_file e)"

definition pool_alike :: "nat set \<Rightarrow> bpm \<Rightarrow> bpm \<Rightarrow> bool" where
  "pool_alike X s t \<longleftrightarrow> bp_lru t = bp_lru s \<and> frames t = frames s \<and> page_table t = page_table s \<and> pages_ids t = pages_ids s \<and>
     pin_count t = pin_count s \<and> is_dirty t = is_dirty s \<and> free_frames_ids t = free_frames_ids s \<and> disk_alike X (disk s) (disk t)"

lemma file_alike_write: "file_alike X f g \<Longrightarrow> file_alike X (f_write f off bs) (f_write g off bs)"
  by (auto simp: file_alike_def f_write_def put_def)

lemma file_alike_resize: "file_alike X f g \<Longrightarrow> file_alike X (f_resize f n) (f_resize g n)"
  by (auto simp: file_alike_def f_resize_def)

lemma peek_cong: "(\<And>k. off \<le> k \<Longrightarrow> k < off + n \<Longrightarrow> m k = m' k) \<Longrightarrow> peek m off n = peek m' off n"
  by (simp add: peek_def)

lemma file_alike_read:
  assumes "file_alike X f g" "p \<notin> X"
  shows "fst (f_read (f_clear g) (p * PAGE_SIZE) PAGE_SIZE) = fst (f_read (f_clear f) (p * PAGE_SIZE) PAGE_SIZE)"
    "file_alike X (snd (f_read (f_clear f) (p * PAGE_SIZE) PAGE_SIZE)) (snd (f_read (f_clear g) (p * PAGE_SIZE) PAGE_SIZE))"
proof -
  have "fdata g k = fdata f k" if "p * PAGE_SIZE \<le> k" "k < p * PAGE_SIZE + PAGE_SIZE" for k
  proof -
    have "k div PAGE_SIZE = p" using that by (intro div_nat_eqI) (simp_all add: mult.commute)
    then show ?thesis using assms by (simp add: file_alike_def)
  qed
  then show "fst (f_read (f_clear g) (p * PAGE_SIZE) PAGE_SIZE) = fst (f_read (f_clear f) (p * PAGE_SIZE) PAGE_SIZE)"
    using assms(1) by (auto simp: f_read_def f_clear_def file_alike_def Let_def intro!: peek_cong)
  show "file_alike X (snd (f_read (f_clear f) (p * PAGE_SIZE) PAGE_SIZE)) (snd (f_read (f_clear g) (p * PAGE_SIZE) PAGE_SIZE))"
    using assms(1) by (simp add: f_read_def f_clear_def file_alike_def Let_def)
qed

lemma allocate_alike:
  assumes "disk_alike X d e" "allocatePage e = Inr (off, e')"
  shows "\<exists>d'. allocatePage d = Inr (off, d') \<and> disk_alike X d' e'"
proof -
  have f: "file_alike X (db_file d) (db_file e)" using assms(1) by (simp add: disk_alike_def)
  show ?thesis
    using assms file_alike_write[OF f] file_alike_write[OF file_alike_resize[OF f]]
    by (auto simp: allocatePage_def resizeFile_def rbind_eq_Inr Let_def disk_alike_def split: if_splits)
qed

lemma write_alike:
  assumes "disk_alike X d e" "writePage e p b = Inr e'"
  shows "\<exists>d'. writePage d p b = Inr d' \<and> disk_alike X d' e'"
proof (cases "map_of (pages_table e) p")
  case None
  then obtain off f bs where f: "allocatePage e = Inr (off, f)" "memcpy_from b 0 PAGE_SIZE = Inr bs"
    "e' = f\<lparr>db_file := f_write (db_file f) off bs, pages_table := AList.update p off (pages_table f)\<rparr>"
    using assms(2) by (auto simp: writePage_def rbind_eq_Inr)
  from allocate_alike[OF assms(1) f(1)] obtain d1 where d1: "allocatePage d = Inr (off, d1)" "disk_alike X d1 f" by blast
  have "map_of (pages_table d) p = None" using None assms(1) by (simp add: disk_alike_def)
  then show ?thesis using d1 f(2,3) file_alike_write by (auto simp: writePage_def disk_alike_def)
next
  case (Some off)
  then show ?thesis using assms file_alike_write by (auto simp: writePage_def rbind_eq_Inr disk_alike_def)
qed

lemma read_alike:
  assumes "disk_alike X d e" "readPage e (int p) b = Inr (r, e')" "map_of (pages_table d) (int p) = Some (p * PAGE_SIZE)" "p \<notin> X"
  shows "\<exists>d'. readPage d (int p) b = Inr (r, d') \<and> disk_alike X d' e'"
proof -
  have f: "file_alike X (db_file d) (db_file e)" using assms(1) by (simp add: disk_alike_def)
  show ?thesis using assms file_alike_read[OF f assms(4)]
    by (auto simp: readPage_def Let_def rbind_eq_Inr split_beta disk_alike_def)
qed

lemma read_keeps_table: "readPage d p b = Inr (r, e) \<Longrightarrow> pages_table e = pages_table d"
  by (cases "map_of (pages_table d) p") (auto simp: readPage_def Let_def rbind_eq_Inr split_beta)

lemma dm_inv_lookup: "dm_inv d n \<Longrightarrow> 0 < i \<Longrightarrow> i \<le> n \<Longrightarrow> map_of (pages_table d) (int i) = Some (i * PAGE_SIZE)"
  by (simp add: dm_inv_def)

section \<open>Pools\<close>

lemma take_alike:
  assumes "pool_alike X s t" "take_frame t = Inr (f, t')"
  shows "\<exists>s'. take_frame s = Inr (f, s') \<and> pool_alike X s' t'"
proof (cases "free_frames_ids t = []")
  case True
  then obtain l p dirty fr d where d: "evict_frame (bp_lru t) = Inr (f, l)" "vec_at_int (pages_ids t) f = Inr p"
    "vec_at_int (is_dirty t) f = Inr dirty" "vec_at_int (frames t) f = Inr fr" "(if dirty then writePage (disk t) p fr else Inr (disk t)) = Inr d"
    "t' = t\<lparr>bp_lru := l, disk := d, page_table := AList.delete p (page_table t)\<rparr>"
    using assms(2) unfolding take_frame_def Let_def if_P[OF True] by (force simp: rbind_eq_Inr split: if_splits)
  have a: "disk_alike X (disk s) (disk t)" using assms(1) by (simp add: pool_alike_def)
  have "\<exists>d'. (if dirty then writePage (disk s) p fr else Inr (disk s)) = Inr d' \<and> disk_alike X d' d"
  proof (cases dirty)
    case True
    then show ?thesis using d(5) write_alike[OF a, of p fr d] by simp
  next
    case False
    then show ?thesis using d(5) a by simp
  qed
  then obtain d' where d': "(if dirty then writePage (disk s) p fr else Inr (disk s)) = Inr d'" "disk_alike X d' d" by blast
  have "take_frame s = Inr (f, s\<lparr>bp_lru := l, disk := d', page_table := AList.delete p (page_table s)\<rparr>)"
    using True d(1-4) d'(1) assms(1) by (cases dirty) (simp_all add: take_frame_def Let_def pool_alike_def)
  then show ?thesis using d(6) d'(2) assms(1) by (auto simp: pool_alike_def)
next
  case False
  then show ?thesis using assms by (auto simp: take_frame_def pool_alike_def)
qed

lemma install_alike:
  assumes "pool_alike X s t" "install t (int p) f = Inr t'" "map_of (pages_table (disk s)) (int p) = Some (p * PAGE_SIZE)" "p \<notin> X"
  shows "\<exists>s'. install s (int p) f = Inr s' \<and> pool_alike X s' t'"
proof -
  obtain fr r d l where r: "vec_at_int (frames t) f = Inr fr" "readPage (disk t) (int p) fr = Inr (r, d)" "put_frame (bp_lru t) f (Some (nat f)) = Inr l"
    "t' = t\<lparr>disk := d, frames := (frames t)[nat f := r], pages_ids := (pages_ids t)[nat f := int p],
            is_dirty := (is_dirty t)[nat f := False], page_table := AList.update (int p) f (page_table t), bp_lru := l\<rparr>"
    using assms(2) by (auto simp: install_def rbind_eq_Inr)
  have a: "disk_alike X (disk s) (disk t)" using assms(1) by (simp add: pool_alike_def)
  obtain d' where "readPage (disk s) (int p) fr = Inr (r, d')" "disk_alike X d' d"
    using read_alike[OF a r(2) assms(3,4)] by blast
  then show ?thesis using r assms(1) by (auto simp: install_def pool_alike_def)
qed

lemma alike_table: "disk_alike X d e \<Longrightarrow> pages_table e = pages_table d"
  by (simp add: disk_alike_def)

lemma alike_fields:
  "pool_alike X s t \<Longrightarrow> page_table t = page_table s \<and> frames t = frames s \<and> bp_lru t = bp_lru s \<and> free_frames_ids t = free_frames_ids s \<and>
     is_dirty t = is_dirty s \<and> pages_ids t = pages_ids s \<and> pages_table (disk t) = pages_table (disk s)"
  by (auto simp: pool_alike_def dest: alike_table)

lemma fetch_alike:
  assumes st: "pool_alike X s t" and t: "pool_ok t n" and i: "1 \<le> i" "i \<le> n" "i \<in> X \<longrightarrow> map_of (page_table s) (int i) \<noteq> None"
    and f: "fetchPage t (int i) = Inr (p, t')"
  shows "\<exists>s'. fetchPage s (int i) = Inr (p, s') \<and> pool_alike X s' t'"
proof (cases "map_of (page_table s) (int i)")
  case (Some f)
  then show ?thesis using assms(1,6) i(1) by (auto simp: pool_alike_def fetchPage_def rbind_eq_Inr)
next
  case None
  then have nx: "i \<notin> X" using i(3) by auto
  obtain g u where u: "take_frame t = Inr (g, u)" "install u (int i) g = Inr t'" "p = Some g"
    using f None alike_fields[OF st] i(1) by (auto simp: fetchPage_def rbind_eq_Inr)
  obtain s1 where s1: "take_frame s = Inr (g, s1)" "pool_alike X s1 u" using take_alike[OF st u(1)] by blast
  have "bpm_inv t n {}" using t by (simp add: pool_ok_def)
  from take_frame_inv[OF this] u(1) have "dm_inv (disk u) n" using bpm_invD(1) by fastforce
  then have "map_of (pages_table (disk s1)) (int i) = Some (i * PAGE_SIZE)"
    using alike_fields[OF s1(2)] i(1,2) by (simp add: dm_inv_def)
  from install_alike[OF s1(2) u(2) this nx] obtain s2 where "install s1 (int i) g = Inr s2" "pool_alike X s2 t'" by blast
  then show ?thesis using None s1(1) u(3) i(1) by (auto simp: fetchPage_def)
qed

lemma new_alike:
  assumes st: "pool_alike X s t" and t: "pool_ok t n" and x: "X \<subseteq> {1..n}" and p: "newPage t = Inr (int (Suc n), t')" and inv: "pool_ok t' (Suc n)"
  shows "\<exists>s'. newPage s = Inr (int (Suc n), s') \<and> pool_alike X s' t'"
proof -
  obtain g u off d where u: "take_frame t = Inr (g, u)" "allocatePage (disk u) = Inr (off, d)"
    "install (u\<lparr>disk := d\<rparr>) (int (off div PAGE_SIZE)) g = Inr t'" "off div PAGE_SIZE = Suc n"
    using p by (auto simp: newPage_def rbind_eq_Inr Let_def)
  obtain s1 where s1: "take_frame s = Inr (g, s1)" "pool_alike X s1 u" using take_alike[OF st u(1)] by blast
  then have "disk_alike X (disk s1) (disk u)" by (auto simp: pool_alike_def)
  from allocate_alike[OF this u(2)] obtain d1 where d1: "allocatePage (disk s1) = Inr (off, d1)" "disk_alike X d1 d" by blast
  have a: "pool_alike X (s1\<lparr>disk := d1\<rparr>) (u\<lparr>disk := d\<rparr>)" using s1(2) d1(2) by (auto simp: pool_alike_def)
  have "pages_table (disk t') = pages_table d"
    using u(3) read_keeps_table by (fastforce simp: install_def rbind_eq_Inr)
  moreover have "dm_inv (disk t') (Suc n)" using inv bpm_invD(1)[of t' "Suc n" "{}"] by (simp add: pool_ok_def)
  ultimately have "map_of (pages_table d) (int (Suc n)) = Some (Suc n * PAGE_SIZE)"
    using dm_inv_lookup[of "disk t'" "Suc n" "Suc n"] by (simp del: mult_Suc of_nat_Suc)
  then have "map_of (pages_table (disk (s1\<lparr>disk := d1\<rparr>))) (int (Suc n)) = Some (Suc n * PAGE_SIZE)"
    using alike_table[OF d1(2)] by simp
  moreover have "Suc n \<notin> X" using x by auto
  ultimately obtain s2 where s2: "install (s1\<lparr>disk := d1\<rparr>) (int (Suc n)) g = Inr s2" "pool_alike X s2 t'"
    using install_alike[OF a, of "Suc n"] u(3,4) by fastforce
  then have "newPage s = Inr (int (Suc n), s2)" using s1(1) d1(1) u(4) by (simp add: newPage_def)
  with s2(2) show ?thesis by blast
qed

lemma view_alike:
  assumes "pool_alike X s t" "j \<notin> X \<or> map_of (page_table s) (int j) \<noteq> None"
  shows "view t j = view s j"
proof (cases "map_of (page_table s) (int j)")
  case (Some f)
  then show ?thesis using alike_fields[OF assms(1)] by (simp add: view_def)
next
  case None
  then have "j \<notin> X" using assms(2) by auto
  have g: "file_alike X (db_file (disk s)) (db_file (disk t))" using assms(1) by (simp add: pool_alike_def disk_alike_def)
  have "fdata (db_file (disk t)) (j * PAGE_SIZE + k) = fdata (db_file (disk s)) (j * PAGE_SIZE + k)" if "k < PAGE_SIZE" for k
  proof -
    have "(j * PAGE_SIZE + k) div PAGE_SIZE = j" using that by simp
    then show ?thesis using g \<open>j \<notin> X\<close> by (simp add: file_alike_def)
  qed
  then show ?thesis using None alike_fields[OF assms(1)] by (auto simp: view_def dm_page_def fun_eq_iff)
qed

section \<open>A page that is not marked\<close>

text \<open>Frame and file get the same content, as if the frame had been written back at once.\<close>

definition poke :: "nat \<Rightarrow> bpm \<Rightarrow> int \<Rightarrow> buf \<Rightarrow> bpm" where
  "poke x t f b = (store_frame t f b)\<lparr>disk := (disk t)\<lparr>db_file := (db_file (disk t))\<lparr>fdata :=
     (\<lambda>k. if k div PAGE_SIZE = x then mem b (k - x * PAGE_SIZE) else fdata (db_file (disk t)) k)\<rparr>\<rparr>\<rparr>"

lemma poke_page:
  assumes "canon b"
  shows "dm_page (disk (poke x t f b)) i = (if i = x then b else dm_page (disk t) i)"
proof -
  have "(i * PAGE_SIZE + k) div PAGE_SIZE = i" if "k < PAGE_SIZE" for k using that by simp
  then show ?thesis using assms
    by (auto simp: poke_def store_frame_def dm_page_def canon_def fun_eq_iff intro!: buf.equality)
qed

lemma poke_fields [simp]:
  "page_table (poke x t f b) = page_table t" "pages_ids (poke x t f b) = pages_ids t" "is_dirty (poke x t f b) = is_dirty t"
  "pin_count (poke x t f b) = pin_count t" "free_frames_ids (poke x t f b) = free_frames_ids t" "bp_lru (poke x t f b) = bp_lru t"
  "frames (poke x t f b) = (frames t)[nat f := b]" "dm_capacity (disk (poke x t f b)) = dm_capacity (disk t)"
  by (simp_all add: poke_def store_frame_def)

lemma poke_ok:
  assumes t: "pool_ok t n" and f: "cached t x f" and b: "canon b"
  shows "pool_ok (poke x t f b) n"
proof -
  have inv: "bpm_inv t n {}" using t by (simp add: pool_ok_def)
  let ?t = "poke x t f b"
  have fu: "f \<in> used t {}" "pages_ids t ! nat f = int x" using bpm_invD(9)[OF inv] f by (auto simp: cached_def)
  have ff: "f \<in> frame_ids" using fu(1) by (rule used_frame)
  have u: "used ?t {} = used t {}" by (simp add: used_def)
  have d: "dm_inv (disk ?t) n" using bpm_invD(1)[OF inv] by (simp add: poke_def store_frame_def dm_inv_def)
  have "is_dirty ?t ! nat g \<or> frames ?t ! nat g = dm_page (disk ?t) (nat (pages_ids ?t ! nat g))" if g: "g \<in> used t {}" for g
  proof (cases "g = f")
    case True
    then show ?thesis using fu(2) ff bpm_invD(2)[OF inv] poke_page[OF b, of x t f x] by (simp add: frame_ids_iff)
  next
    case False
    have "pages_ids t ! nat g \<noteq> int x" using frame_unique[OF inv g fu(1)] fu(2) False by auto
    moreover have "1 \<le> pages_ids t ! nat g" using bpm_invD(10)[OF inv g] by simp
    ultimately have "nat (pages_ids t ! nat g) \<noteq> x" by auto
    then show ?thesis
      using bpm_invD(11)[OF inv g] poke_page[OF b] nth_update_frame[OF ff used_frame[OF g] False[symmetric], of "frames t" b] by simp
  qed
  moreover have "\<forall>c \<in> set ((frames t)[nat f := b]). canon c"
    using b bpm_invD(5)[OF inv] set_update_subset_insert[of "frames t" "nat f" b] by auto
  ultimately have "bpm_inv ?t n {}"
    unfolding bpm_inv_def u using d bpm_invD(2-4,6-10,12-15)[OF inv] by simp
  then show ?thesis using t by (simp add: pool_ok_def)
qed

lemma poke_view:
  assumes t: "pool_ok t n" and f: "cached t x f" and b: "canon b"
  shows "view (poke x t f b) j = (if j = x then b else view t j)"
proof (cases "map_of (page_table t) (int j)")
  case (Some g)
  have inv: "bpm_inv t n {}" using t by (simp add: pool_ok_def)
  have fu: "f \<in> used t {}" "pages_ids t ! nat f = int x" using bpm_invD(9)[OF inv] f by (auto simp: cached_def)
  have gu: "g \<in> used t {}" "pages_ids t ! nat g = int j" using bpm_invD(9)[OF inv] Some by auto
  have len: "nat f < length (frames t)" using used_frame[OF fu(1)] bpm_invD(2)[OF inv] by (simp add: frame_ids_iff)
  show ?thesis
  proof (cases "j = x")
    case True
    then show ?thesis using f len by (simp add: view_def cached_def)
  next
    case False
    then have "f \<noteq> g" using fu(2) gu(2) by auto
    then show ?thesis using False Some nth_update_frame[OF used_frame[OF fu(1)] used_frame[OF gu(1)], of "frames t" b] by (simp add: view_def)
  qed
next
  case None
  then have "j \<noteq> x" using f by (auto simp: cached_def)
  then show ?thesis using None poke_page[OF b] by (simp add: view_def)
qed

lemma poke_alike: "x \<in> X \<Longrightarrow> pool_alike X s t \<Longrightarrow> pool_alike X (store_frame s f b) (poke x t f b)"
  by (simp add: pool_alike_def poke_def store_frame_def disk_alike_def file_alike_def)

text \<open>The pool of sorts with temporary pages \<open>X\<close>.\<close>

definition loose :: "bpm \<Rightarrow> nat \<Rightarrow> nat set \<Rightarrow> bool" where
  "loose s n X \<longleftrightarrow> X \<subseteq> {1..n} \<and> (\<exists>t. pool_alike X s t \<and> pool_ok t n)"

definition others_same :: "nat \<Rightarrow> nat set \<Rightarrow> bpm \<Rightarrow> bpm \<Rightarrow> bool" where
  "others_same n X s t \<longleftrightarrow> (\<forall>j. 1 \<le> j \<and> j \<le> n \<and> j \<notin> X \<longrightarrow> view t j = view s j)"

lemma others_same_trans: "others_same n X s t \<Longrightarrow> others_same m X t u \<Longrightarrow> n \<le> m \<Longrightarrow> others_same n X s u"
  by (simp add: others_same_def)

lemma others_same_refl [simp]: "others_same n X s s"
  by (simp add: others_same_def)

lemma pool_alike_refl: "pool_alike X s s"
  by (simp add: pool_alike_def disk_alike_def file_alike_def)

lemma loose_pool: "pool_ok s n \<Longrightarrow> loose s n {}"
  using pool_alike_refl by (auto simp: loose_def)

lemma loose_insert: "loose s n X \<Longrightarrow> 1 \<le> x \<Longrightarrow> x \<le> n \<Longrightarrow> loose s n (insert x X)"
  unfolding loose_def pool_alike_def disk_alike_def file_alike_def by auto

lemma others_same_insert: "others_same n X s t \<Longrightarrow> others_same n (insert x X) s t"
  by (simp add: others_same_def)

lemma alike_dm_inv: "disk_alike X d e \<Longrightarrow> dm_inv e n \<Longrightarrow> dm_inv d n"
  unfolding disk_alike_def file_alike_def dm_inv_def by metis

lemma alike_cached: "pool_alike X s t \<Longrightarrow> cached t i f = cached s i f"
  using alike_fields by (auto simp: cached_def)

lemma alike_fresh:
  assumes "pool_alike X s t"
  shows "fresh_frame t f = fresh_frame s f"
proof -
  have "used t {} = used s {}" using alike_fields[OF assms] by (simp add: used_def)
  then show ?thesis using alike_fields[OF assms] by (simp add: fresh_frame_def)
qed

lemma fetch_spares:
  assumes s: "bpm_inv s n {}" and f: "fresh_frame s f" "cached s i f" and j: "fetch_frame s j = Inr (g, b, t)"
  shows "cached t i f"
proof (cases "map_of (page_table s) j")
  case (Some h)
  then show ?thesis using j f(2) by (auto simp: fetch_frame_def fetchPage_def rbind_eq_Inr cached_def split: if_splits)
next
  case None
  then have "j \<noteq> int i" using f(2) by (auto simp: cached_def)
  moreover obtain h u where u: "take_frame s = Inr (h, u)" "cached u i f" using take_frame_spares[OF s f] by blast
  ultimately show ?thesis using None j
    by (auto simp: fetch_frame_def fetchPage_def install_def rbind_eq_Inr cached_def split: if_splits)
qed

lemma read_only_file: "readPage d p b = Inr (r, e) \<Longrightarrow> e = d\<lparr>db_file := db_file e\<rparr>"
  by (cases "map_of (pages_table d) p") (auto simp: readPage_def Let_def rbind_eq_Inr split_beta)

lemma loose_frame:
  assumes "loose s n X" "cached s i f"
  shows "frame_at s f = Inr (view s i)" "canon (view s i)"
proof -
  obtain t where t: "pool_alike X s t" "pool_ok t n" using assms(1) by (auto simp: loose_def)
  have inv: "bpm_inv t n {}" using t(2) by (simp add: pool_ok_def)
  have "map_of (page_table s) (int i) \<noteq> None" using assms(2) by (simp add: cached_def)
  then have v: "view t i = view s i" using view_alike[OF t(1), of i] by blast
  then show "canon (view s i)" using view_canon[OF inv, of i] by simp
  have "frame_at s f = frame_at t f" using alike_fields[OF t(1)] by (simp add: frame_at_def)
  then show "frame_at s f = Inr (view s i)" using frame_of_cached[OF inv] alike_cached[OF t(1)] assms(2) v by simp
qed

lemma loose_new:
  assumes s: "loose s n X" and n: "n < 60000"
  shows "\<exists>u. newPage s = Inr (int (Suc n), u) \<and> loose u (Suc n) X \<and> others_same n X s u \<and> view u (Suc n) = Page (int (Suc n))"
proof -
  obtain t where t: "pool_alike X s t" "pool_ok t n" "X \<subseteq> {1..n}" using s by (auto simp: loose_def)
  obtain t' where t': "newPage t = Inr (int (Suc n), t')" "pool_ok t' (Suc n)" "same_views n t t'" using pool_new[OF t(2) n] by blast
  obtain u where u: "newPage s = Inr (int (Suc n), u)" "pool_alike X u t'" using new_alike[OF t(1,2,3) t'(1,2)] by blast
  have inv: "bpm_inv t n {}" and c: "dm_capacity (disk t) \<le> max 100 (2 * int n + 2)" using t(2) by (simp_all add: pool_ok_def)
  have "0 \<le> dm_capacity (disk t)" using bpm_invD(1)[OF inv] by (simp add: dm_inv_def)
  then have "in_i32 (2 * dm_capacity (disk t) * int PAGE_SIZE)" using c n by (simp add: in_i32_def PAGE_SIZE_def max_def split: if_splits)
  then have "view t' (Suc n) = Page (int (Suc n))" using new_page_is_fresh[OF inv] t'(1) by auto
  then have "view u (Suc n) = Page (int (Suc n))" using view_alike[OF u(2), of "Suc n"] t(3) by fastforce
  moreover have "others_same n X s u"
    using t'(3) view_alike[OF t(1)] view_alike[OF u(2)] by (auto simp: others_same_def same_views_def)
  moreover have "X \<subseteq> {1..Suc n}" using t(3) by fastforce
  ultimately show ?thesis using u t'(2) by (auto simp: loose_def)
qed

lemma loose_fetch:
  assumes s: "loose s n X" and i: "1 \<le> i" "i \<le> n" "i \<in> X \<longrightarrow> map_of (page_table s) (int i) \<noteq> None"
  shows "\<exists>f u. fetch_frame s (int i) = Inr (f, view s i, u) \<and> loose u n X \<and> others_same n X s u \<and> cached u i f \<and> fresh_frame u f \<and> view u i = view s i"
proof -
  obtain t where t: "pool_alike X s t" "pool_ok t n" "X \<subseteq> {1..n}" using s by (auto simp: loose_def)
  have inv: "bpm_inv t n {}" using t(2) by (simp add: pool_ok_def)
  obtain f t' where t': "fetchPage t (int i) = Inr (Some f, t')" "bpm_inv t' n {}" "same_views n t t'"
    "map_of (page_table t') (int i) = Some f" "frame_at t' f = Inr (view t i)" "fresh_frame t' f" "dm_capacity (disk t') = dm_capacity (disk t)"
    using fetchPage_inv[OF inv i(1,2)] by blast
  obtain u where u: "fetchPage s (int i) = Inr (Some f, u)" "pool_alike X u t'" using fetch_alike[OF t(1,2) i t'(1)] by blast
  have ok: "pool_ok t' n" using t(2) t'(2,7) by (simp add: pool_ok_def)
  have v: "view t i = view s i" using view_alike[OF t(1)] i(3) by blast
  have c: "cached u i f" using alike_cached[OF u(2), of i f] t'(4) by (simp add: cached_def)
  have "frame_at u f = Inr (view s i)" using t'(5) v alike_fields[OF u(2)] by (simp add: frame_at_def)
  then have "fetch_frame s (int i) = Inr (f, view s i, u)" using u(1) by (simp add: fetch_frame_def)
  moreover have l: "loose u n X" using u(2) ok t(3) by (auto simp: loose_def)
  moreover have "others_same n X s u"
    using t'(3) view_alike[OF t(1)] view_alike[OF u(2)] by (auto simp: others_same_def same_views_def)
  moreover have "view u i = view s i" using loose_frame(1)[OF l c] \<open>frame_at u f = Inr (view s i)\<close> by simp
  ultimately show ?thesis using c alike_fresh[OF u(2)] t'(6) by blast
qed

text \<open>The temporary page may come from the file; the frame that was used last survives this.\<close>

lemma loose_fetch_tmp:
  assumes s: "loose s n X" and f: "fresh_frame s f" "cached s i f" "i \<notin> X" and xX: "x \<in> X"
  shows "\<exists>g b u. fetch_frame s (int x) = Inr (g, b, u) \<and> canon b \<and> loose u n X \<and> others_same n X s u \<and> cached u x g \<and> cached u i f \<and> view u x = b"
proof -
  obtain t where t: "pool_alike X s t" "pool_ok t n" "X \<subseteq> {1..n}" using s by (auto simp: loose_def)
  have x: "1 \<le> x" "x \<le> n" using t(3) xX by auto
  have inv: "bpm_inv t n {}" using t(2) by (simp add: pool_ok_def)
  obtain g t' where t': "fetch_frame t (int x) = Inr (g, view t x, t')" "bpm_inv t' n {}" "same_views n t t'" "cached t' x g"
    "dm_capacity (disk t') = dm_capacity (disk t)" using fetch_frame_inv[OF inv x] by blast
  have ok: "pool_ok t' n" using t(2) t'(2,5) by (simp add: pool_ok_def)
  have ci: "cached t' i f" using fetch_spares[OF inv _ _ t'(1)] alike_fresh[OF t(1)] alike_cached[OF t(1)] f(1,2) by blast
  have ft: "fetchPage t (int x) = Inr (Some g, t')"
    using t'(1) by (auto simp: fetch_frame_def rbind_eq_Inr get_or_ub_def split: option.splits)
  show ?thesis
  proof (cases "map_of (page_table s) (int x)")
    case (Some h)
    obtain g u where u: "fetch_frame s (int x) = Inr (g, view s x, u)" "loose u n X" "others_same n X s u" "cached u x g" "view u x = view s x"
      using loose_fetch[OF s x] Some by auto
    have "cached u i f" using u(1) Some f(2) by (auto simp: fetch_frame_def fetchPage_def rbind_eq_Inr cached_def split: if_splits)
    then show ?thesis using u loose_frame(2)[OF u(2,4)] by auto
  next
    case None
    then have n: "map_of (page_table t) (int x) = None" using alike_fields[OF t(1)] by simp
    obtain v where v: "take_frame t = Inr (g, v)" "install v (int x) g = Inr t'"
      using ft n by (auto simp: fetchPage_def rbind_eq_Inr split: if_splits)
    obtain s1 where s1: "take_frame s = Inr (g, s1)" "pool_alike X s1 v" using take_alike[OF t(1) v(1)] by blast
    have vi: "dm_inv (disk v) n" "bpm_inv v n {g}" using take_frame_inv[OF inv] v(1) bpm_invD(1) by fastforce+
    have "disk_alike X (disk s1) (disk v)" using s1(2) by (simp add: pool_alike_def)
    then have "dm_inv (disk s1) n" by (rule alike_dm_inv[OF _ vi(1)])
    moreover obtain fr r d l where r: "vec_at_int (frames v) g = Inr fr" "readPage (disk v) (int x) fr = Inr (r, d)"
      "put_frame (bp_lru v) g (Some (nat g)) = Inr l"
      "t' = v\<lparr>disk := d, frames := (frames v)[nat g := r], pages_ids := (pages_ids v)[nat g := int x],
            is_dirty := (is_dirty v)[nat g := False], page_table := AList.update (int x) g (page_table v), bp_lru := l\<rparr>"
      using v(2) by (auto simp: install_def rbind_eq_Inr)
    moreover have c: "canon fr" using r(1) bpm_invD(5)[OF vi(2)] by (auto simp: vec_at_int_def split: if_splits)
    ultimately obtain d' where d': "readPage (disk s1) (int x) fr = Inr (dm_page (disk s1) x, d')" "db_file d' = db_file (disk s1)"
      using readPage_inv[of "disk s1" n x fr] x by blast
    have dv: "db_file d = db_file (disk v)" using readPage_inv[OF vi(1) x c] r(2) by auto
    let ?b = "dm_page (disk s1) x"
    let ?u = "s1\<lparr>disk := d', frames := (frames s1)[nat g := ?b], pages_ids := (pages_ids s1)[nat g := int x],
            is_dirty := (is_dirty s1)[nat g := False], page_table := AList.update (int x) g (page_table s1), bp_lru := l\<rparr>"
    have b: "canon ?b" by (simp add: canon_def dm_page_def)
    have "install s1 (int x) g = Inr ?u"
      using r(1,3) d'(1) s1(2) by (simp add: install_def pool_alike_def)
    then have fs: "fetchPage s (int x) = Inr (Some g, ?u)" using None s1(1) by (simp add: fetchPage_def)
    have a: "pool_alike X ?u (poke x t' g ?b)"
      using s1(2) r(4) read_only_file[OF d'(1)] read_only_file[OF r(2)] d'(2) dv xX
      by (auto simp: pool_alike_def poke_def store_frame_def disk_alike_def file_alike_def)
    have pk: "pool_ok (poke x t' g ?b) n" by (rule poke_ok[OF ok t'(4) b])
    have l: "loose ?u n X" using a pk t(3) by (auto simp: loose_def)
    have cx: "cached ?u x g" "cached ?u i f" using alike_cached[OF a] t'(4) ci by (simp_all add: cached_def)
    have "g \<in> frame_ids" using bpm_invD(9)[OF t'(2)] t'(4) used_frame by (auto simp: cached_def)
    then have "0 \<le> g" "nat g < length (frames s1)" using bpm_invD(2)[OF vi(2)] s1(2) by (auto simp: pool_alike_def frame_ids_iff)
    then have "frame_at ?u g = Inr ?b" by (simp add: frame_at_def vec_at_int_def)
    then have "fetch_frame s (int x) = Inr (g, ?b, ?u)" "view ?u x = ?b"
      using fs loose_frame(1)[OF l cx(1)] by (simp_all add: fetch_frame_def)
    moreover have "view ?u j = view s j" if "1 \<le> j" "j \<le> n" "j \<notin> X" for j
      using t'(3) view_alike[OF t(1), of j] view_alike[OF a, of j] poke_view[OF ok t'(4) b, of j] that xX by (cases "j = x"; simp add: same_views_def)
    ultimately have "fetch_frame s (int x) = Inr (g, ?b, ?u)" "view ?u x = ?b" "others_same n X s ?u" by (simp_all add: others_same_def)
    then show ?thesis using b l cx by blast
  qed
qed

lemma loose_store:
  assumes s: "loose s n X" and xX: "x \<in> X" and f: "cached s x f" and b: "canon b"
  shows "loose (store_frame s f b) n X" "others_same n X s (store_frame s f b)" "cached (store_frame s f b) x f" "view (store_frame s f b) x = b"
    "fresh_frame s g \<Longrightarrow> fresh_frame (store_frame s f b) g"
proof -
  obtain t where t: "pool_alike X s t" "pool_ok t n" "X \<subseteq> {1..n}" using s by (auto simp: loose_def)
  have ct: "cached t x f" using alike_cached[OF t(1)] f by simp
  note a = poke_alike[OF xX t(1), of f b]
  show "loose (store_frame s f b) n X" using a poke_ok[OF t(2) ct b] t(3) by (auto simp: loose_def)
  show c: "cached (store_frame s f b) x f" using f by (simp add: cached_def store_frame_def)
  have "view (store_frame s f b) j = view s j" if "j \<notin> X" for j
    using view_alike[OF t(1), of j] view_alike[OF a, of j] poke_view[OF t(2) ct b, of j] that xX by (cases "j = x") auto
  then show "others_same n X s (store_frame s f b)" by (simp add: others_same_def)
  show "view (store_frame s f b) x = b"
    using view_alike[OF a, of x] poke_view[OF t(2) ct b, of x] c by (simp add: cached_def)
  show "fresh_frame s g \<Longrightarrow> fresh_frame (store_frame s f b) g" by (simp add: fresh_frame_def store_frame_def used_def)
qed

lemma loose_mark:
  assumes s: "loose s n X" and f: "cached s i f" and b: "canon b"
  shows "\<exists>u. markAsDirty (store_frame s f b) (int i) = Inr u \<and> loose u n X \<and> view u i = b \<and>
    (\<forall>j. j \<noteq> i \<and> (j \<notin> X \<or> map_of (page_table s) (int j) \<noteq> None) \<longrightarrow> view u j = view s j) \<and> page_table u = page_table s"
proof -
  obtain t where t: "pool_alike X s t" "pool_ok t n" "X \<subseteq> {1..n}" using s by (auto simp: loose_def)
  have inv: "bpm_inv t n {}" using t(2) by (simp add: pool_ok_def)
  have ct: "cached t i f" using alike_cached[OF t(1)] f by simp
  obtain t' where t': "markAsDirty (store_frame t f b) (int i) = Inr t'" "bpm_inv t' n {}" "view t' = (view t)(i := b)" "disk t' = disk t"
    "page_table t' = page_table t" using mark_written[OF inv ct b] by blast
  have ps: "map_of (page_table s) (int i) = Some f" "map_of (page_table t) (int i) = Some f" using f ct by (simp_all add: cached_def)
  obtain u where u: "markAsDirty (store_frame s f b) (int i) = Inr u" "pool_alike X u t'" "page_table u = page_table s"
    using t'(1) t(1) ps by (auto simp: markAsDirty_def store_frame_def pool_alike_def rbind_eq_Inr)
  have "pool_ok t' n" using t'(2,4) t(2) by (simp add: pool_ok_def)
  then have l: "loose u n X" using u(2) t(3) by (auto simp: loose_def)
  have "view u j = view s j" if "j \<noteq> i" "j \<notin> X \<or> map_of (page_table s) (int j) \<noteq> None" for j
    using view_alike[OF t(1) that(2)] view_alike[OF u(2), of j] that u(3) t'(3) by auto
  moreover have "map_of (page_table u) (int i) \<noteq> None" using f u(3) by (simp add: cached_def)
  then have "view u i = b" using view_alike[OF u(2), of i] t'(3) by auto
  ultimately show ?thesis using u l by blast
qed

end
