(* ===== verification/Merge_Sort.thy ===== *)
theory Merge_Sort imports Scan
begin

text \<open>
  \<^verbatim>\<open>ExternalMergeSort\<close> (src/Q_Execution/ExternalMergeSortExecuter.c++): the rows of a child are collected page
  by page, each page is sorted and written as a run, and two runs at a time are merged into a chain of new
  pages until one is left. The pages are in a pool of the operator; the world of the child is the pair of this
  pool and the rest.

  \<^verbatim>\<open>std::sort\<close> leaves the order of equivalent elements open; it is the argument \<open>srt\<close>, with the contract below.
\<close>

datatype sorting_methods = ASC | DESC

type_synonym std_sort = "(tuple \<Rightarrow> tuple \<Rightarrow> bool res) \<Rightarrow> tuple list \<Rightarrow> tuple list res"

record ext_sort =
  run_queue :: "int list"
  run_buffer :: "tuple list"
  tmp_page_id :: int
  sort_rid :: rid
  sort_schema :: "column list"

definition new_ext_sort :: ext_sort where
  "new_ext_sort = \<lparr>run_queue = [], run_buffer = [], tmp_page_id = - 1, sort_rid = RID (- 1) (- 1), sort_schema = []\<rparr>"

section \<open>Runs\<close>

definition key_before :: "sorting_methods \<Rightarrow> field \<Rightarrow> field \<Rightarrow> bool res" where
  "key_before m x y = (case m of ASC \<Rightarrow> field_lt False x y | DESC \<Rightarrow> field_gt False x y)"

definition row_before :: "sorting_methods \<Rightarrow> int \<Rightarrow> tuple \<Rightarrow> tuple \<Rightarrow> bool res" where
  "row_before m c a b =
     rbind (vec_at_int (tfields a) c) (\<lambda>x. rbind (vec_at_int (tfields b) c) (\<lambda>y. key_before m x y))"

definition insert_rows :: "tuple list \<Rightarrow> buf \<Rightarrow> buf res" where
  "insert_rows = rfold (\<lambda>t b. rbind (Page_insertTuple b t) (\<lambda>(_, b). Inr b))"

text \<open>The temporary page is emptied: row count, free space pointer and everything behind the header.\<close>

definition reset_page :: "buf \<Rightarrow> buf" where
  "reset_page b =
     (let b = set_free (set_num_tuples b 0) PAGE_SIZE in b\<lparr>mem := put (mem b) 14 (replicate (PAGE_SIZE - 14) 0)\<rparr>)"

definition write_run_buffer_on_disk :: "std_sort \<Rightarrow> sorting_methods \<Rightarrow> int \<Rightarrow> ext_sort \<Rightarrow> bpm \<Rightarrow> (ext_sort \<times> bpm) res" where
  "write_run_buffer_on_disk srt m c e s =
     rbind (newPage s) (\<lambda>(p, s).
     rbind (fetch_frame s p) (\<lambda>(f, _, s).
     rbind (fetch_frame s (tmp_page_id e)) (\<lambda>(g, _, s).
     rbind (srt (row_before m c) (run_buffer e)) (\<lambda>rb.
     rbind (frame_at s f) (\<lambda>b.
     rbind (insert_rows rb b) (\<lambda>b.
     rbind (markAsDirty (store_frame s f b) p) (\<lambda>s.
     rbind (frame_at s g) (\<lambda>t.
     Inr (e\<lparr>run_buffer := rb, run_queue := run_queue e @ [p]\<rparr>, store_frame s g (reset_page t))))))))))"

text \<open>
  The loop over the rows of the child. \<open>f\<close> is the frame the pointer to the temporary page points into; a row
  that does not fit closes the run and starts the next one.
\<close>

fun collect_runs :: "nat \<Rightarrow> std_sort \<Rightarrow> sorting_methods \<Rightarrow> int \<Rightarrow> (bpm \<times> 'v, 'a) get_next \<Rightarrow> int \<Rightarrow> ext_sort \<Rightarrow> 'a \<Rightarrow> bpm \<Rightarrow> 'v \<Rightarrow>
    (ext_sort \<times> 'a \<times> bpm \<times> 'v) res" where
  "collect_runs 0 srt m c nxt f e a s v = Inl Diverges"
| "collect_runs (Suc k) srt m c nxt f e a s v =
     rbind (nxt (s, v) a) (\<lambda>(x, a, s, v).
     case x of None \<Rightarrow> Inr (e, a, s, v)
     | Some t \<Rightarrow>
         rbind (frame_at s f) (\<lambda>b.
         rbind (Page_insertTuple b t) (\<lambda>(i, b).
         let s = store_frame s f b in
         if i = - 1 then
           rbind (write_run_buffer_on_disk srt m c e s) (\<lambda>(e, s).
           rbind (fetch_frame s (tmp_page_id e)) (\<lambda>(f, b, s).
           rbind (Page_insertTuple b t) (\<lambda>(_, b).
           rbind (markAsDirty (store_frame s f b) (tmp_page_id e)) (\<lambda>s.
           collect_runs k srt m c nxt f (e\<lparr>run_buffer := [t]\<rparr>) a s v))))
         else collect_runs k srt m c nxt f (e\<lparr>run_buffer := run_buffer e @ [t]\<rparr>) a s v)))"

section \<open>Merging\<close>

text \<open>One row is copied to the end of the new run, on a new page when it does not fit; the result is the last page.\<close>

definition sort_insert_tuple :: "int \<Rightarrow> int \<Rightarrow> int \<Rightarrow> bpm \<Rightarrow> (int \<times> bpm) res" where
  "sort_insert_tuple np p slot s =
     rbind (fetch_frame s p) (\<lambda>(_, b, s).
     rbind (Page_getTuple b slot (Tuple [])) (\<lambda>(_, t).
     rbind (fetch_frame s np) (\<lambda>(g, b, s).
     rbind (Page_insertTuple b t) (\<lambda>(i, b).
     rbind (markAsDirty (store_frame s g b) np) (\<lambda>s.
     if i = - 1 then
       rbind (newPage s) (\<lambda>(q, s).
       rbind (fetch_frame s np) (\<lambda>(g, b, s).
       rbind (markAsDirty (store_frame s g (set_next_page_id b q)) np) (\<lambda>s.
       rbind (fetch_frame s q) (\<lambda>(h, b, s).
       rbind (Page_insertTuple b t) (\<lambda>(_, b).
       rbind (markAsDirty (store_frame s h b) q) (\<lambda>s. Inr (q, s)))))))
     else Inr (np, s))))))"

text \<open>The keys of a run, one list per page, and a position in it.\<close>

fun run_fields :: "int \<Rightarrow> int list \<Rightarrow> bpm \<Rightarrow> (field list list \<times> bpm) res" where
  "run_fields c [] s = Inr ([], s)"
| "run_fields c (p # ps) s =
     rbind (fetch_frame s p) (\<lambda>(_, b, s).
     rbind (Page_get_field_from_all_tuples b c) (\<lambda>row.
     rbind (run_fields c ps s) (\<lambda>(kss, s). Inr (row # kss, s))))"

definition key_at :: "field list list \<Rightarrow> nat \<times> nat \<Rightarrow> field res" where
  "key_at kss pos = rbind (vec_at kss (fst pos)) (\<lambda>row. vec_at row (snd pos))"

definition advance :: "field list list \<Rightarrow> nat \<times> nat \<Rightarrow> (nat \<times> nat) res" where
  "advance kss pos =
     rbind (vec_at kss (fst pos)) (\<lambda>row. Inr (if length row \<le> Suc (snd pos) then (Suc (fst pos), 0) else (fst pos, Suc (snd pos))))"

definition copy_row :: "int list \<Rightarrow> field list list \<Rightarrow> nat \<times> nat \<Rightarrow> int \<Rightarrow> bpm \<Rightarrow> ((nat \<times> nat) \<times> int \<times> bpm) res" where
  "copy_row ids kss pos np s =
     rbind (vec_at ids (fst pos)) (\<lambda>p.
     rbind (sort_insert_tuple np p (int (snd pos)) s) (\<lambda>(np, s).
     rbind (advance kss pos) (\<lambda>pos. Inr (pos, np, s))))"

text \<open>
  The three loops of the merge. \<open>i\<close> and \<open>j\<close> rows of the two runs are not copied yet, and each turn copies one,
  so that \<open>i + j\<close> turns are made.
\<close>

function merge_rows :: "sorting_methods \<Rightarrow> int list \<Rightarrow> field list list \<Rightarrow> int list \<Rightarrow> field list list \<Rightarrow>
    nat \<Rightarrow> nat \<times> nat \<Rightarrow> nat \<Rightarrow> nat \<times> nat \<Rightarrow> int \<Rightarrow> bpm \<Rightarrow> bpm res" where
  "merge_rows m li lf ri rf i lp j rp np s =
     (if 0 < i \<and> 0 < j then
        rbind (key_at lf lp) (\<lambda>x. rbind (key_at rf rp) (\<lambda>y. rbind (key_before m x y) (\<lambda>b.
        if b then rbind (copy_row li lf lp np s) (\<lambda>(lp, np, s). merge_rows m li lf ri rf (i - 1) lp j rp np s)
        else rbind (copy_row ri rf rp np s) (\<lambda>(rp, np, s). merge_rows m li lf ri rf i lp (j - 1) rp np s))))
      else if 0 < i then rbind (copy_row li lf lp np s) (\<lambda>(lp, np, s). merge_rows m li lf ri rf (i - 1) lp j rp np s)
      else if 0 < j then rbind (copy_row ri rf rp np s) (\<lambda>(rp, np, s). merge_rows m li lf ri rf i lp (j - 1) rp np s)
      else Inr s)"
  by pat_completeness auto
termination by (relation "measure (\<lambda>(m, li, lf, ri, rf, i, lp, j, rp, np, s). i + j)") auto

declare merge_rows.simps [simp del]

definition merge_two :: "nat \<Rightarrow> sorting_methods \<Rightarrow> int \<Rightarrow> int \<Rightarrow> int \<Rightarrow> bpm \<Rightarrow> (int \<times> bpm) res" where
  "merge_two k m c p q s =
     rbind (chain_pages k s p) (\<lambda>(li, s).
     rbind (chain_pages k s q) (\<lambda>(ri, s).
     rbind (run_fields c li s) (\<lambda>(lf, s).
     rbind (run_fields c ri s) (\<lambda>(rf, s).
     rbind (newPage s) (\<lambda>(np, s).
     rbind (fetch_frame s np) (\<lambda>(_, _, s).
     rbind (markAsDirty s np) (\<lambda>s.
     rbind (merge_rows m li lf ri rf (length (concat lf)) (0, 0) (length (concat rf)) (0, 0) np s) (\<lambda>s. Inr (np, s)))))))))"

function merge_queue :: "nat \<Rightarrow> sorting_methods \<Rightarrow> int \<Rightarrow> int list \<Rightarrow> bpm \<Rightarrow> (int list \<times> bpm) res" where
  "merge_queue k m c [] s = Inr ([], s)"
| "merge_queue k m c [p] s = Inr ([p], s)"
| "merge_queue k m c (p # q # ps) s = rbind (merge_two k m c p q s) (\<lambda>(np, s). merge_queue k m c (ps @ [np]) s)"
  by pat_completeness auto
termination by (relation "measure (\<lambda>(k, m, c, ps, s). length ps)") auto

section \<open>The operator\<close>

text \<open>
  \<open>opn\<close> opens the child and \<open>sch\<close> is its schema; \<open>cs\<close> are the columns of the table below, where the sort
  column is looked up by name. \<^verbatim>\<open>front\<close> of an empty queue is undefined. The constructor is \<open>sort_open\<close> of a
  new object.
\<close>

definition sort_open :: "nat \<Rightarrow> std_sort \<Rightarrow> sorting_methods \<Rightarrow> column list \<Rightarrow> string \<Rightarrow> (bpm \<times> 'v, 'a) get_next \<Rightarrow>
    (bpm \<times> 'v \<Rightarrow> 'a \<Rightarrow> ('a \<times> bpm \<times> 'v) res) \<Rightarrow> ('a \<Rightarrow> column list) \<Rightarrow> bpm \<times> 'v \<Rightarrow> 'a \<times> ext_sort \<Rightarrow> (('a \<times> ext_sort) \<times> bpm \<times> 'v) res" where
  "sort_open k srt m cs key nxt opn sch w st =
     (let c = int (getColIndex cs key) in
      rbind (opn w (fst st)) (\<lambda>(a, s, v).
      rbind (newPage s) (\<lambda>(p, s).
      rbind (fetch_frame s p) (\<lambda>(f, _, s).
      rbind (collect_runs k srt m c nxt f ((snd st)\<lparr>sort_schema := sch a, tmp_page_id := p\<rparr>) a s v) (\<lambda>(e, a, s, v).
      rbind (if run_buffer e = [] then Inr (e, s)
             else rbind (write_run_buffer_on_disk srt m c e s) (\<lambda>(e, s). Inr (e\<lparr>run_buffer := []\<rparr>, s))) (\<lambda>(e, s).
      rbind (merge_queue k m c (run_queue e) s) (\<lambda>(ps, s).
      rbind (vec_at ps 0) (\<lambda>p.
      rbind (chain_pages k s p) (\<lambda>(_, s).
      Inr ((a, e\<lparr>run_queue := ps, sort_rid := RID p 0\<rparr>), s, v))))))))))"

text \<open>
  A position behind the last row of a page moves to the next page. A row that is not there leaves the tuple of
  the caller alone, here the empty one.
\<close>

definition sort_getTuple :: "rid \<Rightarrow> bpm \<Rightarrow> (tuple \<times> bpm) res" where
  "sort_getTuple r s =
     rbind (fetch_frame s (page_id r)) (\<lambda>(_, b, s). rbind (Page_getTuple b (slot_num r) (Tuple [])) (\<lambda>(_, t). Inr (t, s)))"

definition sort_getNext :: "(bpm \<times> 'v, 'a \<times> ext_sort) get_next" where
  "sort_getNext w st =
     (let e = snd st; p = page_id (sort_rid e); i = slot_num (sort_rid e) in
      rbind (fetchPage (fst w) p) (\<lambda>(x, s).
      case x of None \<Rightarrow> Inr (None, st, s, snd w)
      | Some f \<Rightarrow> rbind (frame_at s f) (\<lambda>b.
          if int (hdr_num_tuples b) \<le> i then
            let q = hdr_next_page_id b in
            if q = - 1 then Inr (None, st, s, snd w)
            else rbind (sort_getTuple (RID q 0) s) (\<lambda>(t, s). Inr (Some t, (fst st, e\<lparr>sort_rid := RID q 1\<rparr>), s, snd w))
          else rbind (sort_getTuple (RID p i) s) (\<lambda>(t, s). Inr (Some t, (fst st, e\<lparr>sort_rid := RID p (i + 1)\<rparr>), s, snd w)))))"

definition sort_has_column :: "string \<Rightarrow> ext_sort \<Rightarrow> string \<Rightarrow> bool" where
  "sort_has_column tname e name \<longleftrightarrow> list_ex (\<lambda>c. tname @ ''.'' @ col_name c = name) (sort_schema e)"

end
