(* ===== verification/Sort_Pages.thy ===== *)
theory Sort_Pages imports Loose_Pool Merge_Sort "HOL-Library.Multiset"
begin

text \<open>
  The pages of a sort: a pool with one page that is written without being marked, and what its operations
  keep; pages that hold rows in order of insertion; and runs, chains of such pages.
\<close>

section \<open>Pages of rows\<close>

text \<open>The bytes of the header, the slots and the padded rows.\<close>

definition load :: "tuple list \<Rightarrow> nat" where
  "load xs = 14 + sum_list (map (\<lambda>t. 6 + pad8 (length (tuple_enc t))) xs)"

definition row_fit :: "tuple \<Rightarrow> bool" where
  "row_fit t \<longleftrightarrow> tuple_fits t \<and> \<not> t_deleted t \<and> (\<forall>f \<in> set (tfields t). \<not> is_null f) \<and> load [t] \<le> PAGE_SIZE"

definition has_rows :: "buf \<Rightarrow> tuple list \<Rightarrow> bool" where
  "has_rows b xs \<longleftrightarrow> (\<exists>es. page_wf b es \<and> xs = map e_tuple es \<and> (\<forall>e \<in> set es. \<not> e_del e) \<and>
     hdr_free b + sum_list (map (\<lambda>t. pad8 (length (tuple_enc t))) xs) = PAGE_SIZE) \<and> (\<forall>t \<in> set xs. row_fit t)"

text \<open>The temporary page: only the number of its slots and its free space matter.\<close>

definition takes :: "buf \<Rightarrow> tuple list \<Rightarrow> bool" where
  "takes b xs \<longleftrightarrow> canon b \<and> slotted b (length xs) \<and> hdr_free b + sum_list (map (\<lambda>t. pad8 (length (tuple_enc t))) xs) = PAGE_SIZE"

lemma load_simps [simp]:
  "load [] = 14" "load (xs @ [t]) = load xs + 6 + pad8 (length (tuple_enc t))"
  by (simp_all add: load_def)

lemma load_sum: "load xs = 14 + 6 * length xs + sum_list (map (\<lambda>t. pad8 (length (tuple_enc t))) xs)"
  by (induction xs) (simp_all add: load_def)

lemma load_perm: "mset xs = mset ys \<Longrightarrow> load xs = load ys"
  by (metis (no_types, lifting) load_def mset_map sum_mset_sum_list)

lemma has_rows_takes: "canon b \<Longrightarrow> has_rows b xs \<Longrightarrow> takes b xs"
  using page_wf_slotted by (fastforce simp: has_rows_def takes_def)

lemma takes_load: "takes b xs \<Longrightarrow> load xs \<le> PAGE_SIZE"
  by (simp add: takes_def slotted_def load_sum)

lemma takes_insert:
  assumes b: "takes b xs" and t: "row_fit t"
  shows "if load (xs @ [t]) \<le> PAGE_SIZE then \<exists>b'. Page_insertTuple b t = Inr (int (length xs), b') \<and> takes b' (xs @ [t])
    else Page_insertTuple b t = Inr (- 1, b)"
proof -
  let ?n = "pad8 (length (tuple_enc t))"
  have ok: "tuple_ok t" "length (tuple_enc t) \<le> 65528" "length (tuple_enc t @ tuple_over t) \<le> ?n"
    using t by (auto simp: row_fit_def tuple_fits_def)
  have sl: "slotted b (length xs)" and f: "hdr_free b + sum_list (map (\<lambda>t. pad8 (length (tuple_enc t))) xs) = PAGE_SIZE"
    using b by (simp_all add: takes_def)
  have room: "page_room (hdr_free b) (length xs) ?n \<longleftrightarrow> load (xs @ [t]) \<le> PAGE_SIZE"
    using f by (auto simp: page_room_def load_sum)
  show ?thesis
  proof (cases "load (xs @ [t]) \<le> PAGE_SIZE")
    case True
    then have r: "page_room (hdr_free b) (length xs) ?n" using room by simp
    let ?f = "hdr_free b - ?n" and ?bs = "tuple_enc t @ tuple_over t"
    let ?b = "inserted b (length xs) ?f ?n ?bs"
    have g: "14 + 6 * length xs + 6 \<le> ?f" "?f + ?n = hdr_free b" "hdr_free b \<le> 4096"
      using r sl by (auto simp: page_room_def slotted_def PAGE_SIZE_def)
    have i: "Page_insertTuple b t = Inr (int (length xs), ?b)"
      using slotted_insert[OF sl ok(1,2) r] ok(3) g by (simp add: Let_def)
    have "canon ?b" using givesD[OF Page_insertTuple_canon i] b by (simp add: takes_def)
    moreover have "slotted ?b (length (xs @ [t]))" "hdr_free ?b = ?f"
      using g sl by (simp_all add: slotted_def inserted_hdr PAGE_SIZE_def)
    ultimately show ?thesis using True i f g(2) by (auto simp: takes_def)
  next
    case False
    then show ?thesis using slotted_no_room[OF sl ok(1,2)] room by simp
  qed
qed

lemma has_rows_insert:
  assumes b: "has_rows b xs" and t: "row_fit t"
  shows "if load (xs @ [t]) \<le> PAGE_SIZE
    then \<exists>b'. Page_insertTuple b t = Inr (int (length xs), b') \<and> has_rows b' (xs @ [t]) \<and> hdr_next_page_id b' = hdr_next_page_id b
    else Page_insertTuple b t = Inr (- 1, b)"
proof -
  obtain es where es: "page_wf b es" "xs = map e_tuple es" "\<forall>e \<in> set es. \<not> e_del e"
    "hdr_free b + sum_list (map (\<lambda>t. pad8 (length (tuple_enc t))) xs) = PAGE_SIZE" "\<forall>t \<in> set xs. row_fit t"
    using b by (auto simp: has_rows_def)
  let ?n = "pad8 (length (tuple_enc t))"
  have ok: "tuple_fits t" using t by (simp add: row_fit_def)
  have len: "length es = length xs" using es(2) by simp
  have room: "page_room (hdr_free b) (length es) ?n \<longleftrightarrow> load (xs @ [t]) \<le> PAGE_SIZE"
    using es(4) len by (auto simp: page_room_def load_sum)
  show ?thesis
  proof (cases "load (xs @ [t]) \<le> PAGE_SIZE")
    case True
    then have r: "page_room (hdr_free b) (length es) ?n" using room by simp
    let ?e = "\<lparr>e_off = hdr_free b - ?n, e_size = ?n, e_del = False, e_tuple = t\<rparr>"
    obtain b' where b': "Page_insertTuple b t = Inr (int (length es), b')" "page_wf b' (es @ [?e])" "hdr_free b' = hdr_free b - ?n"
      "hdr_next_page_id b' = hdr_next_page_id b"
      using insertTuple_entry[OF es(1) ok r] by blast
    have "?n \<le> hdr_free b" using r by (simp add: page_room_def)
    then have "hdr_free b' + sum_list (map (\<lambda>t. pad8 (length (tuple_enc t))) (xs @ [t])) = PAGE_SIZE" using b'(3) es(4) by simp
    then have "has_rows b' (xs @ [t])" using b'(2) es(2,3,5) t unfolding has_rows_def by (intro conjI exI[of _ "es @ [?e]"]) auto
    then show ?thesis using True b'(1,4) len by auto
  next
    case False
    then show ?thesis using insertTuple_no_room[OF es(1)] ok room by (simp add: tuple_fits_def)
  qed
qed

lemma has_rows_Page: "has_rows (Page i) []"
  using Page_wf[of i] by (auto simp: has_rows_def Page_def Let_def PAGE_SIZE_def)

lemma Page_next: "hdr_next_page_id (Page i) = - 1"
  by (simp add: Page_def Let_def PAGE_SIZE_def in_i32_def)

lemma has_rows_next: "has_rows b xs \<Longrightarrow> has_rows (set_next_page_id b i) xs"
  using page_wf_next by (auto simp: has_rows_def)

lemma has_rows_count: "has_rows b xs \<Longrightarrow> hdr_num_tuples b = length xs"
  by (auto simp: has_rows_def page_wf_def)

lemma has_rows_get:
  assumes "has_rows b xs" "i < length xs"
  shows "Page_getTuple b (int i) t0 = Inr (True, xs ! i)"
proof -
  obtain es where es: "page_wf b es" "xs = map e_tuple es" "\<forall>e \<in> set es. \<not> e_del e" "\<forall>t \<in> set xs. row_fit t"
    using assms(1) by (auto simp: has_rows_def)
  have i: "i < length es" "es ! i \<in> set es" "row_fit (e_tuple (es ! i))" using assms(2) es by auto
  have "stored_row b (es ! i) = xs ! i"
    using stored_row_eqv[OF es(1) i(2)] tuple_eqv_non_null i(1,3) es(2) by (auto simp: row_fit_def)
  moreover have "visible (es ! i)" using es(3) i by (simp add: visible_def row_fit_def)
  ultimately show ?thesis using getTuple_stored[OF es(1) i(1)] by simp
qed

lemma has_rows_fields:
  assumes "has_rows b xs" "0 \<le> c" "\<forall>t \<in> set xs. nat c < length (tfields t)"
  shows "Page_get_field_from_all_tuples b c = Inr (map (\<lambda>t. tfields t ! nat c) xs)"
proof -
  have "rmap (\<lambda>i. rbind (Page_getTuple b (int i) (Tuple [])) (\<lambda>(_, t). vec_at_int (tfields t) c)) [0..<length xs]
      = Inr (map (\<lambda>i. tfields (xs ! i) ! nat c) [0..<length xs])"
    using assms by (intro rmap_all_ok) (auto simp: has_rows_get vec_at_int_def nat_less_iff)
  moreover have "map (\<lambda>i. tfields (xs ! i) ! nat c) [0..<length xs] = map (\<lambda>t. tfields t ! nat c) xs"
    by (intro nth_equalityI) auto
  ultimately show ?thesis using has_rows_count[OF assms(1)] by (simp add: Page_get_field_from_all_tuples_def)
qed

lemma insert_rows_holds:
  assumes "has_rows b xs" "\<forall>t \<in> set ys. row_fit t" "load (xs @ ys) \<le> PAGE_SIZE"
  shows "\<exists>b'. insert_rows ys b = Inr b' \<and> has_rows b' (xs @ ys) \<and> hdr_next_page_id b' = hdr_next_page_id b"
  using assms
proof (induction ys arbitrary: b xs)
  case (Cons t ys)
  have l: "load (xs @ [t]) \<le> PAGE_SIZE" using Cons.prems(3) by (simp add: load_def)
  obtain b' where b': "Page_insertTuple b t = Inr (int (length xs), b')" "has_rows b' (xs @ [t])" "hdr_next_page_id b' = hdr_next_page_id b"
    using has_rows_insert[OF Cons.prems(1), of t] Cons.prems(2) l by auto
  obtain b'' where "insert_rows ys b' = Inr b''" "has_rows b'' ((xs @ [t]) @ ys)" "hdr_next_page_id b'' = hdr_next_page_id b'"
    using Cons.IH[OF b'(2)] Cons.prems(2,3) by auto
  then show ?case using b' by (auto simp: insert_rows_def)
qed (auto simp: insert_rows_def)

lemma reset_page_takes:
  assumes "canon b"
  shows "takes (reset_page b) []"
proof -
  have "canon (reset_page b)" using assms by (simp add: reset_page_def Let_def canon_def put_def set_defs set_bytes_def PAGE_SIZE_def)
  moreover have "hdr_num_tuples (reset_page b) = 0" "hdr_free (reset_page b) = PAGE_SIZE" "cap (reset_page b) = PAGE_SIZE"
    using assms by (simp_all add: reset_page_def Let_def canon_def PAGE_SIZE_def)
  ultimately show ?thesis by (simp add: takes_def slotted_def PAGE_SIZE_def)
qed

end
