(* ===== verification/Sort_Runs.thy ===== *)
theory Sort_Runs imports Sort_Pages
begin

text \<open>
  Runs: chains of pages that hold rows. Reading a run page by page, walking over its rows, and appending a row
  to a run that is being built.
\<close>

section \<open>Chains\<close>

definition run_ok :: "bpm \<Rightarrow> nat \<Rightarrow> nat set \<Rightarrow> nat list \<Rightarrow> tuple list list \<Rightarrow> bool" where
  "run_ok s n X ps xss \<longleftrightarrow> ps \<noteq> [] \<and> links (view s) ps \<and> (\<forall>p \<in> set ps. 1 \<le> p \<and> p \<le> n \<and> p \<notin> X) \<and>
     list_all2 (\<lambda>p. has_rows (view s p)) ps xss"

lemma run_okD:
  assumes "run_ok s n X ps xss"
  shows "ps \<noteq> []" "links (view s) ps" "length xss = length ps"
    "p \<in> set ps \<Longrightarrow> 1 \<le> p \<and> p \<le> n \<and> p \<notin> X" "i < length ps \<Longrightarrow> has_rows (view s (ps ! i)) (xss ! i)"
  using assms list_all2_lengthD[of _ ps xss] list_all2_nthD[of _ ps xss i] by (auto simp: run_ok_def)

lemma run_ok_same:
  assumes "run_ok s n X ps xss" "\<And>p. p \<in> set ps \<Longrightarrow> view u p = view s p" "n \<le> m"
  shows "run_ok u m X ps xss"
proof -
  have "links (view u) ps" using run_okD(2)[OF assms(1)] links_cong[of ps "view u" "view s"] assms(2) by simp
  moreover have "list_all2 (\<lambda>p. has_rows (view u p)) ps xss"
    using assms(1,2) by (auto simp: run_ok_def list_all2_conv_all_nth)
  ultimately show ?thesis using assms(1,3) by (fastforce simp: run_ok_def)
qed

lemma run_ok_others:
  assumes "run_ok s n X ps xss" "others_same n X s u" "n \<le> m"
  shows "run_ok u m X ps xss"
  using run_ok_same[OF assms(1) _ assms(3)] run_okD(4)[OF assms(1)] assms(2) by (simp add: others_same_def)

lemma chain_walk:
  assumes "loose s n X" "links (view s) ps" "\<forall>p \<in> set ps. 1 \<le> p \<and> p \<le> n \<and> p \<notin> X" "length ps < k"
  shows "\<exists>u. chain_pages k s (case ps of [] \<Rightarrow> - 1 | p # _ \<Rightarrow> int p) = Inr (map int ps, u) \<and> loose u n X \<and> others_same n X s u"
  using assms
proof (induction ps arbitrary: s k)
  case Nil
  then obtain k' where "k = Suc k'" by (cases k) auto
  then show ?case using Nil.prems(1) by simp
next
  case (Cons p ps)
  obtain k' where k: "k = Suc k'" using Cons.prems(4) by (cases k) auto
  have p: "1 \<le> p" "p \<le> n" "p \<notin> X" using Cons.prems(3) by auto
  obtain f u where u: "fetch_frame s (int p) = Inr (f, view s p, u)" "loose u n X" "others_same n X s u"
    using loose_fetch[OF Cons.prems(1) p(1,2)] p(3) by blast
  have nx: "hdr_next_page_id (view s p) = (case ps of [] \<Rightarrow> - 1 | q # _ \<Rightarrow> int q)" "links (view s) ps"
    using Cons.prems(2) by (cases ps; simp)+
  have "links (view u) ps" using nx(2) links_cong[of ps "view u" "view s"] u(3) Cons.prems(3) by (simp add: others_same_def)
  then obtain w where w: "chain_pages k' u (case ps of [] \<Rightarrow> - 1 | q # _ \<Rightarrow> int q) = Inr (map int ps, w)" "loose w n X" "others_same n X u w"
    using Cons.IH[OF u(2)] Cons.prems(3,4) k by auto
  then show ?case using u k nx(1) others_same_trans[OF u(3) w(3)] by auto
qed

lemma chain_run:
  assumes "loose s n X" "run_ok s n X ps xss" "length ps < k"
  shows "\<exists>u. chain_pages k s (int (hd ps)) = Inr (map int ps, u) \<and> loose u n X \<and> others_same n X s u"
  using chain_walk[OF assms(1) run_okD(2)[OF assms(2)] _ assms(3)] run_okD(1,4)[OF assms(2)] by (cases ps) auto

lemma run_fields_run:
  assumes "loose s n X" "\<forall>p \<in> set ps. 1 \<le> p \<and> p \<le> n \<and> p \<notin> X" "list_all2 (\<lambda>p. has_rows (view s p)) ps xss"
    "0 \<le> c" "\<forall>t \<in> set (concat xss). nat c < length (tfields t)"
  shows "\<exists>u. run_fields c (map int ps) s = Inr (map (map (\<lambda>t. tfields t ! nat c)) xss, u) \<and> loose u n X \<and> others_same n X s u"
  using assms
proof (induction ps arbitrary: s xss)
  case (Cons p ps)
  obtain xs yss where xs: "xss = xs # yss" "has_rows (view s p) xs" "list_all2 (\<lambda>p. has_rows (view s p)) ps yss"
    using Cons.prems(3) by (auto simp: list_all2_Cons1)
  have p: "1 \<le> p" "p \<le> n" "p \<notin> X" using Cons.prems(2) by auto
  obtain f u where u: "fetch_frame s (int p) = Inr (f, view s p, u)" "loose u n X" "others_same n X s u"
    using loose_fetch[OF Cons.prems(1) p(1,2)] p(3) by blast
  have g: "Page_get_field_from_all_tuples (view s p) c = Inr (map (\<lambda>t. tfields t ! nat c) xs)"
    using has_rows_fields[OF xs(2) Cons.prems(4)] Cons.prems(5) xs(1) by simp
  have "list_all2 (\<lambda>p. has_rows (view u p)) ps yss"
    using xs(3) u(3) Cons.prems(2) by (auto simp: others_same_def list_all2_conv_all_nth)
  then obtain w where w: "run_fields c (map int ps) u = Inr (map (map (\<lambda>t. tfields t ! nat c)) yss, w)" "loose w n X" "others_same n X u w"
    using Cons.IH[OF u(2) _ _ Cons.prems(4), of yss] Cons.prems(2,5) xs(1) by fastforce
  then show ?case using u(1) g xs(1) others_same_trans[OF u(3) w(3)] by auto
qed auto

section \<open>A position in a run\<close>

text \<open>A position is on a row, with \<open>rs\<close> the rows from there on, or behind the last page.\<close>

definition stands :: "'a list list \<Rightarrow> nat \<times> nat \<Rightarrow> 'a list \<Rightarrow> bool" where
  "stands xss pos rs \<longleftrightarrow>
     (if fst pos < length xss
      then snd pos < length (xss ! fst pos) \<and> rs = drop (snd pos) (xss ! fst pos) @ concat (drop (Suc (fst pos)) xss)
      else fst pos = length xss \<and> rs = [])"

definition tidy :: "'a list list \<Rightarrow> bool" where
  "tidy xss \<longleftrightarrow> [] \<notin> set xss"

lemma stands_page:
  assumes "tidy xss" "a \<le> length xss"
  shows "stands xss (a, 0) (concat (drop a xss))"
proof (cases "a < length xss")
  case True
  then have "xss ! a \<noteq> []" using assms(1) nth_mem by (force simp: tidy_def)
  then show ?thesis using True by (simp add: stands_def flip: Cons_nth_drop_Suc)
qed (use assms in \<open>simp add: stands_def\<close>)

lemma stands_row:
  assumes "stands xss pos (r # rs)"
  shows "fst pos < length xss" "snd pos < length (xss ! fst pos)" "xss ! fst pos ! snd pos = r"
    "key_at (map (map g) xss) pos = Inr (g r)"
proof -
  show p: "fst pos < length xss" "snd pos < length (xss ! fst pos)" using assms by (auto simp: stands_def split: if_splits)
  show r: "xss ! fst pos ! snd pos = r" using assms p by (simp add: stands_def flip: Cons_nth_drop_Suc)
  show "key_at (map (map g) xss) pos = Inr (g r)" using p r by (simp add: key_at_def)
qed

lemma stands_advance:
  assumes st: "stands xss pos (r # rs)" and t: "tidy xss"
  shows "\<exists>pos'. advance (map (map g) xss) pos = Inr pos' \<and> stands xss pos' rs"
proof -
  note p = stands_row(1,2)[OF st]
  have rs: "rs = drop (Suc (snd pos)) (xss ! fst pos) @ concat (drop (Suc (fst pos)) xss)"
    using st p by (simp add: stands_def flip: Cons_nth_drop_Suc)
  show ?thesis
  proof (cases "length (xss ! fst pos) \<le> Suc (snd pos)")
    case True
    then show ?thesis using p rs stands_page[OF t, of "Suc (fst pos)"] by (simp add: advance_def)
  next
    case False
    then show ?thesis using p rs by (simp add: advance_def stands_def)
  qed
qed

section \<open>Appending\<close>

lemma insert_at:
  assumes s: "loose s n X" and i: "1 \<le> i" "i \<le> n" "i \<notin> X" and b: "has_rows (view s i) ys" and r: "row_fit r"
  shows "\<exists>f b j b' u w. fetch_frame s (int i) = Inr (f, b, u) \<and> Page_insertTuple b r = Inr (j, b') \<and>
    markAsDirty (store_frame u f b') (int i) = Inr w \<and> loose w n X \<and>
    (\<forall>k. 1 \<le> k \<and> k \<le> n \<and> k \<notin> X \<and> k \<noteq> i \<longrightarrow> view w k = view s k) \<and> hdr_next_page_id (view w i) = hdr_next_page_id (view s i) \<and>
    (if load (ys @ [r]) \<le> PAGE_SIZE then j \<noteq> - 1 \<and> has_rows (view w i) (ys @ [r]) else j = - 1 \<and> view w i = view s i)"
proof -
  obtain f u where u: "fetch_frame s (int i) = Inr (f, view s i, u)" "loose u n X" "others_same n X s u" "cached u i f" "view u i = view s i"
    using loose_fetch[OF s i(1,2)] i(3) by blast
  obtain j b' where j: "Page_insertTuple (view s i) r = Inr (j, b')" "hdr_next_page_id b' = hdr_next_page_id (view s i)"
    "if load (ys @ [r]) \<le> PAGE_SIZE then j \<noteq> - 1 \<and> has_rows b' (ys @ [r]) else j = - 1 \<and> b' = view s i"
    using has_rows_insert[OF b r] by (cases "load (ys @ [r]) \<le> PAGE_SIZE") auto
  have "canon (view s i)" using loose_frame(2)[OF u(2,4)] u(5) by simp
  then have "canon b'" using givesD[OF Page_insertTuple_canon j(1)] by simp
  from loose_mark[OF u(2,4) this] obtain w where w: "markAsDirty (store_frame u f b') (int i) = Inr w" "loose w n X" "view w i = b'"
    "\<forall>k. k \<noteq> i \<and> (k \<notin> X \<or> map_of (page_table u) (int k) \<noteq> None) \<longrightarrow> view w k = view u k" by blast
  have "\<forall>k. 1 \<le> k \<and> k \<le> n \<and> k \<notin> X \<and> k \<noteq> i \<longrightarrow> view w k = view s k" using w(4) u(3) by (simp add: others_same_def)
  then show ?thesis using u(1) j w(1-3) by (intro exI[of _ f] exI[of _ "view s i"] exI[of _ j] exI[of _ b'] exI[of _ u] exI[of _ w]) simp
qed

text \<open>A run that is being built on pages behind \<open>m\<close>; it starts with an empty page.\<close>

definition building :: "bpm \<Rightarrow> nat \<Rightarrow> nat set \<Rightarrow> nat \<Rightarrow> nat list \<Rightarrow> tuple list list \<Rightarrow> bool" where
  "building s n X m qs yss \<longleftrightarrow> run_ok s n X qs yss \<and> distinct qs \<and> (\<forall>q \<in> set qs. m < q) \<and> (yss = [[]] \<or> tidy yss)"

lemma building_last:
  assumes "building s n X m qs yss"
  obtains ps p zss zs where "qs = ps @ [p]" "yss = zss @ [zs]" "list_all2 (\<lambda>p. has_rows (view s p)) ps zss" "has_rows (view s p) zs"
    "p \<notin> set ps" "distinct ps" "links (view s) (ps @ [p])" "1 \<le> p" "p \<le> n" "p \<notin> X" "m < p" "hdr_next_page_id (view s p) = - 1"
    "zs = [] \<Longrightarrow> zss = []" "tidy zss"
proof -
  have r: "run_ok s n X qs yss" "distinct qs" "\<forall>q \<in> set qs. m < q" "yss = [[]] \<or> tidy yss" using assms by (simp_all add: building_def)
  obtain ps p where qs: "qs = ps @ [p]" using run_okD(1)[OF r(1)] by (metis rev_exhaust)
  obtain zss zs where yss: "yss = zss @ [zs]" using run_okD(3)[OF r(1)] qs by (cases yss rule: rev_cases) auto
  have h: "list_all2 (\<lambda>p. has_rows (view s p)) ps zss" "has_rows (view s p) zs"
    using r(1) qs yss by (auto simp: run_ok_def list_all2_append2 dest: list_all2_lengthD)
  have "hdr_next_page_id (view s p) = - 1" using links_at[of "view s" ps p "[]"] run_okD(2)[OF r(1)] qs by simp
  moreover have "p \<notin> set ps" "distinct ps" using r(2) qs by simp_all
  moreover have "links (view s) (ps @ [p])" using run_okD(2)[OF r(1)] qs by simp
  moreover have "1 \<le> p" "p \<le> n" "p \<notin> X" "m < p" using run_okD(4)[OF r(1), of p] r(3) qs by simp_all
  moreover have "zs = [] \<Longrightarrow> zss = []" "tidy zss" using r(4) yss by (auto simp: tidy_def)
  ultimately show ?thesis using that[OF qs yss h] by blast
qed

lemma pages_snoc:
  assumes "list_all2 (\<lambda>p. has_rows (v p)) ps zss" "\<And>p. p \<in> set ps \<Longrightarrow> w p = v p" "has_rows (w l) zs"
  shows "list_all2 (\<lambda>p. has_rows (w p)) (ps @ [l]) (zss @ [zs])"
proof -
  have "list_all2 (\<lambda>p. has_rows (w p)) ps zss" using assms(1,2) by (auto simp: list_all2_conv_all_nth)
  with list_all2_lengthD[OF this] assms(3) show ?thesis by (simp add: list_all2_append)
qed

lemma append_row:
  assumes s: "loose s n X" and B: "building s n X m qs yss" and p: "1 \<le> p" "p \<le> m" "p \<notin> X" "m \<le> n" and xs: "has_rows (view s p) xs" "i < length xs"
    and r: "row_fit (xs ! i)" and n: "n < 60000"
  shows "\<exists>qs' yss' n' u. sort_insert_tuple (int (last qs)) (int p) (int i) s = Inr (int (last qs'), u) \<and> n \<le> n' \<and> n' \<le> Suc n \<and> loose u n' X \<and>
    building u n' X m qs' yss' \<and> tidy yss' \<and> concat yss' = concat yss @ [xs ! i] \<and> hd qs' = hd qs \<and> others_same m X s u"
proof -
  let ?r = "xs ! i"
  obtain ps l zss zs where b: "qs = ps @ [l]" "yss = zss @ [zs]" "list_all2 (\<lambda>p. has_rows (view s p)) ps zss" "has_rows (view s l) zs"
    "l \<notin> set ps" "distinct ps" "links (view s) (ps @ [l])" "1 \<le> l" "l \<le> n" "l \<notin> X" "m < l" "hdr_next_page_id (view s l) = - 1"
    "zs = [] \<Longrightarrow> zss = []" "tidy zss"
    using building_last[OF B] by blast
  have ps: "\<forall>q \<in> set ps. 1 \<le> q \<and> q \<le> n \<and> q \<notin> X \<and> m < q" using B b(1) by (auto simp: building_def run_ok_def)
  obtain f u1 where u1: "fetch_frame s (int p) = Inr (f, view s p, u1)" "loose u1 n X" "others_same n X s u1"
    using loose_fetch[OF s p(1), of] p by fastforce
  have v1: "view u1 k = view s k" if "1 \<le> k" "k \<le> n" "k \<notin> X" for k using u1(3) that by (simp add: others_same_def)
  have g: "Page_getTuple (view s p) (int i) (Tuple []) = Inr (True, ?r)" by (rule has_rows_get[OF xs])
  have "has_rows (view u1 l) zs" using b(4) v1[OF b(8,9,10)] by simp
  from insert_at[OF u1(2) b(8,9,10) this r] obtain h bb j b' u2 u3 where
    u3: "fetch_frame u1 (int l) = Inr (h, bb, u2)" "Page_insertTuple bb ?r = Inr (j, b')" "markAsDirty (store_frame u2 h b') (int l) = Inr u3"
    "loose u3 n X" "\<forall>k. 1 \<le> k \<and> k \<le> n \<and> k \<notin> X \<and> k \<noteq> l \<longrightarrow> view u3 k = view u1 k" "hdr_next_page_id (view u3 l) = hdr_next_page_id (view u1 l)"
    "if load (zs @ [?r]) \<le> PAGE_SIZE then j \<noteq> - 1 \<and> has_rows (view u3 l) (zs @ [?r]) else j = - 1 \<and> view u3 l = view u1 l" by blast
  have v3: "view u3 k = view s k" if "1 \<le> k" "k \<le> n" "k \<notin> X" "k \<noteq> l" for k using u3(5) v1 that by simp
  have v3p: "view u3 k = view s k" if "k \<in> set ps" for k using v3[of k] ps that b(5) by auto
  show ?thesis
  proof (cases "load (zs @ [?r]) \<le> PAGE_SIZE")
    case True
    have "sort_insert_tuple (int (last qs)) (int p) (int i) s = Inr (int (last qs), u3)"
      using u1(1) g u3(1-3,7) True b(1) by (simp add: sort_insert_tuple_def)
    moreover have "hdr_next_page_id (view s k) = hdr_next_page_id (view u3 k)" if "k \<in> set (ps @ [l])" for k
      using that u3(6) v1[OF b(8-10)] v3p by auto
    then have "links (view u3) qs" using b(1,7) links_cong[of "ps @ [l]" "view s" "view u3"] by blast
    moreover have "list_all2 (\<lambda>p. has_rows (view u3 p)) qs (zss @ [zs @ [?r]])"
      using b(1,3) u3(7) True v3p pages_snoc[OF b(3), of "view u3" l "zs @ [?r]"] by simp
    ultimately show ?thesis using u3(4) B b(1,2,13,14) v3 p
      by (intro exI[of _ qs] exI[of _ "zss @ [zs @ [?r]]"] exI[of _ n] exI[of _ u3])
         (auto simp: building_def run_ok_def tidy_def others_same_def)
  next
    case False
    then have j: "j = - 1" "view u3 l = view s l" using u3(7) v1[OF b(8-10)] by simp_all
    have "zs \<noteq> []" using False r by (auto simp: row_fit_def load_def)
    then have td: "tidy yss" using b(2,14) by (auto simp: tidy_def)
    let ?q = "Suc n"
    obtain u4 where u4: "newPage u3 = Inr (int ?q, u4)" "loose u4 ?q X" "others_same n X u3 u4" "view u4 ?q = Page (int ?q)"
      using loose_new[OF u3(4) n] by blast
    have lq: "l \<le> ?q" using b(9) by simp
    obtain h2 u5 where u5: "fetch_frame u4 (int l) = Inr (h2, view u4 l, u5)" "loose u5 ?q X" "others_same ?q X u4 u5" "cached u5 l h2" "view u5 l = view u4 l"
      using loose_fetch[OF u4(2) b(8) lq] b(10) by blast
    have "canon (set_next_page_id (view u4 l) (int ?q))" using loose_frame(2)[OF u5(2,4)] u5(5) by simp
    from loose_mark[OF u5(2,4) this] obtain u6 where u6: "markAsDirty (store_frame u5 h2 (set_next_page_id (view u4 l) (int ?q))) (int l) = Inr u6"
      "loose u6 ?q X" "view u6 l = set_next_page_id (view u4 l) (int ?q)"
      "\<forall>k. k \<noteq> l \<and> (k \<notin> X \<or> map_of (page_table u5) (int k) \<noteq> None) \<longrightarrow> view u6 k = view u5 k" by blast
    have xq: "X \<subseteq> {1..n}" using s by (auto simp: loose_def)
    have q: "1 \<le> ?q" "?q \<le> ?q" "?q \<notin> X" "?q \<noteq> l" using xq b(9) by auto
    have v6q: "view u6 ?q = Page (int ?q)" using u6(4) u5(3) u4(4) q by (simp add: others_same_def)
    have "has_rows (view u6 ?q) []" using v6q has_rows_Page by simp
    from insert_at[OF u6(2) q(1-3) this r] obtain h3 b3 j3 b3' u7 u8 where
      u8: "fetch_frame u6 (int ?q) = Inr (h3, b3, u7)" "Page_insertTuple b3 ?r = Inr (j3, b3')" "markAsDirty (store_frame u7 h3 b3') (int ?q) = Inr u8"
      "loose u8 ?q X" "\<forall>k. 1 \<le> k \<and> k \<le> ?q \<and> k \<notin> X \<and> k \<noteq> ?q \<longrightarrow> view u8 k = view u6 k" "hdr_next_page_id (view u8 ?q) = hdr_next_page_id (view u6 ?q)"
      "if load ([] @ [?r]) \<le> PAGE_SIZE then j3 \<noteq> - 1 \<and> has_rows (view u8 ?q) ([] @ [?r]) else j3 = - 1 \<and> view u8 ?q = view u6 ?q" by blast
    have h8: "has_rows (view u8 ?q) [?r]" using u8(7) r by (simp add: row_fit_def)
    have v8: "view u8 k = (if k = l then set_next_page_id (view s l) (int ?q) else view s k)" if k: "1 \<le> k" "k \<le> n" "k \<notin> X" for k
      using u8(5) u6(3,4) u5(3) u4(3) v3 j(2) k b(8-10) by (auto simp: others_same_def)
    have v8l: "view u8 l = set_next_page_id (view s l) (int ?q)" using v8[OF b(8-10)] by simp
    have v8p: "view u8 k = view s k" if "k \<in> set ps" for k using v8[of k] ps that b(5) by auto
    have "in_i32 (int ?q)" using n by (simp add: in_i32_def)
    then have "hdr_next_page_id (view u8 l) = int ?q" by (simp add: v8l)
    moreover have "hdr_next_page_id (view u8 ?q) = - 1" using u8(6) v6q Page_next by simp
    ultimately have "links (view u8) (ps @ [l, ?q])" using links_snoc[OF b(7), of "view u8" ?q] v8p by simp
    moreover have "list_all2 (\<lambda>p. has_rows (view u8 p)) (ps @ [l, ?q]) (zss @ [zs, [?r]])"
      using pages_snoc[OF pages_snoc[OF b(3), of "view u8" l zs], of "view u8" ?q "[?r]"] b(4) h8 v8l has_rows_next v8p by simp
    ultimately have "run_ok u8 ?q X (qs @ [?q]) (yss @ [[?r]])" using ps b(1,2,8-10) q by (fastforce simp: run_ok_def)
    moreover have "tidy (yss @ [[?r]])" using td by (simp add: tidy_def)
    moreover have "?q \<notin> set qs" using ps b(1,9) by auto
    ultimately have "building u8 ?q X m (qs @ [?q]) (yss @ [[?r]])" using B p(4) by (auto simp: building_def)
    moreover have "sort_insert_tuple (int (last qs)) (int p) (int i) s = Inr (int (last (qs @ [?q])), u8)"
      using u1(1) g u3(1-3) j(1) b(1) u4(1) u5(1) u6(1) u8(1-3) by (simp add: sort_insert_tuple_def)
    moreover have "hd (qs @ [?q]) = hd qs" using b(1) by (cases ps) auto
    moreover have "others_same m X s u8" using v8 p(4) b(11) by (auto simp: others_same_def)
    ultimately show ?thesis using u8(4) td
      by (intro exI[of _ "qs @ [?q]"] exI[of _ "yss @ [[?r]]"] exI[of _ ?q] exI[of _ u8]) (simp add: tidy_def)
  qed
qed

end
