(* ===== verification/Sort_Laws.thy ===== *)
theory Sort_Laws imports Sort_Runs
begin

text \<open>
  External merge sort: merging two runs, merging the queue of runs, and collecting the rows of a child into
  sorted runs.
\<close>

section \<open>The order of rows\<close>

definition key_less :: "sorting_methods \<Rightarrow> field \<Rightarrow> field \<Rightarrow> bool" where
  "key_less m x y = (case m of ASC \<Rightarrow> fless x y | DESC \<Rightarrow> fless y x)"

definition row_key :: "int \<Rightarrow> tuple \<Rightarrow> field" where
  "row_key c t = tfields t ! nat c"

definition row_less :: "sorting_methods \<Rightarrow> int \<Rightarrow> tuple \<Rightarrow> tuple \<Rightarrow> bool" where
  "row_less m c a b = key_less m (row_key c a) (row_key c b)"

definition row_equal :: "sorting_methods \<Rightarrow> int \<Rightarrow> tuple \<Rightarrow> tuple \<Rightarrow> bool" where
  "row_equal m c a b \<longleftrightarrow> \<not> row_less m c a b \<and> \<not> row_less m c b a"

definition sort_row :: "FieldType \<Rightarrow> int \<Rightarrow> tuple \<Rightarrow> bool" where
  "sort_row ty c t \<longleftrightarrow> row_fit t \<and> 0 \<le> c \<and> nat c < length (tfields t) \<and> comparable ty (row_key c t)"

definition in_order :: "sorting_methods \<Rightarrow> int \<Rightarrow> tuple list \<Rightarrow> bool" where
  "in_order m c xs \<longleftrightarrow> sorted_wrt (\<lambda>a b. \<not> row_less m c b a) xs"

lemma key_before_rows:
  assumes "sort_row ty c a" "sort_row ty c b"
  shows "key_before m (row_key c a) (row_key c b) = Inr (row_less m c a b)" "row_before m c a b = Inr (row_less m c a b)"
proof -
  show k: "key_before m (row_key c a) (row_key c b) = Inr (row_less m c a b)"
    using field_cmp_not_same[of ty "row_key c a" "row_key c b"] assms
    by (cases m) (simp_all add: key_before_def row_less_def key_less_def sort_row_def)
  have "vec_at_int (tfields t) c = Inr (row_key c t)" if "sort_row ty c t" for t
    using that by (auto simp: sort_row_def row_key_def vec_at_int_def)
  then show "row_before m c a b = Inr (row_less m c a b)"
    using k assms by (simp add: row_before_def)
qed

interpretation row_order: value_order "row_less m c" "row_equal m c" "sort_row ty c" for m c ty
proof unfold_locales
  fix a b d
  show "sort_row ty c a \<Longrightarrow> \<not> row_less m c a a"
    using field_order.irrefl[of ty "row_key c a"] by (cases m) (simp_all add: row_less_def key_less_def sort_row_def)
  show "sort_row ty c a \<Longrightarrow> sort_row ty c b \<Longrightarrow> sort_row ty c d \<Longrightarrow> row_less m c a b \<Longrightarrow> row_less m c b d \<Longrightarrow> row_less m c a d"
    using field_order.trans[of ty "row_key c a" "row_key c b" "row_key c d"] field_order.trans[of ty "row_key c d" "row_key c b" "row_key c a"]
    by (cases m) (simp_all add: row_less_def key_less_def sort_row_def)
  show "sort_row ty c a \<Longrightarrow> sort_row ty c b \<Longrightarrow> row_equal m c a b \<longleftrightarrow> \<not> row_less m c a b \<and> \<not> row_less m c b a"
    by (simp add: row_equal_def)
  show "sort_row ty c a \<Longrightarrow> sort_row ty c b \<Longrightarrow> sort_row ty c d \<Longrightarrow> row_equal m c a b \<Longrightarrow> row_equal m c b d \<Longrightarrow> row_equal m c a d"
    using field_order.equal_trans[of ty "row_key c a" "row_key c b" "row_key c d"]
    by (cases m) (auto simp: row_equal_def row_less_def key_less_def sort_row_def fequal_def)
qed

section \<open>Merging two lists\<close>

fun merged :: "('a \<Rightarrow> 'a \<Rightarrow> bool) \<Rightarrow> 'a list \<Rightarrow> 'a list \<Rightarrow> 'a list" where
  "merged lt (x # xs) (y # ys) = (if lt x y then x # merged lt xs (y # ys) else y # merged lt (x # xs) ys)"
| "merged lt xs [] = xs"
| "merged lt [] ys = ys"

lemma merged_mset: "mset (merged lt xs ys) = mset xs + mset ys"
  by (induction lt xs ys rule: merged.induct) auto

lemma merged_set: "set (merged lt xs ys) = set xs \<union> set ys"
  by (induction lt xs ys rule: merged.induct) auto

lemma merged_in_order:
  assumes "in_order m c xs" "in_order m c ys" "\<forall>t \<in> set xs \<union> set ys. sort_row ty c t"
  shows "in_order m c (merged (row_less m c) xs ys)"
  using assms
proof (induction "row_less m c" xs ys rule: merged.induct)
  case (1 x xs y ys)
  have d: "sort_row ty c x" "sort_row ty c y" using 1(5) by auto
  show ?case
  proof (cases "row_less m c x y")
    case True
    have "\<not> row_less m c z x" if "z \<in> set xs \<union> set (y # ys)" for z
    proof (cases "z \<in> set xs")
      case True
      then show ?thesis using 1(3) by (simp add: in_order_def)
    next
      case False
      have "\<not> row_less m c y x" using row_order.asym[OF d] True by blast
      moreover have "z = y \<or> \<not> row_less m c z y" "sort_row ty c z" using False that 1(4,5) by (auto simp: in_order_def)
      ultimately show ?thesis using row_order.not_less_trans[OF d(1,2)] by blast
    qed
    moreover have "in_order m c (merged (row_less m c) xs (y # ys))" using 1 True by (simp add: in_order_def)
    ultimately show ?thesis using True by (simp add: in_order_def merged_set)
  next
    case False
    have "\<not> row_less m c z y" if "z \<in> set (x # xs) \<union> set ys" for z
    proof (cases "z \<in> set ys")
      case True
      then show ?thesis using 1(4) by (simp add: in_order_def)
    next
      case F: False
      moreover have "z = x \<or> \<not> row_less m c z x" "sort_row ty c z" using F that 1(3,5) by (auto simp: in_order_def)
      ultimately show ?thesis using row_order.not_less_trans[OF d(2,1)] False by blast
    qed
    moreover have "in_order m c (merged (row_less m c) (x # xs) ys)" using 1 False by (simp add: in_order_def)
    ultimately show ?thesis using False by (simp add: in_order_def merged_set)
  qed
qed (auto simp: in_order_def)

section \<open>Merging two runs\<close>

lemma stands_in_run:
  assumes r: "run_ok s n X ps xss" and st: "stands xss pos (t # rs)"
  obtains p where "vec_at (map int ps) (fst pos) = Inr (int p)" "1 \<le> p" "p \<le> n" "p \<notin> X" "has_rows (view s p) (xss ! fst pos)"
    "snd pos < length (xss ! fst pos)" "xss ! fst pos ! snd pos = t"
proof -
  note p = stands_row(1-3)[OF st]
  have i: "fst pos < length ps" using p(1) run_okD(3)[OF r] by simp
  then show ?thesis using that[of "ps ! fst pos"] run_okD(4)[OF r nth_mem[OF i]] run_okD(5)[OF r i] p by simp
qed

lemma copy_row_run:
  assumes s: "loose s n X" and B: "building s n X k qs yss" and r: "run_ok s k X ps xss" "tidy xss" "stands xss pos (t # rs)"
    and t: "row_fit t" and n: "n < 60000" "k \<le> n"
  shows "\<exists>pos' qs' yss' n' u. copy_row (map int ps) (map (map g) xss) pos (int (last qs)) s = Inr (pos', int (last qs'), u) \<and> stands xss pos' rs \<and>
    n \<le> n' \<and> n' \<le> Suc n \<and> loose u n' X \<and> building u n' X k qs' yss' \<and> tidy yss' \<and> concat yss' = concat yss @ [t] \<and> hd qs' = hd qs \<and> others_same k X s u"
proof -
  obtain p where p: "vec_at (map int ps) (fst pos) = Inr (int p)" "1 \<le> p" "p \<le> k" "p \<notin> X" "has_rows (view s p) (xss ! fst pos)"
    "snd pos < length (xss ! fst pos)" "xss ! fst pos ! snd pos = t" using stands_in_run[OF r(1,3)] by blast
  obtain pos' where pos': "advance (map (map g) xss) pos = Inr pos'" "stands xss pos' rs" using stands_advance[OF r(3,2)] by blast
  obtain qs' yss' n' u where "sort_insert_tuple (int (last qs)) (int p) (int (snd pos)) s = Inr (int (last qs'), u)" "n \<le> n'" "n' \<le> Suc n" "loose u n' X"
    "building u n' X k qs' yss'" "tidy yss'" "concat yss' = concat yss @ [t]" "hd qs' = hd qs" "others_same k X s u"
    using append_row[OF s B p(2-4) n(2) p(5,6) _ n(1)] t p(7) by auto
  moreover from this(1) have "copy_row (map int ps) (map (map g) xss) pos (int (last qs)) s = Inr (pos', int (last qs'), u)"
    using p(1) pos'(1) by (simp add: copy_row_def)
  ultimately show ?thesis using pos'(2) by blast
qed

lemma merge_rows_steps:
  "merge_rows m li lf ri rf 0 lp 0 rp np s = Inr s"
  "merge_rows m li lf ri rf (Suc i) lp 0 rp np s = rbind (copy_row li lf lp np s) (\<lambda>(lp, np, s). merge_rows m li lf ri rf i lp 0 rp np s)"
  "merge_rows m li lf ri rf 0 lp (Suc j) rp np s = rbind (copy_row ri rf rp np s) (\<lambda>(rp, np, s). merge_rows m li lf ri rf 0 lp j rp np s)"
  "merge_rows m li lf ri rf (Suc i) lp (Suc j) rp np s =
     rbind (key_at lf lp) (\<lambda>x. rbind (key_at rf rp) (\<lambda>y. rbind (key_before m x y) (\<lambda>b.
     if b then rbind (copy_row li lf lp np s) (\<lambda>(lp, np, s). merge_rows m li lf ri rf i lp (Suc j) rp np s)
     else rbind (copy_row ri rf rp np s) (\<lambda>(rp, np, s). merge_rows m li lf ri rf (Suc i) lp j rp np s))))"
  by (subst merge_rows.simps, simp cong: if_cong)+

lemma merged_Nil: "merged lt [] ys = ys" "merged lt xs [] = xs"
  by (cases ys; simp) (cases xs; simp)

lemma merge_rows_run:
  assumes "loose s n X" "building s n X k qs yss" "run_ok s k X li lss" "run_ok s k X ri rss" "tidy lss" "tidy rss"
    and "stands lss lp ls" "stands rss rp rs" "\<forall>t \<in> set ls \<union> set rs. sort_row ty c t" "n + length ls + length rs \<le> 60000" "k \<le> n"
  shows "\<exists>qs' yss' n' u. merge_rows m (map int li) (map (map (row_key c)) lss) (map int ri) (map (map (row_key c)) rss)
      (length ls) lp (length rs) rp (int (last qs)) s = Inr u \<and> n \<le> n' \<and> n' \<le> n + length ls + length rs \<and> loose u n' X \<and>
    building u n' X k qs' yss' \<and> (tidy yss \<or> ls \<noteq> [] \<or> rs \<noteq> [] \<longrightarrow> tidy yss') \<and>
    concat yss' = concat yss @ merged (row_less m c) ls rs \<and> hd qs' = hd qs \<and> others_same k X s u"
  using assms
proof (induction "length ls + length rs" arbitrary: s n qs yss lp ls rp rs)
  case 0
  then show ?case by (intro exI[of _ qs] exI[of _ yss] exI[of _ n] exI[of _ s]) (simp add: merge_rows_steps)
next
  case (Suc j)
  note inv = Suc.prems
  let ?M = "\<lambda>i lp j rp np s. merge_rows m (map int li) (map (map (row_key c)) lss) (map int ri) (map (map (row_key c)) rss) i lp j rp np s"
  have left: ?case
    if ls: "ls = t # ts" and step: "\<And>lp' np u. copy_row (map int li) (map (map (row_key c)) lss) lp (int (last qs)) s = Inr (lp', np, u) \<Longrightarrow>
        ?M (length ls) lp (length rs) rp (int (last qs)) s = ?M (length ts) lp' (length rs) rp np u"
      and mg: "merged (row_less m c) ls rs = t # merged (row_less m c) ts rs" for t ts
  proof -
    have t: "row_fit t" "n < 60000" using inv(9,10) ls by (auto simp: sort_row_def)
    obtain lp' qs1 yss1 n1 u where c: "copy_row (map int li) (map (map (row_key c)) lss) lp (int (last qs)) s = Inr (lp', int (last qs1), u)"
      "stands lss lp' ts" "n \<le> n1" "n1 \<le> Suc n" "loose u n1 X" "building u n1 X k qs1 yss1" "tidy yss1" "concat yss1 = concat yss @ [t]"
      "hd qs1 = hd qs" "others_same k X s u"
      using copy_row_run[OF inv(1,2,3,5) inv(7)[unfolded ls] t inv(11)] by blast
    have "run_ok u k X li lss" "run_ok u k X ri rss" using run_ok_others[OF inv(3) c(10)] run_ok_others[OF inv(4) c(10)] by simp_all
    from Suc.hyps(1)[OF _ c(5,6) this inv(5,6) c(2) inv(8)] obtain qs' yss' n' w where
      w: "?M (length ts) lp' (length rs) rp (int (last qs1)) u = Inr w" "n1 \<le> n'" "n' \<le> n1 + length ts + length rs" "loose w n' X" "building w n' X k qs' yss'"
      "tidy yss1 \<or> ts \<noteq> [] \<or> rs \<noteq> [] \<longrightarrow> tidy yss'" "concat yss' = concat yss1 @ merged (row_less m c) ts rs" "hd qs' = hd qs1" "others_same k X u w"
      using Suc.hyps(2) inv(9-11) ls c(3,4) by auto
    show ?thesis using step[OF c(1)] w c mg ls others_same_trans[OF c(10) w(9)]
      by (intro exI[of _ qs'] exI[of _ yss'] exI[of _ n'] exI[of _ w]) auto
  qed
  have right: ?case
    if rs: "rs = t # ts" and step: "\<And>rp' np u. copy_row (map int ri) (map (map (row_key c)) rss) rp (int (last qs)) s = Inr (rp', np, u) \<Longrightarrow>
        ?M (length ls) lp (length rs) rp (int (last qs)) s = ?M (length ls) lp (length ts) rp' np u"
      and mg: "merged (row_less m c) ls rs = t # merged (row_less m c) ls ts" for t ts
  proof -
    have t: "row_fit t" "n < 60000" using inv(9,10) rs by (auto simp: sort_row_def)
    obtain rp' qs1 yss1 n1 u where c: "copy_row (map int ri) (map (map (row_key c)) rss) rp (int (last qs)) s = Inr (rp', int (last qs1), u)"
      "stands rss rp' ts" "n \<le> n1" "n1 \<le> Suc n" "loose u n1 X" "building u n1 X k qs1 yss1" "tidy yss1" "concat yss1 = concat yss @ [t]"
      "hd qs1 = hd qs" "others_same k X s u"
      using copy_row_run[OF inv(1,2,4,6) inv(8)[unfolded rs] t inv(11)] by blast
    have "run_ok u k X li lss" "run_ok u k X ri rss" using run_ok_others[OF inv(3) c(10)] run_ok_others[OF inv(4) c(10)] by simp_all
    from Suc.hyps(1)[OF _ c(5,6) this inv(5,6) inv(7) c(2)] obtain qs' yss' n' w where
      w: "?M (length ls) lp (length ts) rp' (int (last qs1)) u = Inr w" "n1 \<le> n'" "n' \<le> n1 + length ls + length ts" "loose w n' X" "building w n' X k qs' yss'"
      "tidy yss1 \<or> ls \<noteq> [] \<or> ts \<noteq> [] \<longrightarrow> tidy yss'" "concat yss' = concat yss1 @ merged (row_less m c) ls ts" "hd qs' = hd qs1" "others_same k X u w"
      using Suc.hyps(2) inv(9-11) rs c(3,4) by auto
    show ?thesis using step[OF c(1)] w c mg rs others_same_trans[OF c(10) w(9)]
      by (intro exI[of _ qs'] exI[of _ yss'] exI[of _ n'] exI[of _ w]) auto
  qed
  show ?case
  proof (cases ls)
    case Nil
    then obtain t ts where rs: "rs = t # ts" using Suc.hyps(2) by (cases rs) auto
    show ?thesis by (rule right[OF rs]) (use Nil rs in \<open>simp_all add: merge_rows_steps merged_Nil\<close>)
  next
    case ls: (Cons t ts)
    show ?thesis
    proof (cases rs)
      case Nil
      show ?thesis by (rule left[OF ls]) (use Nil ls in \<open>simp_all add: merge_rows_steps\<close>)
    next
      case rs: (Cons r us)
      have "key_at (map (map (row_key c)) lss) lp = Inr (row_key c t)" "key_at (map (map (row_key c)) rss) rp = Inr (row_key c r)"
        using stands_row(4)[OF inv(7)[unfolded ls]] stands_row(4)[OF inv(8)[unfolded rs]] by blast+
      moreover have "key_before m (row_key c t) (row_key c r) = Inr (row_less m c t r)" using key_before_rows(1)[of ty c t r] inv(9) ls rs by simp
      ultimately show ?thesis
        using left[OF ls] right[OF rs] ls rs by (cases "row_less m c t r") (simp_all add: merge_rows_steps)
    qed
  qed
qed

section \<open>Merging the queue\<close>

text \<open>A run in the queue: sorted rows on pages none of which is empty.\<close>

definition good_run :: "FieldType \<Rightarrow> sorting_methods \<Rightarrow> int \<Rightarrow> bpm \<Rightarrow> nat \<Rightarrow> nat set \<Rightarrow> nat list \<times> tuple list list \<Rightarrow> bool" where
  "good_run ty m c s n X r \<longleftrightarrow> run_ok s n X (fst r) (snd r) \<and> tidy (snd r) \<and> in_order m c (concat (snd r)) \<and>
     (\<forall>t \<in> set (concat (snd r)). sort_row ty c t)"

definition run_head :: "nat list \<times> tuple list list \<Rightarrow> int" where
  "run_head r = int (hd (fst r))"

definition run_rows :: "nat list \<times> tuple list list \<Rightarrow> tuple list" where
  "run_rows r = concat (snd r)"

definition all_rows :: "(nat list \<times> tuple list list) list \<Rightarrow> tuple list" where
  "all_rows rs = concat (map run_rows rs)"

lemma good_run_others: "good_run ty m c s n X r \<Longrightarrow> others_same n X s u \<Longrightarrow> n \<le> k \<Longrightarrow> good_run ty m c u k X r"
  using run_ok_others by (auto simp: good_run_def)

lemma tidy_length: "tidy xss \<Longrightarrow> length xss \<le> length (concat xss)"
proof (induction xss)
  case (Cons xs xss)
  then show ?case by (cases xs) (auto simp: tidy_def)
qed simp

lemma good_run_pages:
  assumes "good_run ty m c s n X r"
  shows "length (fst r) \<le> length (run_rows r)" "run_rows r \<noteq> []"
proof -
  have r: "run_ok s n X (fst r) (snd r)" "tidy (snd r)" using assms by (simp_all add: good_run_def)
  show l: "length (fst r) \<le> length (run_rows r)" using tidy_length[OF r(2)] run_okD(3)[OF r(1)] by (simp add: run_rows_def)
  then show "run_rows r \<noteq> []" using run_okD(1)[OF r(1)] by (cases "fst r") auto
qed

lemma merge_two_run:
  assumes s: "loose s n X" and p: "good_run ty m c s n X p" and q: "good_run ty m c s n X q"
    and k: "length (run_rows p) < k" "length (run_rows q) < k" and n: "n + 1 + length (run_rows p) + length (run_rows q) \<le> 60000"
  shows "\<exists>r n' u. merge_two k m c (run_head p) (run_head q) s = Inr (run_head r, u) \<and> n \<le> n' \<and>
    n' \<le> n + 1 + length (run_rows p) + length (run_rows q) \<and> loose u n' X \<and> good_run ty m c u n' X r \<and>
    run_rows r = merged (row_less m c) (run_rows p) (run_rows q) \<and> others_same n X s u"
proof -
  obtain ps xss qs yss where pq: "p = (ps, xss)" "q = (qs, yss)" by (cases p; cases q) auto
  have P: "run_ok s n X ps xss" "tidy xss" "in_order m c (concat xss)" "\<forall>t \<in> set (concat xss). sort_row ty c t"
    and Q: "run_ok s n X qs yss" "tidy yss" "in_order m c (concat yss)" "\<forall>t \<in> set (concat yss). sort_row ty c t"
    using p q pq by (simp_all add: good_run_def)
  have lp: "length ps < k" "length qs < k" using good_run_pages(1)[OF p] good_run_pages(1)[OF q] k pq by simp_all
  have ne: "concat xss \<noteq> []" using good_run_pages(2)[OF p] pq by (simp add: run_rows_def)
  have key: "\<forall>t \<in> set (concat xss). nat c < length (tfields t)" "\<forall>t \<in> set (concat yss). nat c < length (tfields t)"
    using P(4) Q(4) unfolding sort_row_def by blast+
  obtain t ts where "concat xss = t # ts" using ne by (cases "concat xss") auto
  then have c: "0 \<le> c" using P(4) unfolding sort_row_def by auto
  obtain s1 where s1: "chain_pages k s (int (hd ps)) = Inr (map int ps, s1)" "loose s1 n X" "others_same n X s s1"
    using chain_run[OF s P(1) lp(1)] by blast
  note r1 = run_ok_others[OF P(1) s1(3) order_refl] run_ok_others[OF Q(1) s1(3) order_refl]
  obtain s2 where s2: "chain_pages k s1 (int (hd qs)) = Inr (map int qs, s2)" "loose s2 n X" "others_same n X s1 s2"
    using chain_run[OF s1(2) r1(2) lp(2)] by blast
  note r2 = run_ok_others[OF r1(1) s2(3) order_refl] run_ok_others[OF r1(2) s2(3) order_refl]
  obtain s3 where s3: "run_fields c (map int ps) s2 = Inr (map (map (row_key c)) xss, s3)" "loose s3 n X" "others_same n X s2 s3"
    using run_fields_run[OF s2(2) _ _ c key(1)] r2(1) unfolding run_ok_def row_key_def[abs_def] by blast
  note r3 = run_ok_others[OF r2(1) s3(3) order_refl] run_ok_others[OF r2(2) s3(3) order_refl]
  obtain s4 where s4: "run_fields c (map int qs) s3 = Inr (map (map (row_key c)) yss, s4)" "loose s4 n X" "others_same n X s3 s4"
    using run_fields_run[OF s3(2) _ _ c key(2)] r3(2) unfolding run_ok_def row_key_def[abs_def] by blast
  note r4 = run_ok_others[OF r3(1) s4(3) order_refl] run_ok_others[OF r3(2) s4(3) order_refl]
  have n6: "n < 60000" using n by simp
  let ?q = "Suc n"
  obtain s5 where s5: "newPage s4 = Inr (int ?q, s5)" "loose s5 ?q X" "others_same n X s4 s5" "view s5 ?q = Page (int ?q)"
    using loose_new[OF s4(2) n6] by blast
  have x: "X \<subseteq> {1..n}" using s by (auto simp: loose_def)
  then have qx: "1 \<le> ?q" "?q \<le> ?q" "?q \<notin> X" by auto
  obtain f s6 where s6: "fetch_frame s5 (int ?q) = Inr (f, view s5 ?q, s6)" "loose s6 ?q X" "others_same ?q X s5 s6" "cached s6 ?q f" "view s6 ?q = view s5 ?q"
    using loose_fetch[OF s5(2) qx(1,2)] qx(3) by blast
  have "store_frame s6 f (view s6 ?q) = s6" using store_frame_id[OF loose_frame(1)[OF s6(2,4)]] .
  with loose_mark[OF s6(2,4) loose_frame(2)[OF s6(2,4)]] obtain s7 where s7: "markAsDirty s6 (int ?q) = Inr s7" "loose s7 ?q X"
    "view s7 ?q = view s6 ?q" "\<forall>j. j \<noteq> ?q \<and> (j \<notin> X \<or> map_of (page_table s6) (int j) \<noteq> None) \<longrightarrow> view s7 j = view s6 j" by auto
  have o5: "others_same n X s4 s7" using s5(3) s6(3) s7(4) by (simp add: others_same_def)
  note r7 = run_ok_others[OF r4(1) o5 order_refl] run_ok_others[OF r4(2) o5 order_refl]
  have "building s7 ?q X n [?q] [[]]"
    using qx s7(3) s6(5) s5(4) has_rows_Page[of "int ?q"] Page_next by (simp add: building_def run_ok_def)
  moreover have "\<forall>t \<in> set (concat xss) \<union> set (concat yss). sort_row ty c t" using P(4) Q(4) by auto
  moreover have "stands xss (0, 0) (concat xss)" "stands yss (0, 0) (concat yss)"
    using stands_page[OF P(2), of 0] stands_page[OF Q(2), of 0] by simp_all
  ultimately obtain rs zss n' u where u: "merge_rows m (map int ps) (map (map (row_key c)) xss) (map int qs) (map (map (row_key c)) yss)
      (length (concat xss)) (0, 0) (length (concat yss)) (0, 0) (int (last [?q])) s7 = Inr u" "?q \<le> n'"
      "n' \<le> ?q + length (concat xss) + length (concat yss)" "loose u n' X" "building u n' X n rs zss"
      "concat zss = concat [[]] @ merged (row_less m c) (concat xss) (concat yss)" "hd rs = hd [?q]" "others_same n X s7 u" "tidy zss"
    using merge_rows_run[OF s7(2) _ r7 P(2) Q(2), of "[?q]" "[[]]" "(0, 0)" "concat xss" "(0, 0)" "concat yss" ty c m] n ne
    by (auto simp: pq run_rows_def)
  have "length (concat (map (map (row_key c)) zs)) = length (concat zs)" for zs by (induction zs) auto
  then have "merge_two k m c (run_head p) (run_head q) s = Inr (int ?q, u)"
    using s1(1) s2(1) s3(1) s4(1) s5(1) s6(1) s7(1) u(1) pq by (simp add: merge_two_def run_head_def)
  moreover have "others_same n X s u"
    using others_same_trans[OF s1(3) others_same_trans[OF s2(3) others_same_trans[OF s3(3) others_same_trans[OF s4(3) others_same_trans[OF o5 u(8)]]]]] by simp
  moreover have "in_order m c (concat zss)" "\<forall>t \<in> set (concat zss). sort_row ty c t"
    using u(6) merged_in_order[OF P(3) Q(3)] P(4) Q(4) by (auto simp: merged_set)
  then have "good_run ty m c u n' X (rs, zss)" using u(5,9) by (simp add: good_run_def building_def)
  ultimately show ?thesis using u(2-4,6,7) pq by (intro exI[of _ "(rs, zss)"] exI[of _ n'] exI[of _ u]) (simp add: run_head_def run_rows_def)
qed

end
