(* ===== verification/Sort_Open.thy ===== *)
theory Sort_Open imports Sort_Laws Executer_Spec
begin

text \<open>
  Opening a sort: merging the queue, writing a run, collecting the rows of the child; and the rows a sort
  returns.
\<close>

section \<open>The queue of runs\<close>

lemma merge_queue_run:
  assumes "loose s n X" "rs \<noteq> []" "\<forall>r \<in> set rs. good_run ty m c s n X r" "length (all_rows rs) < k"
    "n + (length rs - 1) * Suc (length (all_rows rs)) \<le> 60000"
  shows "\<exists>r n' u. merge_queue k m c (map run_head rs) s = Inr ([run_head r], u) \<and> n \<le> n' \<and> n' \<le> n + (length rs - 1) * Suc (length (all_rows rs)) \<and> loose u n' X \<and> good_run ty m c u n' X r \<and>
    mset (run_rows r) = mset (all_rows rs) \<and> others_same n X s u"
  using assms
proof (induction "length rs" arbitrary: rs s n)
  case (Suc j)
  obtain p rs1 where rs: "rs = p # rs1" using Suc.prems(2) by (cases rs) auto
  show ?case
  proof (cases rs1)
    case Nil
    then show ?thesis using Suc.prems rs by (intro exI[of _ p] exI[of _ n] exI[of _ s]) (simp add: all_rows_def)
  next
    case (Cons q ps)
    let ?T = "length (all_rows rs)"
    have all: "all_rows rs = run_rows p @ run_rows q @ all_rows ps" using rs Cons by (simp add: all_rows_def)
    have g: "good_run ty m c s n X p" "good_run ty m c s n X q" "\<forall>r \<in> set ps. good_run ty m c s n X r" using Suc.prems(3) rs Cons by auto
    have l: "length (run_rows p) < k" "length (run_rows q) < k" "length (run_rows p) + length (run_rows q) \<le> ?T" using Suc.prems(4) all by auto
    have bound: "n + (Suc ?T + length ps * Suc ?T) \<le> 60000" using Suc.prems(5) rs Cons by simp
    then have "n + 1 + length (run_rows p) + length (run_rows q) \<le> 60000" using l(3) by linarith
    from merge_two_run[OF Suc.prems(1) g(1,2) l(1,2) this] obtain r n1 u where
      u: "merge_two k m c (run_head p) (run_head q) s = Inr (run_head r, u)" "n \<le> n1" "n1 \<le> n + 1 + length (run_rows p) + length (run_rows q)"
      "loose u n1 X" "good_run ty m c u n1 X r" "run_rows r = merged (row_less m c) (run_rows p) (run_rows q)" "others_same n X s u" by blast
    let ?rs = "ps @ [r]"
    have m: "mset (all_rows ?rs) = mset (all_rows rs)" using u(6) all by (simp add: all_rows_def merged_mset)
    then have T: "length (all_rows ?rs) = ?T" by (metis size_mset)
    have "j = length ?rs" using Suc.hyps(2) rs Cons by simp
    moreover have "\<forall>r \<in> set ?rs. good_run ty m c u n1 X r" using g(3) u(5) good_run_others[OF _ u(7,2)] by auto
    moreover have "length (all_rows ?rs) < k" using T Suc.prems(4) by simp
    moreover have "n1 + (length ?rs - 1) * Suc (length (all_rows ?rs)) \<le> 60000" unfolding T using bound u(3) l(3) by simp
    ultimately obtain r' n' w where w: "merge_queue k m c (map run_head ?rs) u = Inr ([run_head r'], w)" "n1 \<le> n'" "loose w n' X" "good_run ty m c w n' X r'"
      "mset (run_rows r') = mset (all_rows ?rs)" "others_same n1 X u w" "n' \<le> n1 + (length ?rs - 1) * Suc (length (all_rows ?rs))"
      using Suc.hyps(1)[of ?rs u n1] u(4) by blast
    have "merge_queue k m c (map run_head rs) s = Inr ([run_head r'], w)" using w(1) u(1) rs Cons by simp
    moreover have "n \<le> n'" using u(2) w(2) by simp
    moreover have "n' \<le> n + (length rs - 1) * Suc ?T" using w(7) u(3) l(3) rs Cons unfolding T by simp
    ultimately show ?thesis using w(3-5) m others_same_trans[OF u(7) w(6) u(2)]
      by (intro exI[of _ r'] exI[of _ n'] exI[of _ w]) simp
  qed
qed simp

section \<open>Sorting a page of rows\<close>

text \<open>
  What the standard promises of \<^verbatim>\<open>std::sort\<close>: with a comparison that is a strict weak order on the elements, and
  does not throw, the result is a permutation in which no element is before an earlier one.
\<close>

locale sorter =
  fixes srt :: std_sort
  assumes sorts: "value_order lt eq D \<Longrightarrow> (\<And>a b. D a \<Longrightarrow> D b \<Longrightarrow> cmp a b = Inr (lt a b)) \<Longrightarrow> \<forall>t \<in> set xs. D t \<Longrightarrow>
    \<exists>ys. srt cmp xs = Inr ys \<and> mset ys = mset xs \<and> sorted_wrt (\<lambda>a b. \<not> lt b a) ys"
begin

lemma rows_sorted:
  assumes "\<forall>t \<in> set xs. sort_row ty c t"
  shows "\<exists>ys. srt (row_before m c) xs = Inr ys \<and> mset ys = mset xs \<and> in_order m c ys"
  using sorts[of "row_less m c" "row_equal m c" "sort_row ty c" "row_before m c" xs] row_order.value_order_axioms key_before_rows(2) assms
  by (auto simp: in_order_def)

end

text \<open>An insertion sort meets the contract.\<close>

fun insert_before :: "(tuple \<Rightarrow> tuple \<Rightarrow> bool res) \<Rightarrow> tuple \<Rightarrow> tuple list \<Rightarrow> tuple list res" where
  "insert_before cmp a [] = Inr [a]"
| "insert_before cmp a (b # bs) =
     rbind (cmp b a) (\<lambda>r. if r then rbind (insert_before cmp a bs) (\<lambda>cs. Inr (b # cs)) else Inr (a # b # bs))"

fun insertion_sort :: std_sort where
  "insertion_sort cmp [] = Inr []"
| "insertion_sort cmp (a # bs) = rbind (insertion_sort cmp bs) (insert_before cmp a)"

lemma insert_before_sorts:
  assumes o: "value_order lt eq D" and cmp: "\<And>a b. D a \<Longrightarrow> D b \<Longrightarrow> cmp a b = Inr (lt a b)"
    and xs: "D a" "\<forall>t \<in> set xs. D t" "sorted_wrt (\<lambda>a b. \<not> lt b a) xs"
  shows "\<exists>ys. insert_before cmp a xs = Inr ys \<and> mset ys = add_mset a (mset xs) \<and> sorted_wrt (\<lambda>a b. \<not> lt b a) ys"
  using xs
proof (induction xs)
  case (Cons b bs)
  have d: "D a" "D b" using Cons.prems by auto
  show ?case
  proof (cases "lt b a")
    case True
    obtain ys where ys: "insert_before cmp a bs = Inr ys" "mset ys = add_mset a (mset bs)" "sorted_wrt (\<lambda>a b. \<not> lt b a) ys"
      using Cons by auto
    have "set ys = insert a (set bs)" using ys(2) by (metis set_mset_add_mset_insert set_mset_mset)
    moreover have "\<not> lt a b" using value_order.asym[OF o d(2,1)] True by blast
    ultimately show ?thesis using True ys Cons.prems cmp[OF d(2,1)] by auto
  next
    case False
    have "\<not> lt z a" if "z \<in> set bs" for z
      using value_order.not_less_trans[OF o d, of z] False Cons.prems that by auto
    then show ?thesis using False Cons.prems cmp[OF d(2,1)] by auto
  qed
qed simp

interpretation insertion: sorter insertion_sort
proof
  fix lt eq :: "tuple \<Rightarrow> tuple \<Rightarrow> bool" and D and cmp :: "tuple \<Rightarrow> tuple \<Rightarrow> bool res" and xs
  assume o: "value_order lt eq D" and cmp: "\<And>a b. D a \<Longrightarrow> D b \<Longrightarrow> cmp a b = Inr (lt a b)" and xs: "\<forall>t \<in> set xs. D t"
  show "\<exists>ys. insertion_sort cmp xs = Inr ys \<and> mset ys = mset xs \<and> sorted_wrt (\<lambda>a b. \<not> lt b a) ys"
    using xs
  proof (induction xs)
    case (Cons a xs)
    then obtain ys where ys: "insertion_sort cmp xs = Inr ys" "mset ys = mset xs" "sorted_wrt (\<lambda>a b. \<not> lt b a) ys" by auto
    moreover have "set ys = set xs" using ys(2) by (metis set_mset_mset)
    ultimately show ?case using insert_before_sorts[OF o cmp, where xs = ys and a = a] Cons.prems by auto
  qed simp
qed

section \<open>Writing a run\<close>

lemma insert_rows_canon: "canon b \<Longrightarrow> gives canon (insert_rows us b)"
  unfolding insert_rows_def
proof (induction us arbitrary: b)
  case (Cons t us)
  show ?case
  proof (cases "Page_insertTuple b t")
    case (Inr r)
    then have "canon (snd r)" using givesD[OF Page_insertTuple_canon[OF Cons.prems] Inr] by (cases r) simp
    then show ?thesis using Cons.IH Inr by (cases r) simp
  qed (simp add: gives_Inl)
qed auto

lemma write_run:
  assumes s: "loose s n X" and xX: "x \<in> X" and n: "n < 60000" and e: "tmp_page_id e = int x" and srt: "sorter srt"
    and rows: "\<forall>t \<in> set (run_buffer e). sort_row ty c t" "run_buffer e \<noteq> []" "load (run_buffer e) \<le> PAGE_SIZE"
  shows "\<exists>ys u g. write_run_buffer_on_disk srt m c e s = Inr (e\<lparr>run_buffer := ys, run_queue := run_queue e @ [int (Suc n)]\<rparr>, u) \<and>
    loose u (Suc n) X \<and> cached u x g \<and> takes (view u x) [] \<and> good_run ty m c u (Suc n) X ([Suc n], [ys]) \<and> mset ys = mset (run_buffer e) \<and>
    others_same n X s u"
proof -
  let ?q = "Suc n"
  have x: "1 \<le> x" "x \<le> n" using s xX by (auto simp: loose_def)
  have q: "1 \<le> ?q" "?q \<le> ?q" "?q \<notin> X" using s by (auto simp: loose_def)
  obtain s1 where s1: "newPage s = Inr (int ?q, s1)" "loose s1 ?q X" "others_same n X s s1" "view s1 ?q = Page (int ?q)" using loose_new[OF s n] by blast
  obtain f s2 where s2: "fetch_frame s1 (int ?q) = Inr (f, view s1 ?q, s2)" "loose s2 ?q X" "others_same ?q X s1 s2" "cached s2 ?q f" "fresh_frame s2 f" "view s2 ?q = view s1 ?q"
    using loose_fetch[OF s1(2) q(1,2)] q(3) by blast
  obtain g b s3 where s3: "fetch_frame s2 (int x) = Inr (g, b, s3)" "canon b" "loose s3 ?q X" "others_same ?q X s2 s3" "cached s3 x g" "cached s3 ?q f" "view s3 x = b"
    using loose_fetch_tmp[OF s2(2,5,4) q(3) xX] by blast
  obtain ys where ys: "srt (row_before m c) (run_buffer e) = Inr ys" "mset ys = mset (run_buffer e)" "in_order m c ys"
    using sorter.rows_sorted[OF srt rows(1)] by blast
  have set: "set ys = set (run_buffer e)" using ys(2) by (metis set_mset_mset)
  have v3: "view s3 ?q = Page (int ?q)" using s3(4) s2(6) s1(4) q by (simp add: others_same_def)
  have "\<forall>t \<in> set ys. row_fit t" using rows(1) set by (simp add: sort_row_def)
  moreover have "load ([] @ ys) \<le> PAGE_SIZE" using rows(3) load_perm[OF ys(2)] by simp
  ultimately obtain b' where b': "insert_rows ys (view s3 ?q) = Inr b'" "has_rows b' ys" "hdr_next_page_id b' = - 1"
    using insert_rows_holds[OF has_rows_Page, of ys "int ?q"] v3 Page_next by auto
  have "canon b'" using givesD[OF insert_rows_canon b'(1)] v3 by simp
  from loose_mark[OF s3(3,6) this] obtain s4 where s4: "markAsDirty (store_frame s3 f b') (int ?q) = Inr s4" "loose s4 ?q X" "view s4 ?q = b'"
    "\<forall>j. j \<noteq> ?q \<and> (j \<notin> X \<or> map_of (page_table s3) (int j) \<noteq> None) \<longrightarrow> view s4 j = view s3 j" "page_table s4 = page_table s3" by blast
  have c4: "cached s4 x g" using s3(5) s4(5) by (simp add: cached_def)
  have cb: "canon (view s4 x)" by (rule loose_frame(2)[OF s4(2) c4])
  have "canon (reset_page (view s4 x))" "takes (reset_page (view s4 x)) []" using reset_page_takes[OF cb] by (auto simp: takes_def)
  note st = loose_store[OF s4(2) xX c4 this(1)]
  let ?u = "store_frame s4 g (reset_page (view s4 x))"
  have o: "others_same n X s ?u"
    using s1(3) s2(3) s3(4) s4(4) st(2) by (simp add: others_same_def)
  have "view ?u ?q = b'" using st(2) s4(3) q by (simp add: others_same_def)
  then have "run_ok ?u ?q X [?q] [ys]" using b' q by (simp add: run_ok_def)
  moreover have "ys \<noteq> []" using rows(2) set by force
  ultimately have "good_run ty m c ?u ?q X ([?q], [ys])" using ys(3) set rows(1) by (simp add: good_run_def tidy_def)
  moreover have "write_run_buffer_on_disk srt m c e s = Inr (e\<lparr>run_buffer := ys, run_queue := run_queue e @ [int ?q]\<rparr>, ?u)"
    using s1(1) s2(1) s3(1) ys(1) loose_frame(1)[OF s3(3,6)] b'(1) s4(1) loose_frame(1)[OF s4(2) c4] e
    by (simp add: write_run_buffer_on_disk_def)
  moreover have "takes (view ?u x) []" using st(4) reset_page_takes[OF cb] by simp
  ultimately show ?thesis using st(1,3) o ys(2) by blast
qed

section \<open>Collecting the rows of the child\<close>

text \<open>The child does not use the pool of the sort.\<close>

definition beside :: "('v, 'a) get_next \<Rightarrow> (bpm \<times> 'v, 'a) get_next" where
  "beside nxt w a = rbind (nxt (snd w) a) (\<lambda>(x, a, v). Inr (x, a, fst w, v))"

lemma collect_run:
  assumes ch: "executer nxt left same" and srt: "sorter srt" and xX: "x \<in> X"
    and stay: "\<And>v a r b w. R v a \<Longrightarrow> nxt v a = Inr (r, b, w) \<Longrightarrow> same v w \<Longrightarrow> R w b" and "loose s n X" "cached s x f" "takes (view s x) (run_buffer e)" "tmp_page_id e = int x"
    and "run_queue e = map run_head rs" "\<forall>r \<in> set rs. good_run ty m c s n X r" "\<forall>t \<in> set (run_buffer e) \<union> set xs. sort_row ty c t"
    and "left v a xs" "length xs < k" "n + length xs < 60000" "R v a"
  shows "\<exists>e' b s' w rs' n'. collect_runs k srt m c (beside nxt) f e a s v = Inr (e', b, s', w) \<and> n \<le> n' \<and> n' \<le> n + length xs \<and>
    loose s' n' X \<and> tmp_page_id e' = int x \<and> run_queue e' = map run_head rs' \<and> (\<forall>r \<in> set rs'. good_run ty m c s' n' X r) \<and>
    (\<forall>t \<in> set (run_buffer e'). sort_row ty c t) \<and> load (run_buffer e') \<le> PAGE_SIZE \<and>
    mset (all_rows rs') + mset (run_buffer e') = mset (all_rows rs) + mset (run_buffer e) + mset xs \<and>
    length rs' + length (run_buffer e') \<le> length rs + length (run_buffer e) + length xs \<and> (xs = [] \<longrightarrow> e' = e \<and> rs' = rs) \<and> (xs \<noteq> [] \<longrightarrow> run_buffer e' \<noteq> []) \<and>
    same v w \<and> others_same n X s s' \<and> R w b"
  using assms(5-)
proof (induction xs arbitrary: k s n f e rs v a)
  case Nil
  obtain k' where k: "k = Suc k'" using Nil.prems(9) by (cases k) auto
  obtain b w where w: "nxt v a = Inr (None, b, w)" "same v w" using executer.at_end[OF ch Nil.prems(8)] by blast
  have R: "R w b" using stay[OF Nil.prems(11) w] .
  have "collect_runs k srt m c (beside nxt) f e a s v = Inr (e, b, s, w)" using w(1) k by (simp add: beside_def)
  then show ?case using R Nil.prems w(2) takes_load[OF Nil.prems(3)]
    by (intro exI[of _ e] exI[of _ b] exI[of _ s] exI[of _ w] exI[of _ rs] exI[of _ n]) simp
next
  case (Cons t ts)
  note P = Cons.prems
  obtain k' where k: "k = Suc k'" using P(9) by (cases k) auto
  obtain b w where w: "nxt v a = Inr (Some t, b, w)" "same v w" "left w b ts" using executer.at_row[OF ch P(8)] by blast
  have R: "R w b" using stay[OF P(11) w(1,2)] .
  have t: "sort_row ty c t" "row_fit t" using P(7) by (auto simp: sort_row_def)
  note fr = loose_frame(1)[OF P(1,2)]
  show ?case
  proof (cases "load (run_buffer e @ [t]) \<le> PAGE_SIZE")
    case True
    obtain b' where b': "Page_insertTuple (view s x) t = Inr (int (length (run_buffer e)), b')" "takes b' (run_buffer e @ [t])"
      using takes_insert[OF P(3) t(2)] True by auto
    let ?s = "store_frame s f b'" and ?e = "e\<lparr>run_buffer := run_buffer e @ [t]\<rparr>"
    have st: "loose ?s n X" "others_same n X s ?s" "cached ?s x f" "view ?s x = b'"
      using loose_store[OF P(1) xX P(2)] b'(2) by (auto simp: takes_def)
    have g: "\<forall>r \<in> set rs. good_run ty m c ?s n X r" using P(6) good_run_others[OF _ st(2)] by blast
    have pr: "takes (view ?s x) (run_buffer ?e)" "tmp_page_id ?e = int x" "run_queue ?e = map run_head rs"
      "\<forall>t \<in> set (run_buffer ?e) \<union> set ts. sort_row ty c t" "length ts < k'" "n + length ts < 60000"
      using b'(2) st(4) P(4,5,7,9,10) k by auto
    from Cons.IH[OF st(1,3) pr(1-3) g pr(4) w(3) pr(5,6) R] obtain e' bb s' ww rs' n' where IH: "collect_runs k' srt m c (beside nxt) f ?e b ?s w = Inr (e', bb, s', ww)" "n \<le> n'" "n' \<le> n + length ts"
      "loose s' n' X" "tmp_page_id e' = int x" "run_queue e' = map run_head rs'" "\<forall>r \<in> set rs'. good_run ty m c s' n' X r"
      "\<forall>t \<in> set (run_buffer e'). sort_row ty c t" "load (run_buffer e') \<le> PAGE_SIZE"
      "mset (all_rows rs') + mset (run_buffer e') = mset (all_rows rs) + mset (run_buffer ?e) + mset ts"
      "length rs' + length (run_buffer e') \<le> length rs + length (run_buffer ?e) + length ts" "ts = [] \<longrightarrow> e' = ?e \<and> rs' = rs" "ts \<noteq> [] \<longrightarrow> run_buffer e' \<noteq> []"
      "same w ww" "others_same n X ?s s'" "R ww bb"
      by blast
    have "collect_runs k srt m c (beside nxt) f e a s v = Inr (e', bb, s', ww)"
      using IH(1) w(1) k fr b'(1) by (simp add: beside_def Let_def)
    moreover have "same v ww" by (rule executer.same_trans[OF ch w(2) IH(14)])
    moreover have "others_same n X s s'" using others_same_trans[OF st(2) IH(15) order_refl] .
    moreover have "run_buffer e' \<noteq> []" using IH(12,13) by (cases "ts = []") auto
    ultimately show ?thesis using IH(2-11,16)
      by (intro exI[of _ e'] exI[of _ bb] exI[of _ s'] exI[of _ ww] exI[of _ rs'] exI[of _ n']) auto
  next
    case False
    then have ne: "run_buffer e \<noteq> []" using t(2) by (auto simp: row_fit_def load_def)
    have ins: "Page_insertTuple (view s x) t = Inr (- 1, view s x)" using takes_insert[OF P(3) t(2)] False by simp
    have sf: "store_frame s f (view s x) = s" using store_frame_id[OF fr] .
    have n: "n < 60000" using P(10) by simp
    obtain ys u g where u: "write_run_buffer_on_disk srt m c e s = Inr (e\<lparr>run_buffer := ys, run_queue := run_queue e @ [int (Suc n)]\<rparr>, u)"
      "loose u (Suc n) X" "cached u x g" "takes (view u x) []" "good_run ty m c u (Suc n) X ([Suc n], [ys])" "mset ys = mset (run_buffer e)" "others_same n X s u"
      using write_run[OF P(1) xX n P(4) srt _ ne takes_load[OF P(3)]] P(7) by blast
    have x: "1 \<le> x" "x \<le> Suc n" using u(2) xX by (auto simp: loose_def)
    obtain h u2 where u2: "fetch_frame u (int x) = Inr (h, view u x, u2)" "loose u2 (Suc n) X" "others_same (Suc n) X u u2" "cached u2 x h" "view u2 x = view u x"
      using loose_fetch[OF u(2) x] u(3) by (auto simp: cached_def)
    obtain b' where b': "Page_insertTuple (view u x) t = Inr (0, b')" "takes b' [t]" using takes_insert[OF u(4) t(2)] t(2) by (auto simp: row_fit_def load_def)
    have "canon b'" using b'(2) by (simp add: takes_def)
    from loose_mark[OF u2(2,4) this] obtain u3 where u3: "markAsDirty (store_frame u2 h b') (int x) = Inr u3" "loose u3 (Suc n) X" "view u3 x = b'"
      "\<forall>j. j \<noteq> x \<and> (j \<notin> X \<or> map_of (page_table u2) (int j) \<noteq> None) \<longrightarrow> view u3 j = view u2 j" "page_table u3 = page_table u2" by blast
    have o: "others_same (Suc n) X u u3" using u2(3) u3(4) xX by (auto simp: others_same_def)
    have os: "others_same n X s u3" by (rule others_same_trans[OF u(7) o]) simp
    let ?e = "e\<lparr>run_queue := run_queue e @ [int (Suc n)], run_buffer := [t]\<rparr>" and ?rs = "rs @ [([Suc n], [ys])]"
    have g: "\<forall>r \<in> set ?rs. good_run ty m c u3 (Suc n) X r"
      using P(6) good_run_others[OF _ os, of ty m c _ "Suc n"] good_run_others[OF u(5) o order_refl] by auto
    have c3: "cached u3 x h" using u2(4) u3(5) by (simp add: cached_def)
    have q: "run_queue ?e = map run_head ?rs" using P(5) by (simp add: run_head_def)
    have pr: "takes (view u3 x) (run_buffer ?e)" "tmp_page_id ?e = int x"
      "\<forall>t \<in> set (run_buffer ?e) \<union> set ts. sort_row ty c t" "length ts < k'" "Suc n + length ts < 60000"
      using b'(2) u3(3) P(4,7,9,10) k by auto
    from Cons.IH[OF u3(2) c3 pr(1,2) q g pr(3) w(3) pr(4,5) R] obtain e' bb s' ww rs' n' where IH: "collect_runs k' srt m c (beside nxt) h ?e b u3 w = Inr (e', bb, s', ww)" "Suc n \<le> n'" "n' \<le> Suc n + length ts"
      "loose s' n' X" "tmp_page_id e' = int x" "run_queue e' = map run_head rs'" "\<forall>r \<in> set rs'. good_run ty m c s' n' X r"
      "\<forall>t \<in> set (run_buffer e'). sort_row ty c t" "load (run_buffer e') \<le> PAGE_SIZE"
      "mset (all_rows rs') + mset (run_buffer e') = mset (all_rows ?rs) + mset (run_buffer ?e) + mset ts"
      "length rs' + length (run_buffer e') \<le> length ?rs + length (run_buffer ?e) + length ts" "ts = [] \<longrightarrow> e' = ?e \<and> rs' = ?rs" "ts \<noteq> [] \<longrightarrow> run_buffer e' \<noteq> []"
      "same w ww" "others_same (Suc n) X u3 s'" "R ww bb"
      by blast
    have "e\<lparr>run_buffer := ys, run_queue := run_queue e @ [int (Suc n)]\<rparr>\<lparr>run_buffer := [t]\<rparr> = ?e" by simp
    then have "collect_runs k srt m c (beside nxt) f e a s v = Inr (e', bb, s', ww)"
      using IH(1) w(1) k fr ins sf u(1) u2(1) b'(1) u3(1) P(4) by (simp add: beside_def Let_def)
    moreover have "same v ww" by (rule executer.same_trans[OF ch w(2) IH(14)])
    moreover have "others_same n X s s'" by (rule others_same_trans[OF os IH(15)]) simp
    moreover have "run_buffer e' \<noteq> []" using IH(12,13) by (cases "ts = []") auto
    moreover have "mset (all_rows rs') + mset (run_buffer e') = mset (all_rows rs) + mset (run_buffer e) + mset (t # ts)"
      using IH(10) u(6) by (simp add: all_rows_def run_rows_def)
    moreover have "length rs' + length (run_buffer e') \<le> length rs + length (run_buffer e) + length (t # ts)"
      using IH(11) ne by (cases "run_buffer e") auto
    ultimately show ?thesis using IH(2-9,16)
      by (intro exI[of _ e'] exI[of _ bb] exI[of _ s'] exI[of _ ww] exI[of _ rs'] exI[of _ n']) auto
  qed
qed

end
