(* ===== verification/Sort_Props.thy ===== *)
theory Sort_Props imports Sort_Open Joins
begin

text \<open>
  What a sort returns. Opening it sorts the rows of the child into one run; opening it again merges a second copy
  of the rows into that run, because the queue still holds it; without rows the queue is empty and reading its
  front is undefined.
\<close>

section \<open>Opening\<close>

definition open_beside :: "('v \<Rightarrow> 'a \<Rightarrow> ('a \<times> 'v) res) \<Rightarrow> bpm \<times> 'v \<Rightarrow> 'a \<Rightarrow> ('a \<times> bpm \<times> 'v) res" where
  "open_beside opn w a = rbind (opn (snd w) a) (\<lambda>(a, v). Inr (a, fst w, v))"

text \<open>The pages a sort may allocate: its own page, a page for each run, and a page per merge and copied row.\<close>

definition sort_pages :: "nat \<Rightarrow> nat \<Rightarrow> nat \<Rightarrow> nat" where
  "sort_pages runs old new = 2 + new + (runs + new - 1) * Suc (old + new)"

lemma sort_open_run:
  assumes ch: "reopenable nxt left same opn ready" and srt: "sorter srt" and s: "loose s n X"
    and e: "run_queue e = map run_head rs" "run_buffer e = []" "\<forall>r \<in> set rs. good_run ty m c s n X r"
    and a: "ready v a xs" and rows: "\<forall>t \<in> set xs. sort_row ty c t" and c: "c = int (getColIndex cs key)"
    and k: "length (all_rows rs) + length xs < k" and n: "n + sort_pages (length rs) (length (all_rows rs)) (length xs) \<le> 60000"
    and ne: "rs \<noteq> [] \<or> xs \<noteq> []"
  shows "\<exists>b e' s' w r n'. sort_open k srt m cs key (beside nxt) (open_beside opn) sch (s, v) (a, e) = Inr ((b, e'), s', w) \<and>
    loose s' n' (insert (Suc n) X) \<and> n' \<le> n + sort_pages (length rs) (length (all_rows rs)) (length xs) \<and>
    good_run ty m c s' n' (insert (Suc n) X) r \<and> run_queue e' = [run_head r] \<and> run_buffer e' = [] \<and> sort_rid e' = RID (run_head r) 0 \<and>
    mset (run_rows r) = mset (all_rows rs) + mset xs \<and> ready w b xs"
proof -
  have ex: "executer nxt left same" using ch by (simp add: reopenable_def)
  let ?q = "Suc n" and ?X = "insert (Suc n) X"
  obtain b1 v1 where o: "opn v a = Inr (b1, v1)" "same v v1" "left v1 b1 xs" "ready v1 b1 xs" using reopenable.open_left[OF ch a] by blast
  have n6: "n < 60000" "?q + length xs < 60000" using n by (simp_all add: sort_pages_def)
  obtain s1 where s1: "newPage s = Inr (int ?q, s1)" "loose s1 ?q X" "others_same n X s s1" "view s1 ?q = Page (int ?q)" using loose_new[OF s n6(1)] by blast
  have q: "1 \<le> ?q" "?q \<le> ?q" "?q \<notin> X" "?q \<in> ?X" using s by (auto simp: loose_def)
  obtain f s2 where s2: "fetch_frame s1 (int ?q) = Inr (f, view s1 ?q, s2)" "loose s2 ?q X" "others_same ?q X s1 s2" "cached s2 ?q f" "view s2 ?q = view s1 ?q"
    using loose_fetch[OF s1(2) q(1,2)] q(3) by blast
  have l2: "loose s2 ?q ?X" using loose_insert[OF s2(2) q(1,2)] .
  have o2: "others_same n ?X s s2" using s1(3) s2(3) by (simp add: others_same_def)
  have "run_ok s n ?X ps xss" if "run_ok s n X ps xss" for ps xss using that by (auto simp: run_ok_def)
  then have g2: "\<forall>r \<in> set rs. good_run ty m c s2 ?q ?X r" using e(3) good_run_others[OF _ o2, of ty m c _ ?q] by (auto simp: good_run_def)
  let ?e = "e\<lparr>sort_schema := sch b1, tmp_page_id := int ?q\<rparr>"
  have tk: "takes (view s2 ?q) (run_buffer ?e)"
    using has_rows_takes[OF Page_canon has_rows_Page, of "int ?q"] s2(5) s1(4) e(2) by simp
  have pr: "tmp_page_id ?e = int ?q" "run_queue ?e = map run_head rs" "\<forall>t \<in> set (run_buffer ?e) \<union> set xs. sort_row ty c t" "length xs < k"
    using e rows k by simp_all
  from collect_run[OF ex srt q(4) _ l2 s2(4) tk pr(1,2) g2 pr(3) o(3) pr(4) n6(2), where R = "\<lambda>v a. ready v a xs"] o(4)
  obtain e1 b s3 w rs1 n1 where C: "collect_runs k srt m c (beside nxt) f ?e b1 s2 v1 = Inr (e1, b, s3, w)" "?q \<le> n1" "n1 \<le> ?q + length xs"
    "loose s3 n1 ?X" "tmp_page_id e1 = int ?q" "run_queue e1 = map run_head rs1" "\<forall>r \<in> set rs1. good_run ty m c s3 n1 ?X r"
    "\<forall>t \<in> set (run_buffer e1). sort_row ty c t" "load (run_buffer e1) \<le> PAGE_SIZE"
    "mset (all_rows rs1) + mset (run_buffer e1) = mset (all_rows rs) + mset (run_buffer ?e) + mset xs"
    "length rs1 + length (run_buffer e1) \<le> length rs + length (run_buffer ?e) + length xs" "xs = [] \<longrightarrow> e1 = ?e \<and> rs1 = rs" "xs \<noteq> [] \<longrightarrow> run_buffer e1 \<noteq> []"
    "ready w b xs"
    using reopenable.ready_next[OF ch] by blast
  have "\<exists>e2 s4 rs2 n2. (if run_buffer e1 = [] then Inr (e1, s3) else rbind (write_run_buffer_on_disk srt m c e1 s3) (\<lambda>(e, s). Inr (e\<lparr>run_buffer := []\<rparr>, s))) = Inr (e2, s4) \<and>
    loose s4 n2 ?X \<and> run_queue e2 = map run_head rs2 \<and> run_buffer e2 = [] \<and> (\<forall>r \<in> set rs2. good_run ty m c s4 n2 ?X r) \<and>
    mset (all_rows rs2) = mset (all_rows rs) + mset xs \<and> length rs2 \<le> length rs + length xs \<and> n2 \<le> n + 2 + length xs \<and> rs2 \<noteq> []"
  proof (cases "run_buffer e1 = []")
    case True
    then have "xs = []" "rs1 = rs" using C(12,13) by auto
    then show ?thesis using True C ne by (intro exI[of _ e1] exI[of _ s3] exI[of _ rs1] exI[of _ n1]) simp
  next
    case False
    have n1: "n1 < 60000" using C(3) n6(2) by simp
    obtain ys u g where u: "write_run_buffer_on_disk srt m c e1 s3 = Inr (e1\<lparr>run_buffer := ys, run_queue := run_queue e1 @ [int (Suc n1)]\<rparr>, u)"
      "loose u (Suc n1) ?X" "good_run ty m c u (Suc n1) ?X ([Suc n1], [ys])" "mset ys = mset (run_buffer e1)" "others_same n1 ?X s3 u"
      using write_run[OF C(4) q(4) n1 C(5) srt C(8) False C(9)] by blast
    let ?rs = "rs1 @ [([Suc n1], [ys])]"
    have "\<forall>r \<in> set ?rs. good_run ty m c u (Suc n1) ?X r" using C(7) good_run_others[OF _ u(5), of ty m c _ "Suc n1"] u(3) by auto
    moreover have "mset (all_rows ?rs) = mset (all_rows rs) + mset xs" using C(10) u(4) e(2) by (simp add: all_rows_def run_rows_def)
    moreover have "length ?rs \<le> length rs + length xs" using C(11) e(2) False by (cases "run_buffer e1") auto
    ultimately show ?thesis using False u(1,2) C(3,6)
      by (intro exI[of _ "e1\<lparr>run_buffer := [], run_queue := run_queue e1 @ [int (Suc n1)]\<rparr>"] exI[of _ u] exI[of _ ?rs] exI[of _ "Suc n1"]) (simp add: run_head_def)
  qed
  then obtain e2 s4 rs2 n2 where W: "(if run_buffer e1 = [] then Inr (e1, s3) else rbind (write_run_buffer_on_disk srt m c e1 s3) (\<lambda>(e, s). Inr (e\<lparr>run_buffer := []\<rparr>, s))) = Inr (e2, s4)"
    "loose s4 n2 ?X" "run_queue e2 = map run_head rs2" "run_buffer e2 = []" "\<forall>r \<in> set rs2. good_run ty m c s4 n2 ?X r"
    "mset (all_rows rs2) = mset (all_rows rs) + mset xs" "length rs2 \<le> length rs + length xs" "n2 \<le> n + 2 + length xs" "rs2 \<noteq> []" by blast
  have T: "length (all_rows rs2) = length (all_rows rs) + length xs" using arg_cong[OF W(6), of size] by simp
  have "(length rs2 - 1) * Suc (length (all_rows rs2)) \<le> (length rs + length xs - 1) * Suc (length (all_rows rs) + length xs)"
    unfolding T using W(7) by (intro mult_le_mono) simp_all
  then have bd: "n2 + (length rs2 - 1) * Suc (length (all_rows rs2)) \<le> n + sort_pages (length rs) (length (all_rows rs)) (length xs)"
    using W(8) by (simp add: sort_pages_def)
  have kk: "length (all_rows rs2) < k" "n2 + (length rs2 - 1) * Suc (length (all_rows rs2)) \<le> 60000" using T k bd n by simp_all
  obtain r n' u where u: "merge_queue k m c (map run_head rs2) s4 = Inr ([run_head r], u)" "n2 \<le> n'" "n' \<le> n2 + (length rs2 - 1) * Suc (length (all_rows rs2))"
    "loose u n' ?X" "good_run ty m c u n' ?X r" "mset (run_rows r) = mset (all_rows rs2)"
    using merge_queue_run[OF W(2,9,5) kk] by blast
  have "length (run_rows r) < k" using arg_cong[OF u(6), of size] kk(1) by simp
  then have "length (fst r) < k" using good_run_pages(1)[OF u(5)] by simp
  then obtain x where x: "chain_pages k u (run_head r) = Inr (map int (fst r), x)" "loose x n' ?X" "others_same n' ?X u x"
    using chain_run[OF u(4), of "fst r" "snd r" k] u(5) by (auto simp: good_run_def run_head_def)
  have "good_run ty m c x n' ?X r" using good_run_others[OF u(5) x(3) order_refl] .
  moreover have "sort_open k srt m cs key (beside nxt) (open_beside opn) sch (s, v) (a, e)
      = Inr ((b, e2\<lparr>run_queue := [run_head r], sort_rid := RID (run_head r) 0\<rparr>), x, w)"
    using o(1) s1(1) s2(1) C(1) W(1,3) u(1) x(1) c by (cases "run_buffer e1 = []") (simp_all add: sort_open_def open_beside_def Let_def)
  moreover have "n' \<le> n + sort_pages (length rs) (length (all_rows rs)) (length xs)" using u(3) bd by simp
  ultimately show ?thesis using x(2) W(4,6) u(6) C(14)
    by (intro exI[of _ b] exI[of _ "e2\<lparr>run_queue := [run_head r], sort_rid := RID (run_head r) 0\<rparr>"] exI[of _ x] exI[of _ w] exI[of _ r] exI[of _ n']) simp
qed

section \<open>The rows of a run in order\<close>

definition sort_left :: "nat \<Rightarrow> nat set \<Rightarrow> nat list \<Rightarrow> tuple list list \<Rightarrow> bpm \<times> 'v \<Rightarrow> 'a \<times> ext_sort \<Rightarrow> tuple list \<Rightarrow> bool" where
  "sort_left n X ps xss w st xs \<longleftrightarrow> loose (fst w) n X \<and> run_ok (fst w) n X ps xss \<and> tidy xss \<and>
     (\<exists>a i. a < length ps \<and> sort_rid (snd st) = RID (int (ps ! a)) (int i) \<and> i \<le> length (xss ! a) \<and>
       xs = drop i (xss ! a) @ concat (drop (Suc a) xss))"

definition sort_same :: "nat \<Rightarrow> nat set \<Rightarrow> bpm \<times> 'v \<Rightarrow> bpm \<times> 'v \<Rightarrow> bool" where
  "sort_same n X w u \<longleftrightarrow> loose (fst u) n X \<and> others_same n X (fst w) (fst u)"

lemma fetch_page_of:
  assumes "loose s n X" "1 \<le> p" "p \<le> n" "p \<notin> X"
  obtains f u where "fetchPage s (int p) = Inr (Some f, u)" "frame_at u f = Inr (view s p)" "loose u n X" "others_same n X s u"
    "fetch_frame s (int p) = Inr (f, view s p, u)"
proof -
  obtain f u where u: "fetch_frame s (int p) = Inr (f, view s p, u)" "loose u n X" "others_same n X s u"
    using loose_fetch[OF assms(1-3)] assms(4) by blast
  moreover have "fetchPage s (int p) = Inr (Some f, u)" "frame_at u f = Inr (view s p)"
    using u(1) by (auto simp: fetch_frame_def rbind_eq_Inr get_or_ub_def split: option.splits)
  ultimately show ?thesis using that by blast
qed

lemma sort_getTuple_row:
  assumes "loose s n X" "1 \<le> p" "p \<le> n" "p \<notin> X" "has_rows (view s p) xs" "i < length xs"
  obtains u where "sort_getTuple (RID (int p) (int i)) s = Inr (xs ! i, u)" "loose u n X" "others_same n X s u"
proof -
  obtain f u where u: "fetch_frame s (int p) = Inr (f, view s p, u)" "loose u n X" "others_same n X s u"
    using fetch_page_of[OF assms(1-4)] by metis
  then show ?thesis using that has_rows_get[OF assms(5,6)] by (simp add: sort_getTuple_def RID_def)
qed

lemma RID_reads [simp]: "page_id (RID p i) = p" "slot_num (RID p i) = i"
  by (simp_all add: RID_def)

lemma sort_step:
  assumes l: "sort_left n X ps xss w st xs"
  shows "\<exists>r st' u. sort_getNext w st = Inr (r, st', u) \<and> sort_same n X w u \<and>
    (case xs of [] \<Rightarrow> r = None | x # rest \<Rightarrow> r = Some x \<and> sort_left n X ps xss u st' rest)"
proof -
  obtain s v where w: "w = (s, v)" by (cases w)
  obtain a i where P: "loose s n X" "run_ok s n X ps xss" "tidy xss" "a < length ps" "sort_rid (snd st) = RID (int (ps ! a)) (int i)"
    "i \<le> length (xss ! a)" "xs = drop i (xss ! a) @ concat (drop (Suc a) xss)" using l w by (auto simp: sort_left_def)
  note len = run_okD(3)[OF P(2)]
  note p = run_okD(4)[OF P(2) nth_mem[OF P(4)]]
  note h = run_okD(5)[OF P(2,4)]
  obtain f s1 where s1: "fetchPage s (int (ps ! a)) = Inr (Some f, s1)" "frame_at s1 f = Inr (view s (ps ! a))" "loose s1 n X" "others_same n X s s1"
    using fetch_page_of[OF P(1)] p by metis
  have run1: "run_ok s1 n X ps xss" by (rule run_ok_others[OF P(2) s1(4) order_refl])
  have cnt: "hdr_num_tuples (view s (ps ! a)) = length (xss ! a)" by (rule has_rows_count[OF h])
  show ?thesis
  proof (cases "i < length (xss ! a)")
    case True
    obtain s2 where s2: "sort_getTuple (RID (int (ps ! a)) (int i)) s1 = Inr (xss ! a ! i, s2)" "loose s2 n X" "others_same n X s1 s2"
      using sort_getTuple_row[OF s1(3) _ _ _ run_okD(5)[OF run1 P(4)] True] p by metis
    let ?st = "(fst st, (snd st)\<lparr>sort_rid := RID (int (ps ! a)) (int i + 1)\<rparr>)"
    have xs: "xs = xss ! a ! i # drop (Suc i) (xss ! a) @ concat (drop (Suc a) xss)" using P(7) True by (simp flip: Cons_nth_drop_Suc)
    have "sort_getNext w st = Inr (Some (xss ! a ! i), ?st, s2, v)"
      using s1(1,2) s2(1) cnt True P(5) w by (simp add: sort_getNext_def Let_def)
    moreover have "sort_left n X ps xss (s2, v) ?st (drop (Suc i) (xss ! a) @ concat (drop (Suc a) xss))"
      using s2(2) run_ok_others[OF run1 s2(3) order_refl] P(3,4) True
      unfolding sort_left_def by (intro conjI exI[of _ a] exI[of _ "Suc i"]) (simp_all add: add.commute)
    ultimately show ?thesis using w s2(2) others_same_trans[OF s1(4) s2(3) order_refl] xs by (auto simp: sort_same_def)
  next
    case False
    then have i: "i = length (xss ! a)" using P(6) by simp
    have nx: "hdr_next_page_id (view s (ps ! a)) = (if drop (Suc a) ps = [] then - 1 else int (hd (drop (Suc a) ps)))"
      using links_at[of "view s" "take a ps" "ps ! a" "drop (Suc a) ps"] run_okD(2)[OF P(2)] P(4) by (simp add: id_take_nth_drop[symmetric])
    show ?thesis
    proof (cases "Suc a < length ps")
      case False
      then have "sort_getNext w st = Inr (None, st, s1, v)" "xs = []"
        using s1(1,2) cnt i nx P(5,7) w len by (simp_all add: sort_getNext_def Let_def)
      then show ?thesis using w s1(3,4) by (simp add: sort_same_def)
    next
      case True
      have ne: "0 < length (xss ! Suc a)" using P(3) True len nth_mem[of "Suc a" xss] by (force simp: tidy_def)
      have q: "1 \<le> ps ! Suc a" "ps ! Suc a \<le> n" "ps ! Suc a \<notin> X" using run_okD(4)[OF P(2) nth_mem[OF True]] by simp_all
      obtain s2 where s2: "sort_getTuple (RID (int (ps ! Suc a)) (int 0)) s1 = Inr (xss ! Suc a ! 0, s2)" "loose s2 n X" "others_same n X s1 s2"
        using sort_getTuple_row[OF s1(3) q run_okD(5)[OF run1 True] ne] by metis
      let ?st = "(fst st, (snd st)\<lparr>sort_rid := RID (int (ps ! Suc a)) 1\<rparr>)"
      have "drop (Suc a) xss = xss ! Suc a # drop (Suc (Suc a)) xss" using True len by (simp add: Cons_nth_drop_Suc)
      moreover have "xss ! Suc a = xss ! Suc a ! 0 # drop 1 (xss ! Suc a)" using ne by (cases "xss ! Suc a") auto
      ultimately have xs: "xs = xss ! Suc a ! 0 # drop 1 (xss ! Suc a) @ concat (drop (Suc (Suc a)) xss)"
        using P(7) i by (metis append_Cons append_Nil concat.simps(2) drop_all order_refl)
      have "sort_getNext w st = Inr (Some (xss ! Suc a ! 0), ?st, s2, v)"
        using s1(1,2) s2(1) cnt i nx True P(5) w by (simp add: sort_getNext_def Let_def hd_drop_conv_nth)
      moreover have "sort_left n X ps xss (s2, v) ?st (drop 1 (xss ! Suc a) @ concat (drop (Suc (Suc a)) xss))"
        using s2(2) run_ok_others[OF run1 s2(3) order_refl] P(3) True ne
        unfolding sort_left_def by (intro conjI exI[of _ "Suc a"] exI[of _ 1]) (simp_all add: Suc_le_eq)
      ultimately show ?thesis using w s2(2) others_same_trans[OF s1(4) s2(3) order_refl] xs by (auto simp: sort_same_def)
    qed
  qed
qed

interpretation sorted_run: executer "sort_getNext :: (bpm \<times> 'v, 'a \<times> ext_sort) get_next" "sort_left n X ps xss" "sort_same n X" for n X ps xss
proof
  fix w u v :: "bpm \<times> 'v" and a :: "'a \<times> ext_sort" and x xs
  show "sort_left n X ps xss w a [] \<Longrightarrow> \<exists>b u. sort_getNext w a = Inr (None, b, u) \<and> sort_same n X w u"
    using sort_step by fastforce
  show "sort_left n X ps xss w a (x # xs) \<Longrightarrow> \<exists>b u. sort_getNext w a = Inr (Some x, b, u) \<and> sort_same n X w u \<and> sort_left n X ps xss u b xs"
    using sort_step by fastforce
  show "sort_left n X ps xss w a xs \<Longrightarrow> sort_same n X w u \<Longrightarrow> sort_left n X ps xss u a xs"
    using run_ok_others unfolding sort_left_def sort_same_def by blast
  show "sort_left n X ps xss w a xs \<Longrightarrow> sort_same n X w w" by (simp add: sort_left_def sort_same_def)
  show "sort_same n X w u \<Longrightarrow> sort_same n X u v \<Longrightarrow> sort_same n X w v"
    unfolding sort_same_def using others_same_trans by blast
qed

lemma opened_run:
  assumes "loose s n X" "good_run ty m c s n X r" "sort_rid (snd st) = RID (run_head r) 0"
  shows "sort_left n X (fst r) (snd r) (s, v) st (run_rows r)"
proof -
  have r: "run_ok s n X (fst r) (snd r)" "tidy (snd r)" using assms(2) by (simp_all add: good_run_def)
  have ne: "fst r \<noteq> []" by (rule run_okD(1)[OF r(1)])
  moreover have "snd r = snd r ! 0 # drop 1 (snd r)" using ne run_okD(3)[OF r(1)] by (cases "snd r") auto
  then have "run_rows r = drop 0 (snd r ! 0) @ concat (drop (Suc 0) (snd r))" unfolding run_rows_def by (metis One_nat_def concat.simps(2) drop0)
  ultimately show ?thesis using assms(1,3) r unfolding sort_left_def
    by (intro conjI exI[of _ 0] exI[of _ 0]) (simp_all add: run_head_def hd_conv_nth)
qed

section \<open>Properties\<close>

lemma opened_drains:
  assumes "loose s n X" "good_run ty m c s n X r" "sort_rid e = RID (run_head r) 0" "length (run_rows r) < j"
  shows "\<exists>st' w. drain j sort_getNext (s, v) (a, e) = Inr (run_rows r, st', w)"
  using sorted_run.drain_left[OF opened_run[OF assms(1,2), of "(a, e)" v] assms(4)] assms(3) by auto

text \<open>
  C24. External merge sort sorts. A child that has the rows \<open>xs\<close>, at least one, is opened and read to its end; the sort then
  returns a permutation of these rows in which no row has a key that belongs before the key of an earlier one, ascending
  or descending as asked. This holds for a pool in order, rows that fit a page, without nulls and with comparable keys, a
  \<^verbatim>\<open>std::sort\<close> that keeps its contract, and a file with room for the pages of all merges; the temporary page is written
  without being marked as dirty, which does no harm.
\<close>

theorem sort_returns_rows_in_order:
  assumes "reopenable nxt left same opn ready" "sorter srt" "pool_ok s n" "ready v a xs" "xs \<noteq> []"
    and "\<forall>t \<in> set xs. sort_row ty (int (getColIndex cs key)) t" "length xs < k" "n + sort_pages 0 0 (length xs) \<le> 60000"
  shows "\<exists>st w ys st' w'. sort_open k srt m cs key (beside nxt) (open_beside opn) sch (s, v) (a, new_ext_sort) = Inr (st, w) \<and>
    drain (Suc (length xs)) sort_getNext w st = Inr (ys, st', w') \<and> mset ys = mset xs \<and> in_order m (int (getColIndex cs key)) ys"
proof -
  obtain b e' s' w r n' where o: "sort_open k srt m cs key (beside nxt) (open_beside opn) sch (s, v) (a, new_ext_sort) = Inr ((b, e'), s', w)"
    "loose s' n' {Suc n}" "good_run ty m (int (getColIndex cs key)) s' n' {Suc n} r" "sort_rid e' = RID (run_head r) 0" "mset (run_rows r) = mset xs"
    using sort_open_run[OF assms(1,2) loose_pool[OF assms(3)] _ _ _ assms(4,6) refl, where rs = "[]" and e = new_ext_sort and m = m and k = k and sch = sch] assms(5,7,8)
    by (auto simp: new_ext_sort_def all_rows_def)
  have "length (run_rows r) < Suc (length xs)" using arg_cong[OF o(5), of size] by simp
  from opened_drains[OF o(2-4) this, where v = w and a = b] obtain st' w' where "drain (Suc (length xs)) sort_getNext (s', w) (b, e') = Inr (run_rows r, st', w')" by blast
  then show ?thesis using o(1,3,5) by (intro exI[of _ "(b, e')"] exI[of _ "(s', w)"] exI[of _ "run_rows r"] exI[of _ st'] exI[of _ w'])
      (simp add: good_run_def run_rows_def del: drain.simps)
qed

text \<open>A child that returns the rows of a list, and can be opened again.\<close>

definition list_next :: "(unit, tuple list \<times> tuple list) get_next" where
  "list_next v a = (case fst a of [] \<Rightarrow> Inr (None, a, v) | t # ts \<Rightarrow> Inr (Some t, (ts, snd a), v))"

definition list_open :: "unit \<Rightarrow> tuple list \<times> tuple list \<Rightarrow> ((tuple list \<times> tuple list) \<times> unit) res" where
  "list_open v a = Inr ((snd a, snd a), v)"

lemma list_reopenable: "reopenable list_next (\<lambda>v a xs. fst a = xs) (\<lambda>_ _. True) list_open (\<lambda>v a xs. snd a = xs)"
  by unfold_locales (auto simp: list_next_def list_open_def split: list.splits)

definition num_row :: "int \<Rightarrow> tuple" where
  "num_row i = Tuple [Field_int TYPE_INT i]"

lemma num_row_sort: "in_i32 i \<Longrightarrow> sort_row TYPE_INT 0 (num_row i)"
  by (simp add: sort_row_def row_fit_def num_row_def tuple_fits_def tuple_ok_def Tuple_def field_ok_def Field_int_def load_def PAGE_SIZE_def
      getSerializedSize_def tuple_enc_def tuple_over_def seq_over_def field_enc_def field_header_def comparable_def no_nan_def row_key_def
      field_payload_def field_over_def pad8_def)

lemma num_row_less: "row_less ASC 0 (num_row i) (num_row j) \<longleftrightarrow> i < j"
  by (simp add: row_less_def key_less_def row_key_def num_row_def Tuple_def Field_int_def fless_def)

lemma demo_open_pool: "\<exists>d. DiskManager None = Inr d \<and> pool_ok (BufferPoolManager d) 0"
proof -
  obtain d where "DiskManager None = Inr d" "dm_inv d 0" "dm_capacity d = 100" using new_disk by blast
  then show ?thesis using BufferPoolManager_inv(1)[of d 0] by (auto simp: pool_ok_def BufferPoolManager_def)
qed

lemma sort_returns_rows_in_order_witness:
  "\<exists>d st w st' w'. DiskManager None = Inr d \<and>
    sort_open 5 insertion_sort ASC [Column TYPE_INT ''id'' 4] ''id'' (beside list_next) (open_beside list_open) (\<lambda>_. []) (BufferPoolManager d, ())
      (([], [num_row 7, num_row 3]), new_ext_sort) = Inr (st, w) \<and>
    drain 3 sort_getNext w st = Inr ([num_row 3, num_row 7], st', w')"
proof -
  obtain d where d: "DiskManager None = Inr d" "pool_ok (BufferPoolManager d) 0" using demo_open_pool by blast
  have c: "int (getColIndex [Column TYPE_INT ''id'' 4] ''id'') = 0" by (simp add: Column_def)
  have r: "\<forall>t \<in> set [num_row 7, num_row 3]. sort_row TYPE_INT (int (getColIndex [Column TYPE_INT ''id'' 4] ''id'')) t"
    unfolding c using num_row_sort by (simp add: in_i32_def)
  obtain st w ys st' w' where o: "sort_open 5 insertion_sort ASC [Column TYPE_INT ''id'' 4] ''id'' (beside list_next) (open_beside list_open) (\<lambda>_. [])
      (BufferPoolManager d, ()) (([], [num_row 7, num_row 3]), new_ext_sort) = Inr (st, w)"
    "drain (Suc (length [num_row 7, num_row 3])) sort_getNext w st = Inr (ys, st', w')" "mset ys = mset [num_row 7, num_row 3]" "in_order ASC 0 ys"
    using sort_returns_rows_in_order[OF list_reopenable insertion.sorter_axioms d(2) _ _ r, where v = "()" and a = "([], [num_row 7, num_row 3])" and k = 5 and m = ASC and sch = "\<lambda>_. []"]
    unfolding c by (auto simp: sort_pages_def)
  have len: "length ys = 2" using arg_cong[OF o(3), of size] by simp
  then obtain y z where ys: "ys = [y, z]" by (metis One_nat_def Suc_1 length_0_conv length_Suc_conv)
  have "ys = [num_row 3, num_row 7]"
    using o(3,4) num_row_less unfolding ys by (auto simp: in_order_def add_eq_conv_ex)
  then show ?thesis using d(1) o(1,2) by (intro exI[of _ d] exI[of _ st] exI[of _ w] exI[of _ st'] exI[of _ w']) (simp add: numeral_eq_Suc)
qed

text \<open>
  C25. The queue of runs survives the sort, so a sort that is opened again returns every row twice. The constructor opens
  the sort, and the operators above it (\<^verbatim>\<open>Projection::open\<close> for every \<^verbatim>\<open>SELECT\<close> with \<^verbatim>\<open>ORDER BY\<close>, the aggregation and the merge join)
  open it once more: the rows of the child come out in order, but each twice.
\<close>

theorem sort_opened_twice_doubles:
  assumes "reopenable nxt left same opn ready" "sorter srt" "pool_ok s n" "ready v a xs" "xs \<noteq> []"
    and "\<forall>t \<in> set xs. sort_row ty (int (getColIndex cs key)) t" "2 * length xs < k"
    and "n + sort_pages 0 0 (length xs) + sort_pages 1 (length xs) (length xs) \<le> 60000"
  shows "\<exists>st w st2 w2 ys st3 w3. sort_open k srt m cs key (beside nxt) (open_beside opn) sch (s, v) (a, new_ext_sort) = Inr (st, w) \<and>
    sort_open k srt m cs key (beside nxt) (open_beside opn) sch w st = Inr (st2, w2) \<and>
    drain (Suc (2 * length xs)) sort_getNext w2 st2 = Inr (ys, st3, w3) \<and> mset ys = mset xs + mset xs \<and> in_order m (int (getColIndex cs key)) ys"
proof -
  let ?c = "int (getColIndex cs key)"
  obtain b e' s' w r n' where o: "sort_open k srt m cs key (beside nxt) (open_beside opn) sch (s, v) (a, new_ext_sort) = Inr ((b, e'), s', w)"
    "loose s' n' {Suc n}" "n' \<le> n + sort_pages 0 0 (length xs)" "good_run ty m ?c s' n' {Suc n} r" "run_queue e' = [run_head r]" "run_buffer e' = []"
    "mset (run_rows r) = mset xs" "ready w b xs"
    using sort_open_run[OF assms(1,2) loose_pool[OF assms(3)] _ _ _ assms(4,6) refl, where rs = "[]" and e = new_ext_sort and m = m and k = k and sch = sch] assms(5,7,8)
    by (auto simp: new_ext_sort_def all_rows_def)
  have T: "length (all_rows [r]) = length xs" using arg_cong[OF o(7), of size] by (simp add: all_rows_def)
  obtain b2 e2 s2 w2 r2 n2 where p: "sort_open k srt m cs key (beside nxt) (open_beside opn) sch (s', w) (b, e') = Inr ((b2, e2), s2, w2)"
    "loose s2 n2 (insert (Suc n') {Suc n})" "good_run ty m ?c s2 n2 (insert (Suc n') {Suc n}) r2" "sort_rid e2 = RID (run_head r2) 0"
    "mset (run_rows r2) = mset (all_rows [r]) + mset xs"
    using sort_open_run[OF assms(1,2) o(2) _ o(6) _ o(8) assms(6) refl, where rs = "[r]" and m = m and k = k and sch = sch] o(3,4,5) assms(7,8) T by auto
  have ms: "mset (run_rows r2) = mset xs + mset xs" using p(5) o(7) by (simp add: all_rows_def)
  have "length (run_rows r2) < Suc (2 * length xs)" using arg_cong[OF ms, of size] by simp
  from opened_drains[OF p(2-4) this, where v = w2 and a = b2] obtain st3 w3 where "drain (Suc (2 * length xs)) sort_getNext (s2, w2) (b2, e2) = Inr (run_rows r2, st3, w3)" by blast
  then show ?thesis using o(1) p(1,3) ms
    by (intro exI[of _ "(b, e')"] exI[of _ "(s', w)"] exI[of _ "(b2, e2)"] exI[of _ "(s2, w2)"] exI[of _ "run_rows r2"] exI[of _ st3] exI[of _ w3])
      (simp add: good_run_def run_rows_def del: drain.simps)
qed

lemma sort_opened_twice_doubles_witness:
  "\<exists>d st w st2 w2 ys st3 w3. DiskManager None = Inr d \<and>
    sort_open 5 insertion_sort ASC [Column TYPE_INT ''id'' 4] ''id'' (beside list_next) (open_beside list_open) (\<lambda>_. []) (BufferPoolManager d, ())
      (([], [num_row 7, num_row 3]), new_ext_sort) = Inr (st, w) \<and>
    sort_open 5 insertion_sort ASC [Column TYPE_INT ''id'' 4] ''id'' (beside list_next) (open_beside list_open) (\<lambda>_. []) w st = Inr (st2, w2) \<and>
    drain 5 sort_getNext w2 st2 = Inr (ys, st3, w3) \<and> mset ys = {#num_row 3, num_row 3, num_row 7, num_row 7#}"
proof -
  obtain d where d: "DiskManager None = Inr d" "pool_ok (BufferPoolManager d) 0" using demo_open_pool by blast
  have c: "int (getColIndex [Column TYPE_INT ''id'' 4] ''id'') = 0" by (simp add: Column_def)
  have r: "\<forall>t \<in> set [num_row 7, num_row 3]. sort_row TYPE_INT (int (getColIndex [Column TYPE_INT ''id'' 4] ''id'')) t"
    unfolding c using num_row_sort by (simp add: in_i32_def)
  have "2 * length [num_row 7, num_row 3] < 5" "0 + sort_pages 0 0 (length [num_row 7, num_row 3]) + sort_pages 1 (length [num_row 7, num_row 3]) (length [num_row 7, num_row 3]) \<le> 60000"
    by (simp_all add: sort_pages_def)
  from sort_opened_twice_doubles[OF list_reopenable insertion.sorter_axioms d(2) _ _ r this, where v = "()" and a = "([], [num_row 7, num_row 3])" and m = ASC and sch = "\<lambda>_. []"]
  obtain st w st2 w2 ys st3 w3 where "sort_open 5 insertion_sort ASC [Column TYPE_INT ''id'' 4] ''id'' (beside list_next) (open_beside list_open) (\<lambda>_. [])
      (BufferPoolManager d, ()) (([], [num_row 7, num_row 3]), new_ext_sort) = Inr (st, w)"
    "sort_open 5 insertion_sort ASC [Column TYPE_INT ''id'' 4] ''id'' (beside list_next) (open_beside list_open) (\<lambda>_. []) w st = Inr (st2, w2)"
    "drain (Suc (2 * length [num_row 7, num_row 3])) sort_getNext w2 st2 = Inr (ys, st3, w3)" "mset ys = mset [num_row 7, num_row 3] + mset [num_row 7, num_row 3]" by auto
  moreover have "Suc (2 * length [num_row 7, num_row 3]) = 5" by simp
  ultimately show ?thesis using d(1)
    by (intro exI[of _ d] exI[of _ st] exI[of _ w] exI[of _ st2] exI[of _ w2] exI[of _ ys] exI[of _ st3] exI[of _ w3]) (simp add: add_mset_commute)
qed

text \<open>
  C26. A sort whose child has no rows reads the front of an empty queue: the statement is undefined instead of empty.
\<close>

theorem sort_of_no_rows_undefined:
  assumes "reopenable nxt left same opn ready" "pool_ok s n" "ready v a []" "n < 59999" "0 < k"
  shows "sort_open k srt m cs key (beside nxt) (open_beside opn) sch (s, v) (a, new_ext_sort) = Inl Undefined"
proof -
  have ex: "executer nxt left same" using assms(1) by (simp add: reopenable_def)
  obtain j where k: "k = Suc j" using assms(5) by (cases k) auto
  obtain b v1 where o: "opn v a = Inr (b, v1)" "left v1 b []" using reopenable.open_left[OF assms(1,3)] by blast
  obtain t where t: "newPage s = Inr (int (Suc n), t)" "pool_ok t (Suc n)" using pool_new[OF assms(2)] assms(4) by auto
  have "bpm_inv t (Suc n) {}" using t(2) by (simp add: pool_ok_def)
  then obtain f x u where f: "fetch_frame t (int (Suc n)) = Inr (f, x, u)" using fetch_frame_inv[of t "Suc n" "Suc n"] by auto
  obtain b2 w where n: "nxt v1 b = Inr (None, b2, w)" using executer.at_end[OF ex o(2)] by blast
  show ?thesis using o(1) t(1) f n k by (simp add: sort_open_def open_beside_def beside_def new_ext_sort_def Let_def vec_at_def)
qed

lemma sort_of_no_rows_undefined_witness:
  "\<exists>d. DiskManager None = Inr d \<and> sort_open 5 insertion_sort ASC [Column TYPE_INT ''id'' 4] ''id'' (beside list_next) (open_beside list_open) (\<lambda>_. [])
     (BufferPoolManager d, ()) (([], []), new_ext_sort) = Inl Undefined"
proof -
  obtain d where d: "DiskManager None = Inr d" "pool_ok (BufferPoolManager d) 0" using demo_open_pool by blast
  then show ?thesis using sort_of_no_rows_undefined[OF list_reopenable d(2), where v = "()" and a = "([], [])" and k = 5] by auto
qed

end
