(* ===== verification/Index_Join.thy ===== *)
theory Index_Join imports Join_Props Table_Index
begin

text \<open>
  \<^verbatim>\<open>IndexedNestedLoopJoin\<close> (src/Q_Execution/IndexedNested_loop_join.c++): for each row of the outer table the
  index of the inner table is searched, and the matches are fetched one by one, the last address first. The
  join relies on two interfaces: the outer child (locale \<open>executer\<close>) and the search of an index with
  the rows behind its addresses (locale \<open>searchable\<close>), which is interpreted on a hash index loaded from a table.
\<close>

section \<open>The operator\<close>

record index_join =
  inner_index :: index
  ij_col_index :: int
  ij_output_schema :: "column list"
  inner_matches :: "rid list"
  ij_outer_tuple :: tuple

fun get_index_col_name :: "index \<Rightarrow> string" where
  "get_index_col_name (I_Hash w) = hw_col_name w"
| "get_index_col_name (I_Bplus w) = bw_col_name w"

text \<open>\<open>cs\<close> are the columns of the outer table. The column of the join is the one with the name of the indexed column.\<close>

definition IndexedNestedLoopJoin :: "column list \<Rightarrow> index \<Rightarrow> index_join" where
  "IndexedNestedLoopJoin cs ix = \<lparr>inner_index = ix, ij_col_index = int (getColIndex cs (get_index_col_name ix)),
     ij_output_schema = [], inner_matches = [], ij_outer_tuple = Tuple []\<rparr>"

text \<open>\<^verbatim>\<open>open\<close>, after the outer child was opened: its schema and the columns of the inner table.\<close>

definition ij_set_output_schema :: "column list \<Rightarrow> column list \<Rightarrow> index_join \<Rightarrow> index_join" where
  "ij_set_output_schema outer_schema inner_schema j = j\<lparr>ij_output_schema := outer_schema @ inner_schema\<rparr>"

definition ij_open :: "('w \<Rightarrow> 'a \<Rightarrow> ('a \<times> 'w) res) \<Rightarrow> ('a \<Rightarrow> column list) \<Rightarrow> table_heap \<Rightarrow> 'w \<Rightarrow> 'a \<times> index_join \<Rightarrow>
    (('a \<times> index_join) \<times> 'w) res" where
  "ij_open oopen osch inner s st =
     rbind (oopen s (fst st)) (\<lambda>(a, s). Inr ((a, ij_set_output_schema (osch a) (cols inner) (snd st)), s))"

text \<open>Whether the page has the row is not tested: of a deleted row the old fields are returned.\<close>

definition ij_getTuple :: "bpm \<Rightarrow> rid \<Rightarrow> tuple \<Rightarrow> (tuple \<times> bpm) res" where
  "ij_getTuple s r tup =
     rbind (fetch_frame s (page_id r)) (\<lambda>(f, b, s).
     rbind (Page_getTuple b (slot_num r) tup) (\<lambda>(_, tup). Inr (tup, s)))"

text \<open>Each turn of the loop fetches an outer row or returns.\<close>

fun IndexedNestedLoopJoin_getNext :: "nat \<Rightarrow> (string \<Rightarrow> nat) \<Rightarrow> nat \<Rightarrow> (bpm, 'a) get_next \<Rightarrow> (bpm, 'a \<times> index_join) get_next" where
  "IndexedNestedLoopJoin_getNext 0 hs kb onxt s st = Inl Diverges"
| "IndexedNestedLoopJoin_getNext (Suc k) hs kb onxt s (a, j) =
     (if inner_matches j = [] then
        rbind (onxt s a) (\<lambda>(x, a, s).
        case x of None \<Rightarrow> Inr (None, (a, j), s)
        | Some tup \<Rightarrow>
            rbind (vec_at_int (tfields tup) (ij_col_index j)) (\<lambda>search_field.
            rbind (Index_Search hs kb (inner_index j) search_field s) (\<lambda>(rs, ix, s).
            IndexedNestedLoopJoin_getNext k hs kb onxt s (a, j\<lparr>ij_outer_tuple := tup, inner_index := ix, inner_matches := rs\<rparr>))))
      else
        rbind (ij_getTuple s (last (inner_matches j)) (Tuple [])) (\<lambda>(inner_tuple, s).
        Inr (Some (Tuple (tfields (ij_outer_tuple j) @ tfields inner_tuple)),
          (a, j\<lparr>inner_matches := butlast (inner_matches j)\<rparr>), s)))"

section \<open>The rows of the join\<close>

text \<open>
  The interface of an index: in a world \<open>ready\<close> for it, a search for a key returns the addresses \<open>look\<close>, and
  \<open>row\<close> is what is read there; neither changes the index or makes the world less ready.
\<close>

locale searchable =
  fixes hs :: "string \<Rightarrow> nat" and kb :: nat and ix :: index and key :: "field \<Rightarrow> bool" and look :: "field \<Rightarrow> rid list"
    and row :: "rid \<Rightarrow> tuple" and ready :: "bpm \<Rightarrow> bool" and same :: "bpm \<Rightarrow> bpm \<Rightarrow> bool"
  assumes search: "ready s \<Longrightarrow> key f \<Longrightarrow> \<exists>u. Index_Search hs kb ix f s = Inr (look f, ix, u) \<and> same s u"
    and read: "ready s \<Longrightarrow> key f \<Longrightarrow> r \<in> set (look f) \<Longrightarrow> \<exists>u. ij_getTuple s r (Tuple []) = Inr (row r, u) \<and> same s u"
    and ready_same: "ready s \<Longrightarrow> same s u \<Longrightarrow> ready u"

locale index_joined = outer: executer onxt oleft same + inner: searchable hs kb ix key look row ready same
  for onxt :: "(bpm, 'a) get_next" and oleft and hs kb ix key look row ready and same :: "bpm \<Rightarrow> bpm \<Rightarrow> bool" +
  fixes oi :: nat and K :: nat
begin

definition joined :: "tuple \<Rightarrow> rid list \<Rightarrow> tuple list" where
  "joined x rs = map (\<lambda>r. Tuple (tfields x @ tfields (row r))) (rev rs)"

definition index_left :: "bpm \<Rightarrow> 'a \<times> index_join \<Rightarrow> tuple list \<Rightarrow> bool" where
  "index_left s st zs \<longleftrightarrow> (case st of (a, j) \<Rightarrow> \<exists>xs. oleft s a xs \<and> ready s \<and> length xs < K \<and> inner_index j = ix \<and>
     ij_col_index j = int oi \<and> (\<forall>x \<in> set xs. oi < length (tfields x) \<and> key (tfields x ! oi)) \<and>
     (\<exists>f. key f \<and> set (inner_matches j) \<subseteq> set (look f) \<or> inner_matches j = []) \<and>
     zs = joined (ij_outer_tuple j) (inner_matches j) @ concat (map (\<lambda>x. joined x (look (tfields x ! oi))) xs))"

lemma joined_Nil [simp]: "joined x [] = []"
  by (simp add: joined_def)

lemma joined_last: "rs \<noteq> [] \<Longrightarrow> joined x rs = Tuple (tfields x @ tfields (row (last rs))) # joined x (butlast rs)"
  by (cases rs rule: rev_cases) (simp_all add: joined_def)

lemma next_match:
  assumes "oleft s a xs" "ready s" "length xs < K" "inner_index j = ix" "ij_col_index j = int oi"
    "\<forall>x \<in> set xs. oi < length (tfields x) \<and> key (tfields x ! oi)" "key f" "set (inner_matches j) \<subseteq> set (look f)"
    "inner_matches j \<noteq> []"
  shows "\<exists>st u. IndexedNestedLoopJoin_getNext (Suc k) hs kb onxt s (a, j) =
      Inr (Some (Tuple (tfields (ij_outer_tuple j) @ tfields (row (last (inner_matches j))))), st, u) \<and> same s u \<and>
      index_left u st (joined (ij_outer_tuple j) (butlast (inner_matches j)) @ concat (map (\<lambda>x. joined x (look (tfields x ! oi))) xs))"
proof -
  have "last (inner_matches j) \<in> set (look f)" using assms(8,9) last_in_set by blast
  then obtain u where u: "ij_getTuple s (last (inner_matches j)) (Tuple []) = Inr (row (last (inner_matches j)), u)" "same s u"
    using inner.read[OF assms(2,7)] by blast
  have "set (butlast (inner_matches j)) \<subseteq> set (look f)" using assms(8) in_set_butlastD by fastforce
  then have "index_left u (a, j\<lparr>inner_matches := butlast (inner_matches j)\<rparr>)
      (joined (ij_outer_tuple j) (butlast (inner_matches j)) @ concat (map (\<lambda>x. joined x (look (tfields x ! oi))) xs))"
    unfolding index_left_def
    using outer.undisturbed[OF assms(1) u(2)] inner.ready_same[OF assms(2) u(2)] assms(3-7) by auto
  then show ?thesis using u assms(9) by simp
qed

lemma next_row:
  assumes "oleft s a xs" "ready s" "length xs < K" "length xs < k" "inner_index j = ix" "ij_col_index j = int oi"
    "\<forall>x \<in> set xs. oi < length (tfields x) \<and> key (tfields x ! oi)" "inner_matches j = []"
  shows "\<exists>r st u. IndexedNestedLoopJoin_getNext (Suc k) hs kb onxt s (a, j) = Inr (r, st, u) \<and> same s u \<and>
      (case concat (map (\<lambda>x. joined x (look (tfields x ! oi))) xs) of [] \<Rightarrow> r = None
       | z # zs \<Rightarrow> r = Some z \<and> index_left u st zs)"
  using assms
proof (induction xs arbitrary: s a j k)
  case Nil
  obtain b u where "onxt s a = Inr (None, b, u)" "same s u" using outer.at_end[OF Nil.prems(1)] by blast
  then show ?case using Nil.prems(8) by simp
next
  case (Cons x xs)
  obtain b u where u: "onxt s a = Inr (Some x, b, u)" "same s u" "oleft u b xs" using outer.at_row[OF Cons.prems(1)] by blast
  let ?f = "tfields x ! oi"
  have f: "key ?f" "vec_at_int (tfields x) (int oi) = Inr ?f" using Cons.prems(7) by (simp_all add: vec_at_int_def)
  obtain v where v: "Index_Search hs kb ix ?f u = Inr (look ?f, ix, v)" "same u v"
    using inner.search[OF inner.ready_same[OF Cons.prems(2) u(2)] f(1)] by blast
  have sv: "same s v" by (rule outer.same_trans[OF u(2) v(2)])
  let ?j = "j\<lparr>ij_outer_tuple := x, inner_index := ix, inner_matches := look ?f\<rparr>"
  have st: "IndexedNestedLoopJoin_getNext (Suc k) hs kb onxt s (a, j) = IndexedNestedLoopJoin_getNext k hs kb onxt v (b, ?j)"
    using u(1) v(1) f(2) Cons.prems(5,6,8) by simp
  obtain k' where k': "k = Suc k'" using Cons.prems(4) by (cases k) auto
  have inv: "oleft v b xs" "ready v" "length xs < K" "length xs < k'" "inner_index ?j = ix" "ij_col_index ?j = int oi"
    "\<forall>x \<in> set xs. oi < length (tfields x) \<and> key (tfields x ! oi)"
    using outer.undisturbed[OF u(3) v(2)] inner.ready_same[OF Cons.prems(2) sv] Cons.prems(3,4,6,7) k' by auto
  show ?case
  proof (cases "look ?f = []")
    case True
    then have "inner_matches ?j = []" by simp
    from Cons.IH[OF inv this] obtain r st' w where w: "IndexedNestedLoopJoin_getNext k hs kb onxt v (b, ?j) = Inr (r, st', w)"
      "same v w" "case concat (map (\<lambda>x. joined x (look (tfields x ! oi))) xs) of [] \<Rightarrow> r = None
        | z # zs \<Rightarrow> r = Some z \<and> index_left w st' zs" unfolding k' by blast
    show ?thesis unfolding st using w True outer.same_trans[OF sv w(2)] by (simp del: IndexedNestedLoopJoin_getNext.simps)
  next
    case False
    then have ne: "inner_matches ?j \<noteq> []" by simp
    have sub: "set (inner_matches ?j) \<subseteq> set (look ?f)" by simp
    obtain st' w where w: "IndexedNestedLoopJoin_getNext (Suc k') hs kb onxt v (b, ?j) =
        Inr (Some (Tuple (tfields x @ tfields (row (last (look ?f))))), st', w)" "same v w"
      "index_left w st' (joined x (butlast (look ?f)) @ concat (map (\<lambda>x. joined x (look (tfields x ! oi))) xs))"
      using next_match[OF inv(1-3,5-7) f(1) sub ne, of k'] by (auto simp del: IndexedNestedLoopJoin_getNext.simps)
    show ?thesis unfolding st unfolding k' using w outer.same_trans[OF sv w(2)] joined_last[OF False, of x] by (simp del: IndexedNestedLoopJoin_getNext.simps)
  qed
qed

lemma index_left_next:
  assumes "index_left s st zs"
  shows "\<exists>r st' u. IndexedNestedLoopJoin_getNext (Suc K) hs kb onxt s st = Inr (r, st', u) \<and> same s u \<and>
      (case zs of [] \<Rightarrow> r = None | z # zs' \<Rightarrow> r = Some z \<and> index_left u st' zs')"
proof -
  obtain a j where aj: "st = (a, j)" by (cases st)
  obtain xs f where i: "oleft s a xs" "ready s" "length xs < K" "inner_index j = ix" "ij_col_index j = int oi"
    "\<forall>x \<in> set xs. oi < length (tfields x) \<and> key (tfields x ! oi)"
    "key f \<and> set (inner_matches j) \<subseteq> set (look f) \<or> inner_matches j = []"
    "zs = joined (ij_outer_tuple j) (inner_matches j) @ concat (map (\<lambda>x. joined x (look (tfields x ! oi))) xs)"
    using assms unfolding index_left_def aj by blast
  show ?thesis
  proof (cases "inner_matches j = []")
    case True
    then show ?thesis using next_row[OF i(1-3,3-6) True] i(8) aj by (simp del: IndexedNestedLoopJoin_getNext.simps)
  next
    case False
    then have f: "key f" "set (inner_matches j) \<subseteq> set (look f)" using i(7) by auto
    show ?thesis using next_match[OF i(1-6) f False, of K] i(8) joined_last[OF False] aj by (auto simp del: IndexedNestedLoopJoin_getNext.simps)
  qed
qed

lemma index_executer: "executer (IndexedNestedLoopJoin_getNext (Suc K) hs kb onxt) index_left same"
proof unfold_locales
  fix s st u x xs
  show "index_left s st [] \<Longrightarrow> \<exists>b u. IndexedNestedLoopJoin_getNext (Suc K) hs kb onxt s st = Inr (None, b, u) \<and> same s u"
    using index_left_next by (fastforce simp del: IndexedNestedLoopJoin_getNext.simps)
  show "index_left s st (x # xs) \<Longrightarrow> \<exists>b u. IndexedNestedLoopJoin_getNext (Suc K) hs kb onxt s st = Inr (Some x, b, u) \<and>
      same s u \<and> index_left u b xs"
    using index_left_next by (fastforce simp del: IndexedNestedLoopJoin_getNext.simps)
  show "index_left s st xs \<Longrightarrow> same s u \<Longrightarrow> index_left u st xs"
    unfolding index_left_def using outer.undisturbed inner.ready_same by fastforce
  show "index_left s st xs \<Longrightarrow> same s s"
    unfolding index_left_def using outer.same_refl by auto
qed (rule outer.same_trans)

end

section \<open>A hash index of a table\<close>

definition rid_row :: "(nat \<Rightarrow> buf) \<Rightarrow> (nat \<Rightarrow> entry list) \<Rightarrow> rid \<Rightarrow> tuple" where
  "rid_row v es r = stored_row (v (nat (page_id r))) (es (nat (page_id r)) ! nat (slot_num r))"

lemma ij_getTuple_reads:
  assumes wf: "table_wf s n t p0 ps es" and p: "p \<in> set ps" and i: "i < length (es p)"
  shows "\<exists>u. ij_getTuple s (RID (int p) (int i)) tup = Inr (stored_row (view s p) (es p ! i), u) \<and> same_pages n s u"
proof -
  have pn: "1 \<le> p" "p \<le> n" using table_wfD(6)[OF wf] p by auto
  obtain f u where u: "fetch_frame s (int p) = Inr (f, view s p, u)" "bpm_inv u n {}" "same_views n s u"
    using fetch_frame_inv[OF table_wfD(1)[OF wf] pn] by blast
  then show ?thesis using getTuple_stored[OF table_wfD(9)[OF wf p] i, of tup] by (simp add: ij_getTuple_def same_pages_def)
qed

lemma in_matches: "r \<in> set (Hash_Laws.matches ci k ps es) \<Longrightarrow> \<exists>p i. r = RID (int p) (int i) \<and> p \<in> set ps \<and> i < length (es p)"
  by (auto simp: Hash_Laws.matches_def page_matches_def)

lemma map_row_filter:
  "map (\<lambda>i. f (xs ! i)) (filter (\<lambda>i. P (xs ! i)) [0..<length xs]) = map f (filter P xs)"
  using filter_map[of P "(!) xs" "[0..<length xs]"] by (simp add: map_nth comp_def)

lemma map_rid_row_matches:
  assumes wf: "table_wf s n t p0 ps es" and v: "\<forall>q \<in> set ps. view s q = v q"
    and keys: "\<forall>p \<in> set ps. \<forall>e \<in> set (es p). keyed ty ci e"
  shows "map (rid_row v es) (Hash_Laws.matches ci k ps es) = filter (\<lambda>y. fequal (tfields y ! ci) k) (table_rows v ps es)"
proof -
  have pg: "map (rid_row v es) (page_matches ci k (es p) (int p)) =
      filter (\<lambda>y. fequal (tfields y ! ci) k) (map (row_of v) (filter shown (map (Pair p) (es p))))" if p: "p \<in> set ps" for p
  proof -
    have same: "fequal (tfields (row_of v (p, e)) ! ci) k \<longleftrightarrow> fequal (key_at ci e) k" if e: "e \<in> set (es p)" "visible e" for e
    proof -
      have "tuple_eqv (e_tuple e) (row_of v (p, e))" using stored_row_eqv[OF table_wfD(9)[OF wf p] e(1)] v p by (simp add: row_of_def)
      then have "field_eqv (tfields (e_tuple e) ! ci) (tfields (row_of v (p, e)) ! ci)"
        using keys p e by (auto simp: tuple_eqv_def keyed_def list_all2_conv_all_nth)
      then show ?thesis using hash_key_eqv keys p e by (fastforce simp: key_at_def keyed_def)
    qed
    have "map (rid_row v es) (page_matches ci k (es p) (int p)) =
        map (\<lambda>i. row_of v (p, es p ! i)) (filter (\<lambda>i. visible (es p ! i) \<and> fequal (key_at ci (es p ! i)) k) [0..<length (es p)])"
      by (simp add: page_matches_def rid_row_def row_of_def)
    also have "\<dots> = map (\<lambda>e. row_of v (p, e)) (filter (\<lambda>e. visible e \<and> fequal (key_at ci e) k) (es p))"
      by (rule map_row_filter[where f = "\<lambda>e. row_of v (p, e)" and P = "\<lambda>e. visible e \<and> fequal (key_at ci e) k"])
    also have "\<dots> = map (\<lambda>e. row_of v (p, e)) (filter (\<lambda>e. visible e \<and> fequal (tfields (row_of v (p, e)) ! ci) k) (es p))"
      using same by (intro arg_cong[of _ _ "map _"] filter_cong) auto
    finally show ?thesis by (simp add: filter_map shown_def comp_def conj_commute)
  qed
  have "map (rid_row v es) (concat (map (\<lambda>p. page_matches ci k (es p) (int p)) qs)) =
      filter (\<lambda>y. fequal (tfields y ! ci) k) (table_rows v qs es)" if "set qs \<subseteq> set ps" for qs
    using that pg by (induction qs) (simp_all add: table_rows_def paged_def)
  then show ?thesis by (simp add: Hash_Laws.matches_def)
qed

text \<open>The pages of the table are those of the start, and every search of the index finds the rows of the table.\<close>

definition indexed :: "(string \<Rightarrow> nat) \<Rightarrow> FieldType \<Rightarrow> nat \<Rightarrow> nat \<Rightarrow> table_heap \<Rightarrow> nat \<Rightarrow> nat list \<Rightarrow> (nat \<Rightarrow> entry list) \<Rightarrow> (nat \<Rightarrow> buf) \<Rightarrow>
    hash_wrapper \<Rightarrow> bpm \<Rightarrow> bool" where
  "indexed hs ty ci n t p0 ps es v w s \<longleftrightarrow> table_wf s n t p0 ps es \<and> (\<forall>q \<in> set ps. view s q = v q) \<and>
     (\<forall>k. hash_key ty k \<longrightarrow> HW_Search hs w k = Inr (Hash_Laws.matches ci k ps es))"

lemma same_pages_view: "same_pages n s u \<Longrightarrow> table_wf s n t p0 ps es \<Longrightarrow> q \<in> set ps \<Longrightarrow> view u q = view s q"
  using table_wfD(6)[of s n t p0 ps es q] by (auto simp: same_pages_def same_views_def)

interpretation hash_searched: searchable hs kb "I_Hash w" "hash_key ty" "\<lambda>k. Hash_Laws.matches ci k ps es" "rid_row v es"
  "indexed hs ty ci n t p0 ps es v w" "same_pages n" for hs kb w ty ci ps es v n t p0
proof unfold_locales
  fix s u f r
  assume s: "indexed hs ty ci n t p0 ps es v w s"
  then have wf: "table_wf s n t p0 ps es" "\<forall>q \<in> set ps. view s q = v q" by (simp_all add: indexed_def)
  show "indexed hs ty ci n t p0 ps es v w u" if u: "same_pages n s u"
    using s same_pages_view[OF u wf(1)] table_wf_same[OF wf(1), of u n] u by (auto simp: indexed_def same_pages_def)
  assume k: "hash_key ty f"
  show "\<exists>u. Index_Search hs kb (I_Hash w) f s = Inr (Hash_Laws.matches ci f ps es, I_Hash w, u) \<and> same_pages n s u"
    using s k table_wfD(1)[OF wf(1)] by (auto simp: indexed_def same_pages_def same_views_def)
  assume "r \<in> set (Hash_Laws.matches ci f ps es)"
  then obtain p i where r: "r = RID (int p) (int i)" "p \<in> set ps" "i < length (es p)" using in_matches by blast
  show "\<exists>u. ij_getTuple s r (Tuple []) = Inr (rid_row v es r, u) \<and> same_pages n s u"
    using ij_getTuple_reads[OF wf(1) r(2,3)] wf(2) r by (simp add: rid_row_def)
qed

interpretation scan_index: index_joined "scan_next k t" "scan_left k n t p0 ps es v" hs kb "I_Hash w" "hash_key ty"
  "\<lambda>key. Hash_Laws.matches ci key ps' es'" "rid_row v' es'" "indexed hs ty ci n t' p0' ps' es' v' w" "same_pages n" oi K
  for k t n p0 ps es v hs kb w ty ci ps' es' v' t' p0' oi K
  by unfold_locales

interpretation index_join: executer "IndexedNestedLoopJoin_getNext (Suc K) hs kb (scan_next k t)"
  "scan_index.index_left k n t p0 ps es v w ty ci ps' es' v' hs t' p0' oi K" "same_pages n"
  for k t n p0 ps es v hs kb w ty ci ps' es' v' t' p0' oi K
  by (rule scan_index.index_executer)

text \<open>
  The join of two tables through a hash index of the inner table that was loaded with it: for each row of the
  outer table in turn, its concatenations with the inner rows of an equal key, the last one first. These are the
  rows of the hash join, in another order. The column of the outer table is the one with the name of the
  indexed column, whatever the join condition.
\<close>

definition index_rows :: "nat \<Rightarrow> nat \<Rightarrow> tuple list \<Rightarrow> tuple list \<Rightarrow> tuple list" where
  "index_rows oi ii xs ys = concat (map (\<lambda>x. map (\<lambda>y. Tuple (tfields x @ tfields y))
     (rev (filter (\<lambda>y. fequal (tfields y ! ii) (tfields x ! oi)) ys))) xs)"

lemma index_rows_hash_rows: "mset (index_rows oi ii xs ys) = mset (hash_rows oi ii xs ys)"
proof -
  let ?row = "\<lambda>x y. if fequal (tfields x ! oi) (tfields y ! ii) then [Tuple (tfields x @ tfields y)] else []"
  have sym: "(\<lambda>y. fequal (tfields y ! ii) (tfields x ! oi)) = (\<lambda>y. fequal (tfields x ! oi) (tfields y ! ii))" for x
    by (auto simp: fequal_def)
  have "mset (index_rows oi ii xs ys) = mset (concat (map (\<lambda>x. concat (map (?row x) ys)) xs))"
    unfolding index_rows_def sym by (induction xs) (simp_all add: concat_if flip: rev_map)
  also have "\<dots> = mset (concat (map (\<lambda>y. concat (map (\<lambda>x. ?row x y) xs)) ys))" by (rule mset_concat_swap)
  also have "\<dots> = mset (hash_rows oi ii xs ys)" unfolding hash_rows_def by (simp add: concat_if)
  finally show ?thesis .
qed

lemma index_join_rows:
  assumes t: "in_pool s n t p0 ps es k xs" and wf: "table_wf s n t' p0' ps' es'" and keys: "\<forall>p \<in> set ps'. \<forall>e \<in> set (es' p). keyed ty ii e"
    and w: "\<forall>key. hash_key ty key \<longrightarrow> HW_Search hs w key = Inr (Hash_Laws.matches ii key ps' es')"
    and oi: "getColIndex (cols t) (hw_col_name w) = oi" "\<forall>x \<in> set xs. oi < length (tfields x) \<and> hash_key ty (tfields x ! oi)"
    and K: "length xs < K" and m: "length (index_rows oi ii xs (table_rows (view s) ps' es')) < m"
  shows "\<exists>st u. drain m (IndexedNestedLoopJoin_getNext (Suc K) hs kb (scan_next k t)) s
      (seq_open t, ij_set_output_schema sch (cols t') (IndexedNestedLoopJoin (cols t) (I_Hash w))) =
      Inr (index_rows oi ii xs (table_rows (view s) ps' es'), st, u) \<and> table_wf u n t p0 ps es \<and> table_wf u n t' p0' ps' es'"
proof -
  let ?ys = "table_rows (view s) ps' es'" and ?j = "ij_set_output_schema sch (cols t') (IndexedNestedLoopJoin (cols t) (I_Hash w))"
  have j: "inner_index ?j = I_Hash w" "ij_col_index ?j = int oi" "inner_matches ?j = []"
    using oi(1) by (simp_all add: ij_set_output_schema_def IndexedNestedLoopJoin_def)
  have ready: "indexed hs ty ii n t' p0' ps' es' (view s) w s" using wf w by (simp add: indexed_def)
  have "scan_index.joined (view s) es' x (Hash_Laws.matches ii key ps' es') =
      map (\<lambda>y. Tuple (tfields x @ tfields y)) (rev (filter (\<lambda>y. fequal (tfields y ! ii) key) ?ys))" for x key
    unfolding scan_index.joined_def map_rid_row_matches[OF wf _ keys, of "view s" key, simplified, symmetric] by (simp add: rev_map)
  then have rows: "index_rows oi ii xs ?ys = concat (map (\<lambda>x. scan_index.joined (view s) es' x (Hash_Laws.matches ii (tfields x ! oi) ps' es')) xs)"
    unfolding index_rows_def by simp
  have "scan_index.index_left k n t p0 ps es (view s) w ty ii ps' es' (view s) hs t' p0' oi K s (seq_open t, ?j) (index_rows oi ii xs ?ys)"
    unfolding scan_index.index_left_def rows using in_pool_left(1)[OF t] ready K j oi(2) by auto
  from index_join.drain_left[OF this m] obtain st u where
    d: "drain m (IndexedNestedLoopJoin_getNext (Suc K) hs kb (scan_next k t)) s (seq_open t, ?j) = Inr (index_rows oi ii xs ?ys, st, u)"
    "same_pages n s u" by blast
  have "table_wf u n t' p0' ps' es'" using d(2) table_wf_same[OF wf, of u n] by (auto simp: same_pages_def)
  then show ?thesis using d in_pool_same[OF t d(2)] by blast
qed

text \<open>A deleted row that the index still has is read like any other.\<close>

lemma ij_getTuple_deleted:
  assumes "table_wf s n t p0 ps es" "p \<in> set ps" "i < length (es p)" "\<not> visible (es p ! i)"
  shows "\<exists>u. ij_getTuple s (RID (int p) (int i)) tup = Inr (stored_row (view s p) (es p ! i), u)"
  using ij_getTuple_reads[OF assms(1-3)] by blast

end
