(* ===== verification/Spec2Isabelle.thy ===== *)
theory Spec2Isabelle imports Rid_Model Field_Order Page_Overrun Query_Props Txn_Props Catalog_Props Sort_Props Index_Join
begin

text \<open>
  A verification development of a disk-based relational database engine written in C++.

  \<^bold>\<open>The program.\<close> A database is two files of 4096-byte pages, one for the catalog and one for the tables. \<^verbatim>\<open>DiskManager\<close>
  (src/Storage/Disk) maps page ids to file offsets and keeps the metadata page, \<^verbatim>\<open>LRU\<close> and \<^verbatim>\<open>BufferPoolManager\<close> (src/Buffer) hold 100
  frames over it. \<^verbatim>\<open>Field\<close>, \<^verbatim>\<open>Tuple\<close>, \<^verbatim>\<open>Page\<close> (src/Storage/Page), \<^verbatim>\<open>RID\<close>, \<^verbatim>\<open>Column\<close>, \<^verbatim>\<open>TableHeap\<close>, \<^verbatim>\<open>TableIterator\<close> (src/Storage/Table) store
  rows in chains of slotted pages; src/Storage/Indexing has a static hash index, a B+ tree and their wrappers; \<^verbatim>\<open>Catalog\<close> (src/Catalog) names
  the tables. A statement is parsed by a third-party parser, bound (src/Binder), planned (src/QueryPlan), turned into executers
  (\<^verbatim>\<open>ExecutorFactory\<close>, src/Executer) and run by pulling rows through \<^verbatim>\<open>getNext\<close> (src/Q_Execution). Statements that change rows run in a
  transaction (src/TransactionManager) with a write-ahead log and recovery (src/Recovery).

  \<^bold>\<open>Conventions.\<close> (DB_Prelude) A C++ operation is a function to \<open>'a res\<close>, that is \<open>err + 'a\<close>: \<open>Throw\<close> is an exception, \<open>Undefined\<close> an access
  outside an object, a read of the wrong union member or a null pointer, \<open>Diverges\<close> the end of the fuel of a loop. Objects are records
  passed and returned; an \<open>enum\<close> is a datatype; a 32-bit \<^verbatim>\<open>int\<close> is an \<open>int\<close> with its range in the hypotheses or the wrap-around written out; a
  page array is a \<open>buf\<close> (capacity and bytes) with checked \<^verbatim>\<open>memcpy\<close>; \<^verbatim>\<open>unordered_map\<close> is an association list; a frame pointer is the number of
  its frame, so that a pointer kept across an eviction reads what the frame holds then; a \<^verbatim>\<open>double\<close> is its 64 bits (Float_Bits).

  \<^bold>\<open>Theories and what their lemmas show.\<close>
  \<^item> Codec: the contract of objects that write and read themselves (locale \<open>codec\<close>), with the bytes an object writes beyond the size it
    reports. Interpreted for fields, tuples, RIDs, columns, log records, B+ tree entries and keys, index descriptions and the disk
    manager's tables.
  \<^item> Field_Model, Field_Laws, Field_Order, Float_Bits, Tuple_Model, Rid_Model, Column_Model: values and rows; round trips, faithful copies,
    and that the comparison operators are one strict weak order (locale \<open>value_order\<close>, also interpreted for the rows of a sort).
  \<^item> Page_Model, Page_Laws, Page_Overrun: slotted pages as bytes; the invariant \<open>page_wf\<close> relates them to a list of entries, and each operation is
    refined to that list, with the case where a row overwrites its neighbour.
  \<^item> Disk_Manager, Lru_Cache, Buffer_Pool, Pool_Client, Loose_Pool: the file, the replacement policy (locale \<open>replacer\<close>), the pool. \<open>bpm_inv\<close> is
    the invariant of the pool and \<open>view\<close> its abstract value, a page for each id; fetching leaves the view alone, a marked write changes one page.
    Loose_Pool does the same for a pool some of whose pages are written without being marked.
  \<^item> Table_Model, Table_Laws, Table_Props, Scan: tables as chains of pages; \<open>table_wf\<close>, insertion, reading, deletion, what a restart keeps, and
    that a scan returns the rows.
  \<^item> Hash_Index, Hash_Laws, Bplus_Tree, Bplus_Page, Bplus_Laws, Bplus_Props, Bplus_Remove, Table_Index: the indexes (locale \<open>multi_index\<close>); the B+
    tree as a sorted list of entries on its pages; growing the hash table; what removal does wrong; filling an index from a table.
  \<^item> Executer_Spec, Executers, Joins, Join_Props: the interface of the operators (locales \<open>executer\<close> and \<open>reopenable\<close>) and selection, projection,
    limit, nested loop join and hash join (locales \<open>nested_join\<close>, \<open>hash_joined\<close>), interpreted on scans and on each other. Index_Join: the
    join through an index (locales \<open>searchable\<close>, \<open>index_joined\<close>), interpreted on a hash index loaded from its table.
  \<^item> Merge_Sort, Sort_Pages, Sort_Runs, Sort_Laws, Sort_Open, Sort_Props: external merge sort; \<open>std::sort\<close> is an argument with its documented
    contract (locale \<open>sorter\<close>).
  \<^item> Query, Query_Props: bound expressions and statements, \<^verbatim>\<open>PlanSelect\<close>, and the executers of a plan; a statement returns the rows that its clauses
    select.
  \<^item> Wal_Record, Recovery, Txn_Props: the log, recovery, transactions and the executers that change rows.
  \<^item> Catalog_Model, Catalog_Props: the tables of a database and their description on pages.

  \<^bold>\<open>Fuel and bounds.\<close> A loop that a broken structure could keep going takes fuel: walks along page chains, scans, joins, descents of the
  tree. The theorems give fuel that is enough (more than the pages, rows or levels left) and so state that the code returns.
  Page numbers are bounded where the capacity of the file, doubled and multiplied by 4096, must fit an \<^verbatim>\<open>int\<close>: below 60000 pages; the B+ tree
  theorems allow 4095 insertions, for which a tree has at most 12 levels and an insertion takes at most 14 new pages, and say what they need of
  the link of the last leaf, which the program leaves uninitialised; the sort counts a page per run, merge and copied row (\<open>sort_pages\<close>). The
  hypotheses \<open>tuple_fits\<close> and \<open>row_fit\<close> are about rows whose overrun stays inside their slot; Page_Overrun shows what the others do.

  \<^bold>\<open>Not modelled.\<close> The SQL parser is third-party code (a submodule), and the binder translates its syntax trees: names are bound already in the
  model. The aggregation operators, the merge join, the printing of plans, expressions and objects, the
  test programs and the server loop around a statement are left out; so are the statements of the factory that only pass a bound
  statement to its executer.
\<close>

end
